(* ===== verification/Zephyr_Prelude.thy ===== *)
theory Zephyr_Prelude
  imports Main "HOL-Library.Word"
begin

text \<open>
  The vocabulary shared by every component: the integer types of the supported targets, Rust's
  \<open>Result\<close>, the outcome of a call that may panic or stay blocked, and the generic lemmas about
  lists, options and words that the component proofs use.
\<close>

section \<open>Types\<close>

text \<open>
  \<open>usize\<close> is the address-sized unsigned integer of a 32-bit target. A pointer is its address, and
  the null pointer is address 0.
\<close>

type_synonym u8 = "8 word"
type_synonym u16 = "16 word"
type_synonym u32 = "32 word"
type_synonym u64 = "64 word"
type_synonym i64 = "64 word"
type_synonym c_int = "32 word"
type_synonym usize = "32 word"
type_synonym ptr = "usize"

datatype ('a, 'e) result = Ok 'a | Err 'e

text \<open>
  What a call does: it returns a value, it panics (the panic handler never returns, so no state is
  left to describe), it cannot take effect in the present state and the caller stays blocked, or it
  has undefined behaviour (an unsafe access to memory that does not hold a value of its type).
\<close>

datatype 'a outcome = Ret 'a | Panic string | Blocked | UB

primrec bind_outcome :: "'a outcome \<Rightarrow> ('a \<Rightarrow> 'b outcome) \<Rightarrow> 'b outcome" where
  "bind_outcome (Ret x) f = f x"
| "bind_outcome (Panic m) f = Panic m"
| "bind_outcome Blocked f = Blocked"
| "bind_outcome UB f = UB"

primrec is_ok :: "('a, 'e) result \<Rightarrow> bool" where
  "is_ok (Ok _) = True"
| "is_ok (Err _) = False"

primrec map_ok :: "('a \<Rightarrow> 'b) \<Rightarrow> ('a, 'e) result \<Rightarrow> ('b, 'e) result" where
  "map_ok f (Ok x) = Ok (f x)"
| "map_ok f (Err e) = Err e"

text \<open>\<open>Result::unwrap\<close> and \<open>Option::expect\<close>.\<close>

primrec unwrap :: "('a, 'e) result \<Rightarrow> 'a outcome" where
  "unwrap (Ok x) = Ret x"
| "unwrap (Err e) = Panic ''called `Result::unwrap()` on an `Err` value''"

primrec expect :: "string \<Rightarrow> 'a option \<Rightarrow> 'a outcome" where
  "expect m (Some x) = Ret x"
| "expect m None = Panic m"

named_theorems outcome_simps

section \<open>Generic lemmas\<close>

lemma bind_outcome_eq_Ret [outcome_simps]:
  "bind_outcome m f = Ret y \<longleftrightarrow> (\<exists>x. m = Ret x \<and> f x = Ret y)"
  by (cases m) auto

lemma bind_outcome_eq_Panic [outcome_simps]:
  "bind_outcome m f = Panic p \<longleftrightarrow> m = Panic p \<or> (\<exists>x. m = Ret x \<and> f x = Panic p)"
  by (cases m) auto

lemma bind_outcome_eq_Blocked [outcome_simps]:
  "bind_outcome m f = Blocked \<longleftrightarrow> m = Blocked \<or> (\<exists>x. m = Ret x \<and> f x = Blocked)"
  by (cases m) auto

lemma bind_outcome_eq_UB [outcome_simps]:
  "bind_outcome m f = UB \<longleftrightarrow> m = UB \<or> (\<exists>x. m = Ret x \<and> f x = UB)"
  by (cases m) auto

lemma bind_outcome_assoc:
  "bind_outcome (bind_outcome m f) g = bind_outcome m (\<lambda>x. bind_outcome (f x) g)"
  by (cases m) auto

lemma unwrap_eq_Ret [outcome_simps]: "unwrap r = Ret x \<longleftrightarrow> r = Ok x"
  by (cases r) auto

lemma expect_eq_Ret [outcome_simps]: "expect m r = Ret x \<longleftrightarrow> r = Some x"
  by (cases r) auto

lemma map_ok_eq_Ok [simp]: "map_ok f r = Ok y \<longleftrightarrow> (\<exists>x. r = Ok x \<and> y = f x)"
  by (cases r) auto

lemma map_ok_eq_Err [simp]: "map_ok f r = Err e \<longleftrightarrow> r = Err e"
  by (cases r) auto

lemma is_ok_map_ok [simp]: "is_ok (map_ok f r) = is_ok r"
  by (cases r) auto

text \<open>Lists without repetition under the updates the queues make.\<close>

lemma remove1_distinct_set: "distinct xs \<Longrightarrow> set (remove1 x xs) = set xs - {x}"
  by simp

lemma length_remove1_mem: "x \<in> set xs \<Longrightarrow> Suc (length (remove1 x xs)) = length xs"
  by (induction xs) auto

text \<open>The first index with a property.\<close>

lemma find_upt_first:
  assumes "i < n" and "P i" and "\<And>j. j < i \<Longrightarrow> \<not> P j"
  shows "List.find P [0..<n] = Some i"
proof -
  have "[0..<n] ! j = j" if "j < n" for j using that by simp
  with assms show ?thesis unfolding find_Some_iff by (intro exI [of _ i]) simp
qed

text \<open>
  A map from threads to what each holds: nothing is held twice, and what acquiring and releasing one
  value does to the set of the values that are held.
\<close>

definition exclusive :: "('t \<rightharpoonup> 'v) \<Rightarrow> bool" where
  "exclusive g \<longleftrightarrow> (\<forall>t u p. g t = Some p \<longrightarrow> g u = Some p \<longrightarrow> t = u)"

lemma exclusiveD: "exclusive g \<Longrightarrow> g t = Some p \<Longrightarrow> g u = Some p \<Longrightarrow> t = u"
  by (auto simp: exclusive_def)

lemma exclusive_empty [simp]: "exclusive (\<lambda>_. None)"
  by (simp add: exclusive_def)

lemma exclusive_acquire: "exclusive g \<Longrightarrow> p \<notin> ran g \<Longrightarrow> exclusive (g(t \<mapsto> p))"
  by (auto simp: exclusive_def ran_def)

lemma exclusive_release: "exclusive g \<Longrightarrow> exclusive (g(t := None))"
  by (auto simp: exclusive_def)

lemma ran_mem: "g t = Some p \<Longrightarrow> p \<in> ran g"
  by (auto simp: ran_def)

lemma ran_release: "exclusive g \<Longrightarrow> g t = Some p \<Longrightarrow> ran (g(t := None)) = ran g - {p}"
  by (force simp: exclusive_def ran_def)

end
