(* ===== verification/Error_Time.thy ===== *)
theory Error_Time
  imports Zephyr_Prelude
begin

text \<open>
  \<open>zephyr/src/error.rs\<close>: the conversion of Zephyr's integer results; \<open>zephyr/src/sys.rs\<close> and
  \<open>zephyr/src/time.rs\<close>: the timeout constants and the conversion of durations and instants into
  \<open>k_timeout_t\<close> ticks. \<open>Tick\<close> is \<open>u64\<close> (\<open>CONFIG_TIMEOUT_64BIT\<close>), \<open>k_ticks_t\<close> is \<open>i64\<close>, kept as a
  64-bit word read by \<^const>\<open>sint\<close>.
\<close>

section \<open>Errors\<close>

datatype Error = Error u32

primrec errno :: "Error \<Rightarrow> u32" where
  "errno (Error n) = n"

text \<open>
  The negation is that of a release build; with overflow checks it panics at the smallest code, which is not the
  negative of an error number.
\<close>

definition to_result :: "c_int \<Rightarrow> (c_int, Error) result" where
  "to_result code = (if sint code < 0 then Err (Error (- code)) else Ok code)"

definition to_result_void :: "c_int \<Rightarrow> (unit, Error) result" where
  "to_result_void code = map_ok (\<lambda>_. ()) (to_result code)"

text \<open>Result of a callback handed back to C: \<open>Err(e) => -(e.0 as c_int)\<close>.\<close>

definition of_error :: "Error \<Rightarrow> c_int" where
  "of_error e = - errno e"

section \<open>Timeouts\<close>

type_synonym k_ticks_t = i64

datatype k_timeout_t = K_timeout (ticks: k_ticks_t)

definition K_FOREVER :: k_timeout_t where
  "K_FOREVER = K_timeout (- 1)"

definition K_NO_WAIT :: k_timeout_t where
  "K_NO_WAIT = K_timeout 0"

text \<open>
  \<open>checked_cast\<close> at \<open>u64 \<rightarrow> i64\<close>: \<open>try_into\<close> fails above \<open>i64::MAX\<close>; the argument \<open>dbg\<close> is
  \<open>cfg!(debug_assertions)\<close>.
\<close>

definition checked_cast :: "bool \<Rightarrow> u64 \<Rightarrow> i64 outcome" where
  "checked_cast dbg t =
     (if 0 \<le> sint t then Ret t
      else if dbg then Panic ''Overflow in time conversion''
      else Ret 0)"

definition debug_assert_ne :: "bool \<Rightarrow> i64 \<Rightarrow> i64 \<Rightarrow> unit outcome" where
  "debug_assert_ne dbg a b = (if dbg \<and> a = b then Panic ''assertion `left != right` failed'' else Ret ())"

text \<open>\<open>impl From<Duration> for Timeout\<close>: the argument is \<open>value.ticks()\<close>.\<close>

definition Timeout_from_Duration :: "bool \<Rightarrow> u64 \<Rightarrow> k_timeout_t outcome" where
  "Timeout_from_Duration dbg d =
     bind_outcome (checked_cast dbg d) (\<lambda>t.
     bind_outcome (debug_assert_ne dbg t (ticks K_FOREVER)) (\<lambda>_.
     bind_outcome (debug_assert_ne dbg t (ticks K_NO_WAIT)) (\<lambda>_.
     Ret (K_timeout t))))"

text \<open>
  \<open>impl From<Instant> for Timeout\<close>: \<open>-1 - 1 - ticks\<close> in \<open>i64\<close>, whose overflow panics when overflow
  checks are on (they follow \<open>debug_assertions\<close>) and wraps otherwise.
\<close>

definition i64_sub :: "bool \<Rightarrow> i64 \<Rightarrow> i64 \<Rightarrow> i64 outcome" where
  "i64_sub dbg a b =
     (if dbg \<and> sint (a - b) \<noteq> sint a - sint b then Panic ''attempt to subtract with overflow''
      else Ret (a - b))"

definition Timeout_from_Instant :: "bool \<Rightarrow> u64 \<Rightarrow> k_timeout_t outcome" where
  "Timeout_from_Instant dbg i =
     bind_outcome (checked_cast dbg i) (\<lambda>t.
     bind_outcome (debug_assert_ne dbg t (ticks K_FOREVER)) (\<lambda>_.
     bind_outcome (debug_assert_ne dbg t (ticks K_NO_WAIT)) (\<lambda>_.
     bind_outcome (i64_sub dbg (- 1) 1) (\<lambda>m.
     bind_outcome (i64_sub dbg m t) (\<lambda>r. Ret (K_timeout r))))))"

definition Timeout_from_Forever :: "k_timeout_t" where
  "Timeout_from_Forever = K_FOREVER"

definition Timeout_from_NoWait :: "k_timeout_t" where
  "Timeout_from_NoWait = K_NO_WAIT"

text \<open>\<open>impl PartialEq for Timeout\<close> compares the ticks.\<close>

definition Timeout_eq :: "k_timeout_t \<Rightarrow> k_timeout_t \<Rightarrow> bool" where
  "Timeout_eq a b \<longleftrightarrow> ticks a = ticks b"

text \<open>
  The ranges of \<open>k_timeout_t\<close> that the comment in \<open>time.rs\<close> lists: 0 does not wait, a positive value
  waits for that many ticks, \<open>-1\<close> waits forever, and \<open>-2 - t\<close> waits until tick \<open>t\<close>.
\<close>

datatype timeout_kind = NoWaiting | Relative int | Never | Absolute int

definition timeout_kind :: "k_timeout_t \<Rightarrow> timeout_kind" where
  "timeout_kind t =
     (let n = sint (ticks t) in
      if n = 0 then NoWaiting else if n > 0 then Relative n
      else if n = - 1 then Never else Absolute (- 2 - n))"

section \<open>Lemmas\<close>

lemma sint_uint_neg_word32: "sint (c::c_int) < 0 \<Longrightarrow> uint (- c) = - sint c"
proof -
  assume neg: "sint c < 0"
  have lo: "- (2 ^ 31) \<le> sint c" using sint_ge [of c] by simp
  have "uint (- c) = uint (word_of_int (- sint c) :: c_int)" by simp
  also have "\<dots> = (- sint c) mod 2 ^ 32"
    by (simp only: uint_word_of_int) simp
  also have "\<dots> = - sint c" using neg lo by simp
  finally show ?thesis .
qed

lemma sint_uint_nonneg: "sint w = uint w" if "0 \<le> sint w" for w :: i64
proof -
  have "uint w = sint w mod 2 ^ 64" by (simp add: uint_sint take_bit_eq_mod)
  also have "\<dots> = sint w" using that sint_lt [of w] by simp
  finally show ?thesis by simp
qed

lemma sint_neg_large: "2 ^ 63 \<le> uint w" if "sint w < 0" for w :: i64
proof -
  have "uint w = sint w mod 2 ^ 64" by (simp add: uint_sint take_bit_eq_mod)
  also have "\<dots> = sint w + 2 ^ 64"
  proof -
    have "sint w mod 2 ^ 64 = (sint w + 2 ^ 64) mod 2 ^ 64" by simp
    also have "\<dots> = sint w + 2 ^ 64"
      using that sint_ge [of w] by (intro mod_pos_pos_trivial) simp_all
    finally show ?thesis .
  qed
  finally show ?thesis using sint_ge [of w] by simp
qed

lemma sint_nonneg_iff: "0 \<le> sint w \<longleftrightarrow> uint w < 2 ^ 63" for w :: i64
  using sint_uint_nonneg [of w] sint_neg_large [of w] sint_lt [of w] by force

lemma sint_diff_word64:
  fixes a b :: i64
  assumes "- (2 ^ 63) \<le> sint a - sint b" and "sint a - sint b < 2 ^ 63"
  shows "sint (a - b) = sint a - sint b"
  using assms by (simp add: sint_word_ariths signed_take_bit_int_eq_self)

lemma sint_minus_two_minus:
  fixes t :: i64
  assumes "0 \<le> sint t" and "sint t < 2 ^ 63 - 1"
  shows "sint (- 2 - t) = - 2 - sint t"
  using sint_diff_word64 [of "- 2" t] assms by simp

lemma K_FOREVER_iff: "t = K_FOREVER \<longleftrightarrow> ticks t = - 1"
  by (cases t) (simp add: K_FOREVER_def)

lemma ticks_consts [simp]: "ticks K_FOREVER = - 1" "ticks K_NO_WAIT = 0"
  by (simp_all add: K_FOREVER_def K_NO_WAIT_def)

lemma i64_sub_one: "i64_sub dbg (- 1) 1 = Ret (- 2)"
  by (simp add: i64_sub_def)

lemma checked_cast_in_range: "uint t < 2 ^ 63 \<Longrightarrow> checked_cast dbg t = Ret t"
  by (simp only: checked_cast_def sint_nonneg_iff) simp

section \<open>Properties\<close>

text \<open>
  \<open>to_result\<close> maps a C result to exactly one Rust value and loses nothing: a non-negative code is
  returned as it is, and a negative code, including \<open>i32::MIN\<close>, becomes the error number that is its
  negation, from which the code handed back to C (\<open>of_error\<close>) is the original one.
\<close>

theorem to_result_faithful:
  "case to_result code of
     Ok v \<Rightarrow> v = code \<and> 0 \<le> sint code
   | Err e \<Rightarrow> uint (errno e) = - sint code \<and> 0 < uint (errno e) \<and> of_error e = code"
  by (simp add: to_result_def of_error_def sint_uint_neg_word32)

text \<open>
  A duration of at least one tick that fits \<open>i64\<close> becomes a relative timeout of exactly that many
  ticks in every build; a longer one panics in a debug build and does not wait at all in a release
  build.
\<close>

theorem Timeout_from_Duration_kind:
  "(0 < uint d \<and> uint d < 2 ^ 63 \<longrightarrow>
     (\<exists>t. Timeout_from_Duration dbg d = Ret t \<and> timeout_kind t = Relative (uint d))) \<and>
   (2 ^ 63 \<le> uint d \<longrightarrow>
     Timeout_from_Duration dbg d =
       (if dbg then Panic ''Overflow in time conversion'' else Ret K_NO_WAIT))"
proof (intro conjI impI)
  assume d: "0 < uint d \<and> uint d < 2 ^ 63"
  then have s: "sint d = uint d" using sint_nonneg_iff [of d] sint_uint_nonneg by simp
  with d have "d \<noteq> - 1" "d \<noteq> 0" by auto
  then have "Timeout_from_Duration dbg d = Ret (K_timeout d)"
    using d checked_cast_in_range [of d dbg]
    by (simp add: Timeout_from_Duration_def debug_assert_ne_def K_FOREVER_def K_NO_WAIT_def)
  with s d show "\<exists>t. Timeout_from_Duration dbg d = Ret t \<and> timeout_kind t = Relative (uint d)"
    by (simp add: timeout_kind_def)
next
  assume "2 ^ 63 \<le> uint d"
  then have "\<not> 0 \<le> sint d" using sint_nonneg_iff [of d] by simp
  then show "Timeout_from_Duration dbg d =
      (if dbg then Panic ''Overflow in time conversion'' else Ret K_NO_WAIT)"
    by (simp add: Timeout_from_Duration_def checked_cast_def debug_assert_ne_def K_NO_WAIT_def)
qed

theorem Timeout_from_Duration_kind_witness:
  "(\<exists>t. Timeout_from_Duration True 5 = Ret t \<and> timeout_kind t = Relative 5) \<and>
   Timeout_from_Duration False (2 ^ 63) = Ret K_NO_WAIT"
  using Timeout_from_Duration_kind [of 5 True] Timeout_from_Duration_kind [of "2 ^ 63" False]
  by simp

text \<open>
  C35. An instant at tick \<open>i\<close>, for every \<open>i\<close> from 1 up to \<open>i64::MAX - 1\<close>, becomes the absolute timeout
  of tick \<open>i\<close> in every build; at \<open>i64::MAX\<close> the subtraction overflows, so a debug build panics and a
  release build produces a relative wait of \<open>i64::MAX\<close> ticks instead of an absolute one.
\<close>

theorem Timeout_from_Instant_kind:
  "(0 < uint i \<and> uint i < 2 ^ 63 - 1 \<longrightarrow>
     (\<exists>t. Timeout_from_Instant dbg i = Ret t \<and> timeout_kind t = Absolute (uint i))) \<and>
   Timeout_from_Instant True (2 ^ 63 - 1) = Panic ''attempt to subtract with overflow'' \<and>
   (\<exists>t. Timeout_from_Instant False (2 ^ 63 - 1) = Ret t \<and> timeout_kind t = Relative (2 ^ 63 - 1))"
proof (intro conjI impI)
  assume i: "0 < uint i \<and> uint i < 2 ^ 63 - 1"
  then have s: "sint i = uint i" using sint_nonneg_iff [of i] sint_uint_nonneg by simp
  with i have ne: "i \<noteq> - 1" "i \<noteq> 0" by auto
  have m: "sint (- 2 - i) = - 2 - uint i" using sint_minus_two_minus [of i] s i by simp
  then have "i64_sub dbg (- 2) i = Ret (- 2 - i)" using s by (simp add: i64_sub_def)
  then have "Timeout_from_Instant dbg i = Ret (K_timeout (- 2 - i))"
    using i ne checked_cast_in_range [of i dbg]
    by (simp add: Timeout_from_Instant_def debug_assert_ne_def K_FOREVER_def K_NO_WAIT_def i64_sub_one)
  with m i show "\<exists>t. Timeout_from_Instant dbg i = Ret t \<and> timeout_kind t = Absolute (uint i)"
    by (simp add: timeout_kind_def)
next
  show "Timeout_from_Instant True (2 ^ 63 - 1) = Panic ''attempt to subtract with overflow''"
    by (simp add: Timeout_from_Instant_def checked_cast_def debug_assert_ne_def K_FOREVER_def
        K_NO_WAIT_def i64_sub_def)
  show "\<exists>t. Timeout_from_Instant False (2 ^ 63 - 1) = Ret t \<and> timeout_kind t = Relative (2 ^ 63 - 1)"
    by (simp add: Timeout_from_Instant_def checked_cast_def debug_assert_ne_def K_FOREVER_def
        K_NO_WAIT_def i64_sub_def timeout_kind_def)
qed

theorem Timeout_from_Instant_kind_witness:
  "\<exists>t. Timeout_from_Instant True 1000 = Ret t \<and> timeout_kind t = Absolute 1000"
  using Timeout_from_Instant_kind [of 1000 True] by simp

end
