(* ===== verification/Once.thy ===== *)
theory Once
  imports Zephyr_Prelude
begin

text \<open>
  Atomic operations on a single cell, and the contract \<open>one_shot\<close> of an operation that succeeds for
  its first caller only. The device wrappers, the static kernel objects and the worker pool each rely
  on this contract. \<open>zephyr/src/device.rs\<close> (\<open>Unique\<close>) is its smallest provider.
\<close>

section \<open>Atomic cells\<close>

text \<open>Each operation returns what the Rust call returns, with the new contents of the cell.\<close>

definition compare_exchange :: "'a \<Rightarrow> 'a \<Rightarrow> 'a \<Rightarrow> ('a, 'a) result \<times> 'a" where
  "compare_exchange cur expected desired =
     (if cur = expected then (Ok cur, desired) else (Err cur, cur))"

definition fetch_or :: "bool \<Rightarrow> bool \<Rightarrow> bool \<times> bool" where
  "fetch_or cur v = (cur, cur \<or> v)"

definition atomic_swap :: "'a \<Rightarrow> 'a \<Rightarrow> 'a \<times> 'a" where
  "atomic_swap cur v = (cur, v)"

section \<open>\<open>Unique\<close>\<close>

datatype Unique = Unique bool

definition Unique_new :: Unique where
  "Unique_new = Unique False"

fun Unique_once :: "Unique \<Rightarrow> bool \<times> Unique" where
  "Unique_once (Unique b) = (let (old, b') = fetch_or b True in (\<not> old, Unique b'))"

section \<open>The contract\<close>

text \<open>Calling an operation \<open>n\<close> times: the answers in order and the final state.\<close>

fun run_calls :: "('s \<Rightarrow> bool \<times> 's) \<Rightarrow> nat \<Rightarrow> 's \<Rightarrow> bool list \<times> 's" where
  "run_calls f 0 s = ([], s)"
| "run_calls f (Suc n) s =
     (let (b, s') = f s; (bs, s'') = run_calls f n s' in (b # bs, s''))"

locale one_shot =
  fixes attempt :: "'s \<Rightarrow> bool \<times> 's"
    and fresh :: "'s \<Rightarrow> bool"
  assumes attempt_fresh: "fresh s \<Longrightarrow> fst (attempt s)"
    and attempt_used: "\<not> fresh s \<Longrightarrow> \<not> fst (attempt s)"
    and attempt_uses: "\<not> fresh (snd (attempt s))"
begin

lemma run_calls_used: "\<not> fresh s \<Longrightarrow> fst (run_calls attempt n s) = replicate n False"
proof (induction n arbitrary: s)
  case (Suc n)
  obtain b s' where a: "attempt s = (b, s')" by fastforce
  have "\<not> b" and "\<not> fresh s'"
    using attempt_used [OF Suc.prems] attempt_uses [of s] a by auto
  with Suc.IH [of s'] a show ?case by (simp add: split_beta)
qed simp

lemma run_calls_fresh:
  assumes "fresh s"
  shows "fst (run_calls attempt (Suc n) s) = True # replicate n False"
proof -
  obtain b s' where a: "attempt s = (b, s')" by fastforce
  have "b" and "\<not> fresh s'"
    using attempt_fresh [OF assms] attempt_uses [of s] a by auto
  with run_calls_used [of s' n] a show ?thesis by (simp add: split_beta)
qed

lemma one_success:
  assumes "fresh s"
  shows "count_list (fst (run_calls attempt n s)) True = (if n = 0 then 0 else 1)"
proof (cases n)
  case (Suc m)
  have "count_list (replicate m False) True = 0" by (induction m) auto
  with Suc run_calls_fresh [OF assms, of m] show ?thesis by simp
qed simp

end

interpretation unique: one_shot Unique_once "\<lambda>u. u = Unique_new"
proof unfold_locales
  fix s :: Unique
  show "s = Unique_new \<Longrightarrow> fst (Unique_once s)"
    by (simp add: Unique_new_def fetch_or_def)
  show "s \<noteq> Unique_new \<Longrightarrow> \<not> fst (Unique_once s)"
    by (cases s) (simp add: Unique_new_def fetch_or_def)
  show "snd (Unique_once s) \<noteq> Unique_new"
    by (cases s) (simp add: Unique_new_def fetch_or_def)
qed

section \<open>Properties\<close>

text \<open>
  However often \<open>Unique::once\<close> is called on a new \<open>Unique\<close>, the first call answers true and every
  later call answers false.
\<close>

theorem Unique_once_exactly_once:
  "fst (run_calls Unique_once (Suc n) Unique_new) = True # replicate n False"
  by (rule unique.run_calls_fresh) simp

end
