(* ===== verification/Kernel_Object.thy ===== *)
theory Kernel_Object
  imports Once
begin

text \<open>
  \<open>zephyr/src/object.rs\<close>: kernel objects that are initialised on first use and must not move afterwards
  (\<open>ZephyrObject\<close>), statically declared kernel objects (\<open>StaticKernelObject\<close>), and the fixed or boxed
  storage \<open>Fixed\<close>. The kernel structure itself is the type parameter; its C initialiser is the
  argument \<open>init\<close>.
\<close>

section \<open>\<open>ZephyrObject\<close>\<close>

record 't ZephyrObject =
  zo_state :: usize
  zo_object :: 't

text \<open>\<open>zeroed\<close> is the all-zero value of the kernel structure.\<close>

definition ZephyrObject_new_raw :: "'t \<Rightarrow> 't ZephyrObject" where
  "ZephyrObject_new_raw zeroed = \<lparr>zo_state = 0, zo_object = zeroed\<rparr>"

text \<open>
  \<open>get\<close> in its two atomic parts: the relaxed load, and the critical section. \<open>addr\<close> is the address
  of the object cell, \<open>self.object.get()\<close>.
\<close>

definition ZephyrObject_get_fast :: "ptr \<Rightarrow> 't ZephyrObject \<Rightarrow> ptr option outcome" where
  "ZephyrObject_get_fast addr self =
     (if zo_state self = 0 then Ret None
      else if zo_state self = addr then Ret (Some addr)
      else Panic ''Object moved after init'')"

definition ZephyrObject_get_critical ::
    "('t \<Rightarrow> 't outcome) \<Rightarrow> ptr \<Rightarrow> 't ZephyrObject \<Rightarrow> (ptr \<times> 't ZephyrObject) outcome" where
  "ZephyrObject_get_critical init addr self =
     (if zo_state self = addr then Ret (addr, self)
      else if zo_state self \<noteq> 0 then Panic ''Object moved after init''
      else bind_outcome (init (zo_object self)) (\<lambda>obj.
             Ret (addr, self\<lparr>zo_object := obj, zo_state := addr\<rparr>)))"

definition ZephyrObject_get ::
    "('t \<Rightarrow> 't outcome) \<Rightarrow> ptr \<Rightarrow> 't ZephyrObject \<Rightarrow> (ptr \<times> 't ZephyrObject) outcome" where
  "ZephyrObject_get init addr self =
     bind_outcome (ZephyrObject_get_fast addr self) (\<lambda>r.
       case r of Some p \<Rightarrow> Ret (p, self) | None \<Rightarrow> ZephyrObject_get_critical init addr self)"

text \<open>
  Several threads call \<open>get\<close> on one object. Between the relaxed load and the critical section a
  thread may be preempted. A thread that has the pointer may use the kernel object through it. The
  owner may move the object only while no call and no returned pointer borrows it. Beside the kernel
  object stands the number of calls of \<open>init\<close> on it.
\<close>

definition counted :: "('t \<Rightarrow> 't outcome) \<Rightarrow> 't \<times> nat \<Rightarrow> ('t \<times> nat) outcome" where
  "counted init v = bind_outcome (init (fst v)) (\<lambda>obj. Ret (obj, snd v + 1))"

datatype get_pc = GetIdle | GetSlow | GetDone ptr | GetPanicked

record 't zo_sys =
  zs_obj :: "('t \<times> nat) ZephyrObject"
  zs_addr :: ptr
  zs_pc :: "nat \<Rightarrow> get_pc"

inductive zo_step :: "('t \<Rightarrow> 't outcome) \<Rightarrow> 't zo_sys \<Rightarrow> 't zo_sys \<Rightarrow> bool" for init where
  fast_hit:
    "zs_pc s t = GetIdle \<Longrightarrow> ZephyrObject_get_fast (zs_addr s) (zs_obj s) = Ret (Some p) \<Longrightarrow>
     zo_step init s (s\<lparr>zs_pc := (zs_pc s)(t := GetDone p)\<rparr>)"
| fast_miss:
    "zs_pc s t = GetIdle \<Longrightarrow> ZephyrObject_get_fast (zs_addr s) (zs_obj s) = Ret None \<Longrightarrow>
     zo_step init s (s\<lparr>zs_pc := (zs_pc s)(t := GetSlow)\<rparr>)"
| fast_panic:
    "zs_pc s t = GetIdle \<Longrightarrow> ZephyrObject_get_fast (zs_addr s) (zs_obj s) = Panic m \<Longrightarrow>
     zo_step init s (s\<lparr>zs_pc := (zs_pc s)(t := GetPanicked)\<rparr>)"
| critical:
    "zs_pc s t = GetSlow \<Longrightarrow>
     ZephyrObject_get_critical (counted init) (zs_addr s) (zs_obj s) = Ret (p, obj) \<Longrightarrow>
     zo_step init s (s\<lparr>zs_obj := obj, zs_pc := (zs_pc s)(t := GetDone p)\<rparr>)"
| critical_panic:
    "zs_pc s t = GetSlow \<Longrightarrow>
     ZephyrObject_get_critical (counted init) (zs_addr s) (zs_obj s) = Panic m \<Longrightarrow>
     zo_step init s (s\<lparr>zs_pc := (zs_pc s)(t := GetPanicked)\<rparr>)"
| use_object:
    "zs_pc s t = GetDone p \<Longrightarrow>
     zo_step init s (s\<lparr>zs_obj := (zs_obj s)\<lparr>zo_object := (v, snd (zo_object (zs_obj s)))\<rparr>\<rparr>)"
| drop_pointer:
    "zs_pc s t = GetDone p \<Longrightarrow> zo_step init s (s\<lparr>zs_pc := (zs_pc s)(t := GetIdle)\<rparr>)"
| move_object:
    "(\<And>t. zs_pc s t = GetIdle) \<Longrightarrow> a \<noteq> 0 \<Longrightarrow> zo_step init s (s\<lparr>zs_addr := a\<rparr>)"

definition zo_start :: "'t \<Rightarrow> ptr \<Rightarrow> 't zo_sys" where
  "zo_start zeroed a =
     \<lparr>zs_obj = ZephyrObject_new_raw (zeroed, 0), zs_addr = a, zs_pc = (\<lambda>_. GetIdle)\<rparr>"

abbreviation zs_inits :: "'t zo_sys \<Rightarrow> nat" where
  "zs_inits s \<equiv> snd (zo_object (zs_obj s))"

inductive zo_reach :: "('t \<Rightarrow> 't outcome) \<Rightarrow> 't \<Rightarrow> 't zo_sys \<Rightarrow> bool" for init zeroed where
  zo_init: "a \<noteq> 0 \<Longrightarrow> zo_reach init zeroed (zo_start zeroed a)"
| zo_more: "zo_reach init zeroed s \<Longrightarrow> zo_step init s s' \<Longrightarrow> zo_reach init zeroed s'"

section \<open>\<open>StaticKernelObject\<close>\<close>

definition KOBJ_UNINITIALIZED :: usize where "KOBJ_UNINITIALIZED = 0"
definition KOBJ_INITING :: usize where "KOBJ_INITING = 1"
definition KOBJ_INITIALIZED :: usize where "KOBJ_INITIALIZED = 2"

lemmas kobj_state_defs = KOBJ_UNINITIALIZED_def KOBJ_INITING_def KOBJ_INITIALIZED_def

record 't StaticKernelObject =
  sko_value :: 't
  sko_init :: usize

definition StaticKernelObject_new :: "'t \<Rightarrow> 't StaticKernelObject" where
  "StaticKernelObject_new zeroed = \<lparr>sko_value = zeroed, sko_init = KOBJ_UNINITIALIZED\<rparr>"

text \<open>
  \<open>init_once\<close> in its two parts: the compare-and-exchange that claims the object, and the
  initialisation followed by the store of \<open>KOBJ_INITIALIZED\<close>. \<open>get_wrapped\<close> is the trait's method: it
  may update the kernel structure and returns the wrapper.
\<close>

definition init_once_claim :: "'t StaticKernelObject \<Rightarrow> bool \<times> 't StaticKernelObject" where
  "init_once_claim self =
     (let (r, v) = compare_exchange (sko_init self) KOBJ_UNINITIALIZED KOBJ_INITING
      in (is_ok r, self\<lparr>sko_init := v\<rparr>))"

definition init_once_finish ::
    "('t \<Rightarrow> 'i \<Rightarrow> 'w \<times> 't) \<Rightarrow> 'i \<Rightarrow> 't StaticKernelObject \<Rightarrow> 'w \<times> 't StaticKernelObject" where
  "init_once_finish get_wrapped args self =
     (let (w, v) = get_wrapped (sko_value self) args
      in (w, self\<lparr>sko_value := v, sko_init := KOBJ_INITIALIZED\<rparr>))"

definition StaticKernelObject_init_once ::
    "('t \<Rightarrow> 'i \<Rightarrow> 'w \<times> 't) \<Rightarrow> 'i \<Rightarrow> 't StaticKernelObject \<Rightarrow> 'w option \<times> 't StaticKernelObject" where
  "StaticKernelObject_init_once get_wrapped args self =
     (let (claimed, self') = init_once_claim self
      in if \<not> claimed then (None, self')
         else let (w, self'') = init_once_finish get_wrapped args self' in (Some w, self''))"

text \<open>Threads that call \<open>init_once\<close> concurrently; a thread may be preempted while it initialises.\<close>

datatype 'w once_pc = OnceIdle | OnceIniting | OnceSome 'w | OnceNone

record ('t, 'w) once_sys =
  os_obj :: "'t StaticKernelObject"
  os_pc :: "nat \<Rightarrow> 'w once_pc"

inductive once_step ::
    "('t \<Rightarrow> 'i \<Rightarrow> 'w \<times> 't) \<Rightarrow> (nat \<Rightarrow> 'i) \<Rightarrow> ('t, 'w) once_sys \<Rightarrow> ('t, 'w) once_sys \<Rightarrow> bool"
  for get_wrapped args where
  claim_won:
    "os_pc s t = OnceIdle \<Longrightarrow> init_once_claim (os_obj s) = (True, obj) \<Longrightarrow>
     once_step get_wrapped args s \<lparr>os_obj = obj, os_pc = (os_pc s)(t := OnceIniting)\<rparr>"
| claim_lost:
    "os_pc s t = OnceIdle \<Longrightarrow> init_once_claim (os_obj s) = (False, obj) \<Longrightarrow>
     once_step get_wrapped args s \<lparr>os_obj = obj, os_pc = (os_pc s)(t := OnceNone)\<rparr>"
| finish_init:
    "os_pc s t = OnceIniting \<Longrightarrow> init_once_finish get_wrapped (args t) (os_obj s) = (w, obj) \<Longrightarrow>
     once_step get_wrapped args s \<lparr>os_obj = obj, os_pc = (os_pc s)(t := OnceSome w)\<rparr>"

inductive once_reach ::
    "('t \<Rightarrow> 'i \<Rightarrow> 'w \<times> 't) \<Rightarrow> (nat \<Rightarrow> 'i) \<Rightarrow> 't \<Rightarrow> ('t, 'w) once_sys \<Rightarrow> bool"
  for get_wrapped args zeroed where
  once_init: "once_reach get_wrapped args zeroed
     \<lparr>os_obj = StaticKernelObject_new zeroed, os_pc = (\<lambda>_. OnceIdle)\<rparr>"
| once_more: "once_reach get_wrapped args zeroed s \<Longrightarrow> once_step get_wrapped args s s' \<Longrightarrow>
     once_reach get_wrapped args zeroed s'"

section \<open>\<open>Fixed\<close>\<close>

text \<open>An owned object is pinned in a box at its own address.\<close>

datatype Fixed = Static ptr | Owned ptr

fun Fixed_get :: "Fixed \<Rightarrow> ptr" where
  "Fixed_get (Static p) = p"
| "Fixed_get (Owned p) = p"

text \<open>\<open>Fixed::new\<close>: \<open>p\<close> is the address that \<open>Box::pin\<close> allocated.\<close>

definition Fixed_new :: "ptr \<Rightarrow> Fixed" where
  "Fixed_new p = Owned p"

section \<open>Lemmas\<close>

lemmas ZephyrObject_get_defs =
  ZephyrObject_get_def ZephyrObject_get_fast_def ZephyrObject_get_critical_def

lemma ZephyrObject_get_again:
  "addr \<noteq> 0 \<Longrightarrow> zo_state self = addr \<Longrightarrow> ZephyrObject_get init addr self = Ret (addr, self)"
  by (simp add: ZephyrObject_get_defs)

lemma ZephyrObject_get_first:
  "addr \<noteq> 0 \<Longrightarrow> zo_state self = 0 \<Longrightarrow>
   ZephyrObject_get init addr self =
     bind_outcome (init (zo_object self)) (\<lambda>obj. Ret (addr, \<lparr>zo_state = addr, zo_object = obj\<rparr>))"
  by (cases self) (simp add: ZephyrObject_get_defs)

lemma ZephyrObject_get_RetD:
  "ZephyrObject_get init addr self = Ret (p, self') \<Longrightarrow> addr \<noteq> 0 \<Longrightarrow> p = addr \<and> zo_state self' = addr"
  by (auto simp: ZephyrObject_get_defs outcome_simps split: if_splits)

text \<open>
  An object that has not moved since its first use, and what \<open>get\<close> does on it when the initialiser
  cannot fail: the object is then what its clients expect to find behind the pointer.
\<close>

definition zo_placed :: "ptr \<Rightarrow> 't ZephyrObject \<Rightarrow> bool" where
  "zo_placed addr self \<longleftrightarrow> zo_state self = 0 \<or> zo_state self = addr"

lemma ZephyrObject_get_placed:
  assumes "addr \<noteq> 0" and "zo_placed addr self" and "zo_state self = 0 \<Longrightarrow> init (zo_object self) = Ret obj"
  shows "ZephyrObject_get init addr self =
    Ret (addr, \<lparr>zo_state = addr, zo_object = (if zo_state self = 0 then obj else zo_object self)\<rparr>)"
  using assms by (auto simp: zo_placed_def ZephyrObject_get_first ZephyrObject_get_again)

text \<open>The invariant of concurrent calls of \<open>get\<close>.\<close>

definition zo_inv :: "'t zo_sys \<Rightarrow> bool" where
  "zo_inv s \<longleftrightarrow>
     zs_addr s \<noteq> 0 \<and>
     zs_inits s = (if zo_state (zs_obj s) = 0 then 0 else 1) \<and>
     (\<forall>t p. zs_pc s t = GetDone p \<longrightarrow> p = zs_addr s \<and> zo_state (zs_obj s) = p) \<and>
     (\<forall>t. zs_pc s t = GetSlow \<longrightarrow> zo_state (zs_obj s) = 0 \<or> zo_state (zs_obj s) = zs_addr s)"

lemma zo_inv_start: "a \<noteq> 0 \<Longrightarrow> zo_inv (zo_start zeroed a)"
  by (simp add: zo_inv_def zo_start_def ZephyrObject_new_raw_def)

lemma zo_inv_step: "zo_step init s s' \<Longrightarrow> zo_inv s \<Longrightarrow> zo_inv s'"
proof (induction rule: zo_step.induct)
  case (critical s t p obj)
  then show ?case
    by (auto simp: zo_inv_def ZephyrObject_get_critical_def counted_def outcome_simps split: if_splits)
next
  case (drop_pointer s t p)
  then show ?case by (auto simp: zo_inv_def) metis+
qed (auto simp: zo_inv_def ZephyrObject_get_fast_def split: if_splits)

lemma zo_reach_inv: "zo_reach init zeroed s \<Longrightarrow> zo_inv s"
  by (induction rule: zo_reach.induct) (auto intro: zo_inv_start zo_inv_step)

text \<open>\<open>init_once\<close> as an attempt that succeeds when it returns \<open>Some\<close>.\<close>

definition init_once_attempt ::
    "('t \<Rightarrow> 'i \<Rightarrow> 'w \<times> 't) \<Rightarrow> 'i \<Rightarrow> 't StaticKernelObject \<Rightarrow> bool \<times> 't StaticKernelObject" where
  "init_once_attempt get_wrapped args self =
     (let (r, self') = StaticKernelObject_init_once get_wrapped args self in (r \<noteq> None, self'))"

lemmas init_once_defs = StaticKernelObject_init_once_def init_once_claim_def init_once_finish_def
  compare_exchange_def kobj_state_defs

interpretation kobj_once: one_shot "init_once_attempt get_wrapped args" "\<lambda>obj. sko_init obj = 0"
  for get_wrapped :: "'t \<Rightarrow> 'i \<Rightarrow> 'w \<times> 't" and args :: 'i
  by unfold_locales
    (auto simp: init_once_attempt_def init_once_defs split_beta split: if_splits)

definition once_inv :: "('t, 'w) once_sys \<Rightarrow> bool" where
  "once_inv s \<longleftrightarrow>
     (\<forall>t. os_pc s t \<in> {OnceIdle, OnceNone} \<or> sko_init (os_obj s) \<noteq> 0) \<and>
     (\<forall>t u. os_pc s t \<notin> {OnceIdle, OnceNone} \<longrightarrow> os_pc s u \<notin> {OnceIdle, OnceNone} \<longrightarrow> t = u)"

lemma once_inv_step: "once_step get_wrapped args s s' \<Longrightarrow> once_inv s \<Longrightarrow> once_inv s'"
proof (induction rule: once_step.induct)
  case (claim_won s t obj)
  then have "sko_init (os_obj s) = 0" and "sko_init obj \<noteq> 0"
    by (auto simp: init_once_defs split_beta split: if_splits)
  with claim_won show ?case by (auto simp: once_inv_def)
next
  case (claim_lost s t obj)
  then have "obj = os_obj s" by (auto simp: init_once_defs split_beta split: if_splits)
  with claim_lost show ?case by (auto simp: once_inv_def)
next
  case (finish_init s t w obj)
  then have "sko_init obj \<noteq> 0" by (auto simp: init_once_defs split_beta)
  with finish_init show ?case by (auto simp: once_inv_def)
qed

lemma once_reach_inv: "once_reach get_wrapped args zeroed s \<Longrightarrow> once_inv s"
proof (induction rule: once_reach.induct)
  case once_init
  show ?case by (simp add: once_inv_def)
next
  case (once_more s s')
  then show ?case by (blast intro: once_inv_step)
qed

section \<open>Properties\<close>

text \<open>
  C10. Whatever the interleaving of the threads that call \<open>get\<close>, use the object through the pointer
  they received, drop it, or move an object nobody borrows: the initialiser runs at most once, and
  every pointer a thread holds is the object's present address, to an object initialised there.
\<close>

theorem ZephyrObject_get_initialises_once:
  assumes "zo_reach init zeroed s"
  shows "zs_inits s \<le> 1 \<and>
    (\<forall>t p. zs_pc s t = GetDone p \<longrightarrow>
       p = zs_addr s \<and> zo_state (zs_obj s) = p \<and> zs_inits s = 1)"
  using zo_reach_inv [OF assms] by (auto simp: zo_inv_def)

definition demo_zo :: "nat zo_sys" where
  "demo_zo = (zo_start 7 64)\<lparr>zs_obj := \<lparr>zo_state = 64, zo_object = (8, 1)\<rparr>,
     zs_pc := (\<lambda>_. GetIdle)(0 := GetDone 64, 1 := GetSlow)\<rparr>"

lemma demo_zo_reach: "zo_reach (\<lambda>n. Ret (Suc n)) 7 demo_zo"
proof -
  let ?i = "\<lambda>n. Ret (Suc n)"
  let ?s0 = "zo_start (7::nat) 64"
  let ?s1 = "?s0\<lparr>zs_pc := (zs_pc ?s0)(0 := GetSlow)\<rparr>"
  let ?s2 = "?s1\<lparr>zs_pc := (zs_pc ?s1)(1 := GetSlow)\<rparr>"
  have r0: "zo_reach ?i 7 ?s0" by (rule zo_init) simp
  have r1: "zo_reach ?i 7 ?s1"
    by (rule zo_more [OF r0], rule fast_miss)
      (simp_all add: zo_start_def ZephyrObject_new_raw_def ZephyrObject_get_fast_def)
  have r2: "zo_reach ?i 7 ?s2"
    by (rule zo_more [OF r1], rule fast_miss)
      (simp_all add: zo_start_def ZephyrObject_new_raw_def ZephyrObject_get_fast_def)
  have c: "ZephyrObject_get_critical (counted ?i) (zs_addr ?s2) (zs_obj ?s2) =
      Ret (64, \<lparr>zo_state = 64, zo_object = (8, 1)\<rparr>)"
    by (simp add: counted_def zo_start_def ZephyrObject_new_raw_def ZephyrObject_get_critical_def)
  have "zo_step ?i ?s2 demo_zo"
    using zo_step.critical [of ?s2 0, OF _ c]
    by (simp add: demo_zo_def zo_start_def ZephyrObject_new_raw_def fun_upd_twist)
  then show ?thesis by (rule zo_more [OF r2])
qed

theorem ZephyrObject_get_initialises_once_witness:
  "zs_inits demo_zo \<le> 1 \<and> zs_pc demo_zo 0 = GetDone 64 \<and> zo_state (zs_obj demo_zo) = 64"
  using ZephyrObject_get_initialises_once [OF demo_zo_reach]
  by (simp add: demo_zo_def)

text \<open>
  \<open>get\<close> on every state of the object: an uninitialised object is initialised once and remembers
  its address; an initialised object that has not moved is returned unchanged; an object that moved
  after its initialisation panics and is never handed out.
\<close>

theorem ZephyrObject_get_cases:
  assumes "addr \<noteq> 0"
  shows "ZephyrObject_get init addr self =
    (if zo_state self = 0 then
       bind_outcome (init (zo_object self)) (\<lambda>obj. Ret (addr, \<lparr>zo_state = addr, zo_object = obj\<rparr>))
     else if zo_state self = addr then Ret (addr, self)
     else Panic ''Object moved after init'')"
proof -
  consider "zo_state self = 0" | "zo_state self = addr" | "zo_state self \<notin> {0, addr}" by auto
  then show ?thesis
    using assms by cases (simp_all add: ZephyrObject_get_first ZephyrObject_get_again,
      simp add: ZephyrObject_get_def ZephyrObject_get_fast_def)
qed

theorem ZephyrObject_get_cases_witness:
  "ZephyrObject_get (\<lambda>n. Ret (Suc n)) 96 \<lparr>zo_state = 64, zo_object = 3\<rparr> =
     Panic ''Object moved after init''"
  using ZephyrObject_get_cases [of 96 "\<lambda>n. Ret (Suc n)" "\<lparr>zo_state = 64, zo_object = 3\<rparr>"] by simp

text \<open>
  Of any number of threads that call \<open>init_once\<close> on one static object in any interleaving, at most
  one receives the wrapped object.
\<close>

theorem init_once_single_owner:
  assumes "once_reach get_wrapped args zeroed s"
    and "os_pc s t = OnceSome w" and "os_pc s u = OnceSome v"
  shows "t = u"
proof -
  have "os_pc s t \<notin> {OnceIdle, OnceNone}" and "os_pc s u \<notin> {OnceIdle, OnceNone}"
    using assms(2,3) by simp_all
  with once_reach_inv [OF assms(1)] show ?thesis unfolding once_inv_def by blast
qed

definition demo_once :: "(nat, nat) once_sys" where
  "demo_once = \<lparr>os_obj = \<lparr>sko_value = 40, sko_init = KOBJ_INITIALIZED\<rparr>,
     os_pc = (\<lambda>_. OnceIdle)(2 := OnceSome 42, 3 := OnceNone)\<rparr>"

lemma demo_once_reach: "once_reach (\<lambda>v i. (v + i, v)) (\<lambda>t. t) 40 demo_once"
  (is "once_reach ?g ?a _ _")
proof -
  let ?s0 = "\<lparr>os_obj = StaticKernelObject_new 40, os_pc = (\<lambda>_. OnceIdle)\<rparr> :: (nat, nat) once_sys"
  let ?ini = "\<lparr>sko_value = 40, sko_init = KOBJ_INITING\<rparr> :: nat StaticKernelObject"
  let ?s1 = "\<lparr>os_obj = ?ini, os_pc = (os_pc ?s0)(2 := OnceIniting)\<rparr>"
  let ?s2 = "\<lparr>os_obj = ?ini, os_pc = (os_pc ?s1)(3 := OnceNone)\<rparr>"
  have r1: "once_reach ?g ?a 40 ?s1"
    by (rule once_more [OF once_init], rule claim_won)
      (simp_all add: StaticKernelObject_new_def init_once_defs)
  have r2: "once_reach ?g ?a 40 ?s2"
    by (rule once_more [OF r1], rule claim_lost) (simp_all add: init_once_defs)
  have "once_step ?g ?a ?s2 demo_once"
    using finish_init [of ?s2 2 ?g ?a 42 "\<lparr>sko_value = 40, sko_init = KOBJ_INITIALIZED\<rparr>"]
    by (simp add: demo_once_def init_once_finish_def fun_upd_twist)
  then show ?thesis by (rule once_more [OF r2])
qed

theorem init_once_single_owner_witness:
  "os_pc demo_once 2 = OnceSome 42 \<and> \<not> (\<exists>u v. u \<noteq> 2 \<and> os_pc demo_once u = OnceSome v)"
proof -
  have two: "os_pc demo_once 2 = OnceSome 42" by (simp add: demo_once_def)
  then show ?thesis using init_once_single_owner [OF demo_once_reach two] by metis
qed

end
