(* ===== verification/Sys_Queue.thy ===== *)
theory Sys_Queue
  imports Error_Time Kernel_Object
begin

text \<open>
  \<open>zephyr/src/sys/queue.rs\<close>: the wrapper of \<open>k_queue\<close>. The kernel queue is C code outside the
  repository: its operations are the record \<open>k_queue_api\<close>, an argument of every definition, and its
  documented behaviour is the locale \<open>zephyr_queue\<close>. The locale \<open>fifo\<close> is what the clients of \<open>Queue\<close>
  (the channels and the worker pool) rely on; a placed \<open>Queue\<close> provides it.
\<close>

section \<open>The kernel's queue\<close>

text \<open>
  \<open>k_queue_get\<close> is described at the point where the call takes effect: it returns an item or, when
  the timeout has run out on an empty queue, the null pointer; \<open>Blocked\<close> is a call that has nothing
  to return yet.
\<close>

record 'q k_queue_api =
  kq_zeroed :: 'q
  k_queue_init :: "'q \<Rightarrow> 'q"
  k_queue_append :: "'q \<Rightarrow> ptr \<Rightarrow> 'q"
  k_queue_get :: "'q \<Rightarrow> k_timeout_t \<Rightarrow> (ptr \<times> 'q) outcome"
  k_queue_remove :: "'q \<Rightarrow> ptr \<Rightarrow> bool \<times> 'q"

locale zephyr_queue =
  fixes K :: "'q k_queue_api"
    and contents :: "'q \<Rightarrow> ptr list"
  assumes contents_init: "contents (k_queue_init K q) = []"
    and contents_append: "contents (k_queue_append K q p) = contents q @ [p]"
    and get_first: "contents q = p # ps \<Longrightarrow> \<exists>q'. k_queue_get K q t = Ret (p, q') \<and> contents q' = ps"
    and get_timeout: "contents q = [] \<Longrightarrow> t \<noteq> K_FOREVER \<Longrightarrow>
      \<exists>q'. k_queue_get K q t = Ret (0, q') \<and> contents q' = []"
    and get_waits: "contents q = [] \<Longrightarrow> k_queue_get K q K_FOREVER = Blocked"
    and remove_found: "fst (k_queue_remove K q p) \<longleftrightarrow> p \<in> set (contents q)"
    and remove_contents: "contents (snd (k_queue_remove K q p)) = remove1 p (contents q)"

section \<open>\<open>Queue\<close>\<close>

type_synonym 'q Queue = "'q ZephyrObject"

definition Queue_new :: "'q k_queue_api \<Rightarrow> 'q Queue" where
  "Queue_new K = ZephyrObject_new_raw (kq_zeroed K)"

text \<open>\<open>impl ObjectInit<k_queue>\<close>.\<close>

definition Queue_init :: "'q k_queue_api \<Rightarrow> 'q \<Rightarrow> 'q outcome" where
  "Queue_init K q = Ret (k_queue_init K q)"

definition Queue_send :: "'q k_queue_api \<Rightarrow> ptr \<Rightarrow> 'q Queue \<Rightarrow> ptr \<Rightarrow> 'q Queue outcome" where
  "Queue_send K addr self data =
     bind_outcome (ZephyrObject_get (Queue_init K) addr self) (\<lambda>(_, self).
       Ret (self\<lparr>zo_object := k_queue_append K (zo_object self) data\<rparr>))"

definition Queue_recv ::
    "'q k_queue_api \<Rightarrow> ptr \<Rightarrow> 'q Queue \<Rightarrow> k_timeout_t \<Rightarrow> (ptr \<times> 'q Queue) outcome" where
  "Queue_recv K addr self timeout =
     bind_outcome (ZephyrObject_get (Queue_init K) addr self) (\<lambda>(_, self).
     bind_outcome (k_queue_get K (zo_object self) timeout) (\<lambda>(p, q).
       Ret (p, self\<lparr>zo_object := q\<rparr>)))"

definition Queue_remove ::
    "'q k_queue_api \<Rightarrow> ptr \<Rightarrow> 'q Queue \<Rightarrow> ptr \<Rightarrow> (bool \<times> 'q Queue) outcome" where
  "Queue_remove K addr self data =
     bind_outcome (ZephyrObject_get (Queue_init K) addr self) (\<lambda>(_, self).
       let (found, q) = k_queue_remove K (zo_object self) data
       in Ret (found, self\<lparr>zo_object := q\<rparr>))"

text \<open>A queue that no call has touched yet is empty whatever its memory holds.\<close>

definition Queue_items :: "('q \<Rightarrow> ptr list) \<Rightarrow> 'q Queue \<Rightarrow> ptr list" where
  "Queue_items contents self = (if zo_state self = 0 then [] else contents (zo_object self))"

section \<open>The contract of a queue\<close>

locale fifo =
  fixes send :: "'s \<Rightarrow> ptr \<Rightarrow> 's outcome"
    and recv :: "'s \<Rightarrow> k_timeout_t \<Rightarrow> (ptr \<times> 's) outcome"
    and remove :: "'s \<Rightarrow> ptr \<Rightarrow> (bool \<times> 's) outcome"
    and new :: 's
    and items :: "'s \<Rightarrow> ptr list"
    and ok :: "'s \<Rightarrow> bool"
  assumes new_ok: "ok new" "items new = []"
    and send_items: "ok s \<Longrightarrow> \<exists>s'. send s p = Ret s' \<and> ok s' \<and> items s' = items s @ [p]"
    and recv_item: "ok s \<Longrightarrow> items s = p # ps \<Longrightarrow>
      \<exists>s'. recv s t = Ret (p, s') \<and> ok s' \<and> items s' = ps"
    and recv_null: "ok s \<Longrightarrow> items s = [] \<Longrightarrow> t \<noteq> K_FOREVER \<Longrightarrow>
      \<exists>s'. recv s t = Ret (0, s') \<and> ok s' \<and> items s' = []"
    and recv_waits: "ok s \<Longrightarrow> items s = [] \<Longrightarrow> recv s K_FOREVER = Blocked"
    and remove_items: "ok s \<Longrightarrow>
      \<exists>s'. remove s p = Ret (p \<in> set (items s), s') \<and> ok s' \<and> items s' = remove1 p (items s)"
begin

lemma send_Ret: "ok s \<Longrightarrow> send s p = Ret s' \<Longrightarrow> ok s' \<and> items s' = items s @ [p]"
  using send_items [of s p] by auto

lemma recv_Ret:
  assumes "ok s" and "recv s t = Ret (p, s')"
  shows "ok s' \<and> (case items s of [] \<Rightarrow> p = 0 \<and> items s' = [] | x # xs \<Rightarrow> p = x \<and> items s' = xs)"
proof (cases "items s")
  case Nil
  then have "t \<noteq> K_FOREVER" using recv_waits assms by auto
  with Nil recv_null [of s t] assms show ?thesis by auto
next
  case (Cons x xs)
  with recv_item [of s x xs t] assms show ?thesis by auto
qed

lemma recv_Blocked_iff: "ok s \<Longrightarrow> recv s t = Blocked \<longleftrightarrow> items s = [] \<and> t = K_FOREVER"
  using recv_item [of s _ _ t] recv_null [of s t] recv_waits [of s]
  by (cases "items s"; cases "t = K_FOREVER") auto

lemma recv_no_Panic: "ok s \<Longrightarrow> recv s t \<noteq> Panic m"
  using recv_item [of s _ _ t] recv_null [of s t] recv_waits [of s]
  by (cases "items s"; cases "t = K_FOREVER") auto

lemma remove_Ret:
  "ok s \<Longrightarrow> remove s p = Ret (b, s') \<Longrightarrow>
   ok s' \<and> b = (p \<in> set (items s)) \<and> items s' = remove1 p (items s)"
  using remove_items [of s p] by auto

end

locale placed_queue = zephyr_queue K contents
  for K :: "'q k_queue_api" and contents :: "'q \<Rightarrow> ptr list" +
  fixes addr :: ptr
  assumes addr: "addr \<noteq> 0"
begin

lemma get_placed:
  assumes "zo_placed addr s"
  shows "\<exists>s'. ZephyrObject_get (Queue_init K) addr s = Ret (addr, s') \<and> zo_state s' = addr \<and>
     contents (zo_object s') = Queue_items contents s"
  using assms addr
  by (auto simp: zo_placed_def ZephyrObject_get_first ZephyrObject_get_again Queue_init_def
      Queue_items_def contents_init)

end

sublocale placed_queue \<subseteq> queue: fifo "Queue_send K addr" "Queue_recv K addr" "Queue_remove K addr"
    "Queue_new K" "Queue_items contents" "zo_placed addr"
proof unfold_locales
  fix s :: "'q ZephyrObject" and p :: ptr and t and ps :: "ptr list"
  show "zo_placed addr (Queue_new K)" "Queue_items contents (Queue_new K) = []"
    by (simp_all add: zo_placed_def Queue_new_def ZephyrObject_new_raw_def Queue_items_def)
  assume s: "zo_placed addr s"
  obtain s' where g: "ZephyrObject_get (Queue_init K) addr s = Ret (addr, s')"
    and st: "zo_state s' = addr" and c: "contents (zo_object s') = Queue_items contents s"
    using get_placed [OF s] by blast
  show "\<exists>s'. Queue_send K addr s p = Ret s' \<and> zo_placed addr s' \<and>
      Queue_items contents s' = Queue_items contents s @ [p]"
    using addr by (simp add: Queue_send_def g st c zo_placed_def Queue_items_def contents_append)
  show "\<exists>s'. Queue_remove K addr s p = Ret (p \<in> set (Queue_items contents s), s') \<and>
      zo_placed addr s' \<and> Queue_items contents s' = remove1 p (Queue_items contents s)"
    using addr remove_found [of "zo_object s'" p] remove_contents [of "zo_object s'" p]
    by (cases "k_queue_remove K (zo_object s') p")
      (auto simp: Queue_remove_def g st c zo_placed_def Queue_items_def)
  show "Queue_items contents s = p # ps \<Longrightarrow>
      \<exists>s'. Queue_recv K addr s t = Ret (p, s') \<and> zo_placed addr s' \<and> Queue_items contents s' = ps"
    using addr get_first [of "zo_object s'" p ps t]
    by (fastforce simp: Queue_recv_def g st c zo_placed_def Queue_items_def)
  show "Queue_items contents s = [] \<Longrightarrow> t \<noteq> K_FOREVER \<Longrightarrow>
      \<exists>s'. Queue_recv K addr s t = Ret (0, s') \<and> zo_placed addr s' \<and> Queue_items contents s' = []"
    using addr get_timeout [of "zo_object s'" t]
    by (fastforce simp: Queue_recv_def g st c zo_placed_def Queue_items_def)
  show "Queue_items contents s = [] \<Longrightarrow> Queue_recv K addr s K_FOREVER = Blocked"
    using get_waits [of "zo_object s'"] by (simp add: Queue_recv_def g c)
qed

context placed_queue
begin

lemmas queue_laws = queue.send_items queue.remove_items queue.recv_item queue.recv_null queue.recv_waits

end

section \<open>A reference kernel queue\<close>

text \<open>A list is a queue with the documented behaviour: the laws can be met.\<close>

definition list_queue_api :: "ptr list k_queue_api" where
  "list_queue_api =
     \<lparr>kq_zeroed = [],
      k_queue_init = (\<lambda>_. []),
      k_queue_append = (\<lambda>q p. q @ [p]),
      k_queue_get = (\<lambda>q t. case q of p # ps \<Rightarrow> Ret (p, ps)
                          | [] \<Rightarrow> if ticks t = - 1 then Blocked else Ret (0, [])),
      k_queue_remove = (\<lambda>q p. (p \<in> set q, remove1 p q))\<rparr>"

interpretation list_queue: zephyr_queue list_queue_api "\<lambda>q. q"
  by unfold_locales (auto simp: list_queue_api_def K_FOREVER_iff)

interpretation list_placed: placed_queue list_queue_api "\<lambda>q. q" 16
  by unfold_locales simp

section \<open>Properties\<close>

text \<open>
  A \<open>Queue\<close> that stays at its address never panics and is a first-in first-out queue: \<open>send\<close>
  appends, \<open>recv\<close> returns the oldest item, on an empty queue it returns null once a finite timeout
  has passed and waits when the timeout is \<open>Forever\<close>, and \<open>remove\<close> takes out exactly the given item
  and says whether it was there.
\<close>

theorem Queue_is_fifo:
  assumes "zephyr_queue K contents" and "addr \<noteq> 0" and "zo_placed addr q"
  shows "(\<exists>q'. Queue_send K addr q p = Ret q' \<and> zo_placed addr q' \<and>
           Queue_items contents q' = Queue_items contents q @ [p]) \<and>
    (\<exists>q'. Queue_remove K addr q p = Ret (p \<in> set (Queue_items contents q), q') \<and> zo_placed addr q' \<and>
           Queue_items contents q' = remove1 p (Queue_items contents q)) \<and>
    (case Queue_items contents q of
       x # xs \<Rightarrow> \<exists>q'. Queue_recv K addr q t = Ret (x, q') \<and> zo_placed addr q' \<and> Queue_items contents q' = xs
     | [] \<Rightarrow> if t = K_FOREVER then Queue_recv K addr q t = Blocked
            else \<exists>q'. Queue_recv K addr q t = Ret (0, q') \<and> zo_placed addr q' \<and> Queue_items contents q' = [])"
proof -
  have placed: "placed_queue K contents addr"
    using assms(1,2) by (simp add: placed_queue_def placed_queue_axioms_def)
  show ?thesis
    using placed_queue.queue_laws [OF placed assms(3)] by (auto split: list.splits)
qed

theorem Queue_is_fifo_witness:
  "\<exists>q'. Queue_recv list_queue_api 16 \<lparr>zo_state = 16, zo_object = [48, 80]\<rparr> K_NO_WAIT = Ret (48, q') \<and>
     zo_placed 16 q' \<and> Queue_items (\<lambda>q. q) q' = [80]"
proof -
  let ?q = "\<lparr>zo_state = 16, zo_object = [48, 80]\<rparr> :: ptr list Queue"
  have "Queue_items (\<lambda>q. q) ?q = [48, 80]" and "zo_placed 16 ?q"
    by (simp_all add: Queue_items_def zo_placed_def)
  then show ?thesis
    using Queue_is_fifo [OF list_queue.zephyr_queue_axioms, of 16 ?q 0 K_NO_WAIT] by simp
qed

end
