(* ===== verification/Counter.thy ===== *)
theory Counter
  imports Once
begin

text \<open>
  \<open>zephyr/src/sync/channel/counter.rs\<close>: the reference counter that the handles of a channel share.
  A handle is the address of the counter; the counter's box is \<open>None\<close> once it has been freed. The step
  relation \<open>counter_step\<close> runs the atomic operations of \<open>acquire\<close> and \<open>release\<close> of any number of
  handles in any order.
\<close>

section \<open>The counter and its operations\<close>

record 'c Counter =
  cn_senders :: usize
  cn_receivers :: usize
  cn_destroy :: bool
  cn_chan :: 'c

definition isize_MAX :: usize where
  "isize_MAX = 0x7FFFFFFF"

text \<open>Both handles that \<open>new\<close> returns point to the one counter.\<close>

definition Counter_new :: "'c \<Rightarrow> 'c Counter" where
  "Counter_new chan = \<lparr>cn_senders = 1, cn_receivers = 1, cn_destroy = False, cn_chan = chan\<rparr>"

definition counter_Sender_acquire :: "'c Counter \<Rightarrow> 'c Counter outcome" where
  "counter_Sender_acquire self =
     (let count = cn_senders self; self' = self\<lparr>cn_senders := count + 1\<rparr>
      in if count > isize_MAX then Panic ''not implemented'' else Ret self')"

definition counter_Receiver_acquire :: "'c Counter \<Rightarrow> 'c Counter outcome" where
  "counter_Receiver_acquire self =
     (let count = cn_receivers self; self' = self\<lparr>cn_receivers := count + 1\<rparr>
      in if count > isize_MAX then Panic ''not implemented'' else Ret self')"

text \<open>The \<open>fetch_sub\<close> of \<open>release\<close>: whether this was the last handle of its side.\<close>

definition counter_Sender_dec :: "'c Counter \<Rightarrow> bool \<times> 'c Counter" where
  "counter_Sender_dec self = (cn_senders self = 1, self\<lparr>cn_senders := cn_senders self - 1\<rparr>)"

definition counter_Receiver_dec :: "'c Counter \<Rightarrow> bool \<times> 'c Counter" where
  "counter_Receiver_dec self = (cn_receivers self = 1, self\<lparr>cn_receivers := cn_receivers self - 1\<rparr>)"

text \<open>What the last handle of a side does: the second side to get here frees the box.\<close>

definition counter_close :: "'c Counter \<Rightarrow> 'c Counter option" where
  "counter_close self =
     (let (destroyed, d) = atomic_swap (cn_destroy self) True
      in if destroyed then None else Some (self\<lparr>cn_destroy := d\<rparr>))"

definition counter_Sender_release ::
    "('c \<Rightarrow> bool outcome) \<Rightarrow> 'c Counter \<Rightarrow> 'c Counter option outcome" where
  "counter_Sender_release disconnect self =
     (let (last, self) = counter_Sender_dec self
      in if last then bind_outcome (disconnect (cn_chan self)) (\<lambda>_. Ret (counter_close self))
         else Ret (Some self))"

definition counter_Receiver_release ::
    "('c \<Rightarrow> bool outcome) \<Rightarrow> 'c Counter \<Rightarrow> 'c Counter option outcome" where
  "counter_Receiver_release disconnect self =
     (let (last, self) = counter_Receiver_dec self
      in if last then bind_outcome (disconnect (cn_chan self)) (\<lambda>_. Ret (counter_close self))
         else Ret (Some self))"

text \<open>\<open>Deref\<close> and \<open>PartialEq\<close> of a handle.\<close>

definition counter_deref :: "'c Counter \<Rightarrow> 'c" where
  "counter_deref self = cn_chan self"

definition counter_eq :: "ptr \<Rightarrow> ptr \<Rightarrow> bool" where
  "counter_eq self other \<longleftrightarrow> self = other"

section \<open>Handles used concurrently\<close>

text \<open>
  A system is the counter's box with, for each side, the handles that are alive, those that were
  leaked by \<open>mem::forget\<close>, and how far the side has come: open, with its last handle between the
  \<open>fetch_sub\<close> and the \<open>swap\<close>, or closed. \<open>ct_frees\<close> counts how often the box was freed.
\<close>

datatype phase = Open | Closing | Closed

record 'c counter_sys =
  ct_box :: "'c Counter option"
  ct_send :: nat
  ct_send_lost :: nat
  ct_send_phase :: phase
  ct_recv :: nat
  ct_recv_lost :: nat
  ct_recv_phase :: phase
  ct_frees :: nat

text \<open>
  A release in its atomic parts. The callback that disconnects the channel runs between the two of them; its effect
  is on the channel and not on the counter.
\<close>

inductive counter_step :: "'c counter_sys \<Rightarrow> 'c counter_sys \<Rightarrow> bool" where
  sender_clone: "ct_send s > 0 \<Longrightarrow> ct_box s = Some c \<Longrightarrow> counter_Sender_acquire c = Ret c' \<Longrightarrow>
     counter_step s (s\<lparr>ct_box := Some c', ct_send := ct_send s + 1\<rparr>)"
| receiver_clone: "ct_recv s > 0 \<Longrightarrow> ct_box s = Some c \<Longrightarrow> counter_Receiver_acquire c = Ret c' \<Longrightarrow>
     counter_step s (s\<lparr>ct_box := Some c', ct_recv := ct_recv s + 1\<rparr>)"
| sender_forget: "ct_send s > 0 \<Longrightarrow>
     counter_step s (s\<lparr>ct_send := ct_send s - 1, ct_send_lost := ct_send_lost s + 1\<rparr>)"
| receiver_forget: "ct_recv s > 0 \<Longrightarrow>
     counter_step s (s\<lparr>ct_recv := ct_recv s - 1, ct_recv_lost := ct_recv_lost s + 1\<rparr>)"
| sender_drop: "ct_send s > 0 \<Longrightarrow> ct_box s = Some c \<Longrightarrow> counter_Sender_dec c = (l, c') \<Longrightarrow>
     counter_step s (s\<lparr>ct_box := Some c', ct_send := ct_send s - 1,
       ct_send_phase := (if l then Closing else ct_send_phase s)\<rparr>)"
| receiver_drop: "ct_recv s > 0 \<Longrightarrow> ct_box s = Some c \<Longrightarrow> counter_Receiver_dec c = (l, c') \<Longrightarrow>
     counter_step s (s\<lparr>ct_box := Some c', ct_recv := ct_recv s - 1,
       ct_recv_phase := (if l then Closing else ct_recv_phase s)\<rparr>)"
| sender_close: "ct_send_phase s = Closing \<Longrightarrow> ct_box s = Some c \<Longrightarrow>
     counter_step s (s\<lparr>ct_box := counter_close c, ct_send_phase := Closed,
       ct_frees := ct_frees s + (if counter_close c = None then 1 else 0)\<rparr>)"
| receiver_close: "ct_recv_phase s = Closing \<Longrightarrow> ct_box s = Some c \<Longrightarrow>
     counter_step s (s\<lparr>ct_box := counter_close c, ct_recv_phase := Closed,
       ct_frees := ct_frees s + (if counter_close c = None then 1 else 0)\<rparr>)"

definition counter_start :: "'c \<Rightarrow> 'c counter_sys" where
  "counter_start chan =
     \<lparr>ct_box = Some (Counter_new chan), ct_send = 1, ct_send_lost = 0, ct_send_phase = Open,
      ct_recv = 1, ct_recv_lost = 0, ct_recv_phase = Open, ct_frees = 0\<rparr>"

inductive counter_reach :: "'c \<Rightarrow> 'c counter_sys \<Rightarrow> bool" for chan where
  counter_init: "counter_reach chan (counter_start chan)"
| counter_more: "counter_reach chan s \<Longrightarrow> counter_step s s' \<Longrightarrow> counter_reach chan s'"

section \<open>Lemmas\<close>

lemmas counter_op_defs = counter_Sender_acquire_def counter_Receiver_acquire_def
  counter_Sender_dec_def counter_Receiver_dec_def counter_close_def atomic_swap_def Let_def

text \<open>One side: the count is that of its handles, it never wraps, and it is 0 once the side is shut.\<close>

definition side_ok :: "usize \<Rightarrow> nat \<Rightarrow> nat \<Rightarrow> phase \<Rightarrow> bool" where
  "side_ok w live lost ph \<longleftrightarrow> unat w = live + lost \<and> live + lost \<le> 2 ^ 31 \<and> (ph = Open \<longleftrightarrow> 0 < live + lost)"

definition counter_inv :: "'c \<Rightarrow> 'c counter_sys \<Rightarrow> bool" where
  "counter_inv chan s \<longleftrightarrow> (case ct_box s of
     None \<Rightarrow> ct_send_phase s = Closed \<and> ct_recv_phase s = Closed \<and> ct_frees s = 1 \<and>
       ct_send s = 0 \<and> ct_recv s = 0
   | Some c \<Rightarrow> cn_chan c = chan \<and> ct_frees s = 0 \<and>
       side_ok (cn_senders c) (ct_send s) (ct_send_lost s) (ct_send_phase s) \<and>
       side_ok (cn_receivers c) (ct_recv s) (ct_recv_lost s) (ct_recv_phase s) \<and>
       \<not> (ct_send_phase s = Closed \<and> ct_recv_phase s = Closed) \<and>
       (cn_destroy c \<longleftrightarrow> ct_send_phase s = Closed \<or> ct_recv_phase s = Closed))"

lemma side_acquire:
  assumes "side_ok w live lost ph" and "0 < live" and "\<not> w > isize_MAX"
  shows "side_ok (w + 1) (Suc live) lost ph"
proof -
  have "unat w < 2 ^ 31" using assms(3) by (simp add: isize_MAX_def word_le_nat_alt not_less)
  moreover from this have "unat (w + 1) = unat w + 1"
    by (simp add: unat_word_ariths)
  ultimately show ?thesis using assms(1,2) by (auto simp: side_ok_def)
qed

lemma side_forget: "side_ok w live lost ph \<Longrightarrow> 0 < live \<Longrightarrow> side_ok w (live - Suc 0) (Suc lost) ph"
  by (auto simp: side_ok_def)

lemma side_dec:
  assumes "side_ok w live lost ph" and "0 < live"
  shows "side_ok (w - 1) (live - 1) lost (if w = 1 then Closing else ph)"
proof -
  have "0 < unat w" using assms by (auto simp: side_ok_def)
  then have "w \<noteq> 0" by auto
  then have "unat (w - 1) = unat w - 1" by (simp add: unat_minus_one)
  moreover have "w = 1 \<longleftrightarrow> unat w = 1" by (auto simp: word_unat_eq_iff)
  ultimately show ?thesis using assms by (auto simp: side_ok_def)
qed

lemma side_close: "side_ok w live lost Closing \<Longrightarrow> side_ok w live lost Closed \<and> live = 0"
  by (auto simp: side_ok_def)

lemma side_shut: "side_ok w live lost ph \<Longrightarrow> ph \<noteq> Open \<Longrightarrow> live = 0"
  by (auto simp: side_ok_def)

lemmas side_rules = side_acquire side_forget side_dec side_close side_shut

lemma counter_inv_start: "counter_inv chan (counter_start chan)"
  by (simp add: counter_inv_def counter_start_def Counter_new_def side_ok_def)

lemma counter_inv_step: "counter_step s s' \<Longrightarrow> counter_inv chan s \<Longrightarrow> counter_inv chan s'"
proof (induction rule: counter_step.induct)
  case (sender_drop s c l c')
  then show ?case using side_dec [of "cn_senders c" "ct_send s" "ct_send_lost s" "ct_send_phase s"]
    by (auto simp: counter_inv_def counter_op_defs dest: side_shut)
next
  case (receiver_drop s c l c')
  then show ?case using side_dec [of "cn_receivers c" "ct_recv s" "ct_recv_lost s" "ct_recv_phase s"]
    by (auto simp: counter_inv_def counter_op_defs dest: side_shut)
qed (auto simp: counter_inv_def counter_op_defs intro: side_rules dest: side_close side_shut
      split: option.splits if_splits)

lemma counter_reach_inv: "counter_reach chan s \<Longrightarrow> counter_inv chan s"
  by (induction rule: counter_reach.induct) (auto intro: counter_inv_start counter_inv_step)


section \<open>Properties\<close>

text \<open>
  C5. The reference counting of a channel, under every interleaving of clones, drops and leaked
  handles: while a handle is alive or a last drop is still running, the counter's box is allocated
  and holds the channel; the box is freed at most once, and it has been freed exactly when the last
  sender and the last receiver have both finished their drop.
\<close>

theorem counter_freed_once:
  assumes "counter_reach chan s"
  shows "(0 < ct_send s \<or> 0 < ct_recv s \<or> ct_send_phase s \<noteq> Closed \<or> ct_recv_phase s \<noteq> Closed \<longrightarrow>
      (\<exists>c. ct_box s = Some c \<and> counter_deref c = chan)) \<and>
    ct_frees s = (if ct_send_phase s = Closed \<and> ct_recv_phase s = Closed then 1 else 0) \<and>
    (ct_box s = None \<longleftrightarrow> ct_frees s = 1)"
  using counter_reach_inv [OF assms]
  by (auto simp: counter_inv_def counter_deref_def side_ok_def split: option.splits)

definition demo_counter :: "nat counter_sys" where
  "demo_counter = \<lparr>ct_box = None, ct_send = 0, ct_send_lost = 0, ct_send_phase = Closed,
     ct_recv = 0, ct_recv_lost = 0, ct_recv_phase = Closed, ct_frees = 1\<rparr>"

lemma demo_counter_reach: "counter_reach 7 demo_counter"
proof -
  let ?c = "Counter_new (7::nat)"
  let ?c1 = "?c\<lparr>cn_senders := 0\<rparr>"
  let ?c2 = "?c1\<lparr>cn_receivers := 0\<rparr>"
  let ?s0 = "counter_start (7::nat)"
  let ?s1 = "?s0\<lparr>ct_box := Some ?c1, ct_send := 0, ct_send_phase := Closing\<rparr>"
  let ?s2 = "?s1\<lparr>ct_box := Some ?c2, ct_recv := 0, ct_recv_phase := Closing\<rparr>"
  let ?s3 = "?s2\<lparr>ct_box := Some (?c2\<lparr>cn_destroy := True\<rparr>), ct_recv_phase := Closed\<rparr>"
  note defs = counter_start_def Counter_new_def counter_op_defs
  have s1: "counter_step ?s0 ?s1" using sender_drop [of ?s0 ?c True ?c1] by (simp add: defs)
  have s2: "counter_step ?s1 ?s2" using receiver_drop [of ?s1 ?c1 True ?c2] by (simp add: defs)
  have s3: "counter_step ?s2 ?s3" using receiver_close [of ?s2 ?c2] by (simp add: defs)
  have s4: "counter_step ?s3 demo_counter"
    using sender_close [of ?s3 "?c2\<lparr>cn_destroy := True\<rparr>"] by (simp add: defs demo_counter_def)
  show ?thesis
    by (rule counter_more [OF counter_more [OF counter_more [OF counter_more [OF counter_init s1] s2] s3] s4])
qed

theorem counter_freed_once_witness:
  "ct_frees demo_counter = 1 \<and> ct_box demo_counter = None"
  using counter_freed_once [OF demo_counter_reach] by (simp add: demo_counter_def)

end
