(* ===== verification/Channel.thy ===== *)
theory Channel
  imports Sys_Queue Counter
begin

text \<open>
  \<open>zephyr/src/sync/channel.rs\<close>: the channels built on \<open>Queue\<close> and the reference counter. The memory of
  the messages is an explicit heap, because the queues carry addresses only: an entry is \<open>None\<close> when
  the address is not allocated, \<open>Some None\<close> when it is allocated and not initialised. The refinement
  target is a list of messages with an optional capacity. The step relation \<open>bchan_step\<close> interleaves the
  parts of concurrent \<open>send\<close> and \<open>recv\<close> calls on a bounded channel.
\<close>

section \<open>Messages, errors and the environment\<close>

record 'a Message =
  msg_private :: usize
  msg_data :: 'a

definition Message_new :: "'a \<Rightarrow> 'a Message" where
  "Message_new data = \<lparr>msg_private = 0, msg_data = data\<rparr>"

datatype 'a SendError = SendError 'a
datatype RecvError = RecvError

type_synonym 'a msg_heap = "ptr \<rightharpoonup> 'a Message option"

text \<open>
  What a channel takes from outside: the kernel's queue, the allocator of boxes (given the addresses
  in use), the allocation of the boxed slice of slots, and the addresses at which the counter's
  queue and the boxed free queue settle.
\<close>

record 'q chan_env =
  ce_queue_api :: "'q k_queue_api"
  ce_alloc :: "(ptr \<Rightarrow> bool) \<Rightarrow> ptr option"
  ce_slots :: "nat \<Rightarrow> ptr list option"
  ce_chan_addr :: ptr
  ce_free_addr :: ptr

definition Box_new :: "'q chan_env \<Rightarrow> 'a Message \<Rightarrow> 'a msg_heap \<Rightarrow> (ptr \<times> 'a msg_heap) outcome" where
  "Box_new E m h = (case ce_alloc E (\<lambda>p. h p \<noteq> None) of
     None \<Rightarrow> Panic ''memory allocation failed''
   | Some p \<Rightarrow> Ret (p, h(p \<mapsto> Some m)))"

text \<open>\<open>Box::from_raw\<close> followed by the move of the message out of the box, which frees it.\<close>

definition Box_take :: "ptr \<Rightarrow> 'a msg_heap \<Rightarrow> ('a Message \<times> 'a msg_heap) outcome" where
  "Box_take p h = (case h p of Some (Some m) \<Rightarrow> Ret (m, h(p := None)) | _ \<Rightarrow> UB)"

definition ptr_write :: "ptr \<Rightarrow> 'a Message \<Rightarrow> 'a msg_heap \<Rightarrow> 'a msg_heap outcome" where
  "ptr_write p m h = (case h p of Some _ \<Rightarrow> Ret (h(p \<mapsto> Some m)) | None \<Rightarrow> UB)"

definition ptr_read :: "ptr \<Rightarrow> 'a msg_heap \<Rightarrow> 'a Message outcome" where
  "ptr_read p h = (case h p of Some (Some m) \<Rightarrow> Ret m | _ \<Rightarrow> UB)"

section \<open>Channels\<close>

record 'q Bounded =
  bd_slots :: "ptr list"
  bd_free :: "'q Queue"
  bd_chan :: "'q Queue"

text \<open>The flavor that a channel's senders and receivers share, and the messages they own.\<close>

datatype 'q flavor = Unbounded_flavor "'q Queue Counter" | Bounded_flavor "'q Bounded Counter"

record ('q, 'a) channel =
  ch_flavor :: "'q flavor"
  ch_heap :: "'a msg_heap"

text \<open>The loop of \<open>Bounded::new\<close> that puts every slot on the free list.\<close>

primrec Bounded_fill :: "'q chan_env \<Rightarrow> 'q Queue \<Rightarrow> ptr list \<Rightarrow> 'q Queue outcome" where
  "Bounded_fill E free [] = Ret free"
| "Bounded_fill E free (slot # slots) =
     bind_outcome (Queue_send (ce_queue_api E) (ce_free_addr E) free slot) (\<lambda>free. Bounded_fill E free slots)"

definition Bounded_new :: "'q chan_env \<Rightarrow> nat \<Rightarrow> 'q Bounded outcome" where
  "Bounded_new E cap =
     bind_outcome (expect ''memory allocation failed'' (ce_slots E cap)) (\<lambda>slots.
     bind_outcome (Bounded_fill E (Queue_new (ce_queue_api E)) slots) (\<lambda>free.
       Ret \<lparr>bd_slots = slots, bd_free = free, bd_chan = Queue_new (ce_queue_api E)\<rparr>))"

definition unbounded_from :: "'q Queue \<Rightarrow> 'a msg_heap \<Rightarrow> ('q, 'a) channel" where
  "unbounded_from queue h = \<lparr>ch_flavor = Unbounded_flavor (Counter_new queue), ch_heap = h\<rparr>"

definition unbounded :: "'q chan_env \<Rightarrow> 'a msg_heap \<Rightarrow> ('q, 'a) channel" where
  "unbounded E h = unbounded_from (Queue_new (ce_queue_api E)) h"

definition alloc_slots :: "ptr list \<Rightarrow> 'a msg_heap \<Rightarrow> 'a msg_heap" where
  "alloc_slots slots h = (\<lambda>p. if p \<in> set slots then Some None else h p)"

definition bounded :: "'q chan_env \<Rightarrow> nat \<Rightarrow> 'a msg_heap \<Rightarrow> ('q, 'a) channel outcome" where
  "bounded E cap h =
     (if cap = 0 then Panic ''Zero capacity queues are not supported on Zephyr''
      else bind_outcome (Bounded_new E cap) (\<lambda>b.
        Ret \<lparr>ch_flavor = Bounded_flavor (Counter_new b), ch_heap = alloc_slots (bd_slots b) h\<rparr>))"

section \<open>Sending\<close>

text \<open>
  The bounded branch of \<open>send_timeout\<close> in its three parts: take a buffer from the free list, write
  the message into it, and hand it to the receivers.
\<close>

definition send_take :: "'q chan_env \<Rightarrow> 'q Bounded \<Rightarrow> k_timeout_t \<Rightarrow> (ptr \<times> 'q Bounded) outcome" where
  "send_take E b timeout =
     bind_outcome (Queue_recv (ce_queue_api E) (ce_free_addr E) (bd_free b) timeout) (\<lambda>(buf, free).
       Ret (buf, b\<lparr>bd_free := free\<rparr>))"

definition send_put :: "'q chan_env \<Rightarrow> 'q Bounded \<Rightarrow> ptr \<Rightarrow> 'q Bounded outcome" where
  "send_put E b buf =
     bind_outcome (Queue_send (ce_queue_api E) (ce_chan_addr E) (bd_chan b) buf) (\<lambda>chan.
       Ret (b\<lparr>bd_chan := chan\<rparr>))"

definition Sender_send_timeout ::
    "'q chan_env \<Rightarrow> ('q, 'a) channel \<Rightarrow> 'a \<Rightarrow> k_timeout_t \<Rightarrow>
     ((unit, 'a SendError) result \<times> ('q, 'a) channel) outcome" where
  "Sender_send_timeout E self msg timeout =
     (case ch_flavor self of
        Unbounded_flavor c \<Rightarrow>
          bind_outcome (Box_new E (Message_new msg) (ch_heap self)) (\<lambda>(p, h).
          bind_outcome (Queue_send (ce_queue_api E) (ce_chan_addr E) (cn_chan c) p) (\<lambda>q.
            Ret (Ok (), \<lparr>ch_flavor = Unbounded_flavor (c\<lparr>cn_chan := q\<rparr>), ch_heap = h\<rparr>)))
      | Bounded_flavor c \<Rightarrow>
          bind_outcome (send_take E (cn_chan c) timeout) (\<lambda>(buf, b).
            if buf = 0 then
              Ret (Err (SendError msg), self\<lparr>ch_flavor := Bounded_flavor (c\<lparr>cn_chan := b\<rparr>)\<rparr>)
            else
              bind_outcome (ptr_write buf (Message_new msg) (ch_heap self)) (\<lambda>h.
              bind_outcome (send_put E b buf) (\<lambda>b.
                Ret (Ok (), \<lparr>ch_flavor = Bounded_flavor (c\<lparr>cn_chan := b\<rparr>), ch_heap = h\<rparr>)))))"

definition Sender_send where
  "Sender_send E self msg = Sender_send_timeout E self msg Timeout_from_Forever"

definition Sender_try_send where
  "Sender_try_send E self msg = Sender_send_timeout E self msg Timeout_from_NoWait"

section \<open>Receiving\<close>

definition recv_take :: "'q chan_env \<Rightarrow> 'q Bounded \<Rightarrow> k_timeout_t \<Rightarrow> (ptr \<times> 'q Bounded) outcome" where
  "recv_take E b timeout =
     bind_outcome (Queue_recv (ce_queue_api E) (ce_chan_addr E) (bd_chan b) timeout) (\<lambda>(buf, chan).
       Ret (buf, b\<lparr>bd_chan := chan\<rparr>))"

definition recv_put :: "'q chan_env \<Rightarrow> 'q Bounded \<Rightarrow> ptr \<Rightarrow> 'q Bounded outcome" where
  "recv_put E b buf =
     bind_outcome (Queue_send (ce_queue_api E) (ce_free_addr E) (bd_free b) buf) (\<lambda>free.
       Ret (b\<lparr>bd_free := free\<rparr>))"

definition Receiver_recv_timeout ::
    "'q chan_env \<Rightarrow> ('q, 'a) channel \<Rightarrow> k_timeout_t \<Rightarrow>
     (('a, RecvError) result \<times> ('q, 'a) channel) outcome" where
  "Receiver_recv_timeout E self timeout =
     (case ch_flavor self of
        Unbounded_flavor c \<Rightarrow>
          bind_outcome (Queue_recv (ce_queue_api E) (ce_chan_addr E) (cn_chan c) timeout) (\<lambda>(p, q).
            if p = 0 then
              Ret (Err RecvError, self\<lparr>ch_flavor := Unbounded_flavor (c\<lparr>cn_chan := q\<rparr>)\<rparr>)
            else
              bind_outcome (Box_take p (ch_heap self)) (\<lambda>(m, h).
                Ret (Ok (msg_data m), \<lparr>ch_flavor = Unbounded_flavor (c\<lparr>cn_chan := q\<rparr>), ch_heap = h\<rparr>)))
      | Bounded_flavor c \<Rightarrow>
          bind_outcome (recv_take E (cn_chan c) timeout) (\<lambda>(buf, b).
            if buf = 0 then
              Ret (Err RecvError, self\<lparr>ch_flavor := Bounded_flavor (c\<lparr>cn_chan := b\<rparr>)\<rparr>)
            else
              bind_outcome (ptr_read buf (ch_heap self)) (\<lambda>m.
              bind_outcome (recv_put E b buf) (\<lambda>b.
                Ret (Ok (msg_data m), self\<lparr>ch_flavor := Bounded_flavor (c\<lparr>cn_chan := b\<rparr>)\<rparr>)))))"

definition Receiver_recv where
  "Receiver_recv E self = Receiver_recv_timeout E self Timeout_from_Forever"

definition Receiver_try_recv where
  "Receiver_try_recv E self = Receiver_recv_timeout E self Timeout_from_NoWait"

section \<open>Cloning and dropping handles\<close>

text \<open>The result of a drop is \<open>None\<close> when it freed the channel.\<close>

definition Sender_clone :: "('q, 'a) channel \<Rightarrow> ('q, 'a) channel outcome" where
  "Sender_clone self = (case ch_flavor self of
     Unbounded_flavor c \<Rightarrow>
       bind_outcome (counter_Sender_acquire c) (\<lambda>c. Ret (self\<lparr>ch_flavor := Unbounded_flavor c\<rparr>))
   | Bounded_flavor c \<Rightarrow>
       bind_outcome (counter_Sender_acquire c) (\<lambda>c. Ret (self\<lparr>ch_flavor := Bounded_flavor c\<rparr>)))"

definition Receiver_clone :: "('q, 'a) channel \<Rightarrow> ('q, 'a) channel outcome" where
  "Receiver_clone self = (case ch_flavor self of
     Unbounded_flavor c \<Rightarrow>
       bind_outcome (counter_Receiver_acquire c) (\<lambda>c. Ret (self\<lparr>ch_flavor := Unbounded_flavor c\<rparr>))
   | Bounded_flavor c \<Rightarrow>
       bind_outcome (counter_Receiver_acquire c) (\<lambda>c. Ret (self\<lparr>ch_flavor := Bounded_flavor c\<rparr>)))"

definition Sender_drop :: "('q, 'a) channel \<Rightarrow> ('q, 'a) channel option outcome" where
  "Sender_drop self = (case ch_flavor self of
     Unbounded_flavor c \<Rightarrow>
       bind_outcome
         (counter_Sender_release (\<lambda>_. Panic ''Unbounded queues cannot currently be dropped'') c)
         (\<lambda>b. Ret (map_option (\<lambda>c. self\<lparr>ch_flavor := Unbounded_flavor c\<rparr>) b))
   | Bounded_flavor c \<Rightarrow>
       bind_outcome
         (counter_Sender_release (\<lambda>_. Panic ''Bounded queues cannot currently be dropped'') c)
         (\<lambda>b. Ret (map_option (\<lambda>c. self\<lparr>ch_flavor := Bounded_flavor c\<rparr>) b)))"

definition Receiver_drop :: "('q, 'a) channel \<Rightarrow> ('q, 'a) channel option outcome" where
  "Receiver_drop self = (case ch_flavor self of
     Unbounded_flavor c \<Rightarrow>
       bind_outcome
         (counter_Receiver_release (\<lambda>_. Panic ''Unnbounded channel cannot be dropped'') c)
         (\<lambda>b. Ret (map_option (\<lambda>c. self\<lparr>ch_flavor := Unbounded_flavor c\<rparr>) b))
   | Bounded_flavor c \<Rightarrow>
       bind_outcome
         (counter_Receiver_release (\<lambda>_. Panic ''Bounded channels cannot be dropped'') c)
         (\<lambda>b. Ret (map_option (\<lambda>c. self\<lparr>ch_flavor := Bounded_flavor c\<rparr>) b)))"

section \<open>The abstract channel\<close>

text \<open>A list of messages with a capacity, \<open>None\<close> when it is unbounded.\<close>

record 'a chan_spec =
  cs_cap :: "nat option"
  cs_msgs :: "'a list"

definition spec_full :: "'a chan_spec \<Rightarrow> bool" where
  "spec_full c \<longleftrightarrow> (case cs_cap c of None \<Rightarrow> False | Some n \<Rightarrow> n \<le> length (cs_msgs c))"

definition spec_send ::
    "'a chan_spec \<Rightarrow> 'a \<Rightarrow> k_timeout_t \<Rightarrow> ((unit, 'a SendError) result \<times> 'a chan_spec) outcome" where
  "spec_send c msg t =
     (if spec_full c then if t = K_FOREVER then Blocked else Ret (Err (SendError msg), c)
      else Ret (Ok (), c\<lparr>cs_msgs := cs_msgs c @ [msg]\<rparr>))"

definition spec_recv ::
    "'a chan_spec \<Rightarrow> k_timeout_t \<Rightarrow> (('a, RecvError) result \<times> 'a chan_spec) outcome" where
  "spec_recv c t = (case cs_msgs c of
     [] \<Rightarrow> if t = K_FOREVER then Blocked else Ret (Err RecvError, c)
   | m # ms \<Rightarrow> Ret (Ok m, c\<lparr>cs_msgs := ms\<rparr>))"

text \<open>What a channel's memory and queues say, and the well-formedness of a channel at rest.\<close>

definition heap_data :: "'a msg_heap \<Rightarrow> ptr \<Rightarrow> 'a" where
  "heap_data h p = msg_data (the (the (h p)))"

definition heap_init :: "'a msg_heap \<Rightarrow> ptr \<Rightarrow> bool" where
  "heap_init h p \<longleftrightarrow> (case h p of Some (Some _) \<Rightarrow> True | _ \<Rightarrow> False)"

definition chan_abs :: "('q \<Rightarrow> ptr list) \<Rightarrow> ('q, 'a) channel \<Rightarrow> 'a chan_spec" where
  "chan_abs contents ch = (case ch_flavor ch of
     Unbounded_flavor c \<Rightarrow>
       \<lparr>cs_cap = None, cs_msgs = map (heap_data (ch_heap ch)) (Queue_items contents (cn_chan c))\<rparr>
   | Bounded_flavor c \<Rightarrow>
       \<lparr>cs_cap = Some (length (bd_slots (cn_chan c))),
        cs_msgs = map (heap_data (ch_heap ch)) (Queue_items contents (bd_chan (cn_chan c)))\<rparr>)"

definition chan_ok :: "'q chan_env \<Rightarrow> ('q \<Rightarrow> ptr list) \<Rightarrow> ('q, 'a) channel \<Rightarrow> bool" where
  "chan_ok E contents ch \<longleftrightarrow> (case ch_flavor ch of
     Unbounded_flavor c \<Rightarrow>
       (let ps = Queue_items contents (cn_chan c) in
        zo_placed (ce_chan_addr E) (cn_chan c) \<and> distinct ps \<and> 0 \<notin> set ps \<and>
        list_all (heap_init (ch_heap ch)) ps)
   | Bounded_flavor c \<Rightarrow>
       (let b = cn_chan c; fs = Queue_items contents (bd_free b); ps = Queue_items contents (bd_chan b) in
        zo_placed (ce_free_addr E) (bd_free b) \<and> zo_placed (ce_chan_addr E) (bd_chan b) \<and>
        distinct (bd_slots b) \<and> distinct (fs @ ps) \<and> set (fs @ ps) = set (bd_slots b) \<and>
        0 \<notin> set (bd_slots b) \<and> list_all (\<lambda>p. ch_heap ch p \<noteq> None) (bd_slots b) \<and>
        list_all (heap_init (ch_heap ch)) ps))"

fun map_outcome :: "('s \<Rightarrow> 't) \<Rightarrow> ('r \<times> 's) outcome \<Rightarrow> ('r \<times> 't) outcome" where
  "map_outcome f (Ret (r, s)) = Ret (r, f s)"
| "map_outcome f (Panic m) = Panic m"
| "map_outcome f Blocked = Blocked"
| "map_outcome f UB = UB"

fun outcome_all :: "('s \<Rightarrow> bool) \<Rightarrow> ('r \<times> 's) outcome \<Rightarrow> bool" where
  "outcome_all P (Ret (r, s)) = P s"
| "outcome_all P (Panic m) = True"
| "outcome_all P Blocked = True"
| "outcome_all P UB = False"

section \<open>Channels in a documented environment\<close>

locale channel_env =
  fixes E :: "'q chan_env" and contents :: "'q \<Rightarrow> ptr list"
  assumes kernel: "zephyr_queue (ce_queue_api E) contents"
    and chan_addr: "ce_chan_addr E \<noteq> 0"
    and free_addr: "ce_free_addr E \<noteq> 0"
    and alloc_fresh: "ce_alloc E used = Some p \<Longrightarrow> p \<noteq> 0 \<and> \<not> used p"
    and slots_fresh: "ce_slots E n = Some ps \<Longrightarrow> length ps = n \<and> distinct ps \<and> 0 \<notin> set ps"

sublocale channel_env \<subseteq> chanq: placed_queue "ce_queue_api E" contents "ce_chan_addr E"
  using kernel chan_addr by (simp add: placed_queue_def placed_queue_axioms_def)

sublocale channel_env \<subseteq> freeq: placed_queue "ce_queue_api E" contents "ce_free_addr E"
  using kernel free_addr by (simp add: placed_queue_def placed_queue_axioms_def)

lemma heap_data_upd [simp]: "p \<notin> set ps \<Longrightarrow> map (heap_data (h(p := v))) ps = map (heap_data h) ps"
  by (auto simp: heap_data_def)

lemma heap_init_upd [simp]:
  "p \<notin> set ps \<Longrightarrow> list_all (heap_init (h(p := v))) ps = list_all (heap_init h) ps"
  by (auto simp: heap_init_def list_all_iff)

lemma heap_data_same [simp]: "heap_data (h(p \<mapsto> Some m)) p = msg_data m"
  by (simp add: heap_data_def)

lemma heap_init_same [simp]: "heap_init (h(p \<mapsto> Some m)) p"
  by (simp add: heap_init_def)

lemma heap_initE: "heap_init h p \<Longrightarrow> (\<And>m. h p = Some (Some m) \<Longrightarrow> thesis) \<Longrightarrow> thesis"
  by (auto simp: heap_init_def split: option.splits)

lemma same_set_length:
  "distinct xs \<Longrightarrow> distinct ys \<Longrightarrow> set xs = set ys \<Longrightarrow> length xs = length ys"
  by (metis distinct_card)

lemma chan_ok_bounded:
  assumes "chan_ok E contents ch" and "ch_flavor ch = Bounded_flavor c"
  shows "zo_placed (ce_free_addr E) (bd_free (cn_chan c))" "zo_placed (ce_chan_addr E) (bd_chan (cn_chan c))"
    "p \<in> set (Queue_items contents (bd_free (cn_chan c))) \<Longrightarrow>
       p \<noteq> 0 \<and> ch_heap ch p \<noteq> None \<and> p \<notin> set (Queue_items contents (bd_chan (cn_chan c)))"
    "p \<in> set (Queue_items contents (bd_chan (cn_chan c))) \<Longrightarrow> p \<noteq> 0 \<and> heap_init (ch_heap ch) p"
    "length (Queue_items contents (bd_free (cn_chan c))) + length (Queue_items contents (bd_chan (cn_chan c)))
       = length (bd_slots (cn_chan c))"
proof -
  let ?fs = "Queue_items contents (bd_free (cn_chan c))" and ?ps = "Queue_items contents (bd_chan (cn_chan c))"
  have d: "distinct (?fs @ ?ps)" "distinct (bd_slots (cn_chan c))"
    and s: "set (?fs @ ?ps) = set (bd_slots (cn_chan c))"
    and z: "0 \<notin> set (bd_slots (cn_chan c))" and h: "list_all (\<lambda>p. ch_heap ch p \<noteq> None) (bd_slots (cn_chan c))"
    and i: "list_all (heap_init (ch_heap ch)) ?ps"
    using assms by (simp_all add: chan_ok_def Let_def)
  show "zo_placed (ce_free_addr E) (bd_free (cn_chan c))" "zo_placed (ce_chan_addr E) (bd_chan (cn_chan c))"
    using assms by (simp_all add: chan_ok_def Let_def)
  show "p \<in> set ?fs \<Longrightarrow> p \<noteq> 0 \<and> ch_heap ch p \<noteq> None \<and> p \<notin> set ?ps"
    using d s z h by (auto simp: list_all_iff)
  show "p \<in> set ?ps \<Longrightarrow> p \<noteq> 0 \<and> heap_init (ch_heap ch) p"
    using s z i by (auto simp: list_all_iff)
  show "length ?fs + length ?ps = length (bd_slots (cn_chan c))"
    using same_set_length [OF d s] by simp
qed

lemma spec_full_bounded:
  assumes "chan_ok E contents ch" and "ch_flavor ch = Bounded_flavor c"
  shows "spec_full (chan_abs contents ch) \<longleftrightarrow> Queue_items contents (bd_free (cn_chan c)) = []"
  using chan_ok_bounded(5) [OF assms] assms(2)
  by (cases "Queue_items contents (bd_free (cn_chan c))") (auto simp: spec_full_def chan_abs_def)

text \<open>An operation on a channel does what the abstract one does, and leaves a well-formed channel.\<close>

definition refines ::
    "'q chan_env \<Rightarrow> ('q \<Rightarrow> ptr list) \<Rightarrow> ('r \<times> ('q, 'a) channel) outcome \<Rightarrow> ('r \<times> 'a chan_spec) outcome \<Rightarrow> bool"
where
  "refines E contents c a \<longleftrightarrow> map_outcome (chan_abs contents) c = a \<and> outcome_all (chan_ok E contents) c"

lemma refines_Ret:
  "refines E contents (Ret (r, ch)) (Ret (r', a)) \<longleftrightarrow>
   r = r' \<and> chan_abs contents ch = a \<and> chan_ok E contents ch"
  by (auto simp: refines_def)

lemma refines_Blocked [simp]: "refines E contents Blocked Blocked"
  by (simp add: refines_def)

context channel_env
begin

lemma bounded_send_full:
  assumes ok: "chan_ok E contents ch" and fl: "ch_flavor ch = Bounded_flavor c"
    and Nil: "Queue_items contents (bd_free (cn_chan c)) = []"
  shows "refines E contents (Sender_send_timeout E ch m t) (spec_send (chan_abs contents ch) m t)"
proof (cases "t = K_FOREVER")
  note fq = chan_ok_bounded(1) [OF ok fl] and full = spec_full_bounded [OF ok fl]
  case True
  with freeq.queue.recv_waits [OF fq Nil] full fl Nil show ?thesis
    by (simp add: Sender_send_timeout_def send_take_def spec_send_def)
next
  note fq = chan_ok_bounded(1) [OF ok fl] and full = spec_full_bounded [OF ok fl]
  case False
  then obtain fq' where f: "Queue_recv (ce_queue_api E) (ce_free_addr E) (bd_free (cn_chan c)) t = Ret (0, fq')"
    and fq': "zo_placed (ce_free_addr E) fq'" "Queue_items contents fq' = []"
    using freeq.queue.recv_null [OF fq Nil] by blast
  let ?ch = "ch\<lparr>ch_flavor := Bounded_flavor (c\<lparr>cn_chan := (cn_chan c)\<lparr>bd_free := fq'\<rparr>\<rparr>)\<rparr>"
  have "Sender_send_timeout E ch m t = Ret (Err (SendError m), ?ch)"
    using fl f by (simp add: Sender_send_timeout_def send_take_def)
  moreover have "chan_abs contents ?ch = chan_abs contents ch" using fl by (simp add: chan_abs_def)
  moreover have "chan_ok E contents ?ch" using ok fl fq' Nil by (simp add: chan_ok_def Let_def)
  ultimately show ?thesis using full False Nil by (simp add: spec_send_def refines_Ret)
qed

lemma bounded_send_room:
  assumes ok: "chan_ok E contents ch" and fl: "ch_flavor ch = Bounded_flavor c"
    and Cons: "Queue_items contents (bd_free (cn_chan c)) = buf # fs"
  shows "refines E contents (Sender_send_timeout E ch m t) (spec_send (chan_abs contents ch) m t)"
proof -
  let ?b = "cn_chan c"
  have buf: "buf \<noteq> 0" "ch_heap ch buf \<noteq> None" "buf \<notin> set (Queue_items contents (bd_chan ?b))"
    using chan_ok_bounded(3) [OF ok fl, of buf] Cons by simp_all
  obtain fq' where f: "Queue_recv (ce_queue_api E) (ce_free_addr E) (bd_free ?b) t = Ret (buf, fq')"
    and fq': "zo_placed (ce_free_addr E) fq'" "Queue_items contents fq' = fs"
    using freeq.queue.recv_item [OF chan_ok_bounded(1) [OF ok fl] Cons] by blast
  obtain cq' where q: "Queue_send (ce_queue_api E) (ce_chan_addr E) (bd_chan ?b) buf = Ret cq'"
    and cq': "zo_placed (ce_chan_addr E) cq'" "Queue_items contents cq' = Queue_items contents (bd_chan ?b) @ [buf]"
    using chanq.queue.send_items [OF chan_ok_bounded(2) [OF ok fl]] by blast
  let ?ch = "\<lparr>ch_flavor = Bounded_flavor (c\<lparr>cn_chan := ?b\<lparr>bd_free := fq', bd_chan := cq'\<rparr>\<rparr>),
    ch_heap = (ch_heap ch)(buf \<mapsto> Some (Message_new m))\<rparr>"
  have "Sender_send_timeout E ch m t = Ret (Ok (), ?ch)"
    using fl f q buf by (auto simp: Sender_send_timeout_def send_take_def send_put_def ptr_write_def)
  moreover have "chan_abs contents ?ch = (chan_abs contents ch)\<lparr>cs_msgs := cs_msgs (chan_abs contents ch) @ [m]\<rparr>"
    using fl buf by (simp add: chan_abs_def cq' Message_new_def)
  moreover have "chan_ok E contents ?ch"
    using ok fl Cons buf fq' cq' by (auto simp: chan_ok_def Let_def list_all_iff heap_init_def)
  ultimately show ?thesis using spec_full_bounded [OF ok fl] Cons by (simp add: spec_send_def refines_Ret)
qed

lemma bounded_recv_empty:
  assumes ok: "chan_ok E contents ch" and fl: "ch_flavor ch = Bounded_flavor c"
    and Nil: "Queue_items contents (bd_chan (cn_chan c)) = []"
  shows "refines E contents (Receiver_recv_timeout E ch t) (spec_recv (chan_abs contents ch) t)"
proof (cases "t = K_FOREVER")
  note cq = chan_ok_bounded(2) [OF ok fl]
  case True
  with chanq.queue.recv_waits [OF cq Nil] fl Nil show ?thesis
    by (simp add: Receiver_recv_timeout_def recv_take_def spec_recv_def chan_abs_def)
next
  note cq = chan_ok_bounded(2) [OF ok fl]
  case False
  then obtain cq' where f: "Queue_recv (ce_queue_api E) (ce_chan_addr E) (bd_chan (cn_chan c)) t = Ret (0, cq')"
    and cq': "zo_placed (ce_chan_addr E) cq'" "Queue_items contents cq' = []"
    using chanq.queue.recv_null [OF cq Nil] by blast
  let ?ch = "ch\<lparr>ch_flavor := Bounded_flavor (c\<lparr>cn_chan := (cn_chan c)\<lparr>bd_chan := cq'\<rparr>\<rparr>)\<rparr>"
  have "Receiver_recv_timeout E ch t = Ret (Err RecvError, ?ch)"
    using fl f by (simp add: Receiver_recv_timeout_def recv_take_def)
  moreover have "chan_abs contents ?ch = chan_abs contents ch" using fl cq' Nil by (simp add: chan_abs_def)
  moreover have "chan_ok E contents ?ch" using ok fl cq' Nil by (simp add: chan_ok_def Let_def)
  ultimately show ?thesis using False Nil fl by (simp add: spec_recv_def chan_abs_def refines_Ret)
qed

lemma bounded_recv_item:
  assumes ok: "chan_ok E contents ch" and fl: "ch_flavor ch = Bounded_flavor c"
    and Cons: "Queue_items contents (bd_chan (cn_chan c)) = buf # ps"
  shows "refines E contents (Receiver_recv_timeout E ch t) (spec_recv (chan_abs contents ch) t)"
proof -
  let ?b = "cn_chan c"
  have buf: "buf \<noteq> 0" "heap_init (ch_heap ch) buf" using chan_ok_bounded(4) [OF ok fl, of buf] Cons by simp_all
  obtain m where m: "ch_heap ch buf = Some (Some m)" using buf by (elim heap_initE)
  obtain cq' where f: "Queue_recv (ce_queue_api E) (ce_chan_addr E) (bd_chan ?b) t = Ret (buf, cq')"
    and cq': "zo_placed (ce_chan_addr E) cq'" "Queue_items contents cq' = ps"
    using chanq.queue.recv_item [OF chan_ok_bounded(2) [OF ok fl] Cons] by blast
  obtain fq' where q: "Queue_send (ce_queue_api E) (ce_free_addr E) (bd_free ?b) buf = Ret fq'"
    and fq': "zo_placed (ce_free_addr E) fq'" "Queue_items contents fq' = Queue_items contents (bd_free ?b) @ [buf]"
    using freeq.queue.send_items [OF chan_ok_bounded(1) [OF ok fl]] by blast
  let ?ch = "ch\<lparr>ch_flavor := Bounded_flavor (c\<lparr>cn_chan := ?b\<lparr>bd_free := fq', bd_chan := cq'\<rparr>\<rparr>)\<rparr>"
  have "Receiver_recv_timeout E ch t = Ret (Ok (msg_data m), ?ch)"
    using fl f q buf m by (simp add: Receiver_recv_timeout_def recv_take_def recv_put_def ptr_read_def)
  moreover have "chan_ok E contents ?ch"
    using ok fl Cons fq' cq' by (auto simp: chan_ok_def Let_def)
  ultimately show ?thesis using Cons fl m cq'
    by (simp add: spec_recv_def chan_abs_def refines_Ret heap_data_def)
qed

lemma unbounded_send:
  assumes ok: "chan_ok E contents ch" and fl: "ch_flavor ch = Unbounded_flavor c"
    and al: "ce_alloc E (\<lambda>p. ch_heap ch p \<noteq> None) = Some p"
  shows "refines E contents (Sender_send_timeout E ch m t) (spec_send (chan_abs contents ch) m t)"
proof -
  have cq: "zo_placed (ce_chan_addr E) (cn_chan c)" using ok fl by (simp add: chan_ok_def Let_def)
  have p: "p \<noteq> 0" "ch_heap ch p = None" using alloc_fresh [OF al] by simp_all
  then have new: "p \<notin> set (Queue_items contents (cn_chan c))"
    using ok fl by (auto simp: chan_ok_def Let_def list_all_iff heap_init_def)
  obtain cq' where q: "Queue_send (ce_queue_api E) (ce_chan_addr E) (cn_chan c) p = Ret cq'"
    and cq': "zo_placed (ce_chan_addr E) cq'" "Queue_items contents cq' = Queue_items contents (cn_chan c) @ [p]"
    using chanq.queue.send_items [OF cq] by blast
  let ?ch = "\<lparr>ch_flavor = Unbounded_flavor (c\<lparr>cn_chan := cq'\<rparr>),
    ch_heap = (ch_heap ch)(p \<mapsto> Some (Message_new m))\<rparr>"
  have "Sender_send_timeout E ch m t = Ret (Ok (), ?ch)"
    using fl al q by (simp add: Sender_send_timeout_def Box_new_def)
  moreover have "chan_ok E contents ?ch" using ok fl new p cq' by (simp add: chan_ok_def Let_def)
  ultimately show ?thesis
    using fl new cq' by (simp add: spec_send_def spec_full_def chan_abs_def refines_Ret Message_new_def)
qed

lemma unbounded_recv:
  assumes ok: "chan_ok E contents ch" and fl: "ch_flavor ch = Unbounded_flavor c"
  shows "refines E contents (Receiver_recv_timeout E ch t) (spec_recv (chan_abs contents ch) t)"
proof (cases "Queue_items contents (cn_chan c)")
  have cq: "zo_placed (ce_chan_addr E) (cn_chan c)" using ok fl by (simp add: chan_ok_def Let_def)
  case Nil
  with cq chanq.queue.recv_waits chanq.queue.recv_null [of "cn_chan c" t] ok fl show ?thesis
    by (cases "t = K_FOREVER")
      (auto simp: Receiver_recv_timeout_def spec_recv_def chan_abs_def refines_Ret chan_ok_def Let_def)
next
  have cq: "zo_placed (ce_chan_addr E) (cn_chan c)" using ok fl by (simp add: chan_ok_def Let_def)
  case (Cons p ps)
  then have p: "p \<noteq> 0" "p \<notin> set ps" and "heap_init (ch_heap ch) p"
    using ok fl by (auto simp: chan_ok_def Let_def)
  then obtain m where m: "ch_heap ch p = Some (Some m)" by (elim heap_initE)
  obtain q where q: "Queue_recv (ce_queue_api E) (ce_chan_addr E) (cn_chan c) t = Ret (p, q)"
    and q': "zo_placed (ce_chan_addr E) q" "Queue_items contents q = ps"
    using chanq.queue.recv_item [OF cq Cons] by blast
  let ?ch = "\<lparr>ch_flavor = Unbounded_flavor (c\<lparr>cn_chan := q\<rparr>), ch_heap = (ch_heap ch)(p := None)\<rparr>"
  have "Receiver_recv_timeout E ch t = Ret (Ok (msg_data m), ?ch)"
    using fl q p m by (simp add: Receiver_recv_timeout_def Box_take_def)
  moreover have "chan_ok E contents ?ch" using ok fl Cons p q' by (simp add: chan_ok_def Let_def)
  ultimately show ?thesis
    using fl Cons m p q' by (simp add: spec_recv_def chan_abs_def refines_Ret heap_data_def [of _ p])
qed

lemma Bounded_fill_items:
  "zo_placed (ce_free_addr E) q \<Longrightarrow> \<exists>q'. Bounded_fill E q ps = Ret q' \<and> zo_placed (ce_free_addr E) q' \<and>
     Queue_items contents q' = Queue_items contents q @ ps"
proof (induction ps arbitrary: q)
  case (Cons p ps)
  obtain q1 where q1: "Queue_send (ce_queue_api E) (ce_free_addr E) q p = Ret q1"
    "zo_placed (ce_free_addr E) q1" "Queue_items contents q1 = Queue_items contents q @ [p]"
    using freeq.queue.send_items [OF Cons.prems] by blast
  with Cons.IH [of q1] show ?case by auto
qed simp

lemma bounded_created:
  assumes "ce_slots E cap = Some ps" and "cap \<noteq> 0"
  shows "\<exists>ch. bounded E cap h = Ret ch \<and> chan_ok E contents ch \<and>
    chan_abs contents ch = \<lparr>cs_cap = Some cap, cs_msgs = []\<rparr>"
proof -
  obtain q where q: "Bounded_fill E (Queue_new (ce_queue_api E)) ps = Ret q"
    "zo_placed (ce_free_addr E) q" "Queue_items contents q = ps"
    using Bounded_fill_items [OF freeq.queue.new_ok(1), of ps] freeq.queue.new_ok(2) by auto
  then show ?thesis
    using assms slots_fresh [OF assms(1)] chanq.queue.new_ok
    by (simp add: bounded_def Bounded_new_def chan_ok_def chan_abs_def Counter_new_def alloc_slots_def
        list_all_iff)
qed

lemma unbounded_created:
  "chan_ok E contents (unbounded E h) \<and>
   chan_abs contents (unbounded E h) = \<lparr>cs_cap = None, cs_msgs = []\<rparr>"
  using chanq.queue.new_ok
  by (simp add: unbounded_def unbounded_from_def chan_ok_def chan_abs_def Counter_new_def)

lemma recv_refines:
  assumes "chan_ok E contents ch"
  shows "refines E contents (Receiver_recv_timeout E ch t) (spec_recv (chan_abs contents ch) t)"
proof (cases "ch_flavor ch")
  case (Unbounded_flavor c)
  then show ?thesis by (rule unbounded_recv [OF assms])
next
  case (Bounded_flavor c)
  show ?thesis
  proof (cases "Queue_items contents (bd_chan (cn_chan c))")
    case Nil
    then show ?thesis by (rule bounded_recv_empty [OF assms Bounded_flavor])
  next
    case (Cons p ps)
    then show ?thesis by (rule bounded_recv_item [OF assms Bounded_flavor])
  qed
qed

lemma send_refines:
  assumes "chan_ok E contents ch"
    and "cs_cap (chan_abs contents ch) = None \<Longrightarrow> ce_alloc E (\<lambda>p. ch_heap ch p \<noteq> None) \<noteq> None"
  shows "refines E contents (Sender_send_timeout E ch m t) (spec_send (chan_abs contents ch) m t)"
proof (cases "ch_flavor ch")
  case (Unbounded_flavor c)
  then obtain p where "ce_alloc E (\<lambda>p. ch_heap ch p \<noteq> None) = Some p"
    using assms(2) by (auto simp: chan_abs_def)
  then show ?thesis by (rule unbounded_send [OF assms(1) Unbounded_flavor])
next
  case (Bounded_flavor c)
  show ?thesis
  proof (cases "Queue_items contents (bd_free (cn_chan c))")
    case Nil
    then show ?thesis by (rule bounded_send_full [OF assms(1) Bounded_flavor])
  next
    case (Cons p ps)
    then show ?thesis by (rule bounded_send_room [OF assms(1) Bounded_flavor])
  qed
qed

lemma send_out_of_memory:
  assumes "cs_cap (chan_abs contents ch) = None" and "ce_alloc E (\<lambda>p. ch_heap ch p \<noteq> None) = None"
  shows "Sender_send_timeout E ch m t = Panic ''memory allocation failed''"
  using assms by (simp add: chan_abs_def Sender_send_timeout_def Box_new_def split: flavor.splits)

lemma refines_RetD:
  "refines E contents (Ret (r, ch)) a \<Longrightarrow> a = Ret (r, chan_abs contents ch) \<and> chan_ok E contents ch"
  by (auto simp: refines_def)

lemma send_Ret:
  assumes "chan_ok E contents ch" and "Sender_send_timeout E ch m t = Ret (r, ch')"
  shows "chan_ok E contents ch' \<and> spec_send (chan_abs contents ch) m t = Ret (r, chan_abs contents ch')"
proof -
  have "refines E contents (Sender_send_timeout E ch m t) (spec_send (chan_abs contents ch) m t)"
    by (rule send_refines [OF assms(1)], rule notI) (use send_out_of_memory [of ch m t] assms(2) in simp)
  then show ?thesis using refines_RetD [of r ch'] assms(2) by simp
qed

lemma recv_Ret:
  assumes "chan_ok E contents ch" and "Receiver_recv_timeout E ch t = Ret (r, ch')"
  shows "chan_ok E contents ch' \<and> spec_recv (chan_abs contents ch) t = Ret (r, chan_abs contents ch')"
  using refines_RetD [of r ch'] recv_refines [OF assms(1), of t] assms(2) by simp

end

section \<open>What clients of a channel rely on\<close>

datatype 'a chan_op = Op_send 'a k_timeout_t | Op_recv k_timeout_t

text \<open>
  A sequence of calls on one channel, with the messages that were accepted and those that were
  received. A call that would block stays waiting and has no effect.
\<close>

fun chan_run ::
    "('s \<Rightarrow> 'a \<Rightarrow> k_timeout_t \<Rightarrow> ((unit, 'a SendError) result \<times> 's) outcome) \<Rightarrow>
     ('s \<Rightarrow> k_timeout_t \<Rightarrow> (('a, RecvError) result \<times> 's) outcome) \<Rightarrow>
     's \<Rightarrow> 'a chan_op list \<Rightarrow> 'a list \<times> 'a list \<times> 's" where
  "chan_run send recv s [] = ([], [], s)"
| "chan_run send recv s (Op_send m t # ops) = (case send s m t of
     Ret (r, s') \<Rightarrow> (let (ss, rs, s'') = chan_run send recv s' ops
                    in (if is_ok r then m # ss else ss, rs, s''))
   | _ \<Rightarrow> chan_run send recv s ops)"
| "chan_run send recv s (Op_recv t # ops) = (case recv s t of
     Ret (r, s') \<Rightarrow> (let (ss, rs, s'') = chan_run send recv s' ops
                    in (ss, (case r of Ok m \<Rightarrow> m # rs | Err _ \<Rightarrow> rs), s''))
   | _ \<Rightarrow> chan_run send recv s ops)"

locale mpmc =
  fixes send :: "'s \<Rightarrow> 'a \<Rightarrow> k_timeout_t \<Rightarrow> ((unit, 'a SendError) result \<times> 's) outcome"
    and recv :: "'s \<Rightarrow> k_timeout_t \<Rightarrow> (('a, RecvError) result \<times> 's) outcome"
    and msgs :: "'s \<Rightarrow> 'a list"
    and ok :: "'s \<Rightarrow> bool"
  assumes send_law: "ok s \<Longrightarrow> send s m t = Ret (r, s') \<Longrightarrow>
      ok s' \<and> msgs s' = (if is_ok r then msgs s @ [m] else msgs s)"
    and recv_law: "ok s \<Longrightarrow> recv s t = Ret (d, s') \<Longrightarrow>
      ok s' \<and> msgs s = (case d of Ok m \<Rightarrow> m # msgs s' | Err _ \<Rightarrow> msgs s')"
begin

lemma run_in_order:
  "ok s \<Longrightarrow> chan_run send recv s ops = (ss, rs, s') \<Longrightarrow> ok s' \<and> msgs s @ ss = rs @ msgs s'"
proof (induction ops arbitrary: s ss rs s')
  case (Cons a ops)
  show ?case
  proof (cases a)
    case (Op_send m t)
    show ?thesis
    proof (cases "send s m t")
      case (Ret x)
      obtain r s1 where x: "x = (r, s1)" by fastforce
      obtain ss1 rs1 s2 where run: "chan_run send recv s1 ops = (ss1, rs1, s2)" by (metis prod_cases3)
      show ?thesis
        using Cons.prems Cons.IH [OF _ run] send_law [of s m t r s1] Ret x run Op_send
        by (auto split: if_splits)
    qed (use Cons Op_send in auto)
  next
    case (Op_recv t)
    show ?thesis
    proof (cases "recv s t")
      case (Ret x)
      obtain d s1 where x: "x = (d, s1)" by fastforce
      obtain ss1 rs1 s2 where run: "chan_run send recv s1 ops = (ss1, rs1, s2)" by (metis prod_cases3)
      show ?thesis
        using Cons.prems Cons.IH [OF _ run] recv_law [of s t d s1] Ret x run Op_recv
        by (auto split: result.splits)
    qed (use Cons Op_recv in auto)
  qed
qed simp

end

lemma spec_send_Ret:
  "spec_send c m t = Ret (r, c') \<Longrightarrow>
   cs_cap c' = cs_cap c \<and> cs_msgs c' = (if is_ok r then cs_msgs c @ [m] else cs_msgs c)"
  by (auto simp: spec_send_def split: if_splits)

lemma spec_recv_Ret:
  "spec_recv c t = Ret (d, c') \<Longrightarrow>
   cs_cap c' = cs_cap c \<and> cs_msgs c = (case d of Ok m \<Rightarrow> m # cs_msgs c' | Err _ \<Rightarrow> cs_msgs c')"
  by (auto simp: spec_recv_def split: if_splits list.splits)

text \<open>The channels of the code provide this contract; their capacity never changes.\<close>

sublocale channel_env \<subseteq> client: mpmc "Sender_send_timeout E" "Receiver_recv_timeout E"
    "\<lambda>ch. cs_msgs (chan_abs contents ch)"
    "\<lambda>ch. chan_ok E contents ch \<and> cs_cap (chan_abs contents ch) = k" for k
proof unfold_locales
  fix ch ch' :: "('q, 'b) channel" and m t r d
  assume ch: "chan_ok E contents ch \<and> cs_cap (chan_abs contents ch) = k"
  show "Sender_send_timeout E ch m t = Ret (r, ch') \<Longrightarrow>
      (chan_ok E contents ch' \<and> cs_cap (chan_abs contents ch') = k) \<and>
      cs_msgs (chan_abs contents ch') =
        (if is_ok r then cs_msgs (chan_abs contents ch) @ [m] else cs_msgs (chan_abs contents ch))"
    using send_Ret [of ch m t r ch'] ch
      spec_send_Ret [of "chan_abs contents ch" m t r "chan_abs contents ch'"] by simp
  show "Receiver_recv_timeout E ch t = Ret (d, ch') \<Longrightarrow>
      (chan_ok E contents ch' \<and> cs_cap (chan_abs contents ch') = k) \<and>
      cs_msgs (chan_abs contents ch) =
        (case d of Ok m \<Rightarrow> m # cs_msgs (chan_abs contents ch') | Err _ \<Rightarrow> cs_msgs (chan_abs contents ch'))"
    using recv_Ret [of ch t d ch'] ch
      spec_recv_Ret [of "chan_abs contents ch" t d "chan_abs contents ch'"] by simp
qed

context channel_env
begin

lemma bounded_run:
  assumes "ce_slots E cap = Some ps" and "cap \<noteq> 0" and ch: "bounded E cap h = Ret ch"
    and run: "chan_run (Sender_send_timeout E) (Receiver_recv_timeout E) ch ops = (sent, received, ch')"
  shows "sent = received @ cs_msgs (chan_abs contents ch') \<and> length sent \<le> length received + cap"
proof -
  have new: "chan_ok E contents ch" "chan_abs contents ch = \<lparr>cs_cap = Some cap, cs_msgs = []\<rparr>"
    using bounded_created [OF assms(1,2), of h] ch by auto
  with client.run_in_order [where k = "Some cap", OF _ run]
  have r: "chan_ok E contents ch'" "cs_cap (chan_abs contents ch') = Some cap"
    "sent = received @ cs_msgs (chan_abs contents ch')" by auto
  moreover have "length (cs_msgs (chan_abs contents ch')) \<le> cap"
  proof (cases "ch_flavor ch'")
    case (Bounded_flavor c)
    with chan_ok_bounded(5) [OF r(1)] r(2) show ?thesis by (simp add: chan_abs_def)
  qed (use r(2) in \<open>simp add: chan_abs_def\<close>)
  ultimately show ?thesis by simp
qed

end

section \<open>A reference environment\<close>

definition list_env :: "ptr list chan_env" where
  "list_env = \<lparr>ce_queue_api = list_queue_api,
     ce_alloc = (\<lambda>used. List.find (\<lambda>p. \<not> used p) [1024, 1040, 1056]),
     ce_slots = (\<lambda>n. if n \<le> 3 then Some (take n [16, 32, 48]) else None),
     ce_chan_addr = 4096, ce_free_addr = 8192\<rparr>"

lemma find_fresh:
  "List.find (\<lambda>p. \<not> used p) xs = Some p \<Longrightarrow> p \<in> set xs \<and> \<not> used p"
  by (induction xs) (auto split: if_splits)

interpretation list_chan: channel_env list_env "\<lambda>q. q"
proof (rule channel_env.intro)
  fix used p n ps
  show "zephyr_queue (ce_queue_api list_env) (\<lambda>q. q)"
    using list_queue.zephyr_queue_axioms by (simp add: list_env_def)
  show "ce_chan_addr list_env \<noteq> 0" "ce_free_addr list_env \<noteq> 0" by (simp_all add: list_env_def)
  show "ce_alloc list_env used = Some p \<Longrightarrow> p \<noteq> 0 \<and> \<not> used p"
    using find_fresh [of used "[1024, 1040, 1056]" p] by (auto simp: list_env_def)
  show "ce_slots list_env n = Some ps \<Longrightarrow> length ps = n \<and> distinct ps \<and> 0 \<notin> set ps"
    using distinct_take [of "[16, 32, 48 :: ptr]" n] set_take_subset [of n "[16, 32, 48 :: ptr]"]
    by (auto simp: list_env_def split: if_splits)
qed

section \<open>Properties\<close>

text \<open>
  C3. Sending and receiving, on both flavors, do exactly what the list specification says, and leave
  a well-formed channel: a full bounded channel gives the message back once the timeout has passed, or
  blocks on \<open>Forever\<close>; an empty channel gives \<open>RecvError\<close> or blocks; otherwise messages are appended
  and taken in order. No call reads memory that holds no message. For an unbounded channel the
  allocation of the message has to succeed.
\<close>

theorem channel_refines_spec:
  assumes "channel_env E contents" and "chan_ok E contents ch"
    and "cs_cap (chan_abs contents ch) = None \<Longrightarrow> ce_alloc E (\<lambda>p. ch_heap ch p \<noteq> None) \<noteq> None"
  shows "refines E contents (Sender_send_timeout E ch m t) (spec_send (chan_abs contents ch) m t) \<and>
    refines E contents (Receiver_recv_timeout E ch t) (spec_recv (chan_abs contents ch) t)"
  using channel_env.send_refines [OF assms] channel_env.recv_refines [OF assms(1,2)] by blast

definition demo_chan :: "(ptr list, nat) channel" where
  "demo_chan = \<lparr>ch_flavor = Bounded_flavor (Counter_new
       \<lparr>bd_slots = [16, 32], bd_free = \<lparr>zo_state = 8192, zo_object = []\<rparr>,
        bd_chan = \<lparr>zo_state = 4096, zo_object = [32, 16]\<rparr>\<rparr>),
     ch_heap = [16 \<mapsto> Some (Message_new 7), 32 \<mapsto> Some (Message_new 5)]\<rparr>"

theorem channel_refines_spec_witness:
  "refines list_env (\<lambda>q. q) (Sender_send_timeout list_env demo_chan 9 K_NO_WAIT)
     (Ret (Err (SendError 9), \<lparr>cs_cap = Some 2, cs_msgs = [5, 7]\<rparr>)) \<and>
   refines list_env (\<lambda>q. q) (Receiver_recv_timeout list_env demo_chan K_NO_WAIT)
     (Ret (Ok 5, \<lparr>cs_cap = Some 2, cs_msgs = [7]\<rparr>))"
proof -
  have ok: "chan_ok list_env (\<lambda>q. q) demo_chan"
    by (auto simp: chan_ok_def demo_chan_def Counter_new_def Queue_items_def zo_placed_def list_env_def
        heap_init_def)
  have abs: "chan_abs (\<lambda>q. q) demo_chan = \<lparr>cs_cap = Some 2, cs_msgs = [5, 7]\<rparr>"
    by (simp add: chan_abs_def demo_chan_def Counter_new_def Queue_items_def heap_data_def Message_new_def)
  have "K_NO_WAIT \<noteq> K_FOREVER" by (simp add: K_NO_WAIT_def K_FOREVER_def)
  then show ?thesis
    using channel_refines_spec [OF list_chan.channel_env_axioms ok, of 9 K_NO_WAIT]
    by (simp add: abs spec_send_def spec_recv_def spec_full_def)
qed

text \<open>
  A channel made by \<open>bounded(cap)\<close>, over any sequence of calls of its senders and receivers:
  what was received is, in order, the beginning of what was accepted, the rest is still in the
  channel, and at most \<open>cap\<close> messages are waiting.
\<close>

theorem bounded_channel_in_order:
  assumes "channel_env E contents" and "ce_slots E cap = Some ps" and "cap \<noteq> 0"
  shows "\<exists>ch. bounded E cap h = Ret ch \<and>
    (\<forall>ops sent received ch'.
       chan_run (Sender_send_timeout E) (Receiver_recv_timeout E) ch ops = (sent, received, ch') \<longrightarrow>
       sent = received @ cs_msgs (chan_abs contents ch') \<and> length sent \<le> length received + cap)"
proof -
  obtain ch where ch: "bounded E cap h = Ret ch"
    using channel_env.bounded_created [OF assms] by blast
  then show ?thesis using channel_env.bounded_run [OF assms ch] by blast
qed

theorem bounded_channel_in_order_witness:
  "\<exists>ch. bounded list_env 2 Map.empty = Ret ch \<and>
     (\<exists>sent received ch'. chan_run (Sender_send_timeout list_env) (Receiver_recv_timeout list_env) ch
        [Op_send (3::nat) K_NO_WAIT, Op_recv K_FOREVER, Op_send 4 K_FOREVER] = (sent, received, ch') \<and>
      sent = received @ cs_msgs (chan_abs (\<lambda>q. q) ch') \<and> length sent \<le> length received + 2)"
proof -
  have "ce_slots list_env 2 = Some [16, 32]" by (simp add: list_env_def)
  then show ?thesis
    using bounded_channel_in_order [OF list_chan.channel_env_axioms, of 2 "[16, 32]"
        "Map.empty :: nat msg_heap"]
    by (metis prod_cases3 zero_neq_numeral)
qed

end
