(* ===== verification/Channel_Concurrent.thy ===== *)
theory Channel_Concurrent
  imports Channel
begin

text \<open>
  The bounded channel of \<open>zephyr/src/sync/channel.rs\<close> used by any number of threads at once. Between
  the three parts of a \<open>send\<close> or a \<open>recv\<close> a thread holds a buffer that is in neither queue, and every
  other thread may run. The comment on \<open>Bounded\<close> claims that each slot lives in one of the two queues
  outside of the calls of the module; the invariant here is the concurrent form of that claim.
\<close>

section \<open>Threads\<close>

text \<open>
  Where a thread is in a call, the buffer it holds, and the message that goes with it. In \<open>RecvTaken\<close>
  the message is what the buffer held when the queue gave it to the thread.
\<close>

datatype 'a chan_pc =
  Idle
| SendTaken ptr 'a
| SendWritten ptr 'a
| RecvTaken ptr 'a
| RecvRead ptr 'a

fun held :: "'a chan_pc \<Rightarrow> ptr option" where
  "held Idle = None"
| "held (SendTaken p m) = Some p"
| "held (SendWritten p m) = Some p"
| "held (RecvTaken p m) = Some p"
| "held (RecvRead p m) = Some p"

text \<open>\<open>bc_sent\<close> and \<open>bc_taken\<close> record the messages in the order in which they entered and left the queue.\<close>

record ('q, 'a) bchan =
  bc_bounded :: "'q Bounded"
  bc_heap :: "'a msg_heap"
  bc_pc :: "nat \<Rightarrow> 'a chan_pc"
  bc_sent :: "'a list"
  bc_taken :: "'a list"

inductive bchan_step :: "'q chan_env \<Rightarrow> ('q, 'a) bchan \<Rightarrow> ('q, 'a) bchan \<Rightarrow> bool" for E where
  take_buffer:
    "bc_pc s t = Idle \<Longrightarrow> send_take E (bc_bounded s) timeout = Ret (buf, b) \<Longrightarrow> buf \<noteq> 0 \<Longrightarrow>
     bchan_step E s (s\<lparr>bc_bounded := b, bc_pc := (bc_pc s)(t := SendTaken buf m)\<rparr>)"
| send_fails:
    "bc_pc s t = Idle \<Longrightarrow> send_take E (bc_bounded s) timeout = Ret (buf, b) \<Longrightarrow> buf = 0 \<Longrightarrow>
     bchan_step E s (s\<lparr>bc_bounded := b\<rparr>)"
| write_buffer:
    "bc_pc s t = SendTaken buf m \<Longrightarrow> ptr_write buf (Message_new m) (bc_heap s) = Ret h \<Longrightarrow>
     bchan_step E s (s\<lparr>bc_heap := h, bc_pc := (bc_pc s)(t := SendWritten buf m)\<rparr>)"
| put_message:
    "bc_pc s t = SendWritten buf m \<Longrightarrow> send_put E (bc_bounded s) buf = Ret b \<Longrightarrow>
     bchan_step E s (s\<lparr>bc_bounded := b, bc_pc := (bc_pc s)(t := Idle), bc_sent := bc_sent s @ [m]\<rparr>)"
| take_message:
    "bc_pc s t = Idle \<Longrightarrow> recv_take E (bc_bounded s) timeout = Ret (buf, b) \<Longrightarrow> buf \<noteq> 0 \<Longrightarrow>
     m = heap_data (bc_heap s) buf \<Longrightarrow>
     bchan_step E s (s\<lparr>bc_bounded := b, bc_pc := (bc_pc s)(t := RecvTaken buf m),
       bc_taken := bc_taken s @ [m]\<rparr>)"
| recv_fails:
    "bc_pc s t = Idle \<Longrightarrow> recv_take E (bc_bounded s) timeout = Ret (buf, b) \<Longrightarrow> buf = 0 \<Longrightarrow>
     bchan_step E s (s\<lparr>bc_bounded := b\<rparr>)"
| read_buffer:
    "bc_pc s t = RecvTaken buf m \<Longrightarrow> ptr_read buf (bc_heap s) = Ret msg \<Longrightarrow>
     bchan_step E s (s\<lparr>bc_pc := (bc_pc s)(t := RecvRead buf (msg_data msg))\<rparr>)"
| put_buffer:
    "bc_pc s t = RecvRead buf m \<Longrightarrow> recv_put E (bc_bounded s) buf = Ret b \<Longrightarrow>
     bchan_step E s (s\<lparr>bc_bounded := b, bc_pc := (bc_pc s)(t := Idle)\<rparr>)"

inductive bchan_reach :: "'q chan_env \<Rightarrow> nat \<Rightarrow> ('q, 'a) bchan \<Rightarrow> bool" for E cap where
  bchan_init: "Bounded_new E cap = Ret b \<Longrightarrow>
     bchan_reach E cap \<lparr>bc_bounded = b, bc_heap = alloc_slots (bd_slots b) h, bc_pc = (\<lambda>_. Idle),
       bc_sent = [], bc_taken = []\<rparr>"
| bchan_more: "bchan_reach E cap s \<Longrightarrow> bchan_step E s s' \<Longrightarrow> bchan_reach E cap s'"

section \<open>The invariant\<close>

definition bc_free_items :: "('q \<Rightarrow> ptr list) \<Rightarrow> ('q, 'a) bchan \<Rightarrow> ptr list" where
  "bc_free_items contents s = Queue_items contents (bd_free (bc_bounded s))"

definition bc_chan_items :: "('q \<Rightarrow> ptr list) \<Rightarrow> ('q, 'a) bchan \<Rightarrow> ptr list" where
  "bc_chan_items contents s = Queue_items contents (bd_chan (bc_bounded s))"

text \<open>Every slot is in exactly one place: a queue, or the hands of one thread.\<close>

definition slots_shared :: "ptr list \<Rightarrow> ptr list \<Rightarrow> ptr list \<Rightarrow> (nat \<rightharpoonup> ptr) \<Rightarrow> bool" where
  "slots_shared slots fs ps g \<longleftrightarrow>
     distinct (fs @ ps) \<and> 0 \<notin> set slots \<and> exclusive g \<and>
     set (fs @ ps) \<inter> ran g = {} \<and> set (fs @ ps) \<union> ran g = set slots"

definition holders :: "('q, 'a) bchan \<Rightarrow> nat \<rightharpoonup> ptr" where
  "holders s = held \<circ> bc_pc s"

fun pc_message :: "'a chan_pc \<Rightarrow> (ptr \<times> 'a) option" where
  "pc_message (SendWritten p m) = Some (p, m)"
| "pc_message (RecvTaken p m) = Some (p, m)"
| "pc_message _ = None"

definition bchan_inv :: "'q chan_env \<Rightarrow> ('q \<Rightarrow> ptr list) \<Rightarrow> ('q, 'a) bchan \<Rightarrow> bool" where
  "bchan_inv E contents s \<longleftrightarrow>
     zo_placed (ce_free_addr E) (bd_free (bc_bounded s)) \<and>
     zo_placed (ce_chan_addr E) (bd_chan (bc_bounded s)) \<and>
     slots_shared (bd_slots (bc_bounded s)) (bc_free_items contents s) (bc_chan_items contents s) (holders s) \<and>
     (\<forall>p \<in> set (bd_slots (bc_bounded s)). bc_heap s p \<noteq> None) \<and>
     list_all (heap_init (bc_heap s)) (bc_chan_items contents s) \<and>
     (\<forall>t p m. pc_message (bc_pc s t) = Some (p, m) \<longrightarrow> heap_init (bc_heap s) p \<and> heap_data (bc_heap s) p = m) \<and>
     bc_sent s = bc_taken s @ map (heap_data (bc_heap s)) (bc_chan_items contents s)"

section \<open>Lemmas\<close>

lemma pc_message_held: "pc_message c = Some (p, m) \<Longrightarrow> held c = Some p"
  by (cases c) auto

lemma shared_take_free:
  "slots_shared slots (p # fs) ps g \<Longrightarrow> g t = None \<Longrightarrow> slots_shared slots fs ps (g(t \<mapsto> p))"
  by (auto simp: slots_shared_def intro: exclusive_acquire)

lemma shared_take_chan:
  "slots_shared slots fs (p # ps) g \<Longrightarrow> g t = None \<Longrightarrow> slots_shared slots fs ps (g(t \<mapsto> p))"
  by (auto simp: slots_shared_def intro: exclusive_acquire)

lemma shared_put_chan:
  "slots_shared slots fs ps g \<Longrightarrow> g t = Some p \<Longrightarrow> slots_shared slots fs (ps @ [p]) (g(t := None))"
  using ran_mem [of g t p] ran_release [of g t p] exclusive_release [of g t]
  by (auto simp: slots_shared_def)

lemma shared_put_free:
  "slots_shared slots fs ps g \<Longrightarrow> g t = Some p \<Longrightarrow> slots_shared slots (fs @ [p]) ps (g(t := None))"
  using ran_mem [of g t p] ran_release [of g t p] exclusive_release [of g t]
  by (auto simp: slots_shared_def)

lemma shared_held:
  assumes "slots_shared slots fs ps g" and "g t = Some p"
  shows "p \<noteq> 0" "p \<in> set slots" "p \<notin> set fs" "p \<notin> set ps" "g u = Some p \<Longrightarrow> t = u"
  using assms ran_mem [of g t p] by (auto simp: slots_shared_def dest: exclusiveD)

lemma held_upd [simp]: "held \<circ> f(t := c) = (held \<circ> f)(t := held c)"
  by (auto simp: fun_eq_iff)

lemma held_same: "held (f t) = x \<Longrightarrow> (held \<circ> f)(t := x) = held \<circ> f"
  by (auto simp: fun_eq_iff)

text \<open>Writing a buffer that is held by one thread does not change what the others see.\<close>

lemma heap_data_other [simp]: "p \<noteq> q \<Longrightarrow> heap_data (h(q := v)) p = heap_data h p"
  by (simp add: heap_data_def)

lemma heap_init_other [simp]: "p \<noteq> q \<Longrightarrow> heap_init (h(q := v)) p = heap_init h p"
  by (simp add: heap_init_def)

context channel_env
begin

lemma send_take_Ret:
  assumes "zo_placed (ce_free_addr E) (bd_free b)" and "send_take E b t = Ret (buf, b')"
  shows "\<exists>f'. b' = b\<lparr>bd_free := f'\<rparr> \<and> zo_placed (ce_free_addr E) f' \<and>
    (case Queue_items contents (bd_free b) of [] \<Rightarrow> buf = 0 \<and> Queue_items contents f' = []
     | x # xs \<Rightarrow> buf = x \<and> Queue_items contents f' = xs)"
  using assms freeq.queue.recv_Ret [OF assms(1)] by (auto simp: send_take_def outcome_simps)

lemma recv_take_Ret:
  assumes "zo_placed (ce_chan_addr E) (bd_chan b)" and "recv_take E b t = Ret (buf, b')"
  shows "\<exists>f'. b' = b\<lparr>bd_chan := f'\<rparr> \<and> zo_placed (ce_chan_addr E) f' \<and>
    (case Queue_items contents (bd_chan b) of [] \<Rightarrow> buf = 0 \<and> Queue_items contents f' = []
     | x # xs \<Rightarrow> buf = x \<and> Queue_items contents f' = xs)"
  using assms chanq.queue.recv_Ret [OF assms(1)] by (auto simp: recv_take_def outcome_simps)

lemma send_put_Ret:
  assumes "zo_placed (ce_chan_addr E) (bd_chan b)" and "send_put E b buf = Ret b'"
  shows "\<exists>f'. b' = b\<lparr>bd_chan := f'\<rparr> \<and> zo_placed (ce_chan_addr E) f' \<and>
    Queue_items contents f' = Queue_items contents (bd_chan b) @ [buf]"
  using assms chanq.queue.send_Ret [OF assms(1)] by (auto simp: send_put_def outcome_simps)

lemma recv_put_Ret:
  assumes "zo_placed (ce_free_addr E) (bd_free b)" and "recv_put E b buf = Ret b'"
  shows "\<exists>f'. b' = b\<lparr>bd_free := f'\<rparr> \<and> zo_placed (ce_free_addr E) f' \<and>
    Queue_items contents f' = Queue_items contents (bd_free b) @ [buf]"
  using assms freeq.queue.send_Ret [OF assms(1)] by (auto simp: recv_put_def outcome_simps)

lemma bchan_inv_message:
  "bchan_inv E contents s \<Longrightarrow> pc_message (bc_pc s t) = Some (p, m) \<Longrightarrow>
   heap_init (bc_heap s) p \<and> heap_data (bc_heap s) p = m"
  unfolding bchan_inv_def by blast

lemmas item_defs = bc_free_items_def bc_chan_items_def

lemma inv_take_buffer:
  assumes inv: "bchan_inv E contents s" and idle: "bc_pc s t = Idle"
    and tk: "send_take E (bc_bounded s) timeout = Ret (buf, b)" and "buf \<noteq> 0"
  shows "bchan_inv E contents (s\<lparr>bc_bounded := b, bc_pc := (bc_pc s)(t := SendTaken buf m)\<rparr>)"
proof -
  obtain f' fs where b: "b = (bc_bounded s)\<lparr>bd_free := f'\<rparr>" "zo_placed (ce_free_addr E) f'"
    "bc_free_items contents s = buf # fs" "Queue_items contents f' = fs"
    using send_take_Ret [OF _ tk] inv \<open>buf \<noteq> 0\<close>
    by (cases "bc_free_items contents s") (auto simp: bchan_inv_def item_defs)
  then have "slots_shared (bd_slots (bc_bounded s)) fs (bc_chan_items contents s) ((holders s)(t \<mapsto> buf))"
    using inv idle by (intro shared_take_free) (simp_all add: bchan_inv_def holders_def)
  with inv b show ?thesis by (simp add: bchan_inv_def item_defs holders_def)
qed

lemma inv_write_buffer:
  assumes inv: "bchan_inv E contents s" and pc: "bc_pc s t = SendTaken buf m"
    and w: "ptr_write buf (Message_new m) (bc_heap s) = Ret h"
  shows "bchan_inv E contents (s\<lparr>bc_heap := h, bc_pc := (bc_pc s)(t := SendWritten buf m)\<rparr>)"
proof -
  have h: "h = (bc_heap s)(buf \<mapsto> Some (Message_new m))"
    using w by (auto simp: ptr_write_def split: option.splits)
  have g: "holders s t = Some buf" using pc by (simp add: holders_def)
  have "slots_shared (bd_slots (bc_bounded s)) (bc_free_items contents s) (bc_chan_items contents s) (holders s)"
    using inv by (simp add: bchan_inv_def)
  note sh = shared_held [where g = "holders s", OF this g]
  have q: "buf \<notin> set (bc_chan_items contents s)" by (rule sh)
  have others: "pc_message (bc_pc s u) = Some (p, m') \<Longrightarrow> u \<noteq> t \<Longrightarrow> p \<noteq> buf" for u p m'
    using sh(5) [of u] pc_message_held [of "bc_pc s u"] by (auto simp: holders_def)
  have "(holders s)(t \<mapsto> buf) = holders s" using g by auto
  with inv h q others show ?thesis
    by (auto simp: bchan_inv_def item_defs holders_def Message_new_def)
qed

lemma inv_put_message:
  assumes inv: "bchan_inv E contents s" and pc: "bc_pc s t = SendWritten buf m"
    and p: "send_put E (bc_bounded s) buf = Ret b"
  shows "bchan_inv E contents
    (s\<lparr>bc_bounded := b, bc_pc := (bc_pc s)(t := Idle), bc_sent := bc_sent s @ [m]\<rparr>)"
proof -
  obtain f' where b: "b = (bc_bounded s)\<lparr>bd_chan := f'\<rparr>" "zo_placed (ce_chan_addr E) f'"
    "Queue_items contents f' = bc_chan_items contents s @ [buf]"
    using send_put_Ret [OF _ p] inv by (auto simp: bchan_inv_def item_defs)
  have "slots_shared (bd_slots (bc_bounded s)) (bc_free_items contents s)
      (bc_chan_items contents s @ [buf]) ((holders s)(t := None))"
    using inv pc by (intro shared_put_chan) (simp_all add: bchan_inv_def holders_def)
  moreover have "heap_init (bc_heap s) buf \<and> heap_data (bc_heap s) buf = m"
    using bchan_inv_message [OF inv, of t buf m] pc by simp
  ultimately show ?thesis using inv b by (simp add: bchan_inv_def item_defs holders_def)
qed

lemma inv_take_message:
  assumes inv: "bchan_inv E contents s" and idle: "bc_pc s t = Idle"
    and tk: "recv_take E (bc_bounded s) timeout = Ret (buf, b)" and "buf \<noteq> 0"
    and m: "m = heap_data (bc_heap s) buf"
  shows "bchan_inv E contents
    (s\<lparr>bc_bounded := b, bc_pc := (bc_pc s)(t := RecvTaken buf m), bc_taken := bc_taken s @ [m]\<rparr>)"
proof -
  obtain f' ps where b: "b = (bc_bounded s)\<lparr>bd_chan := f'\<rparr>" "zo_placed (ce_chan_addr E) f'"
    "bc_chan_items contents s = buf # ps" "Queue_items contents f' = ps"
    using recv_take_Ret [OF _ tk] inv \<open>buf \<noteq> 0\<close>
    by (cases "bc_chan_items contents s") (auto simp: bchan_inv_def item_defs)
  then have "slots_shared (bd_slots (bc_bounded s)) (bc_free_items contents s) ps ((holders s)(t \<mapsto> buf))"
    using inv idle by (intro shared_take_chan) (simp_all add: bchan_inv_def holders_def)
  with inv b m show ?thesis by (simp add: bchan_inv_def item_defs holders_def)
qed

lemma inv_read_buffer:
  assumes inv: "bchan_inv E contents s" and pc: "bc_pc s t = RecvTaken buf m"
  shows "bchan_inv E contents (s\<lparr>bc_pc := (bc_pc s)(t := RecvRead buf m')\<rparr>)"
proof -
  have "(holders s)(t \<mapsto> buf) = holders s" using pc by (auto simp: holders_def)
  with inv show ?thesis by (simp add: bchan_inv_def item_defs holders_def)
qed

lemma inv_put_buffer:
  assumes inv: "bchan_inv E contents s" and pc: "bc_pc s t = RecvRead buf m"
    and p: "recv_put E (bc_bounded s) buf = Ret b"
  shows "bchan_inv E contents (s\<lparr>bc_bounded := b, bc_pc := (bc_pc s)(t := Idle)\<rparr>)"
proof -
  obtain f' where b: "b = (bc_bounded s)\<lparr>bd_free := f'\<rparr>" "zo_placed (ce_free_addr E) f'"
    "Queue_items contents f' = bc_free_items contents s @ [buf]"
    using recv_put_Ret [OF _ p] inv by (auto simp: bchan_inv_def item_defs)
  have "slots_shared (bd_slots (bc_bounded s)) (bc_free_items contents s @ [buf])
      (bc_chan_items contents s) ((holders s)(t := None))"
    using inv pc by (intro shared_put_free) (simp_all add: bchan_inv_def holders_def)
  then show ?thesis using inv b by (simp add: bchan_inv_def item_defs holders_def)
qed

lemma inv_send_fails:
  assumes inv: "bchan_inv E contents s" and tk: "send_take E (bc_bounded s) timeout = Ret (0, b)"
  shows "bchan_inv E contents (s\<lparr>bc_bounded := b\<rparr>)"
proof -
  have "0 \<notin> set (bc_free_items contents s)" using inv by (auto simp: bchan_inv_def slots_shared_def)
  then obtain f' where "b = (bc_bounded s)\<lparr>bd_free := f'\<rparr>" "zo_placed (ce_free_addr E) f'"
    "Queue_items contents f' = bc_free_items contents s"
    using send_take_Ret [OF _ tk] inv
    by (cases "bc_free_items contents s") (auto simp: bchan_inv_def item_defs)
  then show ?thesis using inv by (simp add: bchan_inv_def item_defs holders_def)
qed

lemma inv_recv_fails:
  assumes inv: "bchan_inv E contents s" and tk: "recv_take E (bc_bounded s) timeout = Ret (0, b)"
  shows "bchan_inv E contents (s\<lparr>bc_bounded := b\<rparr>)"
proof -
  have "0 \<notin> set (bc_chan_items contents s)" using inv by (auto simp: bchan_inv_def slots_shared_def)
  then obtain f' where "b = (bc_bounded s)\<lparr>bd_chan := f'\<rparr>" "zo_placed (ce_chan_addr E) f'"
    "Queue_items contents f' = bc_chan_items contents s"
    using recv_take_Ret [OF _ tk] inv
    by (cases "bc_chan_items contents s") (auto simp: bchan_inv_def item_defs)
  then show ?thesis using inv by (simp add: bchan_inv_def item_defs holders_def)
qed

lemma bchan_inv_step: "bchan_step E s s' \<Longrightarrow> bchan_inv E contents s \<Longrightarrow> bchan_inv E contents s'"
  by (induction rule: bchan_step.induct)
    (auto intro: inv_take_buffer inv_write_buffer inv_put_message inv_take_message inv_read_buffer
      inv_put_buffer inv_send_fails inv_recv_fails)

lemma bchan_reach_inv: "bchan_reach E cap s \<Longrightarrow> bchan_inv E contents s \<and> length (bd_slots (bc_bounded s)) = cap"
proof (induction rule: bchan_reach.induct)
  case (bchan_init b h)
  then obtain ps q where "ce_slots E cap = Some ps" "Bounded_fill E (Queue_new (ce_queue_api E)) ps = Ret q"
    "b = \<lparr>bd_slots = ps, bd_free = q, bd_chan = Queue_new (ce_queue_api E)\<rparr>"
    by (auto simp: Bounded_new_def outcome_simps)
  with slots_fresh [of cap ps] Bounded_fill_items [OF freeq.queue.new_ok(1), of ps] freeq.queue.new_ok
    chanq.queue.new_ok
  show ?case
    by (auto simp: bchan_inv_def item_defs slots_shared_def holders_def alloc_slots_def comp_def)
next
  case (bchan_more s s')
  moreover from this have "bd_slots (bc_bounded s') = bd_slots (bc_bounded s)"
    by (auto elim!: bchan_step.cases simp: send_take_def recv_take_def send_put_def recv_put_def outcome_simps)
  ultimately show ?case using bchan_inv_step by metis
qed

lemma reach_shared:
  assumes "bchan_reach E cap s"
  shows "slots_shared (bd_slots (bc_bounded s)) (bc_free_items contents s) (bc_chan_items contents s) (holders s)"
  using bchan_reach_inv [OF assms] by (simp add: bchan_inv_def)

lemma held_by_one:
  assumes "bchan_reach E cap s" and "held (bc_pc s t) = Some p"
  shows "p \<notin> set (bc_free_items contents s) \<and> p \<notin> set (bc_chan_items contents s) \<and>
    (\<forall>u. held (bc_pc s u) = Some p \<longrightarrow> u = t)"
  using shared_held [OF reach_shared [OF assms(1)], of t p] assms(2) by (auto simp: holders_def)

lemma write_defined:
  assumes "bchan_reach E cap s" and "bc_pc s t = SendTaken p m"
  shows "ptr_write p (Message_new m) (bc_heap s) = Ret ((bc_heap s)(p \<mapsto> Some (Message_new m)))"
proof -
  have "p \<in> set (bd_slots (bc_bounded s))"
    using shared_held(2) [OF reach_shared [OF assms(1)], of t p] assms(2) by (simp add: holders_def)
  then show ?thesis using bchan_reach_inv [OF assms(1)] by (auto simp: bchan_inv_def ptr_write_def)
qed

lemma read_defined:
  assumes "bchan_reach E cap s" and "bc_pc s t = RecvTaken p m"
  shows "\<exists>msg. ptr_read p (bc_heap s) = Ret msg \<and> msg_data msg = m"
proof -
  have "heap_init (bc_heap s) p" "heap_data (bc_heap s) p = m"
    using bchan_inv_message [of s t p m] bchan_reach_inv [OF assms(1)] assms(2) by simp_all
  then show ?thesis by (auto simp: ptr_read_def heap_data_def elim!: heap_initE)
qed

lemma reach_conserved:
  assumes "bchan_reach E cap s"
  shows "card (set (bc_free_items contents s) \<union> set (bc_chan_items contents s) \<union> ran (holders s)) \<le> cap"
  using reach_shared [OF assms] bchan_reach_inv [OF assms] card_length [of "bd_slots (bc_bounded s)"]
  by (simp add: slots_shared_def)

end

section \<open>Properties\<close>

text \<open>
  C1. A bounded channel used by any number of threads, in every reachable state: a buffer that a
  thread holds is in neither queue and is held by no other thread; writing it is defined, and reading
  it gives the message that the channel handed out; and the messages that entered the channel are, in
  order, those that left it followed by those still in it, so no message is lost, duplicated or
  overtaken.
\<close>

theorem bounded_channel_threads:
  assumes "channel_env E contents" and "bchan_reach E cap s"
  shows "(\<forall>t p. held (bc_pc s t) = Some p \<longrightarrow>
      p \<notin> set (bc_free_items contents s) \<and> p \<notin> set (bc_chan_items contents s) \<and>
      (\<forall>u. held (bc_pc s u) = Some p \<longrightarrow> u = t)) \<and>
    (\<forall>t p m. bc_pc s t = SendTaken p m \<longrightarrow>
      ptr_write p (Message_new m) (bc_heap s) = Ret ((bc_heap s)(p \<mapsto> Some (Message_new m)))) \<and>
    (\<forall>t p m. bc_pc s t = RecvTaken p m \<longrightarrow>
      (\<exists>msg. ptr_read p (bc_heap s) = Ret msg \<and> msg_data msg = m)) \<and>
    bc_sent s = bc_taken s @ map (heap_data (bc_heap s)) (bc_chan_items contents s)"
proof (intro conjI allI impI)
  show "bc_sent s = bc_taken s @ map (heap_data (bc_heap s)) (bc_chan_items contents s)"
    using channel_env.bchan_reach_inv [OF assms] by (simp add: bchan_inv_def)
qed (use channel_env.held_by_one [OF assms] channel_env.write_defined [OF assms]
       channel_env.read_defined [OF assms] in blast)+

definition demo_slots :: "ptr list Bounded" where
  "demo_slots = \<lparr>bd_slots = [16, 32], bd_free = \<lparr>zo_state = 8192, zo_object = [16, 32]\<rparr>,
     bd_chan = \<lparr>zo_state = 0, zo_object = []\<rparr>\<rparr>"

definition demo_bchan :: "(ptr list, nat) bchan" where
  "demo_bchan = \<lparr>bc_bounded = demo_slots\<lparr>bd_free := \<lparr>zo_state = 8192, zo_object = []\<rparr>\<rparr>,
     bc_heap = alloc_slots [16, 32] Map.empty,
     bc_pc = (\<lambda>_. Idle)(0 := SendTaken 16 5, 1 := SendTaken 32 7), bc_sent = [], bc_taken = []\<rparr>"

lemma demo_bchan_reach: "bchan_reach list_env 2 demo_bchan"
proof -
  let ?s0 = "\<lparr>bc_bounded = demo_slots, bc_heap = alloc_slots [16, 32] Map.empty,
     bc_pc = (\<lambda>_. Idle), bc_sent = [], bc_taken = []\<rparr> :: (ptr list, nat) bchan"
  let ?b1 = "demo_slots\<lparr>bd_free := \<lparr>zo_state = 8192, zo_object = [32]\<rparr>\<rparr>"
  let ?s1 = "?s0\<lparr>bc_bounded := ?b1, bc_pc := (\<lambda>_. Idle)(0 := SendTaken 16 5)\<rparr>"
  note defs = demo_slots_def list_env_def list_queue_api_def Queue_recv_def ZephyrObject_get_again
    send_take_def
  have "Bounded_new list_env 2 = Ret demo_slots"
    by (simp add: Bounded_new_def Queue_send_def Queue_new_def ZephyrObject_new_raw_def
        ZephyrObject_get_first Queue_init_def defs)
  then have r0: "bchan_reach list_env 2 ?s0"
    using bchan_init [of list_env 2 demo_slots Map.empty] by (simp add: demo_slots_def)
  have "bchan_step list_env ?s0 ?s1"
    using take_buffer [of ?s0 0 list_env K_NO_WAIT 16 ?b1 5] by (simp add: defs)
  then have r1: "bchan_reach list_env 2 ?s1" by (rule bchan_more [OF r0])
  have "bchan_step list_env ?s1 demo_bchan"
    using take_buffer [of ?s1 1 list_env K_NO_WAIT 32
        "demo_slots\<lparr>bd_free := \<lparr>zo_state = 8192, zo_object = []\<rparr>\<rparr>" 7]
    by (simp add: defs demo_bchan_def)
  then show ?thesis by (rule bchan_more [OF r1])
qed

theorem bounded_channel_threads_witness:
  "bc_pc demo_bchan 1 = SendTaken 32 7 \<and> held (bc_pc demo_bchan 0) \<noteq> Some 32 \<and>
   32 \<notin> set (bc_free_items (\<lambda>q. q) demo_bchan)"
proof -
  have pc: "bc_pc demo_bchan 1 = SendTaken 32 7" by (simp add: demo_bchan_def)
  then have "held (bc_pc demo_bchan 1) = Some 32" by simp
  with bounded_channel_threads [OF list_chan.channel_env_axioms demo_bchan_reach]
  have "32 \<notin> set (bc_free_items (\<lambda>q. q) demo_bchan)"
    and "held (bc_pc demo_bchan 0) = Some 32 \<Longrightarrow> (0::nat) = 1" by blast+
  with pc show ?thesis by auto
qed

end
