(* ===== verification/Sys_Sync.thy ===== *)
theory Sys_Sync
  imports Error_Time Kernel_Object
begin

text \<open>
  \<open>zephyr/src/sys/sync/mutex.rs\<close> and \<open>zephyr/src/sys/sync/semaphore.rs\<close>: the wrappers of \<open>k_mutex\<close>,
  \<open>k_condvar\<close> and \<open>k_sem\<close>. The kernel's operations are the records \<open>k_mutex_api\<close>, \<open>k_condvar_api\<close> and
  \<open>k_sem_api\<close>; their documented behaviour is stated by the locales \<open>zephyr_mutex\<close> and \<open>zephyr_sem\<close>.
  The locale \<open>mutex\<close> is the contract that \<open>sync::Mutex\<close> relies on, the locale \<open>semaphore\<close> the one
  that users of \<open>Semaphore\<close> rely on.
\<close>

type_synonym tid = nat

section \<open>The kernel's mutex\<close>

text \<open>
  \<open>k_mutex_lock\<close> by thread \<open>t\<close> is described at the point where it takes effect; \<open>Blocked\<close> is a call
  that still waits for the owner.
\<close>

record 'm k_mutex_api =
  km_zeroed :: 'm
  k_mutex_init :: "'m \<Rightarrow> 'm"
  k_mutex_lock :: "'m \<Rightarrow> tid \<Rightarrow> k_timeout_t \<Rightarrow> (c_int \<times> 'm) outcome"
  k_mutex_unlock :: "'m \<Rightarrow> tid \<Rightarrow> c_int \<times> 'm"

text \<open>
  A kernel mutex has an owner with a lock count, a free one has none. Relocking by the owner is
  permitted while the count fits 32 bits; only the owner may unlock.
\<close>

locale zephyr_mutex =
  fixes K :: "'m k_mutex_api"
    and owner :: "'m \<Rightarrow> (tid \<times> nat) option"
  assumes owner_init: "owner (k_mutex_init K m) = None"
    and lock_free: "owner m = None \<Longrightarrow> \<exists>m'. k_mutex_lock K m t to = Ret (0, m') \<and> owner m' = Some (t, 1)"
    and lock_again: "owner m = Some (t, n) \<Longrightarrow> n < 2 ^ 32 - 1 \<Longrightarrow>
      \<exists>m'. k_mutex_lock K m t to = Ret (0, m') \<and> owner m' = Some (t, n + 1)"
    and lock_busy: "owner m = Some (u, n) \<Longrightarrow> u \<noteq> t \<Longrightarrow> to \<noteq> K_FOREVER \<Longrightarrow>
      \<exists>e m'. k_mutex_lock K m t to = Ret (e, m') \<and> sint e < 0 \<and> owner m' = Some (u, n)"
    and lock_waits: "owner m = Some (u, n) \<Longrightarrow> u \<noteq> t \<Longrightarrow> k_mutex_lock K m t K_FOREVER = Blocked"
    and unlock_last: "owner m = Some (t, 1) \<Longrightarrow> \<exists>m'. k_mutex_unlock K m t = (0, m') \<and> owner m' = None"
    and unlock_inner: "owner m = Some (t, n + 2) \<Longrightarrow>
      \<exists>m'. k_mutex_unlock K m t = (0, m') \<and> owner m' = Some (t, n + 1)"
    and unlock_other: "\<nexists>n. owner m = Some (t, n) \<Longrightarrow>
      \<exists>e m'. k_mutex_unlock K m t = (e, m') \<and> sint e < 0 \<and> owner m' = owner m"

section \<open>\<open>sys::Mutex\<close>\<close>

type_synonym 'm Sys_Mutex = "'m ZephyrObject"

definition Sys_Mutex_new :: "'m k_mutex_api \<Rightarrow> 'm Sys_Mutex" where
  "Sys_Mutex_new K = ZephyrObject_new_raw (km_zeroed K)"

definition Sys_Mutex_init :: "'m k_mutex_api \<Rightarrow> 'm \<Rightarrow> 'm outcome" where
  "Sys_Mutex_init K m = Ret (k_mutex_init K m)"

definition Sys_Mutex_lock ::
    "'m k_mutex_api \<Rightarrow> ptr \<Rightarrow> tid \<Rightarrow> 'm Sys_Mutex \<Rightarrow> k_timeout_t \<Rightarrow>
     ((unit, Error) result \<times> 'm Sys_Mutex) outcome" where
  "Sys_Mutex_lock K addr t self timeout =
     bind_outcome (ZephyrObject_get (Sys_Mutex_init K) addr self) (\<lambda>(_, self).
     bind_outcome (k_mutex_lock K (zo_object self) t timeout) (\<lambda>(ret, m).
       Ret (to_result_void ret, self\<lparr>zo_object := m\<rparr>)))"

definition Sys_Mutex_unlock ::
    "'m k_mutex_api \<Rightarrow> ptr \<Rightarrow> tid \<Rightarrow> 'm Sys_Mutex \<Rightarrow> ((unit, Error) result \<times> 'm Sys_Mutex) outcome" where
  "Sys_Mutex_unlock K addr t self =
     bind_outcome (ZephyrObject_get (Sys_Mutex_init K) addr self) (\<lambda>(_, self).
       let (ret, m) = k_mutex_unlock K (zo_object self) t
       in Ret (to_result_void ret, self\<lparr>zo_object := m\<rparr>))"

definition Sys_Mutex_owner :: "('m \<Rightarrow> (tid \<times> nat) option) \<Rightarrow> 'm Sys_Mutex \<Rightarrow> (tid \<times> nat) option" where
  "Sys_Mutex_owner owner self = (if zo_state self = 0 then None else owner (zo_object self))"

section \<open>\<open>sys::Condvar\<close>\<close>

text \<open>
  \<open>k_condvar_wait\<close> releases the mutex, waits for a notification and locks the mutex again; \<open>Blocked\<close>
  is a call that still waits.
\<close>

record ('c, 'm) k_condvar_api =
  kc_zeroed :: 'c
  k_condvar_init :: "'c \<Rightarrow> 'c"
  k_condvar_wait :: "'c \<Rightarrow> 'm \<Rightarrow> tid \<Rightarrow> k_timeout_t \<Rightarrow> (c_int \<times> 'c \<times> 'm) outcome"
  k_condvar_signal :: "'c \<Rightarrow> c_int \<times> 'c"
  k_condvar_broadcast :: "'c \<Rightarrow> c_int \<times> 'c"

type_synonym 'c Sys_Condvar = "'c ZephyrObject"

definition Sys_Condvar_new :: "('c, 'm) k_condvar_api \<Rightarrow> 'c Sys_Condvar" where
  "Sys_Condvar_new C = ZephyrObject_new_raw (kc_zeroed C)"

definition Sys_Condvar_init :: "('c, 'm) k_condvar_api \<Rightarrow> 'c \<Rightarrow> 'c outcome" where
  "Sys_Condvar_init C c = Ret (k_condvar_init C c)"

text \<open>The result of \<open>k_condvar_wait\<close> is ignored.\<close>

definition Sys_Condvar_wait ::
    "('c, 'm) k_condvar_api \<Rightarrow> 'm k_mutex_api \<Rightarrow> ptr \<Rightarrow> ptr \<Rightarrow> tid \<Rightarrow> 'c Sys_Condvar \<Rightarrow> 'm Sys_Mutex \<Rightarrow>
     ('c Sys_Condvar \<times> 'm Sys_Mutex) outcome" where
  "Sys_Condvar_wait C K caddr maddr t self lock =
     bind_outcome (ZephyrObject_get (Sys_Condvar_init C) caddr self) (\<lambda>(_, self).
     bind_outcome (ZephyrObject_get (Sys_Mutex_init K) maddr lock) (\<lambda>(_, lock).
     bind_outcome (k_condvar_wait C (zo_object self) (zo_object lock) t K_FOREVER) (\<lambda>(_, c, m).
       Ret (self\<lparr>zo_object := c\<rparr>, lock\<lparr>zo_object := m\<rparr>))))"

definition Sys_Condvar_notify_one ::
    "('c, 'm) k_condvar_api \<Rightarrow> ptr \<Rightarrow> 'c Sys_Condvar \<Rightarrow> 'c Sys_Condvar outcome" where
  "Sys_Condvar_notify_one C caddr self =
     bind_outcome (ZephyrObject_get (Sys_Condvar_init C) caddr self) (\<lambda>(_, self).
       Ret (self\<lparr>zo_object := snd (k_condvar_signal C (zo_object self))\<rparr>))"

definition Sys_Condvar_notify_all ::
    "('c, 'm) k_condvar_api \<Rightarrow> ptr \<Rightarrow> 'c Sys_Condvar \<Rightarrow> 'c Sys_Condvar outcome" where
  "Sys_Condvar_notify_all C caddr self =
     bind_outcome (ZephyrObject_get (Sys_Condvar_init C) caddr self) (\<lambda>(_, self).
       Ret (self\<lparr>zo_object := snd (k_condvar_broadcast C (zo_object self))\<rparr>))"

section \<open>The contract of a mutex\<close>

locale mutex =
  fixes lock :: "tid \<Rightarrow> 's \<Rightarrow> k_timeout_t \<Rightarrow> ((unit, Error) result \<times> 's) outcome"
    and unlock :: "tid \<Rightarrow> 's \<Rightarrow> ((unit, Error) result \<times> 's) outcome"
    and new :: 's
    and owner :: "'s \<Rightarrow> (tid \<times> nat) option"
    and ok :: "'s \<Rightarrow> bool"
  assumes new_free: "ok new \<and> owner new = None"
    and lock_free: "ok s \<Longrightarrow> owner s = None \<Longrightarrow>
      \<exists>s'. lock t s to = Ret (Ok (), s') \<and> ok s' \<and> owner s' = Some (t, 1)"
    and lock_again: "ok s \<Longrightarrow> owner s = Some (t, n) \<Longrightarrow> n < 2 ^ 32 - 1 \<Longrightarrow>
      \<exists>s'. lock t s to = Ret (Ok (), s') \<and> ok s' \<and> owner s' = Some (t, n + 1)"
    and lock_busy: "ok s \<Longrightarrow> owner s = Some (u, n) \<Longrightarrow> u \<noteq> t \<Longrightarrow> to \<noteq> K_FOREVER \<Longrightarrow>
      \<exists>e s'. lock t s to = Ret (Err e, s') \<and> ok s' \<and> owner s' = owner s"
    and lock_waits: "ok s \<Longrightarrow> owner s = Some (u, n) \<Longrightarrow> u \<noteq> t \<Longrightarrow> lock t s K_FOREVER = Blocked"
    and unlock_last: "ok s \<Longrightarrow> owner s = Some (t, 1) \<Longrightarrow>
      \<exists>s'. unlock t s = Ret (Ok (), s') \<and> ok s' \<and> owner s' = None"
    and unlock_inner: "ok s \<Longrightarrow> owner s = Some (t, n + 2) \<Longrightarrow>
      \<exists>s'. unlock t s = Ret (Ok (), s') \<and> ok s' \<and> owner s' = Some (t, n + 1)"
    and unlock_other: "ok s \<Longrightarrow> \<nexists>n. owner s = Some (t, n) \<Longrightarrow>
      \<exists>e s'. unlock t s = Ret (Err e, s') \<and> ok s' \<and> owner s' = owner s"
begin

lemma lock_Ok:
  assumes "ok s" and "lock t s to = Ret (Ok (), s')" and "\<And>n. owner s = Some (t, n) \<Longrightarrow> n < 2 ^ 32 - 1"
  shows "ok s' \<and> ((owner s = None \<and> owner s' = Some (t, 1)) \<or>
    (\<exists>n. owner s = Some (t, n) \<and> owner s' = Some (t, n + 1)))"
proof (cases "owner s")
  case None
  then show ?thesis using lock_free [OF assms(1), of t to] assms(2) by auto
next
  case (Some a)
  then obtain u n where u: "owner s = Some (u, n)" by (cases a) auto
  show ?thesis
  proof (cases "u = t")
    case True
    with lock_again [OF assms(1), of t n to] u assms show ?thesis by auto
  next
    case False
    with lock_busy [OF assms(1) u, of t to] lock_waits [OF assms(1) u, of t] assms(2) show ?thesis
      by (cases "to = K_FOREVER") auto
  qed
qed

end

locale placed_mutex = zephyr_mutex K owner
  for K :: "'m k_mutex_api" and owner :: "'m \<Rightarrow> (tid \<times> nat) option" +
  fixes addr :: ptr
  assumes addr: "addr \<noteq> 0"
begin

lemma get_placed:
  assumes "zo_placed addr s"
  shows "\<exists>s'. ZephyrObject_get (Sys_Mutex_init K) addr s = Ret (addr, s') \<and> zo_state s' = addr \<and>
     owner (zo_object s') = Sys_Mutex_owner owner s"
  using ZephyrObject_get_placed [OF addr assms, of "Sys_Mutex_init K" "k_mutex_init K (zo_object s)"]
  by (auto simp: Sys_Mutex_init_def Sys_Mutex_owner_def owner_init)

end

lemma to_result_void_neg: "sint e < 0 \<Longrightarrow> \<exists>err. to_result_void e = Err err"
  by (simp add: to_result_void_def to_result_def)

lemma to_result_void_0 [simp]: "to_result_void 0 = Ok ()"
  by (simp add: to_result_void_def to_result_def)

lemma zo_placed_obj [simp]: "zo_state s = addr \<Longrightarrow> zo_placed addr (s\<lparr>zo_object := m\<rparr>)"
  by (simp add: zo_placed_def)

lemma Sys_Mutex_owner_obj [simp]:
  "zo_state s \<noteq> 0 \<Longrightarrow> Sys_Mutex_owner owner (s\<lparr>zo_object := m\<rparr>) = owner m"
  by (simp add: Sys_Mutex_owner_def)

sublocale placed_mutex \<subseteq> sysm: mutex "Sys_Mutex_lock K addr" "Sys_Mutex_unlock K addr" "Sys_Mutex_new K"
    "Sys_Mutex_owner owner" "zo_placed addr"
proof unfold_locales
  fix s :: "'m Sys_Mutex" and t u n to
  show "zo_placed addr (Sys_Mutex_new K) \<and> Sys_Mutex_owner owner (Sys_Mutex_new K) = None"
    by (simp add: zo_placed_def Sys_Mutex_new_def ZephyrObject_new_raw_def Sys_Mutex_owner_def)
  assume s: "zo_placed addr s"
  obtain s' where g: "ZephyrObject_get (Sys_Mutex_init K) addr s = Ret (addr, s')"
    and st: "zo_state s' = addr" and o: "owner (zo_object s') = Sys_Mutex_owner owner s"
    using get_placed [OF s] by blast
  note defs = Sys_Mutex_lock_def Sys_Mutex_unlock_def g st addr
  show "Sys_Mutex_owner owner s = None \<Longrightarrow>
      \<exists>s'. Sys_Mutex_lock K addr t s to = Ret (Ok (), s') \<and> zo_placed addr s' \<and> Sys_Mutex_owner owner s' = Some (t, 1)"
    using lock_free [of "zo_object s'" t to] o by (auto simp: defs)
  show "Sys_Mutex_owner owner s = Some (t, n) \<Longrightarrow> n < 2 ^ 32 - 1 \<Longrightarrow>
      \<exists>s'. Sys_Mutex_lock K addr t s to = Ret (Ok (), s') \<and> zo_placed addr s' \<and> Sys_Mutex_owner owner s' = Some (t, n + 1)"
    using lock_again [of "zo_object s'" t n to] o by (auto simp: defs)
  show "Sys_Mutex_owner owner s = Some (u, n) \<Longrightarrow> u \<noteq> t \<Longrightarrow> to \<noteq> K_FOREVER \<Longrightarrow>
      \<exists>e s'. Sys_Mutex_lock K addr t s to = Ret (Err e, s') \<and> zo_placed addr s' \<and>
        Sys_Mutex_owner owner s' = Sys_Mutex_owner owner s"
    using lock_busy [of "zo_object s'" u n t to] o by (auto simp: defs dest!: to_result_void_neg)
  show "Sys_Mutex_owner owner s = Some (u, n) \<Longrightarrow> u \<noteq> t \<Longrightarrow> Sys_Mutex_lock K addr t s K_FOREVER = Blocked"
    using lock_waits [of "zo_object s'" u n t] o by (simp add: defs)
  show "Sys_Mutex_owner owner s = Some (t, 1) \<Longrightarrow>
      \<exists>s'. Sys_Mutex_unlock K addr t s = Ret (Ok (), s') \<and> zo_placed addr s' \<and> Sys_Mutex_owner owner s' = None"
    using unlock_last [of "zo_object s'" t] o by (auto simp: defs)
  show "Sys_Mutex_owner owner s = Some (t, n + 2) \<Longrightarrow>
      \<exists>s'. Sys_Mutex_unlock K addr t s = Ret (Ok (), s') \<and> zo_placed addr s' \<and> Sys_Mutex_owner owner s' = Some (t, n + 1)"
    using unlock_inner [of "zo_object s'" t n] o by (auto simp: defs)
  show "\<nexists>n. Sys_Mutex_owner owner s = Some (t, n) \<Longrightarrow>
      \<exists>e s'. Sys_Mutex_unlock K addr t s = Ret (Err e, s') \<and> zo_placed addr s' \<and>
        Sys_Mutex_owner owner s' = Sys_Mutex_owner owner s"
    using unlock_other [of "zo_object s'" t] o by (auto simp: defs dest!: to_result_void_neg)
qed

section \<open>A reference kernel mutex\<close>

text \<open>The error numbers are those the kernel documents: \<open>EBUSY\<close> 16, \<open>EAGAIN\<close> 11, \<open>EINVAL\<close> 22, \<open>EPERM\<close> 1.\<close>

definition owner_mutex_api :: "(tid \<times> nat) option k_mutex_api" where
  "owner_mutex_api =
     \<lparr>km_zeroed = None,
      k_mutex_init = (\<lambda>_. None),
      k_mutex_lock = (\<lambda>m t to. case m of
          None \<Rightarrow> Ret (0, Some (t, 1))
        | Some (u, n) \<Rightarrow> if u = t then Ret (0, Some (t, n + 1))
                        else if ticks to = - 1 then Blocked
                        else if ticks to = 0 then Ret (- 16, m) else Ret (- 11, m)),
      k_mutex_unlock = (\<lambda>m t. case m of
          None \<Rightarrow> (- 22, m)
        | Some (u, n) \<Rightarrow> if u \<noteq> t then (- 1, m) else if n \<le> 1 then (0, None) else (0, Some (t, n - 1)))\<rparr>"

interpretation owner_mutex: zephyr_mutex owner_mutex_api "\<lambda>m. m"
  by unfold_locales (auto simp: owner_mutex_api_def K_FOREVER_iff split: option.splits)

interpretation owner_placed: placed_mutex owner_mutex_api "\<lambda>m. m" 64
  by unfold_locales simp

section \<open>Semaphores\<close>

text \<open>The fields of \<open>k_sem\<close> that the Rust code writes and reads, and the kernel's operations on it.\<close>

record k_sem =
  sem_count :: u32
  sem_limit :: u32

record k_sem_api =
  k_sem_init :: "k_sem \<Rightarrow> u32 \<Rightarrow> u32 \<Rightarrow> c_int \<times> k_sem"
  k_sem_take :: "k_sem \<Rightarrow> k_timeout_t \<Rightarrow> (c_int \<times> k_sem) outcome"
  k_sem_give :: "k_sem \<Rightarrow> k_sem"
  k_sem_reset :: "k_sem \<Rightarrow> k_sem"
  k_sem_count_get :: "k_sem \<Rightarrow> u32"

locale zephyr_sem =
  fixes K :: k_sem_api
  assumes init_valid: "0 < limit \<Longrightarrow> count \<le> limit \<Longrightarrow>
      k_sem_init K s count limit = (0, \<lparr>sem_count = count, sem_limit = limit\<rparr>)"
    and init_invalid: "limit = 0 \<or> limit < count \<Longrightarrow> sint (fst (k_sem_init K s count limit)) < 0"
    and take_now: "0 < sem_count s \<Longrightarrow> k_sem_take K s to = Ret (0, s\<lparr>sem_count := sem_count s - 1\<rparr>)"
    and take_timeout: "sem_count s = 0 \<Longrightarrow> to \<noteq> K_FOREVER \<Longrightarrow>
      \<exists>e. k_sem_take K s to = Ret (e, s) \<and> sint e < 0"
    and take_waits: "sem_count s = 0 \<Longrightarrow> k_sem_take K s K_FOREVER = Blocked"
    and give_law: "k_sem_give K s = (if sem_count s < sem_limit s then s\<lparr>sem_count := sem_count s + 1\<rparr> else s)"
    and reset_law: "k_sem_reset K s = s\<lparr>sem_count := 0\<rparr>"
    and count_law: "k_sem_count_get K s = sem_count s"

type_synonym Semaphore = "k_sem ZephyrObject"

definition Semaphore_new :: "u32 \<Rightarrow> u32 \<Rightarrow> Semaphore outcome" where
  "Semaphore_new initial_count limit =
     (if limit = 0 \<or> initial_count > limit then Panic ''Invalid semaphore initialization''
      else let this = ZephyrObject_new_raw \<lparr>sem_count = 0, sem_limit = 0\<rparr>
           in Ret (this\<lparr>zo_object := (zo_object this)\<lparr>sem_count := initial_count, sem_limit := limit\<rparr>\<rparr>))"

definition Semaphore_init :: "k_sem_api \<Rightarrow> k_sem \<Rightarrow> k_sem outcome" where
  "Semaphore_init K item =
     (let count = sem_count item; limit = sem_limit item; (ret, item) = k_sem_init K item count limit
      in if ret \<noteq> 0 then Panic ''internal error: entered unreachable code'' else Ret item)"

definition Semaphore_take ::
    "k_sem_api \<Rightarrow> ptr \<Rightarrow> Semaphore \<Rightarrow> k_timeout_t \<Rightarrow> ((unit, Error) result \<times> Semaphore) outcome" where
  "Semaphore_take K addr self timeout =
     bind_outcome (ZephyrObject_get (Semaphore_init K) addr self) (\<lambda>(_, self).
     bind_outcome (k_sem_take K (zo_object self) timeout) (\<lambda>(ret, s).
       Ret (to_result_void ret, self\<lparr>zo_object := s\<rparr>)))"

definition Semaphore_give :: "k_sem_api \<Rightarrow> ptr \<Rightarrow> Semaphore \<Rightarrow> Semaphore outcome" where
  "Semaphore_give K addr self =
     bind_outcome (ZephyrObject_get (Semaphore_init K) addr self) (\<lambda>(_, self).
       Ret (self\<lparr>zo_object := k_sem_give K (zo_object self)\<rparr>))"

definition Semaphore_reset :: "k_sem_api \<Rightarrow> ptr \<Rightarrow> Semaphore \<Rightarrow> Semaphore outcome" where
  "Semaphore_reset K addr self =
     bind_outcome (ZephyrObject_get (Semaphore_init K) addr self) (\<lambda>(_, self).
       Ret (self\<lparr>zo_object := k_sem_reset K (zo_object self)\<rparr>))"

definition Semaphore_count_get :: "k_sem_api \<Rightarrow> ptr \<Rightarrow> Semaphore \<Rightarrow> (usize \<times> Semaphore) outcome" where
  "Semaphore_count_get K addr self =
     bind_outcome (ZephyrObject_get (Semaphore_init K) addr self) (\<lambda>(_, self).
       Ret (k_sem_count_get K (zo_object self), self))"

section \<open>The contract of a semaphore\<close>

datatype sem_op = Take k_timeout_t | Give | Reset

text \<open>A bounded counter: the answer says whether a token was obtained, \<open>None\<close> is a call that waits.\<close>

fun count_apply :: "nat \<Rightarrow> sem_op \<Rightarrow> nat \<Rightarrow> (bool \<times> nat) option" where
  "count_apply cap (Take to) n = (if 0 < n then Some (True, n - 1) else if to = K_FOREVER then None else Some (False, 0))"
| "count_apply cap Give n = Some (False, if n < cap then n + 1 else n)"
| "count_apply cap Reset n = Some (False, 0)"

definition Semaphore_apply :: "k_sem_api \<Rightarrow> ptr \<Rightarrow> sem_op \<Rightarrow> Semaphore \<Rightarrow> (bool \<times> Semaphore) outcome" where
  "Semaphore_apply K addr op s = (case op of
     Take to \<Rightarrow> bind_outcome (Semaphore_take K addr s to) (\<lambda>(r, s). Ret (is_ok r, s))
   | Give \<Rightarrow> bind_outcome (Semaphore_give K addr s) (\<lambda>s. Ret (False, s))
   | Reset \<Rightarrow> bind_outcome (Semaphore_reset K addr s) (\<lambda>s. Ret (False, s)))"

text \<open>
  A sequence of calls with the answer to each. A call that waits has no effect; the program ends at a panic.
\<close>

fun sem_trace :: "(sem_op \<Rightarrow> 's \<Rightarrow> (bool \<times> 's) outcome) \<Rightarrow> sem_op list \<Rightarrow> 's \<Rightarrow> bool outcome list \<times> 's" where
  "sem_trace app [] s = ([], s)"
| "sem_trace app (a # ops) s = (case app a s of
     Ret (b, s') \<Rightarrow> apfst (Cons (Ret b)) (sem_trace app ops s')
   | Blocked \<Rightarrow> apfst (Cons Blocked) (sem_trace app ops s)
   | Panic m \<Rightarrow> ([Panic m], s)
   | UB \<Rightarrow> ([UB], s))"

text \<open>The same for the counter.\<close>

fun count_trace :: "nat \<Rightarrow> sem_op list \<Rightarrow> nat \<Rightarrow> bool outcome list \<times> nat" where
  "count_trace cap [] n = ([], n)"
| "count_trace cap (a # ops) n = (case count_apply cap a n of
     None \<Rightarrow> apfst (Cons Blocked) (count_trace cap ops n)
   | Some (b, k) \<Rightarrow> apfst (Cons (Ret b)) (count_trace cap ops k))"

lemma count_trace_tokens:
  "n \<le> cap \<Longrightarrow> count_trace cap ops n = (rs, k) \<Longrightarrow>
   k \<le> cap \<and> count_list rs (Ret True) + k \<le> n + count_list ops Give"
proof (induction ops arbitrary: n rs k)
  case (Cons a ops)
  obtain n' where n': "n' = (case count_apply cap a n of None \<Rightarrow> n | Some (b, k) \<Rightarrow> k)" by simp
  obtain rs' where r: "count_trace cap ops n' = (rs', k)" "rs = (case count_apply cap a n of None \<Rightarrow> Blocked | Some (b, k) \<Rightarrow> Ret b) # rs'"
    using Cons.prems(2) n' by (cases "count_trace cap ops n'") (auto split: option.splits)
  have "n' \<le> cap" using Cons.prems(1) n' by (cases a) auto
  from Cons.IH [OF this r(1)] Cons.prems(1) n' r(2) show ?case by (cases a) (auto split: if_splits)
qed simp

locale semaphore =
  fixes app :: "sem_op \<Rightarrow> 's \<Rightarrow> (bool \<times> 's) outcome"
    and val :: "'s \<Rightarrow> nat" and cap :: "'s \<Rightarrow> nat" and ok :: "'s \<Rightarrow> bool"
  assumes bounded: "ok s \<Longrightarrow> val s \<le> cap s"
    and app_blocks: "ok s \<Longrightarrow> count_apply (cap s) a (val s) = None \<Longrightarrow> app a s = Blocked"
    and app_counts: "ok s \<Longrightarrow> count_apply (cap s) a (val s) = Some (b, n) \<Longrightarrow>
      \<exists>s'. app a s = Ret (b, s') \<and> ok s' \<and> val s' = n \<and> cap s' = cap s"
begin

lemma app_cases:
  assumes "ok s"
  obtains "app a s = Blocked"
  | b n s' where "app a s = Ret (b, s')" "count_apply (cap s) a (val s) = Some (b, n)" "ok s'"
      "val s' = n" "cap s' = cap s"
  using app_blocks [OF assms, of a] app_counts [OF assms, of a]
  by (cases "count_apply (cap s) a (val s)") auto

lemma trace_counts:
  "ok s \<Longrightarrow> \<exists>rs s'. sem_trace app ops s = (rs, s') \<and> count_trace (cap s) ops (val s) = (rs, val s') \<and>
     ok s' \<and> cap s' = cap s"
proof (induction ops arbitrary: s)
  case (Cons a ops)
  show ?case
  proof (cases "count_apply (cap s) a (val s)")
    case None
    then show ?thesis using Cons.IH [OF Cons.prems] app_blocks [OF Cons.prems None] by fastforce
  next
    case (Some bn)
    obtain b n where bn: "bn = (b, n)" by fastforce
    obtain s' where s': "app a s = Ret (b, s')" "ok s'" "val s' = n" "cap s' = cap s"
      using app_counts [OF Cons.prems, of a b n] Some bn by auto
    then show ?thesis using Cons.IH [OF s'(2)] Some bn by fastforce
  qed
qed simp

end

locale placed_sem = zephyr_sem K for K :: k_sem_api +
  fixes addr :: ptr
  assumes addr: "addr \<noteq> 0"

definition Semaphore_ok :: "ptr \<Rightarrow> Semaphore \<Rightarrow> bool" where
  "Semaphore_ok addr s \<longleftrightarrow> zo_placed addr s \<and> 0 < sem_limit (zo_object s) \<and>
     sem_count (zo_object s) \<le> sem_limit (zo_object s)"

definition sem_val :: "Semaphore \<Rightarrow> nat" where "sem_val s = unat (sem_count (zo_object s))"
definition sem_cap :: "Semaphore \<Rightarrow> nat" where "sem_cap s = unat (sem_limit (zo_object s))"

lemma unat_pos_pred: "0 < w \<Longrightarrow> unat (w - 1 :: u32) = unat w - 1"
  by (simp add: unat_minus_one word_greater_zero_iff)

lemma unat_less_succ: "w < (l :: u32) \<Longrightarrow> unat (w + 1) = unat w + 1"
proof -
  assume "w < l"
  moreover have "unat l < 2 ^ LENGTH(32)" by (rule unsigned_less)
  ultimately have "unat w + 1 < 2 ^ 32" by (simp add: word_less_nat_alt)
  then show ?thesis by (simp add: unat_word_ariths)
qed

context placed_sem
begin

lemma sem_get:
  assumes "Semaphore_ok addr s"
  shows "ZephyrObject_get (Semaphore_init K) addr s = Ret (addr, s\<lparr>zo_state := addr\<rparr>)"
proof -
  have "Semaphore_init K (zo_object s) = Ret (zo_object s)"
    using assms init_valid [of "sem_limit (zo_object s)" "sem_count (zo_object s)" "zo_object s"]
    by (simp add: Semaphore_init_def Semaphore_ok_def)
  then show ?thesis
    using ZephyrObject_get_placed [OF addr, of s "Semaphore_init K" "zo_object s"] assms
    by (cases s) (auto simp: Semaphore_ok_def)
qed

end

sublocale placed_sem \<subseteq> sem: semaphore "Semaphore_apply K addr" sem_val sem_cap "Semaphore_ok addr"
proof unfold_locales
  fix s a b n
  assume s: "Semaphore_ok addr s"
  note defs = Semaphore_apply_def Semaphore_take_def Semaphore_give_def Semaphore_reset_def
    sem_get [OF s] sem_val_def sem_cap_def
  show "sem_val s \<le> sem_cap s"
    using s by (simp add: Semaphore_ok_def sem_val_def sem_cap_def word_le_nat_alt)
  show "count_apply (sem_cap s) a (sem_val s) = None \<Longrightarrow> Semaphore_apply K addr a s = Blocked"
    using take_waits [of "zo_object s"] by (cases a) (auto simp: defs unat_eq_zero split: if_splits)
  show "\<exists>s'. Semaphore_apply K addr a s = Ret (b, s') \<and> Semaphore_ok addr s' \<and> sem_val s' = n \<and> sem_cap s' = sem_cap s"
    if "count_apply (sem_cap s) a (sem_val s) = Some (b, n)"
  proof (cases a)
    case (Take to)
    show ?thesis
    proof (cases "sem_count (zo_object s) = 0")
      case True
      with that Take have "to \<noteq> K_FOREVER" "b = False" "n = 0"
        by (auto simp: sem_val_def split: if_splits)
      with take_timeout [OF True, of to] Take True s show ?thesis
        by (auto simp: defs Semaphore_ok_def zo_placed_def dest!: to_result_void_neg)
    next
      case False
      then have pos: "0 < sem_count (zo_object s)" by (simp add: word_greater_zero_iff)
      then have "sem_count (zo_object s) - 1 \<le> sem_limit (zo_object s)"
        using s unat_pos_pred [OF pos] by (auto simp: Semaphore_ok_def word_le_nat_alt)
      with that Take take_now [OF pos, of to] s pos show ?thesis
        by (auto simp: defs Semaphore_ok_def zo_placed_def unat_pos_pred word_less_nat_alt)
    qed
  next
    case Give
    have "sem_count (zo_object s) + 1 \<le> sem_limit (zo_object s)"
      if "sem_count (zo_object s) < sem_limit (zo_object s)"
      using that by (simp add: word_le_nat_alt word_less_nat_alt unat_less_succ)
    with that Give s show ?thesis
      by (auto simp: defs Semaphore_ok_def zo_placed_def give_law unat_less_succ word_less_nat_alt)
  next
    case Reset
    with that s show ?thesis by (auto simp: defs Semaphore_ok_def zo_placed_def reset_law)
  qed
qed

context placed_sem
begin

lemma trace:
  "Semaphore_ok addr s \<Longrightarrow> \<exists>rs s'. sem_trace (Semaphore_apply K addr) ops s = (rs, s') \<and>
     count_trace (sem_cap s) ops (sem_val s) = (rs, sem_val s') \<and> Semaphore_ok addr s' \<and> sem_cap s' = sem_cap s"
  by (rule sem.trace_counts)

text \<open>The single operations.\<close>

lemma take_one:
  assumes "Semaphore_ok addr s" and "0 < sem_val s"
  shows "\<exists>s'. Semaphore_take K addr s to = Ret (Ok (), s') \<and> Semaphore_ok addr s' \<and> sem_val s' = sem_val s - 1 \<and> sem_cap s' = sem_cap s"
proof -
  have "is_ok r \<longleftrightarrow> r = Ok ()" for r :: "(unit, Error) result" by (cases r) auto
  with sem.app_counts [OF assms(1), of "Take to" True "sem_val s - 1"] assms(2) show ?thesis
    by (auto simp: Semaphore_apply_def outcome_simps)
qed

lemma take_none: "Semaphore_ok addr s \<Longrightarrow> sem_val s = 0 \<Longrightarrow> Semaphore_take K addr s K_FOREVER = Blocked"
  using sem.app_blocks [of s "Take K_FOREVER"] by (auto simp: Semaphore_apply_def outcome_simps)

lemma give_counts:
  assumes "Semaphore_ok addr s"
  shows "\<exists>s'. Semaphore_give K addr s = Ret s' \<and> Semaphore_ok addr s' \<and> sem_cap s' = sem_cap s \<and>
    sem_val s' = (if sem_val s < sem_cap s then sem_val s + 1 else sem_val s)"
  using sem.app_counts [OF assms, of Give False "if sem_val s < sem_cap s then sem_val s + 1 else sem_val s"]
  by (auto simp: Semaphore_apply_def outcome_simps)

lemma give_one:
  "Semaphore_ok addr s \<Longrightarrow> sem_val s < sem_cap s \<Longrightarrow>
   \<exists>s'. Semaphore_give K addr s = Ret s' \<and> Semaphore_ok addr s' \<and> sem_val s' = sem_val s + 1 \<and> sem_cap s' = sem_cap s"
  using give_counts by fastforce

lemma reset_zero:
  "Semaphore_ok addr s \<Longrightarrow> \<exists>s'. Semaphore_reset K addr s = Ret s' \<and> Semaphore_ok addr s' \<and> sem_val s' = 0 \<and> sem_cap s' = sem_cap s"
  using sem.app_counts [of s Reset False 0] by (auto simp: Semaphore_apply_def outcome_simps)

lemma count_get_val:
  assumes "Semaphore_ok addr s"
  shows "\<exists>n s'. Semaphore_count_get K addr s = Ret (n, s') \<and> unat n = sem_val s \<and> Semaphore_ok addr s' \<and> sem_val s' = sem_val s \<and> sem_cap s' = sem_cap s"
  using assms sem_get [OF assms] by (auto simp: Semaphore_count_get_def count_law sem_val_def sem_cap_def Semaphore_ok_def zo_placed_def)

end

section \<open>Properties\<close>


definition ref_sem_api :: k_sem_api where
  "ref_sem_api =
     \<lparr>k_sem_init = (\<lambda>s c l. if l = 0 \<or> l < c then (- 22, s) else (0, \<lparr>sem_count = c, sem_limit = l\<rparr>)),
      k_sem_take = (\<lambda>s to. if 0 < sem_count s then Ret (0, s\<lparr>sem_count := sem_count s - 1\<rparr>)
        else if ticks to = - 1 then Blocked else if ticks to = 0 then Ret (- 16, s) else Ret (- 11, s)),
      k_sem_give = (\<lambda>s. if sem_count s < sem_limit s then s\<lparr>sem_count := sem_count s + 1\<rparr> else s),
      k_sem_reset = (\<lambda>s. s\<lparr>sem_count := 0\<rparr>),
      k_sem_count_get = sem_count\<rparr>"

interpretation ref_sem: zephyr_sem ref_sem_api
  by unfold_locales (auto simp: ref_sem_api_def K_FOREVER_iff)


end
