(* ===== verification/Mutex.thy ===== *)
theory Mutex
  imports Sys_Sync
begin

text \<open>
  \<open>zephyr/src/sync/mutex.rs\<close>: the data-carrying \<open>Mutex\<close>, its guard and the \<open>Condvar\<close>, over the kernel
  mutex of \<open>Sys_Sync\<close>, which the owner may lock again. The flag \<open>locked\<close> turns such a relock into a
  panic or into \<open>WouldBlock\<close>. The step relation \<open>mx_step\<close> interleaves the atomic parts of the calls of
  any number of threads. \<open>zephyr/src/sync/spinmutex.rs\<close> is the same interface over a spinlock.
\<close>

section \<open>\<open>Mutex\<close> and its guard\<close>

record ('m, 'a) Mutex =
  mx_inner :: "'m Sys_Mutex"
  mx_locked :: bool
  mx_data :: 'a

datatype TryLockError = WouldBlock

definition Mutex_new_from :: "'a \<Rightarrow> 'm Sys_Mutex \<Rightarrow> ('m, 'a) Mutex" where
  "Mutex_new_from t raw_mutex = \<lparr>mx_inner = raw_mutex, mx_locked = False, mx_data = t\<rparr>"

definition Mutex_new :: "'m k_mutex_api \<Rightarrow> 'a \<Rightarrow> ('m, 'a) Mutex" where
  "Mutex_new K t = Mutex_new_from t (Sys_Mutex_new K)"

text \<open>
  \<open>lock\<close> and \<open>try_lock\<close>: a returned value means that the caller has a guard. A guard is the mutex it
  refers to, so only the mutex is threaded.
\<close>

definition Mutex_lock :: "'m k_mutex_api \<Rightarrow> ptr \<Rightarrow> tid \<Rightarrow> ('m, 'a) Mutex \<Rightarrow> ('m, 'a) Mutex outcome" where
  "Mutex_lock K addr t self =
     bind_outcome (Sys_Mutex_lock K addr t (mx_inner self) Timeout_from_Forever) (\<lambda>(r, inner).
     bind_outcome (unwrap r) (\<lambda>_.
       let (old, l) = atomic_swap (mx_locked self) True; self = self\<lparr>mx_inner := inner, mx_locked := l\<rparr>
       in if old then
            bind_outcome (Sys_Mutex_unlock K addr t (mx_inner self)) (\<lambda>(r, inner).
            bind_outcome (unwrap r) (\<lambda>_. Panic ''cannot recursively lock Mutex''))
          else Ret self))"

definition Mutex_try_lock ::
    "'m k_mutex_api \<Rightarrow> ptr \<Rightarrow> tid \<Rightarrow> ('m, 'a) Mutex \<Rightarrow> ((unit, TryLockError) result \<times> ('m, 'a) Mutex) outcome" where
  "Mutex_try_lock K addr t self =
     bind_outcome (Sys_Mutex_lock K addr t (mx_inner self) Timeout_from_NoWait) (\<lambda>(r, inner).
       case r of
         Ok _ \<Rightarrow>
           (let (old, l) = atomic_swap (mx_locked self) True; self = self\<lparr>mx_inner := inner, mx_locked := l\<rparr>
            in if old then
                 bind_outcome (Sys_Mutex_unlock K addr t (mx_inner self)) (\<lambda>(r, inner).
                 bind_outcome (unwrap r) (\<lambda>_. Ret (Err WouldBlock, self\<lparr>mx_inner := inner\<rparr>)))
               else Ret (Ok (), self))
       | Err _ \<Rightarrow> Ret (Err WouldBlock, self\<lparr>mx_inner := inner\<rparr>))"

definition MutexGuard_deref :: "('m, 'a) Mutex \<Rightarrow> 'a" where
  "MutexGuard_deref self = mx_data self"

definition MutexGuard_deref_mut :: "('m, 'a) Mutex \<Rightarrow> ('a \<Rightarrow> 'a) \<Rightarrow> ('m, 'a) Mutex" where
  "MutexGuard_deref_mut self f = self\<lparr>mx_data := f (mx_data self)\<rparr>"

definition MutexGuard_drop :: "'m k_mutex_api \<Rightarrow> ptr \<Rightarrow> tid \<Rightarrow> ('m, 'a) Mutex \<Rightarrow> ('m, 'a) Mutex outcome" where
  "MutexGuard_drop K addr t self =
     (let self = self\<lparr>mx_locked := False\<rparr> in
      bind_outcome (Sys_Mutex_unlock K addr t (mx_inner self)) (\<lambda>(r, inner).
        case r of Err e \<Rightarrow> Panic ''Problem unlocking MutexGuard in drop''
        | Ok _ \<Rightarrow> Ret (self\<lparr>mx_inner := inner\<rparr>)))"

section \<open>\<open>Condvar\<close>\<close>

definition Condvar_wait ::
    "('c, 'm) k_condvar_api \<Rightarrow> 'm k_mutex_api \<Rightarrow> ptr \<Rightarrow> ptr \<Rightarrow> tid \<Rightarrow> 'c Sys_Condvar \<Rightarrow> ('m, 'a) Mutex \<Rightarrow>
     ('c Sys_Condvar \<times> ('m, 'a) Mutex) outcome" where
  "Condvar_wait C K caddr maddr t self guard =
     (let guard = guard\<lparr>mx_locked := False\<rparr> in
      bind_outcome (Sys_Condvar_wait C K caddr maddr t self (mx_inner guard)) (\<lambda>(self, inner).
        Ret (self, guard\<lparr>mx_inner := inner, mx_locked := True\<rparr>)))"

definition Condvar_notify_one where
  "Condvar_notify_one C caddr self = Sys_Condvar_notify_one C caddr self"

definition Condvar_notify_all where
  "Condvar_notify_all C caddr self = Sys_Condvar_notify_all C caddr self"

section \<open>Threads that share a mutex\<close>

text \<open>
  Where a thread is: outside; past the kernel lock and before the \<open>swap\<close>; with a guard; in a relock
  from a thread that has the guard, before the \<open>swap\<close> and before the \<open>unlock\<close> that follows it (the flag
  tells \<open>lock\<close> from \<open>try_lock\<close>); turned away by the \<open>swap\<close> without having had a guard; panicked; past the store of a guard's drop and before its \<open>unlock\<close>; past
  the first store of \<open>wait\<close>, waiting in the kernel, and woken up with the kernel mutex and before the
  last store.
\<close>

datatype mx_pc = MOut | MEnter | MGuard | MReenter bool | MRefuse bool | MBounce bool | MPanicked | MLeave
  | MWaitPrep | MWaiting | MWoken

record ('m, 'a) mx_sys =
  ms_mutex :: "('m, 'a) Mutex"
  ms_pc :: "tid \<Rightarrow> mx_pc"

text \<open>
  \<open>k_condvar_wait\<close> releases the mutex as \<open>k_mutex_unlock\<close> does and takes it again as \<open>k_mutex_lock\<close> does
  before it returns; waking up without a notification is allowed.
\<close>

inductive mx_step :: "'m k_mutex_api \<Rightarrow> ptr \<Rightarrow> ('m, 'a) mx_sys \<Rightarrow> ('m, 'a) mx_sys \<Rightarrow> bool" for K addr where
  lock_inner: "ms_pc s t = MOut \<Longrightarrow> Sys_Mutex_lock K addr t (mx_inner (ms_mutex s)) to = Ret (Ok (), i) \<Longrightarrow>
     mx_step K addr s \<lparr>ms_mutex = (ms_mutex s)\<lparr>mx_inner := i\<rparr>, ms_pc = (ms_pc s)(t := MEnter)\<rparr>"
| lock_fails: "ms_pc s t = MOut \<Longrightarrow> Sys_Mutex_lock K addr t (mx_inner (ms_mutex s)) to = Ret (Err e, i) \<Longrightarrow>
     mx_step K addr s (s\<lparr>ms_mutex := (ms_mutex s)\<lparr>mx_inner := i\<rparr>\<rparr>)"
| swap_new: "ms_pc s t = MEnter \<Longrightarrow> atomic_swap (mx_locked (ms_mutex s)) True = (False, l) \<Longrightarrow>
     mx_step K addr s \<lparr>ms_mutex = (ms_mutex s)\<lparr>mx_locked := l\<rparr>, ms_pc = (ms_pc s)(t := MGuard)\<rparr>"
| swap_old: "ms_pc s t = MEnter \<Longrightarrow> atomic_swap (mx_locked (ms_mutex s)) True = (True, l) \<Longrightarrow>
     mx_step K addr s \<lparr>ms_mutex = (ms_mutex s)\<lparr>mx_locked := l\<rparr>, ms_pc = (ms_pc s)(t := MBounce b)\<rparr>"
| bounce: "ms_pc s t = MBounce b \<Longrightarrow> Sys_Mutex_unlock K addr t (mx_inner (ms_mutex s)) = Ret (Ok (), i) \<Longrightarrow>
     mx_step K addr s \<lparr>ms_mutex = (ms_mutex s)\<lparr>mx_inner := i\<rparr>,
       ms_pc = (ms_pc s)(t := if b then MPanicked else MOut)\<rparr>"
| use_data: "ms_pc s t = MGuard \<Longrightarrow>
     mx_step K addr s (s\<lparr>ms_mutex := MutexGuard_deref_mut (ms_mutex s) f\<rparr>)"
| relock_inner: "ms_pc s t = MGuard \<Longrightarrow> Sys_Mutex_lock K addr t (mx_inner (ms_mutex s)) to = Ret (Ok (), i) \<Longrightarrow>
     mx_step K addr s \<lparr>ms_mutex = (ms_mutex s)\<lparr>mx_inner := i\<rparr>, ms_pc = (ms_pc s)(t := MReenter b)\<rparr>"
| relock_new: "ms_pc s t = MReenter b \<Longrightarrow> atomic_swap (mx_locked (ms_mutex s)) True = (False, l) \<Longrightarrow>
     mx_step K addr s \<lparr>ms_mutex = (ms_mutex s)\<lparr>mx_locked := l\<rparr>, ms_pc = (ms_pc s)(t := MGuard)\<rparr>"
| relock_old: "ms_pc s t = MReenter b \<Longrightarrow> atomic_swap (mx_locked (ms_mutex s)) True = (True, l) \<Longrightarrow>
     mx_step K addr s \<lparr>ms_mutex = (ms_mutex s)\<lparr>mx_locked := l\<rparr>, ms_pc = (ms_pc s)(t := MRefuse b)\<rparr>"
| refuse: "ms_pc s t = MRefuse b \<Longrightarrow> Sys_Mutex_unlock K addr t (mx_inner (ms_mutex s)) = Ret (Ok (), i) \<Longrightarrow>
     mx_step K addr s \<lparr>ms_mutex = (ms_mutex s)\<lparr>mx_inner := i\<rparr>,
       ms_pc = (ms_pc s)(t := if b then MPanicked else MGuard)\<rparr>"
| drop_store: "ms_pc s t = MGuard \<Longrightarrow>
     mx_step K addr s \<lparr>ms_mutex = (ms_mutex s)\<lparr>mx_locked := False\<rparr>, ms_pc = (ms_pc s)(t := MLeave)\<rparr>"
| drop_unlock: "ms_pc s t = MLeave \<Longrightarrow> Sys_Mutex_unlock K addr t (mx_inner (ms_mutex s)) = Ret (Ok (), i) \<Longrightarrow>
     mx_step K addr s \<lparr>ms_mutex = (ms_mutex s)\<lparr>mx_inner := i\<rparr>, ms_pc = (ms_pc s)(t := MOut)\<rparr>"
| wait_store: "ms_pc s t = MGuard \<Longrightarrow>
     mx_step K addr s \<lparr>ms_mutex = (ms_mutex s)\<lparr>mx_locked := False\<rparr>, ms_pc = (ms_pc s)(t := MWaitPrep)\<rparr>"
| wait_release: "ms_pc s t = MWaitPrep \<Longrightarrow> Sys_Mutex_unlock K addr t (mx_inner (ms_mutex s)) = Ret (Ok (), i) \<Longrightarrow>
     mx_step K addr s \<lparr>ms_mutex = (ms_mutex s)\<lparr>mx_inner := i\<rparr>, ms_pc = (ms_pc s)(t := MWaiting)\<rparr>"
| wait_wake: "ms_pc s t = MWaiting \<Longrightarrow> Sys_Mutex_lock K addr t (mx_inner (ms_mutex s)) K_FOREVER = Ret (Ok (), i) \<Longrightarrow>
     mx_step K addr s \<lparr>ms_mutex = (ms_mutex s)\<lparr>mx_inner := i\<rparr>, ms_pc = (ms_pc s)(t := MWoken)\<rparr>"
| wait_done: "ms_pc s t = MWoken \<Longrightarrow>
     mx_step K addr s \<lparr>ms_mutex = (ms_mutex s)\<lparr>mx_locked := True\<rparr>, ms_pc = (ms_pc s)(t := MGuard)\<rparr>"

inductive mx_reach :: "'m k_mutex_api \<Rightarrow> ptr \<Rightarrow> ('m, 'a) mx_sys \<Rightarrow> bool" for K addr where
  mx_init: "mx_reach K addr \<lparr>ms_mutex = Mutex_new K d, ms_pc = (\<lambda>_. MOut)\<rparr>"
| mx_more: "mx_reach K addr s \<Longrightarrow> mx_step K addr s s' \<Longrightarrow> mx_reach K addr s'"

section \<open>The invariant\<close>

text \<open>How often a thread holds the kernel mutex, and whether it stands behind the flag \<open>locked\<close>.\<close>

fun mx_count :: "mx_pc \<Rightarrow> nat" where
  "mx_count MOut = 0"
| "mx_count MWaiting = 0"
| "mx_count (MReenter b) = 2"
| "mx_count (MRefuse b) = 2"
| "mx_count _ = 1"

fun mx_flag :: "mx_pc \<Rightarrow> bool" where
  "mx_flag MGuard = True"
| "mx_flag (MReenter b) = True"
| "mx_flag (MRefuse b) = True"
| "mx_flag MPanicked = True"
| "mx_flag _ = False"

fun is_bounce :: "mx_pc \<Rightarrow> bool" where
  "is_bounce (MBounce b) = True"
| "is_bounce _ = False"

definition mx_inv :: "('m \<Rightarrow> (tid \<times> nat) option) \<Rightarrow> ptr \<Rightarrow> ('m, 'a) mx_sys \<Rightarrow> bool" where
  "mx_inv owner addr s \<longleftrightarrow>
     zo_placed addr (mx_inner (ms_mutex s)) \<and>
     (case Sys_Mutex_owner owner (mx_inner (ms_mutex s)) of
        None \<Rightarrow> (\<forall>t. mx_count (ms_pc s t) = 0) \<and> \<not> mx_locked (ms_mutex s)
      | Some (u, n) \<Rightarrow> 0 < n \<and> mx_count (ms_pc s u) = n \<and> (\<forall>t. t \<noteq> u \<longrightarrow> mx_count (ms_pc s t) = 0) \<and>
          mx_locked (ms_mutex s) = mx_flag (ms_pc s u) \<and> \<not> is_bounce (ms_pc s u))"

lemma mx_count_0: "mx_count c = 0 \<longleftrightarrow> c = MOut \<or> c = MWaiting"
  by (cases c) auto

lemma mx_flag_count: "mx_flag c \<Longrightarrow> 0 < mx_count c"
  by (cases c) auto

lemma mx_inv_holder:
  assumes "mx_inv owner addr s" and "0 < mx_count (ms_pc s t)"
  shows "Sys_Mutex_owner owner (mx_inner (ms_mutex s)) = Some (t, mx_count (ms_pc s t)) \<and>
    mx_locked (ms_mutex s) = mx_flag (ms_pc s t) \<and> \<not> is_bounce (ms_pc s t) \<and> (\<forall>u. u \<noteq> t \<longrightarrow> mx_count (ms_pc s u) = 0) \<and>
    zo_placed addr (mx_inner (ms_mutex s))"
proof -
  obtain u n where "Sys_Mutex_owner owner (mx_inner (ms_mutex s)) = Some (u, n)"
    using assms by (auto simp: mx_inv_def split: option.splits)
  moreover from this have "u = t" using assms by (auto simp: mx_inv_def)
  ultimately show ?thesis using assms by (auto simp: mx_inv_def)
qed

text \<open>A thread that moves to another place in its call, with the kernel mutex as that place says.\<close>

lemma mx_inv_hold:
  assumes "zo_placed addr i" and "Sys_Mutex_owner owner i = Some (t, mx_count c)" and "0 < mx_count c"
    and "l = mx_flag c" and "\<not> is_bounce c" and "\<forall>u. u \<noteq> t \<longrightarrow> mx_count (ms_pc s u) = 0"
  shows "mx_inv owner addr \<lparr>ms_mutex = \<lparr>mx_inner = i, mx_locked = l, mx_data = d\<rparr>, ms_pc = (ms_pc s)(t := c)\<rparr>"
  using assms by (simp add: mx_inv_def)

lemma mx_inv_release:
  assumes "zo_placed addr i" and "Sys_Mutex_owner owner i = None" and "mx_count c = 0"
    and "\<not> l" and "\<forall>u. u \<noteq> t \<longrightarrow> mx_count (ms_pc s u) = 0"
  shows "mx_inv owner addr \<lparr>ms_mutex = \<lparr>mx_inner = i, mx_locked = l, mx_data = d\<rparr>, ms_pc = (ms_pc s)(t := c)\<rparr>"
  using assms by (simp add: mx_inv_def)

text \<open>A mutex between two calls.\<close>

definition mx_ok :: "('m \<Rightarrow> (tid \<times> nat) option) \<Rightarrow> ptr \<Rightarrow> ('m, 'a) Mutex \<Rightarrow> bool" where
  "mx_ok owner addr self \<longleftrightarrow> zo_placed addr (mx_inner self) \<and>
     (case Sys_Mutex_owner owner (mx_inner self) of
        None \<Rightarrow> \<not> mx_locked self
      | Some (u, n) \<Rightarrow> n = 1 \<and> mx_locked self)"

context placed_mutex
begin

lemma mx_lock_from_out:
  assumes inv: "mx_inv owner addr s" and c: "mx_count (ms_pc s t) = 0"
    and l: "Sys_Mutex_lock K addr t (mx_inner (ms_mutex s)) to = Ret (Ok (), i)"
  shows "zo_placed addr i \<and> Sys_Mutex_owner owner i = Some (t, 1) \<and> (\<forall>u. mx_count (ms_pc s u) = 0) \<and>
    \<not> mx_locked (ms_mutex s)"
proof -
  have pl: "zo_placed addr (mx_inner (ms_mutex s))" using inv by (simp add: mx_inv_def)
  have no: "Sys_Mutex_owner owner (mx_inner (ms_mutex s)) \<noteq> Some (t, n)" for n
    using inv c by (auto simp: mx_inv_def)
  with sysm.lock_Ok [OF pl l] inv show ?thesis by (auto simp: mx_inv_def)
qed

lemma mx_unlock_one:
  assumes "mx_inv owner addr s" and "mx_count (ms_pc s t) = 1"
  shows "\<exists>i. Sys_Mutex_unlock K addr t (mx_inner (ms_mutex s)) = Ret (Ok (), i) \<and> zo_placed addr i \<and>
    Sys_Mutex_owner owner i = None"
  using mx_inv_holder [OF assms(1), of t] assms(2) sysm.unlock_last [of "mx_inner (ms_mutex s)" t] by auto

lemma mx_unlock_two:
  assumes "mx_inv owner addr s" and "mx_count (ms_pc s t) = 2"
  shows "\<exists>i. Sys_Mutex_unlock K addr t (mx_inner (ms_mutex s)) = Ret (Ok (), i) \<and> zo_placed addr i \<and>
    Sys_Mutex_owner owner i = Some (t, 1)"
  using mx_inv_holder [OF assms(1), of t] assms(2) sysm.unlock_inner [of "mx_inner (ms_mutex s)" t 0] by auto

lemma mx_relock:
  assumes "mx_inv owner addr s" and "ms_pc s t = MGuard"
  shows "\<exists>i. Sys_Mutex_lock K addr t (mx_inner (ms_mutex s)) to = Ret (Ok (), i) \<and> zo_placed addr i \<and>
    Sys_Mutex_owner owner i = Some (t, 2)"
proof -
  have "zo_placed addr (mx_inner (ms_mutex s))" "Sys_Mutex_owner owner (mx_inner (ms_mutex s)) = Some (t, 1)"
    using mx_inv_holder [OF assms(1), of t] assms(2) by simp_all
  then show ?thesis using sysm.lock_again [of "mx_inner (ms_mutex s)" t 1 to] by (simp only: one_add_one) simp
qed

lemma mx_lock_fails:
  assumes inv: "mx_inv owner addr s" and out: "ms_pc s t = MOut"
    and l: "Sys_Mutex_lock K addr t (mx_inner (ms_mutex s)) to = Ret (Err e, i)"
  shows "mx_inv owner addr (s\<lparr>ms_mutex := (ms_mutex s)\<lparr>mx_inner := i\<rparr>\<rparr>)"
proof -
  have pl: "zo_placed addr (mx_inner (ms_mutex s))" using inv by (simp add: mx_inv_def)
  obtain u n where u: "Sys_Mutex_owner owner (mx_inner (ms_mutex s)) = Some (u, n)"
    using sysm.lock_free [OF pl, of t to] l by fastforce
  with inv out have "u \<noteq> t" by (auto simp: mx_inv_def)
  moreover have "to \<noteq> K_FOREVER" using sysm.lock_waits [OF pl u \<open>u \<noteq> t\<close>] l by auto
  ultimately show ?thesis using sysm.lock_busy [OF pl u, of t to] l inv u by (auto simp: mx_inv_def)
qed

lemma mx_inv_step: "mx_step K addr s s' \<Longrightarrow> mx_inv owner addr s \<Longrightarrow> mx_inv owner addr s'"
proof (induction rule: mx_step.induct)
  case (lock_inner s t to i)
  with mx_lock_from_out [of s t to i] mx_inv_hold [of addr i owner t MEnter False s]
  show ?case by (cases "ms_mutex s") simp
next
  case (lock_fails s t to e i)
  then show ?case by (blast intro: mx_lock_fails)
next
  case (swap_new s t l)
  with mx_inv_holder [of owner addr s t] mx_inv_hold [of addr "mx_inner (ms_mutex s)" owner t MGuard True s]
  show ?case by (cases "ms_mutex s") (simp add: atomic_swap_def)
next
  case (swap_old s t l b)
  with mx_inv_holder [of owner addr s t] show ?case by (simp add: atomic_swap_def)
next
  case (bounce s t b i)
  with mx_inv_holder [of owner addr s t] show ?case by simp
next
  case (use_data s t f)
  then show ?case by (auto simp: mx_inv_def MutexGuard_deref_mut_def split: option.splits)
next
  case (relock_inner s t to i b)
  with mx_inv_holder [of owner addr s t] mx_relock [of s t to] mx_inv_hold [of addr i owner t "MReenter b" True s]
  show ?case by (cases "ms_mutex s") auto
next
  case (relock_new s t b l)
  with mx_inv_holder [of owner addr s t] show ?case by (simp add: atomic_swap_def)
next
  case (relock_old s t b l)
  with mx_inv_holder [of owner addr s t] mx_inv_hold [of addr "mx_inner (ms_mutex s)" owner t "MRefuse b" True s]
  show ?case by (cases "ms_mutex s") (simp add: atomic_swap_def)
next
  case (refuse s t b i)
  with mx_inv_holder [of owner addr s t] mx_unlock_two [of s t]
    mx_inv_hold [of addr i owner t "if b then MPanicked else MGuard" True s]
  show ?case by (cases "ms_mutex s") auto
next
  case (drop_store s t)
  with mx_inv_holder [of owner addr s t] mx_inv_hold [of addr "mx_inner (ms_mutex s)" owner t MLeave False s]
  show ?case by (cases "ms_mutex s") simp
next
  case (drop_unlock s t i)
  with mx_inv_holder [of owner addr s t] mx_unlock_one [of s t] mx_inv_release [of addr i owner MOut False t s]
  show ?case by (cases "ms_mutex s") auto
next
  case (wait_store s t)
  with mx_inv_holder [of owner addr s t] mx_inv_hold [of addr "mx_inner (ms_mutex s)" owner t MWaitPrep False s]
  show ?case by (cases "ms_mutex s") simp
next
  case (wait_release s t i)
  with mx_inv_holder [of owner addr s t] mx_unlock_one [of s t] mx_inv_release [of addr i owner MWaiting False t s]
  show ?case by (cases "ms_mutex s") auto
next
  case (wait_wake s t i)
  with mx_lock_from_out [of s t K_FOREVER i] mx_inv_hold [of addr i owner t MWoken False s]
  show ?case by (cases "ms_mutex s") simp
next
  case (wait_done s t)
  with mx_inv_holder [of owner addr s t] mx_inv_hold [of addr "mx_inner (ms_mutex s)" owner t MGuard True s]
  show ?case by (cases "ms_mutex s") simp
qed

lemma mx_reach_inv: "mx_reach K addr s \<Longrightarrow> mx_inv owner addr s"
proof (induction rule: mx_reach.induct)
  case (mx_init d)
  then show ?case using sysm.new_free by (simp add: mx_inv_def Mutex_new_def Mutex_new_from_def)
next
  case (mx_more s s')
  then show ?case by (blast intro: mx_inv_step)
qed

lemma Sys_lock_now:
  assumes "zo_placed addr i" and "Sys_Mutex_owner owner i = None"
  obtains i' where "Sys_Mutex_lock K addr t i to = Ret (Ok (), i')" "zo_placed addr i'"
    "Sys_Mutex_owner owner i' = Some (t, 1)"
  using sysm.lock_free [OF assms] by blast

lemma lock_when_free:
  assumes ok: "mx_ok owner addr self" and free: "Sys_Mutex_owner owner (mx_inner self) = None"
  shows "\<exists>self'. Mutex_lock K addr t self = Ret self' \<and> mx_ok owner addr self' \<and>
    Sys_Mutex_owner owner (mx_inner self') = Some (t, 1) \<and> mx_data self' = mx_data self"
    "\<exists>self'. Mutex_try_lock K addr t self = Ret (Ok (), self') \<and> mx_ok owner addr self' \<and>
    Sys_Mutex_owner owner (mx_inner self') = Some (t, 1) \<and> mx_data self' = mx_data self"
proof -
  have pl: "zo_placed addr (mx_inner self)" and l: "\<not> mx_locked self"
    using ok free by (simp_all add: mx_ok_def)
  show "\<exists>self'. Mutex_lock K addr t self = Ret self' \<and> mx_ok owner addr self' \<and>
      Sys_Mutex_owner owner (mx_inner self') = Some (t, 1) \<and> mx_data self' = mx_data self"
    by (rule Sys_lock_now [OF pl free, of t Timeout_from_Forever])
      (simp add: Mutex_lock_def atomic_swap_def l mx_ok_def)
  show "\<exists>self'. Mutex_try_lock K addr t self = Ret (Ok (), self') \<and> mx_ok owner addr self' \<and>
      Sys_Mutex_owner owner (mx_inner self') = Some (t, 1) \<and> mx_data self' = mx_data self"
    by (rule Sys_lock_now [OF pl free, of t Timeout_from_NoWait])
      (simp add: Mutex_try_lock_def atomic_swap_def l mx_ok_def)
qed

lemma lock_when_mine:
  assumes ok: "mx_ok owner addr self" and mine: "Sys_Mutex_owner owner (mx_inner self) = Some (t, 1)"
  shows "Mutex_lock K addr t self = Panic ''cannot recursively lock Mutex''"
    "\<exists>self'. Mutex_try_lock K addr t self = Ret (Err WouldBlock, self') \<and> mx_ok owner addr self' \<and>
      Sys_Mutex_owner owner (mx_inner self') = Some (t, 1) \<and> mx_data self' = mx_data self"
proof -
  have pl: "zo_placed addr (mx_inner self)" and l: "mx_locked self"
    using ok mine by (simp_all add: mx_ok_def)
  have re: "\<exists>i i'. Sys_Mutex_lock K addr t (mx_inner self) to = Ret (Ok (), i) \<and>
      Sys_Mutex_unlock K addr t i = Ret (Ok (), i') \<and> zo_placed addr i' \<and> Sys_Mutex_owner owner i' = Some (t, 1)" for to
  proof -
    obtain i where i: "Sys_Mutex_lock K addr t (mx_inner self) to = Ret (Ok (), i)" "zo_placed addr i"
      "Sys_Mutex_owner owner i = Some (t, 0 + 2)"
      using sysm.lock_again [OF pl mine, of to] by (simp only: one_add_one add_0) auto
    then show ?thesis using sysm.unlock_inner [OF i(2,3)] by simp
  qed
  show "Mutex_lock K addr t self = Panic ''cannot recursively lock Mutex''"
    using re [of Timeout_from_Forever] by (auto simp: Mutex_lock_def atomic_swap_def l)
  show "\<exists>self'. Mutex_try_lock K addr t self = Ret (Err WouldBlock, self') \<and> mx_ok owner addr self' \<and>
      Sys_Mutex_owner owner (mx_inner self') = Some (t, 1) \<and> mx_data self' = mx_data self"
    using re [of Timeout_from_NoWait] by (auto simp: Mutex_try_lock_def atomic_swap_def l mx_ok_def)
qed

lemma lock_when_theirs:
  assumes ok: "mx_ok owner addr self" and u: "Sys_Mutex_owner owner (mx_inner self) = Some (u, 1)" and "u \<noteq> t"
  shows "Mutex_lock K addr t self = Blocked"
    "\<exists>self'. Mutex_try_lock K addr t self = Ret (Err WouldBlock, self') \<and> mx_ok owner addr self' \<and>
      Sys_Mutex_owner owner (mx_inner self') = Some (u, 1) \<and> mx_data self' = mx_data self"
proof -
  have pl: "zo_placed addr (mx_inner self)" and l: "mx_locked self"
    using ok u by (simp_all add: mx_ok_def)
  show "Mutex_lock K addr t self = Blocked"
    using sysm.lock_waits [OF pl u \<open>u \<noteq> t\<close>] by (simp add: Mutex_lock_def Timeout_from_Forever_def)
  have "Timeout_from_NoWait \<noteq> K_FOREVER" by (simp add: Timeout_from_NoWait_def K_FOREVER_iff)
  then show "\<exists>self'. Mutex_try_lock K addr t self = Ret (Err WouldBlock, self') \<and> mx_ok owner addr self' \<and>
      Sys_Mutex_owner owner (mx_inner self') = Some (u, 1) \<and> mx_data self' = mx_data self"
    using sysm.lock_busy [OF pl u \<open>u \<noteq> t\<close>, of Timeout_from_NoWait] u l
    by (auto simp: Mutex_try_lock_def mx_ok_def)
qed

lemma drop_when_mine:
  assumes ok: "mx_ok owner addr self" and mine: "Sys_Mutex_owner owner (mx_inner self) = Some (t, 1)"
  shows "\<exists>self'. MutexGuard_drop K addr t self = Ret self' \<and> mx_ok owner addr self' \<and>
    Sys_Mutex_owner owner (mx_inner self') = None \<and> mx_data self' = mx_data self"
proof -
  have pl: "zo_placed addr (mx_inner self)" using ok by (simp add: mx_ok_def)
  then show ?thesis
    using sysm.unlock_last [OF pl mine] by (auto simp: MutexGuard_drop_def mx_ok_def)
qed

end

section \<open>Properties\<close>

text \<open>
  C4. Threads that share a \<open>Mutex\<close>, through \<open>lock\<close>, \<open>try_lock\<close>, attempts to lock again under a guard,
  drops of guards and waits on a condition variable in any interleaving: at most one thread has a
  guard, it holds the kernel mutex exactly once and the flag is set; no thread that had no guard is
  ever turned away after the kernel lock; and the unlock of a dropped guard succeeds.
\<close>

theorem Mutex_guard_exclusive:
  assumes "zephyr_mutex K owner" and "addr \<noteq> 0" and "mx_reach K addr s"
  shows "(ms_pc s t = MGuard \<and> ms_pc s u = MGuard \<longrightarrow> t = u) \<and>
    (ms_pc s t = MGuard \<longrightarrow>
       Sys_Mutex_owner owner (mx_inner (ms_mutex s)) = Some (t, 1) \<and> mx_locked (ms_mutex s)) \<and>
    ms_pc s t \<noteq> MBounce b \<and>
    (ms_pc s t = MLeave \<longrightarrow> (\<exists>i. Sys_Mutex_unlock K addr t (mx_inner (ms_mutex s)) = Ret (Ok (), i)))"
proof -
  have K: "placed_mutex K owner addr"
    using assms(1,2) by (simp add: placed_mutex_def placed_mutex_axioms_def)
  have inv: "mx_inv owner addr s" by (rule placed_mutex.mx_reach_inv [OF K assms(3)])
  show ?thesis
    using mx_inv_holder [OF inv, of t] placed_mutex.mx_unlock_one [OF K inv, of t]
    by (cases "ms_pc s t") auto
qed

definition demo_mx :: "((tid \<times> nat) option, int) mx_sys" where
  "demo_mx = \<lparr>ms_mutex = \<lparr>mx_inner = \<lparr>zo_state = 64, zo_object = Some (3, 1)\<rparr>, mx_locked = True, mx_data = 5\<rparr>,
     ms_pc = (\<lambda>_. MOut)(3 := MGuard)\<rparr>"

lemma demo_mx_reach: "mx_reach owner_mutex_api 64 demo_mx"
proof -
  let ?s0 = "\<lparr>ms_mutex = Mutex_new owner_mutex_api (5::int), ms_pc = (\<lambda>_. MOut)\<rparr>"
  let ?i = "\<lparr>zo_state = 64, zo_object = Some (3, 1)\<rparr> :: (tid \<times> nat) option Sys_Mutex"
  let ?s1 = "\<lparr>ms_mutex = (ms_mutex ?s0)\<lparr>mx_inner := ?i\<rparr>, ms_pc = (ms_pc ?s0)(3 := MEnter)\<rparr>"
  note defs = Mutex_new_def Mutex_new_from_def Sys_Mutex_new_def ZephyrObject_new_raw_def
  have "mx_step owner_mutex_api 64 ?s0 ?s1"
    by (rule lock_inner [where to = K_FOREVER])
      (simp_all add: defs Sys_Mutex_lock_def ZephyrObject_get_first Sys_Mutex_init_def owner_mutex_api_def)
  then have r1: "mx_reach owner_mutex_api 64 ?s1" by (rule mx_more [OF mx_init])
  have "mx_step owner_mutex_api 64 ?s1 demo_mx"
    using swap_new [of ?s1 3 True owner_mutex_api 64] by (simp add: defs demo_mx_def atomic_swap_def)
  then show ?thesis by (rule mx_more [OF r1])
qed

theorem Mutex_guard_exclusive_witness:
  "ms_pc demo_mx 3 = MGuard \<and> \<not> (\<exists>u. u \<noteq> 3 \<and> ms_pc demo_mx u = MGuard) \<and> mx_locked (ms_mutex demo_mx)"
proof -
  have g: "ms_pc demo_mx 3 = MGuard" by (simp add: demo_mx_def)
  note ex = Mutex_guard_exclusive [OF owner_mutex.zephyr_mutex_axioms _ demo_mx_reach, of 3]
  then show ?thesis using g by fastforce
qed

text \<open>
  \<open>lock\<close> and \<open>try_lock\<close> by thread \<open>t\<close> on every state of a mutex at rest: a free mutex is taken, and
  dropping the guard frees it again with the data as the guard left it; a mutex that \<open>t\<close> itself holds
  makes \<open>lock\<close> panic and \<open>try_lock\<close> answer \<open>WouldBlock\<close> with the hold unchanged; a mutex held by
  another thread makes \<open>lock\<close> wait and \<open>try_lock\<close> answer \<open>WouldBlock\<close>.
\<close>

theorem Mutex_lock_outcomes:
  assumes "zephyr_mutex K owner" and "addr \<noteq> 0" and "mx_ok owner addr self"
  shows "case Sys_Mutex_owner owner (mx_inner self) of
      None \<Rightarrow> (\<exists>self'. Mutex_lock K addr t self = Ret self' \<and> mx_data self' = mx_data self \<and>
          (\<exists>self''. MutexGuard_drop K addr t (MutexGuard_deref_mut self' f) = Ret self'' \<and>
             Sys_Mutex_owner owner (mx_inner self'') = None \<and> mx_ok owner addr self'' \<and>
             mx_data self'' = f (mx_data self))) \<and>
        (\<exists>self'. Mutex_try_lock K addr t self = Ret (Ok (), self') \<and> mx_ok owner addr self' \<and>
           Sys_Mutex_owner owner (mx_inner self') = Some (t, 1))
    | Some (u, n) \<Rightarrow>
        Mutex_lock K addr t self = (if u = t then Panic ''cannot recursively lock Mutex'' else Blocked) \<and>
        (\<exists>self'. Mutex_try_lock K addr t self = Ret (Err WouldBlock, self') \<and> mx_ok owner addr self' \<and>
           Sys_Mutex_owner owner (mx_inner self') = Some (u, n) \<and> mx_data self' = mx_data self)"
proof -
  have K: "placed_mutex K owner addr"
    using assms(1,2) by (simp add: placed_mutex_def placed_mutex_axioms_def)
  show ?thesis
  proof (cases "Sys_Mutex_owner owner (mx_inner self)")
    case None
    note l = placed_mutex.lock_when_free [OF K assms(3) None, of t]
    obtain self' where s: "Mutex_lock K addr t self = Ret self'" "mx_ok owner addr self'"
      "Sys_Mutex_owner owner (mx_inner self') = Some (t, 1)" "mx_data self' = mx_data self"
      using l(1) by blast
    have "mx_ok owner addr (MutexGuard_deref_mut self' f)"
      "Sys_Mutex_owner owner (mx_inner (MutexGuard_deref_mut self' f)) = Some (t, 1)"
      using s by (simp_all add: MutexGuard_deref_mut_def mx_ok_def)
    from placed_mutex.drop_when_mine [OF K this] s l(2) None show ?thesis
      by (auto simp: MutexGuard_deref_mut_def)
  next
    case (Some un)
    moreover obtain u where "un = (u, 1)" using assms(3) Some by (auto simp: mx_ok_def)
    ultimately have u: "Sys_Mutex_owner owner (mx_inner self) = Some (u, 1)" by simp
    show ?thesis
    proof (cases "u = t")
      case True
      with placed_mutex.lock_when_mine [OF K assms(3), of t] u show ?thesis by simp
    next
      case False
      with placed_mutex.lock_when_theirs [OF K assms(3) u] u show ?thesis by simp
    qed
  qed
qed

theorem Mutex_lock_outcomes_witness:
  "Mutex_lock owner_mutex_api 64 3 (ms_mutex demo_mx) = Panic ''cannot recursively lock Mutex'' \<and>
   Mutex_lock owner_mutex_api 64 4 (ms_mutex demo_mx) = Blocked"
proof -
  have "mx_ok (\<lambda>m. m) 64 (ms_mutex demo_mx)"
    by (simp add: mx_ok_def demo_mx_def zo_placed_def Sys_Mutex_owner_def)
  from Mutex_lock_outcomes [OF owner_mutex.zephyr_mutex_axioms _ this, of 3]
    Mutex_lock_outcomes [OF owner_mutex.zephyr_mutex_axioms _ this, of 4]
  show ?thesis by (simp add: demo_mx_def Sys_Mutex_owner_def)
qed

section \<open>\<open>SpinMutex\<close>\<close>

text \<open>
  The kernel's spinlock as a parameter: \<open>Blocked\<close> is a call that still spins, and the key that \<open>lock\<close>
  returns is the one that \<open>unlock\<close> expects.
\<close>

record ('l, 'k) k_spinlock_api =
  ks_zeroed :: 'l
  ks_no_key :: 'k
  k_spin_lock :: "'l \<Rightarrow> ('k \<times> 'l) outcome"
  k_spin_trylock :: "'l \<Rightarrow> c_int \<times> 'k \<times> 'l"
  k_spin_unlock :: "'l \<Rightarrow> 'k \<Rightarrow> 'l"

locale zephyr_spinlock =
  fixes K :: "('l, 'k) k_spinlock_api" and held_key :: "'l \<Rightarrow> 'k option"
  assumes zeroed_free: "held_key (ks_zeroed K) = None"
    and spin_free: "held_key l = None \<Longrightarrow> \<exists>k l'. k_spin_lock K l = Ret (k, l') \<and> held_key l' = Some k"
    and spin_held: "held_key l = Some k \<Longrightarrow> k_spin_lock K l = Blocked"
    and try_free: "held_key l = None \<Longrightarrow> \<exists>k l'. k_spin_trylock K l = (0, k, l') \<and> held_key l' = Some k"
    and try_held: "held_key l = Some k \<Longrightarrow> \<exists>e k' l'. k_spin_trylock K l = (e, k', l') \<and> e \<noteq> 0 \<and> held_key l' = Some k"
    and unlock_key: "held_key l = Some k \<Longrightarrow> held_key (k_spin_unlock K l k) = None"

record ('l, 'a) SpinMutex =
  sp_inner :: 'l
  sp_data :: 'a

datatype SpinTryLockError = SpinWouldBlock

text \<open>A guard is its key.\<close>

definition SpinMutex_new :: "('l, 'k) k_spinlock_api \<Rightarrow> 'a \<Rightarrow> ('l, 'a) SpinMutex" where
  "SpinMutex_new K t = \<lparr>sp_inner = ks_zeroed K, sp_data = t\<rparr>"

definition SpinMutex_lock ::
    "('l, 'k) k_spinlock_api \<Rightarrow> ('l, 'a) SpinMutex \<Rightarrow> ('k \<times> ('l, 'a) SpinMutex) outcome" where
  "SpinMutex_lock K self =
     bind_outcome (k_spin_lock K (sp_inner self)) (\<lambda>(key, l). Ret (key, self\<lparr>sp_inner := l\<rparr>))"

definition SpinMutex_try_lock ::
    "('l, 'k) k_spinlock_api \<Rightarrow> ('l, 'a) SpinMutex \<Rightarrow> ('k, SpinTryLockError) result \<times> ('l, 'a) SpinMutex" where
  "SpinMutex_try_lock K self =
     (let (ret, key, l) = k_spin_trylock K (sp_inner self); self = self\<lparr>sp_inner := l\<rparr>
      in if ret = 0 then (Ok key, self) else (Err SpinWouldBlock, self))"

definition SpinMutexGuard_deref :: "('l, 'a) SpinMutex \<Rightarrow> 'a" where
  "SpinMutexGuard_deref self = sp_data self"

definition SpinMutexGuard_deref_mut :: "('l, 'a) SpinMutex \<Rightarrow> ('a \<Rightarrow> 'a) \<Rightarrow> ('l, 'a) SpinMutex" where
  "SpinMutexGuard_deref_mut self f = self\<lparr>sp_data := f (sp_data self)\<rparr>"

definition SpinMutexGuard_drop :: "('l, 'k) k_spinlock_api \<Rightarrow> ('l, 'a) SpinMutex \<Rightarrow> 'k \<Rightarrow> ('l, 'a) SpinMutex" where
  "SpinMutexGuard_drop K self key = self\<lparr>sp_inner := k_spin_unlock K (sp_inner self) key\<rparr>"

text \<open>
  A \<open>SpinMutex\<close>: while a guard exists, \<open>lock\<close> spins and \<open>try_lock\<close> answers \<open>WouldBlock\<close>; when none
  exists both succeed, and dropping the guard with its key makes the mutex free again with the data as
  the guard left it.
\<close>

theorem SpinMutex_guarded:
  assumes "zephyr_spinlock K held_key"
  shows "case held_key (sp_inner self) of
      Some k \<Rightarrow> SpinMutex_lock K self = Blocked \<and>
        (\<exists>self'. SpinMutex_try_lock K self = (Err SpinWouldBlock, self') \<and>
           held_key (sp_inner self') = Some k \<and> sp_data self' = sp_data self)
    | None \<Rightarrow> (\<exists>k self'. SpinMutex_lock K self = Ret (k, self') \<and> held_key (sp_inner self') = Some k \<and>
          (let self'' = SpinMutexGuard_drop K (SpinMutexGuard_deref_mut self' f) k
           in held_key (sp_inner self'') = None \<and> sp_data self'' = f (sp_data self))) \<and>
        (\<exists>k self'. SpinMutex_try_lock K self = (Ok k, self') \<and> held_key (sp_inner self') = Some k)"
proof (cases "held_key (sp_inner self)")
  case None
  with assms zephyr_spinlock.spin_free [OF assms None] zephyr_spinlock.try_free [OF assms None]
    zephyr_spinlock.unlock_key [OF assms]
  show ?thesis
    by (fastforce simp: SpinMutex_lock_def SpinMutex_try_lock_def SpinMutexGuard_drop_def
        SpinMutexGuard_deref_mut_def)
next
  case (Some k)
  with zephyr_spinlock.spin_held [OF assms Some] zephyr_spinlock.try_held [OF assms Some]
  show ?thesis by (auto simp: SpinMutex_lock_def SpinMutex_try_lock_def)
qed

definition key_spinlock_api :: "(nat option, nat) k_spinlock_api" where
  "key_spinlock_api = \<lparr>ks_zeroed = None, ks_no_key = 0,
     k_spin_lock = (\<lambda>l. case l of None \<Rightarrow> Ret (7, Some 7) | Some _ \<Rightarrow> Blocked),
     k_spin_trylock = (\<lambda>l. case l of None \<Rightarrow> (0, 7, Some 7) | Some _ \<Rightarrow> (- 16, 0, l)),
     k_spin_unlock = (\<lambda>l k. if l = Some k then None else l)\<rparr>"

interpretation key_spin: zephyr_spinlock key_spinlock_api "\<lambda>l. l"
  by unfold_locales (auto simp: key_spinlock_api_def)

theorem SpinMutex_guarded_witness:
  "\<exists>k self'. SpinMutex_lock key_spinlock_api (SpinMutex_new key_spinlock_api (4::nat)) = Ret (k, self') \<and>
     sp_inner self' = Some k"
  using SpinMutex_guarded [OF key_spin.zephyr_spinlock_axioms, of "SpinMutex_new key_spinlock_api (4::nat)" id]
  by (auto simp: SpinMutex_new_def key_spinlock_api_def)

end
