(* ===== verification/Blocking.thy ===== *)
theory Blocking
  imports Sys_Queue
begin

text \<open>
  \<open>zephyr/src/blocking.rs\<close>: the pool of worker threads that runs blocking closures for asynchronous
  tasks. Futures, workers and the fixed pool of slots are one state; the step relation \<open>bp_step\<close>
  has one rule for each access that another thread can observe: the atomic operations on a slot's
  state, the accesses under a slot's spinlock, the operations of the shared queue, the scan for a
  free slot under the lock of the waiters, and the calls of wakers. The queue's operations are
  arguments, used through the contract \<open>fifo\<close>, which a placed \<open>Queue\<close> provides.
\<close>

section \<open>Slots\<close>

datatype SlotState = Free | Claimed | Queued | Done | Orphaned

text \<open>Who holds a slot's lock: the future that cancels, or a worker.\<close>

datatype holder = LF nat | LW nat

text \<open>
  A slot: its lock, its state, the future whose \<open>Shared\<close> it points to, whether a runner is set, and the
  task its waker wakes. Slots are named by their address, which is what the queue carries.
\<close>

record Slot =
  sl_lock :: "holder option"
  sl_state :: SlotState
  sl_shared :: "nat option"
  sl_runner :: bool
  sl_waker :: "nat option"

definition Slot_new :: Slot where
  "Slot_new = \<lparr>sl_lock = None, sl_state = Free, sl_shared = None, sl_runner = False, sl_waker = None\<rparr>"

text \<open>One attempt of \<open>SlotPool::claim\<close>, and the store of \<open>SlotPool::release\<close>.\<close>

definition claim_cas :: "Slot \<Rightarrow> bool \<times> Slot" where
  "claim_cas slot = (if sl_state slot = Free then (True, slot\<lparr>sl_state := Claimed\<rparr>) else (False, slot))"

definition release_store :: "Slot \<Rightarrow> Slot" where
  "release_store slot = slot\<lparr>sl_state := Free\<rparr>"

text \<open>The parts of \<open>poll\<close> that touch the slot.\<close>

definition poll_register :: "nat \<Rightarrow> Slot \<Rightarrow> Slot" where
  "poll_register f slot = slot\<lparr>sl_waker := Some f\<rparr>"

definition poll_wire :: "nat \<Rightarrow> Slot \<Rightarrow> Slot" where
  "poll_wire f slot = slot\<lparr>sl_waker := Some f, sl_shared := Some f, sl_runner := True\<rparr>"

definition poll_publish :: "Slot \<Rightarrow> Slot" where
  "poll_publish slot = slot\<lparr>sl_state := Queued\<rparr>"

text \<open>The two stores of \<open>cancel\<close> under the lock.\<close>

definition cancel_null :: "Slot \<Rightarrow> Slot" where
  "cancel_null slot = slot\<lparr>sl_shared := None\<rparr>"

definition cancel_orphan :: "Slot \<Rightarrow> Slot" where
  "cancel_orphan slot = slot\<lparr>sl_state := Orphaned\<rparr>"

text \<open>
  The accesses of \<open>run_op\<close> to the future's memory through the slot: taking the closure out, and writing
  the result. A null pointer here is undefined behaviour.
\<close>

definition run_op_take ::
    "Slot \<Rightarrow> (nat \<Rightarrow> 'v option) \<Rightarrow> ((nat \<times> 'v option) \<times> (nat \<Rightarrow> 'v option)) outcome" where
  "run_op_take slot ops = (case sl_shared slot of
     None \<Rightarrow> UB
   | Some f \<Rightarrow> Ret ((f, ops f), ops(f := None)))"

definition run_op_write :: "Slot \<Rightarrow> 'r \<Rightarrow> (nat \<Rightarrow> 'r option) \<Rightarrow> (nat \<Rightarrow> 'r option) outcome" where
  "run_op_write slot r results = (case sl_shared slot of
     None \<Rightarrow> UB
   | Some f \<Rightarrow> Ret (results(f := Some r)))"

definition run_op_done :: "Slot \<Rightarrow> Slot" where
  "run_op_done slot = slot\<lparr>sl_state := Done\<rparr>"

definition lock_slot :: "holder \<Rightarrow> Slot \<Rightarrow> Slot" where
  "lock_slot h slot = slot\<lparr>sl_lock := Some h\<rparr>"

definition unlock_slot :: "Slot \<Rightarrow> Slot" where
  "unlock_slot slot = slot\<lparr>sl_lock := None\<rparr>"

text \<open>\<open>AtomicWaker::wake\<close> takes the registered waker.\<close>

definition wake_slot :: "Slot \<Rightarrow> Slot" where
  "wake_slot slot = slot\<lparr>sl_waker := None\<rparr>"

section \<open>Futures and workers\<close>

text \<open>
  A future before it has a slot, in \<open>claim\<close> at the \<open>n\<close>-th slot, with a claimed slot, with the slot wired
  up, published and not yet sent; between polls; in a later \<open>poll\<close> past the registration of the waker;
  about to take the result; in \<open>release\<close> before and after the store (with the result, or without one
  when the future is dropped); in \<open>cancel\<close> before \<open>remove\<close>, before the lock, under the lock, past the
  load, past the first and past the second store (the flag says orphaned); finished; dropped.
\<close>

datatype 'r fpc = FNew | FScan nat | FClaimed ptr | FWired ptr | FSend ptr
  | FWait ptr | FPolled ptr | FTake ptr | FRelease ptr "'r option" | FWakeAll "'r option"
  | FDrop ptr | FCancel ptr | FLocked ptr | FNotDone ptr | FNulled ptr | FUnlock ptr bool
  | FReady 'r | FGone

text \<open>
  A worker that waits for the queue, with a slot, under the lock, past the load of the state; with the
  closure of a future taken (still locked), with none (still locked), running it, with its result;
  under the lock again, past the load, past the write of the result, past the store of \<open>Done\<close>; with a
  result nobody wants; about to wake the future; in \<open>release\<close> before and after the store.
\<close>

datatype ('v, 'r) wpc = WIdle | WGot ptr | WLocked1 ptr | WLive1 ptr | WTook ptr nat 'v | WNone ptr
  | WRun ptr nat 'v | WRan ptr nat 'r | WLocked2 ptr nat 'r | WLive2 ptr nat 'r | WWritten ptr nat
  | WDone ptr | WOrphan ptr | WWake ptr | WRelease ptr | WWakeAll

text \<open>
  The whole state. \<open>bp_op\<close> and \<open>bp_result\<close> are the fields of each future's \<open>Shared\<close>, \<open>bp_woken\<close> the tasks
  that the executor will poll, and \<open>bp_runs\<close> counts how often the closure of a future was called.
\<close>

record ('s, 'v, 'r) bpool =
  bp_slots :: "ptr \<Rightarrow> Slot"
  bp_queue :: 's
  bp_op :: "nat \<Rightarrow> 'v option"
  bp_result :: "nat \<Rightarrow> 'r option"
  bp_fpc :: "nat \<Rightarrow> 'r fpc"
  bp_wpc :: "nat \<Rightarrow> ('v, 'r) wpc"
  bp_wait_lock :: "nat option"
  bp_waiters :: "nat set"
  bp_woken :: "nat set"
  bp_runs :: "nat \<Rightarrow> nat"

text \<open>The update of one slot together with the place of a future or of a worker.\<close>

definition fgo :: "nat \<Rightarrow> 'r fpc \<Rightarrow> ('s, 'v, 'r) bpool \<Rightarrow> ('s, 'v, 'r) bpool" where
  "fgo f c s = s\<lparr>bp_fpc := (bp_fpc s)(f := c)\<rparr>"

definition wgo :: "nat \<Rightarrow> ('v, 'r) wpc \<Rightarrow> ('s, 'v, 'r) bpool \<Rightarrow> ('s, 'v, 'r) bpool" where
  "wgo w c s = s\<lparr>bp_wpc := (bp_wpc s)(w := c)\<rparr>"

definition on_slot :: "ptr \<Rightarrow> (Slot \<Rightarrow> Slot) \<Rightarrow> ('s, 'v, 'r) bpool \<Rightarrow> ('s, 'v, 'r) bpool" where
  "on_slot p g s = s\<lparr>bp_slots := (bp_slots s)(p := g (bp_slots s p))\<rparr>"

text \<open>
  Registering a waiter when the table is full wakes the tasks it evicts; \<open>W\<close> is what the table holds
  afterwards. Waking all waiters empties the table.
\<close>

definition register_waiter :: "nat \<Rightarrow> nat set \<Rightarrow> ('s, 'v, 'r) bpool \<Rightarrow> ('s, 'v, 'r) bpool" where
  "register_waiter f W s = s\<lparr>bp_waiters := W, bp_woken := bp_woken s \<union> (bp_waiters s - W)\<rparr>"

definition wake_waiters :: "('s, 'v, 'r) bpool \<Rightarrow> ('s, 'v, 'r) bpool" where
  "wake_waiters s = s\<lparr>bp_waiters := {}, bp_woken := bp_woken s \<union> bp_waiters s\<rparr>"

definition wake_task :: "nat option \<Rightarrow> ('s, 'v, 'r) bpool \<Rightarrow> ('s, 'v, 'r) bpool" where
  "wake_task t s = (case t of None \<Rightarrow> s | Some f \<Rightarrow> s\<lparr>bp_woken := insert f (bp_woken s)\<rparr>)"

section \<open>Steps\<close>

text \<open>Polling a future: \<open>BlockingFuture::poll\<close> with \<open>SlotPool::claim\<close> and \<open>SlotPool::release\<close>.\<close>

inductive poll_step ::
    "('s \<Rightarrow> ptr \<Rightarrow> 's outcome) \<Rightarrow> ptr list \<Rightarrow> nat \<Rightarrow> ('s, 'v, 'r) bpool \<Rightarrow> ('s, 'v, 'r) bpool \<Rightarrow> bool"
  for send pool f where
  claim_lock: "bp_fpc s f = FNew \<Longrightarrow> bp_wait_lock s = None \<Longrightarrow>
     poll_step send pool f s (fgo f (FScan 0) (s\<lparr>bp_wait_lock := Some f, bp_woken := bp_woken s - {f}\<rparr>))"
| claim_hit: "bp_fpc s f = FScan n \<Longrightarrow> n < length pool \<Longrightarrow> claim_cas (bp_slots s (pool ! n)) = (True, slot) \<Longrightarrow>
     poll_step send pool f s
       (fgo f (FClaimed (pool ! n)) (on_slot (pool ! n) (\<lambda>_. slot) (s\<lparr>bp_wait_lock := None\<rparr>)))"
| claim_miss: "bp_fpc s f = FScan n \<Longrightarrow> n < length pool \<Longrightarrow> claim_cas (bp_slots s (pool ! n)) = (False, slot) \<Longrightarrow>
     poll_step send pool f s (fgo f (FScan (Suc n)) (on_slot (pool ! n) (\<lambda>_. slot) s))"
| claim_none: "bp_fpc s f = FScan n \<Longrightarrow> \<not> n < length pool \<Longrightarrow> f \<in> W \<Longrightarrow> W \<subseteq> insert f (bp_waiters s) \<Longrightarrow>
     poll_step send pool f s (fgo f FNew (register_waiter f W (s\<lparr>bp_wait_lock := None\<rparr>)))"
| wire: "bp_fpc s f = FClaimed p \<Longrightarrow> poll_step send pool f s (fgo f (FWired p) (on_slot p (poll_wire f) s))"
| publish: "bp_fpc s f = FWired p \<Longrightarrow> poll_step send pool f s (fgo f (FSend p) (on_slot p poll_publish s))"
| send_slot: "bp_fpc s f = FSend p \<Longrightarrow> send (bp_queue s) p = Ret q \<Longrightarrow>
     poll_step send pool f s (fgo f (FWait p) (s\<lparr>bp_queue := q\<rparr>))"
| repoll: "bp_fpc s f = FWait p \<Longrightarrow>
     poll_step send pool f s (fgo f (FPolled p) (on_slot p (poll_register f) (s\<lparr>bp_woken := bp_woken s - {f}\<rparr>)))"
| see_done: "bp_fpc s f = FPolled p \<Longrightarrow> sl_state (bp_slots s p) = Done \<Longrightarrow> poll_step send pool f s (fgo f (FTake p) s)"
| see_pending: "bp_fpc s f = FPolled p \<Longrightarrow> sl_state (bp_slots s p) \<noteq> Done \<Longrightarrow> poll_step send pool f s (fgo f (FWait p) s)"
| take_result: "bp_fpc s f = FTake p \<Longrightarrow>
     expect ''Blocking slot reported Done without a result'' (bp_result s f) = Ret r \<Longrightarrow>
     poll_step send pool f s (fgo f (FRelease p (Some r)) (s\<lparr>bp_result := (bp_result s)(f := None)\<rparr>))"
| release_slot: "bp_fpc s f = FRelease p r \<Longrightarrow>
     poll_step send pool f s (fgo f (FWakeAll r) (on_slot p release_store s))"
| release_wake: "bp_fpc s f = FWakeAll r \<Longrightarrow> bp_wait_lock s = None \<Longrightarrow>
     poll_step send pool f s (fgo f (case r of Some x \<Rightarrow> FReady x | None \<Rightarrow> FGone) (wake_waiters s))"

text \<open>Dropping a future: \<open>Drop for BlockingFuture\<close> and its \<open>cancel\<close>.\<close>

inductive drop_step ::
    "('s \<Rightarrow> ptr \<Rightarrow> (bool \<times> 's) outcome) \<Rightarrow> nat \<Rightarrow> ('s, 'v, 'r) bpool \<Rightarrow> ('s, 'v, 'r) bpool \<Rightarrow> bool"
  for remove f where
  drop_new: "bp_fpc s f = FNew \<Longrightarrow> drop_step remove f s (fgo f FGone s)"
| drop_ready: "bp_fpc s f = FReady r \<Longrightarrow> drop_step remove f s (fgo f FGone s)"
| drop_waiting: "bp_fpc s f = FWait p \<Longrightarrow> drop_step remove f s (fgo f (FDrop p) s)"
| cancel_removed: "bp_fpc s f = FDrop p \<Longrightarrow> remove (bp_queue s) p = Ret (True, q) \<Longrightarrow>
     drop_step remove f s (fgo f (FRelease p None) (s\<lparr>bp_queue := q\<rparr>))"
| cancel_late: "bp_fpc s f = FDrop p \<Longrightarrow> remove (bp_queue s) p = Ret (False, q) \<Longrightarrow>
     drop_step remove f s (fgo f (FCancel p) (s\<lparr>bp_queue := q\<rparr>))"
| cancel_lock: "bp_fpc s f = FCancel p \<Longrightarrow> sl_lock (bp_slots s p) = None \<Longrightarrow>
     drop_step remove f s (fgo f (FLocked p) (on_slot p (lock_slot (LF f)) s))"
| cancel_done: "bp_fpc s f = FLocked p \<Longrightarrow> sl_state (bp_slots s p) = Done \<Longrightarrow>
     drop_step remove f s (fgo f (FUnlock p False) s)"
| cancel_live: "bp_fpc s f = FLocked p \<Longrightarrow> sl_state (bp_slots s p) \<noteq> Done \<Longrightarrow>
     drop_step remove f s (fgo f (FNotDone p) s)"
| cancel_clear: "bp_fpc s f = FNotDone p \<Longrightarrow> drop_step remove f s (fgo f (FNulled p) (on_slot p cancel_null s))"
| cancel_store: "bp_fpc s f = FNulled p \<Longrightarrow> drop_step remove f s (fgo f (FUnlock p True) (on_slot p cancel_orphan s))"
| cancel_unlock: "bp_fpc s f = FUnlock p orphaned \<Longrightarrow>
     drop_step remove f s (fgo f (if orphaned then FGone else FRelease p None) (on_slot p unlock_slot s))"

text \<open>A worker: the loop of \<open>worker\<close> and \<open>run_op\<close>; \<open>exec\<close> is what calling a closure returns.\<close>

inductive worker_step ::
    "('s \<Rightarrow> k_timeout_t \<Rightarrow> (ptr \<times> 's) outcome) \<Rightarrow> ('v \<Rightarrow> 'r) \<Rightarrow> nat \<Rightarrow>
     ('s, 'v, 'r) bpool \<Rightarrow> ('s, 'v, 'r) bpool \<Rightarrow> bool"
  for recv exec w where
  dequeue: "bp_wpc s w = WIdle \<Longrightarrow> recv (bp_queue s) Timeout_from_Forever = Ret (p, q) \<Longrightarrow>
     worker_step recv exec w s (wgo w (WGot p) (s\<lparr>bp_queue := q\<rparr>))"
| lock1: "bp_wpc s w = WGot p \<Longrightarrow> sl_runner (bp_slots s p) \<Longrightarrow> sl_lock (bp_slots s p) = None \<Longrightarrow>
     worker_step recv exec w s (wgo w (WLocked1 p) (on_slot p (lock_slot (LW w)) s))"
| load1_orphaned: "bp_wpc s w = WLocked1 p \<Longrightarrow> sl_state (bp_slots s p) = Orphaned \<Longrightarrow>
     worker_step recv exec w s (wgo w (WNone p) s)"
| load1_live: "bp_wpc s w = WLocked1 p \<Longrightarrow> sl_state (bp_slots s p) \<noteq> Orphaned \<Longrightarrow>
     worker_step recv exec w s (wgo w (WLive1 p) s)"
| take_op: "bp_wpc s w = WLive1 p \<Longrightarrow> run_op_take (bp_slots s p) (bp_op s) = Ret ((f, Some v), ops) \<Longrightarrow>
     worker_step recv exec w s (wgo w (WTook p f v) (s\<lparr>bp_op := ops\<rparr>))"
| take_nothing: "bp_wpc s w = WLive1 p \<Longrightarrow> run_op_take (bp_slots s p) (bp_op s) = Ret ((f, None), ops) \<Longrightarrow>
     worker_step recv exec w s (wgo w (WNone p) (s\<lparr>bp_op := ops\<rparr>))"
| unlock1_none: "bp_wpc s w = WNone p \<Longrightarrow>
     worker_step recv exec w s (wgo w (WRelease p) (on_slot p unlock_slot s))"
| unlock1_op: "bp_wpc s w = WTook p f v \<Longrightarrow>
     worker_step recv exec w s (wgo w (WRun p f v) (on_slot p unlock_slot s))"
| call_op: "bp_wpc s w = WRun p f v \<Longrightarrow>
     worker_step recv exec w s (wgo w (WRan p f (exec v)) (s\<lparr>bp_runs := (bp_runs s)(f := Suc (bp_runs s f))\<rparr>))"
| lock2: "bp_wpc s w = WRan p f r \<Longrightarrow> sl_lock (bp_slots s p) = None \<Longrightarrow>
     worker_step recv exec w s (wgo w (WLocked2 p f r) (on_slot p (lock_slot (LW w)) s))"
| load2_orphaned: "bp_wpc s w = WLocked2 p f r \<Longrightarrow> sl_state (bp_slots s p) = Orphaned \<Longrightarrow>
     worker_step recv exec w s (wgo w (WOrphan p) s)"
| load2_live: "bp_wpc s w = WLocked2 p f r \<Longrightarrow> sl_state (bp_slots s p) \<noteq> Orphaned \<Longrightarrow>
     worker_step recv exec w s (wgo w (WLive2 p f r) s)"
| write_result: "bp_wpc s w = WLive2 p f r \<Longrightarrow> run_op_write (bp_slots s p) r (bp_result s) = Ret res \<Longrightarrow>
     worker_step recv exec w s (wgo w (WWritten p f) (s\<lparr>bp_result := res\<rparr>))"
| store_done: "bp_wpc s w = WWritten p f \<Longrightarrow>
     worker_step recv exec w s (wgo w (WDone p) (on_slot p run_op_done s))"
| unlock2_done: "bp_wpc s w = WDone p \<Longrightarrow> worker_step recv exec w s (wgo w (WWake p) (on_slot p unlock_slot s))"
| unlock2_orphan: "bp_wpc s w = WOrphan p \<Longrightarrow> worker_step recv exec w s (wgo w (WRelease p) (on_slot p unlock_slot s))"
| wake_future: "bp_wpc s w = WWake p \<Longrightarrow>
     worker_step recv exec w s (wgo w WIdle (wake_task (sl_waker (bp_slots s p)) (on_slot p wake_slot s)))"
| worker_release: "bp_wpc s w = WRelease p \<Longrightarrow>
     worker_step recv exec w s (wgo w WWakeAll (on_slot p release_store s))"
| worker_wake: "bp_wpc s w = WWakeAll \<Longrightarrow> bp_wait_lock s = None \<Longrightarrow>
     worker_step recv exec w s (wgo w WIdle (wake_waiters s))"

inductive bp_step ::
    "('s \<Rightarrow> ptr \<Rightarrow> 's outcome) \<Rightarrow> ('s \<Rightarrow> k_timeout_t \<Rightarrow> (ptr \<times> 's) outcome) \<Rightarrow> ('s \<Rightarrow> ptr \<Rightarrow> (bool \<times> 's) outcome) \<Rightarrow>
     ptr list \<Rightarrow> ('v \<Rightarrow> 'r) \<Rightarrow> ('s, 'v, 'r) bpool \<Rightarrow> ('s, 'v, 'r) bpool \<Rightarrow> bool"
  for send recv remove pool exec where
  by_poll: "poll_step send pool f s s' \<Longrightarrow> bp_step send recv remove pool exec s s'"
| by_drop: "drop_step remove f s s' \<Longrightarrow> bp_step send recv remove pool exec s s'"
| by_worker: "worker_step recv exec w s s' \<Longrightarrow> bp_step send recv remove pool exec s s'"

text \<open>Future \<open>f\<close> starts with the closure \<open>fn f\<close> and is polled first by its executor.\<close>

definition bp_start :: "'s \<Rightarrow> (nat \<Rightarrow> 'v) \<Rightarrow> ('s, 'v, 'r) bpool" where
  "bp_start q fn = \<lparr>bp_slots = (\<lambda>_. Slot_new), bp_queue = q, bp_op = (\<lambda>f. Some (fn f)),
     bp_result = (\<lambda>_. None), bp_fpc = (\<lambda>_. FNew), bp_wpc = (\<lambda>_. WIdle), bp_wait_lock = None,
     bp_waiters = {}, bp_woken = UNIV, bp_runs = (\<lambda>_. 0)\<rparr>"

inductive bp_reach for send recv remove pool exec q fn where
  bp_init: "bp_reach send recv remove pool exec q fn (bp_start q fn)"
| bp_more: "bp_reach send recv remove pool exec q fn s \<Longrightarrow> bp_step send recv remove pool exec s s' \<Longrightarrow>
     bp_reach send recv remove pool exec q fn s'"

section \<open>The invariant\<close>

text \<open>The slot that a future or a worker is responsible for, and the future whose closure a worker has.\<close>

fun fref :: "'r fpc \<Rightarrow> ptr option" where
  "fref (FClaimed p) = Some p" | "fref (FWired p) = Some p" | "fref (FSend p) = Some p"
| "fref (FWait p) = Some p" | "fref (FPolled p) = Some p" | "fref (FTake p) = Some p"
| "fref (FRelease p r) = Some p" | "fref (FDrop p) = Some p" | "fref (FCancel p) = Some p"
| "fref (FLocked p) = Some p" | "fref (FNotDone p) = Some p" | "fref (FNulled p) = Some p"
| "fref (FUnlock p orphaned) = (if orphaned then None else Some p)" | "fref _ = None"

fun wref :: "('v, 'r) wpc \<Rightarrow> ptr option" where
  "wref (WGot p) = Some p" | "wref (WLocked1 p) = Some p" | "wref (WLive1 p) = Some p"
| "wref (WTook p f v) = Some p" | "wref (WNone p) = Some p" | "wref (WRun p f v) = Some p"
| "wref (WRan p f r) = Some p" | "wref (WLocked2 p f r) = Some p" | "wref (WLive2 p f r) = Some p"
| "wref (WWritten p f) = Some p" | "wref (WOrphan p) = Some p" | "wref (WRelease p) = Some p"
| "wref _ = None"

fun wfut :: "('v, 'r) wpc \<Rightarrow> nat option" where
  "wfut (WTook p f v) = Some f" | "wfut (WRun p f v) = Some f" | "wfut (WRan p f r) = Some f"
| "wfut (WLocked2 p f r) = Some f" | "wfut (WLive2 p f r) = Some f" | "wfut (WWritten p f) = Some f"
| "wfut _ = None"

text \<open>The slot whose lock a future or a worker holds.\<close>

fun flock :: "'r fpc \<Rightarrow> ptr option" where
  "flock (FLocked p) = Some p" | "flock (FNotDone p) = Some p" | "flock (FNulled p) = Some p"
| "flock (FUnlock p b) = Some p" | "flock _ = None"

fun wlock :: "('v, 'r) wpc \<Rightarrow> ptr option" where
  "wlock (WLocked1 p) = Some p" | "wlock (WLive1 p) = Some p" | "wlock (WTook p f v) = Some p"
| "wlock (WNone p) = Some p" | "wlock (WLocked2 p f r) = Some p" | "wlock (WLive2 p f r) = Some p"
| "wlock (WWritten p f) = Some p" | "wlock (WDone p) = Some p" | "wlock (WOrphan p) = Some p"
| "wlock _ = None"

definition fmap :: "('s, 'v, 'r) bpool \<Rightarrow> nat \<rightharpoonup> ptr" where "fmap s = fref \<circ> bp_fpc s"
definition wmap :: "('s, 'v, 'r) bpool \<Rightarrow> nat \<rightharpoonup> ptr" where "wmap s = wref \<circ> bp_wpc s"
definition gmap :: "('s, 'v, 'r) bpool \<Rightarrow> nat \<rightharpoonup> nat" where "gmap s = wfut \<circ> bp_wpc s"

definition inv_refs :: "('s \<Rightarrow> ptr list) \<Rightarrow> ptr list \<Rightarrow> ('s, 'v, 'r) bpool \<Rightarrow> bool" where
  "inv_refs items pool s \<longleftrightarrow> exclusive (fmap s) \<and> exclusive (wmap s) \<and> exclusive (gmap s) \<and>
     distinct (items (bp_queue s)) \<and> set (items (bp_queue s)) \<subseteq> set pool \<and> ran (fmap s) \<subseteq> set pool \<and>
     ran (wmap s) \<subseteq> set pool \<and> set (items (bp_queue s)) \<inter> ran (wmap s) = {}"

fun slot_ok :: "SlotState \<Rightarrow> bool \<Rightarrow> bool \<Rightarrow> bool \<Rightarrow> bool" where
  "slot_ok Free own inw inq \<longleftrightarrow> \<not> own \<and> \<not> inw \<and> \<not> inq"
| "slot_ok Orphaned own inw inq \<longleftrightarrow> \<not> own \<and> inw"
| "slot_ok _ own inw inq \<longleftrightarrow> own"

lemma slot_ok_dequeue: "slot_ok st own inw True \<Longrightarrow> slot_ok st own True False"
  by (cases st) auto

definition inv_slot :: "('s \<Rightarrow> ptr list) \<Rightarrow> ptr list \<Rightarrow> ('s, 'v, 'r) bpool \<Rightarrow> bool" where
  "inv_slot items pool s \<longleftrightarrow> (\<forall>p \<in> set pool. slot_ok (sl_state (bp_slots s p)) (p \<in> ran (fmap s))
     (p \<in> ran (wmap s)) (p \<in> set (items (bp_queue s))))"

definition inv_lock :: "('s, 'v, 'r) bpool \<Rightarrow> bool" where
  "inv_lock s \<longleftrightarrow>
     (\<forall>f p. flock (bp_fpc s f) = Some p \<longrightarrow> sl_lock (bp_slots s p) = Some (LF f)) \<and>
     (\<forall>w p. wlock (bp_wpc s w) = Some p \<longrightarrow> sl_lock (bp_slots s p) = Some (LW w))"

text \<open>
  What holds of a future with slot \<open>slot\<close>, given whether the slot is in the queue and whether a worker
  has it, the closure and the result. A waiting future's slot is queued, with a worker, or done.
\<close>

fun fok :: "'r fpc \<Rightarrow> nat \<Rightarrow> Slot \<Rightarrow> bool \<Rightarrow> bool \<Rightarrow> bool \<Rightarrow> bool \<Rightarrow> bool" where
  "fok (FClaimed p) f slot inq inw opn res \<longleftrightarrow> sl_state slot = Claimed \<and> \<not> inq \<and> \<not> inw \<and> opn"
| "fok (FWired p) f slot inq inw opn res \<longleftrightarrow>
     sl_state slot = Claimed \<and> sl_shared slot = Some f \<and> sl_runner slot \<and> \<not> inq \<and> \<not> inw \<and> opn"
| "fok (FSend p) f slot inq inw opn res \<longleftrightarrow>
     sl_state slot = Queued \<and> sl_shared slot = Some f \<and> sl_runner slot \<and> \<not> inq \<and> \<not> inw \<and> opn"
| "fok (FNotDone p) f slot inq inw opn res \<longleftrightarrow>
     sl_state slot = Queued \<and> sl_shared slot = Some f \<and> \<not> inq \<and> inw"
| "fok (FNulled p) f slot inq inw opn res \<longleftrightarrow> sl_state slot = Queued \<and> \<not> inq \<and> inw"
| "fok (FUnlock p b) f slot inq inw opn res \<longleftrightarrow> sl_state slot = Done \<and> \<not> inq \<and> \<not> inw"
| "fok (FTake p) f slot inq inw opn res \<longleftrightarrow> sl_state slot = Done \<and> \<not> inq \<and> \<not> inw \<and> res"
| "fok (FRelease p r) f slot inq inw opn res \<longleftrightarrow> \<not> inq \<and> \<not> inw \<and> sl_state slot \<in> {Queued, Done}"
| "fok (FCancel p) f slot inq inw opn res \<longleftrightarrow> \<not> inq \<and>
     (sl_state slot = Queued \<and> sl_shared slot = Some f \<and> inw \<or> sl_state slot = Done \<and> \<not> inw \<and> res)"
| "fok (FLocked p) f slot inq inw opn res \<longleftrightarrow> \<not> inq \<and>
     (sl_state slot = Queued \<and> sl_shared slot = Some f \<and> inw \<or> sl_state slot = Done \<and> \<not> inw \<and> res)"
| "fok _ f slot inq inw opn res \<longleftrightarrow>
     sl_state slot = Queued \<and> sl_shared slot = Some f \<and> sl_runner slot \<and> inq \<noteq> inw \<and> (inq \<longrightarrow> opn) \<or>
     sl_state slot = Done \<and> \<not> inq \<and> \<not> inw \<and> res"

lemma fok_lock [simp]:
  "fok c f (slot\<lparr>sl_lock := l\<rparr>) inq inw opn res = fok c f slot inq inw opn res"
  "fok c f (slot\<lparr>sl_waker := k\<rparr>) inq inw opn res = fok c f slot inq inw opn res"
  by (cases c; simp)+

definition inv_fut :: "('s \<Rightarrow> ptr list) \<Rightarrow> (nat \<Rightarrow> 'v) \<Rightarrow> ('s, 'v, 'r) bpool \<Rightarrow> bool" where
  "inv_fut items fn s \<longleftrightarrow> (\<forall>f p. fmap s f = Some p \<longrightarrow>
     fok (bp_fpc s f) f (bp_slots s p) (p \<in> set (items (bp_queue s))) (p \<in> ran (wmap s))
       (bp_op s f = Some (fn f)) (bp_result s f \<noteq> None))"

definition owner_op :: "(nat \<Rightarrow> 'v) \<Rightarrow> ('s, 'v, 'r) bpool \<Rightarrow> ptr \<Rightarrow> bool" where
  "owner_op fn s p \<longleftrightarrow> (sl_state (bp_slots s p) = Queued \<longrightarrow> (\<forall>f. fmap s f = Some p \<longrightarrow> bp_op s f = Some (fn f)))"

definition owner_is :: "('s, 'v, 'r) bpool \<Rightarrow> ptr \<Rightarrow> nat \<Rightarrow> bool" where
  "owner_is s p f \<longleftrightarrow> (sl_state (bp_slots s p) = Queued \<longrightarrow> fmap s f = Some p)"

fun wok :: "('v, 'r) wpc \<Rightarrow> (nat \<Rightarrow> 'v) \<Rightarrow> ('v \<Rightarrow> 'r) \<Rightarrow> ('s, 'v, 'r) bpool \<Rightarrow> bool" where
  "wok (WGot p) fn exec s \<longleftrightarrow> sl_state (bp_slots s p) \<in> {Queued, Orphaned} \<and> owner_op fn s p"
| "wok (WLocked1 p) fn exec s \<longleftrightarrow> sl_state (bp_slots s p) \<in> {Queued, Orphaned} \<and> owner_op fn s p"
| "wok (WLive1 p) fn exec s \<longleftrightarrow> sl_state (bp_slots s p) = Queued \<and> owner_op fn s p"
| "wok (WTook p f v) fn exec s \<longleftrightarrow> sl_state (bp_slots s p) \<in> {Queued, Orphaned} \<and> owner_is s p f \<and>
     bp_op s f = None \<and> v = fn f \<and> bp_runs s f = 0"
| "wok (WRun p f v) fn exec s \<longleftrightarrow> sl_state (bp_slots s p) \<in> {Queued, Orphaned} \<and> owner_is s p f \<and>
     bp_op s f = None \<and> v = fn f \<and> bp_runs s f = 0"
| "wok (WRan p f r) fn exec s \<longleftrightarrow> sl_state (bp_slots s p) \<in> {Queued, Orphaned} \<and> owner_is s p f \<and>
     bp_op s f = None \<and> r = exec (fn f) \<and> bp_runs s f = 1"
| "wok (WLocked2 p f r) fn exec s \<longleftrightarrow> sl_state (bp_slots s p) \<in> {Queued, Orphaned} \<and> owner_is s p f \<and>
     bp_op s f = None \<and> r = exec (fn f) \<and> bp_runs s f = 1"
| "wok (WLive2 p f r) fn exec s \<longleftrightarrow> sl_state (bp_slots s p) = Queued \<and> owner_is s p f \<and>
     bp_op s f = None \<and> r = exec (fn f) \<and> bp_runs s f = 1"
| "wok (WWritten p f) fn exec s \<longleftrightarrow> sl_state (bp_slots s p) = Queued \<and> owner_is s p f \<and>
     bp_op s f = None \<and> bp_result s f \<noteq> None \<and> bp_runs s f = 1"
| "wok (WNone p) fn exec s \<longleftrightarrow> sl_state (bp_slots s p) = Orphaned"
| "wok (WOrphan p) fn exec s \<longleftrightarrow> sl_state (bp_slots s p) = Orphaned"
| "wok (WRelease p) fn exec s \<longleftrightarrow> sl_state (bp_slots s p) = Orphaned"
| "wok _ fn exec s \<longleftrightarrow> True"

definition inv_work :: "(nat \<Rightarrow> 'v) \<Rightarrow> ('v \<Rightarrow> 'r) \<Rightarrow> ('s, 'v, 'r) bpool \<Rightarrow> bool" where
  "inv_work fn exec s \<longleftrightarrow> (\<forall>w. wok (bp_wpc s w) fn exec s \<and>
     (\<forall>p. wmap s w = Some p \<longrightarrow> sl_runner (bp_slots s p)))"

fun fresult :: "'r fpc \<Rightarrow> 'r option" where
  "fresult (FRelease p r) = r" | "fresult (FWakeAll r) = r" | "fresult (FReady r) = Some r"
| "fresult _ = None"

fun unclaimed :: "'r fpc \<Rightarrow> bool" where
  "unclaimed FNew = True" | "unclaimed (FScan n) = True" | "unclaimed _ = False"

definition data_ok :: "'v \<Rightarrow> ('v \<Rightarrow> 'r) \<Rightarrow> 'v option \<Rightarrow> bool \<Rightarrow> nat \<Rightarrow> 'r option \<Rightarrow> 'r fpc \<Rightarrow> bool" where
  "data_ok v exec opn taken runs res c \<longleftrightarrow>
     (opn = None \<or> opn = Some v) \<and> (opn \<noteq> None \<longrightarrow> runs = 0 \<and> \<not> taken) \<and> runs \<le> 1 \<and>
     (\<forall>r. res = Some r \<or> fresult c = Some r \<longrightarrow> r = exec v \<and> runs = 1) \<and>
     (unclaimed c \<longrightarrow> opn = Some v)"

definition inv_data :: "(nat \<Rightarrow> 'v) \<Rightarrow> ('v \<Rightarrow> 'r) \<Rightarrow> ('s, 'v, 'r) bpool \<Rightarrow> bool" where
  "inv_data fn exec s \<longleftrightarrow> (\<forall>f. data_ok (fn f) exec (bp_op s f) (f \<in> ran (gmap s)) (bp_runs s f)
     (bp_result s f) (bp_fpc s f))"

definition bp_inv where
  "bp_inv ok items pool fn exec s \<longleftrightarrow> ok (bp_queue s) \<and> inv_refs items pool s \<and> inv_slot items pool s \<and>
     inv_lock s \<and> inv_fut items fn s \<and> inv_work fn exec s \<and> inv_data fn exec s"

lemmas move_defs = fgo_def wgo_def on_slot_def register_waiter_def wake_waiters_def wake_task_def
lemmas slot_defs = claim_cas_def release_store_def poll_register_def poll_wire_def poll_publish_def
  cancel_null_def cancel_orphan_def run_op_done_def lock_slot_def unlock_slot_def wake_slot_def
  run_op_take_def run_op_write_def

text \<open>The fields after each kind of update.\<close>

lemma fgo_fields [simp]:
  "bp_slots (fgo f c s) = bp_slots s" "bp_queue (fgo f c s) = bp_queue s"
  "bp_op (fgo f c s) = bp_op s" "bp_result (fgo f c s) = bp_result s"
  "bp_fpc (fgo f c s) = (bp_fpc s)(f := c)" "bp_wpc (fgo f c s) = bp_wpc s"
  "bp_wait_lock (fgo f c s) = bp_wait_lock s" "bp_waiters (fgo f c s) = bp_waiters s"
  "bp_woken (fgo f c s) = bp_woken s" "bp_runs (fgo f c s) = bp_runs s"
  by (auto simp: fgo_def split: option.splits)

lemma wgo_fields [simp]:
  "bp_slots (wgo w d s) = bp_slots s" "bp_queue (wgo w d s) = bp_queue s"
  "bp_op (wgo w d s) = bp_op s" "bp_result (wgo w d s) = bp_result s"
  "bp_fpc (wgo w d s) = bp_fpc s" "bp_wpc (wgo w d s) = (bp_wpc s)(w := d)"
  "bp_wait_lock (wgo w d s) = bp_wait_lock s" "bp_waiters (wgo w d s) = bp_waiters s"
  "bp_woken (wgo w d s) = bp_woken s" "bp_runs (wgo w d s) = bp_runs s"
  by (auto simp: wgo_def split: option.splits)

lemma on_slot_fields [simp]:
  "bp_slots (on_slot p g s) = (bp_slots s)(p := g (bp_slots s p))"
  "bp_queue (on_slot p g s) = bp_queue s" "bp_op (on_slot p g s) = bp_op s"
  "bp_result (on_slot p g s) = bp_result s" "bp_fpc (on_slot p g s) = bp_fpc s"
  "bp_wpc (on_slot p g s) = bp_wpc s" "bp_wait_lock (on_slot p g s) = bp_wait_lock s"
  "bp_waiters (on_slot p g s) = bp_waiters s" "bp_woken (on_slot p g s) = bp_woken s"
  "bp_runs (on_slot p g s) = bp_runs s"
  by (auto simp: on_slot_def split: option.splits)

lemma register_waiter_fields [simp]:
  "bp_slots (register_waiter f W s) = bp_slots s" "bp_queue (register_waiter f W s) = bp_queue s"
  "bp_op (register_waiter f W s) = bp_op s" "bp_result (register_waiter f W s) = bp_result s"
  "bp_fpc (register_waiter f W s) = bp_fpc s" "bp_wpc (register_waiter f W s) = bp_wpc s"
  "bp_wait_lock (register_waiter f W s) = bp_wait_lock s" "bp_waiters (register_waiter f W s) = W"
  "bp_woken (register_waiter f W s) = bp_woken s \<union> (bp_waiters s - W)"
  "bp_runs (register_waiter f W s) = bp_runs s"
  by (auto simp: register_waiter_def split: option.splits)

lemma wake_waiters_fields [simp]:
  "bp_slots (wake_waiters s) = bp_slots s" "bp_queue (wake_waiters s) = bp_queue s"
  "bp_op (wake_waiters s) = bp_op s" "bp_result (wake_waiters s) = bp_result s"
  "bp_fpc (wake_waiters s) = bp_fpc s" "bp_wpc (wake_waiters s) = bp_wpc s"
  "bp_wait_lock (wake_waiters s) = bp_wait_lock s" "bp_waiters (wake_waiters s) = {}"
  "bp_woken (wake_waiters s) = bp_woken s \<union> bp_waiters s"
  "bp_runs (wake_waiters s) = bp_runs s"
  by (auto simp: wake_waiters_def split: option.splits)

lemma wake_task_fields [simp]:
  "bp_slots (wake_task t s) = bp_slots s" "bp_queue (wake_task t s) = bp_queue s"
  "bp_op (wake_task t s) = bp_op s" "bp_result (wake_task t s) = bp_result s"
  "bp_fpc (wake_task t s) = bp_fpc s" "bp_wpc (wake_task t s) = bp_wpc s"
  "bp_wait_lock (wake_task t s) = bp_wait_lock s" "bp_waiters (wake_task t s) = bp_waiters s"
  "bp_woken (wake_task t s) = bp_woken s \<union> set_option t"
  "bp_runs (wake_task t s) = bp_runs s"
  by (auto simp: wake_task_def split: option.splits)

lemma map_move [simp]:
  "fmap (fgo f c s) = (fmap s)(f := fref c)" "wmap (fgo f c s) = wmap s" "gmap (fgo f c s) = gmap s"
  "fmap (wgo w d s) = fmap s" "wmap (wgo w d s) = (wmap s)(w := wref d)" "gmap (wgo w d s) = (gmap s)(w := wfut d)"
  by (auto simp: fmap_def wmap_def gmap_def move_defs fun_eq_iff)

lemma map_other [simp]:
  "fmap (on_slot p g s) = fmap s" "wmap (on_slot p g s) = wmap s" "gmap (on_slot p g s) = gmap s"
  "fmap (register_waiter f W s) = fmap s" "wmap (register_waiter f W s) = wmap s" "gmap (register_waiter f W s) = gmap s"
  "fmap (wake_waiters s) = fmap s" "wmap (wake_waiters s) = wmap s" "gmap (wake_waiters s) = gmap s"
  "fmap (wake_task t s) = fmap s" "wmap (wake_task t s) = wmap s" "gmap (wake_task t s) = gmap s"
  "fmap (s\<lparr>bp_queue := q\<rparr>) = fmap s" "wmap (s\<lparr>bp_queue := q\<rparr>) = wmap s" "gmap (s\<lparr>bp_queue := q\<rparr>) = gmap s"
  "fmap (s\<lparr>bp_op := a\<rparr>) = fmap s" "wmap (s\<lparr>bp_op := a\<rparr>) = wmap s" "gmap (s\<lparr>bp_op := a\<rparr>) = gmap s"
  "fmap (s\<lparr>bp_result := b\<rparr>) = fmap s" "wmap (s\<lparr>bp_result := b\<rparr>) = wmap s" "gmap (s\<lparr>bp_result := b\<rparr>) = gmap s"
  "fmap (s\<lparr>bp_runs := c\<rparr>) = fmap s" "wmap (s\<lparr>bp_runs := c\<rparr>) = wmap s" "gmap (s\<lparr>bp_runs := c\<rparr>) = gmap s"
  "fmap (s\<lparr>bp_wait_lock := l\<rparr>) = fmap s" "wmap (s\<lparr>bp_wait_lock := l\<rparr>) = wmap s" "gmap (s\<lparr>bp_wait_lock := l\<rparr>) = gmap s"
  "fmap (s\<lparr>bp_woken := k\<rparr>) = fmap s" "wmap (s\<lparr>bp_woken := k\<rparr>) = wmap s" "gmap (s\<lparr>bp_woken := k\<rparr>) = gmap s"
  by (auto simp: fmap_def wmap_def gmap_def move_defs fun_eq_iff split: option.splits)

lemma fmap_at: "bp_fpc s f = c \<Longrightarrow> fmap s f = fref c" by (simp add: fmap_def)
lemma wmap_at: "bp_wpc s w = d \<Longrightarrow> wmap s w = wref d" by (simp add: wmap_def)
lemma gmap_at: "bp_wpc s w = d \<Longrightarrow> gmap s w = wfut d" by (simp add: gmap_def)

text \<open>Local consequences of the invariant.\<close>

lemma bp_inv_fut:
  assumes "bp_inv ok items pool fn exec s" and "bp_fpc s f = c" and "fref c = Some p"
  shows "fok c f (bp_slots s p) (p \<in> set (items (bp_queue s))) (p \<in> ran (wmap s))
       (bp_op s f = Some (fn f)) (bp_result s f \<noteq> None)"
    "p \<in> set pool" "p \<in> ran (fmap s)" "fmap s f = Some p" "fmap s g = Some p \<Longrightarrow> g = f"
proof -
  show f: "fmap s f = Some p" using assms(2,3) by (simp add: fmap_at)
  then show r: "p \<in> ran (fmap s)" by (rule ran_mem)
  then show "p \<in> set pool" using assms(1) by (auto simp: bp_inv_def inv_refs_def)
  show "fok c f (bp_slots s p) (p \<in> set (items (bp_queue s))) (p \<in> ran (wmap s))
       (bp_op s f = Some (fn f)) (bp_result s f \<noteq> None)"
    using f assms(1,2) by (auto simp: bp_inv_def inv_fut_def)
  show "fmap s g = Some p \<Longrightarrow> g = f"
    using f assms(1) by (auto simp: bp_inv_def inv_refs_def dest: exclusiveD)
qed

lemma bp_inv_work:
  assumes "bp_inv ok items pool fn exec s" and "bp_wpc s w = d" and "wref d = Some p"
  shows "wok d fn exec s" "sl_runner (bp_slots s p)" "p \<in> set pool" "p \<notin> set (items (bp_queue s))"
    "p \<in> ran (wmap s)" "wmap s w = Some p" "wmap s v = Some p \<Longrightarrow> v = w"
proof -
  show w: "wmap s w = Some p" using assms(2,3) by (simp add: wmap_at)
  then show r: "p \<in> ran (wmap s)" by (rule ran_mem)
  then show "p \<in> set pool" "p \<notin> set (items (bp_queue s))"
    using assms(1) by (auto simp: bp_inv_def inv_refs_def)
  show "wok d fn exec s" "sl_runner (bp_slots s p)"
    using w assms(1,2) by (auto simp: bp_inv_def inv_work_def)
  show "wmap s v = Some p \<Longrightarrow> v = w"
    using w assms(1) by (auto simp: bp_inv_def inv_refs_def dest: exclusiveD)
qed

lemma bp_inv_free:
  assumes "bp_inv ok items pool fn exec s" and "p \<in> set pool" and "sl_state (bp_slots s p) = Free"
  shows "p \<notin> ran (fmap s)" "p \<notin> ran (wmap s)" "p \<notin> set (items (bp_queue s))"
  using assms by (force simp: bp_inv_def inv_slot_def)+

lemma bp_inv_owner:
  assumes "bp_inv ok items pool fn exec s" and "p \<in> set pool" and "sl_state (bp_slots s p) = Queued"
  shows "\<exists>f. fmap s f = Some p"
proof -
  have "p \<in> ran (fmap s)" using assms by (force simp: bp_inv_def inv_slot_def)
  then show ?thesis by (auto simp: ran_def)
qed

lemma bp_inv_lock:
  assumes "bp_inv ok items pool fn exec s"
  shows "flock (bp_fpc s f) = Some p \<Longrightarrow> sl_lock (bp_slots s p) = Some (LF f)"
    "wlock (bp_wpc s w) = Some p \<Longrightarrow> sl_lock (bp_slots s p) = Some (LW w)"
  using assms by (auto simp: bp_inv_def inv_lock_def)

text \<open>What a step on one slot leaves alone.\<close>

lemma inv_fut_frame:
  assumes "inv_fut items fn s"
    and "\<And>g. g \<noteq> f \<Longrightarrow> bp_fpc s' g = bp_fpc s g \<and> bp_op s' g = bp_op s g \<and> bp_result s' g = bp_result s g"
    and "\<And>q. q \<noteq> p \<Longrightarrow> bp_slots s' q = bp_slots s q \<and>
      (q \<in> set (items (bp_queue s')) \<longleftrightarrow> q \<in> set (items (bp_queue s))) \<and>
      (q \<in> ran (wmap s') \<longleftrightarrow> q \<in> ran (wmap s))"
    and "\<And>g. g \<noteq> f \<Longrightarrow> fmap s g \<noteq> Some p"
    and "\<And>q. fref (bp_fpc s' f) = Some q \<Longrightarrow>
      fok (bp_fpc s' f) f (bp_slots s' q) (q \<in> set (items (bp_queue s'))) (q \<in> ran (wmap s'))
       (bp_op s' f = Some (fn f)) (bp_result s' f \<noteq> None)"
  shows "inv_fut items fn s'"
  unfolding inv_fut_def
proof (intro allI impI)
  fix g q
  assume q: "fmap s' g = Some q"
  show "fok (bp_fpc s' g) g (bp_slots s' q) (q \<in> set (items (bp_queue s'))) (q \<in> ran (wmap s'))
       (bp_op s' g = Some (fn g)) (bp_result s' g \<noteq> None)"
  proof (cases "g = f")
    case True
    with assms(5) [of q] q show ?thesis by (simp add: fmap_def)
  next
    case False
    then have "fmap s g = Some q" using assms(2) q by (simp add: fmap_def)
    moreover from this have "q \<noteq> p" using assms(4) [OF False] by auto
    ultimately show ?thesis using assms(1) assms(2) [OF False] assms(3) [of q] by (auto simp: inv_fut_def)
  qed
qed

lemma inv_fut_own:
  assumes inv: "bp_inv ok items pool fn exec s" and c: "bp_fpc s f = c" "fref c = Some p"
    and "\<And>g. g \<noteq> f \<Longrightarrow> bp_fpc s' g = bp_fpc s g \<and> bp_op s' g = bp_op s g \<and> bp_result s' g = bp_result s g"
    and "\<And>q. q \<noteq> p \<Longrightarrow> bp_slots s' q = bp_slots s q \<and>
      (q \<in> set (items (bp_queue s')) \<longleftrightarrow> q \<in> set (items (bp_queue s))) \<and>
      (q \<in> ran (wmap s') \<longleftrightarrow> q \<in> ran (wmap s))"
    and "\<And>q. fref (bp_fpc s' f) = Some q \<Longrightarrow>
      fok c f (bp_slots s p) (p \<in> set (items (bp_queue s))) (p \<in> ran (wmap s))
        (bp_op s f = Some (fn f)) (bp_result s f \<noteq> None) \<Longrightarrow>
      fok (bp_fpc s' f) f (bp_slots s' q) (q \<in> set (items (bp_queue s'))) (q \<in> ran (wmap s'))
        (bp_op s' f = Some (fn f)) (bp_result s' f \<noteq> None)"
  shows "inv_fut items fn s'"
proof (rule inv_fut_frame [where s = s and f = f and p = p])
  show "inv_fut items fn s" using inv by (simp add: bp_inv_def)
  show "fmap s g \<noteq> Some p" if "g \<noteq> f" for g using bp_inv_fut(5) [OF inv c] that by blast
  show "fok (bp_fpc s' f) f (bp_slots s' q) (q \<in> set (items (bp_queue s'))) (q \<in> ran (wmap s'))
      (bp_op s' f = Some (fn f)) (bp_result s' f \<noteq> None)" if "fref (bp_fpc s' f) = Some q" for q
    using assms(6) [OF that bp_inv_fut(1) [OF inv c]] .
qed (fact assms(4), fact assms(5))

lemma inv_slot_frame:
  assumes "inv_slot items pool s"
    and "\<And>q. q \<noteq> p \<Longrightarrow> sl_state (bp_slots s' q) = sl_state (bp_slots s q) \<and>
      (q \<in> ran (fmap s') \<longleftrightarrow> q \<in> ran (fmap s)) \<and> (q \<in> ran (wmap s') \<longleftrightarrow> q \<in> ran (wmap s)) \<and>
      (q \<in> set (items (bp_queue s')) \<longleftrightarrow> q \<in> set (items (bp_queue s)))"
    and "slot_ok (sl_state (bp_slots s' p)) (p \<in> ran (fmap s')) (p \<in> ran (wmap s')) (p \<in> set (items (bp_queue s')))"
  shows "inv_slot items pool s'"
  unfolding inv_slot_def
proof
  fix q
  assume "q \<in> set pool"
  then show "slot_ok (sl_state (bp_slots s' q)) (q \<in> ran (fmap s')) (q \<in> ran (wmap s')) (q \<in> set (items (bp_queue s')))"
    using assms(1,3) assms(2) [of q] by (cases "q = p") (auto simp: inv_slot_def)
qed

lemma wok_frame:
  assumes "wok d fn exec s"
    and "\<And>p. wref d = Some p \<Longrightarrow> sl_state (bp_slots s' p) = sl_state (bp_slots s p) \<and>
      (owner_op fn s p \<longrightarrow> owner_op fn s' p)"
    and "\<And>p g. wref d = Some p \<Longrightarrow> wfut d = Some g \<Longrightarrow> (owner_is s p g \<longrightarrow> owner_is s' p g) \<and>
      bp_op s' g = bp_op s g \<and> bp_runs s' g = bp_runs s g \<and>
      (d = WWritten p g \<longrightarrow> bp_result s g \<noteq> None \<longrightarrow> bp_result s' g \<noteq> None)"
  shows "wok d fn exec s'"
  using assms by (cases d) auto

lemma wok_orphaned:
  assumes "wok d fn exec s" and "wref d = Some p" and "wlock d \<noteq> Some p"
    and "sl_state (bp_slots s' p) = Orphaned"
    and "\<And>g. wfut d = Some g \<Longrightarrow> bp_op s' g = bp_op s g \<and> bp_runs s' g = bp_runs s g"
  shows "wok d fn exec s'"
  using assms by (cases d) (auto simp: owner_op_def owner_is_def)

context fifo
begin

lemma recv_forever:
  assumes "ok q" and "recv q Timeout_from_Forever = Ret (p, q')"
  shows "ok q' \<and> items q = p # items q'"
  using recv_Ret [OF assms] recv_waits [OF assms(1)] assms(2)
  by (cases "items q") (auto simp: Timeout_from_Forever_def)

lemma poll_refs:
  "poll_step send pool f s s' \<Longrightarrow> bp_inv ok items pool fn exec s \<Longrightarrow> ok (bp_queue s') \<and> inv_refs items pool s'"
proof (induction rule: poll_step.induct)
  case (claim_hit s n slot)
  then have "pool ! n \<notin> ran (fmap s)" "pool ! n \<in> set pool"
    using bp_inv_free(1) [of ok items pool fn exec s "pool ! n"] by (auto simp: claim_cas_def split: if_splits)
  with claim_hit show ?case
    by (auto simp: bp_inv_def inv_refs_def fmap_at intro: exclusive_acquire)
next
  case (send_slot s p q)
  with bp_inv_fut [of ok items pool fn exec s f "FSend p" p] send_Ret [of "bp_queue s" p q] show ?case
    by (auto simp: bp_inv_def inv_refs_def fmap_at fun_upd_idem)
next
  case (release_slot s p r)
  then show ?case using ran_release [of "fmap s" f p]
    by (auto simp: bp_inv_def inv_refs_def fmap_at exclusive_release)
qed (auto simp: bp_inv_def inv_refs_def fmap_at fun_upd_idem split: option.splits)

lemma poll_slot:
  "poll_step send pool f s s' \<Longrightarrow> bp_inv ok items pool fn exec s \<Longrightarrow> inv_slot items pool s'"
proof (induction rule: poll_step.induct)
  case (claim_hit s n slot)
  then show ?case
    by (auto simp: bp_inv_def inv_slot_def fmap_at claim_cas_def split: if_splits)
next
  case (claim_miss s n slot)
  then show ?case
    by (auto simp: bp_inv_def inv_slot_def fmap_at claim_cas_def fun_upd_idem split: if_splits)
next
  case (publish s p)
  with bp_inv_fut [of ok items pool fn exec s f "FWired p" p] show ?case
    by (auto simp: bp_inv_def inv_slot_def fmap_at fun_upd_idem poll_publish_def)
next
  case (send_slot s p q)
  note f = bp_inv_fut(1,3,4) [OF send_slot(3) send_slot(1)]
  have q: "items q = items (bp_queue s) @ [p]"
    using send_Ret [of "bp_queue s" p q] send_slot by (simp add: bp_inv_def)
  have "(fmap s)(f \<mapsto> p) = fmap s" using f(3) by auto
  with f q send_slot(3) show ?case
    by (intro inv_slot_frame [where s = s and p = p and s' = "fgo f (FWait p) (s\<lparr>bp_queue := q\<rparr>)"])
      (simp_all add: bp_inv_def)
next
  case (release_slot s p r)
  with bp_inv_fut [of ok items pool fn exec s f "FRelease p r" p] show ?case
    using ran_release [of "fmap s" f p]
    by (auto simp: bp_inv_def inv_refs_def inv_slot_def fmap_at release_store_def)
qed (auto simp: bp_inv_def inv_slot_def fmap_at fun_upd_idem poll_wire_def poll_register_def split: option.splits)

lemma poll_lock:
  "poll_step send pool f s s' \<Longrightarrow> bp_inv ok items pool fn exec s \<Longrightarrow> inv_lock s'"
  by (induction rule: poll_step.induct)
    (auto simp: bp_inv_def inv_lock_def slot_defs split: option.splits if_splits)

lemma poll_fut:
  assumes "poll_step send pool f s s'" and inv: "bp_inv ok items pool fn exec s"
  shows "inv_fut items fn s'"
  using assms(1)
proof cases
  case claim_lock
  with inv show ?thesis by (auto simp: bp_inv_def inv_fut_def)
next
  case (claim_hit n slot)
  then have p: "pool ! n \<in> set pool" "sl_state (bp_slots s (pool ! n)) = Free" "sl_state slot = Claimed"
    by (auto simp: claim_cas_def split: if_splits)
  note free = bp_inv_free [OF inv p(1,2)]
  have op: "bp_op s f = Some (fn f)" using inv claim_hit by (simp add: bp_inv_def inv_data_def data_ok_def)
  show ?thesis
  proof (rule inv_fut_frame [where s = s and f = f and p = "pool ! n"])
    show "inv_fut items fn s" using inv by (simp add: bp_inv_def)
    show "fmap s g \<noteq> Some (pool ! n)" for g using free(1) by (auto dest: ran_mem)
    show "fok (bp_fpc s' f) f (bp_slots s' q) (q \<in> set (items (bp_queue s'))) (q \<in> ran (wmap s'))
       (bp_op s' f = Some (fn f)) (bp_result s' f \<noteq> None)" if "fref (bp_fpc s' f) = Some q" for q
      using that p(3) free op by (simp add: claim_hit(1))
  qed (simp_all add: claim_hit(1))
next
  case (claim_miss n slot)
  with inv show ?thesis
    by (auto simp: bp_inv_def inv_fut_def claim_cas_def split: if_splits)
next
  case (claim_none n W)
  with inv show ?thesis by (auto simp: bp_inv_def inv_fut_def)
next
  case (wire p)
  show ?thesis by (rule inv_fut_own [OF inv wire(2)]) (auto simp: wire(1) poll_wire_def split: if_splits)
next
  case (publish p)
  show ?thesis by (rule inv_fut_own [OF inv publish(2)]) (auto simp: publish(1) poll_publish_def)
next
  case (send_slot p q)
  have q: "items q = items (bp_queue s) @ [p]"
    using send_Ret [of "bp_queue s" p q] send_slot(3) inv by (simp add: bp_inv_def)
  show ?thesis by (rule inv_fut_own [OF inv send_slot(2)]) (auto simp: send_slot(1) q)
next
  case (repoll p)
  show ?thesis by (rule inv_fut_own [OF inv repoll(2)]) (auto simp: repoll(1) poll_register_def)
next
  case (see_done p)
  show ?thesis by (rule inv_fut_own [OF inv see_done(2)]) (auto simp: see_done(1) see_done(3))
next
  case (see_pending p)
  show ?thesis by (rule inv_fut_own [OF inv see_pending(2)]) (auto simp: see_pending(1) see_pending(3))
next
  case (take_result p r)
  show ?thesis by (rule inv_fut_own [OF inv take_result(2)]) (auto simp: take_result(1))
next
  case (release_slot p r)
  show ?thesis by (rule inv_fut_own [OF inv release_slot(2)]) (auto simp: release_slot(1))
next
  case (release_wake r)
  with inv show ?thesis by (auto simp: bp_inv_def inv_fut_def split: option.splits)
qed

text \<open>Only the owner of a slot polls it, so the workers' part of the invariant does not notice.\<close>

lemma poll_work:
  assumes "poll_step send pool f s s'" and inv: "bp_inv ok items pool fn exec s"
  shows "inv_work fn exec s'"
proof -
  have same: "bp_wpc s' = bp_wpc s" "bp_op s' = bp_op s" "bp_runs s' = bp_runs s" "wmap s' = wmap s"
    using assms(1) by (cases; auto)+
  have slots: "p \<in> ran (wmap s) \<Longrightarrow> sl_state (bp_slots s' p) = sl_state (bp_slots s p) \<and>
      (sl_runner (bp_slots s p) \<longrightarrow> sl_runner (bp_slots s' p)) \<and> (\<forall>g. fmap s' g = Some p \<longleftrightarrow> fmap s g = Some p)" for p
    using assms(1)
  proof cases
    case (claim_hit n slot)
    then show "p \<in> ran (wmap s) \<Longrightarrow> ?thesis"
      using bp_inv_free(2) [OF inv, of p] by (auto simp: claim_cas_def fmap_at split: if_splits)
  next
    case (publish q)
    then show "p \<in> ran (wmap s) \<Longrightarrow> ?thesis"
      using bp_inv_fut(1) [OF inv publish(2)] by (auto simp: poll_publish_def fmap_at)
  next
    case (release_slot q r)
    then show "p \<in> ran (wmap s) \<Longrightarrow> ?thesis"
      using bp_inv_fut(1) [OF inv release_slot(2)] by (auto simp: release_store_def fmap_at)
  qed (auto simp: claim_cas_def fmap_at poll_wire_def poll_register_def split: if_splits option.splits)
  have res: "bp_wpc s w = WWritten p g \<Longrightarrow> bp_result s' g = bp_result s g" for w g p
    using assms(1)
  proof cases
    case (take_result q r)
    assume w: "bp_wpc s w = WWritten p g"
    then have "sl_state (bp_slots s p) = Queued" "fmap s g = Some p"
      using bp_inv_work(1) [OF inv w] by (auto simp: owner_is_def)
    then show ?thesis using take_result bp_inv_fut(1,4) [OF inv take_result(2)] by auto
  qed auto
  show ?thesis
    unfolding inv_work_def
  proof (intro allI conjI impI)
    fix w p
    have w: "wok (bp_wpc s w) fn exec s" "wmap s w = Some q \<Longrightarrow> sl_runner (bp_slots s q)" for q
      using inv by (auto simp: bp_inv_def inv_work_def)
    show "wmap s' w = Some p \<Longrightarrow> sl_runner (bp_slots s' p)"
      using slots [of p] w(2) same by (auto dest: ran_mem)
    have "wref (bp_wpc s w) = Some q \<Longrightarrow> q \<in> ran (wmap s)" for q
      by (auto simp: wmap_def intro: ran_mem)
    with slots res same show "wok (bp_wpc s' w) fn exec s'"
      unfolding same(1) by (intro wok_frame [OF w(1)]) (auto simp: owner_op_def owner_is_def same)
  qed
qed

lemma poll_data:
  "poll_step send pool f s s' \<Longrightarrow> bp_inv ok items pool fn exec s \<Longrightarrow> inv_data fn exec s'"
proof (induction rule: poll_step.induct)
  case (take_result s p r)
  then show ?case by (auto simp: bp_inv_def inv_data_def data_ok_def outcome_simps)
next
  case (release_wake s r)
  then show ?case by (cases r) (auto simp: bp_inv_def inv_data_def data_ok_def)
qed (auto simp: bp_inv_def inv_data_def data_ok_def)

lemma drop_refs:
  "drop_step remove f s s' \<Longrightarrow> bp_inv ok items pool fn exec s \<Longrightarrow> ok (bp_queue s') \<and> inv_refs items pool s'"
proof (induction rule: drop_step.induct)
  case (cancel_removed s p q)
  with remove_Ret [of "bp_queue s" p True q] show ?case
    by (auto simp: bp_inv_def inv_refs_def fmap_at fun_upd_idem dest: notin_set_remove1 set_remove1_subset [THEN subsetD])
next
  case (cancel_late s p q)
  with remove_Ret [of "bp_queue s" p False q] show ?case
    by (auto simp: bp_inv_def inv_refs_def fmap_at fun_upd_idem remove1_idem)
next
  case (cancel_store s p)
  then show ?case using ran_release [of "fmap s" f p]
    by (auto simp: bp_inv_def inv_refs_def fmap_at exclusive_release)
qed (auto simp: bp_inv_def inv_refs_def fmap_at fun_upd_idem)

lemma drop_slot:
  "drop_step remove f s s' \<Longrightarrow> bp_inv ok items pool fn exec s \<Longrightarrow> inv_slot items pool s'"
proof (induction rule: drop_step.induct)
  case (cancel_removed s p q)
  note f = bp_inv_fut(1,3,4) [OF cancel_removed(3) cancel_removed(1)]
  have q: "items q = remove1 p (items (bp_queue s))"
    using remove_Ret [of "bp_queue s" p True q] cancel_removed by (simp add: bp_inv_def)
  have "(fmap s)(f \<mapsto> p) = fmap s" using f(3) by auto
  with f q cancel_removed(3) show ?case
    by (intro inv_slot_frame [where s = s and p = p and s' = "fgo f (FRelease p None) (s\<lparr>bp_queue := q\<rparr>)"])
      (auto simp: bp_inv_def)
next
  case (cancel_late s p q)
  then show ?case using remove_Ret [of "bp_queue s" p False q]
    by (auto simp: bp_inv_def inv_slot_def fmap_at fun_upd_idem remove1_idem)
next
  case (cancel_store s p)
  note f = bp_inv_fut(1,3,4) [OF cancel_store(2) cancel_store(1)]
  have "ran ((fmap s)(f := None)) = ran (fmap s) - {p}"
    using f cancel_store(2) by (intro ran_release) (simp_all add: bp_inv_def inv_refs_def)
  with f cancel_store(2) show ?case
    by (intro inv_slot_frame [where s = s and p = p
          and s' = "fgo f (FUnlock p True) (on_slot p cancel_orphan s)"])
      (auto simp: bp_inv_def cancel_orphan_def)
qed (auto simp: bp_inv_def inv_slot_def fmap_at fun_upd_idem lock_slot_def unlock_slot_def cancel_null_def)

lemma drop_lock:
  assumes "drop_step remove f s s'" and inv: "bp_inv ok items pool fn exec s"
  shows "inv_lock s'"
  using assms(1)
proof cases
  case (cancel_unlock p b)
  then have "sl_lock (bp_slots s p) = Some (LF f)" using bp_inv_lock(1) [OF inv, of f p] by simp
  then show ?thesis using inv by (fastforce simp: cancel_unlock(1) bp_inv_def inv_lock_def unlock_slot_def)
next
  case (cancel_lock p)
  then show ?thesis using inv by (fastforce simp: bp_inv_def inv_lock_def lock_slot_def)
qed (use inv in \<open>auto simp: bp_inv_def inv_lock_def slot_defs split: if_splits\<close>)

lemma drop_fut:
  assumes "drop_step remove f s s'" and inv: "bp_inv ok items pool fn exec s"
  shows "inv_fut items fn s'"
  using assms(1)
proof cases
  case drop_new
  with inv show ?thesis by (auto simp: bp_inv_def inv_fut_def)
next
  case (drop_ready r)
  with inv show ?thesis by (auto simp: bp_inv_def inv_fut_def)
next
  case (drop_waiting p)
  show ?thesis by (rule inv_fut_own [OF inv drop_waiting(2)]) (auto simp: drop_waiting(1))
next
  case (cancel_removed p q)
  have q: "items q = remove1 p (items (bp_queue s))" "p \<in> set (items (bp_queue s))"
    using remove_Ret [of "bp_queue s" p True q] cancel_removed(3) inv by (simp_all add: bp_inv_def)
  have "distinct (items (bp_queue s))" using inv by (simp add: bp_inv_def inv_refs_def)
  with q show ?thesis by (intro inv_fut_own [OF inv cancel_removed(2)]) (auto simp: cancel_removed(1))
next
  case (cancel_late p q)
  have q: "items q = remove1 p (items (bp_queue s))" "p \<notin> set (items (bp_queue s))"
    using remove_Ret [of "bp_queue s" p False q] cancel_late(3) inv by (simp_all add: bp_inv_def)
  have "distinct (items (bp_queue s))" using inv by (simp add: bp_inv_def inv_refs_def)
  with q show ?thesis by (intro inv_fut_own [OF inv cancel_late(2)]) (auto simp: cancel_late(1) remove1_idem)
next
  case (cancel_lock p)
  show ?thesis by (rule inv_fut_own [OF inv cancel_lock(2)]) (auto simp: cancel_lock(1) lock_slot_def)
next
  case (cancel_done p)
  show ?thesis by (rule inv_fut_own [OF inv cancel_done(2)]) (auto simp: cancel_done(1) cancel_done(3))
next
  case (cancel_live p)
  show ?thesis by (rule inv_fut_own [OF inv cancel_live(2)]) (auto simp: cancel_live(1) cancel_live(3))
next
  case (cancel_clear p)
  show ?thesis by (rule inv_fut_own [OF inv cancel_clear(2)]) (auto simp: cancel_clear(1) cancel_null_def)
next
  case (cancel_store p)
  show ?thesis by (rule inv_fut_own [OF inv cancel_store(2)]) (auto simp: cancel_store(1))
next
  case (cancel_unlock p b)
  show ?thesis
  proof (cases b)
    case True
    with cancel_unlock inv show ?thesis by (auto simp: bp_inv_def inv_fut_def unlock_slot_def)
  next
    case False
    then show ?thesis
      by (intro inv_fut_own [OF inv cancel_unlock(2)]) (auto simp: cancel_unlock(1) unlock_slot_def)
  qed
qed

lemma drop_data:
  "drop_step remove f s s' \<Longrightarrow> bp_inv ok items pool fn exec s \<Longrightarrow> inv_data fn exec s'"
  by (induction rule: drop_step.induct) (auto simp: bp_inv_def inv_data_def data_ok_def)

text \<open>Cancelling leaves a worker's slot alone, or orphans it while the worker is outside the lock.\<close>

lemma drop_work:
  assumes "drop_step remove f s s'" and inv: "bp_inv ok items pool fn exec s"
  shows "inv_work fn exec s'"
proof -
  have same: "bp_wpc s' = bp_wpc s" "bp_op s' = bp_op s" "bp_runs s' = bp_runs s" "wmap s' = wmap s"
    "bp_result s' = bp_result s"
    using assms(1) by (cases; auto)+
  have slots: "p \<in> ran (wmap s) \<Longrightarrow>
      sl_state (bp_slots s' p) = sl_state (bp_slots s p) \<and>
        (\<forall>g. sl_state (bp_slots s p) = Queued \<longrightarrow> fmap s' g = Some p \<longleftrightarrow> fmap s g = Some p) \<or>
      sl_state (bp_slots s' p) = Orphaned \<and> sl_lock (bp_slots s p) = Some (LF f)" for p
    using assms(1)
  proof cases
    case (cancel_store q)
    then show "p \<in> ran (wmap s) \<Longrightarrow> ?thesis"
      using bp_inv_fut(1) [OF inv cancel_store(2)] bp_inv_lock(1) [OF inv, of f q]
      by (auto simp: cancel_orphan_def fmap_at)
  next
    case (cancel_unlock q b)
    then show "p \<in> ran (wmap s) \<Longrightarrow> ?thesis" by (auto simp: unlock_slot_def fmap_at)
  qed (auto simp: fmap_at lock_slot_def cancel_null_def)
  have run: "sl_runner (bp_slots s' p) = sl_runner (bp_slots s p)" for p
    using assms(1) by cases (auto simp: slot_defs)
  show ?thesis
    unfolding inv_work_def
  proof (intro allI conjI impI)
    fix w p
    have w: "wok (bp_wpc s w) fn exec s" "wmap s w = Some q \<Longrightarrow> sl_runner (bp_slots s q)" for q
      using inv by (auto simp: bp_inv_def inv_work_def)
    show "wmap s' w = Some p \<Longrightarrow> sl_runner (bp_slots s' p)"
      using w(2) same run by auto
    show "wok (bp_wpc s' w) fn exec s'"
    proof (cases "wref (bp_wpc s w)")
      case None
      then show ?thesis using same by (cases "bp_wpc s w") auto
    next
      case (Some q)
      then have "q \<in> ran (wmap s)" by (auto simp: wmap_def intro: ran_mem)
      from slots [OF this] show ?thesis
      proof
        assume "sl_state (bp_slots s' q) = Orphaned \<and> sl_lock (bp_slots s q) = Some (LF f)"
        with Some bp_inv_lock(2) [OF inv, of w q] w(1) show ?thesis
          unfolding same(1) by (intro wok_orphaned [of _ fn exec s q s']) (auto simp: same)
      next
        assume "sl_state (bp_slots s' q) = sl_state (bp_slots s q) \<and>
          (\<forall>g. sl_state (bp_slots s q) = Queued \<longrightarrow> fmap s' g = Some q \<longleftrightarrow> fmap s g = Some q)"
        with Some show ?thesis
          unfolding same(1) by (intro wok_frame [OF w(1)]) (auto simp: owner_op_def owner_is_def same)
      qed
    qed
  qed
qed

text \<open>A worker under the lock of a slot that is not orphaned finds a future that is alive and waits.\<close>

lemma worker_live:
  assumes inv: "bp_inv ok items pool fn exec s" and d: "bp_wpc s w = d" "wref d = Some p" "wlock d = Some p"
    and q: "sl_state (bp_slots s p) = Queued"
  shows "\<exists>f. fmap s f = Some p \<and> sl_shared (bp_slots s p) = Some f \<and>
    bp_fpc s f \<in> {FWait p, FPolled p, FDrop p, FCancel p}"
proof -
  obtain f where f: "fmap s f = Some p"
    using bp_inv_owner [OF inv bp_inv_work(3) [OF inv d(1,2)] q] by blast
  then have r: "fref (bp_fpc s f) = Some p" by (simp add: fmap_def)
  have "sl_lock (bp_slots s p) = Some (LW w)" using bp_inv_lock(2) [OF inv, of w p] d by simp
  then have "flock (bp_fpc s f) \<noteq> Some p" using bp_inv_lock(1) [OF inv, of f p] by auto
  with f r bp_inv_fut(1) [OF inv refl r] bp_inv_work(4,5) [OF inv d(1,2)] q show ?thesis
    by (cases "bp_fpc s f") (auto split: if_splits)
qed

lemma inv_fut_slot:
  assumes inv: "bp_inv ok items pool fn exec s"
    and "bp_fpc s' = bp_fpc s"
    and "\<And>q. q \<noteq> p \<Longrightarrow> bp_slots s' q = bp_slots s q \<and>
      (q \<in> set (items (bp_queue s')) \<longleftrightarrow> q \<in> set (items (bp_queue s))) \<and>
      (q \<in> ran (wmap s') \<longleftrightarrow> q \<in> ran (wmap s))"
    and "\<And>g. fmap s g \<noteq> Some p \<Longrightarrow> bp_op s' g = bp_op s g \<and> bp_result s' g = bp_result s g"
    and "\<And>f. fmap s f = Some p \<Longrightarrow>
      fok (bp_fpc s f) f (bp_slots s p) (p \<in> set (items (bp_queue s))) (p \<in> ran (wmap s))
        (bp_op s f = Some (fn f)) (bp_result s f \<noteq> None) \<Longrightarrow>
      fok (bp_fpc s f) f (bp_slots s' p) (p \<in> set (items (bp_queue s'))) (p \<in> ran (wmap s'))
        (bp_op s' f = Some (fn f)) (bp_result s' f \<noteq> None)"
  shows "inv_fut items fn s'"
  unfolding inv_fut_def
proof (intro allI impI)
  fix g q
  assume "fmap s' g = Some q"
  then have g: "fmap s g = Some q" by (simp add: fmap_def assms(2))
  then have old: "fok (bp_fpc s g) g (bp_slots s q) (q \<in> set (items (bp_queue s))) (q \<in> ran (wmap s))
        (bp_op s g = Some (fn g)) (bp_result s g \<noteq> None)"
    using inv by (simp add: bp_inv_def inv_fut_def)
  show "fok (bp_fpc s' g) g (bp_slots s' q) (q \<in> set (items (bp_queue s'))) (q \<in> ran (wmap s'))
       (bp_op s' g = Some (fn g)) (bp_result s' g \<noteq> None)"
  proof (cases "q = p")
    case True
    with assms(5) [of g] g old show ?thesis by (simp add: assms(2))
  next
    case False
    with assms(3) [of q] assms(4) [of g] g old show ?thesis by (simp add: assms(2))
  qed
qed

lemma worker_refs:
  assumes "worker_step recv exec w s s'" and inv: "bp_inv ok items pool fn exec s"
  shows "ok (bp_queue s') \<and> inv_refs items pool s'"
  using assms(1)
proof cases
  case (dequeue p q)
  with recv_forever [of "bp_queue s" p q] inv show ?thesis
    by (auto simp: bp_inv_def inv_refs_def wmap_at gmap_at fun_upd_idem intro: exclusive_acquire)
next
  case (take_op p f v ops)
  then have "f \<notin> ran (gmap s)" using inv
    by (auto simp: bp_inv_def inv_data_def data_ok_def run_op_take_def split: option.splits)
  with take_op inv show ?thesis
    by (auto simp: bp_inv_def inv_refs_def wmap_at gmap_at fun_upd_idem intro: exclusive_acquire)
next
  case (load2_orphaned p f r)
  with inv show ?thesis
    by (auto simp: bp_inv_def inv_refs_def wmap_at gmap_at fun_upd_idem intro: exclusive_release)
next
  case (store_done p f)
  with inv ran_release [of "wmap s" w p] show ?thesis
    by (auto simp: bp_inv_def inv_refs_def wmap_at gmap_at fun_upd_idem intro: exclusive_release)
next
  case (worker_release p)
  with inv ran_release [of "wmap s" w p] show ?thesis
    by (auto simp: bp_inv_def inv_refs_def wmap_at gmap_at fun_upd_idem intro: exclusive_release)
qed (use inv in \<open>auto simp: bp_inv_def inv_refs_def wmap_at gmap_at fun_upd_idem split: option.splits\<close>)

lemma worker_lock:
  assumes "worker_step recv exec w s s'" and inv: "bp_inv ok items pool fn exec s"
  shows "inv_lock s'"
  using assms(1)
proof cases
  case (lock1 p)
  then show ?thesis using inv by (fastforce simp: bp_inv_def inv_lock_def lock_slot_def)
next
  case (lock2 p f r)
  then show ?thesis using inv by (fastforce simp: bp_inv_def inv_lock_def lock_slot_def)
next
  case (unlock1_none p)
  then have "sl_lock (bp_slots s p) = Some (LW w)" using bp_inv_lock(2) [OF inv, of w p] by simp
  then show ?thesis using inv by (fastforce simp: unlock1_none(1) bp_inv_def inv_lock_def unlock_slot_def)
next
  case (unlock1_op p f v)
  then have "sl_lock (bp_slots s p) = Some (LW w)" using bp_inv_lock(2) [OF inv, of w p] by simp
  then show ?thesis using inv by (fastforce simp: unlock1_op(1) bp_inv_def inv_lock_def unlock_slot_def)
next
  case (unlock2_done p)
  then have "sl_lock (bp_slots s p) = Some (LW w)" using bp_inv_lock(2) [OF inv, of w p] by simp
  then show ?thesis using inv by (fastforce simp: unlock2_done(1) bp_inv_def inv_lock_def unlock_slot_def)
next
  case (unlock2_orphan p)
  then have "sl_lock (bp_slots s p) = Some (LW w)" using bp_inv_lock(2) [OF inv, of w p] by simp
  then show ?thesis using inv by (fastforce simp: unlock2_orphan(1) bp_inv_def inv_lock_def unlock_slot_def)
qed (use inv in \<open>auto simp: bp_inv_def inv_lock_def release_store_def run_op_done_def wake_slot_def\<close>)

lemma worker_slot:
  assumes "worker_step recv exec w s s'" and inv: "bp_inv ok items pool fn exec s"
  shows "inv_slot items pool s'"
  using assms(1)
proof cases
  case (dequeue p q)
  then have q: "items (bp_queue s) = p # items q" using recv_forever [of "bp_queue s" p q] inv
    by (simp add: bp_inv_def)
  then have "p \<in> set pool" "p \<notin> set (items q)" using inv by (auto simp: bp_inv_def inv_refs_def)
  moreover from this have "slot_ok (sl_state (bp_slots s p)) (p \<in> ran (fmap s)) (p \<in> ran (wmap s)) True"
    using inv q by (force simp: bp_inv_def inv_slot_def)
  moreover have "wmap s w = None" using dequeue by (simp add: wmap_at)
  ultimately show ?thesis using inv q slot_ok_dequeue
    by (intro inv_slot_frame [where s = s and p = p and s' = s']) (simp_all add: dequeue(1) bp_inv_def)
next
  case (store_done p f)
  note wk = bp_inv_work(1,5,6) [OF inv store_done(2)]
  have "p \<in> ran (fmap s)" using wk(1) [of p] by (auto simp: owner_is_def intro: ran_mem)
  moreover have "ran ((wmap s)(w := None)) = ran (wmap s) - {p}"
    using wk(3) [of p] inv by (intro ran_release) (auto simp: bp_inv_def inv_refs_def)
  ultimately show ?thesis using inv
    by (intro inv_slot_frame [where s = s and p = p and s' = s'])
      (auto simp: store_done(1) bp_inv_def run_op_done_def)
next
  case (worker_release p)
  note wk = bp_inv_work(1,3,4,5,6) [OF inv worker_release(2), of p]
  have "slot_ok Orphaned (p \<in> ran (fmap s)) (p \<in> ran (wmap s)) (p \<in> set (items (bp_queue s)))"
    using wk inv by (force simp: bp_inv_def inv_slot_def)
  moreover have "ran ((wmap s)(w := None)) = ran (wmap s) - {p}"
    using wk inv by (intro ran_release) (auto simp: bp_inv_def inv_refs_def)
  ultimately show ?thesis using inv wk
    by (intro inv_slot_frame [where s = s and p = p and s' = s'])
      (auto simp: worker_release(1) bp_inv_def release_store_def)
qed (use inv in \<open>auto simp: bp_inv_def inv_slot_def wmap_at fun_upd_idem lock_slot_def unlock_slot_def
      wake_slot_def split: option.splits\<close>)

lemma worker_fut:
  assumes "worker_step recv exec w s s'" and inv: "bp_inv ok items pool fn exec s"
  shows "inv_fut items fn s'"
  using assms(1)
proof cases
  case (dequeue p q)
  then have q: "items (bp_queue s) = p # items q" using recv_forever [of "bp_queue s" p q] inv
    by (simp add: bp_inv_def)
  then have p: "p \<notin> set (items q)" "p \<notin> ran (wmap s)" using inv by (auto simp: bp_inv_def inv_refs_def)
  have "wmap s w = None" using dequeue by (simp add: wmap_at)
  with p q show ?thesis
    by (intro inv_fut_slot [OF inv, where p = p]) (auto simp: dequeue(1) elim!: fok.elims)
next
  case (take_op p f v ops)
  note wk = bp_inv_work(1,3,4,5,6) [OF inv take_op(2), of p]
  obtain g where g: "fmap s g = Some p" "sl_shared (bp_slots s p) = Some g"
    "bp_fpc s g \<in> {FWait p, FPolled p, FDrop p, FCancel p}"
    using worker_live [OF inv take_op(2), of p] wk(1) by auto
  then have "ops = (bp_op s)(g := None)" using take_op(3) by (auto simp: run_op_take_def)
  with g wk inv show ?thesis
    by (intro inv_fut_slot [OF inv, where p = p])
      (auto simp: take_op(1) wmap_at take_op(2) fun_upd_idem bp_inv_def inv_refs_def dest: exclusiveD)
next
  case (take_nothing p f ops)
  note wk = bp_inv_work(1,3,4,5,6) [OF inv take_nothing(2), of p]
  obtain g where g: "fmap s g = Some p" "sl_shared (bp_slots s p) = Some g"
    using worker_live [OF inv take_nothing(2), of p] wk(1) by auto
  with take_nothing(3) wk(1) show ?thesis by (auto simp: run_op_take_def owner_op_def)
next
  case (write_result p f r res)
  note wk = bp_inv_work(1,3,4,5,6) [OF inv write_result(2), of p]
  obtain g where g: "fmap s g = Some p" "sl_shared (bp_slots s p) = Some g"
    "bp_fpc s g \<in> {FWait p, FPolled p, FDrop p, FCancel p}"
    using worker_live [OF inv write_result(2), of p] wk(1) by auto
  then have "res = (bp_result s)(g := Some r)" using write_result(3) by (auto simp: run_op_write_def)
  with g wk inv show ?thesis
    by (intro inv_fut_slot [OF inv, where p = p])
      (auto simp: write_result(1) wmap_at write_result(2) fun_upd_idem bp_inv_def inv_refs_def dest: exclusiveD)
next
  case (store_done p f)
  note wk = bp_inv_work(1,3,4,5,6) [OF inv store_done(2), of p]
  have f: "fmap s f = Some p" "bp_result s f \<noteq> None" using wk(1) by (auto simp: owner_is_def)
  have only: "h = f" if "fmap s h = Some p" for h
    using that f(1) inv by (auto simp: bp_inv_def inv_refs_def dest: exclusiveD)
  have g: "bp_fpc s f \<in> {FWait p, FPolled p, FDrop p, FCancel p}"
    using worker_live [OF inv store_done(2), of p] wk(1) by (auto dest: only)
  have r: "ran ((wmap s)(w := None)) = ran (wmap s) - {p}"
    using wk inv by (intro ran_release) (auto simp: bp_inv_def inv_refs_def)
  show ?thesis
  proof (rule inv_fut_slot [OF inv, where p = p])
    show "fok (bp_fpc s h) h (bp_slots s' p) (p \<in> set (items (bp_queue s'))) (p \<in> ran (wmap s'))
        (bp_op s' h = Some (fn h)) (bp_result s' h \<noteq> None)" if h: "fmap s h = Some p" for h
      unfolding only [OF h] store_done(1) using g f(2) r wk(3)
      by (elim insertE emptyE) (simp_all add: run_op_done_def)
  qed (use r in \<open>simp_all add: store_done(1)\<close>)
next
  case (worker_release p)
  note wk = bp_inv_work(1,3,4,5,6) [OF inv worker_release(2), of p]
  have "p \<notin> ran (fmap s)"
    using wk inv by (force simp: bp_inv_def inv_slot_def)
  moreover have "ran ((wmap s)(w := None)) = ran (wmap s) - {p}"
    using wk inv by (intro ran_release) (auto simp: bp_inv_def inv_refs_def)
  ultimately show ?thesis
    by (intro inv_fut_slot [OF inv, where p = p]) (auto simp: worker_release(1) dest: ran_mem)
qed (use inv in \<open>auto simp: bp_inv_def inv_fut_def wmap_at fun_upd_idem lock_slot_def unlock_slot_def
      wake_slot_def split: option.splits\<close>)

lemma inv_data_frame:
  assumes "inv_data fn exec s"
    and "\<And>g. g \<noteq> f \<Longrightarrow> bp_op s' g = bp_op s g \<and> (g \<in> ran (gmap s') \<longleftrightarrow> g \<in> ran (gmap s)) \<and>
      bp_runs s' g = bp_runs s g \<and> bp_result s' g = bp_result s g \<and> bp_fpc s' g = bp_fpc s g"
    and "data_ok (fn f) exec (bp_op s f) (f \<in> ran (gmap s)) (bp_runs s f) (bp_result s f) (bp_fpc s f) \<Longrightarrow>
      data_ok (fn f) exec (bp_op s' f) (f \<in> ran (gmap s')) (bp_runs s' f) (bp_result s' f) (bp_fpc s' f)"
  shows "inv_data fn exec s'"
  unfolding inv_data_def
proof
  fix g
  show "data_ok (fn g) exec (bp_op s' g) (g \<in> ran (gmap s')) (bp_runs s' g) (bp_result s' g) (bp_fpc s' g)"
    using assms(1,3) assms(2) [of g] by (cases "g = f") (auto simp: inv_data_def)
qed

lemma worker_data:
  assumes "worker_step recv exec w s s'" and inv: "bp_inv ok items pool fn exec s"
  shows "inv_data fn exec s'"
proof -
  have d: "inv_data fn exec s" using inv by (simp add: bp_inv_def)
  show ?thesis
    using assms(1)
  proof cases
    case (take_op p f v ops)
    note wk = bp_inv_work(1) [OF inv take_op(2), of p]
    have g: "gmap s w = None" using take_op(2) by (simp add: gmap_at)
    have "\<not> unclaimed (bp_fpc s f)" "ops = (bp_op s)(f := None)"
      using worker_live [OF inv take_op(2), of p] wk take_op(3) by (auto simp: run_op_take_def)
    then show ?thesis
      by (intro inv_data_frame [OF d, where f = f]) (auto simp: take_op(1) g data_ok_def)
  next
    case (take_nothing p f ops)
    then obtain g where "fmap s g = Some p" "sl_shared (bp_slots s p) = Some g" "owner_op fn s p"
      "sl_state (bp_slots s p) = Queued"
      using worker_live [OF inv take_nothing(2), of p] bp_inv_work(1) [OF inv take_nothing(2), of p] by auto
    with take_nothing(3) show ?thesis by (auto simp: run_op_take_def owner_op_def)
  next
    case (call_op p f v)
    have "(gmap s)(w \<mapsto> f) = gmap s" using call_op(2) by (auto simp: gmap_at)
    then show ?thesis using bp_inv_work(1) [OF inv call_op(2), of p]
      by (intro inv_data_frame [OF d, where f = f]) (auto simp: call_op(1) data_ok_def)
  next
    case (write_result p f r res)
    note wk = bp_inv_work(1) [OF inv write_result(2), of p]
    obtain g where g: "fmap s g = Some p" "sl_shared (bp_slots s p) = Some g"
      using worker_live [OF inv write_result(2), of p] wk by auto
    moreover have "g = f" using g wk inv by (auto simp: owner_is_def bp_inv_def inv_refs_def dest: exclusiveD)
    ultimately have "res = (bp_result s)(f := Some r)" using write_result(3) by (auto simp: run_op_write_def)
    moreover have "(gmap s)(w \<mapsto> f) = gmap s" using write_result(2) by (auto simp: gmap_at)
    ultimately show ?thesis using wk
      by (intro inv_data_frame [OF d, where f = f]) (auto simp: write_result(1) data_ok_def)
  next
    case (load2_orphaned p f r)
    then have "ran ((gmap s)(w := None)) = ran (gmap s) - {f}"
      using inv by (intro ran_release) (auto simp: bp_inv_def inv_refs_def gmap_at)
    then show ?thesis
      by (intro inv_data_frame [OF d, where f = f]) (auto simp: load2_orphaned(1) data_ok_def)
  next
    case (store_done p f)
    then have "ran ((gmap s)(w := None)) = ran (gmap s) - {f}"
      using inv by (intro ran_release) (auto simp: bp_inv_def inv_refs_def gmap_at)
    then show ?thesis
      by (intro inv_data_frame [OF d, where f = f]) (auto simp: store_done(1) data_ok_def)
  qed (use d in \<open>auto simp: inv_data_def gmap_at fun_upd_idem split: option.splits\<close>)
qed

lemma inv_work_frame:
  assumes inv: "bp_inv ok items pool fn exec s"
    and "fmap s' = fmap s" and "\<And>v. v \<noteq> w \<Longrightarrow> bp_wpc s' v = bp_wpc s v"
    and "\<And>q. sl_runner (bp_slots s' q) = sl_runner (bp_slots s q)"
    and "\<And>q. q \<noteq> p \<Longrightarrow> sl_state (bp_slots s' q) = sl_state (bp_slots s q)"
    and "\<And>v. v \<noteq> w \<Longrightarrow> wmap s v \<noteq> Some p"
    and "\<And>g. fmap s g \<noteq> Some p \<Longrightarrow> bp_op s' g = bp_op s g"
    and "\<And>v g. v \<noteq> w \<Longrightarrow> gmap s v = Some g \<Longrightarrow> bp_op s' g = bp_op s g \<and> bp_runs s' g = bp_runs s g \<and>
      (bp_result s g \<noteq> None \<longrightarrow> bp_result s' g \<noteq> None)"
    and "wok (bp_wpc s' w) fn exec s'" and "\<And>q. wref (bp_wpc s' w) = Some q \<Longrightarrow> sl_runner (bp_slots s q)"
  shows "inv_work fn exec s'"
  unfolding inv_work_def
proof (intro allI conjI impI)
  fix v q
  have v: "wok (bp_wpc s v) fn exec s" "wmap s v = Some q \<Longrightarrow> sl_runner (bp_slots s q)"
    using inv by (auto simp: bp_inv_def inv_work_def)
  show "wmap s' v = Some q \<Longrightarrow> sl_runner (bp_slots s' q)"
    using v(2) assms(3) [of v] assms(4,10) by (cases "v = w") (auto simp: wmap_def)
  show "wok (bp_wpc s' v) fn exec s'"
  proof (cases "v = w")
    case False
    have "wok (bp_wpc s v) fn exec s'"
    proof (rule wok_frame [OF v(1)])
      fix a
      assume "wref (bp_wpc s v) = Some a"
      then have a: "a \<noteq> p" using assms(6) [OF False] by (auto simp: wmap_def)
      then show "sl_state (bp_slots s' a) = sl_state (bp_slots s a) \<and> (owner_op fn s a \<longrightarrow> owner_op fn s' a)"
        using assms(2) assms(5) [OF a] assms(7) by (auto simp: owner_op_def)
      fix g
      assume "wfut (bp_wpc s v) = Some g"
      then show "(owner_is s a g \<longrightarrow> owner_is s' a g) \<and> bp_op s' g = bp_op s g \<and> bp_runs s' g = bp_runs s g \<and>
          (bp_wpc s v = WWritten a g \<longrightarrow> bp_result s g \<noteq> None \<longrightarrow> bp_result s' g \<noteq> None)"
        using assms(2) assms(5) [OF a] assms(8) [OF False, of g] by (simp add: owner_is_def gmap_def)
    qed
    then show ?thesis by (simp add: assms(3) [OF False])
  qed (use assms(9) in simp)
qed

text \<open>The special case of a step that changes neither closures, results nor counts.\<close>

lemma inv_work_move:
  assumes inv: "bp_inv ok items pool fn exec s" and d: "bp_wpc s w = d" "wref d = Some p"
    and "fmap s' = fmap s" and "bp_wpc s' = (bp_wpc s)(w := d')"
    and "\<And>q. sl_runner (bp_slots s' q) = sl_runner (bp_slots s q)"
    and "\<And>q. q \<noteq> p \<Longrightarrow> sl_state (bp_slots s' q) = sl_state (bp_slots s q)"
    and "bp_op s' = bp_op s" "bp_runs s' = bp_runs s" "bp_result s' = bp_result s"
    and "wok d fn exec s \<Longrightarrow> wok d' fn exec s'" and "wref d' = None \<or> wref d' = Some p"
  shows "inv_work fn exec s'"
proof (rule inv_work_frame [OF inv, where w = w and p = p])
  show "wmap s v \<noteq> Some p" if "v \<noteq> w" for v using bp_inv_work(7) [OF inv d] that by blast
  show "wok (bp_wpc s' w) fn exec s'" using assms(5,11) bp_inv_work(1) [OF inv d] by simp
  show "wref (bp_wpc s' w) = Some q \<Longrightarrow> sl_runner (bp_slots s q)" for q
    using assms(5,12) bp_inv_work(2) [OF inv d] by auto
qed (use assms in auto)

lemma inv_work_idle:
  assumes inv: "bp_inv ok items pool fn exec s" and "bp_wpc s w = d"
    and "wref d' = None" and "wok d' fn exec s'"
    and "fmap s' = fmap s" and "bp_wpc s' = (bp_wpc s)(w := d')"
    and "\<And>q. sl_runner (bp_slots s' q) = sl_runner (bp_slots s q)"
    and "\<And>q. sl_state (bp_slots s' q) = sl_state (bp_slots s q)"
    and "bp_op s' = bp_op s" "bp_runs s' = bp_runs s" "bp_result s' = bp_result s"
  shows "inv_work fn exec s'"
proof -
  have old: "wok (bp_wpc s v) fn exec s" "wmap s v = Some q \<Longrightarrow> sl_runner (bp_slots s q)" for v q
    using inv by (auto simp: bp_inv_def inv_work_def)
  have "wok c fn exec s'" if "wok c fn exec s" for c
    by (rule wok_frame [OF that]) (use assms in \<open>auto simp: owner_op_def owner_is_def\<close>)
  with old assms show ?thesis by (auto simp: inv_work_def wmap_def split: if_splits)
qed

lemma worker_work:
  assumes "worker_step recv exec w s s'" and inv: "bp_inv ok items pool fn exec s"
  shows "inv_work fn exec s'"
  using assms(1)
proof cases
  case (dequeue p q)
  then have q: "items (bp_queue s) = p # items q" using recv_forever [of "bp_queue s" p q] inv
    by (simp add: bp_inv_def)
  then have p: "p \<in> set pool" "p \<notin> ran (wmap s)" using inv by (auto simp: bp_inv_def inv_refs_def)
  then have "slot_ok (sl_state (bp_slots s p)) (p \<in> ran (fmap s)) (p \<in> ran (wmap s)) True"
    using inv q by (force simp: bp_inv_def inv_slot_def)
  with p have "p \<in> ran (fmap s)" by (cases "sl_state (bp_slots s p)") auto
  then obtain f where f: "fmap s f = Some p" by (auto simp: ran_def)
  then have "fok (bp_fpc s f) f (bp_slots s p) True False (bp_op s f = Some (fn f)) (bp_result s f \<noteq> None)"
    using inv p q by (fastforce simp: bp_inv_def inv_fut_def)
  then have o: "sl_state (bp_slots s p) = Queued" "sl_runner (bp_slots s p)" "bp_op s f = Some (fn f)"
    by (cases "bp_fpc s f"; simp)+
  show ?thesis
  proof (rule inv_work_frame [OF inv, where w = w and p = p])
    show "wmap s v \<noteq> Some p" for v using p(2) by (auto dest: ran_mem)
    show "wok (bp_wpc s' w) fn exec s'"
      using o f inv by (auto simp: dequeue(1) owner_op_def bp_inv_def inv_refs_def dest: exclusiveD)
    show "wref (bp_wpc s' w) = Some a \<Longrightarrow> sl_runner (bp_slots s a)" for a
      using o by (auto simp: dequeue(1))
  qed (simp_all add: dequeue(1))
next
  case (take_op p f v ops)
  note wk = bp_inv_work [OF inv take_op(2), of p]
  obtain g where g: "fmap s g = Some p" "sl_shared (bp_slots s p) = Some g"
    using worker_live [OF inv take_op(2), of p] wk(1) by auto
  then have o: "g = f" "ops = (bp_op s)(f := None)" "bp_op s f = Some v" using take_op(3)
    by (auto simp: run_op_take_def)
  then have r: "bp_runs s f = 0" "f \<notin> ran (gmap s)" "v = fn f"
    using inv by (auto simp: bp_inv_def inv_data_def data_ok_def)
  show ?thesis
  proof (rule inv_work_frame [OF inv, where w = w and p = p])
    show "wmap s v \<noteq> Some p" if "v \<noteq> w" for v using wk(7) [of v] that by auto
    show "wok (bp_wpc s' w) fn exec s'"
      using o r wk(1) g by (auto simp: take_op(1) owner_is_def)
  qed (use o r g wk(2) in \<open>auto simp: take_op(1) dest: ran_mem\<close>)
next
  case (take_nothing p f ops)
  then obtain g where "fmap s g = Some p" "sl_shared (bp_slots s p) = Some g" "owner_op fn s p"
    "sl_state (bp_slots s p) = Queued"
    using worker_live [OF inv take_nothing(2), of p] bp_inv_work(1) [OF inv take_nothing(2), of p] by auto
  with take_nothing(3) show ?thesis by (auto simp: run_op_take_def owner_op_def)
next
  case (call_op p f v)
  note wk = bp_inv_work [OF inv call_op(2), of p]
  have gm: "gmap s w = Some f" using call_op(2) by (simp add: gmap_at)
  have ex: "v \<noteq> w \<Longrightarrow> gmap s v = Some g \<Longrightarrow> g \<noteq> f" for v g
    using gm inv by (auto simp: bp_inv_def inv_refs_def dest: exclusiveD)
  show ?thesis
  proof (rule inv_work_frame [OF inv, where w = w and p = p])
    show "wmap s v \<noteq> Some p" if "v \<noteq> w" for v using wk(7) [of v] that by auto
    show "wok (bp_wpc s' w) fn exec s'" using wk(1) by (auto simp: call_op(1) owner_is_def)
  qed (use wk(2) ex in \<open>auto simp: call_op(1)\<close>)
next
  case (write_result p f r res)
  note wk = bp_inv_work [OF inv write_result(2), of p]
  obtain g where g: "fmap s g = Some p" "sl_shared (bp_slots s p) = Some g"
    using worker_live [OF inv write_result(2), of p] wk(1) by auto
  moreover have "g = f" using g wk(1) inv by (auto simp: owner_is_def bp_inv_def inv_refs_def dest: exclusiveD)
  ultimately have res: "res = (bp_result s)(f := Some r)" using write_result(3) by (auto simp: run_op_write_def)
  show ?thesis
  proof (rule inv_work_frame [OF inv, where w = w and p = p])
    show "wmap s v \<noteq> Some p" if "v \<noteq> w" for v using wk(7) [of v] that by auto
    show "wok (bp_wpc s' w) fn exec s'" using wk(1) by (auto simp: write_result(1) res owner_is_def)
  qed (use wk(2) in \<open>auto simp: write_result(1) res\<close>)
next
  case (wake_future p)
  show ?thesis
    by (rule inv_work_idle [OF inv wake_future(2)]) (auto simp: wake_future(1) slot_defs split: option.splits)
next
  case worker_wake
  show ?thesis
    by (rule inv_work_idle [OF inv worker_wake(2)]) (auto simp: worker_wake(1) slot_defs split: option.splits)
next
  case (unlock2_done p)
  show ?thesis
    by (rule inv_work_idle [OF inv unlock2_done(2)]) (auto simp: unlock2_done(1) slot_defs split: option.splits)
next
  case (lock1 p)
  then show ?thesis
    by (intro inv_work_move [OF inv lock1(2)]) (auto simp: slot_defs owner_op_def owner_is_def)
next
  case (load1_orphaned p)
  then show ?thesis
    by (intro inv_work_move [OF inv load1_orphaned(2)]) (auto simp: slot_defs owner_op_def owner_is_def)
next
  case (load1_live p)
  then show ?thesis
    by (intro inv_work_move [OF inv load1_live(2)]) (auto simp: slot_defs owner_op_def owner_is_def)
next
  case (unlock1_none p)
  then show ?thesis
    by (intro inv_work_move [OF inv unlock1_none(2)]) (auto simp: slot_defs owner_op_def owner_is_def)
next
  case (unlock1_op p f v)
  then show ?thesis
    by (intro inv_work_move [OF inv unlock1_op(2)]) (auto simp: slot_defs owner_op_def owner_is_def)
next
  case (lock2 p f r)
  then show ?thesis
    by (intro inv_work_move [OF inv lock2(2)]) (auto simp: slot_defs owner_op_def owner_is_def)
next
  case (load2_orphaned p f r)
  then show ?thesis
    by (intro inv_work_move [OF inv load2_orphaned(2)]) (auto simp: slot_defs owner_op_def owner_is_def)
next
  case (load2_live p f r)
  then show ?thesis
    by (intro inv_work_move [OF inv load2_live(2)]) (auto simp: slot_defs owner_op_def owner_is_def)
next
  case (store_done p f)
  then show ?thesis
    by (intro inv_work_move [OF inv store_done(2)]) (auto simp: slot_defs owner_op_def owner_is_def)
next
  case (unlock2_orphan p)
  then show ?thesis
    by (intro inv_work_move [OF inv unlock2_orphan(2)]) (auto simp: slot_defs owner_op_def owner_is_def)
next
  case (worker_release p)
  then show ?thesis
    by (intro inv_work_move [OF inv worker_release(2)]) (auto simp: slot_defs owner_op_def owner_is_def)
qed

lemma bp_inv_step:
  assumes "bp_step send recv remove pool exec s s'" and inv: "bp_inv ok items pool fn exec s"
  shows "bp_inv ok items pool fn exec s'"
  using assms(1)
proof cases
  case (by_poll f)
  then show ?thesis
    using poll_refs [OF by_poll inv] poll_slot [OF by_poll inv] poll_lock [OF by_poll inv]
      poll_fut [OF by_poll inv] poll_work [OF by_poll inv] poll_data [OF by_poll inv]
    by (simp add: bp_inv_def)
next
  case (by_drop f)
  then show ?thesis
    using drop_refs [OF by_drop inv] drop_slot [OF by_drop inv] drop_lock [OF by_drop inv]
      drop_fut [OF by_drop inv] drop_work [OF by_drop inv] drop_data [OF by_drop inv]
    by (simp add: bp_inv_def)
next
  case (by_worker w)
  then show ?thesis
    using worker_refs [OF by_worker inv] worker_slot [OF by_worker inv] worker_lock [OF by_worker inv]
      worker_fut [OF by_worker inv] worker_work [OF by_worker inv] worker_data [OF by_worker inv]
    by (simp add: bp_inv_def)
qed

lemma bp_inv_start: "bp_inv ok items pool fn exec (bp_start new fn)"
  using new_ok
  by (simp add: bp_inv_def bp_start_def inv_refs_def inv_slot_def inv_lock_def inv_fut_def inv_work_def
      inv_data_def data_ok_def fmap_def wmap_def gmap_def Slot_new_def comp_def)

lemma bp_reach_inv: "bp_reach send recv remove pool exec new fn s \<Longrightarrow> bp_inv ok items pool fn exec s"
  by (induction rule: bp_reach.induct) (auto intro: bp_inv_start bp_inv_step)

end

section \<open>Wake-ups\<close>

text \<open>A worker that will still wake a slot, and a thread that will still wake the waiters.\<close>

definition slot_wake_due :: "('s, 'v, 'r) bpool \<Rightarrow> ptr \<Rightarrow> bool" where
  "slot_wake_due s p \<longleftrightarrow> (\<exists>w. bp_wpc s w = WDone p \<or> bp_wpc s w = WWake p)"

definition wake_due :: "('s, 'v, 'r) bpool \<Rightarrow> bool" where
  "wake_due s \<longleftrightarrow> (\<exists>f r. bp_fpc s f = FWakeAll r) \<or> (\<exists>w. bp_wpc s w = WWakeAll)"

definition wake_slots_inv :: "('s, 'v, 'r) bpool \<Rightarrow> bool" where
  "wake_slots_inv s \<longleftrightarrow> (\<forall>f p.
     (bp_fpc s f \<in> {FWired p, FSend p, FPolled p} \<longrightarrow> f \<in> bp_woken s \<or> sl_waker (bp_slots s p) = Some f) \<and>
     (bp_fpc s f = FWait p \<longrightarrow> f \<in> bp_woken s \<or> sl_waker (bp_slots s p) = Some f \<and>
        (sl_state (bp_slots s p) = Done \<longrightarrow> slot_wake_due s p)))"

definition wake_waiters_inv :: "ptr list \<Rightarrow> ('s, 'v, 'r) bpool \<Rightarrow> bool" where
  "wake_waiters_inv pool s \<longleftrightarrow>
     (\<forall>f. bp_fpc s f = FNew \<longrightarrow> f \<in> bp_woken s \<or> f \<in> bp_waiters s) \<and>
     (\<forall>f n. bp_fpc s f = FScan n \<longrightarrow> bp_wait_lock s = Some f \<and>
        (\<forall>i < n. i < length pool \<longrightarrow> sl_state (bp_slots s (pool ! i)) = Free \<longrightarrow> wake_due s)) \<and>
     (bp_waiters s \<noteq> {} \<longrightarrow> (\<forall>p \<in> set pool. sl_state (bp_slots s p) = Free \<longrightarrow> wake_due s))"

text \<open>A waiting future's waker is replaced by nobody else, since nobody else owns its slot.\<close>

lemma poll_wakes_slots:
  assumes "poll_step send pool f s s'" and inv: "bp_inv ok items pool fn exec s" and "wake_slots_inv s"
  shows "wake_slots_inv s'"
proof -
  have only: "g = h" if "fmap s g = Some p" "fmap s h = Some p" for g h p
    using that inv by (auto simp: bp_inv_def inv_refs_def dest: exclusiveD)
  show ?thesis
    using assms(1)
  proof cases
    case (claim_hit n slot)
    then have "sl_waker slot = sl_waker (bp_slots s (pool ! n))" "sl_state slot = Claimed"
      by (auto simp: claim_cas_def split: if_splits)
    then show ?thesis using assms(3) claim_hit
      by (auto simp: wake_slots_inv_def slot_wake_due_def)
  next
    case (wire p)
    then show ?thesis using assms(3) only [of _ p f]
      by (auto simp: wake_slots_inv_def slot_wake_due_def poll_wire_def fmap_def)
  next
    case (repoll p)
    then show ?thesis using assms(3) only [of _ p f]
      by (auto simp: wake_slots_inv_def slot_wake_due_def poll_register_def fmap_def)
  next
    case (send_slot p q)
    then have "sl_state (bp_slots s p) = Queued" using bp_inv_fut(1) [OF inv send_slot(2), of p] by simp
    then show ?thesis using assms(3) send_slot by (auto simp: wake_slots_inv_def slot_wake_due_def)
  qed (use assms(3) in \<open>auto simp: wake_slots_inv_def slot_wake_due_def slot_defs split: option.splits if_splits\<close>)
qed

lemma drop_wakes_slots:
  "drop_step remove f s s' \<Longrightarrow> wake_slots_inv s \<Longrightarrow> wake_slots_inv s'"
  by (induction rule: drop_step.induct)
    (auto simp: wake_slots_inv_def slot_wake_due_def slot_defs split: if_splits)

lemma worker_wakes_slots:
  assumes "worker_step recv exec w s s'" and "wake_slots_inv s"
  shows "wake_slots_inv s'"
proof -
  have others: "bp_wpc s' v = bp_wpc s v" if "v \<noteq> w" for v
    using assms(1) that by cases auto
  have due: "slot_wake_due s' p" if due: "slot_wake_due s p" and no: "bp_wpc s w \<noteq> WWake p" for p
  proof -
    obtain v where v: "bp_wpc s v = WDone p \<or> bp_wpc s v = WWake p" using due by (auto simp: slot_wake_due_def)
    show ?thesis
    proof (cases "v = w")
      case True
      with v no have "bp_wpc s w = WDone p" by simp
      with assms(1) have "bp_wpc s' w = WWake p" by cases auto
      then show ?thesis by (auto simp: slot_wake_due_def)
    next
      case False
      with v others [OF False] show ?thesis by (auto simp: slot_wake_due_def intro: exI [of _ v])
    qed
  qed
  show ?thesis
    using assms(1)
  proof cases
    case (store_done p f)
    then have "slot_wake_due s' p" by (auto simp: slot_wake_due_def)
    then show ?thesis using assms(2) due store_done(2)
      by (auto simp: store_done(1) wake_slots_inv_def run_op_done_def)
  next
    case (wake_future p)
    then show ?thesis using assms(2) due by (auto simp: wake_slots_inv_def wake_slot_def)
  qed (use assms(2) due in \<open>auto simp: wake_slots_inv_def slot_defs\<close>)
qed

text \<open>
  The waiters' part of the invariant, with the conditions that depend on the step: a wake-up that is due
  stays due until it happens, and it is due whenever a slot becomes free.
\<close>

lemma waiters_frame:
  assumes "wake_waiters_inv pool s"
    and "wake_due s \<Longrightarrow> wake_due s'"
    and "\<And>p. sl_state (bp_slots s' p) = Free \<Longrightarrow> sl_state (bp_slots s p) = Free \<or> wake_due s'"
    and new: "\<And>g. bp_fpc s' g = FNew \<Longrightarrow> bp_fpc s g = FNew \<and> (g \<in> bp_woken s \<longrightarrow> g \<in> bp_woken s')"
    and scan: "\<And>g n. bp_fpc s' g = FScan n \<Longrightarrow> bp_fpc s g = FScan n"
    and "bp_wait_lock s' = bp_wait_lock s" "bp_waiters s' = bp_waiters s"
  shows "wake_waiters_inv pool s'"
  unfolding wake_waiters_inv_def
proof (intro conjI allI impI ballI)
  show "g \<in> bp_woken s' \<or> g \<in> bp_waiters s'" if "bp_fpc s' g = FNew" for g
    using new [OF that] assms(1,7) by (auto simp: wake_waiters_inv_def)
  show "bp_wait_lock s' = Some g" if "bp_fpc s' g = FScan n" for g n
    using scan [OF that] assms(1,6) by (simp add: wake_waiters_inv_def)
  show "wake_due s'" if "bp_fpc s' g = FScan n" "i < n" "i < length pool" "sl_state (bp_slots s' (pool ! i)) = Free"
    for g n i
    using scan [OF that(1)] that assms(1,2) assms(3) [OF that(4)] by (auto simp: wake_waiters_inv_def)
  show "wake_due s'" if "bp_waiters s' \<noteq> {}" "p \<in> set pool" "sl_state (bp_slots s' p) = Free" for p
    using that assms(1,2,7) assms(3) [OF that(3)] by (auto simp: wake_waiters_inv_def)
qed

lemma wake_due_fgo:
  "wake_due s \<Longrightarrow> (\<And>r. bp_fpc s f \<noteq> FWakeAll r) \<Longrightarrow> bp_fpc s' = (bp_fpc s)(f := c) \<Longrightarrow> bp_wpc s' = bp_wpc s \<Longrightarrow>
   wake_due s'"
  unfolding wake_due_def by (metis fun_upd_other)

lemma wake_due_wgo:
  "wake_due s \<Longrightarrow> bp_wpc s w \<noteq> WWakeAll \<Longrightarrow> bp_wpc s' = (bp_wpc s)(w := d) \<Longrightarrow> bp_fpc s' = bp_fpc s \<Longrightarrow> wake_due s'"
  unfolding wake_due_def by (metis fun_upd_other)

lemma wake_due_new:
  "bp_fpc s f = FWakeAll r \<Longrightarrow> wake_due s" "bp_wpc s w = WWakeAll \<Longrightarrow> wake_due s"
  by (auto simp: wake_due_def)

lemma waiters_cleared:
  assumes "wake_waiters_inv pool s" and "bp_wait_lock s = None" and "bp_waiters s' = {}"
    and "bp_woken s \<union> bp_waiters s \<subseteq> bp_woken s'"
    and "\<And>g. bp_fpc s' g = FNew \<Longrightarrow> bp_fpc s g = FNew" and "\<And>g n. bp_fpc s' g = FScan n \<Longrightarrow> bp_fpc s g = FScan n"
  shows "wake_waiters_inv pool s'"
proof -
  have "bp_fpc s g \<noteq> FScan n" for g n using assms(1,2) by (auto simp: wake_waiters_inv_def)
  then have "bp_fpc s' g \<noteq> FScan n" for g n using assms(6) by blast
  moreover have "g \<in> bp_woken s'" if "bp_fpc s' g = FNew" for g
    using assms(5) [OF that] assms(1,4) by (auto simp: wake_waiters_inv_def)
  ultimately show ?thesis using assms(3) by (simp add: wake_waiters_inv_def)
qed

lemma waiters_fgo:
  assumes "wake_waiters_inv pool s" and "bp_fpc s f = c" and "\<And>r. c \<noteq> FWakeAll r"
    and "bp_fpc s' = (bp_fpc s)(f := c')" and "bp_wpc s' = bp_wpc s" and "c' \<noteq> FNew" and "\<And>n. c' \<noteq> FScan n"
    and "\<And>p. sl_state (bp_slots s' p) = Free \<Longrightarrow> sl_state (bp_slots s p) = Free"
    and "bp_wait_lock s' = bp_wait_lock s" "bp_waiters s' = bp_waiters s" "bp_woken s - {f} \<subseteq> bp_woken s'"
  shows "wake_waiters_inv pool s'"
proof (rule waiters_frame [OF assms(1)])
  show "wake_due s \<Longrightarrow> wake_due s'" using wake_due_fgo [of s f s' c'] assms(2-5) by simp
qed (use assms in \<open>auto split: if_splits\<close>)

lemma waiters_wgo:
  assumes "wake_waiters_inv pool s" and "bp_wpc s w = d" and "d \<noteq> WWakeAll"
    and "bp_wpc s' = (bp_wpc s)(w := d')" and "bp_fpc s' = bp_fpc s"
    and "\<And>p. sl_state (bp_slots s' p) = Free \<Longrightarrow> sl_state (bp_slots s p) = Free"
    and "bp_wait_lock s' = bp_wait_lock s" "bp_waiters s' = bp_waiters s" "bp_woken s \<subseteq> bp_woken s'"
  shows "wake_waiters_inv pool s'"
proof (rule waiters_frame [OF assms(1)])
  show "wake_due s \<Longrightarrow> wake_due s'" using wake_due_wgo [of s w s' d'] assms(2-5) by simp
qed (use assms in auto)

lemma one_scan: "wake_waiters_inv pool s \<Longrightarrow> bp_fpc s f = FScan n \<Longrightarrow> g \<noteq> f \<Longrightarrow> bp_fpc s g \<noteq> FScan k"
  unfolding wake_waiters_inv_def by (metis option.inject)

lemma poll_wakes_waiters:
  assumes "poll_step send pool f s s'" and inv: "wake_waiters_inv pool s"
  shows "wake_waiters_inv pool s'"
  using assms(1)
proof cases
  case claim_lock
  then have "wake_due s \<Longrightarrow> wake_due s'" by (auto intro: wake_due_fgo [of s f])
  with claim_lock inv show ?thesis by (auto simp: wake_waiters_inv_def)
next
  case (claim_hit n slot)
  then have w: "wake_due s \<Longrightarrow> wake_due s'" by (auto intro: wake_due_fgo [of s f])
  have "sl_state slot = Claimed" using claim_hit by (auto simp: claim_cas_def split: if_splits)
  moreover note one_scan [OF inv claim_hit(2)]
  ultimately show ?thesis using inv w by (auto simp: claim_hit(1) wake_waiters_inv_def)
next
  case (claim_miss n slot)
  then have w: "wake_due s \<Longrightarrow> wake_due s'" by (auto intro: wake_due_fgo [of s f])
  have "slot = bp_slots s (pool ! n)" "sl_state slot \<noteq> Free"
    using claim_miss by (auto simp: claim_cas_def split: if_splits)
  with one_scan [OF inv claim_miss(2)] inv claim_miss(2) w show ?thesis
    by (auto simp: claim_miss(1) wake_waiters_inv_def less_Suc_eq)
next
  case (claim_none n W)
  then have w: "wake_due s \<Longrightarrow> wake_due s'" by (auto intro: wake_due_fgo [of s f])
  have free: "wake_due s'" if p: "p \<in> set pool" "sl_state (bp_slots s p) = Free" for p
  proof -
    obtain i where "i < length pool" "pool ! i = p" using p(1) by (auto simp: in_set_conv_nth)
    moreover from this have "i < n" using claim_none(3) by simp
    ultimately show ?thesis using inv claim_none(2) p(2) w by (auto simp: wake_waiters_inv_def)
  qed
  have new: "f \<in> W" "bp_waiters s \<subseteq> bp_woken s' \<union> W" "bp_woken s \<subseteq> bp_woken s'"
    using claim_none by auto
  show ?thesis
    unfolding wake_waiters_inv_def
  proof (intro conjI allI impI ballI)
    show "g \<in> bp_woken s' \<or> g \<in> bp_waiters s'" if "bp_fpc s' g = FNew" for g
      using that new inv by (cases "g = f") (auto simp: claim_none(1) wake_waiters_inv_def)
  qed (use one_scan [OF inv claim_none(2)] free in \<open>auto simp: claim_none(1) split: if_splits\<close>)
next
  case (release_wake r)
  with inv show ?thesis
    by (intro waiters_cleared [where s = s and s' = s']) (auto split: if_splits option.splits)
next
  case (release_slot p r)
  then have "wake_due s'" using wake_due_new(1) [of s' f r] by simp
  with release_slot inv show ?thesis by (intro waiters_frame [where s = s and s' = s']) (auto split: if_splits)
next
  case (wire p)
  show ?thesis by (rule waiters_fgo [OF inv wire(2)]) (auto simp: wire(1) poll_wire_def split: if_splits)
next
  case (publish p)
  show ?thesis by (rule waiters_fgo [OF inv publish(2)]) (auto simp: publish(1) poll_publish_def split: if_splits)
next
  case (send_slot p q)
  show ?thesis by (rule waiters_fgo [OF inv send_slot(2)]) (auto simp: send_slot(1))
next
  case (repoll p)
  show ?thesis by (rule waiters_fgo [OF inv repoll(2)]) (auto simp: repoll(1) poll_register_def split: if_splits)
next
  case (see_done p)
  show ?thesis by (rule waiters_fgo [OF inv see_done(2)]) (auto simp: see_done(1))
next
  case (see_pending p)
  show ?thesis by (rule waiters_fgo [OF inv see_pending(2)]) (auto simp: see_pending(1))
next
  case (take_result p r)
  show ?thesis by (rule waiters_fgo [OF inv take_result(2)]) (auto simp: take_result(1))
qed

lemma drop_wakes_waiters:
  assumes "drop_step remove f s s'" and inv: "wake_waiters_inv pool s"
  shows "wake_waiters_inv pool s'"
  using assms(1)
proof cases
  case drop_new
  show ?thesis by (rule waiters_fgo [OF inv drop_new(2)]) (auto simp: drop_new(1) split: if_splits)
next
  case (drop_ready r)
  show ?thesis by (rule waiters_fgo [OF inv drop_ready(2)]) (auto simp: drop_ready(1) split: if_splits)
next
  case (drop_waiting p)
  show ?thesis by (rule waiters_fgo [OF inv drop_waiting(2)]) (auto simp: drop_waiting(1) split: if_splits)
next
  case (cancel_removed p q)
  show ?thesis by (rule waiters_fgo [OF inv cancel_removed(2)]) (auto simp: cancel_removed(1) split: if_splits)
next
  case (cancel_late p q)
  show ?thesis by (rule waiters_fgo [OF inv cancel_late(2)]) (auto simp: cancel_late(1) split: if_splits)
next
  case (cancel_lock p)
  show ?thesis by (rule waiters_fgo [OF inv cancel_lock(2)]) (auto simp: cancel_lock(1) lock_slot_def split: if_splits)
next
  case (cancel_done p)
  show ?thesis by (rule waiters_fgo [OF inv cancel_done(2)]) (auto simp: cancel_done(1) split: if_splits)
next
  case (cancel_live p)
  show ?thesis by (rule waiters_fgo [OF inv cancel_live(2)]) (auto simp: cancel_live(1) split: if_splits)
next
  case (cancel_clear p)
  show ?thesis by (rule waiters_fgo [OF inv cancel_clear(2)]) (auto simp: cancel_clear(1) cancel_null_def split: if_splits)
next
  case (cancel_store p)
  show ?thesis by (rule waiters_fgo [OF inv cancel_store(2)]) (auto simp: cancel_store(1) cancel_orphan_def split: if_splits)
next
  case (cancel_unlock p b)
  show ?thesis by (rule waiters_fgo [OF inv cancel_unlock(2)]) (auto simp: cancel_unlock(1) unlock_slot_def split: if_splits)
qed

lemma worker_wakes_waiters:
  assumes "worker_step recv exec w s s'" and inv: "wake_waiters_inv pool s"
  shows "wake_waiters_inv pool s'"
  using assms(1)
proof cases
  case worker_wake
  with inv show ?thesis by (intro waiters_cleared [where s = s and s' = s']) auto
next
  case (worker_release p)
  then have "wake_due s'" using wake_due_new(2) [of s' w] by simp
  with worker_release inv show ?thesis by (intro waiters_frame [where s = s and s' = s']) (auto split: if_splits)
next
  case (dequeue p q)
  show ?thesis by (rule waiters_wgo [OF inv dequeue(2)]) (auto simp: dequeue(1) split: if_splits)
next
  case (lock1 p)
  show ?thesis by (rule waiters_wgo [OF inv lock1(2)]) (auto simp: lock1(1) lock_slot_def split: if_splits)
next
  case (load1_orphaned p)
  show ?thesis by (rule waiters_wgo [OF inv load1_orphaned(2)]) (auto simp: load1_orphaned(1) split: if_splits)
next
  case (load1_live p)
  show ?thesis by (rule waiters_wgo [OF inv load1_live(2)]) (auto simp: load1_live(1) split: if_splits)
next
  case (take_op p f v ops)
  show ?thesis by (rule waiters_wgo [OF inv take_op(2)]) (auto simp: take_op(1) split: if_splits)
next
  case (take_nothing p f ops)
  show ?thesis by (rule waiters_wgo [OF inv take_nothing(2)]) (auto simp: take_nothing(1) split: if_splits)
next
  case (unlock1_none p)
  show ?thesis by (rule waiters_wgo [OF inv unlock1_none(2)]) (auto simp: unlock1_none(1) unlock_slot_def split: if_splits)
next
  case (unlock1_op p f v)
  show ?thesis by (rule waiters_wgo [OF inv unlock1_op(2)]) (auto simp: unlock1_op(1) unlock_slot_def split: if_splits)
next
  case (call_op p f v)
  show ?thesis by (rule waiters_wgo [OF inv call_op(2)]) (auto simp: call_op(1) split: if_splits)
next
  case (lock2 p f r)
  show ?thesis by (rule waiters_wgo [OF inv lock2(2)]) (auto simp: lock2(1) lock_slot_def split: if_splits)
next
  case (load2_orphaned p f r)
  show ?thesis by (rule waiters_wgo [OF inv load2_orphaned(2)]) (auto simp: load2_orphaned(1) split: if_splits)
next
  case (load2_live p f r)
  show ?thesis by (rule waiters_wgo [OF inv load2_live(2)]) (auto simp: load2_live(1) split: if_splits)
next
  case (write_result p f r res)
  show ?thesis by (rule waiters_wgo [OF inv write_result(2)]) (auto simp: write_result(1) split: if_splits)
next
  case (store_done p f)
  show ?thesis by (rule waiters_wgo [OF inv store_done(2)]) (auto simp: store_done(1) run_op_done_def split: if_splits)
next
  case (unlock2_done p)
  show ?thesis by (rule waiters_wgo [OF inv unlock2_done(2)]) (auto simp: unlock2_done(1) unlock_slot_def split: if_splits)
next
  case (unlock2_orphan p)
  show ?thesis by (rule waiters_wgo [OF inv unlock2_orphan(2)]) (auto simp: unlock2_orphan(1) unlock_slot_def split: if_splits)
next
  case (wake_future p)
  show ?thesis by (rule waiters_wgo [OF inv wake_future(2)]) (auto simp: wake_future(1) wake_slot_def split: if_splits)
qed

context fifo
begin

lemma bp_reach_wakes:
  "bp_reach send recv remove pool exec new fn s \<Longrightarrow> wake_slots_inv s \<and> wake_waiters_inv pool s"
proof (induction rule: bp_reach.induct)
  case bp_init
  show ?case by (simp add: bp_start_def wake_slots_inv_def wake_waiters_inv_def)
next
  case (bp_more s s')
  then have inv: "bp_inv ok items pool fn exec s" using bp_reach_inv by blast
  from bp_more(2) bp_more.IH inv show ?case
    by cases (auto intro: poll_wakes_slots poll_wakes_waiters drop_wakes_slots drop_wakes_waiters
        worker_wakes_slots worker_wakes_waiters)
qed

end

section \<open>Starting the workers\<close>

text \<open>\<open>start_workers_once\<close>: how many workers this call spawns, and the flag \<open>STARTED\<close> afterwards.\<close>

definition start_workers_once :: "nat \<Rightarrow> bool \<Rightarrow> nat \<times> bool" where
  "start_workers_once threads started =
     (let (r, started') = compare_exchange started False True
      in if is_ok r then (threads, started') else (0, started'))"

interpretation workers_once: one_shot "\<lambda>st. (let (n, st') = start_workers_once (Suc k) st in (0 < n, st'))" "\<lambda>st. \<not> st"
  for k :: nat
  by unfold_locales (auto simp: start_workers_once_def compare_exchange_def)

section \<open>Properties\<close>

context placed_queue
begin

lemmas pool_inv = queue.bp_reach_inv
lemmas pool_wakes = queue.bp_reach_wakes
lemmas pool_live = queue.worker_live

end

text \<open>The pool run over a placed \<open>Queue\<close>.\<close>

definition pool_reach ::
    "'q k_queue_api \<Rightarrow> ptr \<Rightarrow> ptr list \<Rightarrow> ('v \<Rightarrow> 'r) \<Rightarrow> (nat \<Rightarrow> 'v) \<Rightarrow> ('q Queue, 'v, 'r) bpool \<Rightarrow> bool" where
  "pool_reach K addr pool exec fn s \<longleftrightarrow>
     bp_reach (Queue_send K addr) (Queue_recv K addr) (Queue_remove K addr) pool exec (Queue_new K) fn s"

lemma pool_reach_inv:
  assumes "zephyr_queue K contents" and "addr \<noteq> 0" and "pool_reach K addr pool exec fn s"
  shows "bp_inv (zo_placed addr) (Queue_items contents) pool fn exec s \<and> wake_slots_inv s \<and> wake_waiters_inv pool s"
proof -
  have P: "placed_queue K contents addr"
    using assms(1,2) by (simp add: placed_queue_def placed_queue_axioms_def)
  show ?thesis
    using placed_queue.pool_inv [OF P] placed_queue.pool_wakes [OF P] assms(3)
    unfolding pool_reach_def by blast
qed

lemma pool_worker_live:
  assumes "zephyr_queue K contents" and "addr \<noteq> 0" and "pool_reach K addr pool exec fn s"
    and "bp_wpc s w = d" and "wref d = Some p" and "wlock d = Some p" and "sl_state (bp_slots s p) = Queued"
  shows "\<exists>f. fmap s f = Some p \<and> sl_shared (bp_slots s p) = Some f \<and>
    bp_fpc s f \<in> {FWait p, FPolled p, FDrop p, FCancel p}"
proof -
  have P: "placed_queue K contents addr"
    using assms(1,2) by (simp add: placed_queue_def placed_queue_axioms_def)
  show ?thesis
    using placed_queue.pool_live [OF P _ assms(4-7)] pool_reach_inv [OF assms(1-3)] by blast
qed

text \<open>
  C2. Memory safety of the blocking pool, under every interleaving of polls, drops and workers: a worker
  that has a slot finds its runner; when it takes the closure and when it writes the result, the slot
  points to a future that is alive, that waits, and that is not itself using the shared data, and the
  closure is there; and a future that sees \<open>Done\<close> finds the result.
\<close>

theorem blocking_memory_safe:
  assumes "zephyr_queue K contents" and "addr \<noteq> 0" and "pool_reach K addr pool exec fn s"
  shows "(\<forall>w p. bp_wpc s w = WGot p \<longrightarrow> sl_runner (bp_slots s p)) \<and>
    (\<forall>w p. bp_wpc s w = WLive1 p \<longrightarrow>
      (\<exists>f. run_op_take (bp_slots s p) (bp_op s) = Ret ((f, Some (fn f)), (bp_op s)(f := None)) \<and>
        bp_fpc s f \<in> {FWait p, FPolled p, FDrop p, FCancel p})) \<and>
    (\<forall>w p f r. bp_wpc s w = WLive2 p f r \<longrightarrow>
      run_op_write (bp_slots s p) r (bp_result s) = Ret ((bp_result s)(f := Some r)) \<and>
      bp_fpc s f \<in> {FWait p, FPolled p, FDrop p, FCancel p}) \<and>
    (\<forall>f p. bp_fpc s f = FTake p \<longrightarrow> bp_result s f = Some (exec (fn f)))"
proof (intro conjI allI impI)
  note inv = pool_reach_inv [OF assms, THEN conjunct1]
  note live = pool_worker_live [OF assms]
  show "sl_runner (bp_slots s p)" if "bp_wpc s w = WGot p" for w p
    using bp_inv_work(2) [OF inv that] by simp
  show "\<exists>f. run_op_take (bp_slots s p) (bp_op s) = Ret ((f, Some (fn f)), (bp_op s)(f := None)) \<and>
      bp_fpc s f \<in> {FWait p, FPolled p, FDrop p, FCancel p}" if w: "bp_wpc s w = WLive1 p" for w p
    using live [OF w, of p] bp_inv_work(1) [OF inv w, of p] by (auto simp: run_op_take_def owner_op_def)
  show "bp_fpc s f \<in> {FWait p, FPolled p, FDrop p, FCancel p}"
    and "run_op_write (bp_slots s p) r (bp_result s) = Ret ((bp_result s)(f := Some r))"
    if w: "bp_wpc s w = WLive2 p f r" for w p f r
  proof -
    have o: "sl_state (bp_slots s p) = Queued" "fmap s f = Some p"
      using bp_inv_work(1) [OF inv w, of p] by (auto simp: owner_is_def)
    obtain g where g: "fmap s g = Some p" "sl_shared (bp_slots s p) = Some g"
      "bp_fpc s g \<in> {FWait p, FPolled p, FDrop p, FCancel p}" using live [OF w, of p] o by auto
    moreover have "g = f" using g o inv by (auto simp: bp_inv_def inv_refs_def dest: exclusiveD)
    ultimately show "bp_fpc s f \<in> {FWait p, FPolled p, FDrop p, FCancel p}"
      "run_op_write (bp_slots s p) r (bp_result s) = Ret ((bp_result s)(f := Some r))"
      by (auto simp: run_op_write_def)
  qed
  show "bp_result s f = Some (exec (fn f))" if f: "bp_fpc s f = FTake p" for f p
    using bp_inv_fut(1) [OF inv f, of p] inv by (auto simp: bp_inv_def inv_data_def data_ok_def)
qed

text \<open>A run with one slot, one future and one worker, up to the worker's access and to the result.\<close>

definition demo_live :: "(ptr list Queue, nat, nat) bpool" where
  "demo_live = wgo 0 (WLive1 32) (wgo 0 (WLocked1 32) (on_slot 32 (lock_slot (LW 0))
     (wgo 0 (WGot 32) ((fgo 0 (FWait 32) ((fgo 0 (FSend 32) (on_slot 32 poll_publish
       (fgo 0 (FWired 32) (on_slot 32 (poll_wire 0) (fgo 0 (FClaimed 32) (on_slot 32 (\<lambda>_. Slot_new\<lparr>sl_state := Claimed\<rparr>)
         ((fgo 0 (FScan 0) ((bp_start (Queue_new list_queue_api) (\<lambda>_. 4))
            \<lparr>bp_wait_lock := Some 0, bp_woken := UNIV - {0}\<rparr>))\<lparr>bp_wait_lock := None\<rparr>)))))))
       \<lparr>bp_queue := \<lparr>zo_state = 16, zo_object = [32]\<rparr>\<rparr>))\<lparr>bp_queue := \<lparr>zo_state = 16, zo_object = []\<rparr>\<rparr>))))"

definition demo_ready :: "(ptr list Queue, nat, nat) bpool" where
  "demo_ready = (let s = demo_live;
     s = wgo 0 (WRun 32 0 4) (on_slot 32 unlock_slot (wgo 0 (WTook 32 0 4) (s\<lparr>bp_op := (bp_op s)(0 := None)\<rparr>)));
     s = wgo 0 (WRan 32 0 (Suc 4)) (s\<lparr>bp_runs := (bp_runs s)(0 := Suc (bp_runs s 0))\<rparr>);
     s = wgo 0 (WLive2 32 0 (Suc 4)) (wgo 0 (WLocked2 32 0 (Suc 4)) (on_slot 32 (lock_slot (LW 0)) s));
     s = wgo 0 (WDone 32) (on_slot 32 run_op_done (wgo 0 (WWritten 32 0) (s\<lparr>bp_result := (bp_result s)(0 := Some (Suc 4))\<rparr>)));
     s = fgo 0 (FTake 32) (fgo 0 (FPolled 32) (on_slot 32 (poll_register 0) (s\<lparr>bp_woken := bp_woken s - {0}\<rparr>)));
     s = fgo 0 (FRelease 32 (Some (Suc 4))) (s\<lparr>bp_result := (bp_result s)(0 := None)\<rparr>)
   in fgo 0 (FReady (Suc 4)) (wake_waiters (fgo 0 (FWakeAll (Some (Suc 4))) (on_slot 32 release_store s))))"

abbreviation demo_reach where "demo_reach \<equiv> pool_reach list_queue_api 16 [32] Suc (\<lambda>_. 4)"

lemma demo_step:
  "demo_reach s \<Longrightarrow> poll_step (Queue_send list_queue_api 16) [32] f s s' \<Longrightarrow> demo_reach s'"
  "demo_reach s \<Longrightarrow> drop_step (Queue_remove list_queue_api 16) f s s' \<Longrightarrow> demo_reach s'"
  "demo_reach s \<Longrightarrow> worker_step (Queue_recv list_queue_api 16) Suc w s s' \<Longrightarrow> demo_reach s'"
  unfolding pool_reach_def by (auto intro: bp_more by_poll by_drop by_worker)

lemma demo_addr: "(16 :: ptr) \<noteq> 0" by simp

lemmas demo_defs = bp_start_def Slot_new_def slot_defs Queue_send_def Queue_recv_def Queue_init_def
  Queue_new_def ZephyrObject_new_raw_def list_queue_api_def ZephyrObject_get_first ZephyrObject_get_again

lemma demo_claim:
  assumes "demo_reach s" and "bp_fpc s 0 = FScan 0" and "bp_slots s 32 = Slot_new"
  shows "demo_reach (fgo 0 (FClaimed 32) (on_slot 32 (\<lambda>_. Slot_new\<lparr>sl_state := Claimed\<rparr>) (s\<lparr>bp_wait_lock := None\<rparr>)))"
  using demo_step(1) [OF assms(1) claim_hit [OF assms(2), of "[32]"]] assms(3)
  by (simp add: claim_cas_def Slot_new_def)

lemma demo_scan_reach:
  "demo_reach (fgo 0 (FScan 0) ((bp_start (Queue_new list_queue_api) (\<lambda>_. 4))
     \<lparr>bp_wait_lock := Some 0, bp_woken := UNIV - {0}\<rparr>))"
proof -
  let ?s = "bp_start (Queue_new list_queue_api) (\<lambda>_. 4) :: (ptr list Queue, nat, nat) bpool"
  have s: "bp_fpc ?s 0 = FNew" "bp_wait_lock ?s = None" "bp_woken ?s = UNIV" by (simp_all add: bp_start_def)
  have "demo_reach ?s" unfolding pool_reach_def by (rule bp_init)
  from demo_step(1) [OF this claim_lock [OF s(1,2)]] s(3) show ?thesis by simp
qed

lemma demo_live_reach: "demo_reach demo_live"
  unfolding demo_live_def
  by (rule demo_step(3) [OF _ load1_live], rule demo_step(3) [OF _ lock1], rule demo_step(3) [OF _ dequeue],
      rule demo_step(1) [OF _ send_slot], rule demo_step(1) [OF _ publish], rule demo_step(1) [OF _ wire],
      rule demo_claim, rule demo_scan_reach)
    (simp_all add: demo_defs)

lemma demo_ready_reach: "demo_reach demo_ready"
  unfolding demo_ready_def Let_def
  by (rule demo_step(1) [OF _ release_wake [where r = "Some x" for x, simplified]],
      rule demo_step(1) [OF _ release_slot], rule demo_step(1) [OF _ take_result],
      rule demo_step(1) [OF _ see_done], rule demo_step(1) [OF _ repoll],
      rule demo_step(3) [OF _ store_done], rule demo_step(3) [OF _ write_result],
      rule demo_step(3) [OF _ load2_live], rule demo_step(3) [OF _ lock2],
      rule demo_step(3) [OF _ call_op], rule demo_step(3) [OF _ unlock1_op],
      rule demo_step(3) [OF _ take_op], rule demo_live_reach)
    (simp_all add: demo_live_def demo_defs)

theorem blocking_memory_safe_witness:
  "bp_wpc demo_live 0 = WLive1 32 \<and>
   (\<exists>f. run_op_take (bp_slots demo_live 32) (bp_op demo_live) = Ret ((f, Some 4), (bp_op demo_live)(f := None)) \<and>
      bp_fpc demo_live f \<in> {FWait 32, FPolled 32, FDrop 32, FCancel 32})"
proof -
  have w: "bp_wpc demo_live 0 = WLive1 32" by (simp add: demo_live_def)
  then show ?thesis
    using blocking_memory_safe [OF list_queue.zephyr_queue_axioms demo_addr demo_live_reach] by blast
qed

text \<open>
  C14. A closure runs at most once: while it is still in its future it has not run, and a future that is
  ready with a result, or has one waiting, ran its closure exactly once and has what the call returned.
\<close>

theorem blocking_runs_once:
  assumes "zephyr_queue K contents" and "addr \<noteq> 0" and "pool_reach K addr pool exec fn s"
  shows "bp_runs s f \<le> 1 \<and> (bp_op s f \<noteq> None \<longrightarrow> bp_op s f = Some (fn f) \<and> bp_runs s f = 0) \<and>
    (\<forall>r. bp_fpc s f = FReady r \<or> bp_result s f = Some r \<longrightarrow> r = exec (fn f) \<and> bp_runs s f = 1)"
  using pool_reach_inv [OF assms] by (auto simp: bp_inv_def inv_data_def data_ok_def)

theorem blocking_runs_once_witness:
  "bp_fpc demo_ready 0 = FReady 5 \<and> bp_runs demo_ready 0 = 1"
proof -
  have f: "bp_fpc demo_ready 0 = FReady 5" by (simp add: demo_ready_def Let_def)
  then show ?thesis
    using blocking_runs_once [OF list_queue.zephyr_queue_axioms demo_addr demo_ready_reach, of 0] by auto
qed

text \<open>
  C13. Slots are neither shared nor lost: no two futures own the same slot, no two workers have the same
  slot, the queue holds no slot twice and none that a worker has; a free slot belongs to nobody; a slot
  that is not free is owned by a future or, once its future is dropped, is with a worker that will
  release it.
\<close>

theorem blocking_slots_conserved:
  assumes "zephyr_queue K contents" and "addr \<noteq> 0" and "pool_reach K addr pool exec fn s"
  shows "exclusive (fmap s) \<and> exclusive (wmap s) \<and> distinct (Queue_items contents (bp_queue s)) \<and>
    set (Queue_items contents (bp_queue s)) \<subseteq> set pool - ran (wmap s) \<and>
    (\<forall>p \<in> set pool. sl_state (bp_slots s p) = Free \<longrightarrow>
       p \<notin> ran (fmap s) \<and> p \<notin> ran (wmap s) \<and> p \<notin> set (Queue_items contents (bp_queue s))) \<and>
    (\<forall>p \<in> set pool. sl_state (bp_slots s p) = Orphaned \<longrightarrow> p \<notin> ran (fmap s) \<and> p \<in> ran (wmap s)) \<and>
    (\<forall>p \<in> set pool. sl_state (bp_slots s p) \<in> {Claimed, Queued, Done} \<longrightarrow> p \<in> ran (fmap s))"
proof -
  note inv = pool_reach_inv [OF assms, THEN conjunct1]
  have slots: "slot_ok (sl_state (bp_slots s p)) (p \<in> ran (fmap s)) (p \<in> ran (wmap s))
      (p \<in> set (Queue_items contents (bp_queue s)))" if "p \<in> set pool" for p
    using inv that by (simp add: bp_inv_def inv_slot_def)
  have refs: "inv_refs (Queue_items contents) pool s" using inv by (simp add: bp_inv_def)
  then have "exclusive (fmap s)" "exclusive (wmap s)" "distinct (Queue_items contents (bp_queue s))"
    "set (Queue_items contents (bp_queue s)) \<subseteq> set pool - ran (wmap s)"
    by (auto simp: inv_refs_def)
  moreover have "p \<notin> ran (fmap s) \<and> p \<notin> ran (wmap s) \<and> p \<notin> set (Queue_items contents (bp_queue s))"
    if "p \<in> set pool" "sl_state (bp_slots s p) = Free" for p using slots [OF that(1)] that(2) by simp
  moreover have "p \<notin> ran (fmap s) \<and> p \<in> ran (wmap s)"
    if "p \<in> set pool" "sl_state (bp_slots s p) = Orphaned" for p using slots [OF that(1)] that(2) by simp
  moreover have "p \<in> ran (fmap s)"
    if "p \<in> set pool" "sl_state (bp_slots s p) \<in> {Claimed, Queued, Done}" for p using slots [OF that(1)] that(2) by auto
  ultimately show ?thesis by blast
qed

theorem blocking_slots_conserved_witness:
  "sl_state (bp_slots demo_ready 32) = Free \<and> 32 \<notin> ran (fmap demo_ready) \<and> 32 \<notin> ran (wmap demo_ready)"
proof -
  have "sl_state (bp_slots demo_ready 32) = Free" by (simp add: demo_ready_def Let_def release_store_def)
  then show ?thesis
    using blocking_slots_conserved [OF list_queue.zephyr_queue_axioms demo_addr demo_ready_reach] by simp
qed

text \<open>
  C12. No wake-up is lost: a task that waits for a free slot is either about to be polled or registered,
  and while tasks are registered and a slot is free some thread is about to wake them all; a task that
  waits for its result is about to be polled or has its waker in its slot, and if the result is there a
  worker is about to call that waker.
\<close>

theorem blocking_no_lost_wakeup:
  assumes "zephyr_queue K contents" and "addr \<noteq> 0" and "pool_reach K addr pool exec fn s"
  shows "(\<forall>f. bp_fpc s f = FNew \<longrightarrow> f \<in> bp_woken s \<or> f \<in> bp_waiters s) \<and>
    (bp_waiters s \<noteq> {} \<longrightarrow> (\<exists>p \<in> set pool. sl_state (bp_slots s p) = Free) \<longrightarrow> wake_due s) \<and>
    (\<forall>f p. bp_fpc s f = FWait p \<longrightarrow> f \<in> bp_woken s \<or>
       sl_waker (bp_slots s p) = Some f \<and> (sl_state (bp_slots s p) = Done \<longrightarrow> slot_wake_due s p))"
  using pool_reach_inv [OF assms] unfolding wake_slots_inv_def wake_waiters_inv_def by blast

theorem blocking_no_lost_wakeup_witness:
  "bp_fpc demo_live 0 = FWait 32 \<and> 0 \<notin> bp_woken demo_live \<and> sl_waker (bp_slots demo_live 32) = Some 0"
proof -
  have "bp_fpc demo_live 0 = FWait 32" and "0 \<notin> bp_woken demo_live"
    by (simp_all add: demo_live_def bp_start_def)
  then show ?thesis
    using blocking_no_lost_wakeup [OF list_queue.zephyr_queue_axioms demo_addr demo_live_reach] by blast
qed

end
