(* ===== verification/Timer.thy ===== *)
theory Timer
  imports Kernel_Object Error_Time
begin

text \<open>
  \<open>zephyr/src/timer.rs\<close>: stopped, simple and callback timers over the kernel's \<open>k_timer\<close>. The memory of
  the timers and of the pinned callback timers is explicit, so that an access to freed memory, from a
  thread or from the timer interrupt, is the outcome \<open>UB\<close>. The kernel's own part of a \<open>k_timer\<close> and its
  operations are a parameter with their documented behaviour (\<open>zephyr_timer\<close>).
\<close>

section \<open>The kernel's timers\<close>

text \<open>
  The fields of \<open>k_timer\<close> that the Rust code writes, and the rest of it. The only expiry function that is
  ever installed is \<open>timer_expiry\<close>.
\<close>

datatype expiry_fn = timer_expiry_fn

record 'k k_timer =
  kt_core :: 'k
  kt_expiry_fn :: "expiry_fn option"
  kt_user_data :: ptr

text \<open>\<open>k_timer_expire\<close> is the kernel's timer interrupt: it has no effect unless the timer is due.\<close>

record 'k k_timer_api =
  k_timer_init :: 'k
  k_timer_start :: "'k \<Rightarrow> k_timeout_t \<Rightarrow> k_timeout_t \<Rightarrow> 'k"
  k_timer_stop :: "'k \<Rightarrow> 'k"
  k_timer_status_get :: "'k \<Rightarrow> u32 \<times> 'k"
  k_timer_status_sync :: "'k \<Rightarrow> (u32 \<times> 'k) outcome"
  k_timer_expire :: "'k \<Rightarrow> 'k option"

text \<open>
  The documented behaviour: starting clears the status, a stopped timer does not expire, each expiry
  adds one to the status, reading the status clears it, and \<open>k_timer_status_sync\<close> waits while the timer
  runs and has not expired.
\<close>

locale zephyr_timer =
  fixes K :: "'k k_timer_api" and running :: "'k \<Rightarrow> bool" and status :: "'k \<Rightarrow> u32"
  assumes init_stopped: "\<not> running (k_timer_init K)" and init_status: "status (k_timer_init K) = 0"
    and start_status: "status (k_timer_start K k d p) = 0"
    and stop_stopped: "\<not> running (k_timer_stop K k)"
    and expire_running: "k_timer_expire K k = Some k' \<Longrightarrow> running k"
    and expire_status: "k_timer_expire K k = Some k' \<Longrightarrow> status k' = status k + 1"
    and get_status: "k_timer_status_get K k = (c, k') \<Longrightarrow> c = status k \<and> status k' = 0 \<and> running k' = running k"
    and sync_fired: "status k \<noteq> 0 \<Longrightarrow> k_timer_status_sync K k = Ret (k_timer_status_get K k)"
    and sync_stopped: "status k = 0 \<Longrightarrow> \<not> running k \<Longrightarrow> k_timer_status_sync K k = Ret (0, k)"
    and sync_waits: "status k = 0 \<Longrightarrow> running k \<Longrightarrow> k_timer_status_sync K k = Blocked"

section \<open>The Rust timers\<close>

record StoppedTimer =
  st_item :: Fixed

record SimpleTimer =
  si_item :: "Fixed option"

text \<open>The function is named by a number; what a call does is recorded in the state's log.\<close>

record 'd Callback =
  cb_call :: nat
  cb_data :: 'd

record 'd CallbackTimer =
  ct_item :: "Fixed option"
  ct_expiry :: "'d Callback"

text \<open>The memory of the timers and of the boxed callback timers, and the calls made by interrupts.\<close>

record ('k, 'd) tmem =
  tm_timers :: "ptr \<rightharpoonup> 'k k_timer"
  tm_boxes :: "ptr \<rightharpoonup> 'd CallbackTimer"
  tm_log :: "(nat \<times> 'd) list"

definition timer_at :: "('k, 'd) tmem \<Rightarrow> ptr \<Rightarrow> 'k k_timer outcome" where
  "timer_at s p = (case tm_timers s p of None \<Rightarrow> UB | Some t \<Rightarrow> Ret t)"

definition put_timer :: "ptr \<Rightarrow> 'k k_timer \<Rightarrow> ('k, 'd) tmem \<Rightarrow> ('k, 'd) tmem" where
  "put_timer p t s = s\<lparr>tm_timers := (tm_timers s)(p \<mapsto> t)\<rparr>"

definition on_core :: "('k \<Rightarrow> 'k) \<Rightarrow> ptr \<Rightarrow> ('k, 'd) tmem \<Rightarrow> ('k, 'd) tmem outcome" where
  "on_core g p s = bind_outcome (timer_at s p) (\<lambda>t. Ret (put_timer p (t\<lparr>kt_core := g (kt_core t)\<rparr>) s))"

text \<open>Dropping a \<open>Fixed\<close> frees an owned object.\<close>

definition Fixed_drop :: "Fixed \<Rightarrow> ('k, 'd) tmem \<Rightarrow> ('k, 'd) tmem" where
  "Fixed_drop fx s = (case fx of Static _ \<Rightarrow> s | Owned p \<Rightarrow> s\<lparr>tm_timers := (tm_timers s)(p := None)\<rparr>)"

text \<open>\<open>StoppedTimer::new\<close>, at the address \<open>p\<close> of the new box, and \<open>get_wrapped\<close> of a static timer at \<open>p\<close>.\<close>

definition fresh_timer :: "'k k_timer_api \<Rightarrow> 'k k_timer" where
  "fresh_timer K = \<lparr>kt_core = k_timer_init K, kt_expiry_fn = None, kt_user_data = 0\<rparr>"

definition StoppedTimer_new :: "'k k_timer_api \<Rightarrow> ptr \<Rightarrow> ('k, 'd) tmem \<Rightarrow> StoppedTimer \<times> ('k, 'd) tmem" where
  "StoppedTimer_new K p s = (let item = Fixed_new p
     in (\<lparr>st_item = item\<rparr>, put_timer (Fixed_get item) (fresh_timer K) s))"

definition StaticStoppedTimer_get_wrapped ::
    "'k k_timer_api \<Rightarrow> ptr \<Rightarrow> ('k, 'd) tmem \<Rightarrow> StoppedTimer \<times> ('k, 'd) tmem" where
  "StaticStoppedTimer_get_wrapped K p s = (\<lparr>st_item = Static p\<rparr>, put_timer p (fresh_timer K) s)"

definition StoppedTimer_start_simple ::
    "'k k_timer_api \<Rightarrow> StoppedTimer \<Rightarrow> k_timeout_t \<Rightarrow> k_timeout_t \<Rightarrow> ('k, 'd) tmem \<Rightarrow>
     (SimpleTimer \<times> ('k, 'd) tmem) outcome" where
  "StoppedTimer_start_simple K self delay period s =
     bind_outcome (on_core (\<lambda>k. k_timer_start K k delay period) (Fixed_get (st_item self)) s)
       (\<lambda>s. Ret (\<lparr>si_item = Some (st_item self)\<rparr>, s))"

subsection \<open>\<open>SimpleTimer\<close>\<close>

definition SimpleTimer_item_ptr :: "SimpleTimer \<Rightarrow> ptr outcome" where
  "SimpleTimer_item_ptr self =
     bind_outcome (expect ''Use of SimpleTimer after stop'' (si_item self)) (\<lambda>item. Ret (Fixed_get item))"

definition SimpleTimer_read_count ::
    "'k k_timer_api \<Rightarrow> SimpleTimer \<Rightarrow> ('k, 'd) tmem \<Rightarrow> (u32 \<times> ('k, 'd) tmem) outcome" where
  "SimpleTimer_read_count K self s =
     bind_outcome (SimpleTimer_item_ptr self) (\<lambda>p.
     bind_outcome (timer_at s p) (\<lambda>t.
       let (c, k) = k_timer_status_get K (kt_core t) in Ret (c, put_timer p (t\<lparr>kt_core := k\<rparr>) s)))"

definition SimpleTimer_read_count_wait ::
    "'k k_timer_api \<Rightarrow> SimpleTimer \<Rightarrow> ('k, 'd) tmem \<Rightarrow> (u32 \<times> ('k, 'd) tmem) outcome" where
  "SimpleTimer_read_count_wait K self s =
     bind_outcome (SimpleTimer_item_ptr self) (\<lambda>p.
     bind_outcome (timer_at s p) (\<lambda>t.
     bind_outcome (k_timer_status_sync K (kt_core t)) (\<lambda>(c, k). Ret (c, put_timer p (t\<lparr>kt_core := k\<rparr>) s))))"

definition SimpleTimer_restart ::
    "'k k_timer_api \<Rightarrow> SimpleTimer \<Rightarrow> k_timeout_t \<Rightarrow> k_timeout_t \<Rightarrow> ('k, 'd) tmem \<Rightarrow> ('k, 'd) tmem outcome" where
  "SimpleTimer_restart K self delay period s =
     bind_outcome (SimpleTimer_item_ptr self) (\<lambda>p. on_core (\<lambda>k. k_timer_start K k delay period) p s)"

definition SimpleTimer_raw_stop ::
    "'k k_timer_api \<Rightarrow> SimpleTimer \<Rightarrow> ('k, 'd) tmem \<Rightarrow> (Fixed option \<times> SimpleTimer \<times> ('k, 'd) tmem) outcome" where
  "SimpleTimer_raw_stop K self s = (case si_item self of
     None \<Rightarrow> Ret (None, self, s)
   | Some item \<Rightarrow> bind_outcome (on_core (k_timer_stop K) (Fixed_get item) s)
       (\<lambda>s. Ret (Some item, self\<lparr>si_item := None\<rparr>, s)))"

definition SimpleTimer_drop :: "'k k_timer_api \<Rightarrow> SimpleTimer \<Rightarrow> ('k, 'd) tmem \<Rightarrow> ('k, 'd) tmem outcome" where
  "SimpleTimer_drop K self s =
     bind_outcome (SimpleTimer_raw_stop K self s) (\<lambda>(item, _, s).
       Ret (case item of None \<Rightarrow> s | Some fx \<Rightarrow> Fixed_drop fx s))"

text \<open>\<open>stop\<close> consumes the timer, which is dropped at its end, with no item left.\<close>

definition SimpleTimer_stop ::
    "'k k_timer_api \<Rightarrow> SimpleTimer \<Rightarrow> ('k, 'd) tmem \<Rightarrow> (StoppedTimer \<times> ('k, 'd) tmem) outcome" where
  "SimpleTimer_stop K self s =
     bind_outcome (SimpleTimer_raw_stop K self s) (\<lambda>(item, self, s).
     bind_outcome (expect ''Error in stop/drop interaction'' item) (\<lambda>item.
     bind_outcome (SimpleTimer_drop K self s) (\<lambda>s.
       Ret (\<lparr>st_item = item\<rparr>, s))))"

subsection \<open>\<open>CallbackTimer\<close>\<close>

definition CallbackTimer_item_ptr :: "'d CallbackTimer \<Rightarrow> ptr outcome" where
  "CallbackTimer_item_ptr self =
     bind_outcome (expect ''Use of SimpleTimer after stop'' (ct_item self)) (\<lambda>item. Ret (Fixed_get item))"

text \<open>\<open>CallbackTimer::new\<close>, with the pinned box at \<open>b\<close>; the user data is the address of its \<open>expiry\<close>.\<close>

definition CallbackTimer_new ::
    "'k k_timer_api \<Rightarrow> ptr \<Rightarrow> StoppedTimer \<Rightarrow> 'd Callback \<Rightarrow> k_timeout_t \<Rightarrow> k_timeout_t \<Rightarrow> ('k, 'd) tmem \<Rightarrow>
     (ptr \<times> ('k, 'd) tmem) outcome" where
  "CallbackTimer_new K b item callback delay period s =
     (let this = \<lparr>ct_item = Some (st_item item), ct_expiry = callback\<rparr>;
          s = s\<lparr>tm_boxes := (tm_boxes s)(b \<mapsto> this)\<rparr>
      in bind_outcome (CallbackTimer_item_ptr this) (\<lambda>p.
         bind_outcome (timer_at s p) (\<lambda>t.
           let t = t\<lparr>kt_expiry_fn := Some timer_expiry_fn\<rparr>;
               t = t\<lparr>kt_user_data := b\<rparr>;
               t = t\<lparr>kt_core := k_timer_start K (kt_core t) delay period\<rparr>
           in Ret (b, put_timer p t s))))"

definition StoppedTimer_start_callback where
  "StoppedTimer_start_callback K b self callback delay period s = CallbackTimer_new K b self callback delay period s"

definition timer_expiry :: "ptr \<Rightarrow> ('k, 'd) tmem \<Rightarrow> ('k, 'd) tmem outcome" where
  "timer_expiry ktimer s =
     bind_outcome (timer_at s ktimer) (\<lambda>t.
       if kt_user_data t = 0 then Ret s
       else case tm_boxes s (kt_user_data t) of
              None \<Rightarrow> UB
            | Some ct \<Rightarrow> Ret (s\<lparr>tm_log := tm_log s @ [(cb_call (ct_expiry ct), cb_data (ct_expiry ct))]\<rparr>))"

text \<open>The interrupt: the kernel lets a due timer expire and calls its expiry function.\<close>

definition timer_isr :: "'k k_timer_api \<Rightarrow> ptr \<Rightarrow> 'k k_timer \<Rightarrow> ('k, 'd) tmem \<Rightarrow> ('k, 'd) tmem outcome" where
  "timer_isr K p t s = (case k_timer_expire K (kt_core t) of
     None \<Rightarrow> Ret s
   | Some k \<Rightarrow> let s = put_timer p (t\<lparr>kt_core := k\<rparr>) s in
       (case kt_expiry_fn t of None \<Rightarrow> Ret s | Some timer_expiry_fn \<Rightarrow> timer_expiry p s))"

definition CallbackTimer_raw_stop ::
    "'k k_timer_api \<Rightarrow> 'd CallbackTimer \<Rightarrow> ('k, 'd) tmem \<Rightarrow>
     (Fixed option \<times> 'd CallbackTimer \<times> ('k, 'd) tmem) outcome" where
  "CallbackTimer_raw_stop K self s = (case ct_item self of
     None \<Rightarrow> Ret (None, self, s)
   | Some item \<Rightarrow> (let raw_item = Fixed_get item in
       bind_outcome (on_core (k_timer_stop K) raw_item s) (\<lambda>s.
       bind_outcome (timer_at s raw_item) (\<lambda>t.
         Ret (Some item, self\<lparr>ct_item := None\<rparr>, put_timer raw_item (t\<lparr>kt_expiry_fn := None\<rparr>) s)))))"

text \<open>Dropping the box at \<open>b\<close>: \<open>drop\<close> runs in place, then the box is freed.\<close>

definition CallbackTimer_drop :: "'k k_timer_api \<Rightarrow> ptr \<Rightarrow> ('k, 'd) tmem \<Rightarrow> ('k, 'd) tmem outcome" where
  "CallbackTimer_drop K b s = (case tm_boxes s b of
     None \<Rightarrow> UB
   | Some self \<Rightarrow> bind_outcome (CallbackTimer_raw_stop K self s) (\<lambda>(item, self, s).
       let s = (case item of None \<Rightarrow> s | Some fx \<Rightarrow> Fixed_drop fx s)
       in Ret (s\<lparr>tm_boxes := (tm_boxes s)(b := None)\<rparr>)))"

text \<open>\<open>stop\<close> takes the timer out of its box, which is freed; the rest is dropped with no item left.\<close>

definition CallbackTimer_stop ::
    "'k k_timer_api \<Rightarrow> ptr \<Rightarrow> ('k, 'd) tmem \<Rightarrow> (StoppedTimer \<times> ('k, 'd) tmem) outcome" where
  "CallbackTimer_stop K b s = (case tm_boxes s b of
     None \<Rightarrow> UB
   | Some self \<Rightarrow> bind_outcome (CallbackTimer_raw_stop K self s) (\<lambda>(item, self, s).
       bind_outcome (expect ''Error in stop/drop interaction'' item) (\<lambda>item.
       bind_outcome (CallbackTimer_raw_stop K self s) (\<lambda>(_, _, s).
         Ret (\<lparr>st_item = item\<rparr>, s\<lparr>tm_boxes := (tm_boxes s)(b := None)\<rparr>)))))"

section \<open>Programs that use timers\<close>

text \<open>
  The timers a program holds, by the address of the \<open>k_timer\<close>; a callback timer is held through its
  box. Safe code cannot move a \<open>CallbackTimer\<close> out of its pinned box, so it can drop one but not call its
  \<open>stop\<close>. The interrupt comes between any two operations, for any timer in memory.
\<close>

datatype handle = HStopped StoppedTimer | HSimple SimpleTimer | HCallback ptr

type_synonym ('k, 'd) tsys = "('k, 'd) tmem \<times> (ptr \<rightharpoonup> handle)"

inductive tm_step :: "'k k_timer_api \<Rightarrow> ('k, 'd) tsys \<Rightarrow> ('k, 'd) tsys \<Rightarrow> bool" for K where
  new: "tm_timers s p = None \<Longrightarrow> h p = None \<Longrightarrow> StoppedTimer_new K p s = (st, s') \<Longrightarrow>
     tm_step K (s, h) (s', h(p \<mapsto> HStopped st))"
| static: "tm_timers s p = None \<Longrightarrow> h p = None \<Longrightarrow> StaticStoppedTimer_get_wrapped K p s = (st, s') \<Longrightarrow>
     tm_step K (s, h) (s', h(p \<mapsto> HStopped st))"
| start_simple: "h p = Some (HStopped st) \<Longrightarrow> StoppedTimer_start_simple K st delay period s = Ret (si, s') \<Longrightarrow>
     tm_step K (s, h) (s', h(p \<mapsto> HSimple si))"
| start_callback: "h p = Some (HStopped st) \<Longrightarrow> b \<noteq> 0 \<Longrightarrow> tm_boxes s b = None \<Longrightarrow>
     StoppedTimer_start_callback K b st callback delay period s = Ret (b', s') \<Longrightarrow>
     tm_step K (s, h) (s', h(p \<mapsto> HCallback b'))"
| read_count: "h p = Some (HSimple si) \<Longrightarrow> SimpleTimer_read_count K si s = Ret (c, s') \<Longrightarrow> tm_step K (s, h) (s', h)"
| read_count_wait: "h p = Some (HSimple si) \<Longrightarrow> SimpleTimer_read_count_wait K si s = Ret (c, s') \<Longrightarrow>
     tm_step K (s, h) (s', h)"
| restart: "h p = Some (HSimple si) \<Longrightarrow> SimpleTimer_restart K si delay period s = Ret s' \<Longrightarrow> tm_step K (s, h) (s', h)"
| stop_simple: "h p = Some (HSimple si) \<Longrightarrow> SimpleTimer_stop K si s = Ret (st, s') \<Longrightarrow>
     tm_step K (s, h) (s', h(p \<mapsto> HStopped st))"
| drop_stopped: "h p = Some (HStopped st) \<Longrightarrow> Fixed_drop (st_item st) s = s' \<Longrightarrow> tm_step K (s, h) (s', h(p := None))"
| drop_simple: "h p = Some (HSimple si) \<Longrightarrow> SimpleTimer_drop K si s = Ret s' \<Longrightarrow> tm_step K (s, h) (s', h(p := None))"
| drop_callback: "h p = Some (HCallback b) \<Longrightarrow> CallbackTimer_drop K b s = Ret s' \<Longrightarrow> tm_step K (s, h) (s', h(p := None))"
| interrupt: "tm_timers s p = Some t \<Longrightarrow> timer_isr K p t s = Ret s' \<Longrightarrow> tm_step K (s, h) (s', h)"

inductive tm_reach :: "'k k_timer_api \<Rightarrow> ('k, 'd) tsys \<Rightarrow> bool" for K where
  tm_init: "tm_reach K (\<lparr>tm_timers = Map.empty, tm_boxes = Map.empty, tm_log = []\<rparr>, Map.empty)"
| tm_more: "tm_reach K x \<Longrightarrow> tm_step K x y \<Longrightarrow> tm_reach K y"

section \<open>The invariant\<close>

text \<open>What holds of the timer at \<open>p\<close> in memory, given who holds it.\<close>

definition timer_ok ::
    "('k \<Rightarrow> bool) \<Rightarrow> ptr \<Rightarrow> handle option \<Rightarrow> 'k k_timer option \<Rightarrow> (ptr \<rightharpoonup> 'd CallbackTimer) \<Rightarrow> bool" where
  "timer_ok running p hnd tm boxes = (case hnd of
     None \<Rightarrow> (\<forall>t. tm = Some t \<longrightarrow> \<not> running (kt_core t) \<and> kt_expiry_fn t = None)
   | Some (HStopped st) \<Rightarrow> Fixed_get (st_item st) = p \<and>
       (\<exists>t. tm = Some t \<and> \<not> running (kt_core t) \<and> kt_expiry_fn t = None)
   | Some (HSimple si) \<Rightarrow> (\<exists>fx. si_item si = Some fx \<and> Fixed_get fx = p) \<and> (\<exists>t. tm = Some t \<and> kt_expiry_fn t = None)
   | Some (HCallback b) \<Rightarrow> b \<noteq> 0 \<and> (\<exists>ct fx. boxes b = Some ct \<and> ct_item ct = Some fx \<and> Fixed_get fx = p) \<and>
       (\<exists>t. tm = Some t \<and> kt_expiry_fn t = Some timer_expiry_fn \<and> kt_user_data t = b))"

definition tm_inv :: "('k \<Rightarrow> bool) \<Rightarrow> ('k, 'd) tsys \<Rightarrow> bool" where
  "tm_inv running x = (case x of (s, h) \<Rightarrow>
     \<forall>p. timer_ok running p (h p) (tm_timers s p) (tm_boxes s))"

lemma tm_invD: "tm_inv running (s, h) \<Longrightarrow> timer_ok running p (h p) (tm_timers s p) (tm_boxes s)"
  by (simp add: tm_inv_def)

text \<open>Two callback timers have different boxes, since each box names its timer.\<close>

lemma box_owner:
  "tm_inv running (s, h) \<Longrightarrow> h p = Some (HCallback b) \<Longrightarrow> h q = Some (HCallback b) \<Longrightarrow> p = q"
  using tm_invD [of running s h p] tm_invD [of running s h q] by (auto simp: timer_ok_def)

lemmas timer_ops = StoppedTimer_new_def StaticStoppedTimer_get_wrapped_def StoppedTimer_start_simple_def
  SimpleTimer_item_ptr_def SimpleTimer_read_count_def SimpleTimer_read_count_wait_def SimpleTimer_restart_def
  SimpleTimer_raw_stop_def SimpleTimer_drop_def SimpleTimer_stop_def CallbackTimer_item_ptr_def
  CallbackTimer_new_def StoppedTimer_start_callback_def timer_expiry_def timer_isr_def
  CallbackTimer_raw_stop_def CallbackTimer_drop_def on_core_def timer_at_def put_timer_def Fixed_drop_def
  fresh_timer_def Fixed_new_def Let_def

lemma tm_inv_update:
  assumes "tm_inv running (s, h)"
    and "\<And>q. q \<noteq> p \<Longrightarrow> tm_timers s' q = tm_timers s q \<and> h' q = h q"
    and "\<And>q b. q \<noteq> p \<Longrightarrow> h q = Some (HCallback b) \<Longrightarrow> tm_boxes s' b = tm_boxes s b"
    and "timer_ok running p (h' p) (tm_timers s' p) (tm_boxes s')"
  shows "tm_inv running (s', h')"
  unfolding tm_inv_def split_conv
proof
  fix q
  show "timer_ok running q (h' q) (tm_timers s' q) (tm_boxes s')"
    using assms(2,3) [of q] assms(4) tm_invD [OF assms(1), of q]
    by (cases "q = p") (auto simp: timer_ok_def split: option.splits handle.splits)
qed

context zephyr_timer
begin

lemma tm_inv_step:
  assumes inv: "tm_inv running x" and "tm_step K x y"
  shows "tm_inv running y"
  using assms(2)
proof cases
  case (new s p h st s')
  show ?thesis unfolding new
    by (rule tm_inv_update [where s = s and h = h and p = p])
      (use inv new init_stopped in \<open>auto simp: timer_ops timer_ok_def\<close>)
next
  case (static s p h st s')
  show ?thesis unfolding static
    by (rule tm_inv_update [where s = s and h = h and p = p])
      (use inv static init_stopped in \<open>auto simp: timer_ops timer_ok_def\<close>)
next
  case (start_simple h p st delay period s si s')
  have ok: "timer_ok running p (h p) (tm_timers s p) (tm_boxes s)" using inv start_simple(1) tm_invD by blast
  show ?thesis unfolding start_simple
    by (rule tm_inv_update [where s = s and h = h and p = p])
      (use inv start_simple ok in \<open>auto simp: timer_ops timer_ok_def\<close>)
next
  case (start_callback h p st b s callback delay period b' s')
  have ok: "timer_ok running p (h p) (tm_timers s p) (tm_boxes s)" using inv start_callback(1) tm_invD by blast
  have other: "c \<noteq> b" if "h q = Some (HCallback c)" for q c
    using inv start_callback(1,5) tm_invD [of running s h q] that by (auto simp: timer_ok_def)
  show ?thesis unfolding start_callback
    by (rule tm_inv_update [where s = s and h = h and p = p])
      (use inv start_callback ok other in \<open>auto simp: timer_ops timer_ok_def\<close>)
next
  case (read_count h p si s c s')
  have ok: "timer_ok running p (h p) (tm_timers s p) (tm_boxes s)" using inv read_count(1) tm_invD by blast
  show ?thesis unfolding read_count
    by (rule tm_inv_update [where s = s and h = h and p = p])
      (use inv read_count ok in \<open>auto simp: timer_ops timer_ok_def split: prod.splits\<close>)
next
  case (read_count_wait h p si s c s')
  have ok: "timer_ok running p (h p) (tm_timers s p) (tm_boxes s)" using inv read_count_wait(1) tm_invD by blast
  show ?thesis unfolding read_count_wait
    by (rule tm_inv_update [where s = s and h = h and p = p])
      (use inv read_count_wait ok in \<open>auto simp: timer_ops timer_ok_def outcome_simps split: prod.splits\<close>)
next
  case (restart h p si delay period s s')
  have ok: "timer_ok running p (h p) (tm_timers s p) (tm_boxes s)" using inv restart(1) tm_invD by blast
  show ?thesis unfolding restart
    by (rule tm_inv_update [where s = s and h = h and p = p])
      (use inv restart ok in \<open>auto simp: timer_ops timer_ok_def\<close>)
next
  case (stop_simple h p si s st s')
  have ok: "timer_ok running p (h p) (tm_timers s p) (tm_boxes s)" using inv stop_simple(1) tm_invD by blast
  show ?thesis unfolding stop_simple
    by (rule tm_inv_update [where s = s and h = h and p = p])
      (use inv stop_simple ok stop_stopped in \<open>auto simp: timer_ops timer_ok_def\<close>)
next
  case (drop_stopped h p st s s')
  have ok: "timer_ok running p (h p) (tm_timers s p) (tm_boxes s)" using inv drop_stopped(1) tm_invD by blast
  show ?thesis unfolding drop_stopped
    by (rule tm_inv_update [where s = s and h = h and p = p])
      (use inv drop_stopped ok in \<open>auto simp: timer_ops timer_ok_def split: Fixed.splits\<close>)
next
  case (drop_simple h p si s s')
  have ok: "timer_ok running p (h p) (tm_timers s p) (tm_boxes s)" using inv drop_simple(1) tm_invD by blast
  show ?thesis unfolding drop_simple
    by (rule tm_inv_update [where s = s and h = h and p = p])
      (use inv drop_simple ok stop_stopped in \<open>auto simp: timer_ops timer_ok_def split: Fixed.splits\<close>)
next
  case (drop_callback h p b s s')
  have ok: "timer_ok running p (h p) (tm_timers s p) (tm_boxes s)" using inv drop_callback(1) tm_invD by blast
  have other: "c \<noteq> b" if "q \<noteq> p" "h q = Some (HCallback c)" for q c
    using box_owner [of running s h q c p] inv drop_callback(1,3) that by auto
  show ?thesis unfolding drop_callback
    by (rule tm_inv_update [where s = s and h = h and p = p])
      (use inv drop_callback ok stop_stopped other in \<open>auto simp: timer_ops timer_ok_def split: Fixed.splits\<close>)
next
  case (interrupt s p t s' h)
  have ok: "timer_ok running p (h p) (tm_timers s p) (tm_boxes s)" using inv interrupt(1) tm_invD by blast
  show ?thesis unfolding interrupt
    by (rule tm_inv_update [where s = s and h = h and p = p])
      (use inv interrupt ok expire_running in
        \<open>auto simp: timer_ops timer_ok_def split: option.splits handle.splits expiry_fn.splits if_splits\<close>)
qed

lemma tm_reach_inv: "tm_reach K x \<Longrightarrow> tm_inv running x"
proof (induction rule: tm_reach.induct)
  case tm_init
  show ?case by (simp add: tm_inv_def timer_ok_def)
next
  case (tm_more x y)
  then show ?case using tm_inv_step by blast
qed

end

section \<open>Counting expiries\<close>

text \<open>
  What happens to a simple timer while it runs: an interrupt, or one of the two reads. Each event
  yields the number of expiries it is, the count it returned and the new state; a read that has to
  wait changes nothing yet.
\<close>

datatype count_event = Fire | Read | ReadWait

fun SimpleTimer_event ::
    "'k k_timer_api \<Rightarrow> Fixed \<Rightarrow> count_event \<Rightarrow> ('k, 'd) tmem \<Rightarrow> nat \<times> u32 \<times> ('k, 'd) tmem" where
  "SimpleTimer_event K fx Fire s = (case tm_timers s (Fixed_get fx) of
     None \<Rightarrow> (0, 0, s)
   | Some t \<Rightarrow> (case timer_isr K (Fixed_get fx) t s of
        Ret s' \<Rightarrow> (if k_timer_expire K (kt_core t) = None then 0 else 1, 0, s')
      | _ \<Rightarrow> (0, 0, s)))"
| "SimpleTimer_event K fx Read s = (case SimpleTimer_read_count K \<lparr>si_item = Some fx\<rparr> s of
     Ret (c, s') \<Rightarrow> (0, c, s') | _ \<Rightarrow> (0, 0, s))"
| "SimpleTimer_event K fx ReadWait s = (case SimpleTimer_read_count_wait K \<lparr>si_item = Some fx\<rparr> s of
     Ret (c, s') \<Rightarrow> (0, c, s') | _ \<Rightarrow> (0, 0, s))"

fun count_run :: "('e \<Rightarrow> 's \<Rightarrow> nat \<times> u32 \<times> 's) \<Rightarrow> 'e list \<Rightarrow> 's \<Rightarrow> nat \<times> u32 \<times> 's" where
  "count_run ev [] s = (0, 0, s)"
| "count_run ev (e # es) s =
     (let (n, c, s') = ev e s; (n', c', s'') = count_run ev es s' in (n + n', c + c', s''))"

text \<open>The contract of a counter that loses no event, and what follows for a whole run.\<close>

locale event_counter =
  fixes ev :: "'e \<Rightarrow> 's \<Rightarrow> nat \<times> u32 \<times> 's" and ok :: "'s \<Rightarrow> bool" and pending :: "'s \<Rightarrow> u32"
  assumes event_kept: "ok s \<Longrightarrow> ev e s = (n, c, s') \<Longrightarrow> ok s' \<and> c + pending s' = pending s + of_nat n"
begin

lemma run_kept: "ok s \<Longrightarrow> count_run ev es s = (n, c, s') \<Longrightarrow> ok s' \<and> c + pending s' = pending s + of_nat n"
proof (induction es arbitrary: s n c s')
  case (Cons e es)
  obtain n1 c1 s1 where e: "ev e s = (n1, c1, s1)" by (metis surj_pair)
  obtain n2 c2 s2 where r: "count_run ev es s1 = (n2, c2, s2)" by (metis surj_pair)
  have one: "ok s1" "c1 + pending s1 = pending s + of_nat n1" using event_kept [OF Cons.prems(1) e] by auto
  have "ok s2" "c2 + pending s2 = pending s1 + of_nat n2" using Cons.IH [OF one(1) r] by auto
  with Cons.prems(2) e r one show ?case by (auto simp: algebra_simps)
qed simp

end

definition simple_ok :: "Fixed \<Rightarrow> ('k, 'd) tmem \<Rightarrow> bool" where
  "simple_ok fx s \<longleftrightarrow> (\<exists>t. tm_timers s (Fixed_get fx) = Some t \<and> kt_expiry_fn t = None)"

definition simple_pending :: "('k \<Rightarrow> u32) \<Rightarrow> Fixed \<Rightarrow> ('k, 'd) tmem \<Rightarrow> u32" where
  "simple_pending status fx s = (case tm_timers s (Fixed_get fx) of None \<Rightarrow> 0 | Some t \<Rightarrow> status (kt_core t))"

locale simple_timer = zephyr_timer +
  fixes fx :: Fixed

sublocale simple_timer \<subseteq> simple: event_counter "SimpleTimer_event K fx" "simple_ok fx" "simple_pending status fx"
proof
  fix s s' :: "('a, 'c) tmem" and e n c
  assume ok: "simple_ok fx s" and e: "SimpleTimer_event K fx e s = (n, c, s')"
  obtain t where t: "tm_timers s (Fixed_get fx) = Some t" "kt_expiry_fn t = None"
    using ok by (auto simp: simple_ok_def)
  obtain c0 k0 where g: "k_timer_status_get K (kt_core t) = (c0, k0)" by fastforce
  have get: "c0 = status (kt_core t)" "status k0 = 0" using get_status [OF g] by auto
  note defs = simple_ok_def simple_pending_def timer_ops
  show "simple_ok fx s' \<and> c + simple_pending status fx s' = simple_pending status fx s + of_nat n"
  proof (cases e)
    case Fire
    then show ?thesis using e t expire_status by (auto simp: defs split: option.splits)
  next
    case Read
    then show ?thesis using e t g get by (auto simp: defs)
  next
    case ReadWait
    then show ?thesis
      using e t g get sync_fired [of "kt_core t"] sync_stopped [of "kt_core t"] sync_waits [of "kt_core t"]
      by (cases "status (kt_core t) = 0"; cases "running (kt_core t)") (auto simp: defs)
  qed
qed

context simple_timer
begin

lemmas timer_run_kept = simple.run_kept

end

section \<open>A reference kernel\<close>

text \<open>A timer is a flag and a status; while it runs it may expire at any time.\<close>

definition ref_timer_api :: "(bool \<times> u32) k_timer_api" where
  "ref_timer_api = \<lparr>k_timer_init = (False, 0), k_timer_start = (\<lambda>k d p. (True, 0)), k_timer_stop = (\<lambda>k. (False, snd k)),
     k_timer_status_get = (\<lambda>k. (snd k, (fst k, 0))),
     k_timer_status_sync = (\<lambda>k. if snd k = 0 \<and> fst k then Blocked else Ret (snd k, (fst k, 0))),
     k_timer_expire = (\<lambda>k. if fst k then Some (True, snd k + 1) else None)\<rparr>"

interpretation ref_timer: zephyr_timer ref_timer_api fst snd
  by unfold_locales (auto simp: ref_timer_api_def split: if_splits)

section \<open>Properties\<close>

text \<open>
  C7. Timers are safe against their interrupt. In every reachable state, an interrupt on any timer in
  memory never touches freed memory, and it calls a callback only for a timer that a live callback
  timer holds, and then the callback in its box; a timer that is stopped, dropped or left behind does
  not expire. Every operation on a held timer finds its memory and its item, so none of the panics of
  \<open>item_ptr\<close> and \<open>stop\<close> is reachable.
\<close>

theorem timers_safe:
  assumes "zephyr_timer K running status" and "tm_reach K (s, h)"
  shows "(\<forall>p t. tm_timers s p = Some t \<longrightarrow> (\<exists>s'. timer_isr K p t s = Ret s' \<and>
      (tm_log s' = tm_log s \<or> (\<exists>b ct. h p = Some (HCallback b) \<and> tm_boxes s b = Some ct \<and>
         tm_log s' = tm_log s @ [(cb_call (ct_expiry ct), cb_data (ct_expiry ct))])))) \<and>
    (\<forall>p t. tm_timers s p = Some t \<and> (h p = None \<or> (\<exists>st. h p = Some (HStopped st))) \<longrightarrow> timer_isr K p t s = Ret s) \<and>
    (\<forall>p si. h p = Some (HSimple si) \<longrightarrow> (\<exists>c s'. SimpleTimer_read_count K si s = Ret (c, s')) \<and>
      (SimpleTimer_read_count_wait K si s = Blocked \<or> (\<exists>c s'. SimpleTimer_read_count_wait K si s = Ret (c, s'))) \<and>
      (\<exists>s'. SimpleTimer_restart K si delay period s = Ret s') \<and>
      (\<exists>st s'. SimpleTimer_stop K si s = Ret (st, s') \<and> Some (st_item st) = si_item si) \<and>
      (\<exists>s'. SimpleTimer_drop K si s = Ret s')) \<and>
    (\<forall>p b. h p = Some (HCallback b) \<longrightarrow> (\<exists>s'. CallbackTimer_drop K b s = Ret s' \<and> tm_boxes s' b = None))"
proof -
  have inv: "timer_ok running p (h p) (tm_timers s p) (tm_boxes s)" for p
    using zephyr_timer.tm_reach_inv [OF assms] by (rule tm_invD)
  have stopped: "k_timer_expire K k = None" if "\<not> running k" for k
    using zephyr_timer.expire_running [OF assms(1), of k] that by (cases "k_timer_expire K k") auto
  have waits: "k_timer_status_sync K k = Blocked \<or> (\<exists>c k'. k_timer_status_sync K k = Ret (c, k'))" for k
    using zephyr_timer.sync_fired [OF assms(1), of k] zephyr_timer.sync_stopped [OF assms(1), of k]
      zephyr_timer.sync_waits [OF assms(1), of k] by (metis surj_pair)
  show ?thesis
  proof (intro conjI allI impI)
    fix p t assume t: "tm_timers s p = Some t"
    show "\<exists>s'. timer_isr K p t s = Ret s' \<and> (tm_log s' = tm_log s \<or> (\<exists>b ct. h p = Some (HCallback b) \<and> tm_boxes s b = Some ct \<and>
         tm_log s' = tm_log s @ [(cb_call (ct_expiry ct), cb_data (ct_expiry ct))]))"
      using inv [of p] t
      by (cases "k_timer_expire K (kt_core t)")
        (auto simp: timer_ok_def timer_ops split: option.splits handle.splits)
  next
    fix p t assume "tm_timers s p = Some t \<and> (h p = None \<or> (\<exists>st. h p = Some (HStopped st)))"
    then show "timer_isr K p t s = Ret s" using inv [of p] stopped by (auto simp: timer_ok_def timer_ops)
  next
    fix p si assume si: "h p = Some (HSimple si)"
    then obtain fx t where ft: "si_item si = Some fx" "tm_timers s (Fixed_get fx) = Some t"
      using inv [of p] by (auto simp: timer_ok_def)
    show "\<exists>c s'. SimpleTimer_read_count K si s = Ret (c, s')" using ft by (simp add: timer_ops split_beta)
    show "SimpleTimer_read_count_wait K si s = Blocked \<or> (\<exists>c s'. SimpleTimer_read_count_wait K si s = Ret (c, s'))"
      using ft waits [of "kt_core t"] by (auto simp: timer_ops)
    show "\<exists>s'. SimpleTimer_restart K si delay period s = Ret s'" using ft by (simp add: timer_ops)
    show "\<exists>st s'. SimpleTimer_stop K si s = Ret (st, s') \<and> Some (st_item st) = si_item si"
      using ft by (simp add: timer_ops)
    show "\<exists>s'. SimpleTimer_drop K si s = Ret s'" using ft by (simp add: timer_ops)
  next
    fix p b assume "h p = Some (HCallback b)"
    then show "\<exists>s'. CallbackTimer_drop K b s = Ret s' \<and> tm_boxes s' b = None"
      using inv [of p] by (auto simp: timer_ok_def timer_ops split: Fixed.splits)
  qed
qed

text \<open>A callback timer on the timer at 16, boxed at 32.\<close>

definition demo_timers :: "((bool \<times> u32), nat) tmem" where
  "demo_timers = \<lparr>tm_timers = [16 \<mapsto> \<lparr>kt_core = (True, 0), kt_expiry_fn = Some timer_expiry_fn, kt_user_data = 32\<rparr>],
     tm_boxes = [32 \<mapsto> \<lparr>ct_item = Some (Owned 16), ct_expiry = \<lparr>cb_call = 1, cb_data = 7\<rparr>\<rparr>], tm_log = []\<rparr>"

lemma demo_timers_reach: "tm_reach ref_timer_api (demo_timers, [16 \<mapsto> HCallback 32])"
proof -
  let ?s0 = "\<lparr>tm_timers = Map.empty, tm_boxes = Map.empty, tm_log = []\<rparr> :: ((bool \<times> u32), nat) tmem"
  let ?s1 = "?s0\<lparr>tm_timers := [16 \<mapsto> fresh_timer ref_timer_api]\<rparr>"
  let ?st = "\<lparr>st_item = Owned 16\<rparr>"
  have "tm_step ref_timer_api (?s0, Map.empty) (?s1, [16 \<mapsto> HStopped ?st])"
    using new [of ?s0 16 Map.empty ref_timer_api ?st ?s1]
    by (simp add: StoppedTimer_new_def Fixed_new_def put_timer_def)
  then have r1: "tm_reach ref_timer_api (?s1, [16 \<mapsto> HStopped ?st])" by (rule tm_more [OF tm_init])
  have "tm_step ref_timer_api (?s1, [16 \<mapsto> HStopped ?st]) (demo_timers, [16 \<mapsto> HCallback 32])"
    using start_callback [of "[16 \<mapsto> HStopped ?st]" 16 ?st 32 ?s1 ref_timer_api "\<lparr>cb_call = 1, cb_data = 7\<rparr>"
        K_NO_WAIT K_NO_WAIT 32 demo_timers]
    by (simp add: demo_timers_def timer_ops ref_timer_api_def)
  then show ?thesis by (rule tm_more [OF r1])
qed

theorem timers_safe_witness:
  "tm_timers demo_timers 16 \<noteq> None \<and> (\<exists>s'. CallbackTimer_drop ref_timer_api 32 demo_timers = Ret s' \<and> tm_boxes s' 32 = None)"
proof -
  have "[16 \<mapsto> HCallback 32] (16 :: ptr) = Some (HCallback 32)" by simp
  with timers_safe [OF ref_timer.zephyr_timer_axioms demo_timers_reach]
  have "\<exists>s'. CallbackTimer_drop ref_timer_api 32 demo_timers = Ret s' \<and> tm_boxes s' 32 = None" by blast
  then show ?thesis by (simp add: demo_timers_def)
qed

text \<open>
  A simple timer loses no expiry: after \<open>start_simple\<close>, over any sequence of interrupts and reads,
  the counts that \<open>read_count\<close> and \<open>read_count_wait\<close> returned together with the count still pending are
  the number of expiries, as \<open>u32\<close>; and \<open>read_count\<close> returns everything that is pending.
\<close>

theorem SimpleTimer_counts:
  assumes "zephyr_timer K running status" and "StoppedTimer_start_simple K self delay period s = Ret (si, s0)"
    and "tm_timers s (Fixed_get (st_item self)) = Some t" and "kt_expiry_fn t = None"
    and "count_run (SimpleTimer_event K (st_item self)) es s0 = (n, c, s1)"
  shows "c + simple_pending status (st_item self) s1 = of_nat n \<and>
    (\<exists>s2. SimpleTimer_read_count K si s1 = Ret (simple_pending status (st_item self) s1, s2) \<and>
      simple_pending status (st_item self) s2 = 0)"
proof -
  have "simple_timer K running status" using assms(1) by (simp add: simple_timer_def)
  moreover have "simple_ok (st_item self) s0 \<and> simple_pending status (st_item self) s0 = 0"
    using assms(2-4) zephyr_timer.start_status [OF assms(1)]
    by (auto simp: timer_ops simple_ok_def simple_pending_def)
  ultimately have run: "simple_ok (st_item self) s1 \<and> c + simple_pending status (st_item self) s1 = of_nat n"
    using simple_timer.timer_run_kept [OF _ _ assms(5)] by simp
  obtain t1 where t1: "tm_timers s1 (Fixed_get (st_item self)) = Some t1" using run by (auto simp: simple_ok_def)
  obtain c0 k0 where g: "k_timer_status_get K (kt_core t1) = (c0, k0)" by fastforce
  have "si = \<lparr>si_item = Some (st_item self)\<rparr>" using assms(2,3) by (simp add: timer_ops)
  then show ?thesis
    using run t1 g zephyr_timer.get_status [OF assms(1) g] by (simp add: timer_ops simple_pending_def)
qed

theorem SimpleTimer_counts_witness:
  "count_run (SimpleTimer_event ref_timer_api (Owned 16)) [Fire, Fire, Read, Fire]
     \<lparr>tm_timers = [16 \<mapsto> \<lparr>kt_core = (True, 0), kt_expiry_fn = None, kt_user_data = 0\<rparr>], tm_boxes = Map.empty, tm_log = [] :: (nat \<times> nat) list\<rparr>
   = (3, 2, \<lparr>tm_timers = [16 \<mapsto> \<lparr>kt_core = (True, 1), kt_expiry_fn = None, kt_user_data = 0\<rparr>], tm_boxes = Map.empty, tm_log = []\<rparr>)
   \<and> (2 :: u32) + simple_pending snd (Owned 16)
       \<lparr>tm_timers = [16 \<mapsto> \<lparr>kt_core = (True, 1), kt_expiry_fn = None, kt_user_data = 0\<rparr>], tm_boxes = Map.empty, tm_log = [] :: (nat \<times> nat) list\<rparr> = 3"
proof -
  let ?m = "\<lambda>k. \<lparr>tm_timers = [16 \<mapsto> \<lparr>kt_core = k, kt_expiry_fn = None, kt_user_data = 0\<rparr>], tm_boxes = Map.empty,
    tm_log = [] :: (nat \<times> nat) list\<rparr>"
  have start: "StoppedTimer_start_simple ref_timer_api \<lparr>st_item = Owned 16\<rparr> K_NO_WAIT K_NO_WAIT (?m (False, 0)) =
      Ret (\<lparr>si_item = Some (Owned 16)\<rparr>, ?m (True, 0))"
    by (simp add: timer_ops ref_timer_api_def)
  have run: "count_run (SimpleTimer_event ref_timer_api (Owned 16)) [Fire, Fire, Read, Fire] (?m (True, 0)) =
      (3, 2, ?m (True, 1))"
    by (simp add: timer_ops ref_timer_api_def)
  from SimpleTimer_counts [OF ref_timer.zephyr_timer_axioms start, of _ "[Fire, Fire, Read, Fire]" 3 2 "?m (True, 1)"] run
  show ?thesis by simp
qed

end
