(* ===== verification/Threads.thy ===== *)
theory Threads
  imports Kernel_Object Error_Time
begin

text \<open>
  \<open>zephyr/src/thread.rs\<close> (the pool of statically declared threads behind the \<open>thread\<close> macro, with the
  start-up function that \<open>zephyr-macros/src/task.rs\<close> generates) and \<open>zephyr/src/sys/thread.rs\<close> (single
  threads with their stacks). The kernel's thread operations are a parameter with their documented
  behaviour (\<open>zephyr_threads\<close>).
\<close>

section \<open>Stack sizes\<close>

text \<open>
  \<open>usize::next_multiple_of\<close>: the remainder by zero and, with overflow checks, a sum that does not fit
  panic.
\<close>

definition next_multiple_of :: "bool \<Rightarrow> usize \<Rightarrow> usize \<Rightarrow> usize outcome" where
  "next_multiple_of dbg self rhs =
     (if rhs = 0 then Panic ''attempt to calculate the remainder with a divisor of zero''
      else let r = self mod rhs in
        if r = 0 then Ret self
        else if dbg \<and> unat self + unat (rhs - r) \<ge> 2 ^ 32 then Panic ''attempt to add with overflow''
        else Ret (self + (rhs - r)))"

text \<open>\<open>stack_len\<close> for the configured alignment \<open>ZR_STACK_ALIGN\<close>.\<close>

definition stack_len :: "bool \<Rightarrow> usize \<Rightarrow> usize \<Rightarrow> usize outcome" where
  "stack_len dbg ZR_STACK_ALIGN sz = next_multiple_of dbg sz ZR_STACK_ALIGN"

section \<open>The kernel's threads\<close>

record create_args =
  ca_thread :: ptr
  ca_stack :: ptr
  ca_size :: usize
  ca_entry :: nat
  ca_p1 :: ptr
  ca_priority :: c_int
  ca_options :: u32
  ca_delay :: k_timeout_t

text \<open>\<open>k_enter\<close> and \<open>k_exit\<close> are the scheduler: a thread is entered with its first argument, and returns.\<close>

record 'k k_thread_api =
  k_thread_create :: "'k \<Rightarrow> create_args \<Rightarrow> ptr \<times> 'k"
  k_thread_join :: "'k \<Rightarrow> ptr \<Rightarrow> k_timeout_t \<Rightarrow> (c_int \<times> 'k) outcome"
  k_thread_name_set :: "'k \<Rightarrow> ptr \<Rightarrow> string \<Rightarrow> 'k"
  k_thread_priority_set :: "'k \<Rightarrow> ptr \<Rightarrow> c_int \<Rightarrow> 'k"
  k_wakeup :: "'k \<Rightarrow> ptr \<Rightarrow> 'k"
  k_enter :: "'k \<Rightarrow> ptr \<Rightarrow> (ptr \<times> 'k) option"
  k_exit :: "'k \<Rightarrow> ptr \<Rightarrow> 'k option"

datatype tstat = Unused | Suspended ptr | Ready ptr | Active | Exited

text \<open>
  The documented behaviour. A thread object that is not in use can be created; with the delay
  \<open>K_FOREVER\<close> it waits for \<open>k_wakeup\<close>. Joining returns 0 only for a thread that has exited.
\<close>

locale zephyr_threads =
  fixes K :: "'k k_thread_api" and tstat :: "'k \<Rightarrow> ptr \<Rightarrow> tstat"
  assumes create: "tstat k (ca_thread a) \<in> {Unused, Exited} \<Longrightarrow> k_thread_create K k a = (t, k') \<Longrightarrow>
      t = ca_thread a \<and> tstat k' = (tstat k)(ca_thread a :=
        if ca_delay a = K_FOREVER then Suspended (ca_p1 a) else Ready (ca_p1 a))"
    and join_kept: "k_thread_join K k t to = Ret (r, k') \<Longrightarrow> tstat k' = tstat k \<and> (r = 0 \<longrightarrow> tstat k t = Exited)"
    and name_kept: "tstat (k_thread_name_set K k t n) = tstat k"
    and priority_kept: "tstat (k_thread_priority_set K k t p) = tstat k"
    and wakeup: "tstat (k_wakeup K k t) = (case tstat k t of Suspended p \<Rightarrow> (tstat k)(t := Ready p) | _ \<Rightarrow> tstat k)"
    and enter: "k_enter K k t = Some (p, k') \<Longrightarrow> tstat k t = Ready p \<and> tstat k' = (tstat k)(t := Active)"
    and enter_ready: "tstat k t = Ready p \<Longrightarrow> k_enter K k t \<noteq> None"
    and exit: "k_exit K k t = Some k' \<Longrightarrow> tstat k t = Active \<and> tstat k' = (tstat k)(t := Exited)"
    and join_exited: "tstat k t = Exited \<Longrightarrow> \<exists>k'. k_thread_join K k t to = Ret (0, k')"

section \<open>The pool\<close>

text \<open>\<open>ThreadState\<close> is stored as its number.\<close>

datatype ThreadState = ThreadInit | Allocated | Running

fun state_code :: "ThreadState \<Rightarrow> u8" where
  "state_code ThreadInit = 0" | "state_code Allocated = 1" | "state_code Running = 2"

text \<open>The static data of one thread; its \<open>k_thread\<close> and its \<open>InitData\<close> are at the given addresses.\<close>

record 'a ThreadData =
  td_init :: "'a option"
  td_state :: u8
  td_thread :: ptr
  td_init_addr :: ptr

definition ThreadData_new :: "ptr \<Rightarrow> ptr \<Rightarrow> 'a ThreadData" where
  "ThreadData_new thread init_addr =
     \<lparr>td_init = None, td_state = state_code ThreadInit, td_thread = thread, td_init_addr = init_addr\<rparr>"

text \<open>The scan of \<open>find_thread\<close>, in its critical section.\<close>

fun find_thread_scan ::
    "'k k_thread_api \<Rightarrow> 'k \<Rightarrow> 'a ThreadData list \<Rightarrow> (nat option \<times> 'a ThreadData list \<times> 'k) outcome" where
  "find_thread_scan K k [] = Ret (None, [], k)"
| "find_thread_scan K k (t # ts) =
     (let next = (\<lambda>k. bind_outcome (find_thread_scan K k ts) (\<lambda>(r, ts, k). Ret (map_option Suc r, t # ts, k)));
          found = (\<lambda>k. Ret (Some 0, t\<lparr>td_state := state_code Allocated\<rparr> # ts, k))
      in if td_state t = state_code ThreadInit then found k
         else if td_state t = state_code Allocated then next k
         else if td_state t = state_code Running then
           bind_outcome (k_thread_join K k (td_thread t) K_NO_WAIT) (\<lambda>(r, k). if r = 0 then found k else next k)
         else Panic ''internal error: entered unreachable code'')"

definition find_thread ::
    "'k k_thread_api \<Rightarrow> 'k \<Rightarrow> 'a ThreadData list \<Rightarrow> (nat \<times> 'a ThreadData list \<times> 'k) outcome" where
  "find_thread K k pool =
     bind_outcome (find_thread_scan K k pool) (\<lambda>(r, pool, k). case r of
        Some n \<Rightarrow> Ret (n, pool, k)
      | None \<Rightarrow> Panic ''Attempt to use more threads than declared pool size'')"

text \<open>\<open>acquire\<close>: the stacks are given by their addresses, \<open>sz\<close> is the constant \<open>SIZE\<close>.\<close>

definition ThreadData_acquire ::
    "'k k_thread_api \<Rightarrow> 'k \<Rightarrow> 'a ThreadData list \<Rightarrow> ptr list \<Rightarrow> usize \<Rightarrow> 'a \<Rightarrow> nat \<Rightarrow> c_int \<Rightarrow> string \<Rightarrow>
     (ptr \<times> 'a ThreadData list \<times> 'k) outcome" where
  "ThreadData_acquire K k pool stacks sz args entry priority name =
     bind_outcome (find_thread K k pool) (\<lambda>(n, pool, k).
       let pool = pool[n := (pool ! n)\<lparr>td_init := Some args\<rparr>] in
       if \<not> n < length stacks then Panic ''index out of bounds''
       else
         let (tid, k) = k_thread_create K k \<lparr>ca_thread = td_thread (pool ! n), ca_stack = stacks ! n, ca_size = sz,
               ca_entry = entry, ca_p1 = td_init_addr (pool ! n), ca_priority = priority, ca_options = 0,
               ca_delay = K_FOREVER\<rparr>;
             k = k_thread_name_set K k tid name
         in Ret (tid, pool, k))"

text \<open>\<open>acquire_old\<close> on one thread of the pool.\<close>

definition ThreadData_acquire_old ::
    "'k k_thread_api \<Rightarrow> 'k \<Rightarrow> 'a ThreadData \<Rightarrow> ptr \<Rightarrow> usize \<Rightarrow> 'a \<Rightarrow> nat \<Rightarrow> ('a ThreadData \<times> 'k) outcome" where
  "ThreadData_acquire_old K k self stack sz args entry =
     (let old = td_state self in
      if old \<noteq> state_code ThreadInit then Panic ''Attempt to use a thread that is already in use''
      else
        let self = self\<lparr>td_state := state_code Allocated\<rparr>;
            self = self\<lparr>td_init := Some args\<rparr>;
            (tid, k) = k_thread_create K k \<lparr>ca_thread = td_thread self, ca_stack = stack, ca_size = sz,
               ca_entry = entry, ca_p1 = td_init_addr self, ca_priority = 0, ca_options = 0, ca_delay = K_NO_WAIT\<rparr>
        in Ret (self, k))"

text \<open>\<open>ReadyThread\<close> and \<open>RunningThread\<close> are the thread's address.\<close>

definition ReadyThread_set_priority :: "'k k_thread_api \<Rightarrow> 'k \<Rightarrow> ptr \<Rightarrow> c_int \<Rightarrow> 'k" where
  "ReadyThread_set_priority K k self priority = k_thread_priority_set K k self priority"

definition ReadyThread_start :: "'k k_thread_api \<Rightarrow> 'k \<Rightarrow> ptr \<Rightarrow> ptr \<times> 'k" where
  "ReadyThread_start K k self = (self, k_wakeup K k self)"

definition RunningThread_join_timeout ::
    "'k k_thread_api \<Rightarrow> 'k \<Rightarrow> ptr \<Rightarrow> k_timeout_t \<Rightarrow> ((unit, Error) result \<times> 'k) outcome" where
  "RunningThread_join_timeout K k self timeout =
     bind_outcome (k_thread_join K k self timeout) (\<lambda>(ret, k). Ret (to_result_void ret, k))"

definition RunningThread_join :: "'k k_thread_api \<Rightarrow> 'k \<Rightarrow> ptr \<Rightarrow> ((unit, Error) result \<times> 'k) outcome" where
  "RunningThread_join K k self = RunningThread_join_timeout K k self Timeout_from_Forever"

text \<open>
  The generated \<open>startup\<close>: it takes the arguments out of the \<open>InitData\<close> that its first argument points to,
  and passes them to the thread function.
\<close>

definition startup :: "ptr \<Rightarrow> 'a ThreadData list \<Rightarrow> ('a \<times> 'a ThreadData list) outcome" where
  "startup arg0 pool = (case List.find (\<lambda>i. td_init_addr (pool ! i) = arg0) [0..<length pool] of
     None \<Rightarrow> UB
   | Some i \<Rightarrow> (case td_init (pool ! i) of
        None \<Rightarrow> Panic ''Incorrect thread initialization''
      | Some data \<Rightarrow> Ret (data, pool[i := (pool ! i)\<lparr>td_init := None\<rparr>])))"

section \<open>Programs that use a pool\<close>

text \<open>
  The pool, the kernel, the arguments each thread of the pool was acquired with, and the threads whose
  function was entered, with the arguments it was given.
\<close>

record ('k, 'a) tp_sys =
  tp_pool :: "'a ThreadData list"
  tp_kernel :: 'k
  tp_args :: "nat \<rightharpoonup> 'a"
  tp_ran :: "(nat \<times> 'a) list"

inductive tp_step ::
    "'k k_thread_api \<Rightarrow> ptr list \<Rightarrow> usize \<Rightarrow> ('k, 'a) tp_sys \<Rightarrow> ('k, 'a) tp_sys \<Rightarrow> bool" for K stacks sz where
  acquire: "ThreadData_acquire K (tp_kernel s) (tp_pool s) stacks sz args entry priority name = Ret (tid, pool, k) \<Longrightarrow>
     i < length (tp_pool s) \<Longrightarrow> td_thread (tp_pool s ! i) = tid \<Longrightarrow>
     tp_step K stacks sz s (s\<lparr>tp_pool := pool, tp_kernel := k, tp_args := (tp_args s)(i \<mapsto> args)\<rparr>)"
| acquire_old: "i < length (tp_pool s) \<Longrightarrow>
     ThreadData_acquire_old K (tp_kernel s) (tp_pool s ! i) stack sz args entry = Ret (t, k) \<Longrightarrow>
     tp_step K stacks sz s (s\<lparr>tp_pool := (tp_pool s)[i := t], tp_kernel := k, tp_args := (tp_args s)(i \<mapsto> args)\<rparr>)"
| set_priority: "tp_step K stacks sz s (s\<lparr>tp_kernel := ReadyThread_set_priority K (tp_kernel s) t p\<rparr>)"
| start: "ReadyThread_start K (tp_kernel s) t = (t', k) \<Longrightarrow> tp_step K stacks sz s (s\<lparr>tp_kernel := k\<rparr>)"
| join: "RunningThread_join_timeout K (tp_kernel s) t timeout = Ret (r, k) \<Longrightarrow> tp_step K stacks sz s (s\<lparr>tp_kernel := k\<rparr>)"
| enter: "i < length (tp_pool s) \<Longrightarrow> k_enter K (tp_kernel s) (td_thread (tp_pool s ! i)) = Some (arg0, k) \<Longrightarrow>
     startup arg0 (tp_pool s) = Ret (data, pool) \<Longrightarrow>
     tp_step K stacks sz s (s\<lparr>tp_pool := pool, tp_kernel := k, tp_ran := tp_ran s @ [(i, data)]\<rparr>)"
| exit: "i < length (tp_pool s) \<Longrightarrow> k_exit K (tp_kernel s) (td_thread (tp_pool s ! i)) = Some k \<Longrightarrow>
     tp_step K stacks sz s (s\<lparr>tp_kernel := k\<rparr>)"

text \<open>The start: a pool of new threads at distinct addresses, none of them known to the kernel.\<close>

definition tp_start :: "('k \<Rightarrow> ptr \<Rightarrow> tstat) \<Rightarrow> (ptr \<times> ptr) list \<Rightarrow> ('k, 'a) tp_sys \<Rightarrow> bool" where
  "tp_start tstat addrs s \<longleftrightarrow> distinct (map fst addrs) \<and> distinct (map snd addrs) \<and>
     tp_pool s = map (\<lambda>(t, a). ThreadData_new t a) addrs \<and>
     (\<forall>t \<in> fst ` set addrs. tstat (tp_kernel s) t = Unused) \<and> tp_args s = Map.empty \<and> tp_ran s = []"

inductive tp_reach for K stacks sz tstat addrs where
  tp_init: "tp_start tstat addrs s \<Longrightarrow> tp_reach K stacks sz tstat addrs s"
| tp_more: "tp_reach K stacks sz tstat addrs s \<Longrightarrow> tp_step K stacks sz s s' \<Longrightarrow> tp_reach K stacks sz tstat addrs s'"

section \<open>The invariant\<close>

text \<open>What holds of one thread of the pool, given its arguments and whether it has run.\<close>

definition td_ok :: "'a ThreadData \<Rightarrow> tstat \<Rightarrow> 'a option \<Rightarrow> 'a option \<Rightarrow> bool" where
  "td_ok t st arg entered = (case arg of
     None \<Rightarrow> td_state t = state_code ThreadInit \<and> st = Unused \<and> entered = None
   | Some a \<Rightarrow> td_state t = state_code Allocated \<and>
       (st \<in> {Suspended (td_init_addr t), Ready (td_init_addr t)} \<and> td_init t = Some a \<and> entered = None \<or>
        st \<in> {Active, Exited} \<and> td_init t = None \<and> entered = Some a))"

definition tp_inv :: "('k \<Rightarrow> ptr \<Rightarrow> tstat) \<Rightarrow> (ptr \<times> ptr) list \<Rightarrow> ('k, 'a) tp_sys \<Rightarrow> bool" where
  "tp_inv tstat addrs s \<longleftrightarrow> distinct (map fst addrs) \<and> distinct (map snd addrs) \<and>
     map (\<lambda>t. (td_thread t, td_init_addr t)) (tp_pool s) = addrs \<and>
     dom (tp_args s) \<subseteq> {..<length addrs} \<and> distinct (map fst (tp_ran s)) \<and> set (map fst (tp_ran s)) \<subseteq> dom (tp_args s) \<and>
     (\<forall>i < length addrs. td_ok (tp_pool s ! i) (tstat (tp_kernel s) (td_thread (tp_pool s ! i))) (tp_args s i)
        (map_of (tp_ran s) i))"

text \<open>In such a pool the scan takes the first thread that was never acquired; it never joins.\<close>

lemma find_thread_scan_fresh:
  assumes "\<forall>t \<in> set pool. td_state t \<in> {state_code ThreadInit, state_code Allocated}"
  shows "find_thread_scan K k pool =
    (case List.find (\<lambda>i. td_state (pool ! i) = state_code ThreadInit) [0..<length pool] of
       None \<Rightarrow> Ret (None, pool, k)
     | Some i \<Rightarrow> Ret (Some i, pool[i := (pool ! i)\<lparr>td_state := state_code Allocated\<rparr>], k))"
  using assms
proof (induction pool)
  case (Cons t ts)
  have f: "List.find P [0..<Suc (length ts)] =
      (if P 0 then Some 0 else map_option Suc (List.find (P \<circ> Suc) [0..<length ts]))" for P
  proof -
    have "[0..<Suc (length ts)] = 0 # map Suc [0..<length ts]" by (simp add: upt_conv_Cons map_Suc_upt del: upt_Suc)
    moreover have "List.find P (map Suc xs) = map_option Suc (List.find (P \<circ> Suc) xs)" for xs by (induction xs) auto
    ultimately show ?thesis by simp
  qed
  show ?case
  proof (cases "td_state t = state_code ThreadInit")
    case True
    then show ?thesis by (simp add: f del: upt_Suc)
  next
    case False
    with Cons.prems have "td_state t = state_code Allocated" by simp
    moreover have "find_thread_scan K k ts = (case List.find (\<lambda>i. td_state (ts ! i) = state_code ThreadInit) [0..<length ts] of
       None \<Rightarrow> Ret (None, ts, k)
     | Some i \<Rightarrow> Ret (Some i, ts[i := (ts ! i)\<lparr>td_state := state_code Allocated\<rparr>], k))"
      using Cons by simp
    ultimately show ?thesis by (simp add: f comp_def del: upt_Suc split: option.splits)
  qed
qed simp

lemma tp_invD:
  assumes "tp_inv tstat addrs s" and "i < length addrs"
  shows "td_ok (tp_pool s ! i) (tstat (tp_kernel s) (td_thread (tp_pool s ! i))) (tp_args s i) (map_of (tp_ran s) i)"
    "td_thread (tp_pool s ! i) = fst (addrs ! i)" "td_init_addr (tp_pool s ! i) = snd (addrs ! i)"
    "length (tp_pool s) = length addrs"
proof -
  have m: "map (\<lambda>t. (td_thread t, td_init_addr t)) (tp_pool s) = addrs" using assms(1) by (simp add: tp_inv_def)
  then show l: "length (tp_pool s) = length addrs" by (metis length_map)
  have "addrs ! i = (td_thread (tp_pool s ! i), td_init_addr (tp_pool s ! i))"
    using m l assms(2) by (metis (no_types, lifting) nth_map)
  then show "td_thread (tp_pool s ! i) = fst (addrs ! i)" "td_init_addr (tp_pool s ! i) = snd (addrs ! i)" by simp_all
  show "td_ok (tp_pool s ! i) (tstat (tp_kernel s) (td_thread (tp_pool s ! i))) (tp_args s i) (map_of (tp_ran s) i)"
    using assms by (simp add: tp_inv_def)
qed

lemma tp_inv_distinct:
  assumes "tp_inv tstat addrs s" and "i < length addrs" and "j < length addrs"
  shows "td_thread (tp_pool s ! i) = td_thread (tp_pool s ! j) \<longleftrightarrow> i = j"
    "td_init_addr (tp_pool s ! i) = td_init_addr (tp_pool s ! j) \<longleftrightarrow> i = j"
  using assms tp_invD(2,3) [OF assms(1), of i] tp_invD(2,3) [OF assms(1), of j]
    nth_eq_iff_index_eq [of "map fst addrs" i j] nth_eq_iff_index_eq [of "map snd addrs" i j]
  by (auto simp: tp_inv_def)

lemma tp_inv_states:
  assumes "tp_inv tstat addrs s"
  shows "\<forall>t \<in> set (tp_pool s). td_state t \<in> {state_code ThreadInit, state_code Allocated}"
proof
  fix t
  assume "t \<in> set (tp_pool s)"
  then obtain i where i: "i < length (tp_pool s)" "t = tp_pool s ! i" by (auto simp: in_set_conv_nth)
  have l: "length (tp_pool s) = length addrs" using assms by (auto simp: tp_inv_def)
  show "td_state t \<in> {state_code ThreadInit, state_code Allocated}"
    using tp_invD(1) [OF assms, of i] i l by (auto simp: td_ok_def split: option.splits)
qed

text \<open>The frame of a step that touches thread \<open>i\<close> only.\<close>

lemma tp_inv_at:
  assumes inv: "tp_inv tstat addrs s" and i: "i < length addrs"
    and "tp_pool s' = (tp_pool s)[i := t]" and "td_thread t = td_thread (tp_pool s ! i)"
    and "td_init_addr t = td_init_addr (tp_pool s ! i)"
    and "tstat (tp_kernel s') = (tstat (tp_kernel s))(td_thread (tp_pool s ! i) := st)"
    and "tp_args s' = (tp_args s)(i := arg)" and "arg = None \<Longrightarrow> tp_args s i = None"
    and "tp_ran s' = tp_ran s @ new" and "new = [] \<or> (\<exists>a. new = [(i, a)] \<and> arg \<noteq> None \<and> map_of (tp_ran s) i = None)"
    and ok: "td_ok t st arg (map_of (tp_ran s') i)"
  shows "tp_inv tstat addrs s'"
proof -
  have l: "length (tp_pool s) = length addrs" using tp_invD(4) [OF inv i] .
  have m: "map (\<lambda>t. (td_thread t, td_init_addr t)) (tp_pool s) = addrs" using inv by (simp add: tp_inv_def)
  have "map (\<lambda>t. (td_thread t, td_init_addr t)) (tp_pool s') = addrs[i := (td_thread t, td_init_addr t)]"
    using assms(3) m by (simp add: map_update)
  moreover have "addrs[i := (td_thread t, td_init_addr t)] = addrs"
    using m l i assms(4,5) by (metis (no_types, lifting) list_update_id nth_map)
  ultimately have addrs: "map (\<lambda>t. (td_thread t, td_init_addr t)) (tp_pool s') = addrs" by simp
  have each: "td_ok (tp_pool s' ! j) (tstat (tp_kernel s') (td_thread (tp_pool s' ! j))) (tp_args s' j) (map_of (tp_ran s') j)"
    if j: "j < length addrs" for j
  proof (cases "j = i")
    case True
    then show ?thesis using assms(3-7) l i ok by simp
  next
    case False
    then have "map_of (tp_ran s') j = map_of (tp_ran s) j" using assms(9,10) by (auto simp: map_add_def split: option.splits)
    then show ?thesis
      using False assms(3,6,7) tp_invD(1) [OF inv j] tp_inv_distinct(1) [OF inv j i] by simp
  qed
  have "dom (tp_args s) \<subseteq> dom (tp_args s')" using assms(7,8) by (cases arg) (auto split: if_splits)
  moreover have "i \<in> dom (tp_args s')" if "arg \<noteq> None" using assms(7) that by auto
  moreover have "distinct (map fst (tp_ran s))" "set (map fst (tp_ran s)) \<subseteq> dom (tp_args s)"
    using inv by (auto simp: tp_inv_def)
  ultimately have sub: "set (map fst (tp_ran s)) \<subseteq> dom (tp_args s')" "arg \<noteq> None \<Longrightarrow> i \<in> dom (tp_args s')"
    and dist: "distinct (map fst (tp_ran s))" by blast+
  have "distinct (map fst (tp_ran s'))"
    using assms(9,10) dist unfolding map_of_eq_None_iff set_map [symmetric] by (auto simp del: set_map)
  moreover have "set (map fst (tp_ran s')) \<subseteq> dom (tp_args s')"
    using assms(9,10) sub by (auto simp del: set_map simp: domIff)
  moreover have "dom (tp_args s') \<subseteq> {..<length addrs}"
    using inv assms(7) i by (auto simp: tp_inv_def split: if_splits)
  ultimately show ?thesis using inv addrs each by (auto simp: tp_inv_def)
qed

lemma tp_inv_kernel: "tp_inv tstat addrs s \<Longrightarrow> tstat k = tstat (tp_kernel s) \<Longrightarrow> tp_inv tstat addrs (s\<lparr>tp_kernel := k\<rparr>)"
  by (simp add: tp_inv_def)

lemma find_SomeD: "List.find P xs = Some x \<Longrightarrow> P x \<and> x \<in> set xs"
  by (auto simp: find_Some_iff)

lemma acquire_result:
  assumes inv: "tp_inv tstat addrs s" and "length stacks = length addrs"
  shows "case List.find (\<lambda>i. tp_args s i = None) [0..<length addrs] of
      None \<Rightarrow> ThreadData_acquire K (tp_kernel s) (tp_pool s) stacks sz args entry priority name =
        Panic ''Attempt to use more threads than declared pool size''
    | Some i \<Rightarrow> (\<exists>tid k. k_thread_create K (tp_kernel s) \<lparr>ca_thread = td_thread (tp_pool s ! i), ca_stack = stacks ! i,
          ca_size = sz, ca_entry = entry, ca_p1 = td_init_addr (tp_pool s ! i), ca_priority = priority, ca_options = 0,
          ca_delay = K_FOREVER\<rparr> = (tid, k) \<and>
        ThreadData_acquire K (tp_kernel s) (tp_pool s) stacks sz args entry priority name =
          Ret (tid, (tp_pool s)[i := (tp_pool s ! i)\<lparr>td_state := state_code Allocated, td_init := Some args\<rparr>],
            k_thread_name_set K k tid name))"
proof -
  have l: "length (tp_pool s) = length addrs" using inv by (auto simp: tp_inv_def)
  have "List.find (\<lambda>i. td_state (tp_pool s ! i) = state_code ThreadInit) [0..<length (tp_pool s)] =
      List.find (\<lambda>i. tp_args s i = None) [0..<length addrs]"
    unfolding l
  proof (rule find_cong [OF refl])
    show "(td_state (tp_pool s ! i) = state_code ThreadInit) = (tp_args s i = None)" if "i \<in> set [0..<length addrs]" for i
      using tp_invD(1) [OF inv, of i] that by (auto simp: td_ok_def split: option.splits)
  qed
  then have scan: "find_thread K (tp_kernel s) (tp_pool s) =
      (case List.find (\<lambda>i. tp_args s i = None) [0..<length addrs] of
         None \<Rightarrow> Panic ''Attempt to use more threads than declared pool size''
       | Some i \<Rightarrow> Ret (i, (tp_pool s)[i := (tp_pool s ! i)\<lparr>td_state := state_code Allocated\<rparr>], tp_kernel s))"
    using find_thread_scan_fresh [OF tp_inv_states [OF inv], of K "tp_kernel s"]
    by (simp add: find_thread_def split: option.splits)
  show ?thesis
  proof (cases "List.find (\<lambda>i. tp_args s i = None) [0..<length addrs]")
    case None
    then show ?thesis using scan by (simp add: ThreadData_acquire_def)
  next
    case (Some i)
    then have "i < length addrs" using find_SomeD by fastforce
    moreover obtain tid k where "k_thread_create K (tp_kernel s) \<lparr>ca_thread = td_thread (tp_pool s ! i),
        ca_stack = stacks ! i, ca_size = sz, ca_entry = entry, ca_p1 = td_init_addr (tp_pool s ! i),
        ca_priority = priority, ca_options = 0, ca_delay = K_FOREVER\<rparr> = (tid, k)" by fastforce
    ultimately show ?thesis using Some scan l assms(2) by (simp add: ThreadData_acquire_def)
  qed
qed

lemma startup_at:
  assumes inv: "tp_inv tstat addrs s" and i: "i < length addrs"
  shows "startup (td_init_addr (tp_pool s ! i)) (tp_pool s) = (case td_init (tp_pool s ! i) of
      None \<Rightarrow> Panic ''Incorrect thread initialization''
    | Some data \<Rightarrow> Ret (data, (tp_pool s)[i := (tp_pool s ! i)\<lparr>td_init := None\<rparr>]))"
proof -
  have l: "length (tp_pool s) = length addrs" using tp_invD(4) [OF inv i] .
  have "List.find (\<lambda>j. td_init_addr (tp_pool s ! j) = td_init_addr (tp_pool s ! i)) [0..<length (tp_pool s)] = Some i"
    using i l tp_inv_distinct(2) [OF inv _ i] by (intro find_upt_first) auto
  then show ?thesis by (simp add: startup_def)
qed

context zephyr_threads
begin

lemma tp_inv_step:
  assumes inv: "tp_inv tstat addrs s" and stacks: "length stacks = length addrs" and "tp_step K stacks sz s s'"
  shows "tp_inv tstat addrs s'"
  using assms(3)
proof cases
  case (acquire args entry priority name tid pool k i)
  note res = acquire_result [OF inv stacks, of K sz args entry priority name]
  show ?thesis
  proof (cases "List.find (\<lambda>i. tp_args s i = None) [0..<length addrs]")
    case None
    with res acquire(2) show ?thesis by simp
  next
    case (Some j)
    then have j: "j < length addrs" "tp_args s j = None" using find_SomeD [OF Some] by auto
    have u: "tstat (tp_kernel s) (td_thread (tp_pool s ! j)) = Unused" "map_of (tp_ran s) j = None"
      using tp_invD(1) [OF inv j(1)] j(2) by (simp_all add: td_ok_def)
    obtain k0 where c: "k_thread_create K (tp_kernel s) \<lparr>ca_thread = td_thread (tp_pool s ! j), ca_stack = stacks ! j,
          ca_size = sz, ca_entry = entry, ca_p1 = td_init_addr (tp_pool s ! j), ca_priority = priority, ca_options = 0,
          ca_delay = K_FOREVER\<rparr> = (tid, k0)" "k = k_thread_name_set K k0 tid name"
      "pool = (tp_pool s)[j := (tp_pool s ! j)\<lparr>td_state := state_code Allocated, td_init := Some args\<rparr>]"
      using res Some acquire(2) by auto
    note cr = create [OF _ c(1), simplified, OF disjI1, OF u(1)]
    have "i = j"
      using acquire(3,4) cr tp_inv_distinct(1) [OF inv, of i j] j(1) tp_invD(4) [OF inv j(1)] by simp
    with acquire(1) c(2,3) cr u j show ?thesis
      by (intro tp_inv_at [OF inv j(1), where t = "(tp_pool s ! j)\<lparr>td_state := state_code Allocated, td_init := Some args\<rparr>"
            and st = "Suspended (td_init_addr (tp_pool s ! j))" and arg = "Some args" and new = "[]"])
        (auto simp: name_kept td_ok_def)
  qed
next
  case (acquire_old i stack args entry t k)
  have i: "i < length addrs" using acquire_old(2) inv by (auto simp: tp_inv_def)
  let ?t = "(tp_pool s ! i)\<lparr>td_state := state_code Allocated, td_init := Some args\<rparr>"
  obtain tid where c: "k_thread_create K (tp_kernel s) \<lparr>ca_thread = td_thread (tp_pool s ! i), ca_stack = stack, ca_size = sz,
      ca_entry = entry, ca_p1 = td_init_addr (tp_pool s ! i), ca_priority = 0, ca_options = 0, ca_delay = K_NO_WAIT\<rparr> = (tid, k)"
    "t = ?t" "td_state (tp_pool s ! i) = state_code ThreadInit"
    using acquire_old(3) by (auto simp: ThreadData_acquire_old_def Let_def split: if_splits prod.splits)
  have u: "tp_args s i = None" "tstat (tp_kernel s) (td_thread (tp_pool s ! i)) = Unused" "map_of (tp_ran s) i = None"
    using tp_invD(1) [OF inv i] c(3) by (auto simp: td_ok_def split: option.splits)
  have "K_NO_WAIT \<noteq> K_FOREVER" by (simp add: K_FOREVER_iff)
  with create [OF _ c(1)] u(2) have "tstat k = (tstat (tp_kernel s))(td_thread (tp_pool s ! i) := Ready (td_init_addr (tp_pool s ! i)))"
    by simp
  with acquire_old(1) c(2) u show ?thesis
    by (intro tp_inv_at [OF inv i, where t = ?t and st = "Ready (td_init_addr (tp_pool s ! i))" and arg = "Some args" and new = "[]"])
      (auto simp: td_ok_def)
next
  case (set_priority t p)
  then show ?thesis using inv by (simp add: tp_inv_kernel ReadyThread_set_priority_def priority_kept)
next
  case (start t t' k)
  have k: "k = k_wakeup K (tp_kernel s) t" using start(2) by (auto simp: ReadyThread_start_def)
  show ?thesis
  proof (cases "\<exists>i < length addrs. td_thread (tp_pool s ! i) = t \<and> (\<exists>p. tstat (tp_kernel s) t = Suspended p)")
    case True
    then obtain i p where i: "i < length addrs" "td_thread (tp_pool s ! i) = t" "tstat (tp_kernel s) t = Suspended p" by blast
    then have ok: "td_ok (tp_pool s ! i) (Suspended p) (tp_args s i) (map_of (tp_ran s) i)" using tp_invD(1) [OF inv i(1)] by simp
    then have "p = td_init_addr (tp_pool s ! i)" by (auto simp: td_ok_def split: option.splits)
    with start(1) k i ok wakeup [of "tp_kernel s" t] show ?thesis
      by (intro tp_inv_at [OF inv i(1), where t = "tp_pool s ! i" and st = "Ready (td_init_addr (tp_pool s ! i))" and
            arg = "tp_args s i" and new = "[]"])
        (auto simp: td_ok_def fun_upd_idem split: option.splits)
  next
    case False
    then have "tstat k (td_thread (tp_pool s ! i)) = tstat (tp_kernel s) (td_thread (tp_pool s ! i))" if "i < length addrs" for i
      using that k wakeup [of "tp_kernel s" t] by (cases "tstat (tp_kernel s) t") auto
    then show ?thesis using start(1) inv by (simp add: tp_inv_def)
  qed
next
  case (join t timeout r k)
  then show ?thesis
    using inv join_kept by (auto simp: RunningThread_join_timeout_def outcome_simps intro: tp_inv_kernel)
next
  case (enter i arg0 k data pool)
  have i: "i < length addrs" using enter(2) inv by (auto simp: tp_inv_def)
  have e: "tstat (tp_kernel s) (td_thread (tp_pool s ! i)) = Ready arg0"
    "tstat k = (tstat (tp_kernel s))(td_thread (tp_pool s ! i) := Active)"
    using zephyr_threads.enter [OF zephyr_threads_axioms enter(3)] by auto
  then have ok: "td_ok (tp_pool s ! i) (Ready arg0) (tp_args s i) (map_of (tp_ran s) i)" using tp_invD(1) [OF inv i] by simp
  then have a: "arg0 = td_init_addr (tp_pool s ! i)" "tp_args s i = td_init (tp_pool s ! i)" "map_of (tp_ran s) i = None"
    by (auto simp: td_ok_def split: option.splits)
  with enter(4) startup_at [OF inv i] have d: "td_init (tp_pool s ! i) = Some data"
    "pool = (tp_pool s)[i := (tp_pool s ! i)\<lparr>td_init := None\<rparr>]" by (auto split: option.splits)
  with enter(1) e a ok show ?thesis
    by (intro tp_inv_at [OF inv i, where t = "(tp_pool s ! i)\<lparr>td_init := None\<rparr>" and st = Active and
          arg = "tp_args s i" and new = "[(i, data)]"])
      (auto simp: td_ok_def fun_upd_idem map_add_def)
next
  case (exit i k)
  have i: "i < length addrs" using exit(2) inv by (auto simp: tp_inv_def)
  have e: "tstat (tp_kernel s) (td_thread (tp_pool s ! i)) = Active"
    "tstat k = (tstat (tp_kernel s))(td_thread (tp_pool s ! i) := Exited)"
    using zephyr_threads.exit [OF zephyr_threads_axioms exit(3)] by auto
  then have ok: "td_ok (tp_pool s ! i) Active (tp_args s i) (map_of (tp_ran s) i)" using tp_invD(1) [OF inv i] by simp
  with exit(1) e show ?thesis
    by (intro tp_inv_at [OF inv i, where t = "tp_pool s ! i" and st = Exited and arg = "tp_args s i" and new = "[]"])
      (auto simp: td_ok_def fun_upd_idem split: option.splits)
qed

lemma tp_start_inv:
  assumes "tp_start tstat addrs s"
  shows "tp_inv tstat addrs s"
  unfolding tp_inv_def
proof (intro conjI allI impI)
  show "map (\<lambda>t. (td_thread t, td_init_addr t)) (tp_pool s) = addrs"
    using assms by (auto simp: tp_start_def ThreadData_new_def comp_def split_def)
  fix i
  assume i: "i < length addrs"
  have "tp_pool s ! i = ThreadData_new (fst (addrs ! i)) (snd (addrs ! i))"
    using assms i by (simp add: tp_start_def split_def)
  moreover have "tstat (tp_kernel s) (fst (addrs ! i)) = Unused" using assms i by (simp add: tp_start_def)
  ultimately show "td_ok (tp_pool s ! i) (tstat (tp_kernel s) (td_thread (tp_pool s ! i))) (tp_args s i) (map_of (tp_ran s) i)"
    using assms by (simp add: tp_start_def td_ok_def ThreadData_new_def)
qed (use assms in \<open>auto simp: tp_start_def\<close>)

lemma tp_reach_inv:
  assumes "length stacks = length addrs"
  shows "tp_reach K stacks sz tstat addrs s \<Longrightarrow> tp_inv tstat addrs s"
proof (induction rule: tp_reach.induct)
  case (tp_init s)
  then show ?case by (rule tp_start_inv)
next
  case (tp_more s s')
  then show ?case using tp_inv_step [OF _ assms] by blast
qed

end

section \<open>Single threads\<close>

text \<open>\<open>ThreadStack\<close> of \<open>sys/thread.rs\<close>, and the static stacks it is made from.\<close>

record ThreadStack =
  ts_base :: ptr
  ts_size :: usize

definition ThreadStack_new :: "ptr \<Rightarrow> usize \<Rightarrow> ThreadStack" where
  "ThreadStack_new base sz = \<lparr>ts_base = base, ts_size = sz\<rparr>"

text \<open>A real stack is its address and its constant \<open>SZ\<close>.\<close>

definition StaticThreadStack_new_from :: "usize \<Rightarrow> ptr \<Rightarrow> ThreadStack StaticKernelObject" where
  "StaticThreadStack_new_from SZ real = \<lparr>sko_value = ThreadStack_new real SZ, sko_init = 0\<rparr>"

definition StaticThreadStack_get_wrapped :: "ThreadStack StaticKernelObject \<Rightarrow> unit \<Rightarrow> ThreadStack" where
  "StaticThreadStack_get_wrapped self args = ThreadStack_new (ts_base (sko_value self)) (ts_size (sko_value self))"

text \<open>The loop of \<open>new_from_array\<close>, from an array filled with the zero value.\<close>

function new_from_array_loop ::
    "usize \<Rightarrow> ptr list \<Rightarrow> nat \<Rightarrow> ThreadStack StaticKernelObject list \<Rightarrow> ThreadStack StaticKernelObject list" where
  "new_from_array_loop SZ real i res =
     (if i < length real then new_from_array_loop SZ real (i + 1) (res[i := StaticThreadStack_new_from SZ (real ! i)]) else res)"
  by pat_completeness auto
termination by (relation "measure (\<lambda>(SZ, real, i, res). length real - i)") auto

declare new_from_array_loop.simps [simp del]

definition StaticThreadStack_new_from_array :: "usize \<Rightarrow> ptr list \<Rightarrow> ThreadStack StaticKernelObject list" where
  "StaticThreadStack_new_from_array SZ real =
     new_from_array_loop SZ real 0 (replicate (length real) \<lparr>sko_value = ThreadStack_new 0 0, sko_init = 0\<rparr>)"

record Thread =
  th_raw :: ptr
  th_stack :: ThreadStack
  th_priority :: c_int
  th_options :: u32
  th_name :: "string option"

definition StaticThread_get_wrapped :: "ptr \<Rightarrow> ThreadStack \<Rightarrow> Thread" where
  "StaticThread_get_wrapped raw stack =
     \<lparr>th_raw = raw, th_stack = stack, th_priority = 0, th_options = 0, th_name = None\<rparr>"

definition Thread_set_priority :: "Thread \<Rightarrow> c_int \<Rightarrow> Thread" where
  "Thread_set_priority self priority = self\<lparr>th_priority := priority\<rparr>"

definition Thread_set_options :: "Thread \<Rightarrow> u32 \<Rightarrow> Thread" where
  "Thread_set_options self options = self\<lparr>th_options := options\<rparr>"

definition Thread_set_name :: "Thread \<Rightarrow> string \<Rightarrow> Thread" where
  "Thread_set_name self name = self\<lparr>th_name := Some name\<rparr>"

definition Thread_set_thread_name :: "'k k_thread_api \<Rightarrow> 'k \<Rightarrow> Thread \<Rightarrow> ptr \<Rightarrow> 'k" where
  "Thread_set_thread_name K k self tid = (case th_name self of None \<Rightarrow> k | Some name \<Rightarrow> k_thread_name_set K k tid name)"

definition Thread_simple_spawn :: "'k k_thread_api \<Rightarrow> 'k \<Rightarrow> Thread \<Rightarrow> nat \<Rightarrow> ptr \<Rightarrow> 'k" where
  "Thread_simple_spawn K k self child p1 =
     (let (tid, k) = k_thread_create K k \<lparr>ca_thread = th_raw self, ca_stack = ts_base (th_stack self),
            ca_size = ts_size (th_stack self), ca_entry = child, ca_p1 = p1, ca_priority = th_priority self,
            ca_options = th_options self, ca_delay = K_NO_WAIT\<rparr>
      in Thread_set_thread_name K k self tid)"

text \<open>
  \<open>spawn\<close> boxes the closure at a fresh address \<open>p\<close> of the heap and hands the address to \<open>closure::child\<close>,
  which takes the closure out of its box, frees the box and calls the closure.
\<close>

definition Thread_spawn ::
    "'k k_thread_api \<Rightarrow> 'k \<Rightarrow> (ptr \<rightharpoonup> 'c) \<Rightarrow> ptr \<Rightarrow> Thread \<Rightarrow> nat \<Rightarrow> 'c \<Rightarrow> 'k \<times> (ptr \<rightharpoonup> 'c)" where
  "Thread_spawn K k heap p self closure_child child =
     (let heap = heap(p \<mapsto> child);
          (tid, k) = k_thread_create K k \<lparr>ca_thread = th_raw self, ca_stack = ts_base (th_stack self),
            ca_size = ts_size (th_stack self), ca_entry = closure_child, ca_p1 = p, ca_priority = th_priority self,
            ca_options = th_options self, ca_delay = K_NO_WAIT\<rparr>
      in (Thread_set_thread_name K k self tid, heap))"

definition closure_child :: "ptr \<Rightarrow> (ptr \<rightharpoonup> 'c) \<Rightarrow> ('c \<times> (ptr \<rightharpoonup> 'c)) outcome" where
  "closure_child child heap = (case heap child of None \<Rightarrow> UB | Some c \<Rightarrow> Ret (c, heap(child := None)))"

section \<open>A reference kernel\<close>

definition ref_threads_api :: "(ptr \<Rightarrow> tstat) k_thread_api" where
  "ref_threads_api =
     \<lparr>k_thread_create = (\<lambda>k a. (ca_thread a, k(ca_thread a :=
         if ticks (ca_delay a) = - 1 then Suspended (ca_p1 a) else Ready (ca_p1 a)))),
      k_thread_join = (\<lambda>k t to. if k t = Exited then Ret (0, k) else if ticks to = - 1 then Blocked else Ret (- 16, k)),
      k_thread_name_set = (\<lambda>k t n. k), k_thread_priority_set = (\<lambda>k t p. k),
      k_wakeup = (\<lambda>k t. case k t of Suspended p \<Rightarrow> k(t := Ready p) | _ \<Rightarrow> k),
      k_enter = (\<lambda>k t. case k t of Ready p \<Rightarrow> Some (p, k(t := Active)) | _ \<Rightarrow> None),
      k_exit = (\<lambda>k t. if k t = Active then Some (k(t := Exited)) else None)\<rparr>"

interpretation ref_threads: zephyr_threads ref_threads_api "\<lambda>k. k"
  by unfold_locales (auto simp: ref_threads_api_def K_FOREVER_iff split: tstat.splits if_splits)

section \<open>Properties\<close>


text \<open>A pool of two threads of which the first was acquired and started.\<close>

definition demo_pool :: "(ptr \<Rightarrow> tstat, nat) tp_sys" where
  "demo_pool = \<lparr>tp_pool = [\<lparr>td_init = Some 7, td_state = 1, td_thread = 16, td_init_addr = 18\<rparr>,
      \<lparr>td_init = None, td_state = 0, td_thread = 32, td_init_addr = 34\<rparr>],
     tp_kernel = (\<lambda>_. Unused)(16 := Ready 18), tp_args = [0 \<mapsto> 7], tp_ran = []\<rparr>"

abbreviation demo_addrs :: "(ptr \<times> ptr) list" where "demo_addrs \<equiv> [(16, 18), (32, 34)]"

lemma demo_pool_reach: "tp_reach ref_threads_api [64, 96] 1024 (\<lambda>k. k) demo_addrs demo_pool"
proof -
  let ?s0 = "\<lparr>tp_pool = [ThreadData_new 16 18, ThreadData_new 32 34], tp_kernel = (\<lambda>_. Unused),
    tp_args = Map.empty, tp_ran = []\<rparr> :: (ptr \<Rightarrow> tstat, nat) tp_sys"
  let ?s1 = "demo_pool\<lparr>tp_kernel := (\<lambda>_. Unused)(16 := Suspended 18)\<rparr>"
  have r0: "tp_reach ref_threads_api [64, 96] 1024 (\<lambda>k. k) demo_addrs ?s0"
    by (rule tp_init) (simp add: tp_start_def)
  have "tp_step ref_threads_api [64, 96] 1024 ?s0 ?s1"
    using acquire [of ref_threads_api ?s0 "[64, 96]" 1024 7 0 5 "''worker''" 16 "tp_pool demo_pool"
        "(\<lambda>_. Unused)(16 := Suspended 18)" 0]
    by (simp add: demo_pool_def ThreadData_acquire_def find_thread_def ThreadData_new_def ref_threads_api_def)
  then have r1: "tp_reach ref_threads_api [64, 96] 1024 (\<lambda>k. k) demo_addrs ?s1" by (rule tp_more [OF r0])
  have "tp_step ref_threads_api [64, 96] 1024 ?s1 demo_pool"
    using start [of ref_threads_api ?s1 16 16 "(\<lambda>_. Unused)(16 := Ready 18)" "[64, 96]" 1024]
    by (simp add: demo_pool_def ReadyThread_start_def ref_threads_api_def)
  then show ?thesis by (rule tp_more [OF r1])
qed


text \<open>
  A pool is used up once and for all: while some thread of the pool was never acquired, \<open>acquire\<close>
  takes the first such thread; once every thread was acquired, \<open>acquire\<close> panics, even if all of them
  have exited and were joined, because no operation ever marks a thread as running.
\<close>

theorem thread_pool_never_reused:
  assumes "zephyr_threads K tstat" and "length stacks = length addrs" and "tp_reach K stacks sz tstat addrs s"
  shows "(\<forall>i < length addrs. tp_args s i = None \<and> (\<forall>j < i. tp_args s j \<noteq> None) \<longrightarrow>
      (\<exists>pool k. ThreadData_acquire K (tp_kernel s) (tp_pool s) stacks sz args entry priority name =
         Ret (td_thread (tp_pool s ! i), pool, k))) \<and>
    ((\<forall>i < length addrs. tp_args s i \<noteq> None) \<longrightarrow>
      ThreadData_acquire K (tp_kernel s) (tp_pool s) stacks sz args entry priority name =
        Panic ''Attempt to use more threads than declared pool size'')"
proof (intro conjI allI impI)
  note inv = zephyr_threads.tp_reach_inv [OF assms]
  note res = acquire_result [OF inv assms(2), of K sz args entry priority name]
  fix i
  assume i: "i < length addrs" and first: "tp_args s i = None \<and> (\<forall>j < i. tp_args s j \<noteq> None)"
  have "List.find (\<lambda>i. tp_args s i = None) [0..<length addrs] = Some i"
    using i first by (intro find_upt_first) auto
  with res obtain tid k where c: "k_thread_create K (tp_kernel s) \<lparr>ca_thread = td_thread (tp_pool s ! i), ca_stack = stacks ! i,
          ca_size = sz, ca_entry = entry, ca_p1 = td_init_addr (tp_pool s ! i), ca_priority = priority, ca_options = 0,
          ca_delay = K_FOREVER\<rparr> = (tid, k)"
    "\<exists>pool k. ThreadData_acquire K (tp_kernel s) (tp_pool s) stacks sz args entry priority name = Ret (tid, pool, k)"
    by auto
  have "tstat (tp_kernel s) (td_thread (tp_pool s ! i)) = Unused" using tp_invD(1) [OF inv i] first by (simp add: td_ok_def)
  then have "tid = td_thread (tp_pool s ! i)" using zephyr_threads.create [OF assms(1) _ c(1)] by simp
  with c(2) show "\<exists>pool k. ThreadData_acquire K (tp_kernel s) (tp_pool s) stacks sz args entry priority name =
         Ret (td_thread (tp_pool s ! i), pool, k)" by simp
next
  note inv = zephyr_threads.tp_reach_inv [OF assms]
  assume "\<forall>i < length addrs. tp_args s i \<noteq> None"
  then have "List.find (\<lambda>i. tp_args s i = None) [0..<length addrs] = None" by (simp add: find_None_iff)
  then show "ThreadData_acquire K (tp_kernel s) (tp_pool s) stacks sz args entry priority name =
        Panic ''Attempt to use more threads than declared pool size''"
    using acquire_result [OF inv assms(2), of K sz args entry priority name] by simp
qed

theorem thread_pool_never_reused_witness:
  "tp_args demo_pool 1 = None \<and>
   (\<exists>pool k. ThreadData_acquire ref_threads_api (tp_kernel demo_pool) (tp_pool demo_pool) [64, 96] 1024 8 0 5 ''worker'' =
      Ret (32, pool, k))"
proof -
  have f: "(1 :: nat) < length demo_addrs" "tp_args demo_pool 1 = None \<and> (\<forall>j < 1. tp_args demo_pool j \<noteq> None)"
    "td_thread (tp_pool demo_pool ! 1) = 32"
    by (simp_all add: demo_pool_def)
  from thread_pool_never_reused [OF ref_threads.zephyr_threads_axioms _ demo_pool_reach, of 8 0 5 "''worker''"]
  have "\<exists>pool k. ThreadData_acquire ref_threads_api (tp_kernel demo_pool) (tp_pool demo_pool) [64, 96] 1024 8 0 5 ''worker'' =
      Ret (td_thread (tp_pool demo_pool ! 1), pool, k)" using f(1,2) by fastforce
  with f show ?thesis by simp
qed

text \<open>The least multiple of the alignment that is not below the size.\<close>

definition round_up :: "nat \<Rightarrow> nat \<Rightarrow> nat" where
  "round_up a n = (if n mod a = 0 then n else n + (a - n mod a))"

lemma round_up_least:
  assumes "0 < a"
  shows "a dvd round_up a n \<and> n \<le> round_up a n \<and> (\<forall>m. a dvd m \<and> n \<le> m \<longrightarrow> round_up a n \<le> m)"
proof (cases "n mod a = 0")
  case True
  then show ?thesis by (auto simp: round_up_def)
next
  case False
  have n: "n = a * (n div a) + n mod a" by simp
  have lt: "n mod a < a" using assms by simp
  have up: "round_up a n = a * (n div a + 1)"
  proof -
    have "round_up a n = a * (n div a) + n mod a + (a - n mod a)" using False n by (simp add: round_up_def)
    also have "\<dots> = a * (n div a) + a" using lt by linarith
    finally show ?thesis by simp
  qed
  have "round_up a n \<le> m" if m: "a dvd m" "n \<le> m" for m
  proof -
    obtain k where k: "m = a * k" using m(1) by (auto simp: dvd_def)
    have "\<not> k \<le> n div a" 
    proof
      assume "k \<le> n div a"
      then have "a * k \<le> a * (n div a)" by simp
      with m(2) k n False show False by linarith
    qed
    then show ?thesis using up k by (simp add: mult_le_mono2 Suc_le_eq not_le del: mult_Suc_right)
  qed
  moreover have "n \<le> round_up a n" by (simp add: round_up_def)
  ultimately show ?thesis using up by auto
qed

text \<open>
  \<open>stack_len\<close> returns the least multiple of the alignment that holds the requested size whenever it
  fits a \<open>usize\<close>; otherwise a build with overflow checks (and the constant evaluation in which it is
  used) fails, and an alignment of zero fails always.
\<close>

theorem stack_len_aligned:
  "stack_len dbg align sz =
    (if align = 0 then Panic ''attempt to calculate the remainder with a divisor of zero''
     else if round_up (unat align) (unat sz) < 2 ^ 32 \<or> \<not> dbg
     then Ret (of_nat (round_up (unat align) (unat sz)))
     else Panic ''attempt to add with overflow'') \<and>
   (align \<noteq> 0 \<longrightarrow> unat align dvd round_up (unat align) (unat sz) \<and> unat sz \<le> round_up (unat align) (unat sz) \<and>
     (\<forall>m. unat align dvd m \<and> unat sz \<le> m \<longrightarrow> round_up (unat align) (unat sz) \<le> m))"
proof (intro conjI)
  show "stack_len dbg align sz =
    (if align = 0 then Panic ''attempt to calculate the remainder with a divisor of zero''
     else if round_up (unat align) (unat sz) < 2 ^ 32 \<or> \<not> dbg
     then Ret (of_nat (round_up (unat align) (unat sz)))
     else Panic ''attempt to add with overflow'')"
  proof (cases "align = 0")
    case False
    then have a: "0 < unat align" by (simp add: unat_gt_0)
    have lt: "unat sz mod unat align < unat align" using a by simp
    have le: "sz mod align \<le> align" using lt by (simp add: word_le_nat_alt unat_mod)
    have d: "unat (align - sz mod align) = unat align - unat sz mod unat align"
      using le by (simp add: unat_sub unat_mod)
    have z: "sz mod align = 0 \<longleftrightarrow> unat sz mod unat align = 0" by (metis unat_eq_zero unat_mod)
    have r: "of_nat (unat sz + (unat align - unat sz mod unat align)) = sz + (align - sz mod align)"
      by (simp only: of_nat_add d [symmetric] of_nat_unat ucast_id)
    show ?thesis
    proof (cases "unat sz mod unat align = 0")
      case True
      moreover have "unat sz < 2 ^ 32" using unsigned_less [of sz] by simp
      ultimately show ?thesis using False z by (simp add: stack_len_def next_multiple_of_def round_up_def)
    next
      case nz: False
      then show ?thesis
        using False z d r by (auto simp: stack_len_def next_multiple_of_def round_up_def Let_def not_less)
    qed
  qed (simp add: stack_len_def next_multiple_of_def)
  show "align \<noteq> 0 \<longrightarrow> unat align dvd round_up (unat align) (unat sz) \<and> unat sz \<le> round_up (unat align) (unat sz) \<and>
     (\<forall>m. unat align dvd m \<and> unat sz \<le> m \<longrightarrow> round_up (unat align) (unat sz) \<le> m)"
    using round_up_least [of "unat align" "unat sz"] by (simp add: unat_gt_0)
qed

theorem stack_len_aligned_witness: "stack_len True 32 1000 = Ret 1024"
  using stack_len_aligned [of True 32 1000] by (simp add: round_up_def)

lemma new_from_array_loop_map:
  "length res = length real \<Longrightarrow> i \<le> length real \<Longrightarrow>
   new_from_array_loop SZ real i res = take i res @ map (StaticThreadStack_new_from SZ) (drop i real)"
proof (induction SZ real i res rule: new_from_array_loop.induct)
  case (1 SZ real i res)
  show ?case
  proof (cases "i < length real")
    case True
    then have "new_from_array_loop SZ real i res = new_from_array_loop SZ real (i + 1) (res[i := StaticThreadStack_new_from SZ (real ! i)])"
      by (simp add: new_from_array_loop.simps [of SZ real i res])
    also have "\<dots> = take (i + 1) (res[i := StaticThreadStack_new_from SZ (real ! i)]) @ map (StaticThreadStack_new_from SZ) (drop (i + 1) real)"
      using 1 True by simp
    also have "\<dots> = take i res @ map (StaticThreadStack_new_from SZ) (drop i real)"
      using True 1(2) by (simp add: take_Suc_conv_app_nth Cons_nth_drop_Suc [symmetric])
    finally show ?thesis .
  next
    case False
    then have "new_from_array_loop SZ real i res = res" by (simp add: new_from_array_loop.simps [of SZ real i res])
    then show ?thesis using False 1(2,3) by simp
  qed
qed

text \<open>
  The loop of \<open>new_from_array\<close> ends and overwrites every entry of its zero-filled array: the result
  is \<open>new_from\<close> applied to each stack.
\<close>

theorem new_from_array_all:
  "StaticThreadStack_new_from_array SZ real = map (StaticThreadStack_new_from SZ) real"
  by (simp add: StaticThreadStack_new_from_array_def new_from_array_loop_map)

text \<open>
  A spawned thread runs its closure exactly once: \<open>spawn\<close> on a thread object that is not in use makes
  the thread ready with the address of the boxed closure; entering it yields that closure and frees the
  box, and nothing else in the heap changes.
\<close>

theorem Thread_spawn_runs_closure:
  assumes "zephyr_threads K tstat" and "tstat k (th_raw self) \<in> {Unused, Exited}" and "heap p = None"
    and "Thread_spawn K k heap p self entry child = (k', heap')"
  shows "tstat k' (th_raw self) = Ready p \<and> (\<exists>k''. k_enter K k' (th_raw self) = Some (p, k'')) \<and>
    closure_child p heap' = Ret (child, heap) \<and> closure_child p heap = UB"
proof -
  obtain tid k0 where c: "k_thread_create K k \<lparr>ca_thread = th_raw self, ca_stack = ts_base (th_stack self),
            ca_size = ts_size (th_stack self), ca_entry = entry, ca_p1 = p, ca_priority = th_priority self,
            ca_options = th_options self, ca_delay = K_NO_WAIT\<rparr> = (tid, k0)" by fastforce
  have k': "k' = Thread_set_thread_name K k0 self tid" and h': "heap' = heap(p \<mapsto> child)"
    using assms(4) c by (simp_all add: Thread_spawn_def)
  have "K_NO_WAIT \<noteq> K_FOREVER" by (simp add: K_FOREVER_iff)
  then have "tstat k0 (th_raw self) = Ready p" using zephyr_threads.create [OF assms(1) _ c] assms(2) by simp
  then have r: "tstat k' (th_raw self) = Ready p"
    using k' zephyr_threads.name_kept [OF assms(1)] by (simp add: Thread_set_thread_name_def split: option.splits)
  from zephyr_threads.enter_ready [OF assms(1) r] obtain p' k'' where e: "k_enter K k' (th_raw self) = Some (p', k'')" by auto
  with zephyr_threads.enter [OF assms(1) e] r have "\<exists>k''. k_enter K k' (th_raw self) = Some (p, k'')" by auto
  with r h' assms(3) show ?thesis by (auto simp: closure_child_def)
qed

theorem Thread_spawn_runs_closure_witness:
  "\<exists>k' heap'. Thread_spawn ref_threads_api (\<lambda>_. Unused) Map.empty 48 (StaticThread_get_wrapped 16 (ThreadStack_new 64 1024)) 0 ''job'' =
     (k', heap') \<and> closure_child 48 heap' = Ret (''job'', Map.empty)"
proof -
  obtain k' and heap' :: "ptr \<rightharpoonup> string" where s: "Thread_spawn ref_threads_api (\<lambda>_. Unused) Map.empty 48 (StaticThread_get_wrapped 16 (ThreadStack_new 64 1024)) 0 ''job'' =
     (k', heap')" by fastforce
  from Thread_spawn_runs_closure [OF ref_threads.zephyr_threads_axioms _ _ s] s show ?thesis
    by (simp add: StaticThread_get_wrapped_def)
qed

end
