(* ===== verification/Assoc_Store.thy ===== *)
theory Assoc_Store
  imports Zephyr_Prelude "HOL-Library.Char_ord" "HOL-Library.List_Lexorder"
begin

text \<open>
  The contract of a store of associations, \<open>assoc_store\<close>, which the thread-local store and the maps of
  the devicetree tools rely on, and its provider for Rust's \<open>BTreeMap\<close>: the entries in the order of
  their keys. Strings are ordered by their characters, as Rust's are.
\<close>

section \<open>The contract\<close>

text \<open>What a store of associations promises its client.\<close>

locale assoc_store =
  fixes ok :: "'s \<Rightarrow> bool" and empty :: 's and store :: "'s \<Rightarrow> 'k \<Rightarrow> 'v \<Rightarrow> 's" and find :: "'k \<Rightarrow> 's \<Rightarrow> 'v option"
  assumes ok_empty: "ok empty" and find_empty: "find k empty = None"
    and ok_store: "ok s \<Longrightarrow> ok (store s k v)"
    and find_store: "ok s \<Longrightarrow> find k' (store s k v) = (if k' = k then Some v else find k' s)"
begin

definition store_all :: "('k \<times> 'v) list \<Rightarrow> 's" where
  "store_all kvs = fold (\<lambda>(k, v) s. store s k v) kvs empty"

lemma store_all_map: "ok (store_all kvs) \<and> find k (store_all kvs) = map_of (rev kvs) k"
proof (induction kvs rule: rev_induct)
  case Nil
  show ?case by (simp add: store_all_def ok_empty find_empty)
next
  case (snoc kv kvs)
  then show ?case
    by (cases kv) (simp add: store_all_def ok_store find_store)
qed

end

lemma map_of_outside: "t \<notin> fst ` set xs \<Longrightarrow> map_of xs t = None"
  by (simp add: map_of_eq_None_iff)

section \<open>\<open>BTreeMap\<close>\<close>

type_synonym ('k, 'v) btree = "('k \<times> 'v) list"

fun btree_insert :: "('k :: linorder, 'v) btree \<Rightarrow> 'k \<Rightarrow> 'v \<Rightarrow> ('k, 'v) btree" where
  "btree_insert [] k v = [(k, v)]"
| "btree_insert ((k', v') # m) k v =
     (if k < k' then (k, v) # (k', v') # m
      else if k = k' then (k, v) # m
      else (k', v') # btree_insert m k v)"

definition btree_get :: "'k \<Rightarrow> ('k, 'v) btree \<Rightarrow> 'v option" where
  "btree_get k m = map_of m k"

definition btree_keys :: "('k, 'v) btree \<Rightarrow> 'k list" where
  "btree_keys m = map fst m"

definition btree_ok :: "('k :: linorder, 'v) btree \<Rightarrow> bool" where
  "btree_ok m \<longleftrightarrow> sorted_wrt (<) (btree_keys m)"

lemma btree_insert_keys: "set (btree_keys (btree_insert m k v)) = insert k (set (btree_keys m))"
  by (induction m k v rule: btree_insert.induct) (auto simp: btree_keys_def)

lemma btree_insert_ok: "btree_ok m \<Longrightarrow> btree_ok (btree_insert m k v)"
proof (induction m k v rule: btree_insert.induct)
  case (2 k' v' m k v)
  have rest: "btree_ok m" "\<forall>x \<in> set (btree_keys m). k' < x" using 2(2) by (auto simp: btree_ok_def btree_keys_def)
  show ?case
  proof (cases "k < k' \<or> k = k'")
    case True
    then show ?thesis using 2(2) by (auto simp: btree_ok_def btree_keys_def)
  next
    case False
    then have "btree_ok (btree_insert m k v)" and "k' < k" using 2(1) rest(1) by auto
    then have "\<forall>x \<in> set (btree_keys (btree_insert m k v)). k' < x" using rest(2) by (simp add: btree_insert_keys)
    with False \<open>btree_ok (btree_insert m k v)\<close> show ?thesis by (simp add: btree_ok_def btree_keys_def)
  qed
qed (simp add: btree_ok_def btree_keys_def)

lemma btree_get_insert: "btree_get k' (btree_insert m k v) = (if k' = k then Some v else btree_get k' m)"
  by (induction m k v rule: btree_insert.induct) (auto simp: btree_get_def)

interpretation btree: assoc_store btree_ok "[]" btree_insert btree_get
  by unfold_locales (auto simp: btree_get_insert btree_insert_ok, auto simp: btree_ok_def btree_keys_def btree_get_def)

lemma btree_get_keys: "btree_get k m \<noteq> None \<longleftrightarrow> k \<in> set (btree_keys m)"
  by (simp add: btree_get_def btree_keys_def map_of_eq_None_iff)

end
