(* ===== verification/Simple_Tls.thy ===== *)
theory Simple_Tls
  imports Assoc_Store
begin

text \<open>
  \<open>zephyr/src/simpletls.rs\<close>: the association of threads with values, a vector sorted by the address of
  the thread and searched with \<open>binary_search_by\<close>. The search is the loop of the Rust library. The
  contract \<open>assoc_store\<close> says that the store behaves as a finite map.
\<close>

section \<open>Binary search\<close>

datatype ordering = Less | Equal | Greater

definition cmp :: "'a :: linorder \<Rightarrow> 'a \<Rightarrow> ordering" where
  "cmp a b = (if a < b then Less else if a = b then Equal else Greater)"

lemma cmp_eq [simp]: "cmp a b = Less \<longleftrightarrow> a < b" "cmp a b = Equal \<longleftrightarrow> a = b" "cmp a b = Greater \<longleftrightarrow> b < a"
  by (auto simp: cmp_def)

text \<open>The loop of \<open>slice::binary_search_by\<close>: the window of \<open>size\<close> elements from \<open>base\<close> on is halved.\<close>

function bsearch_loop :: "('a \<Rightarrow> ordering) \<Rightarrow> 'a list \<Rightarrow> nat \<Rightarrow> nat \<Rightarrow> nat" where
  "bsearch_loop f xs sz base =
     (if sz > 1
      then let half = sz div 2; mid = base + half
           in bsearch_loop f xs (sz - half) (if f (xs ! mid) = Greater then base else mid)
      else base)"
  by pat_completeness auto
termination by (relation "measure (\<lambda>(f, xs, sz, base). sz)") auto

declare bsearch_loop.simps [simp del]

definition binary_search_by :: "('a \<Rightarrow> ordering) \<Rightarrow> 'a list \<Rightarrow> (nat, nat) result" where
  "binary_search_by f xs =
     (if xs = [] then Err 0
      else let base = bsearch_loop f xs (length xs) 0
           in case f (xs ! base) of
                Equal \<Rightarrow> Ok base
              | Less \<Rightarrow> Err (base + 1)
              | Greater \<Rightarrow> Err base)"

section \<open>\<open>SimpleTls\<close>\<close>

record 't SimpleTls =
  tls_map :: "(usize \<times> 't) list"

definition SimpleTls_new :: "'t SimpleTls" where
  "SimpleTls_new = \<lparr>tls_map = []\<rparr>"

text \<open>\<open>Vec::insert\<close>.\<close>

definition vec_insert :: "nat \<Rightarrow> 'a \<Rightarrow> 'a list \<Rightarrow> 'a list" where
  "vec_insert pos x xs = take pos xs @ x # drop pos xs"

definition SimpleTls_insert :: "'t SimpleTls \<Rightarrow> usize \<Rightarrow> 't \<Rightarrow> 't SimpleTls" where
  "SimpleTls_insert self thread data =
     (case binary_search_by (\<lambda>(key, _). cmp key thread) (tls_map self) of
        Ok pos \<Rightarrow> self\<lparr>tls_map := (tls_map self)[pos := (thread, data)]\<rparr>
      | Err pos \<Rightarrow> self\<lparr>tls_map := vec_insert pos (thread, data) (tls_map self)\<rparr>)"

text \<open>\<open>thread\<close> is the current thread, from \<open>k_current_get\<close>.\<close>

definition SimpleTls_get :: "usize \<Rightarrow> 't SimpleTls \<Rightarrow> 't option" where
  "SimpleTls_get thread self =
     (case binary_search_by (\<lambda>(key, _). cmp key thread) (tls_map self) of
        Ok pos \<Rightarrow> Some (snd (tls_map self ! pos))
      | Err _ \<Rightarrow> None)"

section \<open>The search finds what is there\<close>

text \<open>
  The comparison is monotone along the vector: smaller elements first. The loop keeps the answer
  inside its window.
\<close>

definition ordered_by :: "('a \<Rightarrow> ordering) \<Rightarrow> 'a list \<Rightarrow> bool" where
  "ordered_by f xs \<longleftrightarrow> (\<forall>i j. i < j \<longrightarrow> j < length xs \<longrightarrow> f (xs ! j) \<noteq> Greater \<longrightarrow> f (xs ! i) = Less)"

lemma ordered_byD: "ordered_by f xs \<Longrightarrow> i < j \<Longrightarrow> j < length xs \<Longrightarrow> f (xs ! j) \<noteq> Greater \<Longrightarrow> f (xs ! i) = Less"
  by (auto simp: ordered_by_def)

lemma bsearch_loop_window:
  assumes "ordered_by f xs" and "0 < sz" and "base + sz \<le> length xs"
    and "base = 0 \<or> f (xs ! base) \<noteq> Greater" and "\<And>i. base + sz \<le> i \<Longrightarrow> i < length xs \<Longrightarrow> f (xs ! i) = Greater"
  shows "bsearch_loop f xs sz base < length xs \<and>
    (bsearch_loop f xs sz base = 0 \<or> f (xs ! bsearch_loop f xs sz base) \<noteq> Greater) \<and>
    (\<forall>i. bsearch_loop f xs sz base < i \<longrightarrow> i < length xs \<longrightarrow> f (xs ! i) = Greater)"
  using assms
proof (induction f xs sz base rule: bsearch_loop.induct)
  case (1 f xs sz base)
  show ?case
  proof (cases "sz > 1")
    case False
    then have "sz = 1" and "bsearch_loop f xs sz base = base"
      using 1(3) by (simp_all add: bsearch_loop.simps [of f xs sz])
    with 1(4-6) show ?thesis by auto
  next
    case True
    let ?half = "sz div 2" and ?mid = "base + sz div 2"
    have greater: "f (xs ! i) = Greater" if "f (xs ! ?mid) = Greater" "?mid \<le> i" "i < length xs" for i
      using ordered_byD [OF 1(2), of ?mid i] that by (cases "i = ?mid") auto
    show ?thesis
      unfolding bsearch_loop.simps [of f xs sz base] if_P [OF True] Let_def
    proof (rule 1(1) [OF True refl refl 1(2)])
      show "(if f (xs ! ?mid) = Greater then base else ?mid) + (sz - ?half) \<le> length xs" using 1(4) by auto
      show "(if f (xs ! ?mid) = Greater then base else ?mid) = 0 \<or>
        f (xs ! (if f (xs ! ?mid) = Greater then base else ?mid)) \<noteq> Greater" using 1(5) by auto
      show "f (xs ! i) = Greater"
        if "(if f (xs ! ?mid) = Greater then base else ?mid) + (sz - ?half) \<le> i" "i < length xs" for i
        using that 1(6) [of i] greater [of i] by (auto split: if_splits)
    qed (use True in auto)
  qed
qed

lemma binary_search_by_spec:
  assumes "ordered_by f xs"
  shows "case binary_search_by f xs of
      Ok pos \<Rightarrow> pos < length xs \<and> f (xs ! pos) = Equal
    | Err pos \<Rightarrow> pos \<le> length xs \<and> (\<forall>i < pos. f (xs ! i) = Less) \<and> (\<forall>i. pos \<le> i \<longrightarrow> i < length xs \<longrightarrow> f (xs ! i) = Greater)"
proof (cases "xs = []")
  case True
  then show ?thesis by (simp add: binary_search_by_def)
next
  case False
  let ?b = "bsearch_loop f xs (length xs) 0"
  have b: "?b < length xs" "?b = 0 \<or> f (xs ! ?b) \<noteq> Greater" "\<forall>i. ?b < i \<longrightarrow> i < length xs \<longrightarrow> f (xs ! i) = Greater"
    using bsearch_loop_window [OF assms, of "length xs" 0] False by auto
  show ?thesis
  proof (cases "f (xs ! ?b)")
    case Less
    then have "f (xs ! i) = Less" if "i < ?b + 1" for i
      using that ordered_byD [OF assms, of i ?b] b(1) by (cases "i = ?b") auto
    with False b Less show ?thesis by (auto simp: binary_search_by_def Let_def)
  next
    case Equal
    with False b show ?thesis by (simp add: binary_search_by_def Let_def)
  next
    case Greater
    with b have "?b = 0" by simp
    moreover have "f (xs ! i) = Greater" if "?b \<le> i" "i < length xs" for i
      using that b(3) Greater by (cases "i = ?b") auto
    ultimately show ?thesis using False Greater by (simp add: binary_search_by_def Let_def)
  qed
qed

section \<open>The store is a map\<close>

definition tls_ok :: "'t SimpleTls \<Rightarrow> bool" where
  "tls_ok self \<longleftrightarrow> sorted_wrt (<) (map fst (tls_map self))"

lemma tls_ordered: "tls_ok self \<Longrightarrow> ordered_by (\<lambda>(key, _). cmp key t) (tls_map self)"
  unfolding ordered_by_def tls_ok_def
proof (intro allI impI)
  fix i j
  assume s: "sorted_wrt (<) (map fst (tls_map self))" and ij: "i < j" "j < length (tls_map self)"
    and g: "(case tls_map self ! j of (key, _) \<Rightarrow> cmp key t) \<noteq> Greater"
  have "fst (tls_map self ! i) < fst (tls_map self ! j)"
    using sorted_wrt_nth_less [OF s ij(1)] ij by simp
  with g show "(case tls_map self ! i of (key, _) \<Rightarrow> cmp key t) = Less"
    by (auto simp: split_beta)
qed

lemma tls_search:
  assumes "tls_ok self"
  obtains
    (found) xs v ys where "binary_search_by (\<lambda>(key, _). cmp key t) (tls_map self) = Ok (length xs)"
      "tls_map self = xs @ (t, v) # ys"
  | (missing) xs ys where "binary_search_by (\<lambda>(key, _). cmp key t) (tls_map self) = Err (length xs)"
      "tls_map self = xs @ ys" "\<forall>e \<in> set xs. fst e < t" "\<forall>e \<in> set ys. t < fst e"
proof (cases "binary_search_by (\<lambda>(key, _). cmp key t) (tls_map self)")
  case (Ok pos)
  then have "pos < length (tls_map self)" "fst (tls_map self ! pos) = t"
    using binary_search_by_spec [OF tls_ordered [OF assms], of t] by (auto simp: split_beta)
  with Ok id_take_nth_drop [of pos "tls_map self"] show ?thesis
    by (intro found [of "take pos (tls_map self)" "snd (tls_map self ! pos)" "drop (Suc pos) (tls_map self)"])
      (auto simp: min_def)
next
  case (Err pos)
  then have p: "pos \<le> length (tls_map self)" "\<forall>i < pos. fst (tls_map self ! i) < t"
    "\<forall>i. pos \<le> i \<longrightarrow> i < length (tls_map self) \<longrightarrow> t < fst (tls_map self ! i)"
    using binary_search_by_spec [OF tls_ordered [OF assms], of t] by (simp_all add: split_beta)
  show ?thesis
  proof (rule missing)
    show "binary_search_by (\<lambda>(key, _). cmp key t) (tls_map self) = Err (length (take pos (tls_map self)))"
      using Err p(1) by simp
    show "tls_map self = take pos (tls_map self) @ drop pos (tls_map self)" by simp
    show "\<forall>e \<in> set (take pos (tls_map self)). fst e < t" using p(1,2) by (force simp: in_set_conv_nth)
    show "\<forall>e \<in> set (drop pos (tls_map self)). t < fst e"
    proof
      fix e
      assume "e \<in> set (drop pos (tls_map self))"
      then obtain i where "i < length (tls_map self) - pos" "e = tls_map self ! (pos + i)"
        using p(1) by (auto simp: in_set_conv_nth)
      with p(1,3) show "t < fst e" by simp
    qed
  qed
qed

lemma tls_distinct: "tls_ok self \<Longrightarrow> distinct (map fst (tls_map self))"
  unfolding tls_ok_def by (simp add: strict_sorted_iff)

lemma SimpleTls_get_map:
  assumes "tls_ok self"
  shows "SimpleTls_get t self = map_of (tls_map self) t"
  using assms
proof (cases rule: tls_search [of self t])
  case (found xs v ys)
  then show ?thesis using tls_distinct [OF assms] by (simp add: SimpleTls_get_def map_of_outside map_add_def)
next
  case (missing xs ys)
  then have "t \<notin> fst ` set (tls_map self)" by fastforce
  with missing(1) show ?thesis by (simp add: SimpleTls_get_def map_of_outside)
qed

lemma SimpleTls_insert_map:
  assumes "tls_ok self"
  shows "tls_ok (SimpleTls_insert self t v) \<and>
    map_of (tls_map (SimpleTls_insert self t v)) = (map_of (tls_map self))(t \<mapsto> v)"
  using assms
proof (cases rule: tls_search [of self t])
  case (found xs w ys)
  then have new: "tls_map (SimpleTls_insert self t v) = xs @ (t, v) # ys"
    by (simp add: SimpleTls_insert_def)
  have "t \<notin> fst ` set xs" using tls_distinct [OF assms] found(2) by auto
  then have "map_of (xs @ (t, v) # ys) = (map_of (xs @ (t, w) # ys))(t \<mapsto> v)"
    by (auto simp: fun_eq_iff map_add_def map_of_outside split: option.splits)
  then show ?thesis using assms new found(2) by (simp add: tls_ok_def)
next
  case (missing xs ys)
  then have new: "tls_map (SimpleTls_insert self t v) = xs @ (t, v) # ys"
    by (simp add: SimpleTls_insert_def vec_insert_def)
  have "t \<notin> fst ` set xs" using missing(3) by auto
  then have "map_of (xs @ (t, v) # ys) = (map_of (xs @ ys))(t \<mapsto> v)"
    by (auto simp: fun_eq_iff map_add_def map_of_outside split: option.splits)
  moreover have "sorted_wrt (<) (map fst (xs @ (t, v) # ys))"
    using assms missing(2-4) by (auto simp: tls_ok_def sorted_wrt_append)
  ultimately show ?thesis using new missing(2) by (simp add: tls_ok_def)
qed

interpretation tls: assoc_store tls_ok SimpleTls_new SimpleTls_insert SimpleTls_get
proof unfold_locales
  show e: "tls_ok (SimpleTls_new :: 'a SimpleTls)" by (simp add: tls_ok_def SimpleTls_new_def)
  show "SimpleTls_get k (SimpleTls_new :: 'a SimpleTls) = None" for k
    using SimpleTls_get_map [OF e, of k] by (simp add: SimpleTls_new_def)
  show "tls_ok (SimpleTls_insert s k v)" if "tls_ok s" for s :: "'a SimpleTls" and k v
    using SimpleTls_insert_map [OF that] by simp
  show "SimpleTls_get k' (SimpleTls_insert s k v) = (if k' = k then Some v else SimpleTls_get k' s)"
    if "tls_ok s" for s :: "'a SimpleTls" and k k' v
    using SimpleTls_insert_map [OF that, of k v] SimpleTls_get_map [OF that]
      SimpleTls_get_map [of "SimpleTls_insert s k v" k'] by simp
qed

text \<open>
  C37. After any sequence of insertions into a new \<open>SimpleTls\<close> the vector is strictly sorted by thread,
  and \<open>get\<close> answers for each thread the value inserted for it last, and nothing for a thread that was
  never added.
\<close>

theorem SimpleTls_is_map:
  "let self = fold (\<lambda>(thread, data) self. SimpleTls_insert self thread data) kvs SimpleTls_new
   in sorted_wrt (<) (map fst (tls_map self)) \<and> SimpleTls_get thread self = map_of (rev kvs) thread"
  using tls.store_all_map [of kvs thread] unfolding tls.store_all_def tls_ok_def Let_def .

end
