(* ===== verification/Work.thy ===== *)
theory Work
  imports Mutex Simple_Tls Threads
begin

text \<open>
  \<open>zephyr/src/work.rs\<close>: work queues and the map from their threads to them, signals, and work items with
  the reference counting by which an item stays alive while the kernel has it queued. The kernel's work
  items and signals are parameters (\<open>zephyr_work\<close>, \<open>zephyr_signal\<close>).
\<close>

section \<open>Work queues\<close>

record k_work_queue_config =
  qc_name :: "string option"
  qc_no_yield :: bool
  qc_essential :: bool

record WorkQueueBuilder =
  wb_config :: k_work_queue_config
  wb_priority :: c_int

definition WorkQueueBuilder_new :: WorkQueueBuilder where
  "WorkQueueBuilder_new = \<lparr>wb_config = \<lparr>qc_name = None, qc_no_yield = False, qc_essential = False\<rparr>, wb_priority = 0\<rparr>"

definition WorkQueueBuilder_set_name :: "WorkQueueBuilder \<Rightarrow> string \<Rightarrow> WorkQueueBuilder" where
  "WorkQueueBuilder_set_name self name = self\<lparr>wb_config := (wb_config self)\<lparr>qc_name := Some name\<rparr>\<rparr>"

definition WorkQueueBuilder_set_no_yield :: "WorkQueueBuilder \<Rightarrow> bool \<Rightarrow> WorkQueueBuilder" where
  "WorkQueueBuilder_set_no_yield self v = self\<lparr>wb_config := (wb_config self)\<lparr>qc_no_yield := v\<rparr>\<rparr>"

definition WorkQueueBuilder_set_essential :: "WorkQueueBuilder \<Rightarrow> bool \<Rightarrow> WorkQueueBuilder" where
  "WorkQueueBuilder_set_essential self v = self\<lparr>wb_config := (wb_config self)\<lparr>qc_essential := v\<rparr>\<rparr>"

definition WorkQueueBuilder_set_priority :: "WorkQueueBuilder \<Rightarrow> c_int \<Rightarrow> WorkQueueBuilder" where
  "WorkQueueBuilder_set_priority self v = self\<lparr>wb_priority := v\<rparr>"

text \<open>
  \<open>WORK_QUEUES\<close>, and the calls of \<open>k_work_queue_start\<close>. A \<open>WorkQueueRef\<close> is the queue's address, and the
  queue's thread is the field at the offset \<open>toff\<close> of the queue.
\<close>

record 'm wq_sys =
  wq_tls :: "('m, ptr SimpleTls) Mutex"
  wq_started :: "(ptr \<times> ThreadStack \<times> c_int \<times> k_work_queue_config) list"

text \<open>
  \<open>start\<close>, called by thread \<open>t\<close>, with the new queue at \<open>item\<close>; \<open>maddr\<close> is the address of the mutex.
\<close>

definition WorkQueueBuilder_start ::
    "'m k_mutex_api \<Rightarrow> ptr \<Rightarrow> tid \<Rightarrow> ptr \<Rightarrow> ptr \<Rightarrow> WorkQueueBuilder \<Rightarrow> ThreadStack \<Rightarrow> 'm wq_sys \<Rightarrow>
     (Fixed \<times> 'm wq_sys) outcome" where
  "WorkQueueBuilder_start M maddr t toff addr self stack s =
     (let item = Fixed_new addr in
      bind_outcome (Mutex_lock M maddr t (wq_tls s)) (\<lambda>guard.
      bind_outcome (MutexGuard_drop M maddr t
          (MutexGuard_deref_mut guard (\<lambda>tls. SimpleTls_insert tls (Fixed_get item + toff) (Fixed_get item)))) (\<lambda>mx.
        Ret (item, s\<lparr>wq_tls := mx,
          wq_started := wq_started s @ [(Fixed_get item, stack, wb_priority self, wb_config self)]\<rparr>))))"

definition get_current_workq ::
    "'m k_mutex_api \<Rightarrow> ptr \<Rightarrow> tid \<Rightarrow> usize \<Rightarrow> 'm wq_sys \<Rightarrow> (ptr option \<times> 'm wq_sys) outcome" where
  "get_current_workq M maddr t thread s =
     bind_outcome (Mutex_lock M maddr t (wq_tls s)) (\<lambda>guard.
     let r = SimpleTls_get thread (MutexGuard_deref guard) in
     bind_outcome (MutexGuard_drop M maddr t guard) (\<lambda>mx. Ret (r, s\<lparr>wq_tls := mx\<rparr>)))"

definition WorkQueue_drop :: "Fixed \<Rightarrow> unit outcome" where
  "WorkQueue_drop self = Panic ''WorkQueues must not be dropped''"

section \<open>Signals\<close>

record 's k_poll_signal_api =
  k_poll_signal_init :: 's
  k_poll_signal_reset :: "'s \<Rightarrow> 's"
  k_poll_signal_check :: "'s \<Rightarrow> u32 \<times> c_int"
  k_poll_signal_raise :: "'s \<Rightarrow> c_int \<Rightarrow> c_int \<times> 's"

text \<open>The result of the last raise since the last reset; a raise that fails does not raise the signal.\<close>

locale zephyr_signal =
  fixes S :: "'s k_poll_signal_api" and raised :: "'s \<Rightarrow> c_int option"
  assumes init_clear: "raised (k_poll_signal_init S) = None"
    and reset_clear: "raised (k_poll_signal_reset S s) = None"
    and check_raised: "k_poll_signal_check S s = (f, r) \<Longrightarrow> (f \<noteq> 0 \<longleftrightarrow> raised s \<noteq> None) \<and> (\<forall>v. raised s = Some v \<longrightarrow> r = v)"
    and raise_code: "k_poll_signal_raise S s v = (e, s') \<Longrightarrow> sint e \<le> 0 \<and> raised s' = (if e = 0 then Some v else raised s)"

definition Signal_new :: "'s k_poll_signal_api \<Rightarrow> 's" where
  "Signal_new S = k_poll_signal_init S"

definition Signal_reset :: "'s k_poll_signal_api \<Rightarrow> 's \<Rightarrow> 's" where
  "Signal_reset S self = k_poll_signal_reset S self"

definition Signal_check :: "'s k_poll_signal_api \<Rightarrow> 's \<Rightarrow> c_int option" where
  "Signal_check S self = (let (signaled, result) = k_poll_signal_check S self
     in if signaled \<noteq> 0 then Some result else None)"

definition Signal_raise :: "'s k_poll_signal_api \<Rightarrow> 's \<Rightarrow> c_int \<Rightarrow> (unit, Error) result \<times> 's" where
  "Signal_raise S self result = (let (e, self) = k_poll_signal_raise S self result in (to_result_void e, self))"

section \<open>Work items\<close>

datatype SubmitResult = AlreadySubmitted | Enqueued | WasRunning

definition SubmitResult_enqueued :: "SubmitResult \<Rightarrow> bool" where
  "SubmitResult_enqueued self \<longleftrightarrow> self \<in> {Enqueued, WasRunning}"

definition SubmitResult_to_result :: "c_int \<Rightarrow> (SubmitResult, Error) result outcome" where
  "SubmitResult_to_result v = (case to_result v of
     Err e \<Rightarrow> Ret (Err e)
   | Ok code \<Rightarrow> if code = 0 then Ret (Ok AlreadySubmitted) else if code = 1 then Ret (Ok Enqueued)
       else if code = 2 then Ret (Ok WasRunning)
       else Panic ''Unexpected result from Zephyr work submission'')"

record 'w k_work_api =
  k_work_init :: 'w
  k_work_submit :: "'w \<Rightarrow> c_int \<times> 'w"
  k_work_submit_to_queue :: "ptr \<Rightarrow> 'w \<Rightarrow> c_int \<times> 'w"
  k_work_take :: "'w \<Rightarrow> 'w option"

text \<open>
  The documented behaviour: 1 and 2 say that the item was put on a queue, 0 that it is on one already,
  and a negative code that nothing changed; a queue's thread takes an item off before it calls the
  handler (\<open>k_work_take\<close>).
\<close>

locale zephyr_work =
  fixes W :: "'w k_work_api" and pending :: "'w \<Rightarrow> bool"
  assumes init_idle: "\<not> pending (k_work_init W)"
    and submit_codes: "k_work_submit W w = (r, w') \<Longrightarrow> sint r \<le> 2 \<and>
      (if r = 1 \<or> r = 2 then \<not> pending w \<and> pending w' else pending w' = pending w) \<and> (r = 0 \<longrightarrow> pending w)"
    and submit_queue_codes: "k_work_submit_to_queue W q w = (r, w') \<Longrightarrow> sint r \<le> 2 \<and>
      (if r = 1 \<or> r = 2 then \<not> pending w \<and> pending w' else pending w' = pending w) \<and> (r = 0 \<longrightarrow> pending w)"
    and take_pending: "k_work_take W w = Some w' \<Longrightarrow> pending w \<and> \<not> pending w'"

text \<open>
  A work item in its \<open>Arc\<close>: the strong count, or \<open>None\<close> once the memory is freed, and the kernel's part. The
  count is not bounded: \<open>Arc\<close> aborts the program before it reaches the end of \<open>usize\<close>.
\<close>

record 'w Work =
  wk_strong :: "nat option"
  wk_work :: 'w

definition Work_new :: "'w k_work_api \<Rightarrow> 'w Work" where
  "Work_new W = \<lparr>wk_strong = Some 1, wk_work = k_work_init W\<rparr>"

text \<open>\<open>Arc::clone\<close> and the drop of an \<open>Arc\<close>.\<close>

definition Arc_clone :: "'w Work \<Rightarrow> 'w Work outcome" where
  "Arc_clone this = (case wk_strong this of None \<Rightarrow> UB | Some n \<Rightarrow> Ret (this\<lparr>wk_strong := Some (n + 1)\<rparr>))"

definition Arc_drop :: "'w Work \<Rightarrow> 'w Work outcome" where
  "Arc_drop this = (case wk_strong this of
     None \<Rightarrow> UB
   | Some n \<Rightarrow> Ret (this\<lparr>wk_strong := (if n - 1 = 0 then None else Some (n - 1))\<rparr>))"

text \<open>
  \<open>submit\<close> and \<open>submit_to_queue\<close> consume an \<open>Arc\<close> without lowering the count (\<open>Arc::into_raw\<close>), whatever the
  kernel answers.
\<close>

definition Work_submit :: "'w k_work_api \<Rightarrow> 'w Work \<Rightarrow> ((SubmitResult, Error) result \<times> 'w Work) outcome" where
  "Work_submit W this = (if wk_strong this = None then UB else
     let (r, w) = k_work_submit W (wk_work this) in
     bind_outcome (SubmitResult_to_result r) (\<lambda>res. Ret (res, this\<lparr>wk_work := w\<rparr>)))"

definition Work_submit_to_queue ::
    "'w k_work_api \<Rightarrow> 'w Work \<Rightarrow> Fixed \<Rightarrow> ((SubmitResult, Error) result \<times> 'w Work) outcome" where
  "Work_submit_to_queue W this queue = (if wk_strong this = None then UB else
     let (r, w) = k_work_submit_to_queue W (Fixed_get queue) (wk_work this) in
     bind_outcome (SubmitResult_to_result r) (\<lambda>res. Ret (res, this\<lparr>wk_work := w\<rparr>)))"

text \<open>
  \<open>handler\<close>: \<open>from_raw\<close> makes the \<open>Arc\<close> again from the kernel's pointer (\<open>off\<close> is the offset of the field
  \<open>work\<close>, and the item is at \<open>base\<close>), the action is called on the item, and the \<open>Arc\<close> is dropped.
\<close>

definition Work_from_raw :: "ptr \<Rightarrow> ptr \<Rightarrow> ptr" where
  "Work_from_raw off p = p - off"

definition handler_begin :: "ptr \<Rightarrow> ptr \<Rightarrow> ptr \<Rightarrow> 'w Work \<Rightarrow> unit outcome" where
  "handler_begin base off p this = (if Work_from_raw off p \<noteq> base \<or> wk_strong this = None then UB else Ret ())"

definition handler_end :: "'w Work \<Rightarrow> 'w Work outcome" where
  "handler_end this = Arc_drop this"

section \<open>Programs that share a work item\<close>

text \<open>
  The item at \<open>base\<close>, the \<open>Arc\<close>s the program holds, the submissions whose \<open>Arc\<close> no handler will take back,
  the handlers that run, and the number of calls of the action.
\<close>

record 'w wk_sys =
  ws_item :: "'w Work"
  ws_held :: nat
  ws_leaked :: nat
  ws_handlers :: nat
  ws_acts :: nat

inductive wk_step :: "'w k_work_api \<Rightarrow> ptr \<Rightarrow> ptr \<Rightarrow> 'w wk_sys \<Rightarrow> 'w wk_sys \<Rightarrow> bool" for W base off where
  clone: "0 < ws_held s \<Longrightarrow> Arc_clone (ws_item s) = Ret item \<Longrightarrow>
     wk_step W base off s (s\<lparr>ws_item := item, ws_held := ws_held s + 1\<rparr>)"
| drop: "0 < ws_held s \<Longrightarrow> Arc_drop (ws_item s) = Ret item \<Longrightarrow>
     wk_step W base off s (s\<lparr>ws_item := item, ws_held := ws_held s - 1\<rparr>)"
| submit: "0 < ws_held s \<Longrightarrow> Work_submit W (ws_item s) = Ret (r, item) \<Longrightarrow>
     wk_step W base off s (s\<lparr>ws_item := item, ws_held := ws_held s - 1,
       ws_leaked := ws_leaked s + (if r \<in> {Ok Enqueued, Ok WasRunning} then 0 else 1)\<rparr>)"
| submit_to_queue: "0 < ws_held s \<Longrightarrow> Work_submit_to_queue W (ws_item s) queue = Ret (r, item) \<Longrightarrow>
     wk_step W base off s (s\<lparr>ws_item := item, ws_held := ws_held s - 1,
       ws_leaked := ws_leaked s + (if r \<in> {Ok Enqueued, Ok WasRunning} then 0 else 1)\<rparr>)"
| run: "k_work_take W (wk_work (ws_item s)) = Some w \<Longrightarrow> handler_begin base off (base + off) (ws_item s) = Ret () \<Longrightarrow>
     wk_step W base off s (s\<lparr>ws_item := (ws_item s)\<lparr>wk_work := w\<rparr>, ws_handlers := ws_handlers s + 1, ws_acts := ws_acts s + 1\<rparr>)"
| finish: "0 < ws_handlers s \<Longrightarrow> handler_end (ws_item s) = Ret item \<Longrightarrow>
     wk_step W base off s (s\<lparr>ws_item := item, ws_handlers := ws_handlers s - 1\<rparr>)"

inductive wk_reach :: "'w k_work_api \<Rightarrow> ptr \<Rightarrow> ptr \<Rightarrow> 'w wk_sys \<Rightarrow> bool" for W base off where
  wk_init: "wk_reach W base off \<lparr>ws_item = Work_new W, ws_held = 1, ws_leaked = 0, ws_handlers = 0, ws_acts = 0\<rparr>"
| wk_more: "wk_reach W base off s \<Longrightarrow> wk_step W base off s s' \<Longrightarrow> wk_reach W base off s'"

text \<open>Every count of the \<open>Arc\<close> is accounted for, and the memory is there exactly while the count is not 0.\<close>

definition wk_refs :: "('w \<Rightarrow> bool) \<Rightarrow> 'w wk_sys \<Rightarrow> nat" where
  "wk_refs pending s = ws_held s + ws_leaked s + ws_handlers s + (if pending (wk_work (ws_item s)) then 1 else 0)"

definition wk_inv :: "('w \<Rightarrow> bool) \<Rightarrow> 'w wk_sys \<Rightarrow> bool" where
  "wk_inv pending s \<longleftrightarrow> wk_strong (ws_item s) = (if wk_refs pending s = 0 then None else Some (wk_refs pending s))"

lemma to_result_Ok: "to_result v = Ok c \<longleftrightarrow> c = v \<and> 0 \<le> sint v"
  by (auto simp: to_result_def)

lemma c_int_of_sint: "sint v = k \<Longrightarrow> v = of_int k" for v :: c_int
  by (metis of_int_sint scast_id)

lemma SubmitResult_cases:
  assumes "sint v \<le> 2"
  shows "\<exists>r. SubmitResult_to_result v = Ret r \<and> (r \<in> {Ok Enqueued, Ok WasRunning} \<longleftrightarrow> v = 1 \<or> v = 2)"
proof (cases "to_result v")
  case (Err e)
  then have "\<not> 0 \<le> sint v" by (auto simp: to_result_def split: if_splits)
  then have "v \<noteq> 1" "v \<noteq> 2" by auto
  with Err show ?thesis by (auto simp: SubmitResult_to_result_def)
next
  case (Ok c)
  then have c: "c = v" "0 \<le> sint v" by (simp_all add: to_result_Ok)
  have "sint v \<in> {0, 1, 2}" using assms c(2) by auto
  then have "v = 0 \<or> v = 1 \<or> v = 2" by (auto dest: c_int_of_sint)
  with Ok c show ?thesis by (auto simp: SubmitResult_to_result_def)
qed

lemma submit_accounts:
  assumes "wk_inv pending s" and "0 < ws_held s" and "SubmitResult_to_result c = Ret r" and "sint c \<le> 2"
    and "if c = 1 \<or> c = 2 then \<not> pending (wk_work (ws_item s)) \<and> pending w else pending w = pending (wk_work (ws_item s))"
  shows "wk_inv pending (s\<lparr>ws_item := (ws_item s)\<lparr>wk_work := w\<rparr>, ws_held := ws_held s - 1,
       ws_leaked := ws_leaked s + (if r \<in> {Ok Enqueued, Ok WasRunning} then 0 else 1)\<rparr>)"
  using SubmitResult_cases [OF assms(4)] assms by (auto simp: wk_inv_def wk_refs_def split: if_splits)

context zephyr_work
begin

lemma wk_inv_step:
  assumes inv: "wk_inv pending s" and "wk_step W base off s s'"
  shows "wk_inv pending s'"
  using assms(2)
proof cases
  case (clone item)
  then show ?thesis using inv by (auto simp: Arc_clone_def wk_inv_def wk_refs_def split: if_splits)
next
  case (drop item)
  then show ?thesis using inv by (auto simp: Arc_drop_def wk_inv_def wk_refs_def split: if_splits)
next
  case (submit r item)
  then obtain c w where c: "k_work_submit W (wk_work (ws_item s)) = (c, w)" "SubmitResult_to_result c = Ret r"
    "item = (ws_item s)\<lparr>wk_work := w\<rparr>"
    by (auto simp: Work_submit_def outcome_simps split: if_splits prod.splits)
  show ?thesis unfolding submit(1) c(3)
    by (rule submit_accounts [OF inv submit(2) c(2)]) (use submit_codes [OF c(1)] in auto)
next
  case (submit_to_queue queue r item)
  then obtain c w where c: "k_work_submit_to_queue W (Fixed_get queue) (wk_work (ws_item s)) = (c, w)"
    "SubmitResult_to_result c = Ret r" "item = (ws_item s)\<lparr>wk_work := w\<rparr>"
    by (auto simp: Work_submit_to_queue_def outcome_simps split: if_splits prod.splits)
  show ?thesis unfolding submit_to_queue(1) c(3)
    by (rule submit_accounts [OF inv submit_to_queue(2) c(2)]) (use submit_queue_codes [OF c(1)] in auto)
next
  case (run w)
  then show ?thesis using inv take_pending [OF run(2)] by (auto simp: wk_inv_def wk_refs_def)
next
  case (finish item)
  then show ?thesis using inv by (auto simp: handler_end_def Arc_drop_def wk_inv_def wk_refs_def split: if_splits)
qed

lemma wk_reach_inv: "wk_reach W base off s \<Longrightarrow> wk_inv pending s"
proof (induction rule: wk_reach.induct)
  case wk_init
  show ?case by (simp add: wk_inv_def wk_refs_def Work_new_def init_idle)
next
  case (wk_more s s')
  then show ?case using wk_inv_step by blast
qed

end

section \<open>Reference kernels\<close>

text \<open>A work item is a flag; a submission of a queued item answers 0, of another 1.\<close>

definition flag_work_api :: "bool k_work_api" where
  "flag_work_api = \<lparr>k_work_init = False, k_work_submit = (\<lambda>w. if w then (0, True) else (1, True)),
     k_work_submit_to_queue = (\<lambda>q w. if w then (0, True) else (1, True)), k_work_take = (\<lambda>w. if w then Some False else None)\<rparr>"

interpretation flag_work: zephyr_work flag_work_api "\<lambda>w. w"
  by unfold_locales (auto simp: flag_work_api_def split: if_splits)

definition opt_signal_api :: "c_int option k_poll_signal_api" where
  "opt_signal_api = \<lparr>k_poll_signal_init = None, k_poll_signal_reset = (\<lambda>_. None),
     k_poll_signal_check = (\<lambda>s. case s of None \<Rightarrow> (0, 0) | Some v \<Rightarrow> (1, v)), k_poll_signal_raise = (\<lambda>s v. (0, Some v))\<rparr>"

interpretation opt_signal: zephyr_signal opt_signal_api "\<lambda>s. s"
  by unfold_locales (auto simp: opt_signal_api_def split: option.splits)

section \<open>Properties\<close>

text \<open>
  C8. A work item is never used after it is freed: in every reachable state the strong count is exactly
  the \<open>Arc\<close>s the program holds, plus one while the item is queued, plus one per running handler, plus one
  for every submission that did not enqueue it; so an item the kernel may run is alive and its handler
  can take its \<open>Arc\<close> back. The last summand is a leak: such an item is never freed.
\<close>

theorem work_refcount:
  assumes "zephyr_work W pending" and "wk_reach W base off s"
  shows "(wk_strong (ws_item s) = (if wk_refs pending s = 0 then None else Some (wk_refs pending s))) \<and>
    (\<forall>w. k_work_take W (wk_work (ws_item s)) = Some w \<longrightarrow> handler_begin base off (base + off) (ws_item s) = Ret ()) \<and>
    (0 < ws_handlers s \<longrightarrow> (\<exists>item. handler_end (ws_item s) = Ret item)) \<and>
    (0 < ws_leaked s \<longrightarrow> wk_strong (ws_item s) \<noteq> None)"
proof (intro conjI allI impI)
  have inv: "wk_inv pending s" using zephyr_work.wk_reach_inv [OF assms] .
  then show "wk_strong (ws_item s) = (if wk_refs pending s = 0 then None else Some (wk_refs pending s))"
    by (simp add: wk_inv_def)
  show "handler_begin base off (base + off) (ws_item s) = Ret ()" if "k_work_take W (wk_work (ws_item s)) = Some w" for w
    using zephyr_work.take_pending [OF assms(1) that] inv
    by (auto simp: handler_begin_def Work_from_raw_def wk_inv_def wk_refs_def split: if_splits)
  show "\<exists>item. handler_end (ws_item s) = Ret item" if "0 < ws_handlers s"
    using inv that by (auto simp: handler_end_def Arc_drop_def wk_inv_def wk_refs_def)
  show "wk_strong (ws_item s) \<noteq> None" if "0 < ws_leaked s"
    using inv that by (auto simp: wk_inv_def wk_refs_def)
qed

text \<open>Submitting an item twice, once from each of two \<open>Arc\<close>s, and running it, leaves a count that nobody owns.\<close>

definition demo_work :: "bool wk_sys" where
  "demo_work = \<lparr>ws_item = \<lparr>wk_strong = Some 2, wk_work = True\<rparr>, ws_held = 0, ws_leaked = 1, ws_handlers = 0, ws_acts = 0\<rparr>"

lemma demo_work_reach: "wk_reach flag_work_api 256 8 demo_work"
proof -
  let ?s = "\<lambda>n w h l. \<lparr>ws_item = \<lparr>wk_strong = Some n, wk_work = w\<rparr>, ws_held = h, ws_leaked = l, ws_handlers = 0, ws_acts = 0\<rparr>"
  have r0: "wk_reach flag_work_api 256 8 (?s 1 False 1 0)"
    using wk_init [of flag_work_api 256 8] by (simp add: Work_new_def flag_work_api_def)
  have "wk_step flag_work_api 256 8 (?s 1 False 1 0) (?s 2 False 2 0)"
    using clone [of "?s 1 False 1 0" "\<lparr>wk_strong = Some 2, wk_work = False\<rparr>" flag_work_api 256 8] by (simp add: Arc_clone_def numeral_2_eq_2)
  then have r1: "wk_reach flag_work_api 256 8 (?s 2 False 2 0)" by (rule wk_more [OF r0])
  have "wk_step flag_work_api 256 8 (?s 2 False 2 0) (?s 2 True 1 0)"
    using submit [of "?s 2 False 2 0" flag_work_api "Ok Enqueued" "\<lparr>wk_strong = Some 2, wk_work = True\<rparr>" 256 8]
    by (simp add: Work_submit_def flag_work_api_def SubmitResult_to_result_def to_result_def)
  then have r2: "wk_reach flag_work_api 256 8 (?s 2 True 1 0)" by (rule wk_more [OF r1])
  have "wk_step flag_work_api 256 8 (?s 2 True 1 0) demo_work"
    using submit [of "?s 2 True 1 0" flag_work_api "Ok AlreadySubmitted" "\<lparr>wk_strong = Some 2, wk_work = True\<rparr>" 256 8]
    by (simp add: demo_work_def Work_submit_def flag_work_api_def SubmitResult_to_result_def to_result_def)
  then show ?thesis by (rule wk_more [OF r2])
qed

theorem work_refcount_witness:
  "k_work_take flag_work_api (wk_work (ws_item demo_work)) = Some False \<and>
   handler_begin 256 8 (256 + 8) (ws_item demo_work) = Ret () \<and> ws_leaked demo_work = 1"
proof -
  have t: "k_work_take flag_work_api (wk_work (ws_item demo_work)) = Some False"
    by (simp add: demo_work_def flag_work_api_def)
  then have "handler_begin 256 8 (256 + 8) (ws_item demo_work) = Ret ()"
    using work_refcount [OF flag_work.zephyr_work_axioms demo_work_reach] by blast
  with t show ?thesis by (simp add: demo_work_def)
qed

text \<open>The state of \<open>WORK_QUEUES\<close> at rest, with the lock free.\<close>

definition wq_ok :: "('m \<Rightarrow> (tid \<times> nat) option) \<Rightarrow> ptr \<Rightarrow> 'm wq_sys \<Rightarrow> bool" where
  "wq_ok owner maddr s \<longleftrightarrow> mx_ok owner maddr (wq_tls s) \<and> Sys_Mutex_owner owner (mx_inner (wq_tls s)) = None \<and>
     tls_ok (mx_data (wq_tls s))"

text \<open>Starting several queues one after the other, each at its own address and with its own stack.\<close>

fun start_all ::
    "'m k_mutex_api \<Rightarrow> ptr \<Rightarrow> tid \<Rightarrow> ptr \<Rightarrow> (ptr \<times> WorkQueueBuilder \<times> ThreadStack) list \<Rightarrow> 'm wq_sys \<Rightarrow> 'm wq_sys outcome" where
  "start_all M maddr t toff [] s = Ret s"
| "start_all M maddr t toff ((addr, b, stack) # qs) s =
     bind_outcome (WorkQueueBuilder_start M maddr t toff addr b stack s) (\<lambda>(item, s). start_all M maddr t toff qs s)"

context placed_mutex
begin

lemma start_ok:
  assumes "wq_ok owner addr s"
  shows "\<exists>s'. WorkQueueBuilder_start K addr t toff q b stack s = Ret (Owned q, s') \<and> wq_ok owner addr s' \<and>
    mx_data (wq_tls s') = SimpleTls_insert (mx_data (wq_tls s)) (q + toff) q \<and>
    wq_started s' = wq_started s @ [(q, stack, wb_priority b, wb_config b)]"
proof -
  obtain g where g: "Mutex_lock K addr t (wq_tls s) = Ret g" "mx_ok owner addr g"
    "Sys_Mutex_owner owner (mx_inner g) = Some (t, 1)" "mx_data g = mx_data (wq_tls s)"
    using lock_when_free(1) [of "wq_tls s" t] assms by (auto simp: wq_ok_def)
  let ?g = "MutexGuard_deref_mut g (\<lambda>tls. SimpleTls_insert tls (q + toff) q)"
  have "mx_ok owner addr ?g" "Sys_Mutex_owner owner (mx_inner ?g) = Some (t, 1)"
    using g by (simp_all add: MutexGuard_deref_mut_def mx_ok_def)
  from drop_when_mine [OF this] obtain m where "MutexGuard_drop K addr t ?g = Ret m" "mx_ok owner addr m"
    "Sys_Mutex_owner owner (mx_inner m) = None" "mx_data m = mx_data ?g" by blast
  with g assms show ?thesis
    by (simp add: WorkQueueBuilder_start_def Fixed_new_def wq_ok_def MutexGuard_deref_mut_def tls.ok_store)
qed

lemma start_all_ok:
  assumes "wq_ok owner addr s"
  shows "\<exists>s'. start_all K addr t toff qs s = Ret s' \<and> wq_ok owner addr s' \<and>
    mx_data (wq_tls s') = fold (\<lambda>(k, v) tls. SimpleTls_insert tls k v) (map (\<lambda>(q, _). (q + toff, q)) qs) (mx_data (wq_tls s))"
  using assms
proof (induction qs arbitrary: s)
  case (Cons x qs)
  obtain q b stack where x: "x = (q, b, stack)" by (cases x) auto
  obtain s1 where s1: "WorkQueueBuilder_start K addr t toff q b stack s = Ret (Owned q, s1)" "wq_ok owner addr s1"
    "mx_data (wq_tls s1) = SimpleTls_insert (mx_data (wq_tls s)) (q + toff) q"
    using start_ok [OF Cons.prems] by blast
  from Cons.IH [OF s1(2)] s1 x show ?case by simp
qed simp

lemma get_current_ok:
  assumes "wq_ok owner addr s"
  shows "\<exists>s'. get_current_workq K addr t thread s = Ret (SimpleTls_get thread (mx_data (wq_tls s)), s')"
proof -
  obtain g where g: "Mutex_lock K addr t (wq_tls s) = Ret g" "mx_ok owner addr g"
    "Sys_Mutex_owner owner (mx_inner g) = Some (t, 1)" "mx_data g = mx_data (wq_tls s)"
    using lock_when_free(1) [of "wq_tls s" t] assms by (auto simp: wq_ok_def)
  with drop_when_mine [OF g(2,3)] show ?thesis by (auto simp: get_current_workq_def MutexGuard_deref_def)
qed

end

text \<open>
  After any number of work queues were started, \<open>get_current_workq\<close> on a queue's thread answers the
  queue that was last started at that thread's address, and nothing on any other thread; neither call
  panics or blocks while nobody holds the lock.
\<close>

theorem current_workq_found:
  assumes "zephyr_mutex K owner" and "maddr \<noteq> 0"
  shows "\<exists>s. start_all K maddr t toff qs \<lparr>wq_tls = Mutex_new K SimpleTls_new, wq_started = []\<rparr> = Ret s \<and>
    (\<exists>s'. get_current_workq K maddr u thread s = Ret (map_of (rev (map (\<lambda>(q, _). (q + toff, q)) qs)) thread, s'))"
proof -
  have P: "placed_mutex K owner maddr" using assms by (simp add: placed_mutex_def placed_mutex_axioms_def)
  let ?s0 = "\<lparr>wq_tls = Mutex_new K SimpleTls_new, wq_started = []\<rparr>"
  have "wq_ok owner maddr ?s0"
    using tls.ok_empty
    by (simp add: wq_ok_def mx_ok_def Mutex_new_def Mutex_new_from_def Sys_Mutex_new_def zo_placed_def
        ZephyrObject_new_raw_def Sys_Mutex_owner_def)
  from placed_mutex.start_all_ok [OF P this, of t toff qs] obtain s where
    s: "start_all K maddr t toff qs ?s0 = Ret s" "wq_ok owner maddr s"
    "mx_data (wq_tls s) = fold (\<lambda>(k, v) tls. SimpleTls_insert tls k v) (map (\<lambda>(q, _). (q + toff, q)) qs) SimpleTls_new"
    by (auto simp: Mutex_new_def Mutex_new_from_def)
  have "SimpleTls_get thread (mx_data (wq_tls s)) = map_of (rev (map (\<lambda>(q, _). (q + toff, q)) qs)) thread"
    unfolding s(3) using tls.store_all_map unfolding tls.store_all_def by blast
  with placed_mutex.get_current_ok [OF P s(2), of u thread] s(1) show ?thesis by auto
qed

theorem current_workq_found_witness:
  "\<exists>s s'. start_all owner_mutex_api 64 0 8 [(256, WorkQueueBuilder_new, ThreadStack_new 1024 512),
      (512, WorkQueueBuilder_new, ThreadStack_new 2048 512)]
      \<lparr>wq_tls = Mutex_new owner_mutex_api SimpleTls_new, wq_started = []\<rparr> = Ret s \<and>
    get_current_workq owner_mutex_api 64 3 264 s = Ret (Some 256, s')"
proof -
  have "(64 :: ptr) \<noteq> 0" by simp
  from current_workq_found [OF owner_mutex.zephyr_mutex_axioms this, of 0 8
      "[(256, WorkQueueBuilder_new, ThreadStack_new 1024 512), (512, WorkQueueBuilder_new, ThreadStack_new 2048 512)]" 3 264]
  show ?thesis by auto
qed

text \<open>
  A \<open>Signal\<close> reports the last result that was raised successfully since it was created or reset, and
  nothing when there is none, over any sequence of raises and resets; \<open>raise\<close> answers an error exactly
  when the signal was not raised.
\<close>

theorem Signal_check_latest:
  assumes "zephyr_signal S raised"
  shows "Signal_check S self = raised self \<and> Signal_check S (Signal_new S) = None \<and>
    Signal_check S (Signal_reset S self) = None \<and>
    Signal_check S (snd (Signal_raise S self v)) = (if is_ok (fst (Signal_raise S self v)) then Some v else Signal_check S self)"
proof -
  have check: "Signal_check S s = raised s" for s
  proof -
    obtain f r where c: "k_poll_signal_check S s = (f, r)" by fastforce
    show ?thesis using zephyr_signal.check_raised [OF assms c] c by (cases "raised s") (auto simp: Signal_check_def)
  qed
  obtain e s' where r: "k_poll_signal_raise S self v = (e, s')" by fastforce
  note c = zephyr_signal.raise_code [OF assms r]
  have "is_ok (to_result_void e) \<longleftrightarrow> e = 0"
  proof -
    have "0 \<le> sint e \<longleftrightarrow> sint e = 0" using c by auto
    then have "0 \<le> sint e \<longleftrightarrow> e = 0" by (auto dest: c_int_of_sint)
    then show ?thesis by (auto simp: to_result_void_def to_result_def)
  qed
  with c r show ?thesis
    using zephyr_signal.init_clear [OF assms] zephyr_signal.reset_clear [OF assms]
    by (simp add: check Signal_new_def Signal_reset_def Signal_raise_def)
qed

theorem Signal_check_latest_witness:
  "Signal_check opt_signal_api (snd (Signal_raise opt_signal_api (Signal_new opt_signal_api) 7)) = Some 7"
proof -
  have "is_ok (fst (Signal_raise opt_signal_api (Signal_new opt_signal_api) 7))"
    by (simp add: Signal_raise_def opt_signal_api_def to_result_void_def to_result_def)
  with Signal_check_latest [OF opt_signal.zephyr_signal_axioms, of "Signal_new opt_signal_api" 7] show ?thesis by simp
qed

end
