(* ===== verification/Devicetree.thy ===== *)
theory Devicetree
  imports Assoc_Store
begin

text \<open>
  \<open>zephyr-build/src/devicetree.rs\<close>: the devicetree that the build tools keep, with its queries and the
  resolution of phandles. A shared reference to a node is its position in the tree, the list of child
  indices from the root; the parent pointers that \<open>parent_walk\<close> sets are then the positions without
  their last index.
\<close>

section \<open>Data\<close>

type_synonym pos = "nat list"

datatype Phandle = Phandle (ph_name: string) (ph_node: "pos option")

definition Phandle_new :: "string \<Rightarrow> Phandle" where
  "Phandle_new name = Phandle name None"

datatype DtWord = Number u32 | WPhandle Phandle

datatype Value = Words "DtWord list" | Bytes "u8 list" | VPhandle Phandle | VString string

record Property =
  pr_name :: string
  pr_value :: "Value list"

datatype Node = Node (nd_name: string) (nd_path: string) (nd_route: "string list") (nd_ord: nat)
  (nd_labels: "string list") (nd_props: "Property list") (nd_children: "Node list")

record DeviceTree =
  dt_root :: Node
  dt_labels :: "(string, pos) btree"

text \<open>The node at a position, and the parent of a position.\<close>

fun node_at :: "Node \<Rightarrow> pos \<Rightarrow> Node option" where
  "node_at n [] = Some n"
| "node_at n (i # p) = (if i < length (nd_children n) then node_at (nd_children n ! i) p else None)"

definition parent_of :: "pos \<Rightarrow> pos option" where
  "parent_of p = (if p = [] then None else Some (butlast p))"

section \<open>Queries\<close>

definition Node_is_compatible :: "Node \<Rightarrow> string \<Rightarrow> bool" where
  "Node_is_compatible self name =
     list_ex (\<lambda>v. v = VString name)
       (concat (map pr_value (filter (\<lambda>p. pr_name p = ''compatible'') (nd_props self))))"

text \<open>\<open>compatible_path\<close>, from the node at position \<open>p\<close> upwards.\<close>

fun Node_compatible_path :: "Node \<Rightarrow> pos \<Rightarrow> string option list \<Rightarrow> bool outcome" where
  "Node_compatible_path root p [] = Ret True"
| "Node_compatible_path root p (first # path) = (case node_at root p of
     None \<Rightarrow> UB
   | Some self \<Rightarrow>
       if \<not> (case first of Some name \<Rightarrow> \<not> Node_is_compatible self name | None \<Rightarrow> False) then Ret False
       else (case parent_of p of
          Some q \<Rightarrow> Node_compatible_path root q path
        | None \<Rightarrow> Ret False))"

definition Node_has_prop :: "Node \<Rightarrow> string \<Rightarrow> bool" where
  "Node_has_prop self name = list_ex (\<lambda>p. pr_name p = name) (nd_props self)"

definition Node_get_property :: "Node \<Rightarrow> string \<Rightarrow> Value list option" where
  "Node_get_property self name = map_option pr_value (List.find (\<lambda>p. pr_name p = name) (nd_props self))"

definition Node_get_words :: "Node \<Rightarrow> string \<Rightarrow> DtWord list option" where
  "Node_get_words self name = (case Node_get_property self name of Some [Words w] \<Rightarrow> Some w | _ \<Rightarrow> None)"

definition Node_get_number :: "Node \<Rightarrow> string \<Rightarrow> u32 option" where
  "Node_get_number self name = (case Node_get_words self name of Some [Number n] \<Rightarrow> Some n | _ \<Rightarrow> None)"

text \<open>The loop of \<open>get_numbers\<close> pushes onto \<open>result\<close> and returns at the first word that is not a number.\<close>

fun get_numbers_loop :: "DtWord list \<Rightarrow> u32 list \<Rightarrow> u32 list option" where
  "get_numbers_loop [] result = Some result"
| "get_numbers_loop (Number n # ws) result = get_numbers_loop ws (result @ [n])"
| "get_numbers_loop (WPhandle _ # ws) result = None"

definition Node_get_numbers :: "Node \<Rightarrow> string \<Rightarrow> u32 list option" where
  "Node_get_numbers self name = (case Node_get_words self name of
     None \<Rightarrow> None | Some ws \<Rightarrow> get_numbers_loop ws [])"

definition Node_get_single_string :: "Node \<Rightarrow> string \<Rightarrow> string option" where
  "Node_get_single_string self name = (case Node_get_property self name of Some [VString t] \<Rightarrow> Some t | _ \<Rightarrow> None)"

text \<open>\<open>child_index\<close>: the search among the parent's children is by address, which is the position.\<close>

definition Node_child_index :: "Node \<Rightarrow> pos \<Rightarrow> nat outcome" where
  "Node_child_index root p =
     bind_outcome (expect ''child node missing parent'' (parent_of p)) (\<lambda>q.
     case node_at root q of
       None \<Rightarrow> UB
     | Some parent \<Rightarrow> expect ''child node missing from parent''
         (List.find (\<lambda>i. q @ [i] = p) [0..<length (nd_children parent)]))"

definition Word_as_number :: "DtWord \<Rightarrow> u32 option" where
  "Word_as_number self = (case self of Number n \<Rightarrow> Some n | _ \<Rightarrow> None)"

section \<open>Phandles\<close>

definition phandle_resolve :: "(string, pos) btree \<Rightarrow> Phandle \<Rightarrow> Phandle outcome" where
  "phandle_resolve labels self =
     (if ph_node self \<noteq> None then Ret self
      else bind_outcome (expect ''Missing phandle'' (btree_get (ph_name self) labels))
        (\<lambda>node. Ret (Phandle (ph_name self) (Some node))))"

definition Phandle_node_ref :: "Phandle \<Rightarrow> pos outcome" where
  "Phandle_node_ref self = expect ''called `Option::unwrap()` on a `None` value'' (ph_node self)"

text \<open>A loop whose steps may panic.\<close>

fun map_outcome :: "('a \<Rightarrow> 'b outcome) \<Rightarrow> 'a list \<Rightarrow> 'b list outcome" where
  "map_outcome f [] = Ret []"
| "map_outcome f (x # xs) = bind_outcome (f x) (\<lambda>y. bind_outcome (map_outcome f xs) (\<lambda>ys. Ret (y # ys)))"

definition word_phandle_walk :: "(string, pos) btree \<Rightarrow> DtWord \<Rightarrow> DtWord outcome" where
  "word_phandle_walk labels w = (case w of
     WPhandle ph \<Rightarrow> bind_outcome (phandle_resolve labels ph) (\<lambda>ph. Ret (WPhandle ph))
   | Number n \<Rightarrow> Ret (Number n))"

definition Value_phandle_walk :: "(string, pos) btree \<Rightarrow> Value \<Rightarrow> Value outcome" where
  "Value_phandle_walk labels self = (case self of
     VPhandle ph \<Rightarrow> bind_outcome (phandle_resolve labels ph) (\<lambda>ph. Ret (VPhandle ph))
   | Words words \<Rightarrow> bind_outcome (map_outcome (word_phandle_walk labels) words) (\<lambda>ws. Ret (Words ws))
   | _ \<Rightarrow> Ret self)"

definition Property_phandle_walk :: "(string, pos) btree \<Rightarrow> Property \<Rightarrow> Property outcome" where
  "Property_phandle_walk labels prop =
     bind_outcome (map_outcome (Value_phandle_walk labels) (pr_value prop)) (\<lambda>vs. Ret (prop\<lparr>pr_value := vs\<rparr>))"

fun Node_phandle_walk :: "(string, pos) btree \<Rightarrow> Node \<Rightarrow> Node outcome"
and Nodes_phandle_walk :: "(string, pos) btree \<Rightarrow> Node list \<Rightarrow> Node list outcome" where
  "Node_phandle_walk labels (Node nm pa ro od ls props children) =
     bind_outcome (map_outcome (Property_phandle_walk labels) props) (\<lambda>props.
     bind_outcome (Nodes_phandle_walk labels children) (\<lambda>children.
       Ret (Node nm pa ro od ls props children)))"
| "Nodes_phandle_walk labels [] = Ret []"
| "Nodes_phandle_walk labels (c # cs) =
     bind_outcome (Node_phandle_walk labels c) (\<lambda>c.
     bind_outcome (Nodes_phandle_walk labels cs) (\<lambda>cs. Ret (c # cs)))"

text \<open>\<open>DeviceTree::new\<close>, after parsing: \<open>parent_walk\<close> has nothing left to do on positions.\<close>

definition DeviceTree_link :: "DeviceTree \<Rightarrow> DeviceTree outcome" where
  "DeviceTree_link dt =
     bind_outcome (Node_phandle_walk (dt_labels dt) (dt_root dt)) (\<lambda>root. Ret (dt\<lparr>dt_root := root\<rparr>))"

section \<open>Run-time values\<close>

text \<open>
  The code that \<open>Value::to_tokens\<close> emits, as the value that code denotes: a phandle to a GPIO controller
  takes as many following numbers as the controller's \<open>#gpio-cells\<close> says.
\<close>

datatype RtWord = RNumber u32 | RPhandle string | RGpio string "u32 list"

datatype RtValue = RWords "RtWord list" | RBytes "u8 list" | RPhandleV string | RString string

text \<open>The look-ahead loop: \<open>cells\<close> numbers from the front, or nothing.\<close>

fun take_numbers :: "nat \<Rightarrow> DtWord list \<Rightarrow> u32 list option" where
  "take_numbers 0 ws = Some []"
| "take_numbers (Suc k) (Number n # ws) = map_option (\<lambda>ns. n # ns) (take_numbers k ws)"
| "take_numbers (Suc k) [] = None"
| "take_numbers (Suc k) (WPhandle ph # ws) = None"

definition gpio_args :: "Node \<Rightarrow> Phandle \<Rightarrow> DtWord list \<Rightarrow> u32 list option" where
  "gpio_args root ph rest = (case ph_node ph of
     None \<Rightarrow> None
   | Some q \<Rightarrow> (case node_at root q of
        None \<Rightarrow> None
      | Some target \<Rightarrow>
          if Node_has_prop target ''gpio-controller'' then
            (case Node_get_number target ''#gpio-cells'' of
               None \<Rightarrow> None | Some cells \<Rightarrow> take_numbers (unat cells) rest)
          else None))"

function words_to_tokens :: "Node \<Rightarrow> DtWord list \<Rightarrow> RtWord list" where
  "words_to_tokens root [] = []"
| "words_to_tokens root (Number n # rest) = RNumber n # words_to_tokens root rest"
| "words_to_tokens root (WPhandle ph # rest) = (case gpio_args root ph rest of
     Some args \<Rightarrow> RGpio (ph_name ph) args # words_to_tokens root (drop (length args) rest)
   | None \<Rightarrow> RPhandle (ph_name ph) # words_to_tokens root rest)"
  by pat_completeness auto
termination by (relation "measure (\<lambda>(root, ws). length ws)") auto

definition Value_to_tokens :: "Node \<Rightarrow> Value \<Rightarrow> RtValue" where
  "Value_to_tokens root self = (case self of
     Bytes bytes \<Rightarrow> RBytes bytes
   | VString text \<Rightarrow> RString text
   | VPhandle ph \<Rightarrow> RPhandleV (ph_name ph)
   | Words words \<Rightarrow> RWords (words_to_tokens root words))"

section \<open>What resolution does\<close>

lemma map_outcome_Ret:
  "(\<And>x. x \<in> set xs \<Longrightarrow> f x = Ret (g x)) \<Longrightarrow> map_outcome f xs = Ret (map g xs)"
  by (induction xs) auto

lemma map_outcome_Panic:
  "(\<And>x. x \<in> set xs \<Longrightarrow> f x = Ret (g x) \<or> f x = Panic m) \<Longrightarrow> (\<exists>x \<in> set xs. f x = Panic m) \<Longrightarrow>
   map_outcome f xs = Panic m"
  by (induction xs) (auto, metis bind_outcome.simps(1,2) outcome.distinct(1))

text \<open>The phandles of a value, of a property and of a tree, and the tree with all its phandles replaced.\<close>

definition word_phandles :: "DtWord \<Rightarrow> Phandle list" where
  "word_phandles w = (case w of WPhandle ph \<Rightarrow> [ph] | Number _ \<Rightarrow> [])"

definition value_phandles :: "Value \<Rightarrow> Phandle list" where
  "value_phandles v = (case v of VPhandle ph \<Rightarrow> [ph] | Words ws \<Rightarrow> concat (map word_phandles ws) | _ \<Rightarrow> [])"

definition prop_phandles :: "Property \<Rightarrow> Phandle list" where
  "prop_phandles p = concat (map value_phandles (pr_value p))"

fun tree_phandles :: "Node \<Rightarrow> Phandle list" where
  "tree_phandles (Node nm pa ro od ls props children) =
     concat (map prop_phandles props) @ concat (map tree_phandles children)"

definition map_word :: "(Phandle \<Rightarrow> Phandle) \<Rightarrow> DtWord \<Rightarrow> DtWord" where
  "map_word f w = (case w of WPhandle ph \<Rightarrow> WPhandle (f ph) | Number n \<Rightarrow> Number n)"

definition map_value :: "(Phandle \<Rightarrow> Phandle) \<Rightarrow> Value \<Rightarrow> Value" where
  "map_value f v = (case v of VPhandle ph \<Rightarrow> VPhandle (f ph) | Words ws \<Rightarrow> Words (map (map_word f) ws) | _ \<Rightarrow> v)"

definition map_prop :: "(Phandle \<Rightarrow> Phandle) \<Rightarrow> Property \<Rightarrow> Property" where
  "map_prop f p = p\<lparr>pr_value := map (map_value f) (pr_value p)\<rparr>"

fun map_tree :: "(Phandle \<Rightarrow> Phandle) \<Rightarrow> Node \<Rightarrow> Node" where
  "map_tree f (Node nm pa ro od ls props children) =
     Node nm pa ro od ls (map (map_prop f) props) (map (map_tree f) children)"

definition resolvable :: "(string, pos) btree \<Rightarrow> Phandle \<Rightarrow> bool" where
  "resolvable labels ph \<longleftrightarrow> ph_node ph \<noteq> None \<or> btree_get (ph_name ph) labels \<noteq> None"

definition resolved :: "(string, pos) btree \<Rightarrow> Phandle \<Rightarrow> Phandle" where
  "resolved labels ph = (if ph_node ph \<noteq> None then ph else Phandle (ph_name ph) (btree_get (ph_name ph) labels))"

text \<open>
  One element of the tree, with its phandles \<open>phs\<close>: \<open>walk\<close> returns it with them resolved if they all can
  be, and panics otherwise.
\<close>

definition walks :: "(string, pos) btree \<Rightarrow> ('a \<Rightarrow> 'a outcome) \<Rightarrow> ((Phandle \<Rightarrow> Phandle) \<Rightarrow> 'a \<Rightarrow> 'a) \<Rightarrow> ('a \<Rightarrow> Phandle list) \<Rightarrow> 'a \<Rightarrow> bool" where
  "walks labels walk mp phs x \<longleftrightarrow> walk x =
     (if list_all (resolvable labels) (phs x) then Ret (mp (resolved labels) x) else Panic ''Missing phandle'')"

lemma walks_list:
  assumes "\<And>x. x \<in> set xs \<Longrightarrow> walks labels walk mp phs x"
  shows "map_outcome walk xs = (if list_all (resolvable labels) (concat (map phs xs))
     then Ret (map (mp (resolved labels)) xs) else Panic ''Missing phandle'')"
proof (cases "list_all (resolvable labels) (concat (map phs xs))")
  case True
  then have "walk x = Ret (mp (resolved labels) x)" if "x \<in> set xs" for x
    using assms [OF that] that by (auto simp: walks_def list_all_iff)
  then show ?thesis using True by (simp add: map_outcome_Ret)
next
  case False
  then have "map_outcome walk xs = Panic ''Missing phandle''"
    using assms by (intro map_outcome_Panic [where g = "mp (resolved labels)"]) (auto simp: walks_def list_all_iff)
  with False show ?thesis by simp
qed

lemma resolve_walks: "phandle_resolve labels ph = (if resolvable labels ph then Ret (resolved labels ph) else Panic ''Missing phandle'')"
  by (cases "btree_get (ph_name ph) labels") (auto simp: phandle_resolve_def resolvable_def resolved_def)

lemma word_walks: "walks labels (word_phandle_walk labels) map_word word_phandles w"
  by (cases w) (auto simp: walks_def word_phandle_walk_def resolve_walks map_word_def word_phandles_def)

lemma value_walks: "walks labels (Value_phandle_walk labels) map_value value_phandles v"
proof (cases v)
  case (Words ws)
  then show ?thesis
    using walks_list [of ws labels "word_phandle_walk labels" map_word word_phandles] word_walks
    by (auto simp: walks_def Value_phandle_walk_def map_value_def value_phandles_def)
qed (auto simp: walks_def Value_phandle_walk_def resolve_walks map_value_def value_phandles_def)

lemma prop_walks: "walks labels (Property_phandle_walk labels) map_prop prop_phandles p"
  using walks_list [of "pr_value p" labels "Value_phandle_walk labels" map_value value_phandles] value_walks
  by (auto simp: walks_def Property_phandle_walk_def map_prop_def prop_phandles_def)

lemma Nodes_phandle_walk_map: "Nodes_phandle_walk labels cs = map_outcome (Node_phandle_walk labels) cs"
  by (induction cs) auto

lemma node_walks: "walks labels (Node_phandle_walk labels) map_tree tree_phandles n"
proof (induction n)
  case (Node nm pa ro od ls props children)
  have p: "map_outcome (Property_phandle_walk labels) props =
      (if list_all (resolvable labels) (concat (map prop_phandles props))
       then Ret (map (map_prop (resolved labels)) props) else Panic ''Missing phandle'')"
    by (rule walks_list) (rule prop_walks)
  have c: "map_outcome (Node_phandle_walk labels) children =
      (if list_all (resolvable labels) (concat (map tree_phandles children))
       then Ret (map (map_tree (resolved labels)) children) else Panic ''Missing phandle'')"
    by (rule walks_list) (rule Node)
  show ?case by (auto simp: walks_def p c Nodes_phandle_walk_map)
qed

text \<open>The words that emitted words stand for.\<close>

fun rt_words :: "RtWord \<Rightarrow> DtWord list" where
  "rt_words (RNumber n) = [Number n]"
| "rt_words (RPhandle name) = [WPhandle (Phandle name None)]"
| "rt_words (RGpio name args) = WPhandle (Phandle name None) # map Number args"

fun unlink :: "DtWord \<Rightarrow> DtWord" where
  "unlink (WPhandle ph) = WPhandle (Phandle (ph_name ph) None)"
| "unlink (Number n) = Number n"

lemma take_numbers_Some: "take_numbers k ws = Some ns \<longleftrightarrow> length ns = k \<and> (\<exists>rest. ws = map Number ns @ rest)"
proof (induction k ws arbitrary: ns rule: take_numbers.induct)
  case (2 k n ws)
  show ?case
  proof (cases ns)
    case (Cons m ns')
    then show ?thesis using 2 [of ns'] by auto
  qed auto
next
  case (3 k)
  show ?case by (cases ns) auto
next
  case (4 k ph ws)
  show ?case by (cases ns) auto
qed auto

lemma gpio_args_Some:
  "gpio_args root ph rest = Some args \<Longrightarrow> \<exists>q target cells. ph_node ph = Some q \<and> node_at root q = Some target \<and>
     Node_has_prop target ''gpio-controller'' \<and> Node_get_number target ''#gpio-cells'' = Some cells \<and>
     length args = unat cells \<and> (\<exists>rest'. rest = map Number args @ rest')"
  by (auto simp: gpio_args_def take_numbers_Some split: option.splits if_splits)

lemma words_to_tokens_words: "concat (map rt_words (words_to_tokens root ws)) = map unlink ws"
proof (induction root ws rule: words_to_tokens.induct)
  case (3 root ph rest)
  show ?case
  proof (cases "gpio_args root ph rest")
    case None
    with 3 show ?thesis by simp
  next
    case (Some args)
    then obtain rest' where r: "rest = map Number args @ rest'" using gpio_args_Some by blast
    with 3 Some show ?thesis by (simp add: comp_def)
  qed
qed simp_all

section \<open>Properties\<close>

text \<open>
  Linking a devicetree resolves every phandle: if each phandle names a label of the tree, the result
  is the same tree in which every phandle carries the position of its label's node, and nothing else
  changes; otherwise the build stops with the panic about the missing phandle.
\<close>

theorem phandles_resolved:
  "DeviceTree_link dt =
    (if list_all (resolvable (dt_labels dt)) (tree_phandles (dt_root dt))
     then Ret (dt\<lparr>dt_root := map_tree (resolved (dt_labels dt)) (dt_root dt)\<rparr>)
     else Panic ''Missing phandle'')"
  using node_walks [of "dt_labels dt" "dt_root dt"] by (simp add: DeviceTree_link_def walks_def)

text \<open>
  C38. The words emitted for run time are the words of the property: spelling out each GPIO reference as
  its phandle followed by its arguments gives back the property's words in order, none lost and none
  doubled; and a GPIO reference has exactly as many arguments as its controller's \<open>#gpio-cells\<close>.
\<close>

theorem words_to_tokens_roundtrip:
  "concat (map rt_words (words_to_tokens root ws)) = map unlink ws \<and>
   (\<forall>ph rest args. gpio_args root ph rest = Some args \<longrightarrow>
      words_to_tokens root (WPhandle ph # rest) = RGpio (ph_name ph) args # words_to_tokens root (drop (length args) rest) \<and>
      (\<exists>q target cells. ph_node ph = Some q \<and> node_at root q = Some target \<and>
         Node_get_number target ''#gpio-cells'' = Some cells \<and> length args = unat cells))"
proof (intro conjI allI impI)
  show "concat (map rt_words (words_to_tokens root ws)) = map unlink ws" by (rule words_to_tokens_words)
  fix ph rest args
  assume a: "gpio_args root ph rest = Some args"
  then show "words_to_tokens root (WPhandle ph # rest) = RGpio (ph_name ph) args # words_to_tokens root (drop (length args) rest)"
    by simp
  show "\<exists>q target cells. ph_node ph = Some q \<and> node_at root q = Some target \<and>
         Node_get_number target ''#gpio-cells'' = Some cells \<and> length args = unat cells"
    using gpio_args_Some [OF a] by blast
qed

definition demo_gpio :: Node where
  "demo_gpio = Node ''gpio'' ''/gpio'' [''gpio''] 3 [''gpio0''] [\<lparr>pr_name = ''gpio-controller'', pr_value = []\<rparr>,
     \<lparr>pr_name = ''#gpio-cells'', pr_value = [Words [Number 2]]\<rparr>] []"

definition demo_root :: Node where
  "demo_root = Node ''/'' ''/'' [] 0 [] [] [demo_gpio]"

theorem words_to_tokens_roundtrip_witness:
  "words_to_tokens demo_root [WPhandle (Phandle ''gpio0'' (Some [0])), Number 5, Number 1, Number 9] =
     [RGpio ''gpio0'' [5, 1], RNumber 9]"
proof -
  have "take_numbers 2 [Number 5, Number 1, Number 9] = Some [5, 1]" by (simp add: numeral_2_eq_2)
  then have "gpio_args demo_root (Phandle ''gpio0'' (Some [0])) [Number 5, Number 1, Number 9] = Some [5, 1]"
    by (simp add: gpio_args_def demo_root_def demo_gpio_def Node_has_prop_def Node_get_number_def Node_get_words_def
        Node_get_property_def)
  with words_to_tokens_roundtrip [of demo_root "[]"]
  have "words_to_tokens demo_root [WPhandle (Phandle ''gpio0'' (Some [0])), Number 5, Number 1, Number 9] =
      RGpio ''gpio0'' [5, 1] # words_to_tokens demo_root [Number 9]" by fastforce
  then show ?thesis by simp
qed

text \<open>Positions inside the tree: every prefix of a position is one.\<close>

lemma node_at_append: "node_at n (p @ q) = Option.bind (node_at n p) (\<lambda>m. node_at m q)"
  by (induction n p rule: node_at.induct) auto

lemma node_at_prefix: "node_at n (p @ q) \<noteq> None \<Longrightarrow> node_at n p \<noteq> None"
  by (cases "node_at n p") (auto simp: node_at_append)

lemma node_at_take: "node_at n p \<noteq> None \<Longrightarrow> node_at n (take k p) \<noteq> None"
  using node_at_prefix [of n "take k p" "drop k p"] by simp

text \<open>The ancestor \<open>k\<close> levels above a position.\<close>

definition ancestor :: "Node \<Rightarrow> pos \<Rightarrow> nat \<Rightarrow> Node" where
  "ancestor root p k = the (node_at root (take (length p - k) p))"

lemma compatible_path_levels:
  "node_at root p \<noteq> None \<Longrightarrow> Node_compatible_path root p path =
     Ret (length path \<le> length p \<and>
       (\<forall>k < length path. \<exists>name. path ! k = Some name \<and> \<not> Node_is_compatible (ancestor root p k) name))"
proof (induction root p path rule: Node_compatible_path.induct)
  case (2 root p first path)
  obtain self where self: "node_at root p = Some self" using 2(2) by auto
  have a0: "ancestor root p 0 = self" using self by (simp add: ancestor_def)
  show ?case
  proof (cases "(\<exists>name. first = Some name \<and> \<not> Node_is_compatible self name) \<and> p \<noteq> []")
    case False
    then show ?thesis using self a0 by (auto simp: parent_of_def split: option.splits intro!: exI [of _ 0])
  next
    case True
    then have q: "parent_of p = Some (butlast p)" by (simp add: parent_of_def)
    have n: "node_at root (butlast p) \<noteq> None" using node_at_take [OF 2(2), of "length p - 1"] by (simp add: butlast_conv_take)
    have anc: "ancestor root (butlast p) k = ancestor root p (Suc k)" for k
      using True by (simp add: ancestor_def butlast_conv_take min_def)
    from True obtain name where f: "first = Some name" "\<not> Node_is_compatible self name" by blast
    have ih: "Node_compatible_path root (butlast p) path = Ret (length path \<le> length (butlast p) \<and>
       (\<forall>k < length path. \<exists>name. path ! k = Some name \<and> \<not> Node_is_compatible (ancestor root (butlast p) k) name))"
      using 2(1) [OF self _ q n] f by simp
    have l: "length path \<le> length (butlast p) \<longleftrightarrow> Suc (length path) \<le> length p" using True by (cases p) auto
    show ?thesis using self f q ih a0 by (auto simp: anc less_Suc_eq_0_disj l simp del: length_butlast)
  qed
qed simp

text \<open>
  What \<open>compatible_path\<close> really tests: it answers true exactly if there are enough ancestors and, at
  every level, the entry is a name with which the node there is \<^emph>\<open>not\<close> compatible; an entry that should
  match anything makes it answer false.
\<close>

theorem compatible_path_inverted:
  assumes "node_at root p \<noteq> None"
  shows "Node_compatible_path root p path =
     Ret (length path \<le> length p \<and>
       (\<forall>k < length path. \<exists>name. path ! k = Some name \<and> \<not> Node_is_compatible (ancestor root p k) name))"
  using assms by (rule compatible_path_levels)

theorem compatible_path_inverted_witness:
  "Node_compatible_path demo_root [0] [Some ''vnd,gpio''] = Ret True \<and> \<not> Node_is_compatible demo_gpio ''vnd,gpio''"
proof -
  have "node_at demo_root [0] \<noteq> None" by (simp add: demo_root_def)
  moreover have "ancestor demo_root [0] 0 = demo_gpio" by (simp add: ancestor_def demo_root_def)
  moreover have n: "\<not> Node_is_compatible demo_gpio ''vnd,gpio''" by (simp add: Node_is_compatible_def demo_gpio_def)
  ultimately show ?thesis using compatible_path_inverted [of demo_root "[0]" "[Some ''vnd,gpio'']"] by simp
qed

text \<open>The loop of \<open>get_numbers\<close> collects the numbers if there is nothing else.\<close>

lemma get_numbers_loop_map: "get_numbers_loop (map Number ns) acc = Some (acc @ ns)"
  by (induction ns arbitrary: acc) auto

lemma get_numbers_loop_Some: "get_numbers_loop ws acc = Some r \<Longrightarrow> \<exists>ns. ws = map Number ns \<and> r = acc @ ns"
proof (induction ws acc rule: get_numbers_loop.induct)
  case (2 n ws result)
  then obtain ns where "ws = map Number ns" "r = (result @ [n]) @ ns" by auto
  then show ?case by (intro exI [of _ "n # ns"]) simp
qed auto

text \<open>
  The typed accessors answer exactly on properties of their shape: \<open>get_numbers\<close> the numbers of a
  property that is one cell list of numbers only, \<open>get_number\<close> on one number, \<open>get_single_string\<close> on one
  string; and \<open>child_index\<close> of a node that is not the root is its index among its parent's children.
\<close>

theorem accessors_exact:
  "(Node_get_numbers n name = Some ns \<longleftrightarrow> Node_get_property n name = Some [Words (map Number ns)]) \<and>
   (Node_get_number n name = Some k \<longleftrightarrow> Node_get_property n name = Some [Words [Number k]]) \<and>
   (Node_get_single_string n name = Some t \<longleftrightarrow> Node_get_property n name = Some [VString t]) \<and>
   (node_at root (p @ [i]) \<noteq> None \<longrightarrow> Node_child_index root (p @ [i]) = Ret i)"
proof (intro conjI impI)
  have words: "Node_get_words n name = Some ws \<longleftrightarrow> Node_get_property n name = Some [Words ws]" for ws
    by (auto simp: Node_get_words_def split: option.splits list.splits Value.splits)
  have "Node_get_numbers n name = Some ns \<longleftrightarrow> Node_get_words n name = Some (map Number ns)"
  proof (cases "Node_get_words n name")
    case (Some ws)
    have "get_numbers_loop ws [] = Some ns \<longleftrightarrow> ws = map Number ns"
    proof
      assume "get_numbers_loop ws [] = Some ns"
      from get_numbers_loop_Some [OF this] show "ws = map Number ns" by simp
    qed (simp add: get_numbers_loop_map)
    with Some show ?thesis by (simp add: Node_get_numbers_def)
  qed (simp add: Node_get_numbers_def)
  with words show "Node_get_numbers n name = Some ns \<longleftrightarrow> Node_get_property n name = Some [Words (map Number ns)]" by simp
  have "Node_get_number n name = Some k \<longleftrightarrow> Node_get_words n name = Some [Number k]"
    by (auto simp: Node_get_number_def split: option.splits list.splits DtWord.splits)
  with words show "Node_get_number n name = Some k \<longleftrightarrow> Node_get_property n name = Some [Words [Number k]]" by simp
  show "Node_get_single_string n name = Some t \<longleftrightarrow> Node_get_property n name = Some [VString t]"
    by (auto simp: Node_get_single_string_def split: option.splits list.splits Value.splits)
  assume at: "node_at root (p @ [i]) \<noteq> None"
  then obtain parent where parent: "node_at root p = Some parent" "i < length (nd_children parent)"
    by (auto simp: node_at_append split: Option.bind_splits if_splits)
  have "List.find (\<lambda>j. p @ [j] = p @ [i]) [0..<length (nd_children parent)] = Some i"
    using parent(2) by (intro find_upt_first) auto
  with parent show "Node_child_index root (p @ [i]) = Ret i" by (simp add: Node_child_index_def parent_of_def)
qed

theorem accessors_exact_witness:
  "Node_get_numbers demo_gpio ''#gpio-cells'' = Some [2] \<and> Node_child_index demo_root [0] = Ret 0"
proof -
  have "Node_get_property demo_gpio ''#gpio-cells'' = Some [Words (map Number [2])]"
    by (simp add: Node_get_property_def demo_gpio_def)
  moreover have "node_at demo_root ([] @ [0]) \<noteq> None" by (simp add: demo_root_def)
  moreover note accessors_exact [of demo_gpio "''#gpio-cells''" "[2]" 0 "[]" demo_root "[]" 0]
  ultimately show ?thesis unfolding append_Nil by blast
qed

end
