(* ===== verification/Dt_Parse.thy ===== *)
theory Dt_Parse
  imports Devicetree
begin

text \<open>
  \<open>zephyr-build/src/devicetree/parse.rs\<close>: from the parse tree of \<open>zephyr.dts\<close> to the devicetree. The
  parser itself is generated by \<open>pest\<close> from the grammar \<open>dts.pest\<close>; its result, the pairs of rule, text
  and inner pairs, is the input here, and \<open>node_pair\<close> states the shape that the grammar gives them.
\<close>

section \<open>Parse trees\<close>

datatype PestRule = R_node | R_nodename | R_label | R_property | R_words | R_bytes | R_string | R_phandle
  | R_hex_number | R_decimal_number | R_plain_hex_number | R_EOI

datatype Pair = Pair (as_rule: PestRule) (as_str: string) (into_inner: "Pair list")

section \<open>Numbers\<close>

text \<open>\<open>char::to_digit\<close> and \<open>from_str_radix\<close> of an unsigned type whose greatest value is \<open>mx\<close>.\<close>

definition to_digit :: "nat \<Rightarrow> char \<Rightarrow> nat option" where
  "to_digit radix c =
     (let n = of_char c;
          d = (if 48 \<le> n \<and> n \<le> 57 then n - 48 else if 97 \<le> n \<and> n \<le> 122 then n - 87
               else if 65 \<le> n \<and> n \<le> 90 then n - 55 else radix)
      in if d < radix then Some d else None)"

fun parse_digits :: "nat \<Rightarrow> nat \<Rightarrow> string \<Rightarrow> nat \<Rightarrow> nat option" where
  "parse_digits radix mx [] acc = Some acc"
| "parse_digits radix mx (c # cs) acc = (case to_digit radix c of
     None \<Rightarrow> None
   | Some d \<Rightarrow> if acc * radix + d \<le> mx then parse_digits radix mx cs (acc * radix + d) else None)"

definition from_str_radix :: "nat \<Rightarrow> nat \<Rightarrow> string \<Rightarrow> nat option" where
  "from_str_radix radix mx s =
     (if s = [] then None
      else if hd s = CHR ''+'' \<and> tl s \<noteq> [] then parse_digits radix mx (tl s) 0
      else parse_digits radix mx s 0)"

definition u32_from_str_radix :: "nat \<Rightarrow> string \<Rightarrow> u32 outcome" where
  "u32_from_str_radix radix s =
     bind_outcome (expect ''called `Result::unwrap()` on an `Err` value'' (from_str_radix radix (2 ^ 32 - 1) s))
       (\<lambda>n. Ret (of_nat n))"

definition u8_from_str_radix :: "nat \<Rightarrow> string \<Rightarrow> u8 outcome" where
  "u8_from_str_radix radix s =
     bind_outcome (expect ''called `Result::unwrap()` on an `Err` value'' (from_str_radix radix (2 ^ 8 - 1) s))
       (\<lambda>n. Ret (of_nat n))"

text \<open>Slicing \<open>text[a..b]\<close>.\<close>

definition str_slice :: "nat \<Rightarrow> nat \<Rightarrow> string \<Rightarrow> string outcome" where
  "str_slice a b s = (if a \<le> b \<and> b \<le> length s then Ret (take (b - a) (drop a s)) else Panic ''byte index out of range'')"

section \<open>Properties\<close>

definition decode_word :: "Pair \<Rightarrow> DtWord outcome" where
  "decode_word pair = (case as_rule pair of
     R_hex_number \<Rightarrow> bind_outcome (str_slice 2 (length (as_str pair)) (as_str pair)) (\<lambda>text.
        bind_outcome (u32_from_str_radix 16 text) (\<lambda>num. Ret (Number num)))
   | R_decimal_number \<Rightarrow> bind_outcome (u32_from_str_radix 10 (as_str pair)) (\<lambda>num. Ret (Number num))
   | R_phandle \<Rightarrow> bind_outcome (str_slice 1 (length (as_str pair)) (as_str pair)) (\<lambda>text.
        Ret (WPhandle (Phandle_new text)))
   | _ \<Rightarrow> Panic ''internal error: entered unreachable code'')"

definition decode_words :: "Pair \<Rightarrow> DtWord list outcome" where
  "decode_words node = map_outcome decode_word (into_inner node)"

definition decode_byte :: "Pair \<Rightarrow> u8 outcome" where
  "decode_byte pair = (case as_rule pair of
     R_plain_hex_number \<Rightarrow> u8_from_str_radix 16 (as_str pair)
   | _ \<Rightarrow> Panic ''internal error: entered unreachable code'')"

definition decode_bytes :: "Pair \<Rightarrow> u8 list outcome" where
  "decode_bytes node = map_outcome decode_byte (into_inner node)"

text \<open>The loop of \<open>decode_property\<close>, with the name and the values so far.\<close>

fun decode_property_loop :: "Pair list \<Rightarrow> string option \<Rightarrow> Value list \<Rightarrow> (string option \<times> Value list) outcome" where
  "decode_property_loop [] name vals = Ret (name, vals)"
| "decode_property_loop (pair # ps) name vals = (case as_rule pair of
     R_nodename \<Rightarrow> decode_property_loop ps (Some (as_str pair)) vals
   | R_words \<Rightarrow> bind_outcome (decode_words pair) (\<lambda>ws. decode_property_loop ps name (vals @ [Words ws]))
   | R_phandle \<Rightarrow> bind_outcome (str_slice 1 (length (as_str pair)) (as_str pair)) (\<lambda>text.
        decode_property_loop ps name (vals @ [VPhandle (Phandle_new text)]))
   | R_string \<Rightarrow> bind_outcome (str_slice 1 (length (as_str pair) - 1) (as_str pair)) (\<lambda>text.
        decode_property_loop ps name (vals @ [VString text]))
   | R_bytes \<Rightarrow> bind_outcome (decode_bytes pair) (\<lambda>bs. decode_property_loop ps name (vals @ [Bytes bs]))
   | _ \<Rightarrow> Panic ''rule'')"

definition decode_property :: "Pair \<Rightarrow> Property outcome" where
  "decode_property node =
     bind_outcome (decode_property_loop (into_inner node) None []) (\<lambda>(name, vals).
     bind_outcome (expect ''called `Option::unwrap()` on a `None` value'' name) (\<lambda>name.
       Ret \<lparr>pr_name = name, pr_value = vals\<rparr>))"

section \<open>Names\<close>

type_synonym OrdMap = "(string, nat) btree"

record Info =
  in_name :: string
  in_path :: string
  in_ord :: nat

record LazyName =
  lz_path :: string
  lz_route :: "string list"
  lz_info :: "Info option"

text \<open>Indexing a \<open>BTreeMap\<close> panics on a missing key.\<close>

definition ord_index :: "OrdMap \<Rightarrow> string \<Rightarrow> nat outcome" where
  "ord_index ords path = expect ''no entry found for key'' (btree_get path ords)"

definition LazyName_new :: "OrdMap \<Rightarrow> string \<Rightarrow> string list \<Rightarrow> LazyName outcome" where
  "LazyName_new ords path route =
     (if path = [] then bind_outcome (ord_index ords ''/'') (\<lambda>ord.
        Ret \<lparr>lz_path = path, lz_route = route, lz_info = Some \<lparr>in_name = ''/'', in_path = ''/'', in_ord = ord\<rparr>\<rparr>)
      else Ret \<lparr>lz_path = path, lz_route = route, lz_info = None\<rparr>)"

definition LazyName_set :: "OrdMap \<Rightarrow> LazyName \<Rightarrow> string \<Rightarrow> LazyName outcome" where
  "LazyName_set ords self name =
     (if lz_info self \<noteq> None then Panic ''Grammar error, node has multiple names''
      else let route = lz_route self @ [name];
               path = (if length (lz_path self) > 1 then lz_path self @ ''/'' else lz_path self) @ name
           in bind_outcome (ord_index ords path) (\<lambda>ord.
                Ret (self\<lparr>lz_route := route, lz_info := Some \<lparr>in_name = name, in_path = path, in_ord = ord\<rparr>\<rparr>)))"

definition LazyName_path_ref :: "LazyName \<Rightarrow> string outcome" where
  "LazyName_path_ref self = bind_outcome (expect ''called `Option::unwrap()` on a `None` value'' (lz_info self))
     (\<lambda>info. Ret (in_path info))"

definition LazyName_into_node :: "LazyName \<Rightarrow> string list \<Rightarrow> Property list \<Rightarrow> Node list \<Rightarrow> Node outcome" where
  "LazyName_into_node self labels props children =
     bind_outcome (expect ''called `Option::unwrap()` on a `None` value'' (lz_info self)) (\<lambda>info.
       Ret (Node (in_name info) (in_path info) (lz_route self) (in_ord info) labels props children))"

section \<open>Nodes\<close>

text \<open>
  \<open>walk_node\<close> for the node at position \<open>pos\<close>, and its loop over the inner pairs; the labels of the whole
  tree are threaded through.
\<close>

type_synonym labelmap = "(string, pos) btree"

definition insert_labels :: "pos \<Rightarrow> string list \<Rightarrow> labelmap \<Rightarrow> labelmap" where
  "insert_labels pos labels lm = fold (\<lambda>lab lm. btree_insert lm lab pos) labels lm"

fun walk_node :: "OrdMap \<Rightarrow> Pair \<Rightarrow> string \<Rightarrow> string list \<Rightarrow> pos \<Rightarrow> labelmap \<Rightarrow> (Node \<times> labelmap) outcome"
and walk_inner :: "OrdMap \<Rightarrow> Pair list \<Rightarrow> pos \<Rightarrow> LazyName \<Rightarrow> string list \<Rightarrow> Property list \<Rightarrow> Node list \<Rightarrow> labelmap \<Rightarrow>
    (LazyName \<times> string list \<times> Property list \<times> Node list \<times> labelmap) outcome" where
  "walk_node ords (Pair r str inner) path route pos lm =
     bind_outcome (LazyName_new ords path route) (\<lambda>name.
     bind_outcome (walk_inner ords inner pos name [] [] [] lm) (\<lambda>(name, labels, props, children, lm).
     bind_outcome (LazyName_into_node name labels props children) (\<lambda>node.
       Ret (node, insert_labels pos labels lm))))"
| "walk_inner ords [] pos name labels props children lm = Ret (name, labels, props, children, lm)"
| "walk_inner ords (pair # ps) pos name labels props children lm = (case as_rule pair of
     R_nodename \<Rightarrow> bind_outcome (LazyName_set ords name (as_str pair)) (\<lambda>name.
        walk_inner ords ps pos name labels props children lm)
   | R_label \<Rightarrow> walk_inner ords ps pos name (labels @ [as_str pair]) props children lm
   | R_property \<Rightarrow> bind_outcome (decode_property pair) (\<lambda>p.
        walk_inner ords ps pos name labels (props @ [p]) children lm)
   | R_node \<Rightarrow> bind_outcome (LazyName_path_ref name) (\<lambda>child_path.
        bind_outcome (walk_node ords pair child_path (lz_route name) (pos @ [length children]) lm) (\<lambda>(child, lm).
          walk_inner ords ps pos name labels props (children @ [child]) lm))
   | _ \<Rightarrow> Panic ''node'')"

definition TreeBuilder_walk :: "OrdMap \<Rightarrow> Pair list \<Rightarrow> DeviceTree outcome" where
  "TreeBuilder_walk ords pairs = (case pairs of
     [] \<Rightarrow> Panic ''called `Option::unwrap()` on a `None` value''
   | node # _ \<Rightarrow>
       if as_rule node \<noteq> R_node then Panic ''assertion `left == right` failed''
       else bind_outcome (walk_node ords node [] [] [] []) (\<lambda>(root, labels).
         Ret \<lparr>dt_root = root, dt_labels = labels\<rparr>))"

text \<open>\<open>parse\<close>: \<open>dts_parse\<close> is the generated parser.\<close>

definition parse :: "(string \<Rightarrow> Pair list option) \<Rightarrow> string \<Rightarrow> OrdMap \<Rightarrow> DeviceTree outcome" where
  "parse dts_parse text ords =
     bind_outcome (expect ''Parsing zephyr.dts'' (dts_parse text)) (\<lambda>pairs. TreeBuilder_walk ords pairs)"

definition DeviceTree_new :: "(string \<Rightarrow> Pair list option) \<Rightarrow> string \<Rightarrow> OrdMap \<Rightarrow> DeviceTree outcome" where
  "DeviceTree_new dts_parse dts ords = bind_outcome (parse dts_parse dts ords) DeviceTree_link"

section \<open>Reading numbers\<close>

text \<open>The value of a list of digits.\<close>

fun digits_value :: "nat \<Rightarrow> string \<Rightarrow> nat \<Rightarrow> nat option" where
  "digits_value radix [] acc = Some acc"
| "digits_value radix (c # cs) acc = (case to_digit radix c of
     None \<Rightarrow> None | Some d \<Rightarrow> digits_value radix cs (acc * radix + d))"

lemma digits_value_grows: "digits_value radix cs acc = Some v \<Longrightarrow> 0 < radix \<Longrightarrow> acc \<le> v"
proof (induction radix cs acc rule: digits_value.induct)
  case (2 radix c cs acc)
  then obtain d where d: "to_digit radix c = Some d" "digits_value radix cs (acc * radix + d) = Some v"
    by (auto split: option.splits)
  then have "acc * radix + d \<le> v" using 2 by blast
  moreover have "acc \<le> acc * radix" using 2(3) by simp
  ultimately show ?case by linarith
qed simp

lemma parse_digits_value:
  "0 < radix \<Longrightarrow> acc \<le> mx \<Longrightarrow> parse_digits radix mx cs acc =
     (case digits_value radix cs acc of Some v \<Rightarrow> if v \<le> mx then Some v else None | None \<Rightarrow> None)"
proof (induction radix mx cs acc rule: parse_digits.induct)
  case (2 radix mx c cs acc)
  show ?case
  proof (cases "to_digit radix c")
    case (Some d)
    show ?thesis
    proof (cases "acc * radix + d \<le> mx")
      case True
      then show ?thesis using 2(1) [OF Some True] 2(2) Some by simp
    next
      case False
      then have "\<not> v \<le> mx" if "digits_value radix cs (acc * radix + d) = Some v" for v
        using digits_value_grows [OF that 2(2)] by linarith
      with False Some show ?thesis by (simp split: option.splits)
    qed
  qed simp
qed simp

lemma from_str_radix_value:
  assumes "0 < radix" and "s \<noteq> []" and "digits_value radix s 0 = Some v"
  shows "from_str_radix radix mx s = (if v \<le> mx then Some v else None)"
proof -
  have "hd s \<noteq> CHR ''+'' \<or> radix \<le> 0"
  proof (cases s)
    case (Cons c cs)
    then have "to_digit radix c \<noteq> None" using assms(3) by (auto split: option.splits)
    moreover have "to_digit radix CHR ''+'' = None" by (simp add: to_digit_def Let_def)
    ultimately show ?thesis using Cons by auto
  qed (use assms in simp)
  then show ?thesis using assms parse_digits_value [of radix 0 mx s] by (auto simp: from_str_radix_def)
qed

section \<open>The shape of parse trees\<close>

text \<open>Per rule of the grammar: numbers within their range, phandles, strings, cell and byte lists.\<close>

definition number_ok :: "nat \<Rightarrow> nat \<Rightarrow> string \<Rightarrow> bool" where
  "number_ok radix mx s \<longleftrightarrow> s \<noteq> [] \<and> (case digits_value radix s 0 of None \<Rightarrow> False | Some v \<Rightarrow> v \<le> mx)"

definition word_ok :: "Pair \<Rightarrow> bool" where
  "word_ok p \<longleftrightarrow>
     as_rule p = R_hex_number \<and> take 2 (as_str p) \<in> {''0x'', ''0X''} \<and> number_ok 16 (2 ^ 32 - 1) (drop 2 (as_str p)) \<or>
     as_rule p = R_decimal_number \<and> number_ok 10 (2 ^ 32 - 1) (as_str p) \<or>
     as_rule p = R_phandle \<and> take 1 (as_str p) = ''&''"

definition value_ok :: "Pair \<Rightarrow> bool" where
  "value_ok p \<longleftrightarrow>
     as_rule p = R_words \<and> list_all word_ok (into_inner p) \<or>
     as_rule p = R_bytes \<and> list_all (\<lambda>b. as_rule b = R_plain_hex_number \<and> number_ok 16 (2 ^ 8 - 1) (as_str b)) (into_inner p) \<or>
     as_rule p = R_phandle \<and> take 1 (as_str p) = ''&'' \<or>
     as_rule p = R_string \<and> 2 \<le> length (as_str p)"

definition prop_ok :: "Pair \<Rightarrow> bool" where
  "prop_ok p \<longleftrightarrow> as_rule p = R_property \<and> into_inner p \<noteq> [] \<and> as_rule (hd (into_inner p)) = R_nodename \<and>
     list_all value_ok (tl (into_inner p))"

text \<open>The path of the node that is reached by a list of names.\<close>

definition path_of :: "string list \<Rightarrow> string" where
  "path_of route = (if route = [] then ''/'' else concat (map (\<lambda>n. CHR ''/'' # n) route))"

text \<open>
  A node of the grammar, reached by the names \<open>route\<close>: its labels, its name unless it is the root, and its
  entries; every node's path is in the map of ordinals. The numbers of its words and bytes fit their types, as
  those of a devicetree that the compiler has checked do.
\<close>

inductive node_pair :: "OrdMap \<Rightarrow> string list \<Rightarrow> Pair \<Rightarrow> bool" for ords where
  root_pair: "list_all (\<lambda>p. as_rule p = R_label) labs \<Longrightarrow> btree_get (path_of []) ords \<noteq> None \<Longrightarrow>
     \<forall>e \<in> set es. prop_ok e \<or> (\<exists>name. node_pair ords [name] e) \<Longrightarrow>
     node_pair ords [] (Pair R_node str (labs @ es))"
| child_pair: "list_all (\<lambda>p. as_rule p = R_label) labs \<Longrightarrow> btree_get (path_of (route @ [name])) ords \<noteq> None \<Longrightarrow> name \<noteq> [] \<Longrightarrow>
     \<forall>e \<in> set es. prop_ok e \<or> (\<exists>n. node_pair ords (route @ [name, n]) e) \<Longrightarrow>
     node_pair ords (route @ [name]) (Pair R_node str (labs @ Pair R_nodename name [] # es))"

section \<open>The builder returns on such trees\<close>

lemma u32_number_ok: "0 < radix \<Longrightarrow> number_ok radix (2 ^ 32 - 1) s \<Longrightarrow> \<exists>n. u32_from_str_radix radix s = Ret n"
  by (auto simp: u32_from_str_radix_def number_ok_def from_str_radix_value split: option.splits)

lemma u8_number_ok: "0 < radix \<Longrightarrow> number_ok radix (2 ^ 8 - 1) s \<Longrightarrow> \<exists>n. u8_from_str_radix radix s = Ret n"
  by (auto simp: u8_from_str_radix_def number_ok_def from_str_radix_value split: option.splits)

lemma take_length: "take (Suc k) s = c # cs \<Longrightarrow> 1 \<le> length s"
  by (cases s) auto

lemma decode_word_ok: "word_ok p \<Longrightarrow> \<exists>w. decode_word p = Ret w"
proof -
  have two: "2 \<le> length s" if "take 2 s \<in> {''0x'', ''0X''}" for s :: string
  proof -
    have "length (take 2 s) = 2" using that by (auto simp del: length_take)
    then show ?thesis by (simp add: min_def split: if_splits)
  qed
  assume "word_ok p"
  then consider
    (hex) "as_rule p = R_hex_number" "take 2 (as_str p) \<in> {''0x'', ''0X''}" "number_ok 16 (2 ^ 32 - 1) (drop 2 (as_str p))"
  | (dec) "as_rule p = R_decimal_number" "number_ok 10 (2 ^ 32 - 1) (as_str p)"
  | (ph) "as_rule p = R_phandle" "take 1 (as_str p) = ''&''"
    by (auto simp: word_ok_def)
  then show ?thesis
  proof cases
    case hex
    then show ?thesis using two [OF hex(2)] u32_number_ok [OF _ hex(3)] by (auto simp: decode_word_def str_slice_def)
  next
    case dec
    then show ?thesis using u32_number_ok [OF _ dec(2)] by (auto simp: decode_word_def)
  next
    case ph
    then show ?thesis using take_length [of 0] by (auto simp: decode_word_def str_slice_def)
  qed
qed

lemma map_outcome_total: "list_all (\<lambda>x. \<exists>y. f x = Ret y) xs \<Longrightarrow> \<exists>ys. map_outcome f xs = Ret ys"
  by (induction xs) auto

lemma decode_property_loop_ok:
  "list_all value_ok ps \<Longrightarrow> \<exists>vs. decode_property_loop ps name vals = Ret (name, vals @ vs) \<and> length vs = length ps"
proof (induction ps arbitrary: vals)
  case (Cons p ps)
  have "\<exists>v. decode_property_loop (p # ps) name vals = decode_property_loop ps name (vals @ [v])"
  proof -
    consider (words) "as_rule p = R_words" "list_all word_ok (into_inner p)"
    | (bytes) "as_rule p = R_bytes" "list_all (\<lambda>b. as_rule b = R_plain_hex_number \<and> number_ok 16 (2 ^ 8 - 1) (as_str b)) (into_inner p)"
    | (ph) "as_rule p = R_phandle" "take 1 (as_str p) = ''&''"
    | (str) "as_rule p = R_string" "2 \<le> length (as_str p)"
      using Cons.prems by (auto simp: value_ok_def)
    then show ?thesis
    proof cases
      case words
      then have "list_all (\<lambda>w. \<exists>y. decode_word w = Ret y) (into_inner p)" by (auto simp: list_all_iff decode_word_ok)
      from map_outcome_total [OF this] words(1) show ?thesis by (auto simp: decode_words_def)
    next
      case bytes
      then have "list_all (\<lambda>b. \<exists>y. decode_byte b = Ret y) (into_inner p)"
        by (auto simp: list_all_iff decode_byte_def u8_number_ok)
      from map_outcome_total [OF this] bytes(1) show ?thesis by (auto simp: decode_bytes_def)
    next
      case ph
      then show ?thesis using take_length [of 0] by (auto simp: str_slice_def)
    next
      case str
      then show ?thesis by (auto simp: str_slice_def)
    qed
  qed
  then obtain v where v: "decode_property_loop (p # ps) name vals = decode_property_loop ps name (vals @ [v])" by blast
  moreover obtain vs where "decode_property_loop ps name (vals @ [v]) = Ret (name, (vals @ [v]) @ vs)" "length vs = length ps"
    using Cons by fastforce
  ultimately show ?case by (intro exI [of _ "v # vs"]) simp
qed simp

lemma decode_property_ok:
  assumes "prop_ok p"
  shows "\<exists>vs. decode_property p = Ret \<lparr>pr_name = as_str (hd (into_inner p)), pr_value = vs\<rparr> \<and>
    length vs = length (tl (into_inner p))"
proof -
  obtain n ps where i: "into_inner p = n # ps" "as_rule n = R_nodename" "list_all value_ok ps"
    using assms by (cases "into_inner p") (auto simp: prop_ok_def)
  from decode_property_loop_ok [OF i(3), of "Some (as_str n)" "[]"] i(1,2) show ?thesis by (auto simp: decode_property_def)
qed

section \<open>What the builder builds\<close>

text \<open>The names along a position.\<close>

fun names_along :: "Node \<Rightarrow> pos \<Rightarrow> string list" where
  "names_along n [] = []"
| "names_along n (i # p) = nd_name (nd_children n ! i) # names_along (nd_children n ! i) p"

text \<open>Every node under \<open>n\<close> has the route, path and ordinal of its place.\<close>

definition node_ok :: "OrdMap \<Rightarrow> string list \<Rightarrow> Node \<Rightarrow> bool" where
  "node_ok ords route n \<longleftrightarrow> (\<forall>q m. node_at n q = Some m \<longrightarrow> nd_route m = route @ names_along n q \<and>
     nd_path m = path_of (nd_route m) \<and> btree_get (nd_path m) ords = Some (nd_ord m))"

definition has_label :: "Node \<Rightarrow> string \<Rightarrow> pos \<Rightarrow> bool" where
  "has_label n l q \<longleftrightarrow> (\<exists>m. node_at n q = Some m \<and> l \<in> set (nd_labels m))"

text \<open>
  From \<open>lm\<close> to \<open>lm'\<close> the labels \<open>has l p\<close> were added: each answer is an old one or one of theirs, and no label
  is lost.
\<close>

definition labels_added :: "(string \<Rightarrow> pos \<Rightarrow> bool) \<Rightarrow> labelmap \<Rightarrow> labelmap \<Rightarrow> bool" where
  "labels_added has lm lm' \<longleftrightarrow> (\<forall>l p. btree_get l lm' = Some p \<longrightarrow> btree_get l lm = Some p \<or> has l p) \<and>
     (\<forall>l. btree_get l lm \<noteq> None \<or> (\<exists>p. has l p) \<longrightarrow> btree_get l lm' \<noteq> None)"

lemma labels_added_refl: "labels_added (\<lambda>_ _. False) lm lm"
  by (simp add: labels_added_def)

lemma labels_added_trans:
  "labels_added h1 lm lm1 \<Longrightarrow> labels_added h2 lm1 lm2 \<Longrightarrow> labels_added (\<lambda>l p. h1 l p \<or> h2 l p) lm lm2"
  unfolding labels_added_def by blast

lemma labels_added_cong: "labels_added h lm lm' \<Longrightarrow> (\<And>l p. h l p \<longleftrightarrow> h' l p) \<Longrightarrow> labels_added h' lm lm'"
  by (simp add: labels_added_def)

lemma insert_labels_added: "labels_added (\<lambda>l p. l \<in> set labels \<and> p = pos) lm (insert_labels pos labels lm)"
proof (induction labels arbitrary: lm)
  case (Cons x xs)
  have one: "labels_added (\<lambda>l p. l = x \<and> p = pos) lm (btree_insert lm x pos)"
    by (auto simp: labels_added_def btree_get_insert)
  have "insert_labels pos (x # xs) lm = insert_labels pos xs (btree_insert lm x pos)" by (simp add: insert_labels_def)
  moreover have "labels_added (\<lambda>l p. l \<in> set (x # xs) \<and> p = pos) lm (insert_labels pos xs (btree_insert lm x pos))"
    by (rule labels_added_cong [OF labels_added_trans [OF one Cons [of "btree_insert lm x pos"]]]) auto
  ultimately show ?case by simp
qed (simp add: insert_labels_def labels_added_refl)

lemma walk_inner_labels:
  "list_all (\<lambda>p. as_rule p = R_label) labs \<Longrightarrow>
   walk_inner ords (labs @ rest) pos name labels props children lm =
   walk_inner ords rest pos name (labels @ map as_str labs) props children lm"
  by (induction labs arbitrary: labels) auto

text \<open>What walking a child of a node with the given route yields.\<close>

definition child_spec :: "OrdMap \<Rightarrow> string list \<Rightarrow> Pair \<Rightarrow> bool" where
  "child_spec ords route e \<longleftrightarrow> as_rule e = R_node \<and> (\<forall>pos lm. \<exists>c lm'.
     walk_node ords e (path_of route) route pos lm = Ret (c, lm') \<and> node_ok ords (route @ [nd_name c]) c \<and>
     labels_added (\<lambda>l p. \<exists>q. p = pos @ q \<and> has_label c l q) lm lm')"

lemma walk_inner_entries:
  assumes "lz_info name = Some info" and "in_path info = path_of route" and "lz_route name = route"
    and "\<forall>e \<in> set es. prop_ok e \<or> child_spec ords route e"
  shows "\<exists>props' cs' lm'. walk_inner ords es pos name labels props cs lm = Ret (name, labels, props @ props', cs @ cs', lm') \<and>
    (\<forall>c \<in> set cs'. node_ok ords (route @ [nd_name c]) c) \<and>
    labels_added (\<lambda>l p. \<exists>i q. i < length cs' \<and> p = pos @ (length cs + i) # q \<and> has_label (cs' ! i) l q) lm lm'"
  using assms(4)
proof (induction es arbitrary: props cs lm)
  case Nil
  show ?case by (intro exI [of _ "[]"] exI [of _ lm]) (simp add: labels_added_refl)
next
  case (Cons e es)
  show ?case
  proof (cases "prop_ok e")
    case True
    then obtain p where p: "decode_property e = Ret p" "as_rule e = R_property"
      using decode_property_ok [OF True] by (auto simp: prop_ok_def)
    from Cons.IH [of "props @ [p]" cs lm] Cons.prems obtain props' cs' lm' where
      "walk_inner ords es pos name labels (props @ [p]) cs lm = Ret (name, labels, (props @ [p]) @ props', cs @ cs', lm')"
      "\<forall>c \<in> set cs'. node_ok ords (route @ [nd_name c]) c"
      "labels_added (\<lambda>l p. \<exists>i q. i < length cs' \<and> p = pos @ (length cs + i) # q \<and> has_label (cs' ! i) l q) lm lm'"
      by auto
    with p show ?thesis by (intro exI [of _ "p # props'"] exI [of _ cs'] exI [of _ lm']) simp
  next
    case False
    then have spec: "child_spec ords route e" using Cons.prems by simp
    then obtain c lm1 where c: "walk_node ords e (path_of route) route (pos @ [length cs]) lm = Ret (c, lm1)"
      "node_ok ords (route @ [nd_name c]) c"
      "labels_added (\<lambda>l p. \<exists>q. p = (pos @ [length cs]) @ q \<and> has_label c l q) lm lm1" "as_rule e = R_node"
      unfolding child_spec_def by blast
    from Cons.IH [of props "cs @ [c]" lm1] Cons.prems obtain props' cs' lm' where r:
      "walk_inner ords es pos name labels props (cs @ [c]) lm1 = Ret (name, labels, props @ props', (cs @ [c]) @ cs', lm')"
      "\<forall>c \<in> set cs'. node_ok ords (route @ [nd_name c]) c"
      "labels_added (\<lambda>l p. \<exists>i q. i < length cs' \<and> p = pos @ (length (cs @ [c]) + i) # q \<and> has_label (cs' ! i) l q) lm1 lm'"
      by auto
    have "walk_inner ords (e # es) pos name labels props cs lm = Ret (name, labels, props @ props', cs @ (c # cs'), lm')"
      using c(1,4) r(1) assms(1-3) by (simp add: LazyName_path_ref_def)
    moreover have "labels_added (\<lambda>l p. \<exists>i q. i < length (c # cs') \<and> p = pos @ (length cs + i) # q \<and> has_label ((c # cs') ! i) l q) lm lm'"
      by (rule labels_added_cong [OF labels_added_trans [OF c(3) r(3)]])
        (auto simp: less_Suc_eq_0_disj nth_Cons')
    ultimately show ?thesis using c(2) r(2) by (intro exI [of _ props'] exI [of _ "c # cs'"] exI [of _ lm']) auto
  qed
qed

lemma node_ok_Node:
  assumes "\<forall>c \<in> set cs. node_ok ords (route @ [nd_name c]) c" and "btree_get (path_of route) ords = Some od"
  shows "node_ok ords route (Node nm (path_of route) route od ls ps cs)"
  unfolding node_ok_def
proof (intro allI impI)
  fix q m
  assume m: "node_at (Node nm (path_of route) route od ls ps cs) q = Some m"
  show "nd_route m = route @ names_along (Node nm (path_of route) route od ls ps cs) q \<and>
     nd_path m = path_of (nd_route m) \<and> btree_get (nd_path m) ords = Some (nd_ord m)"
  proof (cases q)
    case Nil
    then show ?thesis using m assms(2) by auto
  next
    case (Cons i q')
    then have i: "i < length cs" "node_at (cs ! i) q' = Some m" using m by (auto split: if_splits)
    then show ?thesis using assms(1) Cons unfolding node_ok_def by (metis append.assoc append_Cons append_Nil names_along.simps(2) Node.sel(7) nth_mem)
  qed
qed

lemma has_label_Node:
  "has_label (Node nm pa ro od ls ps cs) l q \<longleftrightarrow> q = [] \<and> l \<in> set ls \<or> (\<exists>i q'. q = i # q' \<and> i < length cs \<and> has_label (cs ! i) l q')"
  by (cases q) (auto simp: has_label_def)

lemma path_of_snoc: "path_of (route @ [n]) = (if route = [] then ''/'' @ n else path_of route @ ''/'' @ n)"
  by (simp add: path_of_def)

lemma path_of_long: "route \<noteq> [] \<Longrightarrow> hd route \<noteq> [] \<Longrightarrow> 1 < length (path_of route)"
  by (cases route) (auto simp: path_of_def neq_Nil_conv)

text \<open>The common end of walking the root and walking a child.\<close>

lemma walk_finish:
  assumes "lz_info name = Some info" and "in_path info = path_of route" and "lz_route name = route"
    and "btree_get (path_of route) ords = Some (in_ord info)"
    and "\<forall>e \<in> set es. prop_ok e \<or> child_spec ords route e"
  shows "\<exists>n lm'. bind_outcome (walk_inner ords es pos name labels [] [] lm) (\<lambda>(name, labels, props, children, lm).
      bind_outcome (LazyName_into_node name labels props children) (\<lambda>node. Ret (node, insert_labels pos labels lm))) = Ret (n, lm') \<and>
    nd_name n = in_name info \<and> node_ok ords route n \<and> labels_added (\<lambda>l p. \<exists>q. p = pos @ q \<and> has_label n l q) lm lm'"
proof -
  obtain props cs lm1 where w: "walk_inner ords es pos name labels [] [] lm = Ret (name, labels, props, cs, lm1)"
    "\<forall>c \<in> set cs. node_ok ords (route @ [nd_name c]) c"
    "labels_added (\<lambda>l p. \<exists>i q. i < length cs \<and> p = pos @ i # q \<and> has_label (cs ! i) l q) lm lm1"
    using walk_inner_entries [OF assms(1-3,5), of pos labels "[]" "[]" lm] by auto
  let ?n = "Node (in_name info) (path_of route) route (in_ord info) labels props cs"
  have "labels_added (\<lambda>l p. \<exists>q. p = pos @ q \<and> has_label ?n l q) lm (insert_labels pos labels lm1)"
    by (rule labels_added_cong [OF labels_added_trans [OF w(3) insert_labels_added [of labels pos lm1]]])
      (auto simp: has_label_Node)
  with w node_ok_Node [OF w(2) assms(4)] assms(1-3) show ?thesis
    by (intro exI [of _ ?n] exI [of _ "insert_labels pos labels lm1"]) (simp add: LazyName_into_node_def)
qed

text \<open>What walking a node yields, given the path and the route of its parent and its own name and route.\<close>

definition walk_spec :: "OrdMap \<Rightarrow> string \<Rightarrow> string list \<Rightarrow> string \<Rightarrow> string list \<Rightarrow> Pair \<Rightarrow> bool" where
  "walk_spec ords ppath proute name route pair \<longleftrightarrow> as_rule pair = R_node \<and> (\<forall>pos lm. \<exists>n lm'.
     walk_node ords pair ppath proute pos lm = Ret (n, lm') \<and> nd_name n = name \<and> node_ok ords route n \<and>
     labels_added (\<lambda>l p. \<exists>q. p = pos @ q \<and> has_label n l q) lm lm')"

lemma walk_spec_child: "walk_spec ords (path_of route) route name (route @ [name]) e \<Longrightarrow> child_spec ords route e"
  unfolding walk_spec_def child_spec_def by blast

lemma node_pair_name: "node_pair ords (route @ [name]) e \<Longrightarrow> name \<noteq> []"
  by (erule node_pair.cases) auto

lemma root_walk:
  assumes "list_all (\<lambda>p. as_rule p = R_label) labs" and "btree_get (path_of []) ords \<noteq> None"
    and es: "\<forall>e \<in> set es. prop_ok e \<or> child_spec ords [] e"
  shows "walk_spec ords [] [] ''/'' [] (Pair R_node str (labs @ es))"
  unfolding walk_spec_def
proof (intro conjI allI)
  fix pos lm
  obtain od where od: "btree_get (path_of []) ords = Some od" using assms(2) by auto
  let ?info = "\<lparr>in_name = ''/'', in_path = ''/'', in_ord = od\<rparr>"
  let ?name = "\<lparr>lz_path = [], lz_route = [], lz_info = Some ?info\<rparr>"
  from walk_finish [of ?name ?info "[]" ords es pos "map as_str labs" lm] od es
  show "\<exists>n lm'. walk_node ords (Pair R_node str (labs @ es)) [] [] pos lm = Ret (n, lm') \<and>
      nd_name n = ''/'' \<and> node_ok ords [] n \<and> labels_added (\<lambda>l p. \<exists>q. p = pos @ q \<and> has_label n l q) lm lm'"
    using walk_inner_labels [OF assms(1), of ords es pos ?name "[]" "[]" "[]" lm]
    by (simp add: LazyName_new_def ord_index_def path_of_def)
qed simp

lemma child_walk:
  assumes "list_all (\<lambda>p. as_rule p = R_label) labs" and "btree_get (path_of (route @ [name])) ords \<noteq> None"
    and "route \<noteq> [] \<Longrightarrow> hd route \<noteq> []" and es: "\<forall>e \<in> set es. prop_ok e \<or> child_spec ords (route @ [name]) e"
  shows "walk_spec ords (path_of route) route name (route @ [name]) (Pair R_node str (labs @ Pair R_nodename name [] # es))"
  unfolding walk_spec_def
proof (intro conjI allI)
  fix pos lm
  obtain od where od: "btree_get (path_of (route @ [name])) ords = Some od" using assms(2) by auto
  let ?info = "\<lparr>in_name = name, in_path = path_of (route @ [name]), in_ord = od\<rparr>"
  let ?new = "\<lparr>lz_path = path_of route, lz_route = route, lz_info = None\<rparr>"
  let ?name = "\<lparr>lz_path = path_of route, lz_route = route @ [name], lz_info = Some ?info\<rparr>"
  have ne: "path_of route \<noteq> []" by (cases route) (auto simp: path_of_def)
  have len: "1 < length (path_of route) \<longleftrightarrow> route \<noteq> []"
    using assms(3) path_of_long [of route] by (cases "route = []") (auto simp: path_of_def)
  have path: "(if length (path_of route) > 1 then path_of route @ ''/'' else path_of route) @ name = path_of (route @ [name])"
    unfolding len path_of_snoc by (simp add: path_of_def)
  have set: "LazyName_set ords ?new name = Ret ?name"
    unfolding LazyName_set_def by (simp only: path LazyName.simps Let_def) (simp add: ord_index_def od)
  from walk_finish [of ?name ?info "route @ [name]" ords es pos "map as_str labs" lm] od es
  show "\<exists>n lm'. walk_node ords (Pair R_node str (labs @ Pair R_nodename name [] # es)) (path_of route) route pos lm = Ret (n, lm') \<and>
      nd_name n = name \<and> node_ok ords (route @ [name]) n \<and>
      labels_added (\<lambda>l p. \<exists>q. p = pos @ q \<and> has_label n l q) lm lm'"
    using walk_inner_labels [OF assms(1), of ords "Pair R_nodename name [] # es" pos ?new "[]" "[]" "[]" lm] ne set
    by (simp add: LazyName_new_def)
qed simp

lemma node_pair_walk:
  "node_pair ords route pair \<Longrightarrow> \<forall>n \<in> set route. n \<noteq> [] \<Longrightarrow>
   (if route = [] then walk_spec ords [] [] ''/'' [] pair
    else walk_spec ords (path_of (butlast route)) (butlast route) (last route) route pair)"
proof (induction rule: node_pair.induct)
  case (root_pair labs es str)
  have "prop_ok e \<or> child_spec ords [] e" if e: "e \<in> set es" for e
  proof (cases "prop_ok e")
    case False
    then obtain nm where nm: "node_pair ords [nm] e"
      and ih: "(\<forall>n \<in> set [nm]. n \<noteq> []) \<longrightarrow> (if [nm] = [] then walk_spec ords [] [] ''/'' [] e
        else walk_spec ords (path_of (butlast [nm])) (butlast [nm]) (last [nm]) [nm] e)"
      using root_pair(3) e by blast
    have "nm \<noteq> []" using node_pair_name [of ords "[]"] nm by simp
    with ih have "walk_spec ords (path_of []) [] nm ([] @ [nm]) e" by simp
    then show ?thesis using walk_spec_child by blast
  qed simp
  then show ?case using root_walk [OF root_pair(1,2)] by simp
next
  case (child_pair labs route name es str)
  have "prop_ok e \<or> child_spec ords (route @ [name]) e" if e: "e \<in> set es" for e
  proof (cases "prop_ok e")
    case False
    then obtain nm where nm: "node_pair ords (route @ [name, nm]) e"
      and ih: "(\<forall>n \<in> set (route @ [name, nm]). n \<noteq> []) \<longrightarrow> (if route @ [name, nm] = [] then walk_spec ords [] [] ''/'' [] e
        else walk_spec ords (path_of (butlast (route @ [name, nm]))) (butlast (route @ [name, nm])) (last (route @ [name, nm]))
          (route @ [name, nm]) e)"
      using child_pair(4) e by blast
    have "nm \<noteq> []" using node_pair_name [of ords "route @ [name]"] nm(1) by simp
    with ih child_pair.prems have "walk_spec ords (path_of (route @ [name])) (route @ [name]) nm ((route @ [name]) @ [nm]) e"
      by (simp add: butlast_append)
    then show ?thesis using walk_spec_child by blast
  qed simp
  moreover have "hd route \<noteq> []" if "route \<noteq> []" using child_pair.prems that by (cases route) auto
  ultimately show ?case using child_walk [OF child_pair(1,2), of es str] by simp
qed

text \<open>The builder on a whole parse tree.\<close>

lemma builder_built:
  assumes "node_pair ords [] pair"
  shows "\<exists>root labels. TreeBuilder_walk ords (pair # rest) = Ret \<lparr>dt_root = root, dt_labels = labels\<rparr> \<and>
    (\<forall>q m. node_at root q = Some m \<longrightarrow> nd_route m = names_along root q \<and> nd_path m = path_of (names_along root q) \<and>
       btree_get (nd_path m) ords = Some (nd_ord m)) \<and>
    (\<forall>l p. btree_get l labels = Some p \<longrightarrow> (\<exists>m. node_at root p = Some m \<and> l \<in> set (nd_labels m))) \<and>
    (\<forall>q m l. node_at root q = Some m \<and> l \<in> set (nd_labels m) \<longrightarrow> btree_get l labels \<noteq> None)"
proof -
  have r: "as_rule pair = R_node" and "\<forall>pos lm. \<exists>n lm'. walk_node ords pair [] [] pos lm = Ret (n, lm') \<and> node_ok ords [] n \<and>
      labels_added (\<lambda>l p. \<exists>q. p = pos @ q \<and> has_label n l q) lm lm'"
    using node_pair_walk [OF assms] unfolding walk_spec_def by (simp, simp, blast)
  then obtain n lm where w: "walk_node ords pair [] [] [] [] = Ret (n, lm)" "node_ok ords [] n"
    "labels_added (\<lambda>l p. \<exists>q. p = [] @ q \<and> has_label n l q) [] lm" by blast
  have "TreeBuilder_walk ords (pair # rest) = Ret \<lparr>dt_root = n, dt_labels = lm\<rparr>"
    using r w(1) by (simp add: TreeBuilder_walk_def)
  moreover have "\<forall>q m. node_at n q = Some m \<longrightarrow> nd_route m = names_along n q \<and> nd_path m = path_of (names_along n q) \<and>
       btree_get (nd_path m) ords = Some (nd_ord m)"
    using w(2) unfolding node_ok_def by (metis append_Nil)
  moreover have "\<forall>l p. btree_get l lm = Some p \<longrightarrow> (\<exists>m. node_at n p = Some m \<and> l \<in> set (nd_labels m))"
    using w(3) by (auto simp: labels_added_def has_label_def btree.find_empty)
  moreover have "\<forall>q m l. node_at n q = Some m \<and> l \<in> set (nd_labels m) \<longrightarrow> btree_get l lm \<noteq> None"
    using w(3) unfolding labels_added_def has_label_def append_Nil by blast
  ultimately show ?thesis by blast
qed

section \<open>Properties\<close>

text \<open>
  Cell values: a decimal or a hexadecimal number of the grammar is read as its value if that fits 32
  bits, a byte if it fits 8 bits; a larger one stops the build with a panic, and nothing is truncated.
\<close>

theorem numbers_read_exactly:
  assumes "digits_value radix s 0 = Some v" and "s \<noteq> []" and "radix \<in> {10, 16}"
  shows "u32_from_str_radix radix s = (if v < 2 ^ 32 then Ret (of_nat v) else Panic ''called `Result::unwrap()` on an `Err` value'') \<and>
    u8_from_str_radix radix s = (if v < 2 ^ 8 then Ret (of_nat v) else Panic ''called `Result::unwrap()` on an `Err` value'')"
proof -
  have "0 < radix" using assms(3) by auto
  from from_str_radix_value [OF this assms(2,1)] show ?thesis
    by (auto simp: u32_from_str_radix_def u8_from_str_radix_def)
qed

theorem numbers_read_exactly_witness:
  "u32_from_str_radix 16 ''deadBEEF'' = Ret 3735928559 \<and>
   u8_from_str_radix 16 ''100'' = Panic ''called `Result::unwrap()` on an `Err` value''"
proof -
  have "digits_value 16 ''deadBEEF'' 0 = Some 3735928559" and "digits_value 16 ''100'' 0 = Some 256"
    by (simp_all add: to_digit_def Let_def)
  from numbers_read_exactly [OF this(1)] numbers_read_exactly [OF this(2)] show ?thesis by simp
qed

end
