(* ===== verification/Dt_Ordmap.thy ===== *)
theory Dt_Ordmap
  imports Dt_Parse
begin

text \<open>
  \<open>zephyr-build/src/devicetree/ordmap.rs\<close>: the ordinals of the nodes, read from the generated C header.
  The two patterns are matched by the \<open>regex\<close> package, which is a parameter: \<open>re2_ok\<close> states what a greedy
  match of \<open>^a(.*)b(.*)c$\<close> is, and \<open>re2\<close> is a matcher that satisfies it.
\<close>

section \<open>Reading the header\<close>

type_synonym regex2 = "string \<Rightarrow> (string \<times> string) option"

definition usize_from_str :: "string \<Rightarrow> nat outcome" where
  "usize_from_str s = expect ''called `Result::unwrap()` on an `Err` value'' (from_str_radix 10 (2 ^ 64 - 1) s)"

text \<open>The loop over the lines, with the last C name and path seen.\<close>

fun ordmap_loop :: "regex2 \<Rightarrow> regex2 \<Rightarrow> string list \<Rightarrow> string \<Rightarrow> string \<Rightarrow> OrdMap \<Rightarrow> OrdMap outcome" where
  "ordmap_loop path_re ord_re [] c_name dt_path result = Ret result"
| "ordmap_loop path_re ord_re (line # ls) c_name dt_path result = (case path_re line of
     Some (c, p) \<Rightarrow> ordmap_loop path_re ord_re ls c p result
   | None \<Rightarrow> (case ord_re line of
        Some (c, n) \<Rightarrow> bind_outcome (usize_from_str n) (\<lambda>ord.
          if c \<noteq> c_name then Panic ''assertion `left == right` failed''
          else ordmap_loop path_re ord_re ls c_name dt_path (btree_insert result dt_path ord))
      | None \<Rightarrow> ordmap_loop path_re ord_re ls c_name dt_path result))"

definition OrdMap_new :: "regex2 \<Rightarrow> regex2 \<Rightarrow> string list \<Rightarrow> OrdMap outcome" where
  "OrdMap_new path_re ord_re ls = ordmap_loop path_re ord_re ls [] [] []"

section \<open>The patterns\<close>

definition re2_ok :: "string \<Rightarrow> string \<Rightarrow> string \<Rightarrow> regex2 \<Rightarrow> bool" where
  "re2_ok a b c R \<longleftrightarrow> (\<forall>line. case R line of
     None \<Rightarrow> \<not> (\<exists>x y. line = a @ x @ b @ y @ c)
   | Some (x, y) \<Rightarrow> line = a @ x @ b @ y @ c \<and> (\<forall>x' y'. line = a @ x' @ b @ y' @ c \<longrightarrow> length x' \<le> length x))"

text \<open>A matcher: the first group is tried from the longest down.\<close>

definition re2_at :: "string \<Rightarrow> string \<Rightarrow> string \<Rightarrow> string \<Rightarrow> nat \<Rightarrow> bool" where
  "re2_at a b c line i \<longleftrightarrow> (let rest = drop (length a + i) line; y = drop (length b) rest in
     take (length a) line = a \<and> length a + i \<le> length line \<and> take (length b) rest = b \<and> length c \<le> length y \<and>
     drop (length y - length c) y = c)"

definition re2 :: "string \<Rightarrow> string \<Rightarrow> string \<Rightarrow> regex2" where
  "re2 a b c line = (case List.find (re2_at a b c line) (rev [0..<Suc (length line)]) of
     None \<Rightarrow> None
   | Some i \<Rightarrow> (let y = drop (length a + i + length b) line in
       Some (take i (drop (length a) line), take (length y - length c) y)))"

lemma re2_at_split: "re2_at a b c line i \<longleftrightarrow> (\<exists>x y. line = a @ x @ b @ y @ c \<and> length x = i)"
proof
  assume r: "re2_at a b c line i"
  let ?rest = "drop (length a + i) line"
  let ?y = "drop (length b) ?rest"
  have "line = a @ take i (drop (length a) line) @ ?rest"
    using r by (metis append_take_drop_id drop_drop add.commute re2_at_def)
  moreover have "?rest = b @ ?y" using r by (metis append_take_drop_id re2_at_def)
  moreover have "?y = take (length ?y - length c) ?y @ c" using r by (metis append_take_drop_id re2_at_def)
  ultimately have "line = a @ take i (drop (length a) line) @ b @ take (length ?y - length c) ?y @ c" by metis
  moreover have "length (take i (drop (length a) line)) = i" using r by (auto simp: re2_at_def Let_def min_def)
  ultimately show "\<exists>x y. line = a @ x @ b @ y @ c \<and> length x = i" by blast
next
  assume "\<exists>x y. line = a @ x @ b @ y @ c \<and> length x = i"
  then show "re2_at a b c line i" by (auto simp: re2_at_def Let_def)
qed

lemma re2_ok_re2: "re2_ok a b c (re2 a b c)"
  unfolding re2_ok_def
proof
  fix line
  show "case re2 a b c line of
     None \<Rightarrow> \<not> (\<exists>x y. line = a @ x @ b @ y @ c)
   | Some (x, y) \<Rightarrow> line = a @ x @ b @ y @ c \<and> (\<forall>x' y'. line = a @ x' @ b @ y' @ c \<longrightarrow> length x' \<le> length x)"
  proof (cases "List.find (re2_at a b c line) (rev [0..<Suc (length line)])")
    case None
    have "length x \<in> set (rev [0..<Suc (length line)])" if "line = a @ x @ b @ y @ c" for x y using that by auto
    with None have "\<not> (\<exists>x y. line = a @ x @ b @ y @ c)" unfolding find_None_iff re2_at_split by metis
    then show ?thesis using None by (simp add: re2_def)
  next
    case (Some i)
    then obtain k where k: "k < length (rev [0..<Suc (length line)])" "re2_at a b c line (rev [0..<Suc (length line)] ! k)"
      "i = rev [0..<Suc (length line)] ! k" "\<forall>j < k. \<not> re2_at a b c line (rev [0..<Suc (length line)] ! j)"
      unfolding find_Some_iff by blast
    have nth: "rev [0..<Suc (length line)] ! j = length line - j" if "j < Suc (length line)" for j
      using that by (simp add: rev_nth del: upt_Suc)
    have kl: "k < Suc (length line)" using k(1) by (simp del: upt_Suc)
    have ki: "i = length line - k" unfolding k(3) by (rule nth [OF kl])
    have "re2_at a b c line i" using k(2) unfolding k(3) .
    then obtain x y where xy: "line = a @ x @ b @ y @ c" "length x = i" unfolding re2_at_split by blast
    have "length x' \<le> length x" if "line = a @ x' @ b @ y' @ c" for x' y'
    proof (rule ccontr)
      assume "\<not> length x' \<le> length x"
      moreover have "length x' \<le> length line" using that by simp
      ultimately have "length line - length x' < k" "length line - (length line - length x') = length x'" using ki kl xy(2) by auto
      then have "\<not> re2_at a b c line (length x')" using k(4) nth [of "length line - length x'"] by auto
      with that show False unfolding re2_at_split by blast
    qed
    then have "\<forall>x' y'. line = a @ x' @ b @ y' @ c \<longrightarrow> length x' \<le> length x" by blast
    moreover have "re2 a b c line = Some (x, y)" using Some xy by (auto simp: re2_def Let_def)
    ultimately show ?thesis using xy(1) by (simp only: option.case prod.case)
  qed
qed

section \<open>A header\<close>

text \<open>The lines that the header has for a node: its path, other lines, and its ordinal in decimal.\<close>

fun show_nat :: "nat \<Rightarrow> string" where
  "show_nat n = (if n < 10 then [char_of (48 + n)] else show_nat (n div 10) @ [char_of (48 + n mod 10)])"

declare show_nat.simps [simp del]

definition path_line :: "string \<Rightarrow> string \<Rightarrow> string" where
  "path_line c p = ''#define DT_'' @ c @ (''_PATH '' @ [CHR 0x22]) @ p @ [CHR 0x22]"

definition ord_line :: "string \<Rightarrow> nat \<Rightarrow> string" where
  "ord_line c n = ''#define DT_'' @ c @ ''_ORD '' @ show_nat n @ []"

record hnode =
  hn_name :: string
  hn_path :: string
  hn_ord :: nat
  hn_other :: "string list"

definition hnode_lines :: "hnode \<Rightarrow> string list" where
  "hnode_lines h = path_line (hn_name h) (hn_path h) # hn_other h @ [ord_line (hn_name h) (hn_ord h)]"

definition hnode_ok :: "regex2 \<Rightarrow> regex2 \<Rightarrow> hnode \<Rightarrow> bool" where
  "hnode_ok path_re ord_re h \<longleftrightarrow> CHR 0x22 \<notin> set (hn_path h) \<and> hn_ord h < 2 ^ 64 \<and>
     (\<forall>l \<in> set (hn_other h). path_re l = None \<and> ord_re l = None)"

abbreviation path_re_ok :: "regex2 \<Rightarrow> bool" where
  "path_re_ok R \<equiv> re2_ok ''#define DT_'' (''_PATH '' @ [CHR 0x22]) [CHR 0x22] R"

abbreviation ord_re_ok :: "regex2 \<Rightarrow> bool" where
  "ord_re_ok R \<equiv> re2_ok ''#define DT_'' ''_ORD '' [] R"

section \<open>Reading back what the header says\<close>

lemma to_digit_char: "d < 10 \<Longrightarrow> to_digit 10 (char_of (48 + d :: nat)) = Some d"
  by (simp add: to_digit_def Let_def of_char_of)

lemma digits_value_snoc:
  "digits_value radix (xs @ [c]) acc = (case digits_value radix xs acc of
     None \<Rightarrow> None | Some v \<Rightarrow> map_option (\<lambda>d. v * radix + d) (to_digit radix c))"
  by (induction radix xs acc rule: digits_value.induct) (auto split: option.splits)

lemma show_nat_value: "digits_value 10 (show_nat n) 0 = Some n"
proof (induction n rule: show_nat.induct)
  case (1 n)
  show ?case
  proof (cases "n < 10")
    case True
    then show ?thesis by (subst show_nat.simps) (simp add: to_digit_char)
  next
    case False
    then show ?thesis using 1 by (subst show_nat.simps) (simp add: digits_value_snoc to_digit_char)
  qed
qed

lemma show_nat_digits: "show_nat n \<noteq> [] \<and> (\<forall>c \<in> set (show_nat n). to_digit 10 c \<noteq> None)"
proof (induction n rule: show_nat.induct)
  case (1 n)
  then show ?case by (cases "n < 10") (auto simp: show_nat.simps [of n] to_digit_char)
qed

lemma usize_from_show: "n < 2 ^ 64 \<Longrightarrow> usize_from_str (show_nat n) = Ret n"
  using from_str_radix_value [of 10 "show_nat n" n "2 ^ 64 - 1"] show_nat_value show_nat_digits
  by (simp add: usize_from_str_def)

lemma show_nat_no: "to_digit 10 q = None \<Longrightarrow> q \<notin> set (show_nat n)"
  using show_nat_digits by fastforce

text \<open>A separator \<open>b0 q\<close> that is followed by no other \<open>q\<close> than those that the pattern has: its place is fixed.\<close>

lemma separator_unique:
  assumes "b0 @ [q] @ y @ c = d @ b0 @ [q] @ y' @ c" and "q \<notin> set b0" and "q \<notin> set y"
  shows "d = []"
proof -
  have "length (filter (\<lambda>z. z = q) (b0 @ [q] @ y @ c)) = length (filter (\<lambda>z. z = q) (d @ b0 @ [q] @ y' @ c))"
    by (simp only: assms(1))
  moreover have "filter (\<lambda>z. z = q) b0 = []" "filter (\<lambda>z. z = q) y = []" using assms(2,3) by (auto simp: filter_empty_conv)
  ultimately have "filter (\<lambda>z. z = q) d = []" by simp
  then have "q \<notin> set d" by (auto simp: filter_empty_conv)
  have "takeWhile (\<lambda>z. z \<noteq> q) (b0 @ [q] @ y @ c) = b0" using assms(2) by (subst takeWhile_append2) auto
  moreover have "takeWhile (\<lambda>z. z \<noteq> q) ((d @ b0) @ [q] @ y' @ c) = d @ b0"
    using assms(2) \<open>q \<notin> set d\<close> by (subst takeWhile_append2) auto
  moreover have "(d @ b0) @ [q] @ y' @ c = b0 @ [q] @ y @ c" by (simp only: assms(1) append_assoc)
  ultimately have "d @ b0 = b0" by (simp only:)
  then show ?thesis by simp
qed

lemma re2_match:
  assumes "re2_ok a (b0 @ [q]) c R" and "q \<notin> set b0" and "q \<notin> set y"
  shows "R (a @ x @ (b0 @ [q]) @ y @ c) = Some (x, y)"
proof (cases "R (a @ x @ (b0 @ [q]) @ y @ c)")
  case None
  let ?line = "a @ x @ (b0 @ [q]) @ y @ c"
  have "case R ?line of None \<Rightarrow> \<not> (\<exists>x' y'. ?line = a @ x' @ (b0 @ [q]) @ y' @ c)
     | Some (x', y') \<Rightarrow> ?line = a @ x' @ (b0 @ [q]) @ y' @ c \<and> (\<forall>u v. ?line = a @ u @ (b0 @ [q]) @ v @ c \<longrightarrow> length u \<le> length x')"
    using assms(1) unfolding re2_ok_def by (rule spec)
  then have "\<not> (\<exists>x' y'. ?line = a @ x' @ (b0 @ [q]) @ y' @ c)" unfolding None option.case .
  then show ?thesis by blast
next
  case (Some xy)
  obtain x' y' where xy: "xy = (x', y')" by (cases xy)
  have e: "a @ x @ (b0 @ [q]) @ y @ c = a @ x' @ (b0 @ [q]) @ y' @ c" and l: "length x \<le> length x'"
    using assms(1) [unfolded re2_ok_def, rule_format, of "a @ x @ (b0 @ [q]) @ y @ c"] Some xy by auto
  then obtain d where d: "x' = x @ d" by (auto simp: append_eq_append_conv2)
  with e have "b0 @ [q] @ y @ c = d @ b0 @ [q] @ y' @ c" by simp
  from separator_unique [OF this assms(2,3)] d e Some xy show ?thesis by simp
qed

lemma path_re_path: "path_re_ok R \<Longrightarrow> CHR 0x22 \<notin> set p \<Longrightarrow> R (path_line c p) = Some (c, p)"
  unfolding path_line_def by (rule re2_match) simp_all

lemma ord_re_ord: "ord_re_ok R \<Longrightarrow> R (ord_line c n) = Some (c, show_nat n)"
  unfolding ord_line_def using re2_match [of "''#define DT_''" "''_ORD''" "CHR '' ''" "[]" R "show_nat n" c]
    show_nat_no [of "CHR '' ''" n] by (simp add: to_digit_def)

lemma path_re_ord: "path_re_ok R \<Longrightarrow> R (ord_line c n) = None"
proof (rule ccontr)
  assume ok: "path_re_ok R" and "R (ord_line c n) \<noteq> None"
  then obtain x y where "R (ord_line c n) = Some (x, y)" by auto
  then have "ord_line c n = ''#define DT_'' @ x @ (''_PATH '' @ [CHR 0x22]) @ y @ [CHR 0x22]"
    using ok [unfolded re2_ok_def, rule_format, of "ord_line c n"] by simp
  then have "last (ord_line c n) = CHR 0x22" by simp
  moreover have "last (ord_line c n) = last (show_nat n)" using show_nat_digits [of n] by (simp add: ord_line_def)
  ultimately have "CHR 0x22 \<in> set (show_nat n)" using show_nat_digits [of n] by (metis last_in_set)
  then show False using show_nat_no [of "CHR 0x22" n] by (simp add: to_digit_def)
qed

lemma ordmap_loop_other:
  "\<forall>l \<in> set ls. path_re l = None \<and> ord_re l = None \<Longrightarrow>
   ordmap_loop path_re ord_re (ls @ rest) c p m = ordmap_loop path_re ord_re rest c p m"
  by (induction ls) auto

lemma ordmap_loop_header:
  assumes "path_re_ok path_re" and "ord_re_ok ord_re"
  shows "\<forall>h \<in> set hs. hnode_ok path_re ord_re h \<Longrightarrow>
    ordmap_loop path_re ord_re (concat (map hnode_lines hs)) c p m = Ret (foldl (\<lambda>m h. btree_insert m (hn_path h) (hn_ord h)) m hs)"
proof (induction hs arbitrary: c p m)
  case (Cons h hs)
  then have h: "CHR 0x22 \<notin> set (hn_path h)" "hn_ord h < 2 ^ 64" "\<forall>l \<in> set (hn_other h). path_re l = None \<and> ord_re l = None"
    by (auto simp: hnode_ok_def)
  have "ordmap_loop path_re ord_re (concat (map hnode_lines (h # hs))) c p m =
      ordmap_loop path_re ord_re (concat (map hnode_lines hs)) (hn_name h) (hn_path h) (btree_insert m (hn_path h) (hn_ord h))"
    using path_re_path [OF assms(1) h(1), of "hn_name h"] ordmap_loop_other [OF h(3)]
      path_re_ord [OF assms(1)] ord_re_ord [OF assms(2)] usize_from_show [OF h(2)]
    by (simp add: hnode_lines_def)
  then show ?case using Cons by simp
qed simp

lemma btree_fold:
  "btree_ok m \<Longrightarrow> btree_ok (foldl (\<lambda>m h. btree_insert m (hn_path h) (hn_ord h)) m hs) \<and>
   (\<forall>p. btree_get p (foldl (\<lambda>m h. btree_insert m (hn_path h) (hn_ord h)) m hs) =
     (case map_of (rev (map (\<lambda>h. (hn_path h, hn_ord h)) hs)) p of Some n \<Rightarrow> Some n | None \<Rightarrow> btree_get p m))"
proof (induction hs arbitrary: m)
  case (Cons h hs)
  from Cons(1) [OF btree_insert_ok [OF Cons(2)]] show ?case
    by (auto simp: btree_get_insert map_add_def split: option.splits)
qed simp

text \<open>The map that a header gives.\<close>

definition header_ords :: "hnode list \<Rightarrow> OrdMap" where
  "header_ords hs = foldl (\<lambda>m h. btree_insert m (hn_path h) (hn_ord h)) [] hs"

lemma header_read:
  assumes "path_re_ok path_re" and "ord_re_ok ord_re" and "\<forall>h \<in> set hs. hnode_ok path_re ord_re h"
  shows "OrdMap_new path_re ord_re (concat (map hnode_lines hs)) = Ret (header_ords hs)"
  using ordmap_loop_header [OF assms] by (simp add: OrdMap_new_def header_ords_def)

lemma header_ords_get: "btree_get p (header_ords hs) = map_of (rev (map (\<lambda>h. (hn_path h, hn_ord h)) hs)) p"
  using btree_fold [of "[]" hs] by (auto simp: header_ords_def btree_ok_def btree_keys_def btree_get_def split: option.splits)

section \<open>Properties\<close>

text \<open>
  Reading the header gives the ordinals that it states: for a header that has for each node its path
  line, any lines that match neither pattern, and its ordinal line, and for any greedy matcher,
  \<open>OrdMap::new\<close> returns the map from every path to the ordinal of its last entry.
\<close>

theorem ordmap_roundtrip:
  assumes "path_re_ok path_re" and "ord_re_ok ord_re" and "\<forall>h \<in> set hs. hnode_ok path_re ord_re h"
  shows "\<exists>ords. OrdMap_new path_re ord_re (concat (map hnode_lines hs)) = Ret ords \<and>
    (\<forall>p. btree_get p ords = map_of (rev (map (\<lambda>h. (hn_path h, hn_ord h)) hs)) p)"
  using header_read [OF assms] header_ords_get by blast

definition demo_header :: "hnode list" where
  "demo_header = [\<lparr>hn_name = ''N'', hn_path = ''/'', hn_ord = 0, hn_other = [''/* root */'']\<rparr>,
     \<lparr>hn_name = ''N_S_soc'', hn_path = ''/soc'', hn_ord = 12, hn_other = []\<rparr>]"

abbreviation demo_path_re :: regex2 where
  "demo_path_re \<equiv> re2 ''#define DT_'' (''_PATH '' @ [CHR 0x22]) [CHR 0x22]"

abbreviation demo_ord_re :: regex2 where
  "demo_ord_re \<equiv> re2 ''#define DT_'' ''_ORD '' []"

lemma re2_prefix: "take (length a) line \<noteq> a \<Longrightarrow> re2 a b c line = None"
proof (rule ccontr)
  assume "take (length a) line \<noteq> a" and "re2 a b c line \<noteq> None"
  then obtain x y where "re2 a b c line = Some (x, y)" by auto
  then have "line = a @ x @ b @ y @ c" using re2_ok_re2 [of a b c] by (auto simp: re2_ok_def split: option.splits)
  with \<open>take (length a) line \<noteq> a\<close> show False by simp
qed

lemma demo_header_ok: "\<forall>h \<in> set demo_header. hnode_ok demo_path_re demo_ord_re h"
  by (simp add: demo_header_def hnode_ok_def re2_prefix)

theorem ordmap_roundtrip_witness:
  "\<exists>ords. OrdMap_new demo_path_re demo_ord_re (concat (map hnode_lines demo_header)) = Ret ords \<and>
     btree_get ''/soc'' ords = Some 12"
proof -
  obtain ords where "OrdMap_new demo_path_re demo_ord_re (concat (map hnode_lines demo_header)) = Ret ords"
    "\<forall>p. btree_get p ords = map_of (rev (map (\<lambda>h. (hn_path h, hn_ord h)) demo_header)) p"
    using ordmap_roundtrip [OF re2_ok_re2 re2_ok_re2 demo_header_ok] by blast
  then show ?thesis by (simp add: demo_header_def)
qed

end
