(* ===== verification/Dt_Build.thy ===== *)
theory Dt_Build
  imports Dt_Ordmap
begin

text \<open>
  The devicetree end to end, \<open>DeviceTree::new\<close> of \<open>zephyr-build/src/devicetree.rs\<close>: the ordinals of the generated
  header, the tree of the parser and the linking of the phandles together.
\<close>

section \<open>Phandles come from the parser unlinked\<close>

definition unlinked :: "Phandle list \<Rightarrow> bool" where
  "unlinked phs \<longleftrightarrow> (\<forall>ph \<in> set phs. ph_node ph = None)"

lemma unlinked_Nil [simp]: "unlinked []" and unlinked_append [simp]: "unlinked (xs @ ys) \<longleftrightarrow> unlinked xs \<and> unlinked ys"
  by (auto simp: unlinked_def)

lemma unlinked_concat [simp]: "unlinked (concat xss) \<longleftrightarrow> (\<forall>xs \<in> set xss. unlinked xs)"
  by (auto simp: unlinked_def)

lemma unlinked_new [simp]: "unlinked [Phandle_new name]"
  by (simp add: unlinked_def Phandle_new_def)

lemma map_outcome_all: "map_outcome f xs = Ret ys \<Longrightarrow> (\<And>x y. f x = Ret y \<Longrightarrow> P y) \<Longrightarrow> \<forall>y \<in> set ys. P y"
  by (induction xs arbitrary: ys) (auto simp: outcome_simps)

lemma decode_word_unlinked: "decode_word p = Ret w \<Longrightarrow> unlinked (word_phandles w)"
  by (auto simp: decode_word_def word_phandles_def outcome_simps split: PestRule.splits)

lemma decode_words_unlinked: "decode_words p = Ret ws \<Longrightarrow> unlinked (value_phandles (Words ws))"
  using map_outcome_all [of decode_word "into_inner p" ws "\<lambda>w. unlinked (word_phandles w)"] decode_word_unlinked
  by (simp add: decode_words_def value_phandles_def)

lemma decode_property_loop_unlinked:
  "decode_property_loop ps name vals = Ret (name', vals') \<Longrightarrow> \<forall>v \<in> set vals. unlinked (value_phandles v) \<Longrightarrow>
   \<forall>v \<in> set vals'. unlinked (value_phandles v)"
proof (induction ps arbitrary: name vals)
  case (Cons p ps)
  have flat: "unlinked (value_phandles (VPhandle (Phandle_new t)))" "unlinked (value_phandles (VString t))"
    "unlinked (value_phandles (Bytes bs))" for t bs
    by (simp_all add: value_phandles_def)
  have step: "\<forall>v \<in> set vals'. unlinked (value_phandles v)"
    if "decode_property_loop ps nm (vals @ [v]) = Ret (name', vals')" "unlinked (value_phandles v)" for nm v
    using Cons.IH [of nm "vals @ [v]"] Cons.prems(2) that by auto
  show ?case
  proof (cases "as_rule p")
    case R_words
    then obtain ws where "decode_words p = Ret ws" "decode_property_loop ps name (vals @ [Words ws]) = Ret (name', vals')"
      using Cons.prems by (auto simp: outcome_simps)
    then show ?thesis using step decode_words_unlinked by blast
  next
    case R_phandle
    then obtain t where "decode_property_loop ps name (vals @ [VPhandle (Phandle_new t)]) = Ret (name', vals')"
      using Cons.prems by (auto simp: outcome_simps)
    then show ?thesis using step flat by blast
  next
    case R_string
    then obtain t where "decode_property_loop ps name (vals @ [VString t]) = Ret (name', vals')"
      using Cons.prems by (auto simp: outcome_simps)
    then show ?thesis using step flat by blast
  next
    case R_bytes
    then obtain t where "decode_property_loop ps name (vals @ [Bytes t]) = Ret (name', vals')"
      using Cons.prems by (auto simp: outcome_simps)
    then show ?thesis using step flat by blast
  qed (use Cons in auto)
qed simp

lemma decode_property_unlinked: "decode_property p = Ret pr \<Longrightarrow> unlinked (prop_phandles pr)"
  using decode_property_loop_unlinked [of "into_inner p" None "[]"]
  by (auto simp: decode_property_def prop_phandles_def outcome_simps)

lemma walk_unlinked:
  "walk_node ords pair path route pos lm = Ret (n, lm') \<Longrightarrow> unlinked (tree_phandles n)"
  "walk_inner ords ps pos name labels props cs lm = Ret (name', labels', props', cs', lm'') \<Longrightarrow>
   \<forall>p \<in> set props. unlinked (prop_phandles p) \<Longrightarrow> \<forall>c \<in> set cs. unlinked (tree_phandles c) \<Longrightarrow>
   (\<forall>p \<in> set props'. unlinked (prop_phandles p)) \<and> (\<forall>c \<in> set cs'. unlinked (tree_phandles c))"
proof (induction ords pair path route pos lm and ords ps pos name labels props cs lm
    arbitrary: n lm' and name' labels' props' cs' lm'' rule: walk_node_walk_inner.induct)
  case (1 ords r str inner path route pos lm)
  then show ?case by (fastforce simp: outcome_simps LazyName_into_node_def)
next
  case (3 ords pair ps pos name labels props cs lm)
  show ?case
  proof (cases "as_rule pair")
    case R_node
    with 3 show ?thesis by (fastforce simp: outcome_simps)
  next
    case R_property
    with 3 decode_property_unlinked [of pair] show ?thesis by (fastforce simp: outcome_simps)
  qed (use 3 in \<open>fastforce simp: outcome_simps\<close>)+
qed auto

section \<open>The linked tree\<close>

lemma map_tree_sel [simp]:
  "nd_name (map_tree f n) = nd_name n" "nd_path (map_tree f n) = nd_path n" "nd_route (map_tree f n) = nd_route n"
  "nd_ord (map_tree f n) = nd_ord n" "nd_labels (map_tree f n) = nd_labels n"
  "nd_children (map_tree f n) = map (map_tree f) (nd_children n)"
  by (cases n; simp)+

lemma node_at_map_tree: "node_at (map_tree f n) q = map_option (map_tree f) (node_at n q)"
  by (induction n q rule: node_at.induct) auto

lemma names_along_map_tree: "node_at n q \<noteq> None \<Longrightarrow> names_along (map_tree f n) q = names_along n q"
  by (induction n q rule: node_at.induct) (auto split: if_splits)

lemma value_phandles_map: "value_phandles (map_value f v) = map f (value_phandles v)"
  by (cases v) (auto simp: value_phandles_def map_value_def map_concat word_phandles_def map_word_def intro!: arg_cong [where f = concat]
      split: DtWord.splits)

lemma prop_phandles_map: "prop_phandles (map_prop f p) = map f (prop_phandles p)"
  by (simp add: prop_phandles_def map_prop_def map_concat value_phandles_map comp_def)

lemma tree_phandles_map: "tree_phandles (map_tree f n) = map f (tree_phandles n)"
proof (induction n)
  case (Node nm pa ro od ls props children)
  then have "map (\<lambda>c. tree_phandles (map_tree f c)) children = map (\<lambda>c. map f (tree_phandles c)) children" by simp
  then show ?case by (simp add: map_concat prop_phandles_map comp_def cong: map_cong)
qed

section \<open>Properties\<close>

text \<open>
  C6. The devicetree is right end to end. Given the generated header of the board and a parse tree of
  \<open>zephyr.dts\<close> whose nodes the header knows, the map of ordinals is read and the tree is built. If every
  phandle of the tree names a label that some node carries, the tree that results has in every node the
  path of its names and the ordinal that the header gives to this path, and every phandle in it points to
  a node that carries its label. Otherwise the build stops with the panic about the missing phandle.
\<close>

theorem devicetree_pipeline:
  assumes "path_re_ok path_re" and "ord_re_ok ord_re" and "\<forall>h \<in> set hs. hnode_ok path_re ord_re h"
    and "dts_parse text = Some (pair # rest)" and "node_pair (header_ords hs) [] pair"
  shows "\<exists>ords dt. OrdMap_new path_re ord_re (concat (map hnode_lines hs)) = Ret ords \<and>
    TreeBuilder_walk ords (pair # rest) = Ret dt \<and>
    (if \<forall>ph \<in> set (tree_phandles (dt_root dt)). \<exists>q. has_label (dt_root dt) (ph_name ph) q
     then \<exists>root. DeviceTree_new dts_parse text ords = Ret (dt\<lparr>dt_root := root\<rparr>) \<and>
       (\<forall>q m. node_at root q = Some m \<longrightarrow> nd_path m = path_of (names_along root q) \<and>
          map_of (rev (map (\<lambda>h. (hn_path h, hn_ord h)) hs)) (nd_path m) = Some (nd_ord m)) \<and>
       (\<forall>ph \<in> set (tree_phandles root). \<exists>q. ph_node ph = Some q \<and> has_label root (ph_name ph) q)
     else DeviceTree_new dts_parse text ords = Panic ''Missing phandle'')"
proof -
  obtain n labels where w: "TreeBuilder_walk (header_ords hs) (pair # rest) = Ret \<lparr>dt_root = n, dt_labels = labels\<rparr>"
    and nodes: "\<And>q m. node_at n q = Some m \<Longrightarrow> nd_path m = path_of (names_along n q) \<and>
       btree_get (nd_path m) (header_ords hs) = Some (nd_ord m)"
    and lab: "\<And>l p. btree_get l labels = Some p \<Longrightarrow> has_label n l p" "\<And>l q. has_label n l q \<Longrightarrow> btree_get l labels \<noteq> None"
    using builder_built [OF assms(5), of rest] unfolding has_label_def by blast
  have un: "ph_node ph = None" if "ph \<in> set (tree_phandles n)" for ph
    using w walk_unlinked(1) [of "header_ords hs" pair "[]" "[]" "[]" "[]" n] that
    by (auto simp: TreeBuilder_walk_def unlinked_def outcome_simps split: if_splits)
  let ?root = "map_tree (resolved labels) n" and ?ok = "\<forall>ph \<in> set (tree_phandles n). \<exists>q. has_label n (ph_name ph) q"
  have "list_all (resolvable labels) (tree_phandles n) \<longleftrightarrow> ?ok"
    using lab un by (fastforce simp: list_all_iff resolvable_def)
  then have new: "DeviceTree_new dts_parse text (header_ords hs) =
      (if ?ok then Ret \<lparr>dt_root = ?root, dt_labels = labels\<rparr> else Panic ''Missing phandle'')"
    using w assms(4) node_walks [of labels n] by (simp add: DeviceTree_new_def parse_def DeviceTree_link_def walks_def)
  have a: "nd_path m = path_of (names_along ?root q) \<and> map_of (rev (map (\<lambda>h. (hn_path h, hn_ord h)) hs)) (nd_path m) = Some (nd_ord m)"
    if "node_at ?root q = Some m" for q m
    using that nodes [of q] by (auto simp: node_at_map_tree names_along_map_tree header_ords_get)
  have b: "\<exists>q. ph_node ph = Some q \<and> has_label ?root (ph_name ph) q" if ?ok "ph \<in> set (tree_phandles ?root)" for ph
    using that lab un by (fastforce simp: tree_phandles_map resolved_def has_label_def node_at_map_tree)
  show ?thesis
  proof (intro exI conjI)
    show "OrdMap_new path_re ord_re (concat (map hnode_lines hs)) = Ret (header_ords hs)" by (rule header_read [OF assms(1-3)])
    show "TreeBuilder_walk (header_ords hs) (pair # rest) = Ret \<lparr>dt_root = n, dt_labels = labels\<rparr>" by (rule w)
  qed (simp only: DeviceTree.simps split: if_split, intro conjI impI exI [of _ ?root]; (simp add: new; fail)?, (use a b in blast)?)
qed

text \<open>A board with a GPIO controller and a LED that refers to it.\<close>

definition demo_board :: "hnode list" where
  "demo_board = [\<lparr>hn_name = ''N'', hn_path = ''/'', hn_ord = 0, hn_other = []\<rparr>,
     \<lparr>hn_name = ''N_S_led'', hn_path = ''/led'', hn_ord = 4, hn_other = [''/* led */'']\<rparr>,
     \<lparr>hn_name = ''N_S_gpio'', hn_path = ''/gpio'', hn_ord = 9, hn_other = []\<rparr>]"

definition demo_led_prop :: Pair where
  "demo_led_prop = Pair R_property [] [Pair R_nodename ''gpios'' [], Pair R_words [] [Pair R_phandle ''&gpio0'' [], Pair R_decimal_number ''5'' []]]"

definition demo_dts :: Pair where
  "demo_dts = Pair R_node [] ([] @ [
     Pair R_node [] ([] @ Pair R_nodename ''led'' [] # [demo_led_prop]),
     Pair R_node [] ([Pair R_label ''gpio0'' []] @ Pair R_nodename ''gpio'' [] # [])])"

lemma demo_ords_get: "btree_get (path_of []) (header_ords demo_board) = Some 0"
  "btree_get (path_of [''led'']) (header_ords demo_board) = Some 4" "btree_get (path_of [''gpio'']) (header_ords demo_board) = Some 9"
  by (simp_all add: header_ords_get demo_board_def path_of_def)

lemma demo_dts_pair: "node_pair (header_ords demo_board) [] demo_dts"
proof -
  have "prop_ok demo_led_prop"
    by (simp add: demo_led_prop_def prop_ok_def value_ok_def word_ok_def number_ok_def to_digit_def Let_def)
  then have "node_pair (header_ords demo_board) ([] @ [''led'']) (Pair R_node [] ([] @ Pair R_nodename ''led'' [] # [demo_led_prop]))"
    by (intro child_pair) (simp_all add: demo_ords_get)
  moreover have "node_pair (header_ords demo_board) ([] @ [''gpio'']) (Pair R_node [] ([Pair R_label ''gpio0'' []] @ Pair R_nodename ''gpio'' [] # []))"
    by (intro child_pair) (simp_all add: demo_ords_get)
  ultimately show ?thesis unfolding demo_dts_def by (intro root_pair) (auto simp: demo_ords_get)
qed

lemma demo_board_ok: "\<forall>h \<in> set demo_board. hnode_ok demo_path_re demo_ord_re h"
  by (simp add: demo_board_def hnode_ok_def re2_prefix)

definition demo_tree :: DeviceTree where
  "demo_tree = \<lparr>dt_root = Node ''/'' ''/'' [] 0 [] []
      [Node ''led'' ''/led'' [''led''] 4 [] [\<lparr>pr_name = ''gpios'', pr_value = [Words [WPhandle (Phandle ''gpio0'' None), Number 5]]\<rparr>] [],
       Node ''gpio'' ''/gpio'' [''gpio''] 9 [''gpio0''] [] []],
     dt_labels = [(''gpio0'', [1])]\<rparr>"

lemma demo_walk: "TreeBuilder_walk (header_ords demo_board) [demo_dts] = Ret demo_tree"
  using demo_ords_get
  by (simp add: TreeBuilder_walk_def demo_dts_def demo_led_prop_def demo_tree_def LazyName_new_def LazyName_set_def LazyName_path_ref_def
      LazyName_into_node_def ord_index_def path_of_def decode_property_def decode_words_def decode_word_def str_slice_def Phandle_new_def
      u32_from_str_radix_def from_str_radix_def to_digit_def Let_def insert_labels_def)

theorem devicetree_pipeline_witness:
  "\<exists>ords root. OrdMap_new demo_path_re demo_ord_re (concat (map hnode_lines demo_board)) = Ret ords \<and>
     DeviceTree_new (\<lambda>_. Some [demo_dts]) ''zephyr.dts'' ords = Ret (demo_tree\<lparr>dt_root := root\<rparr>)"
proof -
  have "has_label (dt_root demo_tree) ''gpio0'' [1]" by (simp add: has_label_def demo_tree_def)
  then have ok: "\<forall>ph \<in> set (tree_phandles (dt_root demo_tree)). \<exists>q. has_label (dt_root demo_tree) (ph_name ph) q"
    by (auto simp: demo_tree_def prop_phandles_def value_phandles_def word_phandles_def)
  from devicetree_pipeline [OF re2_ok_re2 re2_ok_re2 demo_board_ok _ demo_dts_pair,
      of "\<lambda>_. Some [demo_dts]" "''zephyr.dts''" "[]"] ok header_read [OF re2_ok_re2 re2_ok_re2 demo_board_ok] demo_walk
  show ?thesis by auto
qed

end
