(* ===== verification/Dt_Output.thy ===== *)
theory Dt_Output
  imports Dt_Parse
begin

text \<open>
  \<open>zephyr-build/src/devicetree/output.rs\<close>: the Rust modules generated for a devicetree, and the \<open>cfg\<close>
  lines that tell crates which of them exist. Generated code is represented by its items.
\<close>

section \<open>Identifiers\<close>

definition fix_char :: "char \<Rightarrow> char" where
  "fix_char ch = (if ch = CHR ''#'' then CHR ''N'' else if ch \<in> {CHR ''-'', CHR ''@'', CHR '',''} then CHR ''_'' else ch)"

text \<open>The loop of \<open>fix_id\<close> pushes one character for each character.\<close>

fun fix_id_loop :: "string \<Rightarrow> string \<Rightarrow> string" where
  "fix_id_loop [] result = result"
| "fix_id_loop (ch # text) result = fix_id_loop text (result @ [fix_char ch])"

definition fix_id :: "string \<Rightarrow> string" where
  "fix_id text = fix_id_loop text []"

definition is_digit :: "char \<Rightarrow> bool" where
  "is_digit c \<longleftrightarrow> 48 \<le> (of_char c :: nat) \<and> (of_char c :: nat) \<le> 57"

definition is_lower :: "char \<Rightarrow> bool" where
  "is_lower c \<longleftrightarrow> 97 \<le> (of_char c :: nat) \<and> (of_char c :: nat) \<le> 122"

definition is_upper :: "char \<Rightarrow> bool" where
  "is_upper c \<longleftrightarrow> 65 \<le> (of_char c :: nat) \<and> (of_char c :: nat) \<le> 90"

text \<open>\<open>str::to_uppercase\<close> on the names of a devicetree, which are ASCII.\<close>

definition to_upper :: "char \<Rightarrow> char" where
  "to_upper c = (if is_lower c then char_of (of_char c - 32 :: nat) else c)"

text \<open>\<open>format_ident!\<close> panics on a text that is not an identifier.\<close>

definition is_ident :: "string \<Rightarrow> bool" where
  "is_ident s \<longleftrightarrow> s \<noteq> [] \<and> \<not> is_digit (hd s) \<and> list_all (\<lambda>c. is_lower c \<or> is_upper c \<or> is_digit c \<or> c = CHR ''_'') s"

definition format_ident :: "string \<Rightarrow> string outcome" where
  "format_ident s = (if is_ident s then Ret s else Panic ''not a valid Ident'')"

definition dt_to_lower_id :: "string \<Rightarrow> string outcome" where
  "dt_to_lower_id text = format_ident (fix_id text)"

definition dt_to_upper_id :: "string \<Rightarrow> string outcome" where
  "dt_to_upper_id text = format_ident (fix_id (map to_upper text))"

section \<open>Items\<close>

text \<open>Where the generated \<open>get_instance\<close> takes the raw device from.\<close>

datatype target = OwnNode | NodeRoute "string list" | Supers nat

text \<open>
  A module; the constant \<open>ORD\<close>; a numeric constant; the debug text of a property; \<open>pub use route::*\<close>; and the
  items of the augments: the raw device and static of a node, an instance with its arguments, and the
  raw values of a property.
\<close>

datatype Item = Mod string "Item list" | ConstOrd nat | ConstU32 string u32 | ConstDebug string "Value list"
  | UseAll "string list" | RawDevice "string option" nat "string list"
  | GetInstance "string option" "string list" "string list" target "u32 list"
  | RawProperty string "RtValue list"

definition Node_route_to_rust :: "Node \<Rightarrow> string list outcome" where
  "Node_route_to_rust self = map_outcome dt_to_lower_id (nd_route self)"

definition Property_get_single_value :: "Property \<Rightarrow> Value option" where
  "Property_get_single_value self = (if length (pr_value self) = 1 then Some (pr_value self ! 0) else None)"

definition general_property :: "Property \<Rightarrow> Item outcome" where
  "general_property prop =
     bind_outcome (dt_to_upper_id (pr_name prop @ ''_DEBUG'')) (\<lambda>tag. Ret (ConstDebug tag (pr_value prop)))"

definition property_walk :: "Node \<Rightarrow> Property \<Rightarrow> Item outcome" where
  "property_walk root prop = (case Property_get_single_value prop of
     Some (Words [Number n]) \<Rightarrow> bind_outcome (dt_to_upper_id (pr_name prop)) (\<lambda>tag. Ret (ConstU32 tag n))
   | Some (VPhandle ph) \<Rightarrow> bind_outcome (Phandle_node_ref ph) (\<lambda>q. case node_at root q of
        None \<Rightarrow> UB
      | Some t \<Rightarrow> bind_outcome (Node_route_to_rust t) (\<lambda>route.
          bind_outcome (dt_to_lower_id (pr_name prop)) (\<lambda>tag. Ret (Mod tag [UseAll route]))))
   | _ \<Rightarrow> general_property prop)"

text \<open>
  \<open>node_walk\<close> for the node at \<open>pos\<close>; an augment is what it generates for the node at a position. The root
  has no module of its own.
\<close>

fun node_walk :: "(pos \<Rightarrow> Item list outcome) list \<Rightarrow> Node \<Rightarrow> pos \<Rightarrow> string option \<Rightarrow> Node \<Rightarrow> Item list outcome"
and node_walks :: "(pos \<Rightarrow> Item list outcome) list \<Rightarrow> Node \<Rightarrow> pos \<Rightarrow> nat \<Rightarrow> Node list \<Rightarrow> Item list outcome" where
  "node_walk augs root pos name (Node nm pa ro od ls ps cs) =
     bind_outcome (case name of Some name \<Rightarrow> bind_outcome (dt_to_lower_id name) (\<lambda>name_id. Ret (Some name_id)) | None \<Rightarrow> Ret None) (\<lambda>name_id.
     bind_outcome (map_outcome (property_walk root) ps) (\<lambda>props.
     bind_outcome (node_walks augs root pos 0 cs) (\<lambda>children.
     bind_outcome (map_outcome (\<lambda>aug. aug pos) augs) (\<lambda>as.
       case name_id of
         Some name_id \<Rightarrow> Ret [Mod name_id (ConstOrd od # props @ children @ concat as)]
       | None \<Rightarrow> Ret (props @ children @ concat as)))))"
| "node_walks augs root pos i [] = Ret []"
| "node_walks augs root pos i (c # cs) =
     bind_outcome (node_walk augs root (pos @ [i]) (Some (nd_name c)) c) (\<lambda>items.
     bind_outcome (node_walks augs root pos (Suc i) cs) (\<lambda>rest. Ret (items @ rest)))"

definition DeviceTree_to_tokens :: "DeviceTree \<Rightarrow> (pos \<Rightarrow> Item list outcome) list \<Rightarrow> Item list outcome" where
  "DeviceTree_to_tokens self augs = node_walk augs (dt_root self) [] None (dt_root self)"

section \<open>Configuration lines\<close>

definition cfg_line :: "string \<Rightarrow> string" where
  "cfg_line name = ''cargo:rustc-cfg=dt='' @ [CHR 0x22] @ name @ [CHR 0x22]"

definition Property_output_path :: "Property \<Rightarrow> string \<Rightarrow> string list" where
  "Property_output_path self name = (case Property_get_single_value self of
     Some (VPhandle _) \<Rightarrow> [cfg_line (name @ ''::'' @ fix_id (pr_name self))]
   | _ \<Rightarrow> [])"

fun output_path_walk :: "string option \<Rightarrow> Node \<Rightarrow> string list"
and output_path_walks :: "string option \<Rightarrow> Node list \<Rightarrow> string list" where
  "output_path_walk name (Node nm pa ro od ls ps cs) = output_path_walks name cs"
| "output_path_walks name [] = []"
| "output_path_walks name (child # cs) =
     (let fixed_name = fix_id (nd_name child);
          child_name = (case name of Some name \<Rightarrow> name @ ''::'' @ fixed_name | None \<Rightarrow> fixed_name)
      in cfg_line child_name # concat (map (\<lambda>p. Property_output_path p child_name) (nd_props child)) @
         output_path_walk (Some child_name) child @ output_path_walks name cs)"

definition output_node_paths :: "DeviceTree \<Rightarrow> string list" where
  "output_node_paths self = output_path_walk None (dt_root self) @ [cfg_line ''labels''] @
     map (\<lambda>label. cfg_line (''labels::'' @ fix_id label)) (btree_keys (dt_labels self))"

section \<open>Lemmas\<close>

lemma fix_id_loop_map: "fix_id_loop s result = result @ map fix_char s"
  by (induction s result rule: fix_id_loop.induct) auto

lemma fix_id_map: "fix_id text = map fix_char text"
  by (simp add: fix_id_def fix_id_loop_map)

lemma dt_to_lower_id_Ret: "dt_to_lower_id text = Ret s \<Longrightarrow> s = fix_id text"
  by (auto simp: dt_to_lower_id_def format_ident_def split: if_splits)

text \<open>A module path in a list of items.\<close>

fun has_mod :: "Item list \<Rightarrow> string list \<Rightarrow> bool" where
  "has_mod items [] = True"
| "has_mod items (s # ss) = (\<exists>inner. Mod s inner \<in> set items \<and> has_mod inner ss)"

lemma has_mod_mono: "has_mod items ss \<Longrightarrow> set items \<subseteq> set items' \<Longrightarrow> has_mod items' ss"
  by (cases ss) auto

text \<open>Names joined with double colons.\<close>

fun join_path :: "string list \<Rightarrow> string" where
  "join_path [] = []"
| "join_path [s] = s"
| "join_path (s # ss) = s @ ''::'' @ join_path ss"

lemma join_path_snoc: "ss \<noteq> [] \<Longrightarrow> join_path (ss @ [s]) = join_path ss @ ''::'' @ s"
  by (induction ss rule: join_path.induct) auto

lemma join_path_append: "ss \<noteq> [] \<Longrightarrow> ts \<noteq> [] \<Longrightarrow> join_path (ss @ ts) = join_path ss @ ''::'' @ join_path ts"
  by (induction ss rule: join_path.induct) (auto simp: neq_Nil_conv)

text \<open>The lines of a subtree, relative to the module it is in.\<close>

definition prefixed :: "string list \<Rightarrow> string option" where
  "prefixed ss = (if ss = [] then None else Some (join_path ss))"

definition covered :: "string list \<Rightarrow> Item list \<Rightarrow> string list \<Rightarrow> bool" where
  "covered pre items lines \<longleftrightarrow> (\<forall>l \<in> set lines. \<exists>ss. ss \<noteq> [] \<and> l = cfg_line (join_path (pre @ ss)) \<and> has_mod items ss)"

lemma covered_append: "covered pre items (xs @ ys) \<longleftrightarrow> covered pre items xs \<and> covered pre items ys"
  by (auto simp: covered_def)

lemma covered_Cons:
  "covered pre items (l # lines) \<longleftrightarrow>
     (\<exists>ss. ss \<noteq> [] \<and> l = cfg_line (join_path (pre @ ss)) \<and> has_mod items ss) \<and> covered pre items lines"
  by (auto simp: covered_def)

lemma covered_Nil [simp]: "covered pre items []"
  by (simp add: covered_def)

lemma covered_mono: "covered pre items lines \<Longrightarrow> set items \<subseteq> set items' \<Longrightarrow> covered pre items' lines"
  unfolding covered_def using has_mod_mono by meson

lemma covered_inner:
  assumes "covered (pre @ [s]) inner lines" and "Mod s inner \<in> set items"
  shows "covered pre items lines"
  unfolding covered_def
proof
  fix l
  assume "l \<in> set lines"
  then obtain ss where "l = cfg_line (join_path ((pre @ [s]) @ ss))" "has_mod inner ss"
    using assms(1) by (auto simp: covered_def)
  then show "\<exists>ss. ss \<noteq> [] \<and> l = cfg_line (join_path (pre @ ss)) \<and> has_mod items ss"
    using assms(2) by (intro exI [of _ "s # ss"]) auto
qed

lemma map_outcome_mem: "map_outcome f xs = Ret ys \<Longrightarrow> x \<in> set xs \<Longrightarrow> \<exists>y \<in> set ys. f x = Ret y"
  by (induction xs arbitrary: ys) (auto simp: outcome_simps)

lemma property_covered:
  assumes "map_outcome (property_walk root) ps = Ret props" and "pre \<noteq> []"
  shows "covered pre props (concat (map (\<lambda>p. Property_output_path p (join_path pre)) ps))"
  unfolding covered_def
proof
  fix l
  assume "l \<in> set (concat (map (\<lambda>p. Property_output_path p (join_path pre)) ps))"
  then obtain p where p: "p \<in> set ps" "l \<in> set (Property_output_path p (join_path pre))" by auto
  then obtain ph where ph: "Property_get_single_value p = Some (VPhandle ph)" "l = cfg_line (join_path pre @ ''::'' @ fix_id (pr_name p))"
    by (cases "Property_get_single_value p"; cases "the (Property_get_single_value p)") (auto simp: Property_output_path_def)
  obtain item where item: "item \<in> set props" "property_walk root p = Ret item" using map_outcome_mem [OF assms(1) p(1)] by blast
  with ph(1) obtain inner where "item = Mod (fix_id (pr_name p)) inner"
    by (auto simp: property_walk_def outcome_simps split: option.splits) (metis dt_to_lower_id_Ret)
  with item ph(2) join_path_snoc [OF assms(2)] show "\<exists>ss. ss \<noteq> [] \<and> l = cfg_line (join_path (pre @ ss)) \<and> has_mod props ss"
    by (intro exI [of _ "[fix_id (pr_name p)]"]) auto
qed

lemma prefixed_child: "(case prefixed pre of Some name \<Rightarrow> name @ ''::'' @ s | None \<Rightarrow> s) = join_path (pre @ [s])"
  by (auto simp: prefixed_def join_path_snoc)

lemma walk_covered:
  "(node_walk augs root pos name n = Ret items \<Longrightarrow> name = Some (nd_name n) \<Longrightarrow>
      \<exists>inner. items = [Mod (fix_id (nd_name n)) inner] \<and>
        covered (pre @ [fix_id (nd_name n)]) inner
          (concat (map (\<lambda>p. Property_output_path p (join_path (pre @ [fix_id (nd_name n)]))) (nd_props n)) @
           output_path_walk (Some (join_path (pre @ [fix_id (nd_name n)]))) n))"
  "(node_walks augs root pos i cs = Ret items \<Longrightarrow> covered pre items (output_path_walks (prefixed pre) cs))"
proof (induction augs root pos name n and augs root pos i cs arbitrary: items pre and items pre rule: node_walk_node_walks.induct)
  case (1 augs root pos name nm pa ro od ls ps cs)
  then obtain props children as where w: "map_outcome (property_walk root) ps = Ret props"
    "node_walks augs root pos 0 cs = Ret children" "map_outcome (\<lambda>aug. aug pos) augs = Ret as"
    "items = [Mod (fix_id nm) (ConstOrd od # props @ children @ concat as)]"
    by (auto simp: outcome_simps dest: dt_to_lower_id_Ret)
  let ?pre = "pre @ [fix_id nm]" and ?inner = "ConstOrd od # props @ children @ concat as"
  have "covered ?pre children (output_path_walks (prefixed ?pre) cs)" by (rule 1(1) [OF w(2)])
  then have "covered ?pre ?inner (output_path_walks (prefixed ?pre) cs)" by (rule covered_mono) auto
  moreover have "covered ?pre ?inner (concat (map (\<lambda>p. Property_output_path p (join_path ?pre)) ps))"
    using property_covered [OF w(1), of ?pre] by (auto intro: covered_mono)
  ultimately show ?case using w(4) by (simp add: covered_append prefixed_def)
next
  case (2 augs root pos i)
  then show ?case by (simp add: covered_def)
next
  case (3 augs root pos i c cs)
  then obtain head rest where w: "node_walk augs root (pos @ [i]) (Some (nd_name c)) c = Ret head"
    "node_walks augs root pos (Suc i) cs = Ret rest" "items = head @ rest"
    by (auto simp: outcome_simps)
  let ?s = "fix_id (nd_name c)"
  obtain inner where inner: "head = [Mod ?s inner]" "covered (pre @ [?s]) inner
      (concat (map (\<lambda>p. Property_output_path p (join_path (pre @ [?s]))) (nd_props c)) @ output_path_walk (Some (join_path (pre @ [?s]))) c)"
    using 3(1) [OF w(1) refl] by blast
  have m: "Mod ?s inner \<in> set items" using inner(1) w(3) by simp
  have "covered pre items [cfg_line (join_path (pre @ [?s]))]" using m unfolding covered_def by (auto intro!: exI [of _ "[?s]"])
  moreover have "covered pre items (output_path_walks (prefixed pre) cs)"
    by (rule covered_mono [OF 3(2) [OF w(2)]]) (simp add: w(3))
  ultimately show ?case using covered_inner [OF inner(2) m]
    by (simp add: prefixed_child Let_def covered_append covered_Cons)
qed

text \<open>Every line about a node or a phandle names a module that the tree generates.\<close>

lemma tree_paths_exist:
  assumes "DeviceTree_to_tokens dt augs = Ret items"
  shows "covered [] items (output_path_walk None (dt_root dt))"
proof -
  obtain nm pa ro od ls ps cs where root: "dt_root dt = Node nm pa ro od ls ps cs" by (cases "dt_root dt")
  obtain props children as where w: "node_walks augs (dt_root dt) [] 0 cs = Ret children" "items = props @ children @ concat as"
    using assms(1) unfolding DeviceTree_to_tokens_def root by (auto simp: outcome_simps)
  have "covered [] children (output_path_walks (prefixed []) cs)" by (rule walk_covered(2) [OF w(1)])
  then show ?thesis using w(2) root by (auto simp: prefixed_def intro: covered_mono)
qed

section \<open>Properties\<close>

text \<open>The characters of a node name in the grammar.\<close>

definition name_char :: "char \<Rightarrow> bool" where
  "name_char c \<longleftrightarrow> is_lower c \<or> is_upper c \<or> is_digit c \<or> c \<in> set ''_,.?-@#''"

lemma fix_char_ok:
  "name_char c \<Longrightarrow> c \<noteq> CHR ''.'' \<Longrightarrow> c \<noteq> CHR ''?'' \<Longrightarrow>
   is_lower (fix_char c) \<or> is_upper (fix_char c) \<or> is_digit (fix_char c) \<or> fix_char c = CHR ''_''"
  by (auto simp: name_char_def fix_char_def is_lower_def is_upper_def is_digit_def)

lemma fix_char_digit: "is_digit (fix_char c) \<longleftrightarrow> is_digit c"
  by (auto simp: fix_char_def is_digit_def)

lemma fix_char_bad: "c \<in> {CHR ''.'', CHR ''?''} \<Longrightarrow>
   \<not> (is_lower (fix_char c) \<or> is_upper (fix_char c) \<or> is_digit (fix_char c) \<or> fix_char c = CHR ''_'')"
  by (auto simp: fix_char_def is_lower_def is_upper_def is_digit_def)

text \<open>
  Which names of the grammar become Rust identifiers: \<open>dt_to_lower_id\<close> succeeds exactly on names that
  do not start with a digit and contain neither a dot nor a question mark; on the others the build
  panics. Distinct names can become the same identifier.
\<close>

theorem names_to_identifiers:
  assumes "name \<noteq> []" and "list_all name_char name"
  shows "dt_to_lower_id name =
      (if is_digit (hd name) \<or> CHR ''.'' \<in> set name \<or> CHR ''?'' \<in> set name then Panic ''not a valid Ident''
       else Ret (map fix_char name)) \<and>
    fix_id ''a-b'' = fix_id ''a_b''"
proof -
  have "is_ident (fix_id name) \<longleftrightarrow> \<not> (is_digit (hd name) \<or> CHR ''.'' \<in> set name \<or> CHR ''?'' \<in> set name)"
  proof (cases "CHR ''.'' \<in> set name \<or> CHR ''?'' \<in> set name")
    case True
    then obtain c where "c \<in> set name" "c \<in> {CHR ''.'', CHR ''?''}" by auto
    then have "\<not> is_ident (fix_id name)" using fix_char_bad by (auto simp: is_ident_def fix_id_map list_all_iff)
    with True show ?thesis by simp
  next
    case False
    then have "list_all (\<lambda>c. is_lower c \<or> is_upper c \<or> is_digit c \<or> c = CHR ''_'') (map fix_char name)"
      using assms(2) fix_char_ok by (fastforce simp: list_all_iff)
    then show ?thesis using False assms(1) fix_char_digit [of "hd name"] by (simp add: is_ident_def fix_id_map hd_map)
  qed
  then show ?thesis by (simp add: dt_to_lower_id_def format_ident_def fix_id_map fix_char_def)
qed

theorem names_to_identifiers_witness:
  "dt_to_lower_id ''cpu@0'' = Ret ''cpu_0'' \<and> dt_to_lower_id ''v1.2'' = Panic ''not a valid Ident''"
proof -
  have "list_all name_char ''cpu@0''" "list_all name_char ''v1.2''"
    by (simp_all add: name_char_def is_lower_def is_upper_def is_digit_def)
  from names_to_identifiers [OF _ this(1)] names_to_identifiers [OF _ this(2)]
  show ?thesis by (simp add: is_digit_def fix_char_def)
qed

end
