(* ===== verification/Dt_Augment.thy ===== *)
theory Dt_Augment
  imports Dt_Output
begin

text \<open>
  \<open>zephyr-build/src/devicetree/augment.rs\<close>: the rules that select nodes of the devicetree and the items
  that are generated for them. A node is given by its position in the tree; the file of augmentations is
  an argument, as its YAML has been read.
\<close>

section \<open>Rules\<close>

datatype Rule = Or "Rule list" | And "Rule list" | HasProp string | Compatible "string list" nat | Root

fun parent_compatible :: "Node \<Rightarrow> pos \<Rightarrow> string list \<Rightarrow> nat \<Rightarrow> bool" where
  "parent_compatible root p names 0 = (case node_at root p of
     Some node \<Rightarrow> list_ex (\<lambda>n. Node_is_compatible node n) names | None \<Rightarrow> False)"
| "parent_compatible root p names (Suc level) = (case parent_of p of
     Some parent \<Rightarrow> parent_compatible root parent names level | None \<Rightarrow> False)"

fun Rule_is_compatible :: "Node \<Rightarrow> pos \<Rightarrow> Rule \<Rightarrow> bool" where
  "Rule_is_compatible root p (Or rules) = list_ex (\<lambda>n. Rule_is_compatible root p n) rules"
| "Rule_is_compatible root p (And rules) = list_all (\<lambda>n. Rule_is_compatible root p n) rules"
| "Rule_is_compatible root p (HasProp name) = (case node_at root p of
     Some node \<Rightarrow> Node_has_prop node name | None \<Rightarrow> False)"
| "Rule_is_compatible root p (Compatible names level) = parent_compatible root p names level"
| "Rule_is_compatible root p Root = (parent_of p = None)"

section \<open>Instances\<close>

text \<open>\<open>str_to_path\<close>: the parts between double colons, each an identifier.\<close>

fun split_colons :: "string \<Rightarrow> string list" where
  "split_colons [] = [[]]"
| "split_colons [c] = [[c]]"
| "split_colons (c # d # s) =
     (if c = CHR '':'' \<and> d = CHR '':'' then [] # split_colons s
      else (case split_colons (d # s) of [] \<Rightarrow> [[c]] | part # parts \<Rightarrow> (c # part) # parts))"

definition str_to_path :: "string \<Rightarrow> string list outcome" where
  "str_to_path path = map_outcome format_ident (split_colons path)"

datatype ArgInfo = Reg | ChildIdx

definition unwrap_option :: "'a option \<Rightarrow> 'a outcome" where
  "unwrap_option r = expect ''called `Option::unwrap()` on a `None` value'' r"

definition ArgInfo_args :: "Node \<Rightarrow> pos \<Rightarrow> ArgInfo \<Rightarrow> u32 list outcome" where
  "ArgInfo_args root p self = (case node_at root p of
     None \<Rightarrow> UB
   | Some node \<Rightarrow> (case self of
        Reg \<Rightarrow> unwrap_option (Node_get_numbers node ''reg'')
      | ChildIdx \<Rightarrow> bind_outcome (Node_child_index root p) (\<lambda>index. Ret [of_nat index])))"

datatype RawInfo = Myself | Parent nat "ArgInfo list" | PhandleProp string

definition status_okay :: "Node \<Rightarrow> bool" where
  "status_okay node = (Node_get_single_string node ''status'' \<in> {Some ''okay'', Some ''ok'', None})"

text \<open>The loop of \<open>Parent\<close> that walks up to the ancestor.\<close>

fun ancestor_loop :: "nat \<Rightarrow> pos option \<Rightarrow> pos option" where
  "ancestor_loop 0 cur = cur"
| "ancestor_loop (Suc k) cur = ancestor_loop k (Option.bind cur parent_of)"

definition phandle_target :: "DtWord list \<Rightarrow> string \<Rightarrow> pos outcome" where
  "phandle_target words pname = (case words of
     [] \<Rightarrow> Panic ''index out of bounds''
   | WPhandle handle # _ \<Rightarrow> Phandle_node_ref handle
   | Number _ # _ \<Rightarrow> Panic (''phandle property '' @ pname @ '' in node is empty''))"

definition RawInfo_generate ::
  "Node \<Rightarrow> pos \<Rightarrow> RawInfo \<Rightarrow> string \<Rightarrow> string option \<Rightarrow> string option \<Rightarrow> Item list outcome" where
  "RawInfo_generate root p self device static_type cfg_attr =
     bind_outcome (str_to_path device) (\<lambda>device_id.
     bind_outcome (str_to_path (case static_type of Some t \<Rightarrow> t | None \<Rightarrow> ''crate::device::NoStatic'')) (\<lambda>static_type.
     case node_at root p of
       None \<Rightarrow> UB
     | Some node \<Rightarrow> (case self of
         Myself \<Rightarrow>
           if status_okay node
           then Ret [RawDevice cfg_attr (nd_ord node) static_type, GetInstance cfg_attr device_id static_type OwnNode []]
           else Ret []
       | PhandleProp pname \<Rightarrow>
           bind_outcome (unwrap_option (Node_get_words node pname)) (\<lambda>words.
           bind_outcome (phandle_target words pname) (\<lambda>q.
           bind_outcome (map_outcome (\<lambda>n. unwrap_option (Word_as_number n)) (drop 1 words)) (\<lambda>args.
           case node_at root q of
             None \<Rightarrow> UB
           | Some target \<Rightarrow> bind_outcome (Node_route_to_rust target) (\<lambda>target_route.
               Ret [GetInstance cfg_attr device_id static_type (NodeRoute target_route) args]))))
       | Parent level args \<Rightarrow>
           if level = 0 then Panic ''assertion failed: *level > 0''
           else
             (let anc = Option.bind (ancestor_loop (level - 1) (parent_of p)) (node_at root)
              in if (case anc of Some a \<Rightarrow> \<not> status_okay a | None \<Rightarrow> False) then Ret []
                 else bind_outcome (map_outcome (ArgInfo_args root p) args) (\<lambda>get_args.
                   Ret [GetInstance cfg_attr device_id static_type (Supers level) (concat get_args)])))))"

section \<open>Actions\<close>

datatype Action = Instance RawInfo string "string option" | Labels | RawProperties

definition raw_property :: "Node \<Rightarrow> Property \<Rightarrow> Item outcome" where
  "raw_property root prop = bind_outcome (dt_to_upper_id (pr_name prop)) (\<lambda>name.
     Ret (RawProperty (''RAW_'' @ name) (map (Value_to_tokens root) (pr_value prop))))"

definition label_mod :: "Node \<Rightarrow> string \<times> pos \<Rightarrow> Item outcome" where
  "label_mod root kv = bind_outcome (dt_to_lower_id (fst kv)) (\<lambda>name.
     case node_at root (snd kv) of
       None \<Rightarrow> UB
     | Some v \<Rightarrow> bind_outcome (Node_route_to_rust v) (\<lambda>path. Ret (Mod name [UseAll path])))"

definition Action_generate :: "DeviceTree \<Rightarrow> pos \<Rightarrow> string option \<Rightarrow> Action \<Rightarrow> Item list outcome" where
  "Action_generate tree p cfg_attr self = (case self of
     Instance raw device static_type \<Rightarrow> RawInfo_generate (dt_root tree) p raw device static_type cfg_attr
   | RawProperties \<Rightarrow> (case node_at (dt_root tree) p of
        None \<Rightarrow> UB
      | Some node \<Rightarrow> map_outcome (raw_property (dt_root tree)) (nd_props node))
   | Labels \<Rightarrow> bind_outcome (map_outcome (label_mod (dt_root tree)) (dt_labels tree)) (\<lambda>nodes. Ret [Mod ''labels'' nodes]))"

section \<open>Augmentations\<close>

record Augmentation =
  ag_name :: string
  ag_rules :: "Rule list"
  ag_actions :: "Action list"
  ag_cfg :: "string option"

definition Augmentation_is_compatible :: "Augmentation \<Rightarrow> Node \<Rightarrow> pos \<Rightarrow> bool" where
  "Augmentation_is_compatible self root p = list_all (\<lambda>n. Rule_is_compatible root p n) (ag_rules self)"

definition cfg_ident :: "string option \<Rightarrow> string option outcome" where
  "cfg_ident cfg = (case cfg of
     None \<Rightarrow> Ret None | Some cfg_name \<Rightarrow> bind_outcome (format_ident cfg_name) (\<lambda>cfg_id. Ret (Some cfg_id)))"

definition Augmentation_generate :: "Augmentation \<Rightarrow> DeviceTree \<Rightarrow> pos \<Rightarrow> Item list outcome" where
  "Augmentation_generate self tree p =
     bind_outcome (dt_to_lower_id (ag_name self)) (\<lambda>name.
     bind_outcome (cfg_ident (ag_cfg self)) (\<lambda>cfg_attr.
     bind_outcome (map_outcome (Action_generate tree p cfg_attr) (ag_actions self)) (\<lambda>actions. Ret (concat actions))))"

definition Augmentation_augment :: "DeviceTree \<Rightarrow> Augmentation \<Rightarrow> pos \<Rightarrow> Item list outcome" where
  "Augmentation_augment tree self p =
     (if Augmentation_is_compatible self (dt_root tree) p then Augmentation_generate self tree p else Ret [])"

section \<open>Lemmas\<close>

lemma ancestor_butlast: "p \<noteq> [] \<Longrightarrow> ancestor root (butlast p) k = ancestor root p (Suc k)"
  by (simp add: ancestor_def butlast_conv_take min_def)

lemma ancestor_0: "node_at root p = Some n \<Longrightarrow> ancestor root p 0 = n"
  by (simp add: ancestor_def)

lemma node_at_butlast: "node_at root p \<noteq> None \<Longrightarrow> node_at root (butlast p) \<noteq> None"
  using node_at_take [of root p "length p - 1"] by (simp add: butlast_conv_take)

lemma parent_compatible_ancestor:
  "node_at root p \<noteq> None \<Longrightarrow>
   parent_compatible root p names level \<longleftrightarrow> level \<le> length p \<and> list_ex (Node_is_compatible (ancestor root p level)) names"
proof (induction root p names level rule: parent_compatible.induct)
  case (1 root p names)
  then obtain n where "node_at root p = Some n" by auto
  then show ?case by (simp add: ancestor_0)
next
  case (2 root p names level)
  show ?case
  proof (cases "p = []")
    case False
    then have "parent_of p = Some (butlast p)" by (simp add: parent_of_def)
    moreover have "level \<le> length (butlast p) \<longleftrightarrow> Suc level \<le> length p" using False by (cases p) auto
    ultimately show ?thesis using 2 node_at_butlast [OF 2(2)] ancestor_butlast [OF False] by (simp del: length_butlast)
  qed (simp add: parent_of_def)
qed

lemma ancestor_loop_take:
  "k < length p \<Longrightarrow> ancestor_loop k (parent_of p) = Some (take (length p - Suc k) p)"
proof (induction k arbitrary: p)
  case 0
  then show ?case by (auto simp: parent_of_def butlast_conv_take)
next
  case (Suc k)
  then have "parent_of p = Some (butlast p)" by (auto simp: parent_of_def)
  moreover have "k < length (butlast p)" using Suc(2) by simp
  ultimately show ?case using Suc(1) [of "butlast p"] by (simp add: butlast_conv_take min_def)
qed

lemma ancestor_loop_node:
  assumes "node_at root p \<noteq> None" and "0 < level" and "level \<le> length p"
  shows "Option.bind (ancestor_loop (level - 1) (parent_of p)) (node_at root) = Some (ancestor root p level)"
proof -
  obtain k where k: "level = Suc k" using assms(2) by (cases level) auto
  obtain n where "node_at root (take (length p - level) p) = Some n" using node_at_take [OF assms(1)] by blast
  then show ?thesis using ancestor_loop_take [of k p] assms(3) k by (simp add: ancestor_def)
qed

lemma map_outcome_numbers: "map_outcome (\<lambda>n. unwrap_option (Word_as_number n)) (map Number args) = Ret args"
  by (induction args) (auto simp: unwrap_option_def Word_as_number_def)

text \<open>The items of an augmentation that matches the root are items of the generated tree.\<close>

lemma root_augment_items:
  assumes "DeviceTree_to_tokens dt augs = Ret items" and "aug \<in> set augs"
  shows "\<exists>new. aug [] = Ret new \<and> set new \<subseteq> set items"
proof -
  obtain nm pa ro od ls ps cs where root: "dt_root dt = Node nm pa ro od ls ps cs" by (cases "dt_root dt")
  obtain props children as where w: "map_outcome (\<lambda>aug. aug []) augs = Ret as" "items = props @ children @ concat as"
    using assms(1) unfolding DeviceTree_to_tokens_def root by (auto simp: outcome_simps)
  obtain y where "y \<in> set as" "aug [] = Ret y" using map_outcome_mem [OF w(1) assms(2)] by blast
  with w(2) show ?thesis by auto
qed

lemma label_mods:
  assumes "map_outcome (label_mod root) labels = Ret nodes" and "label \<in> set (btree_keys labels)"
  shows "\<exists>inner. Mod (fix_id label) inner \<in> set nodes"
proof -
  obtain kv where kv: "kv \<in> set labels" "fst kv = label" using assms(2) by (auto simp: btree_keys_def)
  obtain item where "item \<in> set nodes" "label_mod root kv = Ret item" using map_outcome_mem [OF assms(1) kv(1)] by blast
  moreover have "\<exists>inner. item = Mod (fix_id label) inner"
    using calculation(2) dt_to_lower_id_Ret [of label] kv(2)
    by (auto simp: label_mod_def outcome_simps split: option.splits)
  ultimately show ?thesis by blast
qed

text \<open>The lines about labels, if the labels are generated.\<close>

lemma labels_covered:
  assumes "map_outcome (label_mod root) labels = Ret nodes" and "Mod ''labels'' nodes \<in> set items"
  shows "covered [] items (cfg_line ''labels'' # map (\<lambda>label. cfg_line (''labels::'' @ fix_id label)) (btree_keys labels))"
  unfolding covered_Cons
proof
  show "\<exists>ss. ss \<noteq> [] \<and> cfg_line ''labels'' = cfg_line (join_path ([] @ ss)) \<and> has_mod items ss"
    using assms(2) by (intro exI [of _ "[''labels'']"]) auto
  show "covered [] items (map (\<lambda>label. cfg_line (''labels::'' @ fix_id label)) (btree_keys labels))"
    unfolding covered_def
  proof
    fix l
    assume "l \<in> set (map (\<lambda>label. cfg_line (''labels::'' @ fix_id label)) (btree_keys labels))"
    then obtain label where l: "label \<in> set (btree_keys labels)" "l = cfg_line (''labels::'' @ fix_id label)" by auto
    with label_mods [OF assms(1)] assms(2)
    show "\<exists>ss. ss \<noteq> [] \<and> l = cfg_line (join_path ([] @ ss)) \<and> has_mod items ss"
      by (intro exI [of _ "[''labels'', fix_id label]"]) auto
  qed
qed

text \<open>All lines, with an augmentation that generates the labels.\<close>

lemma cfg_lines_covered:
  assumes "DeviceTree_to_tokens dt (map (Augmentation_augment dt) augs) = Ret items"
    and "aug \<in> set augs" and "ag_rules aug = [Root]" and "Labels \<in> set (ag_actions aug)"
    and "line \<in> set (output_node_paths dt)"
  shows "\<exists>ss. ss \<noteq> [] \<and> line = cfg_line (join_path ss) \<and> has_mod items ss"
proof -
  let ?aug = "Augmentation_augment dt aug"
  have "?aug \<in> set (map (Augmentation_augment dt) augs)" using assms(2) by simp
  then obtain new where new: "?aug [] = Ret new" "set new \<subseteq> set items" using root_augment_items [OF assms(1)] by blast
  have "Augmentation_is_compatible aug (dt_root dt) []" using assms(3) by (simp add: Augmentation_is_compatible_def parent_of_def)
  then obtain cfg actions where a: "map_outcome (Action_generate dt [] cfg) (ag_actions aug) = Ret actions" "new = concat actions"
    using new(1) by (auto simp: Augmentation_augment_def Augmentation_generate_def outcome_simps)
  obtain ys where ys: "ys \<in> set actions" "Action_generate dt [] cfg Labels = Ret ys" using map_outcome_mem [OF a(1) assms(4)] by blast
  then obtain nodes where nodes: "map_outcome (label_mod (dt_root dt)) (dt_labels dt) = Ret nodes" "ys = [Mod ''labels'' nodes]"
    by (auto simp: Action_generate_def outcome_simps)
  have "Mod ''labels'' nodes \<in> set items" using nodes(2) ys(1) a(2) new(2) by fastforce
  from labels_covered [OF nodes(1) this] tree_paths_exist [OF assms(1)] assms(5)
  show ?thesis by (auto simp: covered_def output_node_paths_def)
qed

section \<open>Properties\<close>

text \<open>A root with a node that has a child and a phandle property, and the labels.\<close>

definition demo_dt :: DeviceTree where
  "demo_dt = \<lparr>dt_root = Node ''/'' ''/'' [] 0 [] []
       [Node ''soc'' ''/soc'' [''soc''] 1 [] [\<lparr>pr_name = ''bus-link'', pr_value = [VPhandle (Phandle ''u'' (Some [0, 0]))]\<rparr>]
         [Node ''uart@40'' ''/soc/uart@40'' [''soc'', ''uart@40''] 2 [''u''] [] []]],
     dt_labels = [(''u'', [0, 0])]\<rparr>"

definition demo_labels :: Augmentation where
  "demo_labels = \<lparr>ag_name = ''labels'', ag_rules = [Root], ag_actions = [Labels], ag_cfg = None\<rparr>"

lemmas demo_eval = demo_dt_def demo_labels_def DeviceTree_to_tokens_def property_walk_def Property_get_single_value_def
  Phandle_node_ref_def Node_route_to_rust_def dt_to_lower_id_def format_ident_def fix_id_map fix_char_def is_ident_def
  is_digit_def is_lower_def is_upper_def Augmentation_augment_def Augmentation_is_compatible_def Augmentation_generate_def
  cfg_ident_def Action_generate_def label_mod_def parent_of_def

text \<open>
  \<open>Compatible\<close> looks exactly \<open>level\<close> levels up: the rule matches a node if there is an ancestor at that
  level and one of the names is among its compatible strings; above the root it never matches.
\<close>

theorem Compatible_levels:
  assumes "node_at root p \<noteq> None"
  shows "Rule_is_compatible root p (Compatible names level) \<longleftrightarrow>
     level \<le> length p \<and> (\<exists>name \<in> set names. Node_is_compatible (ancestor root p level) name)"
  using parent_compatible_ancestor [OF assms] by (simp add: list_ex_iff)

theorem Compatible_levels_witness:
  "\<not> Rule_is_compatible (dt_root demo_dt) [0, 0] (Compatible [''gpio-leds''] 3) \<and> 2 \<le> length [0 :: nat, 0]"
proof -
  have "node_at (dt_root demo_dt) [0, 0] \<noteq> None" by (simp add: demo_dt_def)
  from Compatible_levels [OF this] show ?thesis by simp
qed

text \<open>
  Which devices get an instance: a node's own instance and raw device are generated if and only if
  its status is okay; an instance on an ancestor if and only if the ancestor's status is okay, so that it
  never calls a function that was not generated; an instance on a phandle's target is generated whatever
  the status of the target.
\<close>

theorem instances_follow_status:
  assumes "node_at root p = Some node" and "str_to_path device = Ret dev" and "str_to_path static = Ret st"
  shows "RawInfo_generate root p Myself device (Some static) cfg =
      Ret (if status_okay node then [RawDevice cfg (nd_ord node) st, GetInstance cfg dev st OwnNode []] else []) \<and>
    (0 < level \<and> level \<le> length p \<and> map_outcome (ArgInfo_args root p) args = Ret vs \<longrightarrow>
      RawInfo_generate root p (Parent level args) device (Some static) cfg =
        Ret (if status_okay (ancestor root p level) then [GetInstance cfg dev st (Supers level) (concat vs)] else [])) \<and>
    (Node_get_words node pname = Some (WPhandle ph # map Number ns) \<and> ph_node ph = Some q \<and>
        node_at root q = Some target \<and> Node_route_to_rust target = Ret route \<longrightarrow>
      RawInfo_generate root p (PhandleProp pname) device (Some static) cfg = Ret [GetInstance cfg dev st (NodeRoute route) ns])"
proof (intro conjI impI; (elim conjE)?)
  show "RawInfo_generate root p Myself device (Some static) cfg =
      Ret (if status_okay node then [RawDevice cfg (nd_ord node) st, GetInstance cfg dev st OwnNode []] else [])"
    using assms by (simp add: RawInfo_generate_def)
next
  assume "0 < level" and "level \<le> length p" and "map_outcome (ArgInfo_args root p) args = Ret vs"
  then show "RawInfo_generate root p (Parent level args) device (Some static) cfg =
        Ret (if status_okay (ancestor root p level) then [GetInstance cfg dev st (Supers level) (concat vs)] else [])"
    using assms ancestor_loop_node [of root p level] by (simp add: RawInfo_generate_def)
next
  assume "Node_get_words node pname = Some (WPhandle ph # map Number ns)" and "ph_node ph = Some q"
    and "node_at root q = Some target" and "Node_route_to_rust target = Ret route"
  then show "RawInfo_generate root p (PhandleProp pname) device (Some static) cfg =
        Ret [GetInstance cfg dev st (NodeRoute route) ns]"
    using assms map_outcome_numbers
    by (simp add: RawInfo_generate_def unwrap_option_def phandle_target_def Phandle_node_ref_def)
qed

text \<open>A key on a GPIO controller that is disabled.\<close>

definition demo_disabled :: Node where
  "demo_disabled = Node ''/'' ''/'' [] 0 [] []
     [Node ''gpio'' ''/gpio'' [''gpio''] 1 [''g''] [\<lparr>pr_name = ''status'', pr_value = [VString ''disabled'']\<rparr>]
        [Node ''hog'' ''/gpio/hog'' [''gpio'', ''hog''] 3 [] [] []],
      Node ''key'' ''/key'' [''key''] 2 []
        [\<lparr>pr_name = ''gpios'', pr_value = [Words [WPhandle (Phandle ''g'' (Some [0])), Number 13, Number 1]]\<rparr>] []]"

lemmas demo_disabled_eval = demo_disabled_def str_to_path_def format_ident_def is_ident_def is_digit_def is_lower_def is_upper_def
  status_okay_def Node_get_single_string_def Node_get_property_def Node_get_words_def Node_route_to_rust_def
  dt_to_lower_id_def fix_id_map fix_char_def ancestor_def

theorem instances_follow_status_witness:
  "RawInfo_generate demo_disabled [0] Myself ''Gpio'' (Some ''S'') None = Ret [] \<and>
   RawInfo_generate demo_disabled [0, 0] (Parent 1 []) ''Gpio'' (Some ''S'') None = Ret [] \<and>
   RawInfo_generate demo_disabled [1] (PhandleProp ''gpios'') ''Pin'' (Some ''S'') None =
     Ret [GetInstance None [''Pin''] [''S''] (NodeRoute [''gpio'']) [13, 1]]"
proof (intro conjI)
  let ?gpio = "the (node_at demo_disabled [0])" and ?key = "the (node_at demo_disabled [1])"
    and ?hog = "the (node_at demo_disabled [0, 0])"
  have n: "node_at demo_disabled [0] = Some ?gpio" "node_at demo_disabled [1] = Some ?key"
    "node_at demo_disabled [0, 0] = Some ?hog" by (simp_all add: demo_disabled_def)
  have s: "str_to_path ''Gpio'' = Ret [''Gpio'']" "str_to_path ''Pin'' = Ret [''Pin'']" "str_to_path ''S'' = Ret [''S'']"
    by (simp_all add: demo_disabled_eval)
  have off: "\<not> status_okay ?gpio" "ancestor demo_disabled [0, 0] 1 = ?gpio" by (simp_all add: demo_disabled_eval)
  show "RawInfo_generate demo_disabled [0] Myself ''Gpio'' (Some ''S'') None = Ret []"
    using instances_follow_status [OF n(1) s(1,3)] off by simp
  show "RawInfo_generate demo_disabled [0, 0] (Parent 1 []) ''Gpio'' (Some ''S'') None = Ret []"
    using instances_follow_status [OF n(3) s(1,3), of None 1 "[]" "[]"] off by simp
  have "Node_get_words ?key ''gpios'' = Some (WPhandle (Phandle ''g'' (Some [0])) # map Number [13, 1])"
    "Node_route_to_rust ?gpio = Ret [''gpio'']" by (simp_all add: demo_disabled_eval)
  then show "RawInfo_generate demo_disabled [1] (PhandleProp ''gpios'') ''Pin'' (Some ''S'') None =
     Ret [GetInstance None [''Pin''] [''S''] (NodeRoute [''gpio'']) [13, 1]]"
    using instances_follow_status [OF n(2) s(2,3)] n(1) by (metis Phandle.sel(2))
qed

end
