(* ===== verification/Build.thy ===== *)
theory Build
  imports Dt_Build Dt_Augment
begin

text \<open>
  \<open>zephyr-build/src/lib.rs\<close>: the entry points that build scripts call. The environment, the file system and
  the regular expressions are parameters. \<open>build_dts\<close> generates the module tree for the \<open>zephyr\<close> crate, and
  \<open>dt_cfgs\<close> announces its modules to the crates of an application; both read the same files.
\<close>

section \<open>The environment of a build script\<close>

record build_env =
  be_var :: "string \<Rightarrow> string option"
  be_file :: "string \<Rightarrow> string option"
  be_create :: "string \<Rightarrow> bool"
  be_lines :: "string \<Rightarrow> string list"
  be_path_re :: regex2
  be_ord_re :: regex2
  be_dts_parse :: "string \<Rightarrow> Pair list option"
  be_load_augments :: "string \<Rightarrow> Augmentation list option"

section \<open>The devicetree\<close>

text \<open>\<open>DeviceTree::new\<close> on the names of its two files.\<close>

definition DeviceTree_from_files :: "build_env \<Rightarrow> string \<Rightarrow> string \<Rightarrow> DeviceTree outcome" where
  "DeviceTree_from_files E dts_path dt_gen =
     bind_outcome (expect ''Opening devicetree_generated.h'' (be_file E dt_gen)) (\<lambda>fd.
     bind_outcome (OrdMap_new (be_path_re E) (be_ord_re E) (be_lines E fd)) (\<lambda>ords.
     bind_outcome (expect ''Reading zephyr.dts file'' (be_file E dts_path)) (\<lambda>dts.
       DeviceTree_new (be_dts_parse E) dts ords)))"

definition import_dt :: "build_env \<Rightarrow> DeviceTree outcome" where
  "import_dt E =
     bind_outcome (expect ''ZEPHYR_DTS must be set'' (be_var E ''ZEPHYR_DTS'')) (\<lambda>zephyr_dts.
     bind_outcome (expect ''BINARY_DIR_INCLUDE_GENERATED must be set'' (be_var E ''BINARY_DIR_INCLUDE_GENERATED'')) (\<lambda>gen_include.
       DeviceTree_from_files E zephyr_dts (gen_include @ ''/devicetree_generated.h'')))"

text \<open>\<open>str::split_whitespace\<close> on ASCII text: the parts between blanks, none empty.\<close>

definition is_white :: "char \<Rightarrow> bool" where
  "is_white c \<longleftrightarrow> (of_char c :: nat) \<in> {9, 10, 11, 12, 13, 32}"

fun split_white :: "string \<Rightarrow> string \<Rightarrow> string list" where
  "split_white [] part = (if part = [] then [] else [part])"
| "split_white (c # s) part =
     (if is_white c then (if part = [] then split_white s [] else part # split_white s [])
      else split_white s (part @ [c]))"

definition split_whitespace :: "string \<Rightarrow> string list" where
  "split_whitespace s = split_white s []"

text \<open>\<open>build_dts\<close>: the lines it prints for cargo, the file it writes and the items it writes to it.\<close>

definition build_dts :: "build_env \<Rightarrow> (string list \<times> string \<times> Item list) outcome" where
  "build_dts E =
     bind_outcome (import_dt E) (\<lambda>dt.
     bind_outcome (expect ''OUT_DIR must be set'' (be_var E ''OUT_DIR'')) (\<lambda>outdir.
     bind_outcome (if be_create E (outdir @ ''/devicetree.rs'') then Ret () else Panic ''Unable to create devicetree.rs'') (\<lambda>_.
     bind_outcome (expect ''DT_AUGMENTS must be set'' (be_var E ''DT_AUGMENTS'')) (\<lambda>augments.
     bind_outcome (map_outcome (\<lambda>aug. expect ''Loading augment file'' (be_load_augments E aug)) (split_whitespace augments)) (\<lambda>augs.
     bind_outcome (DeviceTree_to_tokens dt (map (Augmentation_augment dt) (concat augs))) (\<lambda>tokens.
       Ret (''cargo:rerun-if-env-changed=DT_AUGMENTS'' # map (\<lambda>name. ''cargo:rerun-if-changed='' @ name) (split_whitespace augments),
         outdir @ ''/devicetree.rs'', tokens)))))))"

definition dt_cfgs :: "build_env \<Rightarrow> string list outcome" where
  "dt_cfgs E = bind_outcome (import_dt E) (\<lambda>dt. Ret (output_node_paths dt))"

section \<open>Routes of parsed trees\<close>

text \<open>Every node below \<open>n\<close> has as its route that of \<open>n\<close> and the names from there.\<close>

definition route_ok :: "string list \<Rightarrow> Node \<Rightarrow> bool" where
  "route_ok route n \<longleftrightarrow> (\<forall>q m. node_at n q = Some m \<longrightarrow> nd_route m = route @ names_along n q)"

lemma route_ok_Node:
  assumes "\<forall>c \<in> set cs. route_ok (route @ [nd_name c]) c"
  shows "route_ok route (Node nm pa route od ls ps cs)"
  unfolding route_ok_def
proof (intro allI impI)
  fix q m
  assume m: "node_at (Node nm pa route od ls ps cs) q = Some m"
  show "nd_route m = route @ names_along (Node nm pa route od ls ps cs) q"
    using m assms by (cases q) (auto simp: route_ok_def split: if_splits)
qed

text \<open>The name of a node while it is walked: set at most once, and before any child.\<close>

definition name_ok :: "LazyName \<Rightarrow> Node list \<Rightarrow> bool" where
  "name_ok name cs \<longleftrightarrow> (case lz_info name of
     None \<Rightarrow> lz_path name \<noteq> [] \<and> cs = []
   | Some info \<Rightarrow> in_path info \<noteq> [] \<and> (\<forall>c \<in> set cs. route_ok (lz_route name @ [nd_name c]) c))"

lemma LazyName_set_ok:
  assumes "LazyName_set ords name str = Ret name'" and "name_ok name cs"
  shows "lz_info name = None" and "name_ok name' cs"
    and "\<exists>info. lz_info name' = Some info \<and> lz_route name' = lz_route name @ [in_name info]"
  using assms by (auto simp: LazyName_set_def name_ok_def Let_def outcome_simps split: if_splits option.splits)

lemma walk_routes:
  "walk_node ords pair path route pos lm = Ret (n, lm') \<Longrightarrow> route_ok (if path = [] then route else route @ [nd_name n]) n"
  "walk_inner ords ps pos name labels props cs lm = Ret (name', labels', props', cs', lm'') \<Longrightarrow> name_ok name cs \<Longrightarrow>
   name_ok name' cs' \<and> (if lz_info name = None then lz_info name' = None \<or>
       (\<exists>info. lz_info name' = Some info \<and> lz_route name' = lz_route name @ [in_name info]) else name' = name)"
proof (induction ords pair path route pos lm and ords ps pos name labels props cs lm
    arbitrary: n lm' and name' labels' props' cs' lm'' rule: walk_node_walk_inner.induct)
  case one: (1 ords r str inner path route pos lm)
  obtain name name' labels props cs lm1 where w: "LazyName_new ords path route = Ret name"
    "walk_inner ords inner pos name [] [] [] lm = Ret (name', labels, props, cs, lm1)"
    "LazyName_into_node name' labels props cs = Ret n"
    using one.prems by (auto simp: outcome_simps)
  have "name_ok name []" "lz_route name = route" "lz_info name = None \<longleftrightarrow> path \<noteq> []"
    using w(1) by (auto simp: LazyName_new_def name_ok_def outcome_simps split: if_splits)
  with one.IH [OF w(2)] w(3) show ?case
    by (auto simp: LazyName_into_node_def name_ok_def outcome_simps intro!: route_ok_Node split: if_splits)
next
  case three: (3 ords pair ps pos name labels props cs lm)
  show ?case
  proof (cases "as_rule pair")
    case R_nodename
    then obtain nm where nm: "LazyName_set ords name (as_str pair) = Ret nm"
      "walk_inner ords ps pos nm labels props cs lm = Ret (name', labels', props', cs', lm'')"
      using three.prems(1) by (auto simp: outcome_simps)
    from three.IH(3) [OF R_nodename nm(2)] LazyName_set_ok [OF nm(1) three.prems(2)] show ?thesis by auto
  next
    case R_node
    then obtain info c lm1 where c: "lz_info name = Some info"
      "walk_node ords pair (in_path info) (lz_route name) (pos @ [length cs]) lm = Ret (c, lm1)"
      "walk_inner ords ps pos name labels props (cs @ [c]) lm1 = Ret (name', labels', props', cs', lm'')"
      using three.prems(1) by (auto simp: outcome_simps LazyName_path_ref_def)
    have "route_ok (lz_route name @ [nd_name c]) c"
      using three.IH(1) [OF R_node c(2)] c(1) three.prems(2) by (simp add: LazyName_path_ref_def name_ok_def)
    then have "name_ok name (cs @ [c])" using three.prems(2) c(1) by (auto simp: name_ok_def)
    from three.IH(2) [OF R_node c(3) this] c(1) show ?thesis by auto
  next
    case R_property
    then obtain p where "walk_inner ords ps pos name labels (props @ [p]) cs lm = Ret (name', labels', props', cs', lm'')"
      using three.prems(1) by (auto simp: outcome_simps)
    from three.IH(5) [OF R_property this three.prems(2)] show ?thesis .
  qed (use three in \<open>auto simp: outcome_simps\<close>)
qed auto

lemma import_dt_routes:
  assumes "DeviceTree_new dts_parse dts ords = Ret dt"
  shows "route_ok [] (dt_root dt)"
proof -
  obtain pairs dt0 where p: "TreeBuilder_walk ords pairs = Ret dt0" "DeviceTree_link dt0 = Ret dt"
    using assms by (auto simp: DeviceTree_new_def parse_def outcome_simps)
  then obtain pair rest where "pairs = pair # rest" by (cases pairs) (auto simp: TreeBuilder_walk_def)
  with p obtain root labels where w: "walk_node ords pair [] [] [] [] = Ret (root, labels)"
    "DeviceTree_link \<lparr>dt_root = root, dt_labels = labels\<rparr> = Ret dt"
    by (auto simp: TreeBuilder_walk_def outcome_simps split: if_splits)
  then have "dt_root dt = map_tree (resolved labels) root"
    using node_walks [of labels root] by (auto simp: DeviceTree_link_def walks_def outcome_simps split: if_splits)
  with walk_routes(1) [OF w(1)] show ?thesis
    by (auto simp: route_ok_def node_at_map_tree names_along_map_tree)
qed

section \<open>Paths in the generated code\<close>

text \<open>
  The modules that the code in the module \<open>here\<close> refers to: the globs it re-exports, and the modules whose
  device its instances take. A path of \<open>super\<close>s is resolved from the module it stands in, and is \<open>None\<close> if it
  leaves the tree.
\<close>

definition supers :: "string list \<Rightarrow> nat \<Rightarrow> string list option" where
  "supers here level = (if level \<le> length here then Some (take (length here - level) here) else None)"

fun item_uses :: "string list \<Rightarrow> Item \<Rightarrow> string list option list" where
  "item_uses here (Mod name items) = concat (map (item_uses (here @ [name])) items)"
| "item_uses here (UseAll route) = [Some route]"
| "item_uses here (GetInstance cfg device static OwnNode args) = [Some here]"
| "item_uses here (GetInstance cfg device static (NodeRoute route) args) = [Some route]"
| "item_uses here (GetInstance cfg device static (Supers level) args) = [supers here level]"
| "item_uses here item = []"

text \<open>The module of the node at a position, and references to the module of some node.\<close>

definition mod_at :: "Node \<Rightarrow> pos \<Rightarrow> string list" where
  "mod_at root p = map fix_id (names_along root p)"

definition node_use :: "Node \<Rightarrow> string list option \<Rightarrow> bool" where
  "node_use root u \<longleftrightarrow> (\<exists>q. node_at root q \<noteq> None \<and> u = Some (mod_at root q))"

text \<open>The augmentations that a build loads, and those that ask for an ancestor above the root at a node they match.\<close>

definition loaded :: "build_env \<Rightarrow> string \<Rightarrow> Augmentation set" where
  "loaded E names = {ag. \<exists>file augs. file \<in> set (split_whitespace names) \<and> be_load_augments E file = Some augs \<and> ag \<in> set augs}"

definition above_root :: "Node \<Rightarrow> Augmentation \<Rightarrow> bool" where
  "above_root root ag \<longleftrightarrow> (\<exists>p level args device st. node_at root p \<noteq> None \<and> Augmentation_is_compatible ag root p \<and>
     Instance (Parent level args) device st \<in> set (ag_actions ag) \<and> length p < level)"

text \<open>
  What keeps an augmentation in the tree: with \<open>Parent level\<close> it has a rule on an ancestor at least as high, or
  one level below with a compatible string that the root does not have. Those of \<open>dt-rust.yaml\<close> are of these
  two forms.
\<close>

definition parent_guarded :: "Node \<Rightarrow> Augmentation \<Rightarrow> bool" where
  "parent_guarded root ag \<longleftrightarrow> (\<forall>level args device st. Instance (Parent level args) device st \<in> set (ag_actions ag) \<longrightarrow>
     (\<exists>names k. Compatible names k \<in> set (ag_rules ag) \<and>
        (level \<le> k \<or> level = Suc k \<and> (\<forall>name \<in> set names. \<not> Node_is_compatible root name))))"

lemma guarded_below_root:
  assumes "parent_guarded root ag"
  shows "\<not> above_root root ag"
proof
  assume "above_root root ag"
  then obtain p level args device st where a: "node_at root p \<noteq> None" "Augmentation_is_compatible ag root p"
    "Instance (Parent level args) device st \<in> set (ag_actions ag)" "length p < level" unfolding above_root_def by blast
  obtain names k where k: "Compatible names k \<in> set (ag_rules ag)"
    "level \<le> k \<or> level = Suc k \<and> (\<forall>name \<in> set names. \<not> Node_is_compatible root name)"
    using assms a(3) unfolding parent_guarded_def by blast
  have "parent_compatible root p names k" using a(2) k(1) by (auto simp: Augmentation_is_compatible_def list_all_iff)
  then have c: "k \<le> length p" "list_ex (Node_is_compatible (ancestor root p k)) names"
    using parent_compatible_ancestor [OF a(1)] by blast+
  then have "level = Suc k" "k = length p" using k(2) a(4) by auto
  then have "ancestor root p k = root" by (simp add: ancestor_def)
  with c(2) k(2) \<open>level = Suc k\<close> show False by (auto simp: list_ex_iff)
qed

text \<open>Modules of nodes along a position.\<close>

lemma names_along_length: "length (names_along n p) = length p"
  by (induction n p rule: names_along.induct) auto

lemma names_along_take: "names_along n (take k p) = take k (names_along n p)"
  by (induction n p arbitrary: k rule: names_along.induct) (auto simp: take_Cons')

lemma names_along_snoc:
  "node_at n p = Some m \<Longrightarrow> names_along n (p @ [i]) = names_along n p @ [nd_name (nd_children m ! i)]"
  by (induction n p rule: names_along.induct) (auto split: if_splits)

lemma mod_at_length: "length (mod_at root p) = length p"
  by (simp add: mod_at_def names_along_length)

lemma supers_use:
  assumes "node_at root p \<noteq> None"
  shows "supers (mod_at root p) level = None \<and> length p < level \<or> node_use root (supers (mod_at root p) level)"
proof (cases "level \<le> length p")
  case True
  then have "supers (mod_at root p) level = Some (mod_at root (take (length p - level) p))"
    by (simp add: supers_def mod_at_length) (simp add: mod_at_def names_along_take take_map)
  then show ?thesis using node_at_take [OF assms, of "length p - level"] unfolding node_use_def by blast
qed (simp add: supers_def mod_at_length)

lemma Node_route_to_rust_Ret: "Node_route_to_rust n = Ret r \<Longrightarrow> r = map fix_id (nd_route n)"
proof -
  have "map_outcome dt_to_lower_id xs = Ret ys \<Longrightarrow> ys = map fix_id xs" for xs ys
    by (induction xs arbitrary: ys) (auto simp: outcome_simps dest: dt_to_lower_id_Ret)
  then show "Node_route_to_rust n = Ret r \<Longrightarrow> r = map fix_id (nd_route n)" by (simp add: Node_route_to_rust_def)
qed

lemma map_outcome_from: "map_outcome f xs = Ret ys \<Longrightarrow> y \<in> set ys \<Longrightarrow> \<exists>x \<in> set xs. f x = Ret y"
  by (induction xs arbitrary: ys) (auto simp: outcome_simps)

lemma route_use:
  assumes "route_ok [] root" and "node_at root q = Some t" and "Node_route_to_rust t = Ret r"
  shows "node_use root (Some r)"
proof -
  have "r = mod_at root q" using assms Node_route_to_rust_Ret [OF assms(3)] by (simp add: route_ok_def mod_at_def)
  then show ?thesis using assms(2) by (auto simp: node_use_def)
qed

lemma property_uses:
  assumes "route_ok [] root" and "property_walk root p = Ret item" and "u \<in> set (item_uses here item)"
  shows "node_use root u"
proof (cases "\<exists>ph. Property_get_single_value p = Some (VPhandle ph)")
  case True
  then obtain ph q t r where "node_at root q = Some t" "Node_route_to_rust t = Ret r" "u = Some r"
    using assms by (auto simp: property_walk_def outcome_simps split: option.splits)
  then show ?thesis using route_use [OF assms(1)] by simp
next
  case False
  then show ?thesis using assms(2,3)
    by (auto simp: property_walk_def general_property_def outcome_simps split: option.splits Value.splits DtWord.splits list.splits)
qed

lemma label_uses:
  assumes "route_ok [] root" and "label_mod root kv = Ret item" and "u \<in> set (item_uses here item)"
  shows "node_use root u"
proof -
  obtain t r where "node_at root (snd kv) = Some t" "Node_route_to_rust t = Ret r" "u = Some r"
    using assms(2,3) by (cases "node_at root (snd kv)") (auto simp: label_mod_def outcome_simps)
  then show ?thesis using route_use [OF assms(1)] by simp
qed

lemma raw_uses:
  assumes "route_ok [] root" and "RawInfo_generate root p raw device st cfg = Ret items" and "item \<in> set items"
    and "u \<in> set (item_uses (mod_at root p) item)"
  shows "node_use root u \<or> u = None \<and> (\<exists>level args. raw = Parent level args \<and> length p < level)"
proof -
  obtain node where node: "node_at root p = Some node"
    using assms(2) by (cases "node_at root p") (auto simp: RawInfo_generate_def outcome_simps)
  show ?thesis
  proof (cases raw)
    case (PhandleProp pname)
    then obtain q t r where "node_at root q = Some t" "Node_route_to_rust t = Ret r" "u = Some r"
      using assms(2-4) node by (auto simp: RawInfo_generate_def outcome_simps split: option.splits)
    then show ?thesis using route_use [OF assms(1)] by simp
  next
    case Myself
    then have "u = Some (mod_at root p)" using assms(2-4) node by (auto simp: RawInfo_generate_def outcome_simps split: if_splits)
    then show ?thesis using node by (auto simp: node_use_def)
  next
    case (Parent level args)
    then have "u = supers (mod_at root p) level"
      using assms(2-4) node by (auto simp: RawInfo_generate_def outcome_simps Let_def split: if_splits)
    then show ?thesis using supers_use [of root p level] node Parent by auto
  qed
qed

lemma action_uses:
  assumes "route_ok [] (dt_root tree)" and "Action_generate tree p cfg act = Ret items" and "item \<in> set items"
    and "u \<in> set (item_uses (mod_at (dt_root tree) p) item)"
  shows "node_use (dt_root tree) u \<or>
    u = None \<and> (\<exists>level args device st. act = Instance (Parent level args) device st \<and> length p < level)"
proof (cases act)
  case (Instance raw device st)
  then show ?thesis using assms raw_uses [OF assms(1)] by (auto simp: Action_generate_def)
next
  case Labels
  then obtain nodes where "map_outcome (label_mod (dt_root tree)) (dt_labels tree) = Ret nodes" "items = [Mod ''labels'' nodes]"
    using assms(2) by (auto simp: Action_generate_def outcome_simps)
  with assms(3,4) obtain node kv here where "label_mod (dt_root tree) kv = Ret node" "u \<in> set (item_uses here node)"
    using map_outcome_from by fastforce
  then show ?thesis using label_uses [OF assms(1)] by blast
next
  case RawProperties
  then obtain node where "map_outcome (raw_property (dt_root tree)) (nd_props node) = Ret items"
    using assms(2) by (auto simp: Action_generate_def split: option.splits)
  from map_outcome_from [OF this assms(3)] assms(4) show ?thesis by (auto simp: raw_property_def outcome_simps)
qed

lemma augment_uses:
  assumes "route_ok [] (dt_root tree)" and "Augmentation_augment tree aug p = Ret items" and "item \<in> set items"
    and "u \<in> set (item_uses (mod_at (dt_root tree) p) item)" and "node_at (dt_root tree) p \<noteq> None"
  shows "node_use (dt_root tree) u \<or> u = None \<and> above_root (dt_root tree) aug"
proof -
  obtain cfg actions where a: "Augmentation_is_compatible aug (dt_root tree) p"
    "map_outcome (Action_generate tree p cfg) (ag_actions aug) = Ret actions" "items = concat actions"
    using assms(2,3) by (auto simp: Augmentation_augment_def Augmentation_generate_def outcome_simps split: if_splits)
  then obtain its where its: "its \<in> set actions" "item \<in> set its" using assms(3) by auto
  obtain act where act: "act \<in> set (ag_actions aug)" "Action_generate tree p cfg act = Ret its"
    using map_outcome_from [OF a(2) its(1)] by blast
  from action_uses [OF assms(1) act(2) its(2) assms(4)] show ?thesis
    using a(1) act(1) assms(5) unfolding above_root_def by blast
qed

text \<open>The walk puts the items of a node into the module of the node.\<close>

lemma walk_items:
  assumes "node_walk augs root pos name (Node nm pa ro od ls ps cs) = Ret items" and "item \<in> set items"
    and "u \<in> set (item_uses here item)"
  obtains props children as it where "map_outcome (property_walk root) ps = Ret props"
    "node_walks augs root pos 0 cs = Ret children" "map_outcome (\<lambda>aug. aug pos) augs = Ret as"
    "it \<in> set (props @ children @ concat as)"
    "u \<in> set (item_uses (here @ (case name of None \<Rightarrow> [] | Some name \<Rightarrow> [fix_id name])) it)"
proof -
  obtain props children as where w: "map_outcome (property_walk root) ps = Ret props"
    "node_walks augs root pos 0 cs = Ret children" "map_outcome (\<lambda>aug. aug pos) augs = Ret as"
    and items: "items = (case name of None \<Rightarrow> props @ children @ concat as
      | Some name \<Rightarrow> [Mod (fix_id name) (ConstOrd od # props @ children @ concat as)])"
    using assms(1) by (cases name) (auto simp: outcome_simps dest!: dt_to_lower_id_Ret)
  have "\<exists>it \<in> set (props @ children @ concat as).
      u \<in> set (item_uses (here @ (case name of None \<Rightarrow> [] | Some name \<Rightarrow> [fix_id name])) it)"
  proof (cases name)
    case None
    then show ?thesis using items assms(2,3) by auto
  next
    case (Some name')
    then have "u \<in> set (concat (map (item_uses (here @ [fix_id name'])) (props @ children @ concat as)))"
      using items assms(2,3) by simp
    then show ?thesis unfolding Some by (simp only: set_concat set_map UN_iff image_iff bex_simps option.case)
  qed
  then show ?thesis using that w by blast
qed

lemma node_walk_uses:
  assumes "route_ok [] root"
    and "\<forall>aug \<in> set augs. \<forall>p items. node_at root p \<noteq> None \<longrightarrow> aug p = Ret items \<longrightarrow>
      (\<forall>item \<in> set items. \<forall>u \<in> set (item_uses (mod_at root p) item). good u)"
    and "\<forall>u. node_use root u \<longrightarrow> good u"
  shows "node_walk augs root pos name n = Ret items \<Longrightarrow> node_at root pos = Some n \<Longrightarrow>
      mod_at root pos = here @ (case name of None \<Rightarrow> [] | Some name \<Rightarrow> [fix_id name]) \<Longrightarrow>
      item \<in> set items \<Longrightarrow> u \<in> set (item_uses here item) \<Longrightarrow> good u"
    and "node_walks augs root pos i cs = Ret items \<Longrightarrow> node_at root pos = Some m \<Longrightarrow> cs = drop i (nd_children m) \<Longrightarrow>
      item \<in> set items \<Longrightarrow> u \<in> set (item_uses (mod_at root pos) item) \<Longrightarrow> good u"
  using assms
proof (induction augs root pos name n and augs root pos i cs
    arbitrary: items item u here and items item u m rule: node_walk_node_walks.induct)
  case one: (1 augs root pos name nm pa ro od ls ps cs)
  obtain props children as it where w: "map_outcome (property_walk root) ps = Ret props"
    "node_walks augs root pos 0 cs = Ret children" "map_outcome (\<lambda>aug. aug pos) augs = Ret as"
    and it: "it \<in> set (props @ children @ concat as)" "u \<in> set (item_uses (mod_at root pos) it)"
    using walk_items [OF one.prems(1,4,5)] one.prems(3) by metis
  from it(1) consider "it \<in> set props" | "it \<in> set children" | "it \<in> set (concat as)" by auto
  then show ?case
  proof cases
    case 1
    then show ?thesis using map_outcome_from [OF w(1)] property_uses [OF one.prems(6)] it(2) one.prems(8) by blast
  next
    case 2
    show ?thesis by (rule one.IH [OF w(2) one.prems(2) _ 2 it(2) one.prems(6-8)]) simp
  next
    case 3
    then obtain new where new: "new \<in> set as" "it \<in> set new" by auto
    obtain aug where "aug \<in> set augs" "aug pos = Ret new" using map_outcome_from [OF w(3) new(1)] by blast
    then show ?thesis using one.prems(2,7) new(2) it(2) by (metis option.distinct(1))
  qed
next
  case three: (3 augs root pos i c cs)
  have i: "i < length (nd_children m)" "c = nd_children m ! i" "cs = drop (Suc i) (nd_children m)"
    using three.prems(3) by (metis drop_all list.distinct(1) not_less, metis drop_all list.distinct(1) nth_via_drop not_less,
      metis drop_Suc tl_drop list.sel(3))
  obtain head rest where w: "node_walk augs root (pos @ [i]) (Some (nd_name c)) c = Ret head"
    "node_walks augs root pos (Suc i) cs = Ret rest" "items = head @ rest"
    using three.prems(1) by (auto simp: outcome_simps)
  have at: "node_at root (pos @ [i]) = Some c" "mod_at root (pos @ [i]) = mod_at root pos @ [fix_id (nd_name c)]"
    using three.prems(2) i by (simp_all add: node_at_append mod_at_def names_along_snoc)
  from three.prems(4) w(3) consider "item \<in> set head" | "item \<in> set rest" by auto
  then show ?case
  proof cases
    case 1
    show ?thesis by (rule three.IH(1) [OF w(1) at(1) _ 1 three.prems(5-8)]) (simp_all add: at(2))
  next
    case 2
    show ?thesis by (rule three.IH(2) [OF w(2) three.prems(2) i(3) 2 three.prems(5-8)])
  qed
qed auto

text \<open>Every node of the tree has its module, at the path of its names.\<close>

lemma node_walks_nth:
  "node_walks augs root pos i cs = Ret items \<Longrightarrow> k < length cs \<Longrightarrow>
   \<exists>its. node_walk augs root (pos @ [i + k]) (Some (nd_name (cs ! k))) (cs ! k) = Ret its \<and> set its \<subseteq> set items"
proof (induction cs arbitrary: i k items)
  case (Cons c cs)
  obtain head rest where w: "node_walk augs root (pos @ [i]) (Some (nd_name c)) c = Ret head" "node_walks augs root pos (Suc i) cs = Ret rest"
    "items = head @ rest" using Cons.prems(1) by (auto simp: outcome_simps)
  show ?case
  proof (cases k)
    case 0
    then show ?thesis using w by auto
  next
    case (Suc m)
    then show ?thesis using Cons.IH [OF w(2), of m] Cons.prems(2) w(3) by auto
  qed
qed simp

lemma node_walk_mods:
  "node_walk augs root pos name n = Ret items \<Longrightarrow> node_at n q \<noteq> None \<Longrightarrow>
   \<exists>inner. items = (case name of None \<Rightarrow> inner | Some nm \<Rightarrow> [Mod (fix_id nm) inner]) \<and> has_mod inner (map fix_id (names_along n q))"
proof (induction q arbitrary: n pos name items)
  case (Cons i q)
  obtain nm pa ro od ls ps cs where n: "n = Node nm pa ro od ls ps cs" by (cases n)
  obtain props children as where c: "node_walks augs root pos 0 cs = Ret children"
    "items = (case name of None \<Rightarrow> props @ children @ concat as | Some nm \<Rightarrow> [Mod (fix_id nm) (ConstOrd od # props @ children @ concat as)])"
    using Cons.prems(1) unfolding n by (cases name) (auto simp: outcome_simps dest!: dt_to_lower_id_Ret)
  then obtain inner where w: "node_walks augs root pos 0 cs = Ret children"
    "items = (case name of None \<Rightarrow> inner | Some nm \<Rightarrow> [Mod (fix_id nm) inner])" "set children \<subseteq> set inner"
    by (cases name) fastforce+
  have i: "i < length cs" "node_at (cs ! i) q \<noteq> None" using Cons.prems(2) by (auto simp: n split: if_splits)
  obtain its where its: "node_walk augs root (pos @ [i]) (Some (nd_name (cs ! i))) (cs ! i) = Ret its" "set its \<subseteq> set children"
    using node_walks_nth [OF w(1) i(1)] by auto
  obtain inner' where "its = [Mod (fix_id (nd_name (cs ! i))) inner']" "has_mod inner' (map fix_id (names_along (cs ! i) q))"
    using Cons.IH [OF its(1) i(2)] by auto
  then have "has_mod inner (map fix_id (names_along n (i # q)))" using its(2) w(3) by (auto simp: n)
  with w(2) show ?case by blast
next
  case Nil
  then show ?case by (cases n; cases name) (auto simp: outcome_simps dest!: dt_to_lower_id_Ret)
qed

section \<open>Properties\<close>

text \<open>
  C11. What \<open>dt_cfgs\<close> announces to the crates of an application agrees with what \<open>build_dts\<close> generates for the
  \<open>zephyr\<close> crate, both run in the same environment: if the code is generated, the configuration lines are
  too; with an augmentation that generates the labels at the root, each line names a module of the code.
  Every path that the code re-exports or takes a device from, the paths of \<open>super\<close>s resolved from where they
  stand included, names a module of the code, unless it leaves the tree; and it leaves the tree only if a loaded
  augmentation asks for an ancestor above the root at a node that it matches, which one with a rule on a high
  enough ancestor never does.
\<close>

theorem build_consistent:
  assumes "build_dts E = Ret (printed, path, items)" and "be_var E ''DT_AUGMENTS'' = Some names"
    and "file \<in> set (split_whitespace names)" and "be_load_augments E file = Some augs"
    and "aug \<in> set augs" and "ag_rules aug = [Root]" and "Labels \<in> set (ag_actions aug)"
  shows "\<exists>dt lines. import_dt E = Ret dt \<and> dt_cfgs E = Ret lines \<and>
    (\<forall>line \<in> set lines. \<exists>ss. ss \<noteq> [] \<and> line = cfg_line (join_path ss) \<and> has_mod items ss) \<and>
    (\<forall>item \<in> set items. \<forall>u \<in> set (item_uses [] item). case u of
       Some r \<Rightarrow> has_mod items r
     | None \<Rightarrow> \<exists>ag \<in> loaded E names. above_root (dt_root dt) ag) \<and>
    (\<forall>ag \<in> loaded E names. parent_guarded (dt_root dt) ag \<longrightarrow> \<not> above_root (dt_root dt) ag)"
proof -
  obtain dt ags where dt: "import_dt E = Ret dt"
    and ags: "map_outcome (\<lambda>aug. expect ''Loading augment file'' (be_load_augments E aug)) (split_whitespace names) = Ret ags"
    and tok: "DeviceTree_to_tokens dt (map (Augmentation_augment dt) (concat ags)) = Ret items"
    using assms(1,2) by (auto simp: build_dts_def outcome_simps split: if_splits)
  have aug: "aug \<in> set (concat ags)" using map_outcome_mem [OF ags assms(3)] assms(4,5) by auto
  have loaded: "ag \<in> loaded E names" if ag: "ag \<in> set (concat ags)" for ag
  proof -
    obtain augs where "augs \<in> set ags" "ag \<in> set augs" using ag by auto
    with map_outcome_from [OF ags, of augs] show ?thesis by (auto simp: loaded_def outcome_simps)
  qed
  have route: "route_ok [] (dt_root dt)" using dt import_dt_routes by (auto simp: import_dt_def DeviceTree_from_files_def outcome_simps)
  let ?good = "\<lambda>u. node_use (dt_root dt) u \<or> u = None \<and> (\<exists>ag \<in> loaded E names. above_root (dt_root dt) ag)"
  have "case u of Some r \<Rightarrow> has_mod items r | None \<Rightarrow> \<exists>ag \<in> loaded E names. above_root (dt_root dt) ag"
    if "item \<in> set items" "u \<in> set (item_uses [] item)" for item u
  proof -
    have "?good u"
    proof (rule node_walk_uses(1) [OF route _ _ tok [unfolded DeviceTree_to_tokens_def] _ _ that])
      show "\<forall>f \<in> set (map (Augmentation_augment dt) (concat ags)). \<forall>p its. node_at (dt_root dt) p \<noteq> None \<longrightarrow> f p = Ret its \<longrightarrow>
          (\<forall>it \<in> set its. \<forall>v \<in> set (item_uses (mod_at (dt_root dt) p) it). ?good v)"
        using augment_uses [OF route] loaded unfolding set_map by blast
    qed (simp_all add: mod_at_def)
    moreover have "has_mod items (mod_at (dt_root dt) q)" if "node_at (dt_root dt) q \<noteq> None" for q
      using node_walk_mods [OF tok [unfolded DeviceTree_to_tokens_def] that] by (simp add: mod_at_def)
    ultimately show ?thesis by (auto simp: node_use_def split: option.splits)
  qed
  moreover have "\<exists>ss. ss \<noteq> [] \<and> line = cfg_line (join_path ss) \<and> has_mod items ss" if "line \<in> set (output_node_paths dt)" for line
    by (rule cfg_lines_covered [OF tok aug assms(6,7) that])
  ultimately show ?thesis using dt guarded_below_root by (auto simp: dt_cfgs_def)
qed

text \<open>
  The environment of a build with the board of \<open>demo_board\<close> and one file of augmentations: the labels, and an
  instance on the parent of each node with GPIOs.
\<close>

definition demo_led :: Augmentation where
  "demo_led = \<lparr>ag_name = ''led'', ag_rules = [HasProp ''gpios''], ag_actions = [Instance (Parent 1 []) ''Led'' (Some ''S'')], ag_cfg = None\<rparr>"

definition demo_env :: build_env where
  "demo_env = \<lparr>be_var = [''ZEPHYR_DTS'' \<mapsto> ''zephyr.dts'', ''BINARY_DIR_INCLUDE_GENERATED'' \<mapsto> ''gen'', ''OUT_DIR'' \<mapsto> ''out'',
       ''DT_AUGMENTS'' \<mapsto> '' dt-rust.yaml''],
     be_file = [''zephyr.dts'' \<mapsto> ''zephyr.dts'', ''gen/devicetree_generated.h'' \<mapsto> ''header''],
     be_create = (\<lambda>_. True), be_lines = (\<lambda>_. concat (map hnode_lines demo_board)), be_path_re = demo_path_re, be_ord_re = demo_ord_re,
     be_dts_parse = (\<lambda>_. Some [demo_dts]), be_load_augments = [''dt-rust.yaml'' \<mapsto> [demo_labels, demo_led]]\<rparr>"

definition demo_linked :: DeviceTree where
  "demo_linked = demo_tree\<lparr>dt_root := map_tree (resolved (dt_labels demo_tree)) (dt_root demo_tree)\<rparr>"

lemma demo_import: "import_dt demo_env = Ret demo_linked"
proof -
  have "DeviceTree_link demo_tree = Ret demo_linked"
    using node_walks [of "dt_labels demo_tree" "dt_root demo_tree"]
    by (simp add: DeviceTree_link_def walks_def demo_linked_def)
      (simp add: demo_tree_def resolvable_def btree_get_def prop_phandles_def value_phandles_def word_phandles_def)
  moreover have "OrdMap_new demo_path_re demo_ord_re (concat (map hnode_lines demo_board)) = Ret (header_ords demo_board)"
    by (rule header_read [OF re2_ok_re2 re2_ok_re2 demo_board_ok])
  ultimately show ?thesis
    by (simp add: import_dt_def demo_env_def DeviceTree_from_files_def DeviceTree_new_def parse_def demo_walk)
qed

lemma demo_linked_tree:
  "demo_linked = \<lparr>dt_root = Node ''/'' ''/'' [] 0 [] []
      [Node ''led'' ''/led'' [''led''] 4 [] [\<lparr>pr_name = ''gpios'', pr_value = [Words [WPhandle (Phandle ''gpio0'' (Some [1])), Number 5]]\<rparr>] [],
       Node ''gpio'' ''/gpio'' [''gpio''] 9 [''gpio0''] [] []],
     dt_labels = [(''gpio0'', [1])]\<rparr>"
  by (simp add: demo_linked_def demo_tree_def map_prop_def map_value_def map_word_def resolved_def btree_get_def)

definition demo_items :: "Item list" where
  "demo_items = [Mod ''led'' [ConstOrd 4, ConstDebug ''GPIOS_DEBUG'' [Words [WPhandle (Phandle ''gpio0'' (Some [1])), Number 5]], GetInstance None [''Led''] [''S''] (Supers 1) []],
      Mod ''gpio'' [ConstOrd 9], Mod ''labels'' [Mod ''gpio0'' [UseAll [''gpio'']]]]"

lemma demo_tokens: "DeviceTree_to_tokens demo_linked (map (Augmentation_augment demo_linked) [demo_labels, demo_led]) = Ret demo_items"
proof -
  have "dt_to_upper_id ''gpios_DEBUG'' = Ret ''GPIOS_DEBUG''"
    by code_simp
  then show ?thesis by (simp add: demo_linked_tree demo_items_def general_property_def demo_eval demo_led_def demo_disabled_eval Node_has_prop_def
      RawInfo_generate_def)
qed

lemma demo_split: "split_whitespace '' dt-rust.yaml'' = [''dt-rust.yaml'']"
  by (simp add: split_whitespace_def is_white_def)

lemma demo_build: "\<exists>printed. build_dts demo_env = Ret (printed, ''out/devicetree.rs'', demo_items)"
proof -
  have "be_var demo_env ''OUT_DIR'' = Some ''out''" "be_var demo_env ''DT_AUGMENTS'' = Some '' dt-rust.yaml''"
    "be_load_augments demo_env ''dt-rust.yaml'' = Some [demo_labels, demo_led]" "be_create demo_env path" for path by (simp_all add: demo_env_def)
  then show ?thesis using demo_tokens by (simp add: build_dts_def demo_import demo_split)
qed

text \<open>The node has GPIOs and is one level deep, so that its parent is in the tree and the next one is above it.\<close>

lemma demo_above:
  "\<not> above_root (dt_root demo_linked) demo_led"
  "above_root (dt_root demo_linked) (demo_led\<lparr>ag_actions := [Instance (Parent 2 []) ''Led'' (Some ''S'')]\<rparr>)"
proof -
  have "\<not> Augmentation_is_compatible demo_led (dt_root demo_linked) []"
    by (simp add: Augmentation_is_compatible_def demo_led_def demo_linked_tree Node_has_prop_def Node_get_property_def)
  then show "\<not> above_root (dt_root demo_linked) demo_led" by (auto simp: above_root_def demo_led_def)
  show "above_root (dt_root demo_linked) (demo_led\<lparr>ag_actions := [Instance (Parent 2 []) ''Led'' (Some ''S'')]\<rparr>)"
    unfolding above_root_def
    by (rule exI [of _ "[0]"]) (simp add: Augmentation_is_compatible_def demo_led_def demo_linked_tree Node_has_prop_def Node_get_property_def)
qed

theorem build_consistent_witness:
  "\<exists>lines. dt_cfgs demo_env = Ret lines \<and> cfg_line ''labels::gpio0'' \<in> set lines \<and>
    (\<forall>item \<in> set demo_items. \<forall>u \<in> set (item_uses [] item). \<exists>r. u = Some r \<and> has_mod demo_items r)"
proof -
  obtain printed where b: "build_dts demo_env = Ret (printed, ''out/devicetree.rs'', demo_items)" using demo_build by blast
  have e: "be_var demo_env ''DT_AUGMENTS'' = Some '' dt-rust.yaml''" "be_load_augments demo_env ''dt-rust.yaml'' = Some [demo_labels, demo_led]"
    by (simp_all add: demo_env_def)
  moreover have "''dt-rust.yaml'' \<in> set (split_whitespace '' dt-rust.yaml'')" by (simp add: demo_split)
  ultimately obtain dt lines where l: "import_dt demo_env = Ret dt" "dt_cfgs demo_env = Ret lines"
    "\<forall>item \<in> set demo_items. \<forall>u \<in> set (item_uses [] item). case u of
       Some r \<Rightarrow> has_mod demo_items r | None \<Rightarrow> \<exists>ag \<in> loaded demo_env '' dt-rust.yaml''. above_root (dt_root dt) ag"
    using build_consistent [OF b, of "'' dt-rust.yaml''" "''dt-rust.yaml''" "[demo_labels, demo_led]" demo_labels]
    by (auto simp: demo_labels_def)
  have "\<not> above_root (dt_root dt) ag" if "ag \<in> loaded demo_env '' dt-rust.yaml''" for ag
  proof -
    have "dt = demo_linked" "ag = demo_labels \<or> ag = demo_led"
      using that l(1) demo_import e(2) by (auto simp: loaded_def demo_split)
    moreover have "\<not> above_root (dt_root demo_linked) demo_labels" by (simp add: above_root_def demo_labels_def)
    ultimately show ?thesis using demo_above(1) by blast
  qed
  with l(3) have "\<forall>item \<in> set demo_items. \<forall>u \<in> set (item_uses [] item). \<exists>r. u = Some r \<and> has_mod demo_items r"
    by (fastforce split: option.splits)
  moreover have "cfg_line ''labels::gpio0'' \<in> set (output_node_paths demo_linked)"
    by (simp add: output_node_paths_def demo_linked_def demo_tree_def btree_keys_def fix_id_map fix_char_def)
  ultimately show ?thesis using demo_import l(2) by (simp add: dt_cfgs_def)
qed

end
