(* ===== verification/Embassy_Time.thy ===== *)
theory Embassy_Time
  imports Error_Time
begin

text \<open>
  \<open>zephyr/src/embassy/time_driver.rs\<close>: the time driver of Embassy on one \<open>k_timer\<close>. The queue of timers is
  the one of the package \<open>embassy-time-queue-utils\<close>, a parameter; so is the kernel's timer. The clock is the
  sequence of values that its successive readings give, which advances between any two of them.
\<close>

section \<open>The queue of timers and the kernel's timer\<close>

type_synonym waker = nat

text \<open>\<open>tq_next_expiration\<close> also gives the tasks that it wakes.\<close>

record 'q time_queue_api =
  tq_schedule_wake :: "'q \<Rightarrow> u64 \<Rightarrow> waker \<Rightarrow> bool \<times> 'q"
  tq_next_expiration :: "'q \<Rightarrow> u64 \<Rightarrow> u64 \<times> 'q \<times> waker list"

abbreviation u64_MAX :: u64 where "u64_MAX \<equiv> - 1"

text \<open>
  The documented behaviour: scheduling keeps the earliest time for the task and answers whether the
  queue changed; \<open>next_expiration\<close> wakes and removes the timers that have expired and returns the earliest
  of the others, or \<open>u64::MAX\<close> if there is none.
\<close>

locale time_queue =
  fixes Q :: "'q time_queue_api" and pending :: "'q \<Rightarrow> (u64 \<times> waker) set"
  assumes pending_finite: "finite (pending q)" and pending_time: "(a, w) \<in> pending q \<Longrightarrow> a \<noteq> u64_MAX"
    and schedule_law: "tq_schedule_wake Q q at w = (b, q') \<Longrightarrow> at \<noteq> u64_MAX \<Longrightarrow>
      (\<exists>a \<le> at. (a, w) \<in> pending q') \<and> pending q' \<subseteq> insert (at, w) (pending q) \<and>
      (\<forall>a v. (a, v) \<in> pending q \<longrightarrow> v \<noteq> w \<longrightarrow> (a, v) \<in> pending q') \<and> (\<not> b \<longrightarrow> pending q' = pending q)"
    and next_law: "tq_next_expiration Q q now = (next, q', ws) \<Longrightarrow>
      pending q' = {(a, w) \<in> pending q. now < a} \<and> set ws = snd ` {(a, w) \<in> pending q. a \<le> now} \<and>
      next = Min (insert u64_MAX (fst ` pending q'))"

text \<open>
  The kernel's part of the timer. Starting it takes the kernel's own reading of the clock; \<open>due\<close> is the
  tick at which it expires next.
\<close>

record 'k ktimer_api =
  ktm_init :: "'k \<Rightarrow> 'k"
  ktm_start :: "'k \<Rightarrow> u64 \<Rightarrow> k_timeout_t \<Rightarrow> k_timeout_t \<Rightarrow> 'k"
  ktm_expired :: "'k \<Rightarrow> 'k"

text \<open>
  A relative timeout of \<open>n\<close> ticks expires after \<open>n - 1\<close> to \<open>n\<close> ticks; an absolute one not before its tick, and
  within one tick if that has passed. A timer has to be initialised before it is started.
\<close>

locale ktimer =
  fixes K :: "'k ktimer_api" and ready :: "'k \<Rightarrow> bool" and due :: "'k \<Rightarrow> int option"
  assumes init_ready: "ready (ktm_init K k)"
    and start_ready: "ready k \<Longrightarrow> ready (ktm_start K k now d p)" and expired_ready: "ready k \<Longrightarrow> ready (ktm_expired K k)"
    and start_relative: "ready k \<Longrightarrow> timeout_kind d = Relative n \<Longrightarrow>
      \<exists>t. due (ktm_start K k now d K_FOREVER) = Some t \<and> uint now + n - 1 \<le> t \<and> t \<le> uint now + n"
    and start_absolute: "ready k \<Longrightarrow> timeout_kind d = Absolute n \<Longrightarrow>
      \<exists>t. due (ktm_start K k now d K_FOREVER) = Some t \<and> n \<le> t \<and> (n \<le> uint now \<longrightarrow> t \<le> uint now + 1)"
    and expired_due: "ready k \<Longrightarrow> due (ktm_expired K k) = None"

section \<open>The driver\<close>

record 'k ZTimer =
  zt_item :: 'k
  zt_initialized :: bool

text \<open>Unsigned addition, which panics on overflow when overflow checks are on.\<close>

definition u64_add :: "bool \<Rightarrow> u64 \<Rightarrow> u64 \<Rightarrow> u64 outcome" where
  "u64_add dbg a b = (if dbg \<and> 2 ^ 64 \<le> uint a + uint b then Panic ''attempt to add with overflow'' else Ret (a + b))"

text \<open>\<open>kernel_now\<close> is the kernel's reading of the clock in \<open>k_timer_start\<close>.\<close>

definition ZTimer_set_alarm :: "'k ktimer_api \<Rightarrow> bool \<Rightarrow> u64 \<Rightarrow> 'k ZTimer \<Rightarrow> u64 \<Rightarrow> u64 \<Rightarrow> (bool \<times> 'k ZTimer) outcome" where
  "ZTimer_set_alarm K dbg kernel_now self next now =
     (if next \<le> now then Ret (False, self)
      else let self = (if \<not> zt_initialized self
                       then self\<lparr>zt_item := ktm_init K (zt_item self), zt_initialized := True\<rparr> else self)
           in bind_outcome (u64_add dbg (next - now) 1) (\<lambda>ticks.
                Ret (True, self\<lparr>zt_item := ktm_start K (zt_item self) kernel_now (K_timeout ticks) K_FOREVER\<rparr>)))"

text \<open>The state of the driver, with the number of readings of the clock and the tasks woken, at which time.\<close>

record ('q, 'k) ZephyrTimeDriver =
  dr_queue :: 'q
  dr_timer :: "'k ZTimer"
  dr_reads :: nat
  dr_woken :: "(waker \<times> u64) list"

definition Driver_now :: "(nat \<Rightarrow> u64) \<Rightarrow> ('q, 'k) ZephyrTimeDriver \<Rightarrow> u64 \<times> ('q, 'k) ZephyrTimeDriver" where
  "Driver_now clk self = (clk (dr_reads self), self\<lparr>dr_reads := Suc (dr_reads self)\<rparr>)"

text \<open>\<open>queue.next_expiration(self.now())\<close>.\<close>

definition driver_next :: "'q time_queue_api \<Rightarrow> (nat \<Rightarrow> u64) \<Rightarrow> ('q, 'k) ZephyrTimeDriver \<Rightarrow> u64 \<times> ('q, 'k) ZephyrTimeDriver" where
  "driver_next Q clk self =
     (let (now, self) = Driver_now clk self; (next, queue, ws) = tq_next_expiration Q (dr_queue self) now
      in (next, self\<lparr>dr_queue := queue, dr_woken := dr_woken self @ map (\<lambda>w. (w, now)) ws\<rparr>))"

text \<open>The loop \<open>while !timer.set_alarm(next, self.now())\<close>.\<close>

partial_function (option) alarm_loop ::
    "'q time_queue_api \<Rightarrow> 'k ktimer_api \<Rightarrow> (nat \<Rightarrow> u64) \<Rightarrow> bool \<Rightarrow> u64 \<Rightarrow> ('q, 'k) ZephyrTimeDriver \<Rightarrow>
     ('q, 'k) ZephyrTimeDriver outcome option" where
  "alarm_loop Q K clk dbg next self =
     (let (now, self) = Driver_now clk self in
      case ZTimer_set_alarm K dbg (clk (dr_reads self)) (dr_timer self) next now of
        Ret (armed, timer) \<Rightarrow>
          if armed then Some (Ret (self\<lparr>dr_timer := timer, dr_reads := Suc (dr_reads self)\<rparr>))
          else (let (next, self) = driver_next Q clk (self\<lparr>dr_timer := timer\<rparr>) in alarm_loop Q K clk dbg next self)
      | Panic m \<Rightarrow> Some (Panic m)
      | Blocked \<Rightarrow> Some Blocked
      | UB \<Rightarrow> Some UB)"

definition check_alarm ::
    "'q time_queue_api \<Rightarrow> 'k ktimer_api \<Rightarrow> (nat \<Rightarrow> u64) \<Rightarrow> bool \<Rightarrow> ('q, 'k) ZephyrTimeDriver \<Rightarrow>
     ('q, 'k) ZephyrTimeDriver outcome option" where
  "check_alarm Q K clk dbg self = (let (next, self) = driver_next Q clk self in alarm_loop Q K clk dbg next self)"

definition schedule_wake ::
    "'q time_queue_api \<Rightarrow> 'k ktimer_api \<Rightarrow> (nat \<Rightarrow> u64) \<Rightarrow> bool \<Rightarrow> ('q, 'k) ZephyrTimeDriver \<Rightarrow> u64 \<Rightarrow> waker \<Rightarrow>
     ('q, 'k) ZephyrTimeDriver outcome option" where
  "schedule_wake Q K clk dbg self at w =
     (let (changed, queue) = tq_schedule_wake Q (dr_queue self) at w; self = self\<lparr>dr_queue := queue\<rparr> in
      if changed then (let (next, self) = driver_next Q clk self in alarm_loop Q K clk dbg next self)
      else Some (Ret self))"

text \<open>The timer interrupt: the kernel's timer expires and \<open>timer_tick\<close> calls \<open>check_alarm\<close>.\<close>

definition timer_tick ::
    "'q time_queue_api \<Rightarrow> 'k ktimer_api \<Rightarrow> (nat \<Rightarrow> u64) \<Rightarrow> bool \<Rightarrow> ('q, 'k) ZephyrTimeDriver \<Rightarrow>
     ('q, 'k) ZephyrTimeDriver outcome option" where
  "timer_tick Q K clk dbg self =
     check_alarm Q K clk dbg (self\<lparr>dr_timer := (dr_timer self)\<lparr>zt_item := ktm_expired K (zt_item (dr_timer self))\<rparr>\<rparr>)"

text \<open>
  The driver in use: tasks schedule wakes, the timer interrupt comes once the timer is due, and others read
  the clock. \<open>H\<close> collects what was scheduled.
\<close>

inductive td_reach ::
    "'q time_queue_api \<Rightarrow> ('q \<Rightarrow> (u64 \<times> waker) set) \<Rightarrow> 'k ktimer_api \<Rightarrow> ('k \<Rightarrow> int option) \<Rightarrow> (nat \<Rightarrow> u64) \<Rightarrow> bool \<Rightarrow>
     ('q, 'k) ZephyrTimeDriver \<Rightarrow> (u64 \<times> waker) set \<Rightarrow> bool"
  for Q pending K due clk dbg where
  td_start: "pending (dr_queue s) = {} \<Longrightarrow> \<not> zt_initialized (dr_timer s) \<Longrightarrow> dr_woken s = [] \<Longrightarrow>
     td_reach Q pending K due clk dbg s {}"
| td_schedule: "td_reach Q pending K due clk dbg s H \<Longrightarrow> uint at < 2 ^ 63 - 1 \<Longrightarrow>
     schedule_wake Q K clk dbg s at w = Some (Ret s') \<Longrightarrow> td_reach Q pending K due clk dbg s' (insert (at, w) H)"
| td_tick: "td_reach Q pending K due clk dbg s H \<Longrightarrow> zt_initialized (dr_timer s) \<Longrightarrow>
     due (zt_item (dr_timer s)) = Some t \<Longrightarrow> t \<le> uint (clk (dr_reads s)) \<Longrightarrow>
     timer_tick Q K clk dbg s = Some (Ret s') \<Longrightarrow> td_reach Q pending K due clk dbg s' H"
| td_read: "td_reach Q pending K due clk dbg s H \<Longrightarrow> td_reach Q pending K due clk dbg (s\<lparr>dr_reads := Suc (dr_reads s)\<rparr>) H"

section \<open>Times\<close>

lemma relative_bounds:
  fixes x y :: int
  assumes "0 \<le> y" and "y < x" and "x < 2 ^ 63 - 1"
  shows "(x - y + 1) mod 2 ^ 64 = x - y + 1" and "x - y + 1 < 2 ^ 63" and "\<not> 2 ^ 64 \<le> x - y + 1"
  using assms by simp_all

lemma relative_ticks:
  fixes a b :: u64
  assumes "b < a" and "uint a < 2 ^ 63 - 1"
  shows "u64_add dbg (a - b) 1 = Ret (a - b + 1)" and "timeout_kind (K_timeout (a - b + 1)) = Relative (uint a - uint b + 1)"
proof -
  have lt: "uint b < uint a" using assms(1) by (simp add: word_less_def)
  note r = relative_bounds [OF _ lt assms(2), simplified]
  have "b \<le> a" using assms(1) by simp
  then have d: "uint (a - b) = uint a - uint b" using uint_minus_simple_alt by blast
  then have d1: "uint (a - b + 1) = uint a - uint b + 1" using r(1) by (simp add: uint_word_ariths(1))
  then have "uint (a - b + 1) < 2 ^ 63" using r(2) by simp
  then have "sint (a - b + 1) = uint a - uint b + 1" using d1 sint_nonneg_iff sint_uint_nonneg by metis
  with lt show "timeout_kind (K_timeout (a - b + 1)) = Relative (uint a - uint b + 1)" by (simp add: timeout_kind_def)
  show "u64_add dbg (a - b) 1 = Ret (a - b + 1)" using r(3) d by (simp add: u64_add_def)
qed

lemma uint_u64_MAX: "uint u64_MAX = 2 ^ 64 - 1"
  by (simp add: unsigned_minus_1_eq_mask mask_eq_exp_minus_1)

lemma idle_ticks:
  fixes b :: u64
  assumes "2 \<le> uint b" and "uint b < 2 ^ 63"
  shows "u64_add dbg (u64_MAX - b) 1 = Ret (- b)" and "timeout_kind (K_timeout (- b)) = Absolute (uint b - 2)"
proof -
  have s: "sint b = uint b" using assms sint_nonneg_iff [of b] sint_uint_nonneg by simp
  have "sint (- b) = - uint b" using sint_diff_word64 [of 0 b] s assms by simp
  then show "timeout_kind (K_timeout (- b)) = Absolute (uint b - 2)" using assms by (simp add: timeout_kind_def)
  have "b \<le> u64_MAX" by simp
  then have "uint (u64_MAX - b) = uint u64_MAX - uint b" using uint_minus_simple_alt by blast
  then have "uint (u64_MAX - b) = 2 ^ 64 - 1 - uint b" by (simp add: uint_u64_MAX)
  then show "u64_add dbg (u64_MAX - b) 1 = Ret (- b)" using assms by (simp add: u64_add_def)
qed

section \<open>The loop\<close>

text \<open>
  What a run of the loop achieves. \<open>j\<close> is the reading of the clock by the call of \<open>set_alarm\<close> that armed the
  timer. The timers that left the queue were woken, at a time that was theirs; all that stay are later
  than \<open>j\<close>; and the kernel's timer is due not before the earliest of them, and late by at most a tick and
  the time between the two last readings.
\<close>

definition alarm_set ::
    "('q \<Rightarrow> (u64 \<times> waker) set) \<Rightarrow> ('k \<Rightarrow> int option) \<Rightarrow> (nat \<Rightarrow> u64) \<Rightarrow> nat \<Rightarrow> ('q, 'k) ZephyrTimeDriver \<Rightarrow> bool" where
  "alarm_set pending due clk j s \<longleftrightarrow> (\<forall>a w. (a, w) \<in> pending (dr_queue s) \<longrightarrow> clk j < a) \<and>
     (pending (dr_queue s) \<noteq> {} \<longrightarrow> (\<exists>t. due (zt_item (dr_timer s)) = Some t \<and>
        (\<forall>a w. (a, w) \<in> pending (dr_queue s) \<longrightarrow> t \<le> uint a + 1 + (uint (clk (Suc j)) - uint (clk j))) \<and>
        (\<exists>a w. (a, w) \<in> pending (dr_queue s) \<and> uint a \<le> t)))"

definition woke ::
    "('q \<Rightarrow> (u64 \<times> waker) set) \<Rightarrow> ('q, 'k) ZephyrTimeDriver \<Rightarrow> ('q, 'k) ZephyrTimeDriver \<Rightarrow> bool" where
  "woke pending s s' \<longleftrightarrow> pending (dr_queue s') \<subseteq> pending (dr_queue s) \<and>
     (\<exists>new. dr_woken s' = dr_woken s @ new \<and>
       (\<forall>a w. (a, w) \<in> pending (dr_queue s) \<longrightarrow> (a, w) \<in> pending (dr_queue s') \<or> (\<exists>t \<ge> a. (w, t) \<in> set new)) \<and>
       (\<forall>w t. (w, t) \<in> set new \<longrightarrow> (\<exists>a \<le> t. (a, w) \<in> pending (dr_queue s))))"

lemma wokeI:
  assumes "pending (dr_queue s') \<subseteq> pending (dr_queue s)" and "dr_woken s' = dr_woken s @ new"
    and "\<And>a w. (a, w) \<in> pending (dr_queue s) \<Longrightarrow> (a, w) \<in> pending (dr_queue s') \<or> (\<exists>t \<ge> a. (w, t) \<in> set new)"
    and "\<And>w t. (w, t) \<in> set new \<Longrightarrow> \<exists>a \<le> t. (a, w) \<in> pending (dr_queue s)"
  shows "woke pending s s'"
  using assms unfolding woke_def by blast

lemma wokeE:
  assumes "woke pending s s'"
  obtains new where "pending (dr_queue s') \<subseteq> pending (dr_queue s)" "dr_woken s' = dr_woken s @ new"
    "\<And>a w. (a, w) \<in> pending (dr_queue s) \<Longrightarrow> (a, w) \<in> pending (dr_queue s') \<or> (\<exists>t \<ge> a. (w, t) \<in> set new)"
    "\<And>w t. (w, t) \<in> set new \<Longrightarrow> \<exists>a \<le> t. (a, w) \<in> pending (dr_queue s)"
  using assms unfolding woke_def by blast

lemma woke_trans:
  assumes "woke pending s1 s2" and "woke pending s2 s3"
  shows "woke pending s1 s3"
proof -
  obtain n1 where n1: "pending (dr_queue s2) \<subseteq> pending (dr_queue s1)" "dr_woken s2 = dr_woken s1 @ n1"
    and l1: "\<And>a w. (a, w) \<in> pending (dr_queue s1) \<Longrightarrow> (a, w) \<in> pending (dr_queue s2) \<or> (\<exists>t \<ge> a. (w, t) \<in> set n1)"
    and e1: "\<And>w t. (w, t) \<in> set n1 \<Longrightarrow> \<exists>a \<le> t. (a, w) \<in> pending (dr_queue s1)"
    using wokeE [OF assms(1)] by metis
  obtain n2 where n2: "pending (dr_queue s3) \<subseteq> pending (dr_queue s2)" "dr_woken s3 = dr_woken s2 @ n2"
    and l2: "\<And>a w. (a, w) \<in> pending (dr_queue s2) \<Longrightarrow> (a, w) \<in> pending (dr_queue s3) \<or> (\<exists>t \<ge> a. (w, t) \<in> set n2)"
    and e2: "\<And>w t. (w, t) \<in> set n2 \<Longrightarrow> \<exists>a \<le> t. (a, w) \<in> pending (dr_queue s2)"
    using wokeE [OF assms(2)] by metis
  show ?thesis
  proof (rule wokeI [where new = "n1 @ n2"])
    show "dr_woken s3 = dr_woken s1 @ n1 @ n2" using n1(2) n2(2) by simp
    show "(a, w) \<in> pending (dr_queue s3) \<or> (\<exists>t \<ge> a. (w, t) \<in> set (n1 @ n2))" if "(a, w) \<in> pending (dr_queue s1)" for a w
      using l1 [OF that] l2 [of a w] by auto
    show "\<exists>a \<le> t. (a, w) \<in> pending (dr_queue s1)" if "(w, t) \<in> set (n1 @ n2)" for w t
      using that e1 [of w t] e2 [of w t] n1(1) by auto
  qed (use n1(1) n2(1) in blast)
qed

text \<open>A clock that never goes back and has not reached the bounds of the tick counts.\<close>

definition clock_ok :: "(nat \<Rightarrow> u64) \<Rightarrow> bool" where
  "clock_ok clk \<longleftrightarrow> mono clk \<and> (\<forall>i. 2 \<le> uint (clk i) \<and> uint (clk i) < 2 ^ 63 - 1)"

text \<open>Every pending time is below the bound of the relative timeouts, and the timer is usable.\<close>

definition driver_ok :: "('q \<Rightarrow> (u64 \<times> waker) set) \<Rightarrow> ('k \<Rightarrow> bool) \<Rightarrow> ('q, 'k) ZephyrTimeDriver \<Rightarrow> bool" where
  "driver_ok pending ready s \<longleftrightarrow> (\<forall>a w. (a, w) \<in> pending (dr_queue s) \<longrightarrow> uint a < 2 ^ 63 - 1) \<and>
     (zt_initialized (dr_timer s) \<longrightarrow> ready (zt_item (dr_timer s)))"

locale time_driver = time_queue Q pending + ktimer K ready due
  for Q :: "'q time_queue_api" and pending and K :: "'k ktimer_api" and ready due +
  fixes clk :: "nat \<Rightarrow> u64"
  assumes clock: "clock_ok clk"
begin

lemma driver_next_woke:
  assumes "driver_next Q clk s = (next, s')"
  shows "woke pending s s'" and "dr_reads s' = Suc (dr_reads s)" and "dr_timer s' = dr_timer s"
    and "pending (dr_queue s') = {(a, w) \<in> pending (dr_queue s). clk (dr_reads s) < a}"
    and "next = Min (insert u64_MAX (fst ` pending (dr_queue s')))"
proof -
  obtain q ws where n: "tq_next_expiration Q (dr_queue s) (clk (dr_reads s)) = (next, q, ws)"
    and s': "s' = s\<lparr>dr_reads := Suc (dr_reads s), dr_queue := q, dr_woken := dr_woken s @ map (\<lambda>w. (w, clk (dr_reads s))) ws\<rparr>"
    using assms by (auto simp: driver_next_def Driver_now_def Let_def split: prod.splits)
  note l = next_law [OF n]
  show "woke pending s s'"
  proof (rule wokeI [where new = "map (\<lambda>w. (w, clk (dr_reads s))) ws"])
    show "(a, w) \<in> pending (dr_queue s') \<or> (\<exists>t \<ge> a. (w, t) \<in> set (map (\<lambda>w. (w, clk (dr_reads s))) ws))"
      if "(a, w) \<in> pending (dr_queue s)" for a w
    proof (cases "a \<le> clk (dr_reads s)")
      case True
      then have "w \<in> set ws" using l that by force
      then show ?thesis using True by auto
    qed (use l s' that in \<open>simp add: not_le\<close>)
  qed (use l s' in auto)
  show "dr_reads s' = Suc (dr_reads s)" "dr_timer s' = dr_timer s" using s' by simp_all
  show "pending (dr_queue s') = {(a, w) \<in> pending (dr_queue s). clk (dr_reads s) < a}"
    "next = Min (insert u64_MAX (fst ` pending (dr_queue s')))" using l s' by simp_all
qed

lemma next_Min:
  assumes "next = Min (insert u64_MAX (fst ` pending q))"
  shows "(a, w) \<in> pending q \<Longrightarrow> next \<le> a" and "next \<noteq> u64_MAX \<Longrightarrow> \<exists>w. (next, w) \<in> pending q"
    and "pending q = {} \<longleftrightarrow> next = u64_MAX"
proof -
  let ?X = "insert u64_MAX (fst ` pending q)"
  have fin: "finite ?X" using pending_finite by simp
  show le: "(a, w) \<in> pending q \<Longrightarrow> next \<le> a" for a w using fin assms by (metis Min_le fst_conv image_eqI insertCI)
  have "next \<in> ?X" using fin assms Min_in by blast
  then show mem: "next \<noteq> u64_MAX \<Longrightarrow> \<exists>w. (next, w) \<in> pending q" by force
  show "pending q = {} \<longleftrightarrow> next = u64_MAX"
  proof
    show "next = u64_MAX" if "pending q = {}" using that assms by simp
    show "pending q = {}" if "next = u64_MAX"
    proof (rule ccontr)
      assume "pending q \<noteq> {}"
      then obtain a w where "(a, w) \<in> pending q" by auto
      with le that pending_time show False by (metis word_order.extremum_unique)
    qed
  qed
qed

text \<open>The call of \<open>set_alarm\<close> that arms the timer.\<close>

lemma set_alarm_arms:
  assumes ok: "zt_initialized z \<longrightarrow> ready (zt_item z)" and nx: "next = Min (insert u64_MAX (fst ` pending q))"
    and bound: "\<forall>a w. (a, w) \<in> pending q \<longrightarrow> uint a < 2 ^ 63 - 1" and late: "clk j < next"
  shows "\<exists>z'. ZTimer_set_alarm K dbg (clk (Suc j)) z next (clk j) = Ret (True, z') \<and> zt_initialized z' \<and> ready (zt_item z') \<and>
    (if next = u64_MAX then \<exists>t. due (zt_item z') = Some t \<and> t \<le> uint (clk (Suc j)) + 1
     else \<exists>t. due (zt_item z') = Some t \<and> uint next \<le> t \<and> t \<le> uint next + 1 + (uint (clk (Suc j)) - uint (clk j)))"
proof -
  let ?k = "if zt_initialized z then zt_item z else ktm_init K (zt_item z)"
  have r: "ready ?k" using ok init_ready by auto
  have c: "2 \<le> uint (clk j)" "uint (clk j) < 2 ^ 63 - 1" "uint (clk j) \<le> uint (clk (Suc j))"
    using clock by (auto simp: clock_ok_def word_le_def [symmetric] intro: monoD)
  have set: "ZTimer_set_alarm K dbg (clk (Suc j)) z next (clk j) =
      Ret (True, \<lparr>zt_item = ktm_start K ?k (clk (Suc j)) (K_timeout d) K_FOREVER, zt_initialized = True\<rparr>)"
    if "u64_add dbg (next - clk j) 1 = Ret d" for d
    using that late by (cases z) (auto simp: ZTimer_set_alarm_def Let_def not_le)
  show ?thesis
  proof (cases "next = u64_MAX")
    case True
    note i = idle_ticks [of "clk j"]
    from start_absolute [OF r i(2), of "clk (Suc j)"] set [OF i(1) [folded True]] True c start_ready [OF r] show ?thesis by auto
  next
    case False
    then obtain w where "(next, w) \<in> pending q" using next_Min(2) [OF nx] by blast
    then have "uint next < 2 ^ 63 - 1" using bound by blast
    note i = relative_ticks [OF late this]
    from start_relative [OF r i(2), of "clk (Suc j)"] set [OF i(1)] False c start_ready [OF r] show ?thesis by auto
  qed
qed

lemma alarm_setI:
  assumes nx: "nx = Min (insert u64_MAX (fst ` pending q))" and late: "clk j < nx"
    and d: "nx \<noteq> u64_MAX \<Longrightarrow> \<exists>t. due k = Some t \<and> uint nx \<le> t \<and> t \<le> uint nx + 1 + (uint (clk (Suc j)) - uint (clk j))"
    and s: "dr_queue s = q" "zt_item (dr_timer s) = k"
  shows "alarm_set pending due clk j s"
  unfolding alarm_set_def s
proof (intro conjI allI impI)
  show "clk j < a" if "(a, w) \<in> pending q" for a w using next_Min(1) [OF nx that] late by (rule less_le_trans [rotated])
  assume "pending q \<noteq> {}"
  then have "nx \<noteq> u64_MAX" using next_Min(3) [OF nx] by blast
  then obtain t w where t: "due k = Some t" "uint nx \<le> t" "t \<le> uint nx + 1 + (uint (clk (Suc j)) - uint (clk j))" "(nx, w) \<in> pending q"
    using d next_Min(2) [OF nx] by blast
  have "uint nx \<le> uint a" if "(a, w) \<in> pending q" for a w using next_Min(1) [OF nx that] by (simp add: word_le_def)
  with t(3) have "\<forall>a w. (a, w) \<in> pending q \<longrightarrow> t \<le> uint a + 1 + (uint (clk (Suc j)) - uint (clk j))" by force
  with t show "\<exists>t. due k = Some t \<and> (\<forall>a w. (a, w) \<in> pending q \<longrightarrow> t \<le> uint a + 1 + (uint (clk (Suc j)) - uint (clk j))) \<and>
      (\<exists>a w. (a, w) \<in> pending q \<and> uint a \<le> t)" by blast
qed

lemma alarm_loop_ends:
  assumes "driver_ok pending ready s" and "nx = Min (insert u64_MAX (fst ` pending (dr_queue s)))"
  shows "\<exists>s' j. alarm_loop Q K clk dbg nx s = Some (Ret s') \<and> driver_ok pending ready s' \<and> woke pending s s' \<and>
    dr_reads s \<le> j \<and> dr_reads s' = Suc (Suc j) \<and> alarm_set pending due clk j s'"
  using assms
proof (induction "card (pending (dr_queue s))" arbitrary: s nx rule: less_induct)
  case less
  let ?j = "dr_reads s"
  show ?case
  proof (cases "clk ?j < nx")
    case True
    obtain z where z: "ZTimer_set_alarm K dbg (clk (Suc ?j)) (dr_timer s) nx (clk ?j) = Ret (True, z)" "zt_initialized z" "ready (zt_item z)"
      "nx \<noteq> u64_MAX \<Longrightarrow> \<exists>t. due (zt_item z) = Some t \<and> uint nx \<le> t \<and> t \<le> uint nx + 1 + (uint (clk (Suc ?j)) - uint (clk ?j))"
      using set_alarm_arms [OF _ less.prems(2) _ True, of "dr_timer s" dbg] less.prems(1) unfolding driver_ok_def by (metis (lifting))
    let ?s = "s\<lparr>dr_reads := Suc (Suc ?j), dr_timer := z\<rparr>"
    have "alarm_loop Q K clk dbg nx s = Some (Ret ?s)" by (subst alarm_loop.simps) (simp add: Driver_now_def z)
    moreover have "alarm_set pending due clk ?j ?s"
      by (rule alarm_setI [OF less.prems(2) True z(4), of ?s]) simp_all
    ultimately show ?thesis using less.prems(1) z by (intro exI [of _ ?s] exI [of _ ?j]) (auto simp: driver_ok_def intro!: wokeI [where new = "[]"])
  next
    case False
    obtain nx' s1 where n: "driver_next Q clk (s\<lparr>dr_reads := Suc ?j\<rparr>) = (nx', s1)" by fastforce
    note d = driver_next_woke [OF n]
    have "nx \<le> clk ?j" using False by simp
    moreover have "uint (clk ?j) < 2 ^ 63 - 1" using clock by (simp add: clock_ok_def)
    then have "clk ?j \<noteq> u64_MAX" using uint_u64_MAX by auto
    ultimately have "nx \<le> clk ?j" "nx \<noteq> u64_MAX" by (auto dest: word_order.extremum_uniqueI)
    then obtain w where w: "(nx, w) \<in> pending (dr_queue s)" using next_Min(2) [OF less.prems(2)] by blast
    have "clk ?j \<le> clk (Suc ?j)" using clock by (simp add: clock_ok_def monoD)
    with \<open>nx \<le> clk ?j\<close> have "(nx, w) \<notin> pending (dr_queue s1)" using d(4) by auto
    with w d(1) have "pending (dr_queue s1) \<subset> pending (dr_queue s)" unfolding woke_def by auto
    then have "card (pending (dr_queue s1)) < card (pending (dr_queue s))" by (intro psubset_card_mono pending_finite)
    moreover have "driver_ok pending ready s1" using less.prems(1) d(1,3) unfolding driver_ok_def woke_def by auto
    ultimately obtain s' j where s': "alarm_loop Q K clk dbg nx' s1 = Some (Ret s')" "driver_ok pending ready s'" "woke pending s1 s'"
      "dr_reads s1 \<le> j" "dr_reads s' = Suc (Suc j)" "alarm_set pending due clk j s'"
      using less.hyps [of s1 nx'] d(5) by blast
    have "ZTimer_set_alarm K dbg (clk (Suc ?j)) (dr_timer s) nx (clk ?j) = Ret (False, dr_timer s)"
      using \<open>nx \<le> clk ?j\<close> by (simp add: ZTimer_set_alarm_def)
    then have "alarm_loop Q K clk dbg nx s = Some (Ret s')"
      by (subst alarm_loop.simps) (simp add: Driver_now_def n s')
    moreover have "woke pending s s'" using woke_trans [OF d(1) s'(3)] by (simp add: woke_def)
    ultimately show ?thesis using s' d(2) by (intro exI [of _ s'] exI [of _ j]) auto
  qed
qed

lemma next_loop_ends:
  assumes "driver_ok pending ready s" and "driver_next Q clk s = (nx, s1)"
  shows "\<exists>s' j. alarm_loop Q K clk dbg nx s1 = Some (Ret s') \<and> driver_ok pending ready s' \<and> woke pending s s' \<and>
    dr_reads s < j \<and> dr_reads s' = Suc (Suc j) \<and> alarm_set pending due clk j s'"
proof -
  note d = driver_next_woke [OF assms(2)]
  have "driver_ok pending ready s1" using assms(1) d(1,3) unfolding driver_ok_def woke_def by auto
  from alarm_loop_ends [OF this d(5), of dbg] d(2) woke_trans [OF d(1)] show ?thesis by fastforce
qed

lemma schedule_wake_ends:
  assumes "driver_ok pending ready s" and "uint at < 2 ^ 63 - 1"
  shows "\<exists>s' q. schedule_wake Q K clk dbg s at w = Some (Ret s') \<and> driver_ok pending ready s' \<and>
    pending q \<subseteq> insert (at, w) (pending (dr_queue s)) \<and> (\<exists>a \<le> at. (a, w) \<in> pending q) \<and>
    (\<forall>a v. (a, v) \<in> pending (dr_queue s) \<longrightarrow> v \<noteq> w \<longrightarrow> (a, v) \<in> pending q) \<and> woke pending (s\<lparr>dr_queue := q\<rparr>) s' \<and>
    ((\<exists>j. alarm_set pending due clk j s') \<or> s' = s\<lparr>dr_queue := q\<rparr> \<and> pending q = pending (dr_queue s))"
proof -
  have at: "at \<noteq> u64_MAX" using assms(2) uint_u64_MAX by auto
  obtain b q where q: "tq_schedule_wake Q (dr_queue s) at w = (b, q)" by fastforce
  note l = schedule_law [OF q at]
  have ok: "driver_ok pending ready (s\<lparr>dr_queue := q\<rparr>)" using assms l by (auto simp: driver_ok_def)
  obtain nx s1 where n: "driver_next Q clk (s\<lparr>dr_queue := q\<rparr>) = (nx, s1)" by fastforce
  show ?thesis
  proof (cases b)
    case True
    from next_loop_ends [OF ok n, of dbg] obtain s' j where s': "alarm_loop Q K clk dbg nx s1 = Some (Ret s')"
      "driver_ok pending ready s'" "woke pending (s\<lparr>dr_queue := q\<rparr>) s'" "alarm_set pending due clk j s'" by blast
    have "schedule_wake Q K clk dbg s at w = Some (Ret s')" using True s'(1) by (simp add: schedule_wake_def q n Let_def)
    with s' l show ?thesis by blast
  next
    case False
    then have "schedule_wake Q K clk dbg s at w = Some (Ret (s\<lparr>dr_queue := q\<rparr>))" by (simp add: schedule_wake_def q Let_def)
    moreover have "woke pending (s\<lparr>dr_queue := q\<rparr>) (s\<lparr>dr_queue := q\<rparr>)" by (rule wokeI [where new = "[]"]) auto
    ultimately show ?thesis using False ok l by blast
  qed
qed

lemma timer_tick_ends:
  assumes "driver_ok pending ready s" and "zt_initialized (dr_timer s)"
  shows "\<exists>s' j. timer_tick Q K clk dbg s = Some (Ret s') \<and> driver_ok pending ready s' \<and> woke pending s s' \<and>
    dr_reads s < j \<and> alarm_set pending due clk j s'"
proof -
  let ?s = "s\<lparr>dr_timer := (dr_timer s)\<lparr>zt_item := ktm_expired K (zt_item (dr_timer s))\<rparr>\<rparr>"
  obtain nx s1 where n: "driver_next Q clk ?s = (nx, s1)" by fastforce
  have "driver_ok pending ready ?s" using assms expired_ready by (auto simp: driver_ok_def)
  from next_loop_ends [OF this n, of dbg] obtain s' j where s': "alarm_loop Q K clk dbg nx s1 = Some (Ret s')"
    "driver_ok pending ready s'" "woke pending ?s s'" "dr_reads s < j" "alarm_set pending due clk j s'" by auto
  moreover have "woke pending s s'" using s'(3) by (simp add: woke_def)
  ultimately show ?thesis by (auto simp: timer_tick_def check_alarm_def n)
qed

text \<open>The invariant of the driver.\<close>

lemma td_reach_inv:
  "td_reach Q pending K due clk dbg s H \<Longrightarrow> driver_ok pending ready s \<and> pending (dr_queue s) \<subseteq> H \<and>
     (\<exists>j. alarm_set pending due clk j s) \<and> (\<forall>w t. (w, t) \<in> set (dr_woken s) \<longrightarrow> (\<exists>a \<le> t. (a, w) \<in> H))"
proof (induction rule: td_reach.induct)
  case (td_start s)
  then show ?case by (simp add: driver_ok_def alarm_set_def)
next
  case (td_schedule s H at w s')
  from schedule_wake_ends [of s at dbg w] td_schedule obtain q where q: "driver_ok pending ready s'"
    "pending q \<subseteq> insert (at, w) (pending (dr_queue s))" "woke pending (s\<lparr>dr_queue := q\<rparr>) s'"
    "(\<exists>j. alarm_set pending due clk j s') \<or> s' = s\<lparr>dr_queue := q\<rparr> \<and> pending q = pending (dr_queue s)" by auto
  from q(3) obtain new where new: "pending (dr_queue s') \<subseteq> pending q" "dr_woken s' = dr_woken s @ new"
    "\<And>v t. (v, t) \<in> set new \<Longrightarrow> \<exists>a \<le> t. (a, v) \<in> pending q" by (elim wokeE) auto
  have "alarm_set pending due clk j (s\<lparr>dr_queue := q\<rparr>)" if "alarm_set pending due clk j s" "pending q = pending (dr_queue s)" for j
    using that by (simp add: alarm_set_def)
  then have "\<exists>j. alarm_set pending due clk j s'" using q(4) td_schedule.IH by blast
  moreover have "\<exists>a \<le> t. (a, v) \<in> insert (at, w) H" if "(v, t) \<in> set (dr_woken s')" for v t
    using that new(2) new(3) [of v t] q(2) td_schedule.IH by fastforce
  ultimately show ?case using q(1,2) new(1) td_schedule.IH by blast
next
  case (td_tick s H t s')
  then obtain j where j: "driver_ok pending ready s'" "woke pending s s'" "alarm_set pending due clk j s'"
    using timer_tick_ends [of s dbg] by auto
  from j(2) obtain new where new: "pending (dr_queue s') \<subseteq> pending (dr_queue s)" "dr_woken s' = dr_woken s @ new"
    "\<And>v t. (v, t) \<in> set new \<Longrightarrow> \<exists>a \<le> t. (a, v) \<in> pending (dr_queue s)" by (elim wokeE) auto
  have "\<exists>a \<le> t. (a, v) \<in> H" if "(v, t) \<in> set (dr_woken s')" for v t
    using that new(2) new(3) [of v t] td_tick.IH by fastforce
  then show ?case using j new(1) td_tick.IH by blast
next
  case (td_read s H)
  then show ?case by (simp add: driver_ok_def alarm_set_def)
qed

end

section \<open>A reference queue and a reference kernel\<close>

definition ref_queue_api :: "(u64 \<times> waker) list time_queue_api" where
  "ref_queue_api = \<lparr>
     tq_schedule_wake = (\<lambda>q at w. if at = u64_MAX \<or> (\<exists>(a, v) \<in> set q. v = w \<and> a \<le> at) then (False, q)
       else (True, (at, w) # filter (\<lambda>(a, v). v \<noteq> w) q)),
     tq_next_expiration = (\<lambda>q now. let q' = filter (\<lambda>(a, w). now < a) q in
       (Min (set (u64_MAX # map fst q')), q', map snd (filter (\<lambda>(a, w). a \<le> now \<and> a \<noteq> u64_MAX) q)))\<rparr>"

definition ref_pending :: "(u64 \<times> waker) list \<Rightarrow> (u64 \<times> waker) set" where
  "ref_pending q = {(a, w) \<in> set q. a \<noteq> u64_MAX}"

definition ref_ktimer_api :: "(bool \<times> int option) ktimer_api" where
  "ref_ktimer_api = \<lparr>ktm_init = (\<lambda>k. (True, None)),
     ktm_start = (\<lambda>k now d p. (fst k, if \<not> fst k then None else case timeout_kind d of
        Relative n \<Rightarrow> Some (uint now + n) | Absolute n \<Rightarrow> Some (max n (uint now + 1)) | NoWaiting \<Rightarrow> Some (uint now) | Never \<Rightarrow> snd k)),
     ktm_expired = (\<lambda>k. (fst k, None))\<rparr>"

lemma Min_insert_MAX: "finite A \<Longrightarrow> Min (insert u64_MAX A) = Min (insert u64_MAX (A - {u64_MAX}))"
  by (metis insert_Diff_single)

interpretation ref_time_queue: time_queue ref_queue_api ref_pending
proof unfold_locales
  fix q at w b q'
  show "finite (ref_pending q)" by (rule finite_subset [of _ "set q"]) (auto simp: ref_pending_def)
  show "(a, w) \<in> ref_pending q \<Longrightarrow> a \<noteq> u64_MAX" for a by (simp add: ref_pending_def)
  assume "tq_schedule_wake ref_queue_api q at w = (b, q')" and "at \<noteq> u64_MAX"
  then show "(\<exists>a \<le> at. (a, w) \<in> ref_pending q') \<and> ref_pending q' \<subseteq> insert (at, w) (ref_pending q) \<and>
      (\<forall>a v. (a, v) \<in> ref_pending q \<longrightarrow> v \<noteq> w \<longrightarrow> (a, v) \<in> ref_pending q') \<and> (\<not> b \<longrightarrow> ref_pending q' = ref_pending q)"
    by (auto simp: ref_queue_api_def ref_pending_def dest: word_order.extremum_uniqueI split: if_splits)
next
  fix q now nx q' ws
  assume n: "tq_next_expiration ref_queue_api q now = (nx, q', ws)"
  then have q': "q' = filter (\<lambda>(a, w). now < a) q" and nx: "nx = Min (insert u64_MAX (fst ` set q'))"
    and ws: "ws = map snd (filter (\<lambda>(a, w). a \<le> now \<and> a \<noteq> u64_MAX) q)" by (auto simp: ref_queue_api_def Let_def)
  have "fst ` ref_pending q' = fst ` set q' - {u64_MAX}" by (auto simp: ref_pending_def image_iff Bex_def)
  then have "nx = Min (insert u64_MAX (fst ` ref_pending q'))" using nx Min_insert_MAX [OF finite_imageI [OF finite_set], of fst q'] by (simp only:)
  moreover have "set ws = snd ` {(a, w) \<in> ref_pending q. a \<le> now}" unfolding ws set_map set_filter
    by (rule arg_cong [where f = "image snd"]) (auto simp: ref_pending_def)
  ultimately show "ref_pending q' = {(a, w) \<in> ref_pending q. now < a} \<and> set ws = snd ` {(a, w) \<in> ref_pending q. a \<le> now} \<and>
      nx = Min (insert u64_MAX (fst ` ref_pending q'))"
    unfolding q' by (auto simp: ref_pending_def)
qed

interpretation ref_ktimer: ktimer ref_ktimer_api fst snd
  by unfold_locales (auto simp: ref_ktimer_api_def)

section \<open>Properties\<close>

text \<open>A clock that stands at its last value, a fresh driver, and the driver after a wake was scheduled.\<close>

definition demo_clk :: "nat \<Rightarrow> u64" where
  "demo_clk i = of_nat (100 + min i 1000)"

definition demo_driver :: "((u64 \<times> waker) list, bool \<times> int option) ZephyrTimeDriver" where
  "demo_driver = \<lparr>dr_queue = [], dr_timer = \<lparr>zt_item = (False, None), zt_initialized = False\<rparr>, dr_reads = 0, dr_woken = []\<rparr>"

definition demo_armed :: "((u64 \<times> waker) list, bool \<times> int option) ZephyrTimeDriver" where
  "demo_armed = \<lparr>dr_queue = [(500, 7)], dr_timer = \<lparr>zt_item = (True, Some 502), zt_initialized = True\<rparr>, dr_reads = 3, dr_woken = []\<rparr>"

lemma uint_of_small: "n < 2 ^ 64 \<Longrightarrow> uint (of_nat n :: u64) = int n"
  by (simp add: unsigned_of_nat take_bit_nat_eq_self)

lemma uint_demo_clk: "uint (demo_clk i) = int (100 + min i 1000)"
  unfolding demo_clk_def by (rule uint_of_small) simp

lemma demo_clock: "clock_ok demo_clk"
  by (auto simp: clock_ok_def uint_demo_clk mono_def word_le_def)

interpretation demo_td: time_driver ref_queue_api ref_pending ref_ktimer_api fst snd demo_clk
  by unfold_locales (rule demo_clock)

lemma demo_reach: "td_reach ref_queue_api ref_pending ref_ktimer_api snd demo_clk True demo_driver {}"
  by (rule td_start) (simp_all add: demo_driver_def ref_pending_def)

lemma demo_schedule: "schedule_wake ref_queue_api ref_ktimer_api demo_clk True demo_driver 500 7 = Some (Ret demo_armed)"
proof -
  let ?q = "demo_driver\<lparr>dr_queue := [(500, 7)]\<rparr>"
  have c: "demo_clk 0 = 100" "demo_clk (Suc 0) = 101" "demo_clk (Suc (Suc 0)) = 102" by (simp_all add: demo_clk_def)
  have "\<not> u64_MAX \<le> 500" by (simp only: word_le_def uint_u64_MAX) simp
  then have n: "driver_next ref_queue_api demo_clk ?q = (500, ?q\<lparr>dr_reads := 1\<rparr>)"
    by (simp add: driver_next_def Driver_now_def demo_driver_def ref_queue_api_def c min_def)
  have "u64_add True (500 - 101) 1 = Ret 400" by (simp add: u64_add_def)
  moreover have "timeout_kind (K_timeout 400) = Relative 400" by (simp add: timeout_kind_def)
  ultimately have "alarm_loop ref_queue_api ref_ktimer_api demo_clk True 500 (?q\<lparr>dr_reads := 1\<rparr>) = Some (Ret demo_armed)"
    by (subst alarm_loop.simps)
      (simp add: Driver_now_def ZTimer_set_alarm_def demo_driver_def demo_armed_def ref_ktimer_api_def c)
  moreover have "tq_schedule_wake ref_queue_api (dr_queue demo_driver) 500 7 = (True, [(500, 7)])"
    by (simp add: ref_queue_api_def demo_driver_def)
  ultimately show ?thesis by (simp add: schedule_wake_def n)
qed

lemma demo_armed_reach: "td_reach ref_queue_api ref_pending ref_ktimer_api snd demo_clk True demo_armed {(500, 7)}"
  using td_schedule [OF demo_reach _ demo_schedule] by simp

text \<open>
  C15. The time driver loses no timer. Whatever tasks schedule and whenever interrupts come, the earliest
  pending timer is covered by the kernel's timer, which is armed and is late for it by at most one tick
  and the time between two readings of the clock; and no task is woken before a time that was scheduled
  for it. When the interrupt comes, the call returns, and every timer whose time has come by then leaves
  the queue with its task woken.
\<close>

theorem time_driver_no_lost_wake:
  assumes "time_queue Q pending" and "ktimer K ready due" and "clock_ok clk" and "td_reach Q pending K due clk dbg s H"
  shows "(\<forall>a w. (a, w) \<in> pending (dr_queue s) \<longrightarrow> (\<exists>t j. due (zt_item (dr_timer s)) = Some t \<and>
       t \<le> uint a + 1 + (uint (clk (Suc j)) - uint (clk j)))) \<and>
     (\<forall>w t. (w, t) \<in> set (dr_woken s) \<longrightarrow> (\<exists>a \<le> t. (a, w) \<in> H)) \<and>
     (zt_initialized (dr_timer s) \<longrightarrow> (\<exists>s' new. timer_tick Q K clk dbg s = Some (Ret s') \<and> dr_woken s' = dr_woken s @ new \<and>
        (\<forall>a w. (a, w) \<in> pending (dr_queue s) \<longrightarrow> clk (dr_reads s) < a \<and> (a, w) \<in> pending (dr_queue s') \<or>
           (\<exists>t \<ge> a. (w, t) \<in> set new))))"
proof -
  have d: "time_driver Q pending K ready due clk" using assms(1-3) by (simp add: time_driver_def time_driver_axioms_def)
  note inv = time_driver.td_reach_inv [OF d assms(4)]
  have "\<exists>s' new. timer_tick Q K clk dbg s = Some (Ret s') \<and> dr_woken s' = dr_woken s @ new \<and>
      (\<forall>a w. (a, w) \<in> pending (dr_queue s) \<longrightarrow> clk (dr_reads s) < a \<and> (a, w) \<in> pending (dr_queue s') \<or> (\<exists>t \<ge> a. (w, t) \<in> set new))"
    if init: "zt_initialized (dr_timer s)"
  proof -
    obtain s' j where t: "timer_tick Q K clk dbg s = Some (Ret s')" "woke pending s s'" "dr_reads s < j" "alarm_set pending due clk j s'"
      using time_driver.timer_tick_ends [OF d _ init, of dbg] inv by blast
    have "clk (dr_reads s) \<le> clk j" using assms(3) t(3) by (simp add: clock_ok_def monoD)
    then have "clk (dr_reads s) < a" if "(a, w) \<in> pending (dr_queue s')" for a w
      using t(4) that unfolding alarm_set_def by (meson le_less_trans)
    with t(1) t(2) show ?thesis by (elim wokeE) metis
  qed
  with inv show ?thesis unfolding alarm_set_def by blast
qed

theorem time_driver_no_lost_wake_witness:
  "(\<exists>t j. snd (zt_item (dr_timer demo_armed)) = Some t \<and> t \<le> 500 + 1 + (uint (demo_clk (Suc j)) - uint (demo_clk j))) \<and>
   (\<exists>s' new. timer_tick ref_queue_api ref_ktimer_api demo_clk True demo_armed = Some (Ret s') \<and> dr_woken s' = dr_woken demo_armed @ new)"
proof -
  have "(500, 7) \<in> ref_pending (dr_queue demo_armed)" "zt_initialized (dr_timer demo_armed)"
    by (simp_all add: demo_armed_def ref_pending_def)
  with time_driver_no_lost_wake [OF ref_time_queue.time_queue_axioms ref_ktimer.ktimer_axioms demo_clock demo_armed_reach]
  show ?thesis by fastforce
qed

text \<open>
  C17. The loops of the driver end. From every state that the driver reaches, \<open>schedule_wake\<close> returns
  without a panic, whatever the clock does between the readings; afterwards the task has a timer no later
  than it asked for, or has been woken by the call, and no timer of another task has gone without a wake.
\<close>

theorem time_driver_calls_return:
  assumes "time_queue Q pending" and "ktimer K ready due" and "clock_ok clk" and "td_reach Q pending K due clk dbg s H"
    and "uint at < 2 ^ 63 - 1"
  shows "\<exists>s' new. schedule_wake Q K clk dbg s at w = Some (Ret s') \<and> dr_woken s' = dr_woken s @ new \<and>
    ((\<exists>a \<le> at. (a, w) \<in> pending (dr_queue s')) \<or> (\<exists>t. (w, t) \<in> set new)) \<and>
    (\<forall>a v. (a, v) \<in> pending (dr_queue s) \<longrightarrow> v \<noteq> w \<longrightarrow> (a, v) \<in> pending (dr_queue s') \<or> (\<exists>t \<ge> a. (v, t) \<in> set new))"
proof -
  have d: "time_driver Q pending K ready due clk" using assms(1-3) by (simp add: time_driver_def time_driver_axioms_def)
  obtain s' q where s': "schedule_wake Q K clk dbg s at w = Some (Ret s')" "\<exists>a \<le> at. (a, w) \<in> pending q"
    "\<forall>a v. (a, v) \<in> pending (dr_queue s) \<longrightarrow> v \<noteq> w \<longrightarrow> (a, v) \<in> pending q" "woke pending (s\<lparr>dr_queue := q\<rparr>) s'"
    using time_driver.schedule_wake_ends [OF d _ assms(5), of s dbg w] time_driver.td_reach_inv [OF d assms(4)] by blast
  from s'(4) obtain new where "dr_woken s' = dr_woken s @ new"
    "\<And>a w. (a, w) \<in> pending q \<Longrightarrow> (a, w) \<in> pending (dr_queue s') \<or> (\<exists>t \<ge> a. (w, t) \<in> set new)" by (elim wokeE) auto
  with s'(1-3) show ?thesis by (intro exI [of _ s'] exI [of _ new]) blast
qed

theorem time_driver_calls_return_witness:
  "\<exists>s' new. schedule_wake ref_queue_api ref_ktimer_api demo_clk True demo_armed 40 3 = Some (Ret s') \<and> dr_woken s' = new \<and>
     ((\<exists>a \<le> 40. (a, 3) \<in> ref_pending (dr_queue s')) \<or> (\<exists>t. (3, t) \<in> set new))"
  using time_driver_calls_return [OF ref_time_queue.time_queue_axioms ref_ktimer.ktimer_axioms demo_clock demo_armed_reach, of 40 3]
  by (auto simp: demo_armed_def)

text \<open>
  C40. An idle driver keeps interrupting. With no timer pending, the queue's answer \<open>u64::MAX\<close> becomes the
  absolute timeout of a tick that has passed, so the interrupt of an idle driver arms the timer again for
  the next tick at the latest, and again at each of these interrupts.
\<close>

theorem time_driver_idle_interrupts:
  assumes "time_queue Q pending" and "ktimer K ready due" and "clock_ok clk" and "td_reach Q pending K due clk dbg s H"
    and "zt_initialized (dr_timer s)" and "pending (dr_queue s) = {}"
  shows "\<exists>s' t. timer_tick Q K clk dbg s = Some (Ret s') \<and> pending (dr_queue s') = {} \<and> dr_woken s' = dr_woken s \<and>
    zt_initialized (dr_timer s') \<and> due (zt_item (dr_timer s')) = Some t \<and> t \<le> uint (clk (dr_reads s + 2)) + 1"
proof -
  have d: "time_driver Q pending K ready due clk" using assms(1-3) by (simp add: time_driver_def time_driver_axioms_def)
  let ?s = "s\<lparr>dr_timer := (dr_timer s)\<lparr>zt_item := ktm_expired K (zt_item (dr_timer s))\<rparr>\<rparr>"
  obtain nx s1 where n: "driver_next Q clk ?s = (nx, s1)" by fastforce
  note e = time_driver.driver_next_woke [OF d n]
  have p: "pending (dr_queue s1) = {}" and nx: "nx = u64_MAX" using e(4,5) assms(6) by simp_all
  have w: "dr_woken s1 = dr_woken s" using e(1) assms(6) by (elim wokeE) (auto, metis list.exhaust list.set_intros(1) surj_pair)
  have "ready (zt_item (dr_timer ?s))" using time_driver.td_reach_inv [OF d assms(4)] assms(2,5) by (simp add: driver_ok_def ktimer.expired_ready)
  moreover have "clk (Suc (dr_reads s)) < u64_MAX" 
  proof -
    have "uint (clk (Suc (dr_reads s))) < 2 ^ 63 - 1" using assms(3) by (simp add: clock_ok_def)
    then show ?thesis by (simp only: word_less_def uint_u64_MAX) simp
  qed
  ultimately obtain z t where z: "ZTimer_set_alarm K dbg (clk (Suc (Suc (dr_reads s)))) (dr_timer s1) nx (clk (Suc (dr_reads s))) = Ret (True, z)"
    "zt_initialized z" "due (zt_item z) = Some t" "t \<le> uint (clk (Suc (Suc (dr_reads s)))) + 1"
    using time_driver.set_alarm_arms [OF d, of "dr_timer s1" nx "dr_queue s1" "Suc (dr_reads s)" dbg] e(3,5) p nx by auto
  have "timer_tick Q K clk dbg s = Some (Ret (s1\<lparr>dr_reads := Suc (Suc (dr_reads s1)), dr_timer := z\<rparr>))"
    unfolding timer_tick_def check_alarm_def n Let_def prod.case
    by (subst alarm_loop.simps) (use z(1) e(2) in \<open>simp add: Driver_now_def\<close>)
  then show ?thesis using p w z
    by (intro exI [of _ "s1\<lparr>dr_reads := Suc (Suc (dr_reads s1)), dr_timer := z\<rparr>"] exI [of _ t]) (simp add: numeral_2_eq_2)
qed

text \<open>A wake in the past leaves the driver idle, with the timer armed for the next tick.\<close>

definition demo_idle :: "((u64 \<times> waker) list, bool \<times> int option) ZephyrTimeDriver" where
  "demo_idle = \<lparr>dr_queue = [], dr_timer = \<lparr>zt_item = (True, Some 103), zt_initialized = True\<rparr>, dr_reads = 3, dr_woken = [(7, 100)]\<rparr>"

lemma demo_past: "schedule_wake ref_queue_api ref_ktimer_api demo_clk True demo_driver 50 7 = Some (Ret demo_idle)"
proof -
  let ?q = "demo_driver\<lparr>dr_queue := [(50, 7)]\<rparr>" and ?s = "demo_driver\<lparr>dr_reads := 1, dr_woken := [(7, 100)]\<rparr>"
  have c: "demo_clk 0 = 100" "demo_clk (Suc 0) = 101" "demo_clk (Suc (Suc 0)) = 102" by (simp_all add: demo_clk_def)
  have n: "driver_next ref_queue_api demo_clk ?q = (u64_MAX, ?s)"
    by (simp add: driver_next_def Driver_now_def demo_driver_def ref_queue_api_def c del: set_filter)
  have "\<not> u64_MAX \<le> 101" by (simp only: word_le_def uint_u64_MAX) simp
  with idle_ticks [of 101]
  have "alarm_loop ref_queue_api ref_ktimer_api demo_clk True u64_MAX ?s = Some (Ret demo_idle)"
    by (subst alarm_loop.simps)
      (simp add: Driver_now_def ZTimer_set_alarm_def demo_driver_def demo_idle_def ref_ktimer_api_def c)
  moreover have "tq_schedule_wake ref_queue_api (dr_queue demo_driver) 50 7 = (True, [(50, 7)])"
    by (simp add: ref_queue_api_def demo_driver_def)
  ultimately show ?thesis by (simp add: schedule_wake_def n)
qed

theorem time_driver_idle_interrupts_witness:
  "\<exists>s' t. timer_tick ref_queue_api ref_ktimer_api demo_clk True demo_idle = Some (Ret s') \<and> ref_pending (dr_queue s') = {} \<and>
     snd (zt_item (dr_timer s')) = Some t \<and> t \<le> uint (demo_clk 5) + 1"
proof -
  have r: "td_reach ref_queue_api ref_pending ref_ktimer_api snd demo_clk True demo_idle {(50, 7)}"
    using td_schedule [OF demo_reach _ demo_past] by simp
  have "zt_initialized (dr_timer demo_idle)" "ref_pending (dr_queue demo_idle) = {}" by (simp_all add: demo_idle_def ref_pending_def)
  from time_driver_idle_interrupts [OF ref_time_queue.time_queue_axioms ref_ktimer.ktimer_axioms demo_clock r this]
  show ?thesis by (auto simp: demo_idle_def)
qed

end
