(* ===== verification/Embassy_Executor.thy ===== *)
theory Embassy_Executor
  imports Sys_Sync "HOL-Library.Multiset"
begin

text \<open>
  \<open>zephyr/src/embassy/executor.rs\<close>: the Embassy executor on a Zephyr thread. The raw executor with its run
  queue is the one of the package \<open>embassy-executor\<close>, a parameter. The thread waits on a semaphore of limit
  one between polls; enqueueing a task into an empty run queue calls \<open>__pender\<close>, which gives it.
\<close>

section \<open>The raw executor\<close>

type_synonym task = nat

text \<open>
  Enqueueing answers whether the queue was empty before, in which case the pender is called; \<open>poll\<close> takes
  all tasks that are in the queue when it starts, and then runs them.
\<close>

record 'r raw_executor_api =
  raw_new :: 'r
  raw_enqueue :: "'r \<Rightarrow> task \<Rightarrow> bool \<times> 'r"
  raw_dequeue_all :: "'r \<Rightarrow> task list \<times> 'r"

locale raw_executor =
  fixes R :: "'r raw_executor_api" and queued :: "'r \<Rightarrow> task multiset"
  assumes new_queued: "queued (raw_new R) = {#}"
    and enqueue_law: "raw_enqueue R r t = (b, r') \<Longrightarrow> queued r' = add_mset t (queued r) \<and> (b \<longleftrightarrow> queued r = {#})"
    and dequeue_law: "raw_dequeue_all R r = (ts, r') \<Longrightarrow> mset ts = queued r \<and> queued r' = {#}"

section \<open>The executor\<close>

record 'r Executor =
  ex_inner :: "'r option"
  ex_poll_needed :: Semaphore

definition Executor_new :: "'r Executor outcome" where
  "Executor_new = bind_outcome (Semaphore_new 0 1) (\<lambda>sem. Ret \<lparr>ex_inner = None, ex_poll_needed = sem\<rparr>)"

text \<open>The start of \<open>run\<close>, up to the call of \<open>init\<close>.\<close>

definition Executor_run :: "'r raw_executor_api \<Rightarrow> 'r Executor \<Rightarrow> 'r Executor" where
  "Executor_run R self = self\<lparr>ex_inner := Some (raw_new R)\<rparr>"

definition pender :: "k_sem_api \<Rightarrow> ptr \<Rightarrow> 'r Executor \<Rightarrow> 'r Executor outcome" where
  "pender K addr this = bind_outcome (Semaphore_give K addr (ex_poll_needed this)) (\<lambda>sem. Ret (this\<lparr>ex_poll_needed := sem\<rparr>))"

text \<open>
  The thread of the executor: in \<open>init\<close>, about to take the semaphore, about to poll, or running the tasks
  that the poll took. Any thread or interrupt, and any task, may enqueue a task at any time; the calls of
  \<open>__pender\<close> that are due are counted.
\<close>

datatype ex_pc = Initing | Taking | Polling | Running "task list"

record 'r ex_sys =
  es_executor :: "'r Executor"
  es_pc :: ex_pc
  es_pends :: nat
  es_enqueued :: "task list"
  es_ran :: "task list"

inductive ex_step :: "k_sem_api \<Rightarrow> ptr \<Rightarrow> 'r raw_executor_api \<Rightarrow> 'r ex_sys \<Rightarrow> 'r ex_sys \<Rightarrow> bool" for K addr R where
  enqueue: "ex_inner (es_executor s) = Some r \<Longrightarrow> raw_enqueue R r t = (b, r') \<Longrightarrow>
     ex_step K addr R s (s\<lparr>es_executor := (es_executor s)\<lparr>ex_inner := Some r'\<rparr>, es_pends := es_pends s + of_bool b,
       es_enqueued := es_enqueued s @ [t]\<rparr>)"
| pend: "es_pends s = Suc n \<Longrightarrow> pender K addr (es_executor s) = Ret e \<Longrightarrow>
     ex_step K addr R s (s\<lparr>es_executor := e, es_pends := n\<rparr>)"
| init_done: "es_pc s = Initing \<Longrightarrow> ex_step K addr R s (s\<lparr>es_pc := Taking\<rparr>)"
| taken: "es_pc s = Taking \<Longrightarrow> Semaphore_take K addr (ex_poll_needed (es_executor s)) Timeout_from_Forever = Ret (res, sem) \<Longrightarrow>
     ex_step K addr R s (s\<lparr>es_executor := (es_executor s)\<lparr>ex_poll_needed := sem\<rparr>, es_pc := Polling\<rparr>)"
| poll: "es_pc s = Polling \<Longrightarrow> ex_inner (es_executor s) = Some r \<Longrightarrow> raw_dequeue_all R r = (ts, r') \<Longrightarrow>
     ex_step K addr R s (s\<lparr>es_executor := (es_executor s)\<lparr>ex_inner := Some r'\<rparr>, es_pc := Running ts\<rparr>)"
| run_task: "es_pc s = Running (t # ts) \<Longrightarrow> ex_step K addr R s (s\<lparr>es_pc := Running ts, es_ran := es_ran s @ [t]\<rparr>)"
| polled: "es_pc s = Running [] \<Longrightarrow> ex_step K addr R s (s\<lparr>es_pc := Taking\<rparr>)"

inductive ex_reach :: "k_sem_api \<Rightarrow> ptr \<Rightarrow> 'r raw_executor_api \<Rightarrow> 'r ex_sys \<Rightarrow> bool" for K addr R where
  ex_start: "Executor_new = Ret e \<Longrightarrow>
     ex_reach K addr R \<lparr>es_executor = Executor_run R e, es_pc = Initing, es_pends = 0, es_enqueued = [], es_ran = []\<rparr>"
| ex_next: "ex_reach K addr R s \<Longrightarrow> ex_step K addr R s s' \<Longrightarrow> ex_reach K addr R s'"

section \<open>The invariant\<close>

text \<open>The tasks that the thread has taken and not run.\<close>

primrec batch :: "ex_pc \<Rightarrow> task list" where
  "batch Initing = []"
| "batch Taking = []"
| "batch Polling = []"
| "batch (Running ts) = ts"

text \<open>
  A token is on its way to the poll: a call of the pender is due, the semaphore has one, or the thread has
  taken one and not polled yet.
\<close>

definition token :: "'r ex_sys \<Rightarrow> bool" where
  "token s \<longleftrightarrow> 0 < es_pends s \<or> 0 < sem_val (ex_poll_needed (es_executor s)) \<or> es_pc s = Polling"

definition ex_inv :: "('r \<Rightarrow> task multiset) \<Rightarrow> ptr \<Rightarrow> 'r ex_sys \<Rightarrow> bool" where
  "ex_inv queued addr s \<longleftrightarrow> Semaphore_ok addr (ex_poll_needed (es_executor s)) \<and> sem_cap (ex_poll_needed (es_executor s)) = 1 \<and>
     (\<exists>r. ex_inner (es_executor s) = Some r \<and> (queued r \<noteq> {#} \<longrightarrow> token s) \<and>
        mset (es_enqueued s) = queued r + mset (batch (es_pc s)) + mset (es_ran s))"

context placed_sem
begin

lemma take_forever:
  assumes "Semaphore_ok addr s"
  shows "if sem_val s = 0 then Semaphore_take K addr s K_FOREVER = Blocked
    else \<exists>s'. Semaphore_take K addr s K_FOREVER = Ret (Ok (), s') \<and> Semaphore_ok addr s' \<and> sem_val s' = sem_val s - 1 \<and> sem_cap s' = sem_cap s"
  using take_one [OF assms, of K_FOREVER] take_none [OF assms] by auto

end

locale executor = placed_sem K addr + raw_executor R queued
  for K addr and R :: "'r raw_executor_api" and queued
begin

lemma ex_inv_step: "ex_step K addr R s s' \<Longrightarrow> ex_inv queued addr s \<Longrightarrow> ex_inv queued addr s'"
proof (induction rule: ex_step.induct)
  case (enqueue s r t b r')
  with enqueue_law [OF enqueue(2)] show ?case by (auto simp: ex_inv_def token_def)
next
  case (pend s n e)
  then obtain sem where sem: "Semaphore_give K addr (ex_poll_needed (es_executor s)) = Ret sem" "e = (es_executor s)\<lparr>ex_poll_needed := sem\<rparr>"
    by (auto simp: pender_def outcome_simps)
  with pend give_counts [of "ex_poll_needed (es_executor s)"] show ?case by (auto simp: ex_inv_def token_def split: if_splits)
next
  case (taken s res sem)
  then show ?case using take_forever [of "ex_poll_needed (es_executor s)"]
    by (auto simp: ex_inv_def token_def Timeout_from_Forever_def split: if_splits)
next
  case (poll s r ts r')
  with dequeue_law [OF poll(3)] show ?case by (auto simp: ex_inv_def)
qed (auto simp: ex_inv_def token_def)

lemma ex_reach_inv: "ex_reach K addr R s \<Longrightarrow> ex_inv queued addr s"
proof (induction rule: ex_reach.induct)
  case (ex_start e)
  then have "Executor_run R e = \<lparr>ex_inner = Some (raw_new R), ex_poll_needed = \<lparr>zo_state = 0, zo_object = \<lparr>sem_count = 0, sem_limit = 1\<rparr>\<rparr>\<rparr>"
    by (auto simp: Executor_new_def Semaphore_new_def ZephyrObject_new_raw_def Executor_run_def)
  then show ?case by (simp add: ex_inv_def Semaphore_ok_def zo_placed_def sem_cap_def new_queued)
qed (rule ex_inv_step)

end

section \<open>A reference raw executor\<close>

definition ref_raw_executor :: "task list raw_executor_api" where
  "ref_raw_executor = \<lparr>raw_new = [], raw_enqueue = (\<lambda>r t. (r = [], r @ [t])), raw_dequeue_all = (\<lambda>r. (r, []))\<rparr>"

interpretation ref_raw: raw_executor ref_raw_executor mset
  by unfold_locales (auto simp: ref_raw_executor_def)

interpretation ref_executor: executor ref_sem_api 32 ref_raw_executor mset
  by unfold_locales simp

section \<open>Properties\<close>

text \<open>
  C16. The executor loses no wake-up and runs every task. Whatever is enqueued at whatever time, each enqueued
  task is in the run queue, in the batch that the thread runs, or has been run, exactly as often as it was
  enqueued. While the run queue holds a task, a poll is on its way: a call of the pender is due, or the thread
  has taken a token, or the semaphore has one, and then the thread's wait for it returns at once. The pender
  itself never fails.
\<close>

theorem executor_runs_every_task:
  assumes "zephyr_sem K" and "addr \<noteq> 0" and "raw_executor R queued" and "ex_reach K addr R s"
  shows "\<exists>r. ex_inner (es_executor s) = Some r \<and> mset (es_enqueued s) = queued r + mset (batch (es_pc s)) + mset (es_ran s) \<and>
    (queued r \<noteq> {#} \<longrightarrow> 0 < es_pends s \<or> es_pc s = Polling \<or>
       (\<exists>sem. Semaphore_take K addr (ex_poll_needed (es_executor s)) Timeout_from_Forever = Ret (Ok (), sem))) \<and>
    (\<exists>e. pender K addr (es_executor s) = Ret e)"
proof -
  have K: "placed_sem K addr" using assms(1,2) by (simp add: placed_sem_def placed_sem_axioms_def)
  then have "executor K addr R queued" using assms(3) by (simp add: executor_def)
  from executor.ex_reach_inv [OF this assms(4)] show ?thesis
    using placed_sem.take_forever [OF K, of "ex_poll_needed (es_executor s)"] placed_sem.give_counts [OF K, of "ex_poll_needed (es_executor s)"]
    by (auto simp: ex_inv_def token_def pender_def Timeout_from_Forever_def split: if_splits)
qed

text \<open>A task is enqueued, the pender gives the semaphore, and the thread takes it.\<close>

definition demo_ex :: "task list ex_sys" where
  "demo_ex = \<lparr>es_executor = \<lparr>ex_inner = Some [5], ex_poll_needed = \<lparr>zo_state = 32, zo_object = \<lparr>sem_count = 1, sem_limit = 1\<rparr>\<rparr>\<rparr>,
     es_pc = Taking, es_pends = 0, es_enqueued = [5], es_ran = []\<rparr>"

lemma demo_ex_reach: "ex_reach ref_sem_api 32 ref_raw_executor demo_ex"
proof -
  let ?sem = "\<lparr>zo_state = 0, zo_object = \<lparr>sem_count = 0, sem_limit = 1\<rparr>\<rparr> :: Semaphore"
  let ?s0 = "\<lparr>es_executor = \<lparr>ex_inner = Some [], ex_poll_needed = ?sem\<rparr>, es_pc = Initing, es_pends = 0, es_enqueued = [], es_ran = []\<rparr>
    :: task list ex_sys"
  have "Executor_new = Ret \<lparr>ex_inner = None, ex_poll_needed = ?sem\<rparr>"
    by (simp add: Executor_new_def Semaphore_new_def ZephyrObject_new_raw_def)
  from ex_start [OF this, of ref_sem_api 32 ref_raw_executor]
  have s0: "ex_reach ref_sem_api 32 ref_raw_executor ?s0" by (simp add: Executor_run_def ref_raw_executor_def)
  have "raw_enqueue ref_raw_executor [] 5 = (True, [5])" by (simp add: ref_raw_executor_def)
  from ex_next [OF s0 enqueue [OF _ this]] have
    s1: "ex_reach ref_sem_api 32 ref_raw_executor (?s0\<lparr>es_executor := \<lparr>ex_inner = Some [5], ex_poll_needed = ?sem\<rparr>, es_pends := 1, es_enqueued := [5]\<rparr>)"
    by simp
  have "pender ref_sem_api 32 \<lparr>ex_inner = Some [5], ex_poll_needed = ?sem\<rparr> = Ret (es_executor demo_ex)"
    by (simp add: pender_def demo_ex_def Semaphore_give_def ZephyrObject_get_def ZephyrObject_get_fast_def ZephyrObject_get_critical_def
        Semaphore_init_def ref_sem_api_def)
  with ex_next [OF s1 pend [of _ 0 ref_sem_api 32 "es_executor demo_ex"]]
  have s2: "ex_reach ref_sem_api 32 ref_raw_executor (demo_ex\<lparr>es_pc := Initing\<rparr>)" by (simp add: demo_ex_def)
  from ex_next [OF s2 init_done] show ?thesis by (simp add: demo_ex_def)
qed

theorem executor_runs_every_task_witness:
  "\<exists>r sem. ex_inner (es_executor demo_ex) = Some r \<and>
     Semaphore_take ref_sem_api 32 (ex_poll_needed (es_executor demo_ex)) Timeout_from_Forever = Ret (Ok (), sem)"
proof -
  obtain r where r: "ex_inner (es_executor demo_ex) = Some r"
    "mset r \<noteq> {#} \<longrightarrow> 0 < es_pends demo_ex \<or> es_pc demo_ex = Polling \<or>
       (\<exists>sem. Semaphore_take ref_sem_api 32 (ex_poll_needed (es_executor demo_ex)) Timeout_from_Forever = Ret (Ok (), sem))"
    using executor_runs_every_task [OF ref_sem.zephyr_sem_axioms _ ref_raw.raw_executor_axioms demo_ex_reach] by auto
  then show ?thesis by (auto simp: demo_ex_def)
qed

end
