(* ===== verification/Gpio.thy ===== *)
theory Gpio
  imports Once
begin

text \<open>
  \<open>zephyr/src/device/gpio.rs\<close>: GPIO controllers and pins, and the futures that wait for the level of a
  pin. The driver is a parameter with its documented behaviour (\<open>zephyr_gpio\<close>). Interrupts come between
  any two steps of a task; a task's update of the callback's pin mask is a load and a store.
\<close>

unbundle bit_operations_syntax

section \<open>The driver\<close>

datatype int_mode = INT_DISABLE_ONLY | INT_LEVEL_LOW | INT_LEVEL_HIGH

record gpio_dt_spec =
  dt_port :: ptr
  dt_pin :: u8
  dt_dt_flags :: u16

record 'd gpio_api =
  device_is_ready :: "'d \<Rightarrow> ptr \<Rightarrow> bool"
  gpio_add_callback :: "'d \<Rightarrow> ptr \<Rightarrow> c_int \<times> 'd"
  gpio_pin_interrupt_configure :: "'d \<Rightarrow> ptr \<Rightarrow> u8 \<Rightarrow> int_mode \<Rightarrow> c_int \<times> 'd"
  gpio_pin_configure :: "'d \<Rightarrow> ptr \<Rightarrow> u8 \<Rightarrow> u32 \<Rightarrow> c_int \<times> 'd"
  gpio_pin_toggle_dt :: "'d \<Rightarrow> gpio_dt_spec \<Rightarrow> c_int \<times> 'd"
  gpio_pin_set_dt :: "'d \<Rightarrow> gpio_dt_spec \<Rightarrow> c_int \<Rightarrow> c_int \<times> 'd"
  gpio_pin_get_dt :: "'d \<Rightarrow> gpio_dt_spec \<Rightarrow> c_int"

text \<open>
  The documented behaviour of interrupt configuration: it applies to its pin only, and an error leaves
  the pin as it was. \<open>enabled d port p\<close> says that the interrupt of pin \<open>p\<close> is on.
\<close>

locale zephyr_gpio =
  fixes G :: "'d gpio_api" and enabled :: "'d \<Rightarrow> ptr \<Rightarrow> nat \<Rightarrow> bool"
  assumes configure_pin: "gpio_pin_interrupt_configure G d port pin m = (r, d') \<Longrightarrow>
      enabled d' port p = (if p = unat pin \<and> r = 0 then m \<noteq> INT_DISABLE_ONLY else enabled d port p)"
    and add_callback_keeps: "gpio_add_callback G d port = (r, d') \<Longrightarrow> enabled d' port p = enabled d port p"

section \<open>Per-controller data\<close>

record GpioStatic =
  gp_wakers :: "nat option list"
  gp_fired :: u32
  gp_installed :: bool
  gp_mask :: u32

definition GpioStatic_new :: GpioStatic where
  "GpioStatic_new = \<lparr>gp_wakers = replicate 32 None, gp_fired = 0, gp_installed = False, gp_mask = 0\<rparr>"

text \<open>A controller: its driver, its static data, and the wakers that were called.\<close>

record 'd gpio_port =
  gd_dev :: 'd
  gd_static :: GpioStatic
  gd_woken :: "nat set"

text \<open>\<open>1 << pin\<close> on a \<open>u32\<close>, with and without overflow checks.\<close>

definition pin_bit :: "nat \<Rightarrow> u32" where
  "pin_bit n = push_bit n 1"

definition shl_pin :: "bool \<Rightarrow> u8 \<Rightarrow> u32 outcome" where
  "shl_pin dbg pin =
     (if unat pin < 32 then Ret (pin_bit (unat pin))
      else if dbg then Panic ''attempt to shift left with overflow'' else Ret (pin_bit (unat pin mod 32)))"

definition fast_install_needed :: "GpioStatic \<Rightarrow> bool" where
  "fast_install_needed self = (\<not> gp_installed self)"

text \<open>\<open>install\<close>, in its critical section: \<open>gpio_init_callback\<close> clears the pin mask.\<close>

definition GpioStatic_install :: "'d gpio_api \<Rightarrow> ptr \<Rightarrow> 'd gpio_port \<Rightarrow> 'd gpio_port" where
  "GpioStatic_install G port s =
     (if gp_installed (gd_static s) then s
      else s\<lparr>gd_dev := snd (gpio_add_callback G (gd_dev s) port),
             gd_static := (gd_static s)\<lparr>gp_mask := 0, gp_installed := True\<rparr>\<rparr>)"

text \<open>\<open>register\<close>: the waker, then the pin mask, read and written back.\<close>

definition register_waker :: "u8 \<Rightarrow> nat \<Rightarrow> GpioStatic \<Rightarrow> GpioStatic outcome" where
  "register_waker pin waker self =
     (if unat pin < length (gp_wakers self) then Ret (self\<lparr>gp_wakers := (gp_wakers self)[unat pin := Some waker]\<rparr>)
      else Panic ''index out of bounds'')"

definition register_mask :: "bool \<Rightarrow> u8 \<Rightarrow> u32 \<Rightarrow> GpioStatic \<Rightarrow> GpioStatic outcome" where
  "register_mask dbg pin loaded self =
     bind_outcome (shl_pin dbg pin) (\<lambda>b. Ret (self\<lparr>gp_mask := loaded OR b\<rparr>))"

definition has_fired :: "bool \<Rightarrow> u8 \<Rightarrow> GpioStatic \<Rightarrow> (bool \<times> GpioStatic) outcome" where
  "has_fired dbg pin self =
     bind_outcome (shl_pin dbg pin) (\<lambda>b.
       let old = gp_fired self in Ret (old AND b \<noteq> 0, self\<lparr>gp_fired := old AND NOT b\<rparr>))"

section \<open>The interrupt handler\<close>

definition trailing_zeros :: "u32 \<Rightarrow> nat" where
  "trailing_zeros w = (case List.find (bit w) [0..<32] of Some n \<Rightarrow> n | None \<Rightarrow> 32)"

text \<open>One round of the loop of \<open>callback_handler\<close>.\<close>

definition handler_pin :: "'d gpio_api \<Rightarrow> ptr \<Rightarrow> nat \<Rightarrow> 'd gpio_port \<Rightarrow> 'd gpio_port outcome" where
  "handler_pin G port pin s =
     (let d = snd (gpio_pin_interrupt_configure G (gd_dev s) port (of_nat pin) INT_DISABLE_ONLY);
          st = gd_static s;
          st = st\<lparr>gp_mask := gp_mask st AND NOT (pin_bit pin)\<rparr>;
          st = st\<lparr>gp_fired := gp_fired st OR pin_bit pin\<rparr>
      in if pin < length (gp_wakers st)
         then Ret \<lparr>gd_dev = d, gd_static = st\<lparr>gp_wakers := (gp_wakers st)[pin := None]\<rparr>,
                  gd_woken = gd_woken s \<union> set_option (gp_wakers st ! pin)\<rparr>
         else Panic ''index out of bounds'')"

lemma bit_pin_bit: "bit (pin_bit n) q \<longleftrightarrow> q = n \<and> n < 32"
  by (auto simp: pin_bit_def bit_simps)

lemma trailing_zeros_bit: "pins \<noteq> 0 \<Longrightarrow> trailing_zeros pins < 32 \<and> bit pins (trailing_zeros pins)"
proof -
  assume "pins \<noteq> 0"
  then obtain n where "bit pins n" by (metis bit_0_eq bit_eqI bot_apply bot_bool_def)
  then have "n < 32" "bit pins n" using bit_imp_le_length [of pins n] by auto
  then have "List.find (bit pins) [0..<32] \<noteq> None"
    unfolding find_None_iff by (metis atLeastLessThan_iff le0 set_upt)
  then obtain m where m: "List.find (bit pins) [0..<32] = Some m" by auto
  then have "m \<in> set [0..<32] \<and> bit pins m" by (metis find_Some_iff nth_mem)
  with m show ?thesis by (simp add: trailing_zeros_def)
qed

function callback_handler :: "'d gpio_api \<Rightarrow> ptr \<Rightarrow> u32 \<Rightarrow> 'd gpio_port \<Rightarrow> 'd gpio_port outcome" where
  "callback_handler G port pins s =
     (if pins > 0 then
        let pin = trailing_zeros pins; pins = pins AND NOT (pin_bit pin)
        in bind_outcome (handler_pin G port pin s) (\<lambda>s. callback_handler G port pins s)
      else Ret s)"
  by pat_completeness auto
termination
proof (relation "measure (\<lambda>(G, port, pins, s). card {n. n < 32 \<and> bit pins n})", goal_cases)
  case (2 G port pins s pin pins' s')
  then have t: "trailing_zeros pins < 32" "bit pins (trailing_zeros pins)"
    using trailing_zeros_bit [of pins] by (auto simp: word_gt_0)
  then have "{n. n < 32 \<and> bit pins' n} \<subset> {n. n < 32 \<and> bit pins n}"
    using 2 by (auto simp: bit_simps bit_pin_bit)
  then show ?case by (auto intro: psubset_card_mono)
qed auto

declare callback_handler.simps [simp del]

section \<open>Devices and pins\<close>

record Gpio =
  go_device :: ptr

record GpioPin =
  gpn_pin :: gpio_dt_spec

text \<open>The static data of a pin is that of its controller.\<close>

definition Gpio_new :: "Unique \<Rightarrow> ptr \<Rightarrow> Gpio option \<times> Unique" where
  "Gpio_new unique device =
     (let (first, unique) = Unique_once unique in (if \<not> first then None else Some \<lparr>go_device = device\<rparr>, unique))"

definition Gpio_is_ready :: "'d gpio_api \<Rightarrow> 'd \<Rightarrow> Gpio \<Rightarrow> bool" where
  "Gpio_is_ready G d self = device_is_ready G d (go_device self)"

definition GpioPin_raw_new :: "ptr \<Rightarrow> u32 \<Rightarrow> u32 \<Rightarrow> GpioPin" where
  "GpioPin_raw_new device pin dt_flags = \<lparr>gpn_pin = \<lparr>dt_port = device, dt_pin = ucast pin, dt_dt_flags = ucast dt_flags\<rparr>\<rparr>"

definition GpioPin_new :: "Unique \<Rightarrow> ptr \<Rightarrow> u32 \<Rightarrow> u32 \<Rightarrow> GpioPin option \<times> Unique" where
  "GpioPin_new unique device pin dt_flags =
     (let (first, unique) = Unique_once unique in
      (if \<not> first then None
       else Some \<lparr>gpn_pin = \<lparr>dt_port = device, dt_pin = ucast pin, dt_dt_flags = ucast dt_flags\<rparr>\<rparr>, unique))"

definition GpioPin_get_gpio :: "GpioPin \<Rightarrow> Gpio" where
  "GpioPin_get_gpio self = \<lparr>go_device = dt_port (gpn_pin self)\<rparr>"

definition GpioPin_is_ready :: "'d gpio_api \<Rightarrow> 'd \<Rightarrow> GpioPin \<Rightarrow> bool" where
  "GpioPin_is_ready G d self = Gpio_is_ready G d (GpioPin_get_gpio self)"

definition GpioPin_configure :: "'d gpio_api \<Rightarrow> 'd \<Rightarrow> GpioPin \<Rightarrow> u32 \<Rightarrow> 'd" where
  "GpioPin_configure G d self extra_flags = snd (gpio_pin_configure G d (dt_port (gpn_pin self)) (dt_pin (gpn_pin self))
     (ucast (dt_dt_flags (gpn_pin self)) OR extra_flags))"

definition GpioPin_toggle_pin :: "'d gpio_api \<Rightarrow> 'd \<Rightarrow> GpioPin \<Rightarrow> 'd" where
  "GpioPin_toggle_pin G d self = snd (gpio_pin_toggle_dt G d (gpn_pin self))"

definition GpioPin_set :: "'d gpio_api \<Rightarrow> 'd \<Rightarrow> GpioPin \<Rightarrow> bool \<Rightarrow> 'd" where
  "GpioPin_set G d self v = snd (gpio_pin_set_dt G d (gpn_pin self) (if v then 1 else 0))"

definition GpioPin_get :: "'d gpio_api \<Rightarrow> 'd \<Rightarrow> GpioPin \<Rightarrow> bool outcome" where
  "GpioPin_get G d self =
     (let r = gpio_pin_get_dt G d (gpn_pin self)
      in if r = 0 then Ret False else if r = 1 then Ret True else Panic ''TODO: Handle gpio get error'')"

definition wait_mode :: "u8 \<Rightarrow> int_mode outcome" where
  "wait_mode level = (if level = 0 then Ret INT_LEVEL_LOW else if level = 1 then Ret INT_LEVEL_HIGH
     else Panic ''internal error: entered unreachable code'')"

section \<open>Waiting\<close>

text \<open>
  \<open>GpioWait::poll\<close> without interruption, for the pin \<open>self\<close>, the level it waits for and the task's waker;
  \<open>True\<close> is \<open>Ready\<close>.
\<close>

definition GpioWait_poll ::
    "'d gpio_api \<Rightarrow> bool \<Rightarrow> GpioPin \<Rightarrow> u8 \<Rightarrow> nat \<Rightarrow> 'd gpio_port \<Rightarrow> (bool \<times> 'd gpio_port) outcome" where
  "GpioWait_poll G dbg self level waker s =
     (let port = dt_port (gpn_pin self); pin = dt_pin (gpn_pin self);
          s = (if fast_install_needed (gd_static s) then GpioStatic_install G port s else s) in
      bind_outcome (has_fired dbg pin (gd_static s)) (\<lambda>(fired, st).
      if fired then Ret (True, s\<lparr>gd_static := st\<rparr>)
      else
        bind_outcome (register_waker pin waker st) (\<lambda>st.
        bind_outcome (register_mask dbg pin (gp_mask st) st) (\<lambda>st.
        bind_outcome (wait_mode level) (\<lambda>mode.
          let d = snd (gpio_pin_interrupt_configure G (gd_dev s) port pin mode) in
          bind_outcome (has_fired dbg pin st) (\<lambda>(fired, st).
            Ret (fired, s\<lparr>gd_dev := d, gd_static := st\<rparr>)))))))"

text \<open>
  The same call in its steps. Task \<open>p\<close> waits for pin \<open>p\<close> of one controller and \<open>p\<close> is its waker; \<open>r\<close> is what
  the interrupt configuration returned, which the code does not look at.
\<close>

datatype wait_pc = WIdle | WInstall | WCheck | WReg | WLoad | WStore u32 | WConf | WCheck2 c_int | WPending c_int | WReady

record 'd gw_sys =
  gw_port :: "'d gpio_port"
  gw_pc :: "nat \<Rightarrow> wait_pc"
  gw_events :: "nat \<Rightarrow> nat"
  gw_readies :: "nat \<Rightarrow> nat"

definition wgoto :: "nat \<Rightarrow> wait_pc \<Rightarrow> 'd gw_sys \<Rightarrow> 'd gw_sys" where
  "wgoto p pc s = s\<lparr>gw_pc := (gw_pc s)(p := pc)\<rparr>"

definition on_static :: "GpioStatic \<Rightarrow> 'd gw_sys \<Rightarrow> 'd gw_sys" where
  "on_static st s = s\<lparr>gw_port := (gw_port s)\<lparr>gd_static := st\<rparr>\<rparr>"

abbreviation gw_static :: "'d gw_sys \<Rightarrow> GpioStatic" where
  "gw_static s \<equiv> gd_static (gw_port s)"

inductive wait_step :: "'d gpio_api \<Rightarrow> ptr \<Rightarrow> int_mode \<Rightarrow> nat \<Rightarrow> 'd gw_sys \<Rightarrow> 'd gw_sys \<Rightarrow> bool" for G port mode p where
  begin_poll: "gw_pc s p = WIdle \<or> gw_pc s p = WPending r \<Longrightarrow>
     wait_step G port mode p s
       (wgoto p (if fast_install_needed (gw_static s) then WInstall else WCheck)
         (s\<lparr>gw_port := (gw_port s)\<lparr>gd_woken := gd_woken (gw_port s) - {p}\<rparr>\<rparr>))"
| do_install: "gw_pc s p = WInstall \<Longrightarrow>
     wait_step G port mode p s (wgoto p WCheck (s\<lparr>gw_port := GpioStatic_install G port (gw_port s)\<rparr>))"
| check: "gw_pc s p = WCheck \<Longrightarrow> has_fired True (of_nat p) (gw_static s) = Ret (fired, st) \<Longrightarrow>
     wait_step G port mode p s
       (wgoto p (if fired then WReady else WReg) (on_static st (s\<lparr>gw_readies := (gw_readies s)(p := gw_readies s p + (if fired then 1 else 0))\<rparr>)))"
| set_waker: "gw_pc s p = WReg \<Longrightarrow> register_waker (of_nat p) p (gw_static s) = Ret st \<Longrightarrow>
     wait_step G port mode p s (wgoto p WLoad (on_static st s))"
| load_mask: "gw_pc s p = WLoad \<Longrightarrow> wait_step G port mode p s (wgoto p (WStore (gp_mask (gw_static s))) s)"
| store_mask: "gw_pc s p = WStore v \<Longrightarrow> register_mask True (of_nat p) v (gw_static s) = Ret st \<Longrightarrow>
     wait_step G port mode p s (wgoto p WConf (on_static st s))"
| configure: "gw_pc s p = WConf \<Longrightarrow> gpio_pin_interrupt_configure G (gd_dev (gw_port s)) port (of_nat p) mode = (r, d) \<Longrightarrow>
     wait_step G port mode p s (wgoto p (WCheck2 r) (s\<lparr>gw_port := (gw_port s)\<lparr>gd_dev := d\<rparr>\<rparr>))"
| check_again: "gw_pc s p = WCheck2 r \<Longrightarrow> has_fired True (of_nat p) (gw_static s) = Ret (fired, st) \<Longrightarrow>
     wait_step G port mode p s
       (wgoto p (if fired then WReady else WPending r)
         (on_static st (s\<lparr>gw_readies := (gw_readies s)(p := gw_readies s p + (if fired then 1 else 0))\<rparr>)))"
| finish: "gw_pc s p \<in> {WReady, WPending r} \<Longrightarrow> wait_step G port mode p s (wgoto p WIdle s)"

text \<open>
  The interrupt of the pins \<open>raised\<close>, all of them enabled: the driver calls the handler with those of the
  callback's mask. A step of the whole: an interrupt, or a step of a task. \<open>excl\<close> says that the tasks are
  on one executor, so that no task begins while another is between its load and its store.
\<close>

definition mid_update :: "wait_pc \<Rightarrow> bool" where
  "mid_update pc \<longleftrightarrow> (case pc of WStore _ \<Rightarrow> True | _ \<Rightarrow> False)"

inductive gw_step :: "'d gpio_api \<Rightarrow> ('d \<Rightarrow> ptr \<Rightarrow> nat \<Rightarrow> bool) \<Rightarrow> ptr \<Rightarrow> (nat \<Rightarrow> int_mode) \<Rightarrow> bool \<Rightarrow> 'd gw_sys \<Rightarrow> 'd gw_sys \<Rightarrow> bool"
  for G enabled port mode excl where
  task: "p < 32 \<Longrightarrow> (excl \<longrightarrow> (\<forall>q. q \<noteq> p \<longrightarrow> \<not> mid_update (gw_pc s q))) \<Longrightarrow> wait_step G port (mode p) p s s' \<Longrightarrow>
     gw_step G enabled port mode excl s s'"
| interrupt: "gp_installed (gw_static s) \<Longrightarrow> (\<forall>p. bit raised p \<longrightarrow> enabled (gd_dev (gw_port s)) port p) \<Longrightarrow>
     callback_handler G port (raised AND gp_mask (gw_static s)) (gw_port s) = Ret g \<Longrightarrow>
     gw_step G enabled port mode excl s (s\<lparr>gw_port := g,
       gw_events := (\<lambda>p. gw_events s p + (if bit (raised AND gp_mask (gw_static s)) p then 1 else 0))\<rparr>)"

definition gw_start :: "'d \<Rightarrow> 'd gw_sys" where
  "gw_start d = \<lparr>gw_port = \<lparr>gd_dev = d, gd_static = GpioStatic_new, gd_woken = {}\<rparr>, gw_pc = (\<lambda>_. WIdle),
     gw_events = (\<lambda>_. 0), gw_readies = (\<lambda>_. 0)\<rparr>"

inductive gw_reach for G enabled port mode excl where
  gw_init: "gw_reach G enabled port mode excl (gw_start d)"
| gw_more: "gw_reach G enabled port mode excl s \<Longrightarrow> gw_step G enabled port mode excl s s' \<Longrightarrow>
     gw_reach G enabled port mode excl s'"

section \<open>The handler\<close>

definition handled :: "('d \<Rightarrow> ptr \<Rightarrow> nat \<Rightarrow> bool) \<Rightarrow> ptr \<Rightarrow> u32 \<Rightarrow> 'd gpio_port \<Rightarrow> 'd gpio_port \<Rightarrow> bool" where
  "handled enabled port pins g g' \<longleftrightarrow>
     length (gp_wakers (gd_static g')) = 32 \<and> gp_installed (gd_static g') = gp_installed (gd_static g) \<and>
     (\<forall>q. bit (gp_mask (gd_static g')) q \<longleftrightarrow> bit (gp_mask (gd_static g)) q \<and> \<not> bit pins q) \<and>
     (\<forall>q. bit (gp_fired (gd_static g')) q \<longleftrightarrow> bit (gp_fired (gd_static g)) q \<or> bit pins q) \<and>
     (\<forall>q < 32. gp_wakers (gd_static g') ! q = (if bit pins q then None else gp_wakers (gd_static g) ! q)) \<and>
     (\<forall>t. t \<in> gd_woken g' \<longleftrightarrow> t \<in> gd_woken g \<or> (\<exists>q < 32. bit pins q \<and> gp_wakers (gd_static g) ! q = Some t)) \<and>
     (\<forall>q. \<not> bit pins q \<longrightarrow> enabled (gd_dev g') port q = enabled (gd_dev g) port q)"

lemma unat_of_pin: "n < 32 \<Longrightarrow> unat (of_nat n :: u8) = n"
  by (simp add: unat_of_nat take_bit_nat_eq_self)

lemma handled_none: "length (gp_wakers (gd_static g)) = 32 \<Longrightarrow> handled enabled port 0 g g"
  by (simp add: handled_def)

lemma handled_trans:
  assumes "handled enabled port (pin_bit n) g g1" and "handled enabled port (pins AND NOT (pin_bit n)) g1 g2"
    and "n < 32" and "bit pins n"
  shows "handled enabled port pins g g2"
proof -
  have b: "bit (pins AND NOT (pin_bit n)) q \<longleftrightarrow> bit pins q \<and> q \<noteq> n" if "q < 32" for q
    using assms(3) that by (auto simp: bit_simps bit_pin_bit)
  have out: "\<not> bit (w :: u32) q" if "\<not> q < 32" for w q using that bit_imp_le_length [of w q] by auto
  have b': "bit (pins AND NOT (pin_bit n)) q \<longleftrightarrow> bit pins q \<and> q \<noteq> n" for q
    using b [of q] out [of q] by (cases "q < 32") auto
  note h1 = assms(1) [unfolded handled_def bit_pin_bit] and h2 = assms(2) [unfolded handled_def b']
  let ?f = gd_static
  have m1: "bit (gp_mask (?f g1)) q \<longleftrightarrow> bit (gp_mask (?f g)) q \<and> \<not> (q = n \<and> n < 32)" for q using h1 by (elim conjE) blast
  have m2: "bit (gp_mask (?f g2)) q \<longleftrightarrow> bit (gp_mask (?f g1)) q \<and> \<not> (bit pins q \<and> q \<noteq> n)" for q using h2 by (elim conjE) blast
  have f1: "bit (gp_fired (?f g1)) q \<longleftrightarrow> bit (gp_fired (?f g)) q \<or> q = n \<and> n < 32" for q using h1 by (elim conjE) blast
  have f2: "bit (gp_fired (?f g2)) q \<longleftrightarrow> bit (gp_fired (?f g1)) q \<or> bit pins q \<and> q \<noteq> n" for q using h2 by (elim conjE) blast
  have w1: "gp_wakers (?f g1) ! q = (if q = n \<and> n < 32 then None else gp_wakers (?f g) ! q)" if "q < 32" for q
    using h1 that by (elim conjE) blast
  have w2: "gp_wakers (?f g2) ! q = (if bit pins q \<and> q \<noteq> n then None else gp_wakers (?f g1) ! q)" if "q < 32" for q
    using h2 that by (elim conjE) blast
  have k1: "t \<in> gd_woken g1 \<longleftrightarrow> t \<in> gd_woken g \<or> (\<exists>q < 32. (q = n \<and> n < 32) \<and> gp_wakers (?f g) ! q = Some t)" for t
    using h1 by (elim conjE) blast
  have k2: "t \<in> gd_woken g2 \<longleftrightarrow> t \<in> gd_woken g1 \<or> (\<exists>q < 32. (bit pins q \<and> q \<noteq> n) \<and> gp_wakers (?f g1) ! q = Some t)" for t
    using h2 by (elim conjE) blast
  have e1: "\<forall>q. \<not> (q = n \<and> n < 32) \<longrightarrow> enabled (gd_dev g1) port q = enabled (gd_dev g) port q" using h1 by (elim conjE)
  have e2: "\<forall>q. \<not> (bit pins q \<and> q \<noteq> n) \<longrightarrow> enabled (gd_dev g2) port q = enabled (gd_dev g1) port q" using h2 by (elim conjE)
  show ?thesis
    unfolding handled_def
  proof (intro conjI allI impI)
    show "length (gp_wakers (?f g2)) = 32" "gp_installed (?f g2) = gp_installed (?f g)" using h1 h2 by simp_all
    fix q
    show "bit (gp_mask (?f g2)) q \<longleftrightarrow> bit (gp_mask (?f g)) q \<and> \<not> bit pins q" using m1 m2 assms(3,4) by auto
    show "bit (gp_fired (?f g2)) q \<longleftrightarrow> bit (gp_fired (?f g)) q \<or> bit pins q" using f1 f2 assms(3,4) by auto
    show "gp_wakers (?f g2) ! q = (if bit pins q then None else gp_wakers (?f g) ! q)" if "q < 32"
      using w1 [OF that] w2 [OF that] assms(3,4) by auto
    show "enabled (gd_dev g2) port q = enabled (gd_dev g) port q" if "\<not> bit pins q"
      using e1 [rule_format, of q] e2 [rule_format, of q] that assms(4) by auto
  next
    fix t
    have "(\<exists>q < 32. (bit pins q \<and> q \<noteq> n) \<and> gp_wakers (?f g1) ! q = Some t) \<longleftrightarrow>
        (\<exists>q < 32. (bit pins q \<and> q \<noteq> n) \<and> gp_wakers (?f g) ! q = Some t)" using w1 by auto
    then show "t \<in> gd_woken g2 \<longleftrightarrow> t \<in> gd_woken g \<or> (\<exists>q < 32. bit pins q \<and> gp_wakers (?f g) ! q = Some t)"
      unfolding k2 k1 using assms(3,4) by blast
  qed
qed

context zephyr_gpio
begin

lemma handler_pin_handled:
  assumes "n < 32" and "length (gp_wakers (gd_static g)) = 32"
  shows "\<exists>g'. handler_pin G port n g = Ret g' \<and> handled enabled port (pin_bit n) g g'"
proof -
  obtain r d where d: "gpio_pin_interrupt_configure G (gd_dev g) port (of_nat n) INT_DISABLE_ONLY = (r, d)" by fastforce
  have keep: "enabled d port q = enabled (gd_dev g) port q" if "q \<noteq> n" for q
    using configure_pin [OF d] that assms(1) by (simp add: unat_of_pin)
  show ?thesis
    using assms d keep by (auto simp: handler_pin_def handled_def Let_def bit_simps bit_pin_bit dest: bit_imp_le_length)
qed

lemma callback_handler_handled:
  "length (gp_wakers (gd_static g)) = 32 \<Longrightarrow>
   \<exists>g'. callback_handler G port pins g = Ret g' \<and> handled enabled port pins g g'"
proof (induction "card {n. n < 32 \<and> bit pins n}" arbitrary: pins g rule: less_induct)
  case less
  show ?case
  proof (cases "pins = 0")
    case True
    then show ?thesis using handled_none [OF less(2)] by (simp add: callback_handler.simps)
  next
    case False
    let ?n = "trailing_zeros pins" and ?pins = "pins AND NOT (pin_bit (trailing_zeros pins))"
    have n: "?n < 32" "bit pins ?n" using trailing_zeros_bit [OF False] by auto
    obtain g1 where g1: "handler_pin G port ?n g = Ret g1" "handled enabled port (pin_bit ?n) g g1"
      using handler_pin_handled [OF n(1) less(2)] by blast
    have "{k. k < 32 \<and> bit ?pins k} \<subset> {k. k < 32 \<and> bit pins k}" using n by (auto simp: bit_simps bit_pin_bit)
    then have c: "card {k. k < 32 \<and> bit ?pins k} < card {k. k < 32 \<and> bit pins k}" by (auto intro: psubset_card_mono)
    have l1: "length (gp_wakers (gd_static g1)) = 32" using g1(2) by (simp add: handled_def)
    obtain g2 where g2: "callback_handler G port ?pins g1 = Ret g2" "handled enabled port ?pins g1 g2"
      using less(1) [OF c l1] by blast
    have "callback_handler G port pins g = Ret g2"
      using False g1(1) g2(1) by (simp add: callback_handler.simps [of G port pins g] word_gt_0 Let_def)
    with handled_trans [OF g1(2) g2(2) n] show ?thesis by blast
  qed
qed

end

section \<open>What a waiting task can rely on\<close>

definition armed :: "('d \<Rightarrow> ptr \<Rightarrow> nat \<Rightarrow> bool) \<Rightarrow> ptr \<Rightarrow> 'd gw_sys \<Rightarrow> nat \<Rightarrow> c_int \<Rightarrow> bool" where
  "armed enabled port s p r \<longleftrightarrow> gp_wakers (gw_static s) ! p = Some p \<and> bit (gp_mask (gw_static s)) p \<and>
     (r = 0 \<longrightarrow> enabled (gd_dev (gw_port s)) port p)"

definition registered :: "'d gw_sys \<Rightarrow> nat \<Rightarrow> bool" where
  "registered s p \<longleftrightarrow> gp_wakers (gw_static s) ! p = Some p \<or> bit (gp_fired (gw_static s)) p"

definition wait_ok :: "('d \<Rightarrow> ptr \<Rightarrow> nat \<Rightarrow> bool) \<Rightarrow> ptr \<Rightarrow> 'd gw_sys \<Rightarrow> nat \<Rightarrow> bool" where
  "wait_ok enabled port s p \<longleftrightarrow> (case gw_pc s p of
     WLoad \<Rightarrow> registered s p
   | WStore v \<Rightarrow> registered s p \<and> (\<forall>q. q \<noteq> p \<longrightarrow> bit (gp_mask (gw_static s)) q \<longrightarrow> bit v q)
   | WConf \<Rightarrow> armed enabled port s p 1 \<or> bit (gp_fired (gw_static s)) p
   | WCheck2 r \<Rightarrow> armed enabled port s p r \<or> bit (gp_fired (gw_static s)) p
   | WPending r \<Rightarrow> armed enabled port s p r \<or> bit (gp_fired (gw_static s)) p \<and> p \<in> gd_woken (gw_port s)
   | _ \<Rightarrow> True)"

definition gw_base :: "'d gw_sys \<Rightarrow> bool" where
  "gw_base s \<longleftrightarrow> length (gp_wakers (gw_static s)) = 32 \<and> (\<forall>q < 32. gp_wakers (gw_static s) ! q \<in> {None, Some q}) \<and>
     (\<forall>p. gw_pc s p \<notin> {WIdle, WInstall} \<longrightarrow> gp_installed (gw_static s)) \<and>
     (\<forall>p. gw_readies s p + (if bit (gp_fired (gw_static s)) p then 1 else 0) \<le> gw_events s p)"

definition gw_inv :: "('d \<Rightarrow> ptr \<Rightarrow> nat \<Rightarrow> bool) \<Rightarrow> ptr \<Rightarrow> 'd gw_sys \<Rightarrow> bool" where
  "gw_inv enabled port s \<longleftrightarrow> gw_base s \<and> (\<forall>p < 32. wait_ok enabled port s p)"

lemma has_fired_bit:
  assumes "p < 32"
  shows "has_fired True (of_nat p) st = Ret (bit (gp_fired st) p, st\<lparr>gp_fired := gp_fired st AND NOT (pin_bit p)\<rparr>)"
proof -
  have "gp_fired st AND pin_bit p \<noteq> 0 \<longleftrightarrow> bit (gp_fired st) p"
  proof
    assume "bit (gp_fired st) p"
    then have "bit (gp_fired st AND pin_bit p) p" using assms by (simp add: bit_simps bit_pin_bit)
    then show "gp_fired st AND pin_bit p \<noteq> 0" by auto
  next
    assume "gp_fired st AND pin_bit p \<noteq> 0"
    then obtain n where "bit (gp_fired st AND pin_bit p) n" by (metis bit_0_eq bit_eqI bot_apply bot_bool_def)
    then show "bit (gp_fired st) p" by (auto simp: bit_simps bit_pin_bit)
  qed
  then show ?thesis using assms by (simp add: has_fired_def shl_pin_def unat_of_pin Let_def)
qed

lemma bit_clear_pin: "bit (w AND NOT (pin_bit p)) q \<longleftrightarrow> bit w q \<and> q \<noteq> p"
  using bit_imp_le_length [of w q] by (auto simp: bit_simps bit_pin_bit)

lemma bit_set_pin: "p < 32 \<Longrightarrow> bit (w OR pin_bit p) q \<longleftrightarrow> bit w q \<or> q = p"
  by (auto simp: bit_simps bit_pin_bit)

lemma wait_ok_frame:
  assumes "wait_ok enabled port s q" and "gw_pc s' q = gw_pc s q" and "\<not> mid_update (gw_pc s q)"
    and "gp_wakers (gw_static s') ! q = gp_wakers (gw_static s) ! q"
    and "bit (gp_fired (gw_static s')) q = bit (gp_fired (gw_static s)) q"
    and "bit (gp_mask (gw_static s)) q \<Longrightarrow> bit (gp_mask (gw_static s')) q"
    and "q \<in> gd_woken (gw_port s) \<Longrightarrow> q \<in> gd_woken (gw_port s')"
    and "enabled (gd_dev (gw_port s')) port q = enabled (gd_dev (gw_port s)) port q"
  shows "wait_ok enabled port s' q"
  using assms by (auto simp: wait_ok_def registered_def armed_def mid_update_def split: wait_pc.splits)

lemma wgoto_sel [simp]: "gw_port (wgoto p pc s) = gw_port s" "gw_pc (wgoto p pc s) = (gw_pc s)(p := pc)"
  "gw_events (wgoto p pc s) = gw_events s" "gw_readies (wgoto p pc s) = gw_readies s"
  by (simp_all add: wgoto_def)

lemma on_static_sel [simp]: "gw_static (on_static st s) = st" "gw_pc (on_static st s) = gw_pc s"
  "gw_events (on_static st s) = gw_events s" "gw_readies (on_static st s) = gw_readies s"
  "gd_dev (gw_port (on_static st s)) = gd_dev (gw_port s)" "gd_woken (gw_port (on_static st s)) = gd_woken (gw_port s)"
  by (simp_all add: on_static_def)

text \<open>Looking at the fired bit keeps the count of the events.\<close>

lemma base_fired:
  assumes "gw_base s" and "gw_pc s p \<notin> {WIdle, WInstall}"
    and "s' = wgoto p pc (on_static ((gw_static s)\<lparr>gp_fired := gp_fired (gw_static s) AND NOT (pin_bit p)\<rparr>)
      (s\<lparr>gw_readies := (gw_readies s)(p := gw_readies s p + (if bit (gp_fired (gw_static s)) p then 1 else 0))\<rparr>))"
  shows "gw_base s'"
  unfolding gw_base_def
proof (intro conjI allI impI)
  have inst: "gp_installed (gw_static s)" using assms(1,2) unfolding gw_base_def by blast
  fix q
  have "gw_readies s q + (if bit (gp_fired (gw_static s)) q then 1 else 0) \<le> gw_events s q"
    using assms(1) by (simp add: gw_base_def)
  then show "gw_readies s' q + (if bit (gp_fired (gw_static s')) q then 1 else 0) \<le> gw_events s' q"
    unfolding assms(3) by (cases "q = p") (simp_all add: bit_clear_pin)
  show "gp_installed (gw_static s')" using inst unfolding assms(3) by simp
qed (use assms in \<open>simp_all add: gw_base_def\<close>)

lemmas wait_defs = wait_ok_def registered_def armed_def

context zephyr_gpio
begin

lemma interrupt_keeps:
  assumes "gw_inv enabled port s" and "handled enabled port pins (gw_port s) g"
    and "s' = s\<lparr>gw_port := g, gw_events := (\<lambda>p. gw_events s p + (if bit pins p then 1 else 0))\<rparr>"
  shows "gw_inv enabled port s'"
proof -
  note h = assms(2) [unfolded handled_def]
  have base: "gw_base s" and ok: "\<And>p. p < 32 \<Longrightarrow> wait_ok enabled port s p" using assms(1) by (auto simp: gw_inv_def)
  have len: "length (gp_wakers (gd_static g)) = 32" "gp_installed (gd_static g) = gp_installed (gw_static s)" using h by simp_all
  have mask: "bit (gp_mask (gd_static g)) q \<longleftrightarrow> bit (gp_mask (gw_static s)) q \<and> \<not> bit pins q" for q using h by (elim conjE) blast
  have fired: "bit (gp_fired (gd_static g)) q \<longleftrightarrow> bit (gp_fired (gw_static s)) q \<or> bit pins q" for q using h by (elim conjE) blast
  have wak: "\<forall>q < 32. gp_wakers (gd_static g) ! q = (if bit pins q then None else gp_wakers (gw_static s) ! q)"
    using h by (elim conjE)
  have woken: "t \<in> gd_woken g \<longleftrightarrow> t \<in> gd_woken (gw_port s) \<or> (\<exists>q < 32. bit pins q \<and> gp_wakers (gw_static s) ! q = Some t)" for t
    using h by (elim conjE) blast
  have en: "\<forall>q. \<not> bit pins q \<longrightarrow> enabled (gd_dev g) port q = enabled (gd_dev (gw_port s)) port q" using h by (elim conjE)
  have "gw_readies s p \<le> gw_events s p" for p using base by (metis add_leD1 gw_base_def)
  then have "gw_base s'" using base len wak by (auto simp: gw_base_def assms(3) fired)
  moreover have "wait_ok enabled port s' p" if p: "p < 32" for p
  proof (cases "bit pins p")
    case True
    then show ?thesis using ok [OF p] p unfolding assms(3)
      by (auto simp: wait_defs fired mask woken split: wait_pc.splits)
  next
    case False
    then show ?thesis using ok [OF p] p wak en unfolding assms(3)
      by (auto simp: wait_defs fired mask woken split: wait_pc.splits)
  qed
  ultimately show ?thesis by (simp add: gw_inv_def)
qed

lemma task_keeps_others:
  assumes "gw_inv enabled port s" and "\<forall>q. q \<noteq> p \<longrightarrow> \<not> mid_update (gw_pc s q)" and "gw_base s'" and "wait_ok enabled port s' p"
    and "\<And>q. q \<noteq> p \<Longrightarrow> q < 32 \<Longrightarrow> wait_ok enabled port s q \<Longrightarrow> \<not> mid_update (gw_pc s q) \<Longrightarrow> wait_ok enabled port s' q"
  shows "gw_inv enabled port s'"
  using assms unfolding gw_inv_def by metis

lemma task_keeps:
  assumes "wait_step G port m p s s'" and "p < 32" and "m \<noteq> INT_DISABLE_ONLY"
    and others: "\<forall>q. q \<noteq> p \<longrightarrow> \<not> mid_update (gw_pc s q)" and inv: "gw_inv enabled port s"
  shows "gw_inv enabled port s'"
proof -
  note go = task_keeps_others [OF inv others]
  have base: "gw_base s" and own: "wait_ok enabled port s p" using inv assms(2) by (auto simp: gw_inv_def)
  have inst: "gw_pc s p \<noteq> WIdle \<Longrightarrow> gw_pc s p \<noteq> WInstall \<Longrightarrow> gp_installed (gw_static s)" using base by (auto simp: gw_base_def)
  from assms(1) show ?thesis
  proof cases
    case (begin_poll r)
    show ?thesis
    proof (rule go)
      show "gw_base s'" using base unfolding begin_poll by (auto simp: gw_base_def fast_install_needed_def)
      show "wait_ok enabled port s' p" unfolding begin_poll by (simp add: wait_ok_def)
      show "wait_ok enabled port s' q" if "q \<noteq> p" "wait_ok enabled port s q" "\<not> mid_update (gw_pc s q)" for q
        using that unfolding begin_poll by (intro wait_ok_frame [OF that(2) _ that(3)]) auto
    qed
  next
    case do_install
    show ?thesis
    proof (cases "gp_installed (gw_static s)")
      case True
      then have s': "s' = wgoto p WCheck s" using do_install by (simp add: GpioStatic_install_def)
      show ?thesis
      proof (rule go)
        show "gw_base s'" using base True unfolding s' by (auto simp: gw_base_def)
        show "wait_ok enabled port s' p" unfolding s' by (simp add: wait_ok_def)
        show "wait_ok enabled port s' q" if "q \<noteq> p" "wait_ok enabled port s q" "\<not> mid_update (gw_pc s q)" for q
          using that unfolding s' by (intro wait_ok_frame [OF that(2) _ that(3)]) auto
      qed
    next
      case False
      then have idle: "gw_pc s q \<in> {WIdle, WInstall}" for q using base by (auto simp: gw_base_def)
      have ok: "wait_ok enabled port s' q" for q using idle [of q] unfolding do_install by (auto simp: wait_ok_def)
      show ?thesis
      proof (rule go)
        show "gw_base s'" using base False unfolding do_install by (auto simp: gw_base_def GpioStatic_install_def)
      qed (rule ok)+
    qed
  next
    case (check fired st)
    then have st: "fired = bit (gp_fired (gw_static s)) p" "st = (gw_static s)\<lparr>gp_fired := gp_fired (gw_static s) AND NOT (pin_bit p)\<rparr>"
      using has_fired_bit [OF assms(2)] by auto
    show ?thesis
    proof (rule go)
      show "gw_base s'" using base_fired [OF base] check(2) unfolding check(1) st by auto
      show "wait_ok enabled port s' p" unfolding check(1) by (simp add: wait_ok_def)
      show "wait_ok enabled port s' q" if "q \<noteq> p" "wait_ok enabled port s q" "\<not> mid_update (gw_pc s q)" for q
        using that unfolding check(1) st by (intro wait_ok_frame [OF that(2) _ that(3)]) (auto simp: bit_clear_pin)
    qed
  next
    case (set_waker st)
    then have st: "st = (gw_static s)\<lparr>gp_wakers := (gp_wakers (gw_static s))[p := Some p]\<rparr>"
      using base assms(2) by (auto simp: register_waker_def unat_of_pin gw_base_def)
    have len: "length (gp_wakers (gw_static s)) = 32" using base by (simp add: gw_base_def)
    have wak: "\<forall>q < 32. (gp_wakers (gw_static s))[p := Some p] ! q \<in> {None, Some q}"
    proof (intro allI impI)
      fix q :: nat
      assume "q < 32"
      then show "(gp_wakers (gw_static s))[p := Some p] ! q \<in> {None, Some q}"
        using base len by (cases "q = p") (simp_all add: gw_base_def)
    qed
    show ?thesis
    proof (rule go)
      show "gw_base s'" using base wak inst set_waker(2) unfolding set_waker(1) st by (simp add: gw_base_def)
      show "wait_ok enabled port s' p" using len assms(2) unfolding set_waker(1) st by (simp add: wait_ok_def registered_def)
      show "wait_ok enabled port s' q" if "q \<noteq> p" "wait_ok enabled port s q" "\<not> mid_update (gw_pc s q)" for q
        using that unfolding set_waker(1) st by (intro wait_ok_frame [OF that(2) _ that(3)]) auto
    qed
  next
    case load_mask
    show ?thesis
    proof (rule go)
      show "gw_base s'" using base inst load_mask(2) unfolding load_mask(1) by (simp add: gw_base_def)
      show "wait_ok enabled port s' p" using own load_mask(2) unfolding load_mask(1) by (simp add: wait_ok_def registered_def)
      show "wait_ok enabled port s' q" if "q \<noteq> p" "wait_ok enabled port s q" "\<not> mid_update (gw_pc s q)" for q
        using that unfolding load_mask(1) by (intro wait_ok_frame [OF that(2) _ that(3)]) auto
    qed
  next
    case (store_mask v st)
    then have st: "st = (gw_static s)\<lparr>gp_mask := v OR pin_bit p\<rparr>"
      using assms(2) by (auto simp: register_mask_def shl_pin_def unat_of_pin)
    have v: "bit v q" if "q \<noteq> p" "bit (gp_mask (gw_static s)) q" for q using own store_mask(2) that by (auto simp: wait_ok_def)
    show ?thesis
    proof (rule go)
      show "gw_base s'" using base inst store_mask(2) unfolding store_mask(1) st by (simp add: gw_base_def)
      show "wait_ok enabled port s' p" using own store_mask(2) assms(2) unfolding store_mask(1) st
        by (auto simp: wait_defs bit_set_pin)
      show "wait_ok enabled port s' q" if "q \<noteq> p" "wait_ok enabled port s q" "\<not> mid_update (gw_pc s q)" for q
        using that v assms(2) unfolding store_mask(1) st by (intro wait_ok_frame [OF that(2) _ that(3)]) (auto simp: bit_set_pin)
    qed
  next
    case (configure r d)
    have en: "enabled d port q = (if q = p \<and> r = 0 then True else enabled (gd_dev (gw_port s)) port q)" for q
      using configure_pin [OF configure(3), of q] assms(2,3) by (simp add: unat_of_pin)
    show ?thesis
    proof (rule go)
      show "gw_base s'" using base inst configure(2) unfolding configure(1) by (simp add: gw_base_def)
      show "wait_ok enabled port s' p" using own configure(2) unfolding configure(1) by (auto simp: wait_defs en)
      show "wait_ok enabled port s' q" if "q \<noteq> p" "wait_ok enabled port s q" "\<not> mid_update (gw_pc s q)" for q
        using that unfolding configure(1) by (intro wait_ok_frame [OF that(2) _ that(3)]) (auto simp: en)
    qed
  next
    case (check_again r fired st)
    then have st: "fired = bit (gp_fired (gw_static s)) p" "st = (gw_static s)\<lparr>gp_fired := gp_fired (gw_static s) AND NOT (pin_bit p)\<rparr>"
      using has_fired_bit [OF assms(2)] by auto
    show ?thesis
    proof (rule go)
      show "gw_base s'" using base_fired [OF base] check_again(2) unfolding check_again(1) st by auto
      show "wait_ok enabled port s' p" using own check_again(2) unfolding check_again(1) st by (auto simp: wait_defs)
      show "wait_ok enabled port s' q" if "q \<noteq> p" "wait_ok enabled port s q" "\<not> mid_update (gw_pc s q)" for q
        using that unfolding check_again(1) st by (intro wait_ok_frame [OF that(2) _ that(3)]) (auto simp: bit_clear_pin)
    qed
  next
    case (finish r)
    show ?thesis
    proof (rule go)
      show "gw_base s'" using base unfolding finish(1) by (auto simp: gw_base_def)
      show "wait_ok enabled port s' p" unfolding finish(1) by (simp add: wait_ok_def)
      show "wait_ok enabled port s' q" if "q \<noteq> p" "wait_ok enabled port s q" "\<not> mid_update (gw_pc s q)" for q
        using that unfolding finish(1) by (intro wait_ok_frame [OF that(2) _ that(3)]) auto
    qed
  qed
qed

lemma gw_reach_inv:
  assumes "gw_reach G enabled port mode True s" and "\<And>p. mode p \<noteq> INT_DISABLE_ONLY"
  shows "gw_inv enabled port s"
  using assms(1)
proof (induction rule: gw_reach.induct)
  case (gw_init d)
  show ?case by (simp add: gw_inv_def gw_base_def gw_start_def GpioStatic_new_def wait_ok_def)
next
  case (gw_more s s')
  from gw_more(2) show ?case
  proof cases
    case (task p)
    then show ?thesis using task_keeps [OF task(3,1) assms(2)] gw_more(3) by simp
  next
    case (interrupt raised g)
    have "length (gp_wakers (gw_static s)) = 32" using gw_more(3) by (simp add: gw_inv_def gw_base_def)
    then obtain g' where "callback_handler G port (raised AND gp_mask (gw_static s)) (gw_port s) = Ret g'"
      "handled enabled port (raised AND gp_mask (gw_static s)) (gw_port s) g'"
      using callback_handler_handled by blast
    then show ?thesis using interrupt_keeps [OF gw_more(3) _ interrupt(1)] interrupt(4) by simp
  qed
qed

end

section \<open>A poll without interruption\<close>

text \<open>What is installed when the pin is looked at, and the pin as it is then registered.\<close>

definition installed_port :: "'d gpio_api \<Rightarrow> ptr \<Rightarrow> nat \<Rightarrow> 'd gw_sys \<Rightarrow> 'd gpio_port" where
  "installed_port G port p s = GpioStatic_install G port ((gw_port s)\<lparr>gd_woken := gd_woken (gw_port s) - {p}\<rparr>)"

definition looked :: "nat \<Rightarrow> GpioStatic \<Rightarrow> GpioStatic" where
  "looked p st = st\<lparr>gp_fired := gp_fired st AND NOT (pin_bit p)\<rparr>"

lemma looked_sel [simp]: "gp_wakers (looked p st) = gp_wakers st" "gp_mask (looked p st) = gp_mask st"
  "gp_installed (looked p st) = gp_installed st"
  by (simp_all add: looked_def)

abbreviation gw_steps where "gw_steps G enabled port mode excl \<equiv> (gw_step G enabled port mode excl)\<^sup>*\<^sup>*"

lemma task_step:
  "p < 32 \<Longrightarrow> wait_step G port (mode p) p s s' \<Longrightarrow> (excl \<longrightarrow> (\<forall>q. q \<noteq> p \<longrightarrow> \<not> mid_update (gw_pc s q))) \<Longrightarrow>
   gw_step G enabled port mode excl s s'"
  by (rule gw_step.task)

text \<open>From the start of a poll to the first look at the pin.\<close>

lemma steps_to_check:
  assumes "p < 32" and "gw_pc s p = WIdle" and "excl \<longrightarrow> (\<forall>q. q \<noteq> p \<longrightarrow> \<not> mid_update (gw_pc s q))"
  shows "\<exists>s'. gw_steps G enabled port mode excl s s' \<and> gw_port s' = installed_port G port p s \<and>
     gw_pc s' = (gw_pc s)(p := WCheck) \<and> gw_readies s' = gw_readies s"
proof -
  let ?a = "s\<lparr>gw_port := (gw_port s)\<lparr>gd_woken := gd_woken (gw_port s) - {p}\<rparr>\<rparr>"
  let ?b = "wgoto p (if fast_install_needed (gw_static s) then WInstall else WCheck) ?a"
  have "wait_step G port (mode p) p s ?b" by (rule begin_poll) (use assms in simp)
  then have ab: "gw_step G enabled port mode excl s ?b" by (rule task_step [OF assms(1) _ assms(3)])
  show ?thesis
  proof (cases "gp_installed (gw_static s)")
    case True
    then have "?b = wgoto p WCheck ?a" by (simp add: fast_install_needed_def)
    then show ?thesis using ab True by (intro exI [of _ ?b]) (auto simp: installed_port_def GpioStatic_install_def)
  next
    case False
    let ?c = "wgoto p WCheck (?b\<lparr>gw_port := GpioStatic_install G port (gw_port ?b)\<rparr>)"
    have b: "gw_pc ?b = (gw_pc s)(p := WInstall)" using False by (simp add: fast_install_needed_def)
    have "wait_step G port (mode p) p ?b ?c" by (rule do_install) (use False in \<open>simp add: fast_install_needed_def\<close>)
    then have "gw_step G enabled port mode excl ?b ?c" by (rule task_step [OF assms(1)]) (use assms(3) b in auto)
    with ab have "gw_steps G enabled port mode excl s ?c" by (meson r_into_rtranclp rtranclp_trans)
    then show ?thesis by (intro exI [of _ ?c]) (auto simp: installed_port_def)
  qed
qed

text \<open>If the pin has not fired: to the load of the mask.\<close>

lemma steps_to_store:
  assumes "p < 32" and "gw_pc s p = WIdle" and "excl \<longrightarrow> (\<forall>q. q \<noteq> p \<longrightarrow> \<not> mid_update (gw_pc s q))"
    and "length (gp_wakers (gw_static s)) = 32" and "\<not> bit (gp_fired (gw_static s)) p"
  shows "\<exists>s'. gw_steps G enabled port mode excl s s' \<and> gw_pc s' = (gw_pc s)(p := WStore (gp_mask (gw_static s'))) \<and>
     gw_port s' = (installed_port G port p s)\<lparr>gd_static := (looked p (gd_static (installed_port G port p s)))
       \<lparr>gp_wakers := (gp_wakers (gw_static s))[p := Some p]\<rparr>\<rparr>"
proof -
  obtain a where a: "gw_steps G enabled port mode excl s a" "gw_port a = installed_port G port p s"
    "gw_pc a = (gw_pc s)(p := WCheck)" "gw_readies a = gw_readies s" using steps_to_check [OF assms(1-3)] by blast
  have st: "gp_wakers (gw_static a) = gp_wakers (gw_static s)" "gp_fired (gw_static a) = gp_fired (gw_static s)"
    unfolding a(2) by (simp_all add: installed_port_def GpioStatic_install_def)
  have ok: "excl \<longrightarrow> (\<forall>q. q \<noteq> p \<longrightarrow> \<not> mid_update (((gw_pc s)(p := pc)) q))" for pc using assms(3) by simp
  let ?b = "wgoto p WReg (on_static (looked p (gw_static a)) a)"
  have "has_fired True (of_nat p) (gw_static a) = Ret (False, looked p (gw_static a))"
    using assms(1,5) st by (simp add: has_fired_bit looked_def)
  from check [where G = G and port = port and mode = "mode p", OF _ this] have "wait_step G port (mode p) p a ?b" using a(3) by simp
  then have ab: "gw_step G enabled port mode excl a ?b" using task_step [OF assms(1)] ok a(3) by metis
  let ?st = "(looked p (gw_static a))\<lparr>gp_wakers := (gp_wakers (gw_static s))[p := Some p]\<rparr>"
  let ?c = "wgoto p WLoad (on_static ?st ?b)"
  have "register_waker (of_nat p) p (gw_static ?b) = Ret ?st"
    using assms(1,4) st by (simp add: register_waker_def unat_of_pin)
  from set_waker [OF _ this] have "wait_step G port (mode p) p ?b ?c" by simp
  then have bc: "gw_step G enabled port mode excl ?b ?c" by (rule task_step [OF assms(1)]) (use ok a(3) in simp)
  let ?d = "wgoto p (WStore (gp_mask (gw_static ?c))) ?c"
  have "wait_step G port (mode p) p ?c ?d" by (rule load_mask) simp
  then have cd: "gw_step G enabled port mode excl ?c ?d" by (rule task_step [OF assms(1)]) (use ok a(3) in simp)
  have "gw_steps G enabled port mode excl s ?d"
    using a(1) ab bc cd by (meson rtranclp.rtrancl_into_rtrancl)
  then show ?thesis
    by (intro exI [of _ ?d]) (auto simp: a(2,3) on_static_def wgoto_def)
qed

text \<open>From the store to the end of the poll, if the pin has not fired by then.\<close>

lemma steps_to_pending:
  assumes "p < 32" and "gw_pc s p = WStore v" and "excl \<longrightarrow> (\<forall>q. q \<noteq> p \<longrightarrow> \<not> mid_update (gw_pc s q))"
    and "\<not> bit (gp_fired (gw_static s)) p"
    and "gpio_pin_interrupt_configure G (gd_dev (gw_port s)) port (of_nat p) (mode p) = (r, d)"
  shows "\<exists>s'. gw_steps G enabled port mode excl s s' \<and> gw_pc s' = (gw_pc s)(p := WPending r) \<and>
     gw_port s' = (gw_port s)\<lparr>gd_dev := d, gd_static := (looked p (gw_static s))\<lparr>gp_mask := v OR pin_bit p\<rparr>\<rparr>"
proof -
  have ok: "excl \<longrightarrow> (\<forall>q. q \<noteq> p \<longrightarrow> \<not> mid_update (((gw_pc s)(p := pc)) q))" for pc using assms(3) by simp
  let ?st = "(gw_static s)\<lparr>gp_mask := v OR pin_bit p\<rparr>"
  let ?a = "wgoto p WConf (on_static ?st s)"
  have "register_mask True (of_nat p) v (gw_static s) = Ret ?st"
    using assms(1) by (simp add: register_mask_def shl_pin_def unat_of_pin)
  from store_mask [of s p, OF assms(2) this] have "wait_step G port (mode p) p s ?a" .
  then have sa: "gw_step G enabled port mode excl s ?a" by (rule task_step [OF assms(1) _ assms(3)])
  let ?b = "wgoto p (WCheck2 r) (?a\<lparr>gw_port := (gw_port ?a)\<lparr>gd_dev := d\<rparr>\<rparr>)"
  have "wait_step G port (mode p) p ?a ?b" by (rule configure) (use assms(5) in simp_all)
  then have ab: "gw_step G enabled port mode excl ?a ?b" by (rule task_step [OF assms(1)]) (use ok in simp)
  let ?c = "wgoto p (WPending r) (on_static (looked p ?st) ?b)"
  have "has_fired True (of_nat p) (gw_static ?b) = Ret (False, looked p ?st)"
    using assms(1,4) by (simp add: has_fired_bit looked_def)
  from check_again [where G = G and port = port and mode = "mode p", OF _ this] have "wait_step G port (mode p) p ?b ?c"
    by (simp add: wgoto_def on_static_def)
  then have bc: "gw_step G enabled port mode excl ?b ?c" by (rule task_step [OF assms(1)]) (use ok in simp)
  have "gw_steps G enabled port mode excl s ?c" using sa ab bc by (meson r_into_rtranclp rtranclp_trans)
  then show ?thesis by (intro exI [of _ ?c]) (auto simp: wgoto_def on_static_def looked_def)
qed

text \<open>The steps of a poll of a pin that has not fired do what the uninterrupted poll does.\<close>

lemma poll_by_steps:
  assumes "p < 32" and "gw_pc s p = WIdle" and "excl \<longrightarrow> (\<forall>q. q \<noteq> p \<longrightarrow> \<not> mid_update (gw_pc s q))"
    and "length (gp_wakers (gw_static s)) = 32" and "\<not> bit (gp_fired (gw_static s)) p" and "wait_mode level = Ret (mode p)"
    and "dt_port (gpn_pin self) = port" and "dt_pin (gpn_pin self) = of_nat p"
  shows "\<exists>s' r. gw_steps G enabled port mode excl s s' \<and> gw_pc s' = (gw_pc s)(p := WPending r) \<and>
     GpioWait_poll G True self level p ((gw_port s)\<lparr>gd_woken := gd_woken (gw_port s) - {p}\<rparr>) = Ret (False, gw_port s')"
proof -
  obtain a where a: "gw_steps G enabled port mode excl s a" "gw_pc a = (gw_pc s)(p := WStore (gp_mask (gw_static a)))"
    "gw_port a = (installed_port G port p s)\<lparr>gd_static := (looked p (gd_static (installed_port G port p s)))
       \<lparr>gp_wakers := (gp_wakers (gw_static s))[p := Some p]\<rparr>\<rparr>"
    using steps_to_store [OF assms(1-5)] by blast
  have fired: "gp_fired (gw_static a) = gp_fired (gw_static s) AND NOT (pin_bit p)" "gd_dev (gw_port a) = gd_dev (installed_port G port p s)"
    unfolding a(3) by (simp_all add: looked_def installed_port_def GpioStatic_install_def)
  obtain r d where d: "gpio_pin_interrupt_configure G (gd_dev (gw_port a)) port (of_nat p) (mode p) = (r, d)" by fastforce
  have "excl \<longrightarrow> (\<forall>q. q \<noteq> p \<longrightarrow> \<not> mid_update (gw_pc a q))" using assms(3) a(2) by simp
  moreover have "gw_pc a p = WStore (gp_mask (gw_static a))" using a(2) by simp
  moreover have "\<not> bit (gp_fired (gw_static a)) p" by (simp add: fired bit_clear_pin)
  ultimately obtain b where b: "gw_steps G enabled port mode excl a b" "gw_pc b = (gw_pc a)(p := WPending r)"
    "gw_port b = (gw_port a)\<lparr>gd_dev := d, gd_static := (looked p (gw_static a))\<lparr>gp_mask := gp_mask (gw_static a) OR pin_bit p\<rparr>\<rparr>"
    using steps_to_pending [where mode = mode, OF assms(1) _ _ _ d] by blast
  have "gw_steps G enabled port mode excl s b" using a(1) b(1) by (rule rtranclp_trans)
  moreover have "gw_pc b = (gw_pc s)(p := WPending r)" using a(2) b(2) by simp
  moreover have "GpioWait_poll G True self level p ((gw_port s)\<lparr>gd_woken := gd_woken (gw_port s) - {p}\<rparr>) = Ret (False, gw_port b)"
    using assms d [unfolded fired(2)] unfolding b(3) a(3)
    by (cases "gp_installed (gw_static s)")
      (simp_all add: GpioWait_poll_def Let_def has_fired_bit register_waker_def register_mask_def shl_pin_def unat_of_pin
        installed_port_def GpioStatic_install_def fast_install_needed_def looked_def bit_clear_pin and.assoc)
  ultimately show ?thesis by blast
qed

text \<open>Pins that do not fit the controller's data: with overflow checks, the poll panics.\<close>

lemma poll_out_of_range:
  "32 \<le> unat (dt_pin (gpn_pin self)) \<Longrightarrow> GpioWait_poll G True self level waker s = Panic ''attempt to shift left with overflow''"
  by (simp add: GpioWait_poll_def Let_def has_fired_def shl_pin_def)

lemma gw_reach_steps: "gw_reach G enabled port mode excl s \<Longrightarrow> gw_steps G enabled port mode excl s s' \<Longrightarrow> gw_reach G enabled port mode excl s'"
  by (rotate_tac 1, induction rule: rtranclp_induct) (auto intro: gw_more)

section \<open>A driver\<close>

text \<open>A driver that keeps the set of the enabled interrupts of every port.\<close>

definition ref_gpio_api :: "(ptr \<Rightarrow> nat \<Rightarrow> bool) gpio_api" where
  "ref_gpio_api = \<lparr>device_is_ready = (\<lambda>d port. True), gpio_add_callback = (\<lambda>d port. (0, d)),
     gpio_pin_interrupt_configure = (\<lambda>d port pin m. (0, d(port := (d port)(unat pin := m \<noteq> INT_DISABLE_ONLY)))),
     gpio_pin_configure = (\<lambda>d port pin flags. (0, d)), gpio_pin_toggle_dt = (\<lambda>d spec. (0, d)),
     gpio_pin_set_dt = (\<lambda>d spec v. (0, d)), gpio_pin_get_dt = (\<lambda>d spec. 0)\<rparr>"

lemma ref_configure:
  "gpio_pin_interrupt_configure ref_gpio_api d port pin m = (0, d(port := (d port)(unat pin := m \<noteq> INT_DISABLE_ONLY)))"
  by (simp add: ref_gpio_api_def)

interpretation ref_gpio: zephyr_gpio ref_gpio_api "\<lambda>d. d"
  by unfold_locales (auto simp: ref_gpio_api_def)

section \<open>Properties\<close>

text \<open>
  C29. A task that waits for a pin does not miss the pin, if the tasks of the controller run on one
  executor: with the interrupt configured, either the pin has fired and the task was woken, or its waker
  is in place and its interrupt is on and in the mask, so that every interrupt of the pin makes the
  handler record the event and wake the task. And no wait ends without an interrupt of its pin.
\<close>

theorem gpio_no_lost_event:
  assumes "zephyr_gpio G enabled" and "\<forall>p. mode p \<noteq> INT_DISABLE_ONLY" and "gw_reach G enabled port mode True s"
    and "p < 32" and "gw_pc s p = WPending 0"
  shows "(bit (gp_fired (gw_static s)) p \<and> p \<in> gd_woken (gw_port s) \<or>
      enabled (gd_dev (gw_port s)) port p \<and> (\<forall>raised. bit raised p \<longrightarrow>
        (\<exists>g. callback_handler G port (raised AND gp_mask (gw_static s)) (gw_port s) = Ret g \<and>
           p \<in> gd_woken g \<and> bit (gp_fired (gd_static g)) p))) \<and>
    gw_readies s p \<le> gw_events s p"
proof -
  have inv: "gw_inv enabled port s" using zephyr_gpio.gw_reach_inv [OF assms(1,3)] assms(2) by blast
  then have len: "length (gp_wakers (gw_static s)) = 32" and ok: "wait_ok enabled port s p" and
    count: "gw_readies s p \<le> gw_events s p"
    using assms(4) by (auto simp: gw_inv_def gw_base_def intro: add_leD1)
  have "\<exists>g. callback_handler G port (raised AND gp_mask (gw_static s)) (gw_port s) = Ret g \<and>
      p \<in> gd_woken g \<and> bit (gp_fired (gd_static g)) p" if "bit raised p" "armed enabled port s p 0" for raised
  proof -
    obtain g where "callback_handler G port (raised AND gp_mask (gw_static s)) (gw_port s) = Ret g"
      "handled enabled port (raised AND gp_mask (gw_static s)) (gw_port s) g"
      using zephyr_gpio.callback_handler_handled [OF assms(1) len] by blast
    moreover have "bit (raised AND gp_mask (gw_static s)) p" using that by (simp add: armed_def bit_and_iff)
    ultimately show ?thesis using assms(4) that(2) by (auto simp: handled_def armed_def)
  qed
  then show ?thesis using ok count assms(5) by (auto simp: wait_ok_def armed_def)
qed

lemma demo_pending:
  "\<exists>s. gw_reach ref_gpio_api (\<lambda>d. d) 16 (\<lambda>_. INT_LEVEL_HIGH) True s \<and> gw_pc s 5 = WPending 0"
proof -
  let ?s0 = "gw_start (\<lambda>(_ :: ptr) (_ :: nat). False)" and ?steps = "gw_steps ref_gpio_api (\<lambda>d. d) 16 (\<lambda>_. INT_LEVEL_HIGH) True"
  have i: "gw_pc ?s0 q = WIdle" "length (gp_wakers (gw_static ?s0)) = 32" "gp_fired (gw_static ?s0) = 0" for q
    by (simp_all add: gw_start_def GpioStatic_new_def)
  obtain s1 where s1: "?steps ?s0 s1" "gw_pc s1 = (gw_pc ?s0)(5 := WStore (gp_mask (gw_static s1)))"
    "gp_fired (gw_static s1) = gp_fired (gw_static ?s0) AND NOT (pin_bit 5)"
    using steps_to_store [of 5 ?s0 True ref_gpio_api "\<lambda>d. d" 16 "\<lambda>_. INT_LEVEL_HIGH"] i
    by (auto simp: mid_update_def looked_def installed_port_def GpioStatic_install_def)
  obtain s2 where "?steps s1 s2" "gw_pc s2 5 = WPending 0"
    using steps_to_pending [where p = 5 and s = s1 and v = "gp_mask (gw_static s1)" and excl = True and enabled = "\<lambda>d. d"
      and mode = "\<lambda>_. INT_LEVEL_HIGH" and port = 16, OF _ _ _ _ ref_configure]
    by (auto simp: s1(2,3) i mid_update_def)
  with s1(1) show ?thesis using gw_reach_steps [OF gw_init] by (meson rtranclp_trans)
qed

theorem gpio_no_lost_event_witness:
  "\<exists>s :: (ptr \<Rightarrow> nat \<Rightarrow> bool) gw_sys. gw_pc s 5 = WPending 0 \<and> gw_readies s 5 \<le> gw_events s 5 \<and>
     (bit (gp_fired (gw_static s)) 5 \<and> 5 \<in> gd_woken (gw_port s) \<or> gd_dev (gw_port s) 16 5)"
proof -
  obtain s where s: "gw_reach ref_gpio_api (\<lambda>d. d) 16 (\<lambda>_. INT_LEVEL_HIGH) True s" "gw_pc s 5 = WPending 0"
    using demo_pending by blast
  from gpio_no_lost_event [OF ref_gpio.zephyr_gpio_axioms _ s(1) _ s(2)] s(2) show ?thesis by (intro exI [of _ s]) auto
qed

text \<open>
  Without the single executor an event can be lost: the update of the pin mask is a load and a store, and a
  store of another task in between is undone. Then a task waits for pin 5 whose interrupt is on, has
  not fired and is not in the mask: whatever interrupts come, the handler is not called for the pin.
\<close>

lemma gpio_mask_race:
  "\<exists>s. gw_reach ref_gpio_api (\<lambda>d. d) 16 (\<lambda>_. INT_LEVEL_HIGH) False s \<and> gw_pc s 5 = WPending 0 \<and>
     gd_dev (gw_port s) 16 5 \<and> 5 \<notin> gd_woken (gw_port s) \<and> \<not> bit (gp_fired (gw_static s)) 5 \<and>
     (\<forall>raised. \<not> bit (raised AND gp_mask (gw_static s)) 5)"
proof -
  let ?G = ref_gpio_api and ?m = "\<lambda>_. INT_LEVEL_HIGH" and ?s0 = "gw_start (\<lambda>(_ :: ptr) (_ :: nat). False)"
  let ?steps = "gw_steps ?G (\<lambda>d. d) 16 ?m False"
  have i: "gw_pc ?s0 q = WIdle" "gp_wakers (gw_static ?s0) = replicate 32 None" "gp_fired (gw_static ?s0) = 0"
    "gp_mask (gw_static ?s0) = 0" "gd_woken (gw_port ?s0) = {}" for q
    by (simp_all add: gw_start_def GpioStatic_new_def)
  obtain a where a: "?steps ?s0 a" "gw_pc a = (gw_pc ?s0)(3 := WStore (gp_mask (gw_static a)))"
    "length (gp_wakers (gw_static a)) = 32" "gp_fired (gw_static a) = 0" "gp_mask (gw_static a) = 0"
    "gp_installed (gw_static a)" "gd_woken (gw_port a) = {}"
    using steps_to_store [of 3 ?s0 False ?G "\<lambda>d. d" 16 ?m] i
    by (auto simp: looked_def installed_port_def GpioStatic_install_def)
  obtain b where b: "?steps a b" "gw_pc b = (gw_pc a)(5 := WStore (gp_mask (gw_static b)))"
    "gp_fired (gw_static b) = 0" "gd_woken (gw_port b) = {}"
    using steps_to_store [of 5 a False ?G "\<lambda>d. d" 16 ?m] a i
    by (auto simp: looked_def installed_port_def GpioStatic_install_def)
  obtain c where c: "?steps b c" "gw_pc c = (gw_pc b)(5 := WPending 0)" "gd_dev (gw_port c) 16 5"
    "gp_fired (gw_static c) = 0" "gd_woken (gw_port c) = {}"
    using steps_to_pending [where p = 5 and s = b and v = "gp_mask (gw_static b)" and excl = False and enabled = "\<lambda>d. d"
      and mode = ?m and port = 16, OF _ _ _ _ ref_configure] b(2,3,4)
    by (auto simp: looked_def)
  have "gw_pc c 3 = WStore 0" using c(2) b(2) a(2,5) by simp
  from store_mask [OF this, of "(gw_static c)\<lparr>gp_mask := pin_bit 3\<rparr>" ?G 16 "?m 3"]
  have "wait_step ?G 16 (?m 3) 3 c (wgoto 3 WConf (on_static ((gw_static c)\<lparr>gp_mask := pin_bit 3\<rparr>) c))"
    by (simp add: register_mask_def shl_pin_def)
  from task_step [OF _ this] have cd: "gw_step ?G (\<lambda>d. d) 16 ?m False c (wgoto 3 WConf (on_static ((gw_static c)\<lparr>gp_mask := pin_bit 3\<rparr>) c))"
    by simp
  have "?steps ?s0 (wgoto 3 WConf (on_static ((gw_static c)\<lparr>gp_mask := pin_bit 3\<rparr>) c))"
    using a(1) b(1) c(1) cd by (meson rtranclp.rtrancl_into_rtrancl rtranclp_trans)
  from gw_reach_steps [OF gw_init this] c show ?thesis by (intro exI) (auto simp: bit_and_iff bit_pin_bit)
qed

end
