(* ===== verification/I2c.thy ===== *)
theory I2c
  imports Once Error_Time
begin

text \<open>
  \<open>zephyr/src/device/i2c/controller.rs\<close> and \<open>target.rs\<close>: transfers on an I2C bus, and the registration of
  a target, a static object that the bus driver calls back. The driver is a parameter with its documented
  behaviour (\<open>zephyr_i2c\<close>); the flags of a message are those of the C header (\<open>i2c_flags_ok\<close>).
\<close>

unbundle bit_operations_syntax

section \<open>Controller\<close>

text \<open>A buffer is its address and its length; its bytes are read and written by the driver.\<close>

datatype Operation = OpWrite ptr usize | OpRead ptr usize

record i2c_msg =
  im_buf :: ptr
  im_len :: u32
  im_flags :: u8

record i2c_flags =
  MSG_WRITE :: u8
  MSG_READ :: u8
  MSG_RESTART :: u8

definition i2c_flags_ok :: "i2c_flags \<Rightarrow> bool" where
  "i2c_flags_ok F \<longleftrightarrow> MSG_READ F \<noteq> 0 \<and> MSG_WRITE F AND MSG_READ F = 0 \<and> MSG_RESTART F AND MSG_READ F = 0 \<and>
     MSG_RESTART F AND MSG_WRITE F = 0 \<and> MSG_RESTART F \<noteq> 0"

record 'b i2c_api =
  i2c_device_is_ready :: "'b \<Rightarrow> ptr \<Rightarrow> bool"
  i2c_write_read :: "'b \<Rightarrow> ptr \<Rightarrow> u16 \<Rightarrow> ptr \<times> usize \<Rightarrow> ptr \<times> usize \<Rightarrow> c_int \<times> 'b"
  i2c_write :: "'b \<Rightarrow> ptr \<Rightarrow> ptr \<Rightarrow> u32 \<Rightarrow> u16 \<Rightarrow> c_int \<times> 'b"
  i2c_read :: "'b \<Rightarrow> ptr \<Rightarrow> ptr \<Rightarrow> u32 \<Rightarrow> u16 \<Rightarrow> c_int \<times> 'b"
  i2c_transfer :: "'b \<Rightarrow> ptr \<Rightarrow> i2c_msg list \<Rightarrow> u8 \<Rightarrow> u16 \<Rightarrow> c_int \<times> 'b"
  i2c_target_register :: "'b \<Rightarrow> ptr \<Rightarrow> ptr \<Rightarrow> c_int \<times> 'b"
  i2c_target_unregister :: "'b \<Rightarrow> ptr \<Rightarrow> ptr \<Rightarrow> c_int \<times> 'b"

record I2c =
  i2_device :: ptr

definition I2c_new :: "Unique \<Rightarrow> ptr \<Rightarrow> I2c option \<times> Unique" where
  "I2c_new unique device =
     (let (first, unique) = Unique_once unique in (if \<not> first then None else Some \<lparr>i2_device = device\<rparr>, unique))"

definition I2c_is_ready :: "'b i2c_api \<Rightarrow> 'b \<Rightarrow> I2c \<Rightarrow> bool" where
  "I2c_is_ready A b self = i2c_device_is_ready A b (i2_device self)"

definition result_void :: "c_int \<times> 'b \<Rightarrow> (unit, Error) result \<times> 'b" where
  "result_void r = (to_result_void (fst r), snd r)"

definition I2c_write_read :: "'b i2c_api \<Rightarrow> 'b \<Rightarrow> I2c \<Rightarrow> u16 \<Rightarrow> ptr \<times> usize \<Rightarrow> ptr \<times> usize \<Rightarrow> (unit, Error) result \<times> 'b" where
  "I2c_write_read A b self addr write_buf read_buf = result_void (i2c_write_read A b (i2_device self) addr write_buf read_buf)"

definition I2c_write :: "'b i2c_api \<Rightarrow> 'b \<Rightarrow> I2c \<Rightarrow> u16 \<Rightarrow> ptr \<times> usize \<Rightarrow> (unit, Error) result \<times> 'b" where
  "I2c_write A b self addr buf = result_void (i2c_write A b (i2_device self) (fst buf) (ucast (snd buf)) addr)"

definition I2c_read :: "'b i2c_api \<Rightarrow> 'b \<Rightarrow> I2c \<Rightarrow> u16 \<Rightarrow> ptr \<times> usize \<Rightarrow> (unit, Error) result \<times> 'b" where
  "I2c_read A b self addr buf = result_void (i2c_read A b (i2_device self) (fst buf) (ucast (snd buf)) addr)"

definition MAX_TRANSFER_OPS :: nat where "MAX_TRANSFER_OPS = 8"

definition E2BIG :: u32 where "E2BIG = 7"

definition op_parts :: "i2c_flags \<Rightarrow> Operation \<Rightarrow> ptr \<times> usize \<times> u8" where
  "op_parts F oper = (case oper of OpWrite buf len \<Rightarrow> (buf, len, MSG_WRITE F) | OpRead buf len \<Rightarrow> (buf, len, MSG_READ F))"

text \<open>The loop of \<open>transfer\<close>, from index \<open>i\<close> on.\<close>

fun transfer_loop :: "i2c_flags \<Rightarrow> nat \<Rightarrow> Operation list \<Rightarrow> i2c_msg list \<Rightarrow> i2c_msg list outcome" where
  "transfer_loop F i [] msgs = Ret msgs"
| "transfer_loop F i (oper # ops) msgs =
     (if \<not> i < length msgs then Panic ''index out of bounds''
      else
        let (buf_ptr, len, flags) = op_parts F oper;
            flags = (if i > 0 \<and> (im_flags (msgs ! (i - 1)) AND MSG_READ F) \<noteq> (flags AND MSG_READ F)
                     then flags OR MSG_RESTART F else flags)
        in transfer_loop F (i + 1) ops (msgs[i := \<lparr>im_buf = buf_ptr, im_len = ucast len, im_flags = flags\<rparr>]))"

definition i2c_msg_default :: i2c_msg where
  "i2c_msg_default = \<lparr>im_buf = 0, im_len = 0, im_flags = 0\<rparr>"

definition I2c_transfer ::
    "'b i2c_api \<Rightarrow> i2c_flags \<Rightarrow> 'b \<Rightarrow> I2c \<Rightarrow> u16 \<Rightarrow> Operation list \<Rightarrow> ((unit, Error) result \<times> 'b) outcome" where
  "I2c_transfer A F b self addr ops =
     (if length ops > MAX_TRANSFER_OPS then Ret (Err (Error E2BIG), b)
      else bind_outcome (transfer_loop F 0 ops (replicate MAX_TRANSFER_OPS i2c_msg_default)) (\<lambda>msgs.
        Ret (result_void (i2c_transfer A b (i2_device self) msgs (of_nat (length ops)) addr))))"

section \<open>Target\<close>

text \<open>
  A target: whether the callback table is filled in and linked to the configuration, and the flag. Its
  configuration is at the address \<open>cfg\<close>.
\<close>

record I2cTargetData =
  it_cbs :: bool
  it_callbacks :: bool
  it_registered :: bool

definition I2cTargetData_new :: I2cTargetData where
  "I2cTargetData_new = \<lparr>it_cbs = False, it_callbacks = False, it_registered = False\<rparr>"

definition EBUSY :: u32 where "EBUSY = 16"

record I2cTarget =
  tg_device :: ptr
  tg_registered :: bool

text \<open>\<open>register\<close> in its parts: the claim, the writes, the call of the driver, and giving the claim back.\<close>

definition register_claim :: "I2cTargetData \<Rightarrow> bool \<times> I2cTargetData" where
  "register_claim self = (let (old, r) = atomic_swap (it_registered self) True in (old, self\<lparr>it_registered := r\<rparr>))"

definition register_write :: "I2cTargetData \<Rightarrow> I2cTargetData" where
  "register_write self = self\<lparr>it_cbs := True, it_callbacks := True\<rparr>"

definition release_flag :: "I2cTargetData \<Rightarrow> I2cTargetData" where
  "release_flag self = self\<lparr>it_registered := False\<rparr>"

definition I2cTargetData_register ::
    "'b i2c_api \<Rightarrow> ptr \<Rightarrow> 'b \<Rightarrow> I2cTargetData \<Rightarrow> I2c \<Rightarrow> (I2cTarget, Error) result \<times> I2cTargetData \<times> 'b" where
  "I2cTargetData_register A cfg b self i2c =
     (let (old, self) = register_claim self in
      if old then (Err (Error EBUSY), self, b)
      else
        let self = register_write self;
            (r, b) = i2c_target_register A b (i2_device i2c) cfg
        in case to_result_void r of
             Err e \<Rightarrow> (Err e, release_flag self, b)
           | Ok _ \<Rightarrow> (Ok \<lparr>tg_device = i2_device i2c, tg_registered = True\<rparr>, self, b))"

text \<open>\<open>I2c::register_target\<close> registers a configuration of the caller, with no flag to clear.\<close>

definition I2c_register_target :: "'b i2c_api \<Rightarrow> 'b \<Rightarrow> I2c \<Rightarrow> ptr \<Rightarrow> (I2cTarget, Error) result \<times> 'b" where
  "I2c_register_target A b self config =
     (let (r, b) = i2c_target_register A b (i2_device self) config
      in case to_result_void r of
           Err e \<Rightarrow> (Err e, b)
         | Ok _ \<Rightarrow> (Ok \<lparr>tg_device = i2_device self, tg_registered = False\<rparr>, b))"

definition I2cTarget_unregister ::
    "'b i2c_api \<Rightarrow> ptr \<Rightarrow> 'b \<Rightarrow> I2cTarget \<Rightarrow> I2cTargetData \<Rightarrow> (unit, Error) result \<times> I2cTargetData \<times> 'b" where
  "I2cTarget_unregister A cfg b self data =
     (let (r, b) = i2c_target_unregister A b (tg_device self) cfg
      in case to_result_void r of
           Err e \<Rightarrow> (Err e, data, b)
         | Ok _ \<Rightarrow> (Ok (), if tg_registered self then release_flag data else data, b))"

text \<open>The trampolines: the code handed back to C, and the byte written for it.\<close>

definition neg_errno :: "bool \<Rightarrow> Error \<Rightarrow> c_int outcome" where
  "neg_errno dbg e = (if dbg \<and> errno e = 2 ^ 31 then Panic ''attempt to negate with overflow'' else Ret (- errno e))"

definition void_trampoline :: "bool \<Rightarrow> (unit, Error) result \<Rightarrow> c_int outcome" where
  "void_trampoline dbg r = (case r of Ok _ \<Rightarrow> Ret 0 | Err e \<Rightarrow> neg_errno dbg e)"

definition byte_trampoline :: "bool \<Rightarrow> (u8, Error) result \<Rightarrow> u8 \<Rightarrow> (c_int \<times> u8) outcome" where
  "byte_trampoline dbg r val = (case r of
     Ok byte \<Rightarrow> Ret (0, byte)
   | Err e \<Rightarrow> bind_outcome (neg_errno dbg e) (\<lambda>c. Ret (c, val)))"

section \<open>Programs that register a target\<close>

text \<open>
  Threads register the target with any bus and unregister it through the handles they got, or drop these.
  A thread is between two of the steps of a call.
\<close>

datatype reg_pc = TIdle | TClaimed ptr | TWritten ptr | TFailed | TStore

record 'b it_sys =
  ts_data :: I2cTargetData
  ts_bus :: 'b
  ts_pc :: "nat \<Rightarrow> reg_pc"
  ts_handles :: "ptr list"

definition tgo :: "nat \<Rightarrow> reg_pc \<Rightarrow> 'b it_sys \<Rightarrow> 'b it_sys" where
  "tgo t pc s = s\<lparr>ts_pc := (ts_pc s)(t := pc)\<rparr>"

inductive it_step :: "'b i2c_api \<Rightarrow> ptr \<Rightarrow> 'b it_sys \<Rightarrow> 'b it_sys \<Rightarrow> bool" for A cfg where
  claim_busy: "ts_pc s t = TIdle \<Longrightarrow> register_claim (ts_data s) = (True, d) \<Longrightarrow> it_step A cfg s (s\<lparr>ts_data := d\<rparr>)"
| claim: "ts_pc s t = TIdle \<Longrightarrow> register_claim (ts_data s) = (False, d) \<Longrightarrow>
     it_step A cfg s (tgo t (TClaimed dev) (s\<lparr>ts_data := d\<rparr>))"
| write_cbs: "ts_pc s t = TClaimed dev \<Longrightarrow> it_step A cfg s (tgo t (TWritten dev) (s\<lparr>ts_data := register_write (ts_data s)\<rparr>))"
| call_ok: "ts_pc s t = TWritten dev \<Longrightarrow> i2c_target_register A (ts_bus s) dev cfg = (r, b) \<Longrightarrow> to_result_void r = Ok () \<Longrightarrow>
     it_step A cfg s (tgo t TIdle (s\<lparr>ts_bus := b, ts_handles := dev # ts_handles s\<rparr>))"
| call_err: "ts_pc s t = TWritten dev \<Longrightarrow> i2c_target_register A (ts_bus s) dev cfg = (r, b) \<Longrightarrow> to_result_void r = Err e \<Longrightarrow>
     it_step A cfg s (tgo t TFailed (s\<lparr>ts_bus := b\<rparr>))"
| give_back: "ts_pc s t = TFailed \<Longrightarrow> it_step A cfg s (tgo t TIdle (s\<lparr>ts_data := release_flag (ts_data s)\<rparr>))"
| unregister_ok: "ts_pc s t = TIdle \<Longrightarrow> dev \<in> set (ts_handles s) \<Longrightarrow> i2c_target_unregister A (ts_bus s) dev cfg = (r, b) \<Longrightarrow>
     to_result_void r = Ok () \<Longrightarrow> it_step A cfg s (tgo t TStore (s\<lparr>ts_bus := b, ts_handles := remove1 dev (ts_handles s)\<rparr>))"
| unregister_err: "ts_pc s t = TIdle \<Longrightarrow> dev \<in> set (ts_handles s) \<Longrightarrow> i2c_target_unregister A (ts_bus s) dev cfg = (r, b) \<Longrightarrow>
     to_result_void r = Err e \<Longrightarrow> it_step A cfg s (s\<lparr>ts_bus := b, ts_handles := remove1 dev (ts_handles s)\<rparr>)"
| store_flag: "ts_pc s t = TStore \<Longrightarrow> it_step A cfg s (tgo t TIdle (s\<lparr>ts_data := release_flag (ts_data s)\<rparr>))"
| drop_handle: "it_step A cfg s (s\<lparr>ts_handles := remove1 dev (ts_handles s)\<rparr>)"

inductive it_reach :: "'b i2c_api \<Rightarrow> ('b \<Rightarrow> ptr \<Rightarrow> ptr \<Rightarrow> bool) \<Rightarrow> ptr \<Rightarrow> 'b it_sys \<Rightarrow> bool" for A on_bus cfg where
  it_init: "(\<And>dev. \<not> on_bus b dev cfg) \<Longrightarrow>
     it_reach A on_bus cfg \<lparr>ts_data = I2cTargetData_new, ts_bus = b, ts_pc = (\<lambda>_. TIdle), ts_handles = []\<rparr>"
| it_more: "it_reach A on_bus cfg s \<Longrightarrow> it_step A cfg s s' \<Longrightarrow> it_reach A on_bus cfg s'"

text \<open>
  The documented behaviour of the driver: the result is 0 or a negative error, success adds the
  configuration to the bus or takes it off, and an error changes nothing.
\<close>

locale zephyr_i2c =
  fixes A :: "'b i2c_api" and on_bus :: "'b \<Rightarrow> ptr \<Rightarrow> ptr \<Rightarrow> bool"
  assumes register_bus: "i2c_target_register A b dev cfg = (r, b') \<Longrightarrow>
      sint r \<le> 0 \<and> (on_bus b' d c \<longleftrightarrow> on_bus b d c \<or> r = 0 \<and> d = dev \<and> c = cfg)"
    and unregister_bus: "i2c_target_unregister A b dev cfg = (r, b') \<Longrightarrow>
      sint r \<le> 0 \<and> (on_bus b' d c \<longleftrightarrow> on_bus b d c \<and> \<not> (r = 0 \<and> d = dev \<and> c = cfg))"

definition it_inv :: "('b \<Rightarrow> ptr \<Rightarrow> ptr \<Rightarrow> bool) \<Rightarrow> ptr \<Rightarrow> 'b it_sys \<Rightarrow> bool" where
  "it_inv on_bus cfg s \<longleftrightarrow>
     (\<forall>t u. ts_pc s t \<noteq> TIdle \<longrightarrow> ts_pc s u \<noteq> TIdle \<longrightarrow> t = u) \<and>
     (\<forall>t. ts_pc s t \<noteq> TIdle \<longrightarrow> it_registered (ts_data s) \<and> (\<forall>dev. \<not> on_bus (ts_bus s) dev cfg)) \<and>
     (\<forall>t dev. ts_pc s t = TWritten dev \<longrightarrow> it_cbs (ts_data s) \<and> it_callbacks (ts_data s)) \<and>
     (\<forall>dev. on_bus (ts_bus s) dev cfg \<longrightarrow> it_registered (ts_data s) \<and> it_cbs (ts_data s) \<and> it_callbacks (ts_data s) \<and>
        (\<forall>dev'. on_bus (ts_bus s) dev' cfg \<longrightarrow> dev' = dev)) \<and>
     (\<forall>dev \<in> set (ts_handles s). on_bus (ts_bus s) dev cfg) \<and> distinct (ts_handles s)"

lemma tgo_sel [simp]: "ts_data (tgo t pc s) = ts_data s" "ts_bus (tgo t pc s) = ts_bus s"
  "ts_pc (tgo t pc s) = (ts_pc s)(t := pc)" "ts_handles (tgo t pc s) = ts_handles s"
  by (simp_all add: tgo_def)

lemma c_int_zero: "sint (r :: c_int) \<le> 0 \<Longrightarrow> to_result_void r = Ok () \<longleftrightarrow> r = 0"
  using signed_eq_0_iff [of r] by (auto simp: to_result_void_def to_result_def)

lemma c_int_error: "to_result_void (r :: c_int) = Err e \<Longrightarrow> r \<noteq> 0"
  by (auto simp: to_result_void_def to_result_def)

context zephyr_i2c
begin

lemma it_inv_step: "it_step A cfg s s' \<Longrightarrow> it_inv on_bus cfg s \<Longrightarrow> it_inv on_bus cfg s'"
proof (induction rule: it_step.induct)
  case (call_ok s t dev r b)
  then have b: "r = 0" "\<And>d c. on_bus b d c \<longleftrightarrow> on_bus (ts_bus s) d c \<or> d = dev \<and> c = cfg"
    using register_bus [OF call_ok(2)] c_int_zero [of r] by blast+
  have none: "\<And>dev. \<not> on_bus (ts_bus s) dev cfg" "it_registered (ts_data s)" using call_ok by (auto simp: it_inv_def)
  then have "ts_handles s = []" using call_ok(4) by (cases "ts_handles s") (auto simp: it_inv_def)
  moreover have "ts_pc s u = TIdle" if "u \<noteq> t" for u using call_ok(1,4) that unfolding it_inv_def by (metis reg_pc.distinct(3))
  ultimately show ?case using call_ok(1,4) none by (auto simp: it_inv_def b)
next
  case (call_err s t dev r b e)
  then have b: "on_bus b d c \<longleftrightarrow> on_bus (ts_bus s) d c" for d c
    using register_bus [OF call_err(2)] c_int_error [OF call_err(3)] by blast
  show ?case using call_err(1,4) by (auto simp: it_inv_def b)
next
  case (unregister_ok s t dev r b)
  then have b: "r = 0" "\<And>d c. on_bus b d c \<longleftrightarrow> on_bus (ts_bus s) d c \<and> \<not> (d = dev \<and> c = cfg)"
    using unregister_bus [OF unregister_ok(3)] c_int_zero [of r] by blast+
  have on: "on_bus (ts_bus s) dev cfg" using unregister_ok by (auto simp: it_inv_def)
  then have idle: "ts_pc s u = TIdle" for u using unregister_ok(5) by (auto simp: it_inv_def)
  have only: "d = dev" if "on_bus (ts_bus s) d cfg" for d using unregister_ok(5) on that by (auto simp: it_inv_def)
  have h: "remove1 dev (ts_handles s) = []"
  proof -
    have "set (ts_handles s) \<subseteq> {dev}" and "distinct (ts_handles s)" using unregister_ok(5) only by (auto simp: it_inv_def)
    then have "set (remove1 dev (ts_handles s)) = {}" by auto
    then show ?thesis by simp
  qed
  show ?case using unregister_ok(5) on idle only by (auto simp: it_inv_def b h)
next
  case (unregister_err s t dev r b e)
  then have b: "on_bus b d c \<longleftrightarrow> on_bus (ts_bus s) d c" for d c
    using unregister_bus [OF unregister_err(3)] c_int_error [OF unregister_err(4)] by blast
  show ?case using unregister_err(5) by (auto simp: it_inv_def b dest: notin_set_remove1)
next
  case (drop_handle s dev)
  then show ?case by (auto simp: it_inv_def dest: notin_set_remove1)
qed (auto simp: it_inv_def register_claim_def atomic_swap_def register_write_def release_flag_def)

lemma it_reach_inv: "it_reach A on_bus cfg s \<Longrightarrow> it_inv on_bus cfg s"
proof (induction rule: it_reach.induct)
  case (it_init b)
  then show ?case by (simp add: it_inv_def)
next
  case (it_more s s')
  then show ?case using it_inv_step by blast
qed

end

section \<open>The messages of a transfer\<close>

text \<open>
  The reference, written from the documentation of \<open>transfer\<close> and not from its code: a write becomes a message
  with the write flag, a read one with the read flag, each with its own buffer and length, and a restart is
  added to an operation that follows one of the other direction.
\<close>

primrec is_read :: "Operation \<Rightarrow> bool" where
  "is_read (OpWrite _ _) = False"
| "is_read (OpRead _ _) = True"

definition ref_restart :: "i2c_flags \<Rightarrow> Operation option \<Rightarrow> bool \<Rightarrow> u8" where
  "ref_restart F prev rd = (case prev of None \<Rightarrow> 0 | Some p \<Rightarrow> if is_read p \<noteq> rd then MSG_RESTART F else 0)"

primrec ref_msg :: "i2c_flags \<Rightarrow> Operation option \<Rightarrow> Operation \<Rightarrow> i2c_msg" where
  "ref_msg F prev (OpWrite buf len) =
     \<lparr>im_buf = buf, im_len = ucast len, im_flags = MSG_WRITE F OR ref_restart F prev False\<rparr>"
| "ref_msg F prev (OpRead buf len) =
     \<lparr>im_buf = buf, im_len = ucast len, im_flags = MSG_READ F OR ref_restart F prev True\<rparr>"

fun ref_msgs :: "i2c_flags \<Rightarrow> Operation option \<Rightarrow> Operation list \<Rightarrow> i2c_msg list" where
  "ref_msgs F prev [] = []"
| "ref_msgs F prev (oper # ops) = ref_msg F prev oper # ref_msgs F (Some oper) ops"

lemma ref_msg_direction: "i2c_flags_ok F \<Longrightarrow> im_flags (ref_msg F prev oper) AND MSG_READ F = (if is_read oper then MSG_READ F else 0)"
  by (cases oper) (auto simp: ref_restart_def i2c_flags_ok_def bit.conj_disj_distrib2 split: option.splits)

lemma op_parts_direction: "i2c_flags_ok F \<Longrightarrow> snd (snd (op_parts F oper)) AND MSG_READ F = (if is_read oper then MSG_READ F else 0)"
  by (cases oper) (auto simp: op_parts_def i2c_flags_ok_def)

lemma transfer_loop_ref:
  assumes "i2c_flags_ok F"
  shows "i + length ops \<le> length msgs \<Longrightarrow> (i = 0 \<longleftrightarrow> prev = None) \<Longrightarrow>
     (i \<noteq> 0 \<longrightarrow> im_flags (msgs ! (i - 1)) AND MSG_READ F = (if is_read (the prev) then MSG_READ F else 0)) \<Longrightarrow>
     transfer_loop F i ops msgs = Ret (take i msgs @ ref_msgs F prev ops @ drop (i + length ops) msgs)"
proof (induction ops arbitrary: i msgs prev)
  case (Cons oper ops)
  obtain buf len dir where parts: "op_parts F oper = (buf, len, dir)" by (cases "op_parts F oper")
  have dir: "dir AND MSG_READ F = (if is_read oper then MSG_READ F else 0)" using op_parts_direction [OF assms, of oper] parts by simp
  have rd: "MSG_READ F \<noteq> 0" using assms by (simp add: i2c_flags_ok_def)
  let ?msgs = "msgs[i := ref_msg F prev oper]"
  have i: "i < length msgs" using Cons(2) by simp
  have step: "transfer_loop F i (oper # ops) msgs = transfer_loop F (i + 1) ops ?msgs"
    using i dir rd Cons(3,4) parts
    by (cases oper; cases prev) (auto simp: op_parts_def ref_restart_def Let_def)
  have "transfer_loop F (i + 1) ops ?msgs = Ret (take (i + 1) ?msgs @ ref_msgs F (Some oper) ops @ drop (i + 1 + length ops) ?msgs)"
    using Cons(2) i ref_msg_direction [OF assms, of prev oper] by (intro Cons(1)) auto
  moreover have "take (i + 1) ?msgs = take i msgs @ [ref_msg F prev oper]" using i by (simp add: take_Suc_conv_app_nth)
  ultimately show ?case using step by simp
qed simp

section \<open>A bus driver\<close>

text \<open>Buses that keep the list of their configurations and accept everything.\<close>

definition ref_i2c_api :: "(ptr \<times> ptr) list i2c_api" where
  "ref_i2c_api = \<lparr>i2c_device_is_ready = (\<lambda>b d. True), i2c_write_read = (\<lambda>b d addr w r. (0, b)),
     i2c_write = (\<lambda>b d p n addr. (0, b)), i2c_read = (\<lambda>b d p n addr. (0, b)),
     i2c_transfer = (\<lambda>b d msgs n addr. (of_nat (length msgs), b)),
     i2c_target_register = (\<lambda>b d c. (0, (d, c) # b)),
     i2c_target_unregister = (\<lambda>b d c. (0, removeAll (d, c) b))\<rparr>"

interpretation ref_i2c: zephyr_i2c ref_i2c_api "\<lambda>b d c. (d, c) \<in> set b"
  by unfold_locales (auto simp: ref_i2c_api_def)

section \<open>Properties\<close>

text \<open>
  C32. \<open>transfer\<close> hands the driver exactly one message per operation, in order and with its buffer and
  direction, and a restart exactly where the direction differs from the operation before; the rest of
  the fixed array stays empty and the count is right. More than eight operations are the error \<open>E2BIG\<close>,
  and the driver is not called.
\<close>

theorem transfer_exact:
  assumes "i2c_flags_ok F"
  shows "I2c_transfer A F b self addr ops =
     (if length ops > 8 then Ret (Err (Error E2BIG), b)
      else Ret (result_void (i2c_transfer A b (i2_device self)
             (ref_msgs F None ops @ replicate (8 - length ops) i2c_msg_default) (of_nat (length ops)) addr))) \<and>
    (length ops \<le> 8 \<longrightarrow> unat (of_nat (length ops) :: u8) = length ops)"
proof (intro conjI impI)
  show "unat (of_nat (length ops) :: u8) = length ops" if "length ops \<le> 8"
    using that by (simp add: unat_of_nat take_bit_nat_eq_self)
  show "I2c_transfer A F b self addr ops =
     (if length ops > 8 then Ret (Err (Error E2BIG), b)
      else Ret (result_void (i2c_transfer A b (i2_device self)
             (ref_msgs F None ops @ replicate (8 - length ops) i2c_msg_default) (of_nat (length ops)) addr)))"
    using transfer_loop_ref [OF assms, of 0 ops "replicate 8 i2c_msg_default" None]
    by (simp add: I2c_transfer_def MAX_TRANSFER_OPS_def)
qed

theorem transfer_exact_witness:
  "I2c_transfer ref_i2c_api \<lparr>MSG_WRITE = 0, MSG_READ = 1, MSG_RESTART = 4\<rparr> [] \<lparr>i2_device = 16\<rparr> 0x42 [OpWrite 100 1, OpRead 200 2] =
     Ret (result_void (i2c_transfer ref_i2c_api [] 16
       ([\<lparr>im_buf = 100, im_len = 1, im_flags = 0\<rparr>, \<lparr>im_buf = 200, im_len = 2, im_flags = 5\<rparr>] @ replicate 6 i2c_msg_default) 2 0x42))"
proof -
  have "i2c_flags_ok \<lparr>MSG_WRITE = 0, MSG_READ = 1, MSG_RESTART = 4\<rparr>" by (simp add: i2c_flags_ok_def)
  from transfer_exact [OF this, of ref_i2c_api "[]" "\<lparr>i2_device = 16\<rparr>" "0x42" "[OpWrite 100 1, OpRead 200 2]"]
  show ?thesis by (simp add: ref_restart_def)
qed

text \<open>
  C31. A target is on at most one bus, and only with its callbacks in place: whatever the threads do, a
  configuration that a driver knows has its callback table filled in and linked; and while a thread
  writes the table no driver knows the configuration and no other thread is inside a registration.
\<close>

theorem i2c_target_exclusive:
  assumes "zephyr_i2c A on_bus" and "it_reach A on_bus cfg s"
  shows "(\<forall>dev dev'. on_bus (ts_bus s) dev cfg \<and> on_bus (ts_bus s) dev' cfg \<longrightarrow> dev = dev') \<and>
    (\<forall>dev. on_bus (ts_bus s) dev cfg \<longrightarrow> it_cbs (ts_data s) \<and> it_callbacks (ts_data s)) \<and>
    (\<forall>t dev. ts_pc s t = TClaimed dev \<longrightarrow> (\<forall>d. \<not> on_bus (ts_bus s) d cfg) \<and> (\<forall>u. u \<noteq> t \<longrightarrow> ts_pc s u = TIdle))"
proof -
  have "it_inv on_bus cfg s" by (rule zephyr_i2c.it_reach_inv [OF assms])
  then show ?thesis unfolding it_inv_def by (metis reg_pc.distinct(1))
qed

text \<open>One thread has registered the target with the bus 16, another one finds it busy.\<close>

definition demo_it :: "(ptr \<times> ptr) list it_sys" where
  "demo_it = \<lparr>ts_data = \<lparr>it_cbs = True, it_callbacks = True, it_registered = True\<rparr>, ts_bus = [(16, 64)],
     ts_pc = (\<lambda>_. TIdle), ts_handles = [16]\<rparr>"

lemma demo_it_reach: "it_reach ref_i2c_api (\<lambda>b d c. (d, c) \<in> set b) 64 demo_it"
proof -
  let ?R = "it_reach ref_i2c_api (\<lambda>b d c. (d, c) \<in> set b) 64"
  let ?s0 = "\<lparr>ts_data = I2cTargetData_new, ts_bus = [] :: (ptr \<times> ptr) list, ts_pc = (\<lambda>_. TIdle), ts_handles = []\<rparr>"
  let ?s1 = "tgo 0 (TClaimed 16) (?s0\<lparr>ts_data := I2cTargetData_new\<lparr>it_registered := True\<rparr>\<rparr>)"
  let ?s2 = "tgo 0 (TWritten 16) (?s1\<lparr>ts_data := register_write (ts_data ?s1)\<rparr>)"
  let ?s3 = "tgo 0 TIdle (?s2\<lparr>ts_bus := [(16, 64)], ts_handles := 16 # ts_handles ?s2\<rparr>)"
  have r0: "?R ?s0" by (rule it_init) simp
  have r1: "?R ?s1" by (rule it_more [OF r0], rule claim) (simp_all add: register_claim_def atomic_swap_def I2cTargetData_new_def)
  have r2: "?R ?s2" by (rule it_more [OF r1], rule write_cbs) simp
  have r3: "?R ?s3"
    by (rule it_more [OF r2], rule call_ok [where r = 0]) (simp_all add: ref_i2c_api_def to_result_void_def to_result_def)
  moreover have "?s3 = demo_it" by (simp add: demo_it_def tgo_def I2cTargetData_new_def register_write_def fun_eq_iff)
  ultimately show ?thesis by simp
qed

theorem i2c_target_exclusive_witness:
  "(16, 64) \<in> set (ts_bus demo_it) \<and> it_cbs (ts_data demo_it) \<and> it_callbacks (ts_data demo_it)"
  using i2c_target_exclusive [OF ref_i2c.zephyr_i2c_axioms demo_it_reach] by (auto simp: demo_it_def)

text \<open>
  The code that a trampoline hands to C is read back as the error it was, for every error number from 1
  to 2147483647.
\<close>

lemma trampoline_roundtrip:
  assumes "0 < errno e" and "errno e < 2 ^ 31"
  shows "\<exists>c. void_trampoline dbg (Err e) = Ret c \<and> to_result_void c = Err e"
proof -
  obtain n where e: "e = Error n" by (cases e)
  have u: "0 < uint n" "uint n < 2 ^ 31" using assms e by (simp_all add: word_less_def)
  have "sint (- n) < 0"
  proof -
    have "uint (- n) = uint (word_of_int (- uint n) :: c_int)" by simp
    also have "\<dots> = (- uint n) mod 2 ^ 32" by (simp only: uint_word_of_int) simp
    also have "\<dots> = 2 ^ 32 - uint n" using u by (simp add: zmod_zminus1_eq_if)
    finally have big: "2 ^ 31 < uint (- n)" using u by simp
    show ?thesis
    proof (rule ccontr)
      assume "\<not> sint (- n) < 0"
      then have "uint (- n) = sint (- n)" using sint_lt [of "- n"] by (simp add: uint_sint take_bit_eq_mod)
      with big show False using sint_lt [of "- n"] by simp
    qed
  qed
  moreover have "errno e \<noteq> 2 ^ 31" using assms(2) by auto
  ultimately show ?thesis using e by (simp add: void_trampoline_def neg_errno_def to_result_void_def to_result_def)
qed

end
