(* ===== verification/Devices.thy ===== *)
theory Devices
  imports Gpio I2c
begin

text \<open>
  \<open>zephyr/src/device/led.rs\<close>, \<open>led_strip.rs\<close> and \<open>flash.rs\<close>: device wrappers whose operations are one call
  of the driver each, and the contract of all constructors that the generated code calls: only the
  first call for a device returns an instance.
\<close>

section \<open>LEDs\<close>

record 'd led_api =
  led_device_is_ready :: "'d \<Rightarrow> ptr \<Rightarrow> bool"
  led_set_brightness :: "'d \<Rightarrow> ptr \<Rightarrow> u32 \<Rightarrow> u8 \<Rightarrow> c_int \<times> 'd"
  led_on :: "'d \<Rightarrow> ptr \<Rightarrow> u32 \<Rightarrow> c_int \<times> 'd"
  led_off :: "'d \<Rightarrow> ptr \<Rightarrow> u32 \<Rightarrow> c_int \<times> 'd"
  led_blink :: "'d \<Rightarrow> ptr \<Rightarrow> u32 \<Rightarrow> u32 \<Rightarrow> u32 \<Rightarrow> c_int \<times> 'd"

text \<open>A constructor of a wrapper, guarded by the device's \<open>Unique\<close>.\<close>

definition unique_new :: "Unique \<Rightarrow> 'a \<Rightarrow> 'a option \<times> Unique" where
  "unique_new unique v = (let (first, unique) = Unique_once unique in (if \<not> first then None else Some v, unique))"

datatype LedController = LedController (lc_device: ptr)

definition LedController_new :: "Unique \<Rightarrow> ptr \<Rightarrow> LedController option \<times> Unique" where
  "LedController_new unique device = unique_new unique (LedController device)"

definition LedController_is_ready :: "'d led_api \<Rightarrow> 'd \<Rightarrow> LedController \<Rightarrow> bool" where
  "LedController_is_ready L d self = led_device_is_ready L d (lc_device self)"

record Led =
  ld_device :: ptr
  ld_index :: u32

definition Led_new :: "Unique \<Rightarrow> ptr \<Rightarrow> u32 \<Rightarrow> Led option \<times> Unique" where
  "Led_new unique device index = unique_new unique \<lparr>ld_device = device, ld_index = index\<rparr>"

definition Led_is_ready :: "'d led_api \<Rightarrow> 'd \<Rightarrow> Led \<Rightarrow> bool" where
  "Led_is_ready L d self = led_device_is_ready L d (ld_device self)"

definition Led_set_brightness :: "'d led_api \<Rightarrow> 'd \<Rightarrow> Led \<Rightarrow> u8 \<Rightarrow> (unit, Error) result \<times> 'd" where
  "Led_set_brightness L d self v = result_void (led_set_brightness L d (ld_device self) (ld_index self) v)"

definition Led_on :: "'d led_api \<Rightarrow> 'd \<Rightarrow> Led \<Rightarrow> (unit, Error) result \<times> 'd" where
  "Led_on L d self = result_void (led_on L d (ld_device self) (ld_index self))"

definition Led_off :: "'d led_api \<Rightarrow> 'd \<Rightarrow> Led \<Rightarrow> (unit, Error) result \<times> 'd" where
  "Led_off L d self = result_void (led_off L d (ld_device self) (ld_index self))"

definition Led_blink :: "'d led_api \<Rightarrow> 'd \<Rightarrow> Led \<Rightarrow> u32 \<Rightarrow> u32 \<Rightarrow> (unit, Error) result \<times> 'd" where
  "Led_blink L d self delay_on delay_off = result_void (led_blink L d (ld_device self) (ld_index self) delay_on delay_off)"

section \<open>LED strips\<close>

record 'd led_strip_api =
  strip_device_is_ready :: "'d \<Rightarrow> ptr \<Rightarrow> bool"
  led_strip_update_rgb :: "'d \<Rightarrow> ptr \<Rightarrow> ptr \<Rightarrow> usize \<Rightarrow> c_int \<times> 'd"
  led_strip_update_channels :: "'d \<Rightarrow> ptr \<Rightarrow> ptr \<Rightarrow> usize \<Rightarrow> c_int \<times> 'd"
  led_strip_length :: "'d \<Rightarrow> ptr \<Rightarrow> usize"

datatype LedStrip = LedStrip (st_device: ptr)

definition LedStrip_new :: "Unique \<Rightarrow> ptr \<Rightarrow> LedStrip option \<times> Unique" where
  "LedStrip_new unique device = unique_new unique (LedStrip device)"

definition LedStrip_is_ready :: "'d led_strip_api \<Rightarrow> 'd \<Rightarrow> LedStrip \<Rightarrow> bool" where
  "LedStrip_is_ready L d self = strip_device_is_ready L d (st_device self)"

text \<open>The pixels and channels are a buffer: its address and its length.\<close>

definition LedStrip_update_rgb :: "'d led_strip_api \<Rightarrow> 'd \<Rightarrow> LedStrip \<Rightarrow> ptr \<times> usize \<Rightarrow> (unit, Error) result \<times> 'd" where
  "LedStrip_update_rgb L d self pixels = result_void (led_strip_update_rgb L d (st_device self) (fst pixels) (snd pixels))"

definition LedStrip_update_channels :: "'d led_strip_api \<Rightarrow> 'd \<Rightarrow> LedStrip \<Rightarrow> ptr \<times> usize \<Rightarrow> (unit, Error) result \<times> 'd" where
  "LedStrip_update_channels L d self channels =
     result_void (led_strip_update_channels L d (st_device self) (fst channels) (snd channels))"

definition LedStrip_length :: "'d led_strip_api \<Rightarrow> 'd \<Rightarrow> LedStrip \<Rightarrow> usize" where
  "LedStrip_length L d self = led_strip_length L d (st_device self)"

section \<open>Flash\<close>

datatype FlashController = FlashController (fc_device: ptr)

definition FlashController_new :: "Unique \<Rightarrow> ptr \<Rightarrow> FlashController option \<times> Unique" where
  "FlashController_new unique device = unique_new unique (FlashController device)"

record FlashPartition =
  fp_controller :: FlashController
  fp_offset :: u32
  fp_size :: u32

definition FlashPartition_new :: "Unique \<Rightarrow> ptr \<Rightarrow> u32 \<Rightarrow> u32 \<Rightarrow> FlashPartition option \<times> Unique" where
  "FlashPartition_new unique device offset len =
     unique_new unique \<lparr>fp_controller = FlashController device, fp_offset = offset, fp_size = len\<rparr>"

section \<open>The contract of the constructors\<close>

text \<open>A constructor as an attempt that succeeds when it returns an instance.\<close>

definition new_attempt :: "(Unique \<Rightarrow> 'a option \<times> Unique) \<Rightarrow> Unique \<Rightarrow> bool \<times> Unique" where
  "new_attempt new u = (case new u of (r, u) \<Rightarrow> (r \<noteq> None, u))"

lemma new_attempt_once: "new = (\<lambda>u. let (first, u) = Unique_once u in (if \<not> first then None else Some v, u)) \<Longrightarrow> new_attempt new = Unique_once"
  by (auto simp: new_attempt_def fun_eq_iff split: prod.splits)

lemmas constructors = Gpio_new_def GpioPin_new_def I2c_new_def LedController_new_def Led_new_def LedStrip_new_def
  FlashController_new_def FlashPartition_new_def unique_new_def

text \<open>
  Every device is handed out once: of any number of calls of the constructor of a device with its
  \<open>Unique\<close>, which is how \<open>get_instance\<close> calls it, exactly the first returns an instance. This holds of the
  controllers, pins, LEDs, strips, flash controllers and partitions alike.
\<close>

theorem devices_handed_out_once:
  assumes "new \<in> {new_attempt (\<lambda>u. Gpio_new u device), new_attempt (\<lambda>u. GpioPin_new u device pin flags),
      new_attempt (\<lambda>u. I2c_new u device), new_attempt (\<lambda>u. LedController_new u device), new_attempt (\<lambda>u. Led_new u device index),
      new_attempt (\<lambda>u. LedStrip_new u device), new_attempt (\<lambda>u. FlashController_new u device),
      new_attempt (\<lambda>u. FlashPartition_new u device offset len)}"
  shows "fst (run_calls new (Suc n) Unique_new) = True # replicate n False"
proof -
  have "new = Unique_once"
    using assms by (elim insertE emptyE; simp only: constructors; intro new_attempt_once; simp)
  then show ?thesis by (simp add: unique.run_calls_fresh del: run_calls.simps)
qed

theorem devices_handed_out_once_witness:
  "fst (run_calls (new_attempt (\<lambda>u. Led_new u 16 3)) (Suc 2) Unique_new) = [True, False, False]"
proof -
  have "fst (run_calls (new_attempt (\<lambda>u. Led_new u 16 3)) (Suc 2) Unique_new) = True # replicate 2 False"
    by (rule devices_handed_out_once) blast
  then show ?thesis by (simp add: numeral_2_eq_2)
qed

end
