(* ===== verification/Printk.thy ===== *)
theory Printk
  imports Zephyr_Prelude
begin

text \<open>
  \<open>zephyr/src/printk.rs\<close>: formatted output through the small buffer of the \<open>k_str_out\<close> system call. The
  formatted arguments are the pieces that \<open>core::fmt::write\<close> hands to \<open>write_str\<close>, one after the other.
\<close>

unbundle bit_operations_syntax

section \<open>Data and operations\<close>

definition BUF_SIZE :: nat where "BUF_SIZE = 32"

text \<open>The buffer with its use count, and the calls of \<open>k_str_out\<close> so far, each with the bytes it was given.\<close>

record Context =
  cx_count :: nat
  cx_buf :: "u8 list"
  cx_out :: "u8 list list"

definition utf8_byte_length :: "u8 \<Rightarrow> nat" where
  "utf8_byte_length byte =
     (if byte AND 0x80 = 0 then 1
      else if byte AND 0xE0 = 0xC0 then 2
      else if byte AND 0xF0 = 0xE0 then 3
      else if byte AND 0xF8 = 0xF0 then 4
      else 1)"

definition Context_flush :: "Context \<Rightarrow> Context" where
  "Context_flush self =
     (if cx_count self > 0 then self\<lparr>cx_out := cx_out self @ [take (cx_count self) (cx_buf self)], cx_count := 0\<rparr>
      else self)"

definition Context_add_byte :: "Context \<Rightarrow> u8 \<Rightarrow> Context outcome" where
  "Context_add_byte self b =
     (let self = (if cx_count self + utf8_byte_length b > length (cx_buf self) then Context_flush self else self)
      in if cx_count self < length (cx_buf self)
         then Ret (self\<lparr>cx_buf := (cx_buf self)[cx_count self := b], cx_count := cx_count self + 1\<rparr>)
         else Panic ''index out of bounds'')"

fun Context_write_str :: "Context \<Rightarrow> u8 list \<Rightarrow> Context outcome" where
  "Context_write_str self [] = Ret self"
| "Context_write_str self (b # bs) = bind_outcome (Context_add_byte self b) (\<lambda>self. Context_write_str self bs)"

fun fmt_write :: "Context \<Rightarrow> u8 list list \<Rightarrow> Context outcome" where
  "fmt_write self [] = Ret self"
| "fmt_write self (s # args) = bind_outcome (Context_write_str self s) (\<lambda>self. fmt_write self args)"

definition Context_new :: Context where
  "Context_new = \<lparr>cx_count = 0, cx_buf = replicate BUF_SIZE 0, cx_out = []\<rparr>"

definition printk :: "u8 list list \<Rightarrow> u8 list list outcome" where
  "printk args = bind_outcome (fmt_write Context_new args) (\<lambda>context. Ret (cx_out (Context_flush context)))"

definition printkln :: "u8 list list \<Rightarrow> u8 list list outcome" where
  "printkln args =
     bind_outcome (fmt_write Context_new args) (\<lambda>context.
     bind_outcome (Context_add_byte context 10) (\<lambda>context. Ret (cx_out (Context_flush context))))"

section \<open>The buffer as a list\<close>

text \<open>The specification: the pending bytes, and the chunks written.\<close>

definition spec_flush :: "u8 list list \<times> u8 list \<Rightarrow> u8 list list" where
  "spec_flush s = (if snd s = [] then fst s else fst s @ [snd s])"

definition spec_add :: "u8 list list \<times> u8 list \<Rightarrow> u8 \<Rightarrow> u8 list list \<times> u8 list" where
  "spec_add s b = (if length (snd s) + utf8_byte_length b > 32 then (spec_flush s, [b]) else (fst s, snd s @ [b]))"

definition cx_ok :: "Context \<Rightarrow> bool" where
  "cx_ok c \<longleftrightarrow> length (cx_buf c) = 32 \<and> cx_count c \<le> 32"

definition cx_abs :: "Context \<Rightarrow> u8 list list \<times> u8 list" where
  "cx_abs c = (cx_out c, take (cx_count c) (cx_buf c))"

lemma utf8_byte_length_range: "1 \<le> utf8_byte_length b \<and> utf8_byte_length b \<le> 4"
  by (simp add: utf8_byte_length_def)

lemma cx_abs_length: "cx_ok c \<Longrightarrow> length (snd (cx_abs c)) = cx_count c"
  by (simp add: cx_ok_def cx_abs_def)

lemma flush_refines: "cx_ok c \<Longrightarrow> cx_out (Context_flush c) = spec_flush (cx_abs c)"
  by (auto simp: Context_flush_def spec_flush_def cx_abs_def cx_ok_def)

text \<open>Adding a byte refines the specification, and never runs out of the buffer.\<close>

lemma add_byte_refines:
  assumes "cx_ok c"
  shows "\<exists>c'. Context_add_byte c b = Ret c' \<and> cx_ok c' \<and> cx_abs c' = spec_add (cx_abs c) b"
proof -
  let ?f = "if cx_count c + utf8_byte_length b > length (cx_buf c) then Context_flush c else c"
  have len: "length (cx_buf ?f) = 32" and count: "cx_count ?f < 32"
    using assms utf8_byte_length_range [of b] by (auto simp: cx_ok_def Context_flush_def)
  let ?c = "?f\<lparr>cx_buf := (cx_buf ?f)[cx_count ?f := b], cx_count := cx_count ?f + 1\<rparr>"
  have "Context_add_byte c b = Ret ?c" using len count by (simp only: Context_add_byte_def Let_def if_True)
  moreover have "cx_ok ?c" using len count by (simp add: cx_ok_def)
  moreover have "cx_abs ?c = (cx_out ?f, take (cx_count ?f) (cx_buf ?f) @ [b])"
    using len count by (simp add: cx_abs_def take_Suc_conv_app_nth)
  moreover have "(cx_out ?f, take (cx_count ?f) (cx_buf ?f) @ [b]) = spec_add (cx_abs c) b"
    using assms by (auto simp: cx_ok_def spec_add_def cx_abs_def spec_flush_def Context_flush_def)
  ultimately show ?thesis by (metis (no_types))
qed

lemma write_str_refines:
  "cx_ok c \<Longrightarrow> \<exists>c'. Context_write_str c bs = Ret c' \<and> cx_ok c' \<and> cx_abs c' = foldl spec_add (cx_abs c) bs"
proof (induction bs arbitrary: c)
  case (Cons b bs)
  obtain c' where "Context_add_byte c b = Ret c'" "cx_ok c'" "cx_abs c' = spec_add (cx_abs c) b"
    using add_byte_refines [OF Cons(2)] by blast
  then show ?case using Cons(1) [of c'] by simp
qed simp

lemma fmt_write_refines:
  "cx_ok c \<Longrightarrow> \<exists>c'. fmt_write c args = Ret c' \<and> cx_ok c' \<and> cx_abs c' = foldl spec_add (cx_abs c) (concat args)"
proof (induction args arbitrary: c)
  case (Cons s args)
  obtain c' where "Context_write_str c s = Ret c'" "cx_ok c'" "cx_abs c' = foldl spec_add (cx_abs c) s"
    using write_str_refines [OF Cons(2)] by blast
  then show ?case using Cons(1) [of c'] by simp
qed simp

lemma cx_new: "cx_ok Context_new" "cx_abs Context_new = ([], [])"
  by (simp_all add: cx_ok_def cx_abs_def Context_new_def BUF_SIZE_def)

definition spec_print :: "u8 list \<Rightarrow> u8 list list" where
  "spec_print bs = spec_flush (foldl spec_add ([], []) bs)"

lemma printk_spec: "printk args = Ret (spec_print (concat args))"
proof -
  obtain c where "fmt_write Context_new args = Ret c" "cx_ok c" "cx_abs c = foldl spec_add ([], []) (concat args)"
    using fmt_write_refines [OF cx_new(1), of args] cx_new(2) by auto
  then show ?thesis by (simp add: printk_def flush_refines spec_print_def)
qed

lemma printkln_spec: "printkln args = Ret (spec_print (concat args @ [10]))"
proof -
  obtain c where c: "fmt_write Context_new args = Ret c" "cx_ok c" "cx_abs c = foldl spec_add ([], []) (concat args)"
    using fmt_write_refines [OF cx_new(1), of args] cx_new(2) by auto
  obtain c' where "Context_add_byte c 10 = Ret c'" "cx_ok c'" "cx_abs c' = spec_add (cx_abs c) 10"
    using add_byte_refines [OF c(2)] by blast
  with c show ?thesis by (simp add: printkln_def flush_refines spec_print_def)
qed

section \<open>What the specification writes\<close>

definition chunks_ok :: "u8 list list \<times> u8 list \<Rightarrow> bool" where
  "chunks_ok s \<longleftrightarrow> (\<forall>ch \<in> set (fst s). ch \<noteq> [] \<and> length ch \<le> 32) \<and> length (snd s) \<le> 32"

lemma spec_add_ok: "chunks_ok s \<Longrightarrow> chunks_ok (spec_add s b)"
  using utf8_byte_length_range [of b] by (auto simp: chunks_ok_def spec_add_def spec_flush_def)

lemma spec_add_bytes: "concat (fst (spec_add s b)) @ snd (spec_add s b) = (concat (fst s) @ snd s) @ [b]"
  by (auto simp: spec_add_def spec_flush_def)

lemma spec_fold_bytes: "concat (fst (foldl spec_add s bs)) @ snd (foldl spec_add s bs) = (concat (fst s) @ snd s) @ bs"
  by (induction bs arbitrary: s) (simp_all add: spec_add_bytes)

lemma spec_fold_ok: "chunks_ok s \<Longrightarrow> chunks_ok (foldl spec_add s bs)"
  by (induction bs arbitrary: s) (simp_all add: spec_add_ok)

lemma spec_print_bytes: "concat (spec_print bs) = bs"
  using spec_fold_bytes [of "([], [])" bs] by (auto simp: spec_print_def spec_flush_def)

lemma spec_print_chunks: "\<forall>ch \<in> set (spec_print bs). ch \<noteq> [] \<and> length ch \<le> 32"
proof -
  have "chunks_ok ([], [])" by (simp add: chunks_ok_def)
  from spec_fold_ok [OF this, of bs] show ?thesis by (auto simp: spec_print_def spec_flush_def chunks_ok_def)
qed

text \<open>
  UTF-8 itself, as the Unicode standard has it and independent of the code above: the encoding of a scalar value (a
  code point that is not a surrogate) in one to four bytes, and texts of whole characters.
\<close>

definition scalar_value :: "nat \<Rightarrow> bool" where
  "scalar_value cp \<longleftrightarrow> cp < 0x110000 \<and> \<not> (0xD800 \<le> cp \<and> cp < 0xE000)"

definition trail :: "nat \<Rightarrow> u8" where
  "trail n = 0x80 + of_nat (n mod 64)"

definition utf8_encode :: "nat \<Rightarrow> u8 list" where
  "utf8_encode cp =
     (if cp < 0x80 then [of_nat cp]
      else if cp < 0x800 then [0xC0 + of_nat (cp div 64), trail cp]
      else if cp < 0x10000 then [0xE0 + of_nat (cp div 64 div 64), trail (cp div 64), trail cp]
      else [0xF0 + of_nat (cp div 64 div 64 div 64), trail (cp div 64 div 64), trail (cp div 64), trail cp])"

definition utf8_char :: "u8 list \<Rightarrow> bool" where
  "utf8_char c \<longleftrightarrow> (\<exists>cp. scalar_value cp \<and> c = utf8_encode cp)"

definition utf8 :: "u8 list \<Rightarrow> bool" where
  "utf8 bs \<longleftrightarrow> (\<exists>cs. list_all utf8_char cs \<and> bs = concat cs)"

lemma utf8_char_of: "scalar_value cp \<Longrightarrow> c = utf8_encode cp \<Longrightarrow> utf8_char c"
  by (auto simp: utf8_char_def)

lemma utf8_Nil [simp]: "utf8 []"
  by (auto simp: utf8_def intro: exI [of _ "[]"])

lemma utf8_append: "utf8 xs \<Longrightarrow> utf8 ys \<Longrightarrow> utf8 (xs @ ys)"
  by (fastforce simp: utf8_def intro: exI [of _ "_ @ _"])

lemma utf8_one: "utf8_char c \<Longrightarrow> utf8 c"
  by (auto simp: utf8_def intro: exI [of _ "[c]"])

lemma utf8_ascii: "b < 0x80 \<Longrightarrow> utf8 [b]"
  by (rule utf8_one, rule utf8_char_of [of "unat b"]) (simp_all add: word_less_nat_alt scalar_value_def utf8_encode_def)

lemma utf8_concat: "list_all utf8 xss \<Longrightarrow> utf8 (concat xss)"
  by (induction xss) (auto intro: utf8_append)

text \<open>The length that the code reads off a byte: of the lead byte of each form, and of a trailing byte.\<close>

lemma lead_bytes:
  "\<forall>n \<in> set [0..<128]. utf8_byte_length (of_nat n) = 1"
  "\<forall>n \<in> set [0..<32]. utf8_byte_length (0xC0 + of_nat n) = 2"
  "\<forall>n \<in> set [0..<16]. utf8_byte_length (0xE0 + of_nat n) = 3"
  "\<forall>n \<in> set [0..<8]. utf8_byte_length (0xF0 + of_nat n) = 4"
  "\<forall>n \<in> set [0..<64]. utf8_byte_length (0x80 + of_nat n) = 1"
  by code_simp+

lemma lead_byte:
  "n < 128 \<Longrightarrow> utf8_byte_length (of_nat n) = 1"
  "n < 32 \<Longrightarrow> utf8_byte_length (0xC0 + of_nat n) = 2"
  "n < 16 \<Longrightarrow> utf8_byte_length (0xE0 + of_nat n) = 3"
  "n < 8 \<Longrightarrow> utf8_byte_length (0xF0 + of_nat n) = 4"
  using lead_bytes by simp_all

definition cont :: "u8 \<Rightarrow> bool" where
  "cont b \<longleftrightarrow> (\<exists>n. b = trail n)"

lemma cont_trail [simp]: "cont (trail n)"
  by (auto simp: cont_def)

lemma cont_length: "cont b \<Longrightarrow> utf8_byte_length b = 1"
  using lead_bytes(5) by (auto simp: cont_def trail_def)

text \<open>The lead byte of an encoded scalar value tells its length, and the other bytes are trailing ones.\<close>

lemma utf8_encode_shape:
  assumes "scalar_value cp"
  shows "\<exists>b bs. utf8_encode cp = b # bs \<and> utf8_byte_length b = Suc (length bs) \<and> list_all cont bs"
proof -
  have d: "cp < 0x110000" using assms by (simp add: scalar_value_def)
  consider "cp < 0x80" | "\<not> cp < 0x80" "cp < 0x800" | "\<not> cp < 0x800" "cp < 0x10000" | "\<not> cp < 0x10000" by linarith
  then show ?thesis
  proof cases
    case 1
    then show ?thesis by (simp add: utf8_encode_def lead_byte)
  next
    case 2
    then have "cp div 64 < 32" by linarith
    with 2 show ?thesis by (simp add: utf8_encode_def lead_byte)
  next
    case 3
    then have "cp div 64 div 64 < 16" by linarith
    with 3 show ?thesis by (simp add: utf8_encode_def lead_byte)
  next
    case 4
    have "cp div 64 div 64 div 64 < 8" using d by linarith
    with 4 show ?thesis by (simp add: utf8_encode_def lead_byte)
  qed
qed

text \<open>Once the first byte of a character is in, the others fit.\<close>

lemma add_conts: "list_all cont bs \<Longrightarrow> length (snd s) + length bs \<le> 32 \<Longrightarrow> foldl spec_add s bs = (fst s, snd s @ bs)"
  by (induction bs arbitrary: s) (auto simp: spec_add_def cont_length)

lemma add_char:
  assumes "utf8_char c"
  shows "foldl spec_add s c = (if length (snd s) + length c > 32 then (spec_flush s, c) else (fst s, snd s @ c))"
proof -
  obtain b bs where c: "c = b # bs" "length c = utf8_byte_length b" "list_all cont bs"
    using assms utf8_encode_shape by (fastforce simp: utf8_char_def)
  have "length c \<le> 4" using c utf8_byte_length_range [of b] by simp
  then show ?thesis using c add_conts [OF c(3)] by (auto simp: spec_add_def)
qed

lemma add_chars:
  assumes "list_all utf8_char cs" and "list_all utf8 (fst s)" and "utf8 (snd s)"
  shows "list_all utf8 (fst (foldl spec_add s (concat cs))) \<and> utf8 (snd (foldl spec_add s (concat cs)))"
  using assms
proof (induction cs arbitrary: s)
  case (Cons c cs)
  then have "list_all utf8 (fst (foldl spec_add s c)) \<and> utf8 (snd (foldl spec_add s c))"
    by (auto simp: add_char spec_flush_def intro: utf8_append utf8_one)
  then show ?case using Cons(1) [of "foldl spec_add s c"] Cons(2) by simp
qed simp

lemma spec_print_utf8: "utf8 bs \<Longrightarrow> list_all utf8 (spec_print bs)"
proof -
  assume "utf8 bs"
  then obtain cs where "list_all utf8_char cs" "bs = concat cs" by (auto simp: utf8_def)
  with add_chars [of cs "([], [])"] show ?thesis by (auto simp: spec_print_def spec_flush_def)
qed

section \<open>Properties\<close>

text \<open>
  C30. \<open>printk\<close> and \<open>printkln\<close> write exactly the formatted bytes, in order, the latter with a newline at the
  end: they never run out of the buffer, every system call gets between 1 and 32 bytes, and if the
  pieces are texts in UTF-8 (encoded scalar values), as Rust strings are, every system call gets such a text
  too: no character is split between two calls.
\<close>

theorem printk_exact:
  assumes "list_all utf8 args"
  shows "\<exists>out outln. printk args = Ret out \<and> printkln args = Ret outln \<and>
     concat out = concat args \<and> concat outln = concat args @ [10] \<and>
     (\<forall>ch \<in> set (out @ outln). 1 \<le> length ch \<and> length ch \<le> 32 \<and> utf8 ch)"
proof -
  have "utf8 (concat args)" using assms by (rule utf8_concat)
  moreover have "utf8 [10]" by (rule utf8_ascii) simp
  ultimately have u: "list_all utf8 (spec_print (concat args))" "list_all utf8 (spec_print (concat args @ [10]))"
    by (auto intro!: spec_print_utf8 utf8_append)
  have "\<forall>ch \<in> set (spec_print bs). 1 \<le> length ch \<and> length ch \<le> 32" for bs
    using spec_print_chunks [of bs] by (auto simp: Suc_le_eq)
  with u show ?thesis
    by (intro exI [of _ "spec_print (concat args)"] exI [of _ "spec_print (concat args @ [10])"])
      (auto simp: printk_spec printkln_spec spec_print_bytes list_all_iff)
qed

text \<open>Thirty letters and the euro sign, a character of three bytes, which goes into the next call as a whole.\<close>

theorem printk_exact_witness:
  "(\<exists>out. printk [replicate 30 0x61, [0xE2, 0x82, 0xAC]] = Ret out \<and>
      concat out = replicate 30 0x61 @ [0xE2, 0x82, 0xAC] \<and> (\<forall>ch \<in> set out. utf8 ch)) \<and>
   printk [replicate 30 0x61, [0xE2, 0x82, 0xAC]] = Ret [replicate 30 0x61, [0xE2, 0x82, 0xAC]]"
proof -
  have "utf8 [0x61]" by (rule utf8_ascii) simp
  then have "utf8 (concat (replicate 30 [0x61]))" by (intro utf8_concat) (simp add: list_all_iff)
  then have "utf8 (replicate 30 0x61)" by (simp add: concat_replicate_trivial numeral_eq_Suc)
  moreover have "utf8_char [0xE2, 0x82, 0xAC]"
    by (rule utf8_char_of [of "0x20AC"]) (simp_all add: scalar_value_def utf8_encode_def trail_def)
  then have "utf8 [0xE2, 0x82, 0xAC]" by (rule utf8_one)
  ultimately have "list_all utf8 [replicate 30 0x61, [0xE2, 0x82, 0xAC]]" by simp
  from printk_exact [OF this] have "\<exists>out. printk [replicate 30 0x61, [0xE2, 0x82, 0xAC]] = Ret out \<and>
      concat out = replicate 30 0x61 @ [0xE2, 0x82, 0xAC] \<and> (\<forall>ch \<in> set out. utf8 ch)" by auto
  moreover have "printk [replicate 30 0x61, [0xE2, 0x82, 0xAC]] = Ret [replicate 30 0x61, [0xE2, 0x82, 0xAC]]"
    by code_simp
  ultimately show ?thesis by blast
qed

end
