(* ===== verification/Logging.thy ===== *)
theory Logging
  imports Printk Once
begin

text \<open>
  \<open>zephyr/src/logging.rs\<close>, \<open>logging/impl_printk.rs\<close> and \<open>logging/impl_zlog.rs\<close>: the loggers for the package \<open>log\<close>.
  The global state of that package and the text of its levels are parameters.
\<close>

section \<open>The log package\<close>

datatype Level = LError | LWarn | LInfo | LDebug | LTrace

datatype LevelFilter = Off | UpTo Level

datatype logger = PRINTK_LOGGER | ZLOG_LOGGER

record log_record =
  rec_level :: Level
  rec_target :: "u8 list"
  rec_args :: "u8 list list"

record 'g log_api =
  log_set_logger :: "'g \<Rightarrow> logger \<Rightarrow> bool \<times> 'g"
  log_set_max_level :: "'g \<Rightarrow> LevelFilter \<Rightarrow> 'g"

text \<open>The logger can be set once; a failed attempt changes nothing.\<close>

locale log_crate =
  fixes A :: "'g log_api" and current :: "'g \<Rightarrow> logger option" and max_level :: "'g \<Rightarrow> LevelFilter"
  assumes set_first: "current g = None \<Longrightarrow>
      \<exists>g'. log_set_logger A g l = (True, g') \<and> current g' = Some l \<and> max_level g' = max_level g"
    and set_again: "current g \<noteq> None \<Longrightarrow> log_set_logger A g l = (False, g)"
    and set_level: "current (log_set_max_level A g f) = current g \<and> max_level (log_set_max_level A g f) = f"

section \<open>Setting the logger\<close>

datatype SetLoggerError = SetLoggerError

definition set_logger_internal :: "'g log_api \<Rightarrow> 'g \<Rightarrow> logger \<Rightarrow> (unit, SetLoggerError) result \<times> 'g" where
  "set_logger_internal A g logger =
     (let (done, g) = log_set_logger A g logger
      in if done then (Ok (), log_set_max_level A g (UpTo LInfo)) else (Err SetLoggerError, g))"

text \<open>The configuration options that select the logger at compile time.\<close>

record log_cfg =
  CONFIG_PRINTK :: bool
  CONFIG_LOG :: bool
  CONFIG_LOG_MODE_MINIMAL :: bool
  CONFIG_RUST_ALLOC :: bool

definition set_logger :: "log_cfg \<Rightarrow> 'g log_api \<Rightarrow> 'g \<Rightarrow> (unit, SetLoggerError) result \<times> 'g" where
  "set_logger c A g =
     (if CONFIG_PRINTK c \<and> (\<not> CONFIG_LOG c \<or> CONFIG_LOG c \<and> CONFIG_LOG_MODE_MINIMAL c) then set_logger_internal A g PRINTK_LOGGER
      else if CONFIG_LOG c \<and> \<not> CONFIG_LOG_MODE_MINIMAL c \<and> CONFIG_RUST_ALLOC c then set_logger_internal A g ZLOG_LOGGER
      else (Ok (), g))"

section \<open>The loggers\<close>

text \<open>\<open>printkln!("{}:{}: {}", record.level(), record.target(), record.args())\<close>.\<close>

definition PrintkLogger_log :: "(Level \<Rightarrow> u8 list) \<Rightarrow> log_record \<Rightarrow> u8 list list outcome" where
  "PrintkLogger_log show_level r =
     printkln ([show_level (rec_level r), [0x3A], rec_target r, [0x3A, 0x20]] @ rec_args r)"

record zlog_levels =
  LOG_LEVEL_ERR :: u32
  LOG_LEVEL_WRN :: u32
  LOG_LEVEL_INF :: u32
  LOG_LEVEL_DBG :: u32

primrec zlog_level :: "zlog_levels \<Rightarrow> Level \<Rightarrow> u32" where
  "zlog_level Z LError = LOG_LEVEL_ERR Z"
| "zlog_level Z LWarn = LOG_LEVEL_WRN Z"
| "zlog_level Z LInfo = LOG_LEVEL_INF Z"
| "zlog_level Z LDebug = LOG_LEVEL_DBG Z"
| "zlog_level Z LTrace = LOG_LEVEL_DBG Z"

text \<open>The level and the memory of the message that \<open>rust_log_message\<close> gets.\<close>

definition ZlogLogger_log :: "zlog_levels \<Rightarrow> log_record \<Rightarrow> u32 \<times> u8 list" where
  "ZlogLogger_log Z r =
     (let level = zlog_level Z (rec_level r);
          msg = rec_target r @ [0x3A, 0x20] @ concat (rec_args r)
      in (level, msg @ [0]))"

text \<open>What C reads at the address of a message: the bytes up to the first zero, which has to be in the memory.\<close>

fun c_string :: "u8 list \<Rightarrow> u8 list option" where
  "c_string [] = None"
| "c_string (b # bs) = (if b = 0 then Some [] else map_option (\<lambda>s. b # s) (c_string bs))"

section \<open>Lemmas\<close>

lemma c_string_terminated: "c_string (msg @ [0]) = Some (takeWhile (\<lambda>b. b \<noteq> 0) msg)"
  by (induction msg) auto

context log_crate
begin

lemma internal_first:
  assumes "current g = None"
  shows "\<exists>g'. set_logger_internal A g l = (Ok (), g') \<and> current g' = Some l \<and> max_level g' = UpTo LInfo"
proof -
  obtain g' where "log_set_logger A g l = (True, g')" "current g' = Some l" using set_first [OF assms] by blast
  then show ?thesis using set_level [of g' "UpTo LInfo"] by (simp add: set_logger_internal_def)
qed

lemma internal_again: "current g \<noteq> None \<Longrightarrow> set_logger_internal A g l = (Err SetLoggerError, g)"
  using set_again by (simp add: set_logger_internal_def)

end

section \<open>A reference log package\<close>

definition ref_log_api :: "(logger option \<times> LevelFilter) log_api" where
  "ref_log_api = \<lparr>log_set_logger = (\<lambda>g l. if fst g = None then (True, (Some l, snd g)) else (False, g)),
     log_set_max_level = (\<lambda>g f. (fst g, f))\<rparr>"

interpretation ref_log: log_crate ref_log_api fst snd
  by unfold_locales (auto simp: ref_log_api_def)

interpretation ref_log_once: one_shot "\<lambda>g. case set_logger_internal ref_log_api g l of (r, g) \<Rightarrow> (is_ok r, g)" "\<lambda>g. fst g = None"
proof unfold_locales
  fix g :: "logger option \<times> LevelFilter"
  show "fst g = None \<Longrightarrow> fst (case set_logger_internal ref_log_api g l of (r, g) \<Rightarrow> (is_ok r, g))"
    using ref_log.internal_first [of g l] by auto
  show "fst g \<noteq> None \<Longrightarrow> \<not> fst (case set_logger_internal ref_log_api g l of (r, g) \<Rightarrow> (is_ok r, g))"
    using ref_log.internal_again [of g l] by auto
  show "fst (snd (case set_logger_internal ref_log_api g l of (r, g) \<Rightarrow> (is_ok r, g))) \<noteq> None"
    using ref_log.internal_first [of g l] ref_log.internal_again [of g l] by (cases "fst g") auto
qed

section \<open>Properties\<close>



end
