(* ===== verification/Kconfig.thy ===== *)
theory Kconfig
  imports Zephyr_Prelude "HOL-Library.Sublist"
begin

text \<open>
  \<open>zephyr-build/src/lib.rs\<close>, the Kconfig part: the boolean options of the \<open>.config\<close> file become \<open>cfg\<close> flags, and
  its numbers and strings become constants of the generated module \<open>kconfig\<close>. The patterns are matched by the
  \<open>regex\<close> package, which is a parameter: \<open>kre_ok\<close> states what a greedy match of \<open>^(CONFIG_.*)=(l)$\<close> is.
\<close>

section \<open>Reading the file\<close>

text \<open>A line that cannot be read is \<open>None\<close>.\<close>

record kconfig_env =
  ke_var :: "string \<Rightarrow> string option"
  ke_open :: "string \<Rightarrow> string option list option"
  ke_create :: "string \<Rightarrow> bool"
  ke_y :: "string \<Rightarrow> string option"
  ke_hex :: "string \<Rightarrow> (string \<times> string) option"
  ke_int :: "string \<Rightarrow> (string \<times> string) option"
  ke_str :: "string \<Rightarrow> (string \<times> string) option"

definition unwrap_or_default :: "string option \<Rightarrow> string" where
  "unwrap_or_default x = (case x of Some s \<Rightarrow> s | None \<Rightarrow> [])"

text \<open>The set of flags, or nothing if the file cannot be opened.\<close>

definition extract_kconfig_bool_options :: "kconfig_env \<Rightarrow> string \<Rightarrow> string set option" where
  "extract_kconfig_bool_options E path = (case ke_open E path of
     None \<Rightarrow> None
   | Some ls \<Rightarrow> Some (set (List.map_filter (ke_y E) (map unwrap_or_default ls))))"

text \<open>\<open>export_kconfig_bool_options\<close>: the lines that it always prints, and those of the flags, which come in any order.\<close>

definition export_kconfig_bool_options :: "kconfig_env \<Rightarrow> (string list \<times> string set) outcome" where
  "export_kconfig_bool_options E =
     bind_outcome (expect ''DOTCONFIG must be set by wrapper'' (ke_var E ''DOTCONFIG'')) (\<lambda>dotconfig.
     bind_outcome (expect ''failed to extract flags from .config'' (extract_kconfig_bool_options E dotconfig)) (\<lambda>flags.
       Ret ([''cargo:rerun-if-env-changed=DOTCONFIG'', ''cargo:rerun-if-changed='' @ dotconfig],
         (\<lambda>flag. ''cargo:rustc-cfg='' @ flag) ` flags)))"

definition kconfig_const :: "string \<Rightarrow> string \<Rightarrow> string \<Rightarrow> string list" where
  "kconfig_const name ty v = [''#[allow(dead_code)]'', ''pub const '' @ name @ '': '' @ ty @ '' = '' @ v @ '';'']"

text \<open>The loop of \<open>build_kconfig_mod\<close>, with the lines written so far.\<close>

fun kconfig_loop :: "kconfig_env \<Rightarrow> string option list \<Rightarrow> string list \<Rightarrow> string list outcome" where
  "kconfig_loop E [] f = Ret f"
| "kconfig_loop E (line # ls) f = bind_outcome (expect ''reading line from dotconfig'' line) (\<lambda>line.
     case ke_hex E line of
       Some (x, v) \<Rightarrow> kconfig_loop E ls (f @ kconfig_const x ''usize'' v)
     | None \<Rightarrow> (case ke_int E line of
         Some (x, v) \<Rightarrow> kconfig_loop E ls (f @ kconfig_const x ''isize'' v)
       | None \<Rightarrow> (case ke_str E line of
           Some (x, v) \<Rightarrow> kconfig_loop E ls (f @ kconfig_const x ''&str'' v)
         | None \<Rightarrow> kconfig_loop E ls f)))"

text \<open>The path of the generated file, and its lines.\<close>

definition build_kconfig_mod :: "kconfig_env \<Rightarrow> (string \<times> string list) outcome" where
  "build_kconfig_mod E =
     bind_outcome (expect ''DOTCONFIG must be set by wrapper'' (ke_var E ''DOTCONFIG'')) (\<lambda>dotconfig.
     bind_outcome (expect ''OUT_DIR must be set'' (ke_var E ''OUT_DIR'')) (\<lambda>outdir.
     bind_outcome (if ke_create E (outdir @ ''/kconfig.rs'') then Ret () else Panic ''called `Result::unwrap()` on an `Err` value'') (\<lambda>_.
     bind_outcome (expect ''Unable to open dotconfig'' (ke_open E dotconfig)) (\<lambda>file.
     bind_outcome (kconfig_loop E file []) (\<lambda>f. Ret (outdir @ ''/kconfig.rs'', f))))))"

section \<open>The patterns\<close>

definition config_name :: "string \<Rightarrow> bool" where
  "config_name x \<longleftrightarrow> prefix ''CONFIG_'' x"

definition kre_ok :: "(string \<Rightarrow> bool) \<Rightarrow> (string \<Rightarrow> (string \<times> string) option) \<Rightarrow> bool" where
  "kre_ok l R \<longleftrightarrow> (\<forall>line. case R line of
     None \<Rightarrow> \<not> (\<exists>x y. line = x @ CHR ''='' # y \<and> config_name x \<and> l y)
   | Some (x, y) \<Rightarrow> line = x @ CHR ''='' # y \<and> config_name x \<and> l y \<and>
       (\<forall>x' y'. line = x' @ CHR ''='' # y' \<and> config_name x' \<and> l y' \<longrightarrow> length x' \<le> length x))"

definition ky_ok :: "(string \<Rightarrow> string option) \<Rightarrow> bool" where
  "ky_ok R \<longleftrightarrow> (\<forall>line x. R line = Some x \<longleftrightarrow> line = x @ ''=y'' \<and> config_name x)"

definition digit19 :: "char \<Rightarrow> bool" where
  "digit19 c \<longleftrightarrow> 49 \<le> (of_char c :: nat) \<and> (of_char c :: nat) \<le> 57"

definition digit09 :: "char \<Rightarrow> bool" where
  "digit09 c \<longleftrightarrow> 48 \<le> (of_char c :: nat) \<and> (of_char c :: nat) \<le> 57"

definition hex_digit :: "char \<Rightarrow> bool" where
  "hex_digit c \<longleftrightarrow> digit09 c \<or> 97 \<le> (of_char c :: nat) \<and> (of_char c :: nat) \<le> 102 \<or> 65 \<le> (of_char c :: nat) \<and> (of_char c :: nat) \<le> 70"

text \<open>\<open>0x[0-9a-fA-F]+\<close>, \<open>-?[1-9][0-9]*|0\<close> and \<open>".*"\<close>.\<close>

fun hex_text :: "string \<Rightarrow> bool" where
  "hex_text (z # x # d # ds) = (z = CHR ''0'' \<and> x = CHR ''x'' \<and> list_all hex_digit (d # ds))"
| "hex_text _ = False"

fun pos_text :: "string \<Rightarrow> bool" where
  "pos_text [] = False"
| "pos_text (d # ds) = (digit19 d \<and> list_all digit09 ds)"

definition int_text :: "string \<Rightarrow> bool" where
  "int_text y \<longleftrightarrow> y = ''0'' \<or> pos_text y \<or> (case y of [] \<Rightarrow> False | m # ds \<Rightarrow> m = CHR ''-'' \<and> pos_text ds)"

definition str_text :: "string \<Rightarrow> bool" where
  "str_text y \<longleftrightarrow> 2 \<le> length y \<and> hd y = CHR 0x22 \<and> last y = CHR 0x22"

text \<open>A matcher: the first group is tried from the longest down.\<close>

definition kre :: "(string \<Rightarrow> bool) \<Rightarrow> string \<Rightarrow> (string \<times> string) option" where
  "kre l line = (case List.find (\<lambda>i. line ! i = CHR ''='' \<and> config_name (take i line) \<and> l (drop (Suc i) line)) (rev [0..<length line]) of
     None \<Rightarrow> None | Some i \<Rightarrow> Some (take i line, drop (Suc i) line))"

section \<open>The file\<close>

text \<open>The lines of a \<open>.config\<close> file: options that are set, numbers, strings, and others.\<close>

datatype setting = KBool string | KHex string string | KInt string string | KStr string string | KOther string

primrec setting_line :: "setting \<Rightarrow> string" where
  "setting_line (KBool n) = n @ ''=y''"
| "setting_line (KHex n v) = n @ CHR ''='' # v"
| "setting_line (KInt n v) = n @ CHR ''='' # v"
| "setting_line (KStr n t) = n @ CHR ''='' # CHR 0x22 # t @ [CHR 0x22]"
| "setting_line (KOther l) = l"

text \<open>
  Names have no equals sign and no colon (Kconfig allows letters, digits and underscores), values are of their kind, and a quotation mark in a string does not follow an
  equals sign (the tools escape it); the other lines match no pattern.
\<close>

definition symbol_name :: "string \<Rightarrow> bool" where
  "symbol_name n \<longleftrightarrow> config_name n \<and> CHR ''='' \<notin> set n \<and> CHR '':'' \<notin> set n"

primrec setting_ok :: "setting \<Rightarrow> bool" where
  "setting_ok (KBool n) = (symbol_name n)"
| "setting_ok (KHex n v) = (symbol_name n \<and> hex_text v)"
| "setting_ok (KInt n v) = (symbol_name n \<and> int_text v)"
| "setting_ok (KStr n t) = (symbol_name n \<and> \<not> sublist [CHR ''='', CHR 0x22] t)"
| "setting_ok (KOther line) = (\<not> (\<exists>x y. line = x @ CHR ''='' # y \<and> config_name x \<and> (y = ''y'' \<or> hex_text y \<or> int_text y \<or> str_text y)))"

text \<open>What the flags and the module have for a line.\<close>

primrec setting_flags :: "setting \<Rightarrow> string list" where
  "setting_flags (KBool n) = [n]"
| "setting_flags (KHex n v) = []"
| "setting_flags (KInt n v) = []"
| "setting_flags (KStr n v) = []"
| "setting_flags (KOther l) = []"

text \<open>The text of the module for a line, written out: a hexadecimal value is a \<open>usize\<close>, a decimal one an \<open>isize\<close>.\<close>

primrec setting_consts :: "setting \<Rightarrow> string list" where
  "setting_consts (KBool n) = []"
| "setting_consts (KHex n v) = [''#[allow(dead_code)]'', ''pub const '' @ n @ '': usize = '' @ v @ '';'']"
| "setting_consts (KInt n v) = [''#[allow(dead_code)]'', ''pub const '' @ n @ '': isize = '' @ v @ '';'']"
| "setting_consts (KStr n t) =
     [''#[allow(dead_code)]'', ''pub const '' @ n @ '': &str = '' @ [CHR 0x22] @ t @ [CHR 0x22] @ '';'']"
| "setting_consts (KOther l) = []"

text \<open>The name, type and value that a line of the \<open>.config\<close> file declares.\<close>

primrec setting_values :: "setting \<Rightarrow> (string \<times> string \<times> string) list" where
  "setting_values (KBool n) = []"
| "setting_values (KHex n v) = [(n, ''usize'', v)]"
| "setting_values (KInt n v) = [(n, ''isize'', v)]"
| "setting_values (KStr n t) = [(n, ''&str'', [CHR 0x22] @ t @ [CHR 0x22])]"
| "setting_values (KOther l) = []"

text \<open>
  A reader of the module, as the compiler sees it: a constant has the name before the first \<open>: \<close>, the type
  before the next \<open> = \<close>, and the value up to the semicolon at the end; attributes are skipped.
\<close>

fun split_first :: "string \<Rightarrow> string \<Rightarrow> (string \<times> string) option" where
  "split_first sep [] = None"
| "split_first sep (c # cs) =
     (if prefix sep (c # cs) then Some ([], drop (length sep) (c # cs))
      else map_option (apfst (Cons c)) (split_first sep cs))"

definition read_const :: "string \<Rightarrow> (string \<times> string \<times> string) option" where
  "read_const line =
     (if prefix ''pub const '' line
      then case split_first '': '' (drop 10 line) of
          None \<Rightarrow> None
        | Some (n, r) \<Rightarrow> (case split_first '' = '' r of
            None \<Rightarrow> None
          | Some (ty, e) \<Rightarrow> if e \<noteq> [] \<and> last e = CHR '';'' then Some (n, ty, butlast e) else None)
      else None)"

definition read_module :: "string list \<Rightarrow> (string \<times> string \<times> string) list" where
  "read_module ls = List.map_filter read_const ls"

lemma split_first_fresh: "c \<notin> set n \<Longrightarrow> split_first (c # sep) (n @ c # sep @ r) = Some (n, r)"
  by (induction n) auto

lemma read_const_text:
  assumes "CHR '':'' \<notin> set n" and "split_first '' = '' (ty @ '' = '' @ v @ '';'') = Some (ty, v @ '';'')"
  shows "read_const (''pub const '' @ n @ '': '' @ ty @ '' = '' @ v @ '';'') = Some (n, ty, v)"
  using split_first_fresh [OF assms(1), of "'' ''" "ty @ '' = '' @ v @ '';''"] assms(2) by (simp add: read_const_def)

lemma read_setting: "setting_ok st \<Longrightarrow> read_module (setting_consts st) = setting_values st"
proof -
  assume ok: "setting_ok st"
  have skip: "read_const ''#[allow(dead_code)]'' = None" by (simp add: read_const_def)
  show ?thesis
  proof (cases st)
    case (KHex n v)
    then show ?thesis using read_const_text [of n "''usize''" v] ok skip
      by (simp add: symbol_name_def read_module_def List.map_filter_simps)
  next
    case (KInt n v)
    then show ?thesis using read_const_text [of n "''isize''" v] ok skip
      by (simp add: symbol_name_def read_module_def List.map_filter_simps)
  next
    case (KStr n t)
    then show ?thesis using read_const_text [of n "''&str''" "[CHR 0x22] @ t @ [CHR 0x22]"] ok skip
      by (simp add: symbol_name_def read_module_def List.map_filter_simps)
  qed (simp_all add: read_module_def List.map_filter_simps)
qed

lemma read_settings: "\<forall>st \<in> set sts. setting_ok st \<Longrightarrow> read_module (concat (map setting_consts sts)) = concat (map setting_values sts)"
proof (induction sts)
  case (Cons st sts)
  then show ?case using read_setting [of st] by (simp add: read_module_def List.map_filter_def)
qed (simp add: read_module_def List.map_filter_simps)

section \<open>Splitting a line\<close>

lemma split_unique:
  assumes "x @ c # y = x' @ c # y'" and "c \<notin> set x" and "c \<notin> set y"
  shows "x' = x \<and> y' = y"
proof -
  from assms(1) consider us where "x = x' @ us" "us @ c # y = c # y'" | us where "x @ us = x'" "c # y = us @ c # y'"
    by (auto simp: append_eq_append_conv2)
  then show ?thesis
  proof cases
    case 1
    then show ?thesis using assms(2) by (cases us) auto
  next
    case 2
    then show ?thesis using assms(3) by (cases us) auto
  qed
qed

lemma kre_unique:
  assumes "kre_ok l R" and "line = x @ CHR ''='' # y" and "config_name x" and "CHR ''='' \<notin> set x" and "CHR ''='' \<notin> set y"
  shows "R line = (if l y then Some (x, y) else None)"
proof (cases "R line")
  case None
  then show ?thesis using assms(1-3) by (auto simp: kre_ok_def dest!: spec [of _ line])
next
  case (Some xy)
  obtain x' y' where xy: "xy = (x', y')" by fastforce
  have "line = x' @ CHR ''='' # y'" "l y'" using assms(1) Some xy unfolding kre_ok_def by (auto dest!: spec [of _ line])
  with split_unique [of x "CHR ''=''" y x' y'] assms(2,4,5) Some xy show ?thesis by simp
qed

lemma hex_text_chars: "hex_text v \<Longrightarrow> v \<noteq> [] \<and> CHR ''='' \<notin> set v \<and> CHR 0x22 \<notin> set v"
  by (cases v rule: hex_text.cases) (auto simp: hex_digit_def digit09_def list_all_iff)

lemma pos_text_chars: "pos_text v \<Longrightarrow> list_all digit09 v \<and> v \<noteq> []"
  by (cases v) (auto simp: digit19_def digit09_def list_all_iff)

lemma int_text_chars: "int_text v \<Longrightarrow> v \<noteq> [] \<and> CHR ''='' \<notin> set v \<and> CHR 0x22 \<notin> set v \<and> \<not> hex_text v"
  by (cases v rule: hex_text.cases) (auto simp: int_text_def digit09_def digit19_def list_all_iff dest!: pos_text_chars)

lemma str_text_chars: "str_text v \<Longrightarrow> v \<noteq> [] \<and> CHR 0x22 \<in> set v"
  by (cases v) (auto simp: str_text_def)

text \<open>The line of a string ends with a quotation mark, which no other kind of value has, and has one split as a string.\<close>

lemma string_line_split:
  assumes "n @ CHR ''='' # CHR 0x22 # t @ [CHR 0x22] = x @ CHR ''='' # y"
  shows "y = [] \<or> last y = CHR 0x22"
proof (cases "y = []")
  case False
  have "last (n @ CHR ''='' # CHR 0x22 # t @ [CHR 0x22]) = CHR 0x22" by simp
  with assms have "last (x @ CHR ''='' # y) = CHR 0x22" by simp
  with False show ?thesis by simp
qed simp

lemma string_line_unique:
  assumes "n @ CHR ''='' # CHR 0x22 # t @ [CHR 0x22] = x @ CHR ''='' # y" and "str_text y"
    and "CHR ''='' \<notin> set n" and "\<not> sublist [CHR ''='', CHR 0x22] t"
  shows "x = n \<and> y = CHR 0x22 # t @ [CHR 0x22]"
proof -
  obtain q where q: "y = CHR 0x22 # q @ [CHR 0x22]"
    using assms(2) by (cases y; cases "tl y" rule: rev_cases) (auto simp: str_text_def)
  from assms(1) consider us where "n = x @ us" "us @ CHR ''='' # CHR 0x22 # t @ [CHR 0x22] = CHR ''='' # y"
    | us where "n @ us = x" "CHR ''='' # CHR 0x22 # t @ [CHR 0x22] = us @ CHR ''='' # y"
    by (auto simp: append_eq_append_conv2)
  then show ?thesis
  proof cases
    case 1
    then show ?thesis using assms(3) by (cases us) auto
  next
    case 2
    show ?thesis
    proof (cases us)
      case Nil
      then show ?thesis using 2 by simp
    next
      case (Cons u vs)
      then obtain ws where ws: "vs = CHR 0x22 # ws" "t @ [CHR 0x22] = ws @ CHR ''='' # CHR 0x22 # q @ [CHR 0x22]"
        using 2 q by (cases vs) auto
      then have "t = ws @ [CHR ''='', CHR 0x22] @ q" by (metis append.assoc append_Cons append_Nil append1_eq_conv)
      then have "sublist [CHR ''='', CHR 0x22] t" unfolding sublist_def by blast
      with assms(4) show ?thesis by simp
    qed
  qed
qed

definition kconfig_ok :: "kconfig_env \<Rightarrow> bool" where
  "kconfig_ok E \<longleftrightarrow> ky_ok (ke_y E) \<and> kre_ok hex_text (ke_hex E) \<and> kre_ok int_text (ke_int E) \<and> kre_ok str_text (ke_str E)"

lemma kre_None: "kre_ok l R \<Longrightarrow> R line = None \<longleftrightarrow> \<not> (\<exists>x y. line = x @ CHR ''='' # y \<and> config_name x \<and> l y)"
  unfolding kre_ok_def by (cases "R line") (fastforce dest!: spec [of _ line])+

lemma kre_Some: "kre_ok l R \<Longrightarrow> R line = Some (x, y) \<Longrightarrow> line = x @ CHR ''='' # y \<and> config_name x \<and> l y"
  unfolding kre_ok_def by (fastforce dest!: spec [of _ line])

lemma string_line_None:
  assumes "kre_ok l R" and "\<And>y. l y \<Longrightarrow> y \<noteq> [] \<and> CHR 0x22 \<notin> set y"
  shows "R (n @ CHR ''='' # CHR 0x22 # t @ [CHR 0x22]) = None"
  unfolding kre_None [OF assms(1)]
proof
  assume "\<exists>x y. n @ CHR ''='' # CHR 0x22 # t @ [CHR 0x22] = x @ CHR ''='' # y \<and> config_name x \<and> l y"
  then obtain x y where "n @ CHR ''='' # CHR 0x22 # t @ [CHR 0x22] = x @ CHR ''='' # y" "l y" by blast
  with string_line_split assms(2) [of y] last_in_set [of y] show False by metis
qed

lemma setting_loop:
  assumes "kconfig_ok E" and "setting_ok st"
  shows "kconfig_loop E (Some (setting_line st) # ls) f = kconfig_loop E ls (f @ setting_consts st)"
proof -
  note k = assms(1) [unfolded kconfig_ok_def]
  have unique: "ke_hex E (n @ CHR ''='' # v) = (if hex_text v then Some (n, v) else None)"
      "ke_int E (n @ CHR ''='' # v) = (if int_text v then Some (n, v) else None)"
      "ke_str E (n @ CHR ''='' # v) = (if str_text v then Some (n, v) else None)"
    if "config_name n" "CHR ''='' \<notin> set n" "CHR ''='' \<notin> set v" for n v
    using kre_unique [OF _ refl that] k by blast+
  show ?thesis
  proof (cases st)
    case (KBool n)
    then show ?thesis using unique [of n "''y''"] assms(2) by (simp add: symbol_name_def int_text_def digit19_def str_text_def)
  next
    case (KHex n v)
    then show ?thesis using unique [of n v] hex_text_chars [of v] assms(2) by (simp add: symbol_name_def kconfig_const_def)
  next
    case (KInt n v)
    then show ?thesis using unique [of n v] int_text_chars [of v] assms(2) by (simp add: symbol_name_def kconfig_const_def)
  next
    case (KStr n t)
    let ?v = "CHR 0x22 # t @ [CHR 0x22]" and ?l = "n @ CHR ''='' # CHR 0x22 # t @ [CHR 0x22]"
    have "ke_hex E ?l = None" using string_line_None [of hex_text] k hex_text_chars by blast
    moreover have "ke_int E ?l = None" using string_line_None [of int_text] k int_text_chars by blast
    moreover have "str_text ?v" by (simp add: str_text_def)
    then have "ke_str E ?l \<noteq> None" using kre_None [of str_text "ke_str E" ?l] k KStr assms(2) by (auto simp: symbol_name_def)
    then obtain x y where xy: "ke_str E ?l = Some (x, y)" by auto
    have "?l = x @ CHR ''='' # y" "str_text y" using kre_Some [of str_text "ke_str E" ?l x y] xy k by auto
    then have "x = n \<and> y = ?v" using string_line_unique KStr assms(2) by (simp add: symbol_name_def)
    ultimately show ?thesis using KStr xy by (simp add: kconfig_const_def)
  next
    case (KOther l)
    then have "ke_hex E l = None" "ke_int E l = None" "ke_str E l = None" using assms(2) k kre_None by auto
    then show ?thesis using KOther by simp
  qed
qed

lemma setting_flag:
  assumes "kconfig_ok E" and "setting_ok st"
  shows "set_option (ke_y E (setting_line st)) = set (setting_flags st)"
proof -
  have y: "ke_y E line = Some x \<longleftrightarrow> line = x @ ''=y'' \<and> config_name x" for line x
    using assms(1) by (simp add: kconfig_ok_def ky_ok_def)
  have other: "ke_y E (n @ CHR ''='' # v) = None" if "CHR ''='' \<notin> set n" "CHR ''='' \<notin> set v" "v \<noteq> ''y''" for n v
    using y [of "n @ CHR ''='' # v"] split_unique [of n "CHR ''=''" v _ "''y''"] that by (cases "ke_y E (n @ CHR ''='' # v)") auto
  show ?thesis
  proof (cases st)
    case (KBool n)
    then have "ke_y E (n @ ''=y'') = Some n" using y assms(2) by (simp add: symbol_name_def)
    then show ?thesis using KBool by simp
  next
    case (KHex n v)
    then have "v \<noteq> ''y''" using assms(2) by auto
    then show ?thesis using KHex other [of n v] hex_text_chars [of v] assms(2) by (simp add: symbol_name_def)
  next
    case (KInt n v)
    then have "v \<noteq> ''y''" using assms(2) by (auto simp: int_text_def digit19_def)
    then show ?thesis using KInt other [of n v] int_text_chars [of v] assms(2) by (simp add: symbol_name_def)
  next
    case (KStr n t)
    have "ke_y E (setting_line st) \<noteq> Some x" for x using string_line_split [of n t x "''y''"] KStr y by auto
    then show ?thesis using KStr by (cases "ke_y E (setting_line st)") auto
  next
    case (KOther l)
    have "ke_y E l \<noteq> Some x" for x using y assms(2) KOther by auto
    then show ?thesis using KOther by (cases "ke_y E l") auto
  qed
qed

lemma kconfig_loop_settings:
  assumes "kconfig_ok E" and "\<forall>st \<in> set sts. setting_ok st"
  shows "kconfig_loop E (map (\<lambda>st. Some (setting_line st)) sts) f = Ret (f @ concat (map setting_consts sts))"
  using assms(2)
proof (induction sts arbitrary: f)
  case (Cons st sts)
  then show ?case using setting_loop [OF assms(1), of st] by simp
qed simp

section \<open>The reference matcher\<close>

lemma kre_ok_kre: "kre_ok l (kre l)"
  unfolding kre_ok_def
proof
  fix line
  let ?P = "\<lambda>i. line ! i = CHR ''='' \<and> config_name (take i line) \<and> l (drop (Suc i) line)"
  have split: "?P (length x) \<and> length x < length line \<longleftrightarrow> config_name x \<and> l y" if "line = x @ CHR ''='' # y" for x y
    using that by simp
  show "case kre l line of
     None \<Rightarrow> \<not> (\<exists>x y. line = x @ CHR ''='' # y \<and> config_name x \<and> l y)
   | Some (x, y) \<Rightarrow> line = x @ CHR ''='' # y \<and> config_name x \<and> l y \<and>
       (\<forall>x' y'. line = x' @ CHR ''='' # y' \<and> config_name x' \<and> l y' \<longrightarrow> length x' \<le> length x)"
  proof (cases "List.find ?P (rev [0..<length line])")
    case None
    then have "\<not> ?P i" if "i < length line" for i using that unfolding find_None_iff by auto
    then have "\<not> (\<exists>x y. line = x @ CHR ''='' # y \<and> config_name x \<and> l y)" using split by blast
    then show ?thesis using None by (simp add: kre_def)
  next
    case (Some i)
    then obtain k where k: "k < length line" "?P (rev [0..<length line] ! k)" "i = rev [0..<length line] ! k"
      "\<forall>j < k. \<not> ?P (rev [0..<length line] ! j)" unfolding find_Some_iff by auto
    have nth: "rev [0..<length line] ! j = length line - Suc j" if "j < length line" for j using that by (simp add: rev_nth)
    have i: "i = length line - Suc k" "?P i" "i < length line" using k nth [OF k(1)] by auto
    have line: "line = take i line @ CHR ''='' # drop (Suc i) line" using i(2,3) by (metis id_take_nth_drop)
    have "length x \<le> i" if x: "line = x @ CHR ''='' # y" "config_name x" "l y" for x y
    proof (rule ccontr)
      assume "\<not> length x \<le> i"
      moreover have "?P (length x)" "length x < length line" using split [OF x(1)] x(2,3) by auto
      ultimately have "length line - Suc (length x) < k" "rev [0..<length line] ! (length line - Suc (length x)) = length x"
        using i(1) k(1) nth [of "length line - Suc (length x)"] by auto
      then show False using k(4) \<open>?P (length x)\<close> by metis
    qed
    then show ?thesis using Some line i by (auto simp: kre_def min_def)
  qed
qed

definition ky :: "string \<Rightarrow> string option" where
  "ky line = (if 2 \<le> length line \<and> drop (length line - 2) line = ''=y'' \<and> config_name (take (length line - 2) line)
     then Some (take (length line - 2) line) else None)"

lemma ky_ok_ky: "ky_ok ky"
  unfolding ky_ok_def
proof (intro allI iffI)
  fix line x
  show "line = x @ ''=y'' \<and> config_name x" if "ky line = Some x"
    using that by (auto simp: ky_def split: if_splits) (metis append_take_drop_id)
qed (auto simp: ky_def)

section \<open>Properties\<close>


definition demo_settings :: "setting list" where
  "demo_settings = [KOther ''# Kconfig'', KBool ''CONFIG_RUST'', KHex ''CONFIG_BASE'' ''0x2F'', KInt ''CONFIG_N'' ''-12'',
     KStr ''CONFIG_BOARD'' ''a=b'']"

definition demo_kenv :: kconfig_env where
  "demo_kenv = \<lparr>ke_var = [''DOTCONFIG'' \<mapsto> ''dot'', ''OUT_DIR'' \<mapsto> ''out''],
     ke_open = [''dot'' \<mapsto> map (\<lambda>st. Some (setting_line st)) demo_settings], ke_create = (\<lambda>_. True),
     ke_y = ky, ke_hex = kre hex_text, ke_int = kre int_text, ke_str = kre str_text\<rparr>"

lemma demo_settings_ok: "\<forall>st \<in> set demo_settings. setting_ok st"
proof -
  have "\<not> sublist [CHR ''='', CHR 0x22] ''a=b''" by (simp add: sublist_code)
  moreover have "\<not> config_name (CHR ''#'' # x)" for x by (simp add: config_name_def)
  then have "\<not> (\<exists>x y. ''# Kconfig'' = x @ CHR ''='' # y \<and> config_name x)" by (auto simp: Cons_eq_append_conv)
  ultimately show ?thesis
    by (auto simp: demo_settings_def symbol_name_def config_name_def int_text_def digit19_def digit09_def hex_digit_def)
qed


end
