(* ===== verification/Allocator.thy ===== *)
theory Allocator
  imports Zephyr_Prelude
begin

text \<open>
  \<open>zephyr/src/alloc_impl.rs\<close>: the global allocator over the C functions \<open>aligned_alloc\<close> and \<open>free\<close>, which
  are parameters, with \<open>Layout\<close> of the standard library.
\<close>

unbundle bit_operations_syntax

section \<open>Layouts\<close>

record Layout =
  layout_size :: usize
  layout_align :: usize

text \<open>
  \<open>Layout::from_size_align\<close>: the alignment is a power of two, and the size, rounded up to the alignment, is at
  most \<open>isize::MAX\<close>.
\<close>

definition power_of_two :: "usize \<Rightarrow> bool" where
  "power_of_two a \<longleftrightarrow> (\<exists>k<32. a = 2 ^ k)"

definition layout_ok :: "Layout \<Rightarrow> bool" where
  "layout_ok l \<longleftrightarrow> power_of_two (layout_align l) \<and>
     unat (layout_size l) \<le> 2 ^ 31 - unat (layout_align l)"

text \<open>\<open>Layout::pad_to_align\<close>.\<close>

definition pad_to_align :: "Layout \<Rightarrow> Layout" where
  "pad_to_align l =
     (let align_m1 = layout_align l - 1
      in l\<lparr>layout_size := (layout_size l + align_m1) AND NOT align_m1\<rparr>)"

section \<open>The C heap\<close>

record 'h c_heap_api =
  c_aligned_alloc :: "'h \<Rightarrow> usize \<Rightarrow> usize \<Rightarrow> ptr \<times> 'h"
  c_free :: "'h \<Rightarrow> ptr \<Rightarrow> 'h"

definition overlap :: "ptr \<Rightarrow> usize \<Rightarrow> ptr \<Rightarrow> usize \<Rightarrow> bool" where
  "overlap p m q n \<longleftrightarrow> unat p < unat q + unat n \<and> unat q < unat p + unat m"

text \<open>
  What the C standard promises. The alignment is a power of two and the size a multiple of it: the caller has to
  see to that. The answer is null, or a new aligned block that does not wrap around and overlaps no other block. A
  block that is given back is no longer there; giving back null does nothing.
\<close>

locale c_heap =
  fixes C :: "'h c_heap_api" and heap_ok :: "'h \<Rightarrow> bool" and blocks :: "'h \<Rightarrow> ptr \<rightharpoonup> usize"
  assumes alloc_law: "heap_ok h \<Longrightarrow> power_of_two a \<Longrightarrow> unat a dvd unat s \<Longrightarrow> s \<noteq> 0 \<Longrightarrow> c_aligned_alloc C h a s = (p, h') \<Longrightarrow>
      heap_ok h' \<and> (p = 0 \<and> blocks h' = blocks h \<or>
        p \<noteq> 0 \<and> unat a dvd unat p \<and> unat p + unat s \<le> 2 ^ 32 \<and> p \<notin> dom (blocks h) \<and>
        (\<forall>q n. blocks h q = Some n \<longrightarrow> \<not> overlap p s q n) \<and> blocks h' = (blocks h)(p \<mapsto> s))"
    and free_law: "heap_ok h \<Longrightarrow> blocks h p \<noteq> None \<Longrightarrow> heap_ok (c_free C h p) \<and> blocks (c_free C h p) = (blocks h)(p := None)"
    and free_null: "heap_ok h \<Longrightarrow> heap_ok (c_free C h 0) \<and> blocks (c_free C h 0) = blocks h"

section \<open>The allocator\<close>

definition ZephyrAllocator_alloc :: "'h c_heap_api \<Rightarrow> 'h \<Rightarrow> Layout \<Rightarrow> ptr \<times> 'h" where
  "ZephyrAllocator_alloc C h layout =
     (let align = layout_align layout;
          size = layout_size (pad_to_align layout)
      in c_aligned_alloc C h align size)"

definition ZephyrAllocator_dealloc :: "'h c_heap_api \<Rightarrow> 'h \<Rightarrow> ptr \<Rightarrow> Layout \<Rightarrow> 'h" where
  "ZephyrAllocator_dealloc C h ptr layout = c_free C h ptr"

text \<open>
  A program that keeps the contract of \<open>GlobalAlloc\<close>: it allocates valid layouts that are not empty and gives back
  what it has, with the layout it was allocated with. \<open>live\<close> is what it has.
\<close>

inductive al_step :: "'h c_heap_api \<Rightarrow> 'h \<times> (ptr \<rightharpoonup> Layout) \<Rightarrow> 'h \<times> (ptr \<rightharpoonup> Layout) \<Rightarrow> bool" for C where
  al_alloc: "layout_ok l \<Longrightarrow> layout_size l \<noteq> 0 \<Longrightarrow> ZephyrAllocator_alloc C h l = (p, h') \<Longrightarrow>
    al_step C (h, live) (h', if p = 0 then live else live(p \<mapsto> l))"
| al_dealloc: "live p = Some l \<Longrightarrow> al_step C (h, live) (ZephyrAllocator_dealloc C h p l, live(p := None))"

inductive al_reach :: "'h c_heap_api \<Rightarrow> 'h \<Rightarrow> 'h \<times> (ptr \<rightharpoonup> Layout) \<Rightarrow> bool" for C h\<^sub>0 where
  al_start: "al_reach C h\<^sub>0 (h\<^sub>0, Map.empty)"
| al_next: "al_reach C h\<^sub>0 s \<Longrightarrow> al_step C s s' \<Longrightarrow> al_reach C h\<^sub>0 s'"

section \<open>Rounding up\<close>

lemma power_of_two_unat:
  assumes "k < 32"
  shows "unat (2 ^ k :: usize) = 2 ^ k"
proof -
  have "k < LENGTH(32)" using assms by simp
  then have "take_bit LENGTH(32) (2 ^ k :: nat) = 2 ^ k" by (simp add: take_bit_nat_eq_self)
  then have "unat (of_nat (2 ^ k) :: usize) = 2 ^ k" by (simp only: unsigned_of_nat of_nat_id)
  then show ?thesis by simp
qed

lemma and_not_mask_unat:
  fixes x :: usize
  assumes "k < 32"
  shows "unat (x AND NOT (2 ^ k - 1)) = unat x div 2 ^ k * 2 ^ k"
proof -
  have "x AND NOT (mask k) = drop_bit k x * 2 ^ k"
    unfolding push_bit_eq_mult [symmetric] by (rule bit_eqI) (auto simp: bit_simps)
  moreover have "unat x < 2 ^ 32" using unsigned_less [of x] by simp
  then have "unat x div 2 ^ k * 2 ^ k < 2 ^ 32" "unat x div 2 ^ k < 2 ^ 32"
    by (simp_all add: le_less_trans [OF div_times_less_eq_dividend] le_less_trans [OF div_le_dividend])
  then have "unat (drop_bit k x * 2 ^ k) = unat x div 2 ^ k * 2 ^ k"
    by (simp add: unat_word_ariths unat_drop_bit_eq drop_bit_eq_div power_of_two_unat assms)
  ultimately show ?thesis by (simp add: mask_eq_exp_minus_1)
qed

lemma pad_to_align_exact:
  assumes "layout_ok l"
  defines "a \<equiv> unat (layout_align l)" and "s \<equiv> unat (layout_size l)"
  shows "0 < a" and "s + (a - 1) < 2 ^ 31" and "unat (layout_size (pad_to_align l)) = (s + (a - 1)) div a * a"
proof -
  obtain k where k: "k < 32" "layout_align l = 2 ^ k" using assms(1) by (auto simp: layout_ok_def power_of_two_def)
  have a: "a = 2 ^ k" by (simp add: a_def k power_of_two_unat)
  then show pos: "0 < a" by simp
  have "a \<le> 2 ^ 31" unfolding a using k by (intro power_increasing) simp_all
  with pos show le: "s + (a - 1) < 2 ^ 31" using assms(1) by (auto simp: layout_ok_def a_def s_def)
  have "1 \<le> layout_align l" using pos by (simp add: a_def word_le_nat_alt)
  then have "unat (layout_align l - 1) = a - 1" by (simp add: a_def unat_sub)
  then have "unat (layout_size l + (layout_align l - 1)) = s + (a - 1)"
    using le by (simp add: unat_plus_if' s_def)
  then show "unat (layout_size (pad_to_align l)) = (s + (a - 1)) div a * a"
    using and_not_mask_unat [OF k(1), of "layout_size l + (layout_align l - 1)"] by (simp add: pad_to_align_def a k Let_def)
qed

lemma pad_to_align_bounds:
  assumes "layout_ok l"
  shows "unat (layout_align l) dvd unat (layout_size (pad_to_align l))"
    and "unat (layout_size l) \<le> unat (layout_size (pad_to_align l))"
    and "unat (layout_size (pad_to_align l)) < 2 ^ 31"
    and "unat (layout_size (pad_to_align l)) < unat (layout_size l) + unat (layout_align l)"
proof -
  note e = pad_to_align_exact [OF assms]
  let ?a = "unat (layout_align l)" and ?s = "unat (layout_size l)"
  have m: "(?s + (?a - 1)) div ?a * ?a + (?s + (?a - 1)) mod ?a = ?s + (?a - 1)" by simp
  have "(?s + (?a - 1)) mod ?a < ?a" using e(1) by simp
  with m e(1) show "?s \<le> unat (layout_size (pad_to_align l))" unfolding e(3) by linarith
  show "?a dvd unat (layout_size (pad_to_align l))" unfolding e(3) by simp
  from m e(2) show "unat (layout_size (pad_to_align l)) < 2 ^ 31" unfolding e(3) by linarith
  from m e(1) show "unat (layout_size (pad_to_align l)) < ?s + ?a" unfolding e(3) by linarith
qed

section \<open>Allocations\<close>

text \<open>What holds of the blocks of a program and the blocks \<open>F\<close> that others have on the heap.\<close>

definition al_inv :: "(ptr \<rightharpoonup> usize) \<Rightarrow> (ptr \<rightharpoonup> usize) \<Rightarrow> (ptr \<rightharpoonup> Layout) \<Rightarrow> bool" where
  "al_inv F B live \<longleftrightarrow>
     (\<forall>p. B p = (case live p of Some l \<Rightarrow> Some (layout_size (pad_to_align l)) | None \<Rightarrow> F p)) \<and>
     (\<forall>p l. live p = Some l \<longrightarrow> F p = None \<and> layout_ok l \<and> p \<noteq> 0 \<and> unat (layout_align l) dvd unat p \<and>
        unat p + unat (layout_size (pad_to_align l)) \<le> 2 ^ 32) \<and>
     (\<forall>p l q n. live p = Some l \<longrightarrow> B q = Some n \<longrightarrow> p \<noteq> q \<longrightarrow> \<not> overlap p (layout_size (pad_to_align l)) q n)"

lemma overlap_sym: "overlap p m q n \<longleftrightarrow> overlap q n p m"
  by (auto simp: overlap_def)

lemma al_inv_alloc:
  assumes "al_inv F B live" and "layout_ok l" and "p \<noteq> 0" and "unat (layout_align l) dvd unat p"
    and "unat p + unat (layout_size (pad_to_align l)) \<le> 2 ^ 32" and "B p = None"
    and "\<forall>q n. B q = Some n \<longrightarrow> \<not> overlap p (layout_size (pad_to_align l)) q n"
  shows "al_inv F (B(p \<mapsto> layout_size (pad_to_align l))) (live(p \<mapsto> l))"
proof -
  have "F p = None" "live p = None" using assms(1,6) by (auto simp: al_inv_def split: option.splits)
  with assms show ?thesis unfolding al_inv_def by (auto simp: overlap_sym)
qed

lemma al_inv_dealloc: "al_inv F B live \<Longrightarrow> live p = Some l \<Longrightarrow> al_inv F (B(p := None)) (live(p := None))"
  unfolding al_inv_def by (auto split: option.splits)

context c_heap
begin

lemma alloc_step:
  assumes "heap_ok h" and "al_inv F (blocks h) live" and "layout_ok l" and "layout_size l \<noteq> 0"
    and "ZephyrAllocator_alloc C h l = (p, h')"
  shows "heap_ok h' \<and> al_inv F (blocks h') (if p = 0 then live else live(p \<mapsto> l))"
proof -
  let ?s = "layout_size (pad_to_align l)"
  note b = pad_to_align_bounds [OF assms(3)]
  have "?s \<noteq> 0" using b(2) assms(4) unat_0_iff [of "layout_size l"] by auto
  moreover have "power_of_two (layout_align l)" using assms(3) by (simp add: layout_ok_def)
  moreover have "c_aligned_alloc C h (layout_align l) ?s = (p, h')"
    using assms(5) by (simp add: ZephyrAllocator_alloc_def Let_def)
  ultimately have "heap_ok h' \<and> (p = 0 \<and> blocks h' = blocks h \<or>
        p \<noteq> 0 \<and> unat (layout_align l) dvd unat p \<and> unat p + unat ?s \<le> 2 ^ 32 \<and> p \<notin> dom (blocks h) \<and>
        (\<forall>q n. blocks h q = Some n \<longrightarrow> \<not> overlap p ?s q n) \<and> blocks h' = (blocks h)(p \<mapsto> ?s))"
    using alloc_law [OF assms(1) _ b(1)] by blast
  then show ?thesis
    using al_inv_alloc [OF assms(2,3), of p] assms(2) by (cases "p = 0") (simp_all add: domIff)
qed

lemma reach_inv: "al_reach C h\<^sub>0 s \<Longrightarrow> heap_ok h\<^sub>0 \<Longrightarrow> heap_ok (fst s) \<and> al_inv (blocks h\<^sub>0) (blocks (fst s)) (snd s)"
proof (induction rule: al_reach.induct)
  case al_start
  then show ?case by (simp add: al_inv_def)
next
  case (al_next s s')
  from al_next.hyps(2) al_next.IH [OF al_next.prems] show ?case
  proof cases
    case (al_alloc l h p h' live)
    with al_next.IH [OF al_next.prems] alloc_step [of h "blocks h\<^sub>0" live l p h'] show ?thesis by simp
  next
    case (al_dealloc live p l h)
    with al_next.IH [OF al_next.prems] have i: "heap_ok h" "al_inv (blocks h\<^sub>0) (blocks h) live" by auto
    then have "blocks h p \<noteq> None" using al_dealloc(3) by (auto simp: al_inv_def)
    then have "heap_ok (c_free C h p) \<and> blocks (c_free C h p) = (blocks h)(p := None)" by (rule free_law [OF i(1)])
    with al_inv_dealloc [OF i(2) al_dealloc(3)] al_dealloc show ?thesis by (simp add: ZephyrAllocator_dealloc_def fun_upd_def)
  qed
qed

end

section \<open>A reference heap\<close>

text \<open>Blocks are cut from the start of the memory that is left, and never reused.\<close>

definition ref_heap_api :: "(nat \<times> (ptr \<rightharpoonup> usize)) c_heap_api" where
  "ref_heap_api = \<lparr>c_aligned_alloc = (\<lambda>(top, B) a s.
       let p = (top + (unat a - 1)) div unat a * unat a
       in if p + unat s < 2 ^ 32 then (of_nat p, (p + unat s, B(of_nat p \<mapsto> s))) else (0, (top, B))),
     c_free = (\<lambda>(top, B) p. (top, B(p := None)))\<rparr>"

definition ref_heap_ok :: "nat \<times> (ptr \<rightharpoonup> usize) \<Rightarrow> bool" where
  "ref_heap_ok h \<longleftrightarrow> 0 < fst h \<and> (\<forall>q n. snd h q = Some n \<longrightarrow> q \<noteq> 0 \<and> n \<noteq> 0 \<and> unat q + unat n \<le> fst h)"

lemma round_up_nat:
  fixes a n :: nat
  assumes "0 < a"
  shows "n \<le> (n + (a - 1)) div a * a"
proof -
  have "(n + (a - 1)) div a * a + (n + (a - 1)) mod a = n + (a - 1)" by simp
  moreover have "(n + (a - 1)) mod a < a" using assms by simp
  ultimately show ?thesis using assms by linarith
qed

interpretation ref_heap: c_heap ref_heap_api ref_heap_ok snd
proof unfold_locales
  fix h h' :: "nat \<times> (ptr \<rightharpoonup> usize)" and a s p
  assume ok: "ref_heap_ok h" and a: "power_of_two a" and s: "s \<noteq> 0" and r: "c_aligned_alloc ref_heap_api h a s = (p, h')"
  obtain top B where h: "h = (top, B)" by (cases h)
  have "0 < unat a" using a power_of_two_unat by (auto simp: power_of_two_def)
  define m where "m = (top + (unat a - 1)) div unat a * unat a"
  then have m: "m = (top + (unat a - Suc 0)) div unat a * unat a" by simp
  have top: "top \<le> m" using round_up_nat [OF \<open>0 < unat a\<close>] by (simp add: m_def)
  show "ref_heap_ok h' \<and> (p = 0 \<and> snd h' = snd h \<or>
        p \<noteq> 0 \<and> unat a dvd unat p \<and> unat p + unat s \<le> 2 ^ 32 \<and> p \<notin> dom (snd h) \<and>
        (\<forall>q n. snd h q = Some n \<longrightarrow> \<not> overlap p s q n) \<and> snd h' = (snd h)(p \<mapsto> s))"
  proof (cases "m + unat s < 2 ^ 32")
    case True
    then have u: "unat (of_nat m :: usize) = m" by (simp add: unsigned_of_nat take_bit_nat_eq_self)
    from True r have p: "p = of_nat m" "h' = (m + unat s, B(p \<mapsto> s))"
      by (auto simp: ref_heap_api_def h m [symmetric] Let_def)
    have "0 < unat s" using s by (simp add: unat_gt_0)
    moreover have "0 < m" using ok top by (auto simp: ref_heap_ok_def h)
    moreover have "unat a dvd m" by (simp add: m_def)
    moreover have below: "q \<noteq> 0 \<and> n \<noteq> 0 \<and> unat q + unat n \<le> m" if "B q = Some n" for q n
      using ok that top by (force simp: ref_heap_ok_def h)
    moreover from this [of p] have "p \<notin> dom B" using u p(1) by (auto simp: unat_eq_0)
    moreover have "p \<noteq> 0" using \<open>0 < m\<close> u p(1) by auto
    moreover have "ref_heap_ok h'" unfolding ref_heap_ok_def p(2)
      using below \<open>p \<noteq> 0\<close> \<open>0 < m\<close> s u p(1) by (auto intro: trans_le_add1)
    ultimately show ?thesis using True u p h by (auto simp: overlap_def not_less)
  next
    case False
    with r ok show ?thesis by (auto simp: ref_heap_api_def h m [symmetric] Let_def)
  qed
next
  fix h :: "nat \<times> (ptr \<rightharpoonup> usize)" and p
  assume ok: "ref_heap_ok h"
  have free: "c_free ref_heap_api h p = (fst h, (snd h)(p := None))" for p by (simp add: ref_heap_api_def split_def)
  show "ref_heap_ok (c_free ref_heap_api h p) \<and> snd (c_free ref_heap_api h p) = (snd h)(p := None)"
    using ok unfolding free by (auto simp: ref_heap_ok_def split: if_splits)
  have "snd h 0 = None" using ok by (cases "snd h 0") (auto simp: ref_heap_ok_def)
  then show "ref_heap_ok (c_free ref_heap_api h 0) \<and> snd (c_free ref_heap_api h 0) = snd h"
    using ok unfolding free by (simp add: fun_upd_idem)
qed

section \<open>Properties\<close>

text \<open>
  C28. Memory safety of the allocator. Every block that a program has is not null, has the alignment of its layout, is
  at least as long as its layout and does not wrap around; it overlaps no other block of the program or of C code. The
  blocks of C code stay as they were, and the heap has no other blocks: nothing leaks. The size asked for is less
  than the size plus the alignment of the layout.
\<close>

theorem allocator_memory_safe:
  assumes "c_heap C heap_ok blocks" and "heap_ok h\<^sub>0" and "al_reach C h\<^sub>0 (h, live)"
  shows "(\<forall>p l. live p = Some l \<longrightarrow> p \<noteq> 0 \<and> unat (layout_align l) dvd unat p \<and>
      (\<exists>n. blocks h p = Some n \<and> unat (layout_size l) \<le> unat n \<and> unat n < unat (layout_size l) + unat (layout_align l) \<and>
        unat p + unat n \<le> 2 ^ 32 \<and> (\<forall>q m. blocks h q = Some m \<longrightarrow> q \<noteq> p \<longrightarrow> \<not> overlap p n q m))) \<and>
    (\<forall>p. live p = None \<longrightarrow> blocks h p = blocks h\<^sub>0 p)"
proof -
  have "al_inv (blocks h\<^sub>0) (blocks h) live" using c_heap.reach_inv [OF assms(1,3,2)] by simp
  then show ?thesis unfolding al_inv_def using pad_to_align_bounds by (auto split: option.splits)
qed

theorem allocator_memory_safe_witness:
  "\<exists>p h. al_reach ref_heap_api (1, Map.empty) (h, [p \<mapsto> \<lparr>layout_size = 5, layout_align = 8\<rparr>]) \<and> 8 dvd unat p \<and>
     (\<exists>n. snd h p = Some n \<and> 5 \<le> unat n)"
proof -
  let ?l = "\<lparr>layout_size = 5, layout_align = 8\<rparr>" and ?h = "(16::nat, [8 \<mapsto> (8::usize)])"
  have "layout_ok ?l" by (auto simp: layout_ok_def power_of_two_def intro!: exI [of _ 3])
  moreover have "ZephyrAllocator_alloc ref_heap_api (1, Map.empty) ?l = (8, ?h)"
    by (simp add: ZephyrAllocator_alloc_def ref_heap_api_def pad_to_align_def)
  ultimately have "al_step ref_heap_api ((1, Map.empty), Map.empty) (?h, [8 \<mapsto> ?l])"
    using al_alloc [of ?l ref_heap_api "(1, Map.empty)" 8 ?h Map.empty] by simp
  then have r: "al_reach ref_heap_api (1, Map.empty) (?h, [8 \<mapsto> ?l])" by (rule al_next [OF al_start])
  have "ref_heap_ok (1, Map.empty)" by (simp add: ref_heap_ok_def)
  from allocator_memory_safe [OF ref_heap.c_heap_axioms this r] r show ?thesis
    by (intro exI [of _ 8] exI [of _ ?h]) auto
qed

end
