(* ===== verification/Task_Macro.thy ===== *)
theory Task_Macro
  imports Zephyr_Prelude
begin

text \<open>
  \<open>zephyr-macros/src/task.rs\<close>: the attribute macro \<open>thread\<close>. The parsers of the packages \<open>syn\<close> and \<open>darling\<close> are
  parameters: the macro gets what they return. Of a type the model keeps the references, the lifetimes and the \<open>impl
  Trait\<close> types and how they are nested, which is what a visitor of \<open>syn\<close> is called on; expressions and bodies
  are opaque.
\<close>

section \<open>Syntax\<close>

datatype syn_ty = TyReference "string option" "syn_ty list" | TyLifetime string | TyImplTrait "syn_ty list" | TyOther string "syn_ty list"

record PatIdent =
  pi_attrs :: "string list"
  pi_by_ref :: bool
  pi_mut :: bool
  pi_ident :: string
  pi_subpat :: bool

datatype Pat = Pat_Ident PatIdent | Pat_Other string

datatype FnArg = Receiver | Typed "string list" Pat syn_ty

datatype ReturnType = ReturnDefault | ReturnTuple nat | ReturnNever | ReturnOther string

datatype Visibility = Inherited | Visible string

record 'b ItemFn =
  f_attrs :: "string list"
  f_vis :: Visibility
  f_constness :: bool
  f_asyncness :: bool
  f_unsafety :: bool
  f_generics :: "string list"
  f_where :: "string option"
  f_abi :: "string option"
  f_variadic :: bool
  f_ident :: string
  f_inputs :: "FnArg list"
  f_output :: ReturnType
  f_block :: 'b

record Args =
  a_pool_size :: "string option"
  a_stack_size :: "string option"

definition Args_default :: Args where
  "Args_default = \<lparr>a_pool_size = None, a_stack_size = None\<rparr>"

section \<open>The checks\<close>

abbreviation err_forever :: string where
  "err_forever \<equiv> ''Arguments for threads must live forever. Try using the static lifetime.''"

definition visit_lifetime :: "string \<Rightarrow> string list" where
  "visit_lifetime l = (if l \<noteq> ''static'' then [err_forever] else [])"

text \<open>\<open>check_arg_ty\<close>: the default methods of a visitor visit the parts of a type; that for \<open>impl Trait\<close> is replaced.\<close>

fun check_arg_ty :: "syn_ty \<Rightarrow> string list" where
  "check_arg_ty (TyReference lt parts) =
     (case lt of None \<Rightarrow> [err_forever] | Some l \<Rightarrow> visit_lifetime l) @ concat (map check_arg_ty parts)"
| "check_arg_ty (TyLifetime l) = visit_lifetime l"
| "check_arg_ty (TyImplTrait parts) = [''impl Trait is not allowed in thread arguments.'']"
| "check_arg_ty (TyOther s parts) = concat (map check_arg_ty parts)"

text \<open>One argument: the errors, the argument in the new signatures, and the identifier to pass on.\<close>

fun check_arg :: "FnArg \<Rightarrow> string list \<times> FnArg \<times> PatIdent option" where
  "check_arg Receiver = ([''thread functions must not have `self` arguments''], Receiver, None)"
| "check_arg (Typed attrs (Pat_Ident ident) ty) =
     (check_arg_ty ty, Typed attrs (Pat_Ident (ident\<lparr>pi_mut := False\<rparr>)) ty, Some (ident\<lparr>pi_mut := False\<rparr>))"
| "check_arg (Typed attrs (Pat_Other s) ty) =
     (check_arg_ty ty @ [''pattern matching in task arguments is not yet supported''], Typed attrs (Pat_Other s) ty, None)"

fun check_output :: "ReturnType \<Rightarrow> string list" where
  "check_output ReturnDefault = []"
| "check_output (ReturnTuple n) = (if n = 0 then [] else [''thread functions must either not return a value, return (), or return `!`''])"
| "check_output ReturnNever = []"
| "check_output (ReturnOther s) = [''thread functions must either not return a value, return (), or return `!`'']"

definition check_sig :: "'b ItemFn \<Rightarrow> string list" where
  "check_sig f =
     (if f_asyncness f then [''thread function must not be async''] else []) @
     (if f_generics f \<noteq> [] then [''thread function must not be generic''] else []) @
     (if f_where f \<noteq> None then [''thread function must not have `where` clauses''] else []) @
     (if f_abi f \<noteq> None then [''thread function must not have an ABI qualifier''] else []) @
     (if f_variadic f then [''thread function must not be variadic''] else []) @
     check_output (f_output f)"

section \<open>The expansion\<close>

text \<open>
  The body of the new function: \<open>todo!()\<close>, or the constants for the stack and the pool, the structure of the
  arguments, the call of the user's function in \<open>startup\<close> with the fields named, and the value of the structure
  that \<open>acquire\<close> gets, with the fields named.
\<close>

record acquire_body =
  b_stack_size :: string
  b_pool_size :: string
  b_struct :: "FnArg list"
  b_inner_calling :: "PatIdent list"
  b_inner_args :: "PatIdent list"
  b_thread_name :: string

datatype outer_body = Todo | Acquire_thread acquire_body

record 'b expansion =
  ex_inner :: "'b ItemFn"
  ex_attrs :: "string list"
  ex_vis :: Visibility
  ex_ident :: string
  ex_generics :: "string list"
  ex_params :: "FnArg list"
  ex_where :: "string option"
  ex_body :: outer_body
  ex_errors :: "string list"

datatype ('e, 'b) macro_out = Item_with_error 'e | Expansion "'b expansion"

definition expand :: "string list \<Rightarrow> Args \<Rightarrow> 'b ItemFn \<Rightarrow> ('e, 'b) macro_out outcome" where
  "expand arg_errors a f =
     (let pool_size = (case a_pool_size a of Some e \<Rightarrow> e | None \<Rightarrow> ''1'');
          stack_size = (case a_stack_size a of Some e \<Rightarrow> e | None \<Rightarrow> ''2048'');
          checked = map check_arg (f_inputs f);
          errors = arg_errors @ check_sig f @ concat (map fst checked);
          fargs = map (\<lambda>c. fst (snd c)) checked;
          idents = List.map_filter (\<lambda>c. snd (snd c)) checked;
          thread_ident = f_ident f
      in if CHR 0x00 \<in> set thread_ident then Panic ''called `Result::unwrap()` on an `Err` value''
         else Ret (Expansion
           \<lparr>ex_inner = f\<lparr>f_vis := Inherited, f_ident := ''__'' @ thread_ident @ ''_thread''\<rparr>,
            ex_attrs = f_attrs f, ex_vis = f_vis f, ex_ident = thread_ident, ex_generics = f_generics f, ex_params = fargs,
            ex_where = f_where f,
            ex_body = (if errors \<noteq> [] then Todo else Acquire_thread
              \<lparr>b_stack_size = stack_size, b_pool_size = pool_size, b_struct = fargs, b_inner_calling = idents,
               b_inner_args = idents, b_thread_name = thread_ident\<rparr>),
            ex_errors = errors\<rparr>))"

definition run :: "'e + 'b ItemFn \<Rightarrow> 'e + 'm \<Rightarrow> ('m \<Rightarrow> string list + Args) \<Rightarrow> ('e, 'b) macro_out outcome" where
  "run item args from_list = (case item of
     Inl e \<Rightarrow> Ret (Item_with_error e)
   | Inr f \<Rightarrow> (case args of
       Inl e \<Rightarrow> Ret (Item_with_error e)
     | Inr metas \<Rightarrow> (case from_list metas of Inr a \<Rightarrow> expand [] a f | Inl es \<Rightarrow> expand es Args_default f)))"

section \<open>Static conditions on the generated code\<close>

text \<open>
  What the compiler knows of the surroundings: the attributes \<open>cfg\<close> that hold, the types that are \<open>Send\<close>, and the
  types that may stand in the definition of a structure (those with no hidden lifetime). All three are parameters.
\<close>

record statics =
  sx_enabled :: "string \<Rightarrow> bool"
  sx_send :: "syn_ty \<Rightarrow> bool"
  sx_field :: "syn_ty \<Rightarrow> bool"

text \<open>
  The parameters of a function or the fields of a structure that are left once the attributes \<open>cfg\<close> are evaluated.
\<close>

fun decl :: "(string \<Rightarrow> bool) \<Rightarrow> FnArg \<Rightarrow> (string \<times> syn_ty) option" where
  "decl enabled (Typed attrs (Pat_Ident p) ty) = (if list_all enabled attrs then Some (pi_ident p, ty) else None)"
| "decl enabled _ = None"

definition decls :: "(string \<Rightarrow> bool) \<Rightarrow> FnArg list \<Rightarrow> (string \<times> syn_ty) list" where
  "decls enabled args = List.map_filter (decl enabled) args"

text \<open>An identifier pattern that reads as an identifier where an expression is expected.\<close>

definition plain :: "PatIdent \<Rightarrow> bool" where
  "plain p \<longleftrightarrow> pi_attrs p = [] \<and> \<not> pi_by_ref p \<and> \<not> pi_mut p \<and> \<not> pi_subpat p"

text \<open>
  The rules of the language that the generated body has to meet, one definition for each place. The structure is
  the argument of \<open>ThreadData<T: Send>\<close> (\<open>thread.rs\<close>), so that all its fields are \<open>Send\<close>; the value of the structure
  names each field once, from a parameter of the same type; and the call in \<open>startup\<close>, which is outside of every
  \<open>unsafe\<close> block, passes one field for each parameter of the user's function, of its type, and the user's function
  is safe.
\<close>

definition struct_ok :: "statics \<Rightarrow> acquire_body \<Rightarrow> bool" where
  "struct_ok S b \<longleftrightarrow> list_all (\<lambda>d. sx_field S (snd d) \<and> sx_send S (snd d)) (decls (sx_enabled S) (b_struct b))"

definition value_ok :: "statics \<Rightarrow> FnArg list \<Rightarrow> acquire_body \<Rightarrow> bool" where
  "value_ok S params b \<longleftrightarrow>
     (let scope = map_of (decls (sx_enabled S) params); fields = map_of (decls (sx_enabled S) (b_struct b));
          names = map pi_ident (b_inner_args b)
      in list_all plain (b_inner_args b) \<and> distinct names \<and> set names = dom fields \<and> (\<forall>x \<in> set names. scope x = fields x))"

definition call_ok :: "statics \<Rightarrow> 'b ItemFn \<Rightarrow> acquire_body \<Rightarrow> bool" where
  "call_ok S inner b \<longleftrightarrow>
     (let fields = map_of (decls (sx_enabled S) (b_struct b))
      in list_all plain (b_inner_calling b) \<and> \<not> f_unsafety inner \<and>
         map (\<lambda>p. fields (pi_ident p)) (b_inner_calling b) = map (\<lambda>d. Some (snd d)) (decls (sx_enabled S) (f_inputs inner)))"

definition body_typed :: "statics \<Rightarrow> FnArg list \<Rightarrow> 'b ItemFn \<Rightarrow> acquire_body \<Rightarrow> bool" where
  "body_typed S params inner b \<longleftrightarrow> struct_ok S b \<and> value_ok S params b \<and> call_ok S inner b"

text \<open>The values that the user's function gets when the new function is called with \<open>vs\<close>.\<close>

definition passed_on :: "(string \<Rightarrow> bool) \<Rightarrow> FnArg list \<Rightarrow> acquire_body \<Rightarrow> 'v list \<Rightarrow> 'v option list" where
  "passed_on enabled params b vs =
     (let scope = map_of (zip (map fst (decls enabled params)) vs);
          data = map_of (map (\<lambda>p. (pi_ident p, scope (pi_ident p))) (b_inner_args b))
      in map (\<lambda>p. case data (pi_ident p) of Some v \<Rightarrow> v | None \<Rightarrow> None) (b_inner_calling b))"

section \<open>Reference definitions\<close>

text \<open>All types that a type is made of, and what each of them must be for the type to live for ever.\<close>

fun ty_nodes :: "syn_ty \<Rightarrow> syn_ty set" where
  "ty_nodes (TyReference lt parts) = insert (TyReference lt parts) (\<Union> (set (map ty_nodes parts)))"
| "ty_nodes (TyLifetime l) = {TyLifetime l}"
| "ty_nodes (TyImplTrait parts) = insert (TyImplTrait parts) (\<Union> (set (map ty_nodes parts)))"
| "ty_nodes (TyOther s parts) = insert (TyOther s parts) (\<Union> (set (map ty_nodes parts)))"

fun node_forever :: "syn_ty \<Rightarrow> bool" where
  "node_forever (TyReference lt parts) = (lt = Some ''static'')"
| "node_forever (TyLifetime l) = (l = ''static'')"
| "node_forever (TyImplTrait parts) = False"
| "node_forever (TyOther s parts) = True"

fun arg_accepted :: "FnArg \<Rightarrow> bool" where
  "arg_accepted (Typed attrs (Pat_Ident p) ty) = (\<forall>n \<in> ty_nodes ty. node_forever n)"
| "arg_accepted _ = False"

definition fn_accepted :: "'b ItemFn \<Rightarrow> bool" where
  "fn_accepted f \<longleftrightarrow> \<not> f_asyncness f \<and> f_generics f = [] \<and> f_where f = None \<and> f_abi f = None \<and> \<not> f_variadic f \<and>
     f_output f \<in> {ReturnDefault, ReturnTuple 0, ReturnNever} \<and> list_all arg_accepted (f_inputs f)"

text \<open>
  An argument that is enabled, whose pattern is just an identifier, perhaps with \<open>mut\<close>, and whose type is \<open>Send\<close> and
  has no hidden lifetime.
\<close>

fun arg_simple :: "statics \<Rightarrow> FnArg \<Rightarrow> bool" where
  "arg_simple S (Typed attrs (Pat_Ident p) ty) =
     (list_all (sx_enabled S) attrs \<and> plain (p\<lparr>pi_mut := False\<rparr>) \<and> sx_send S ty \<and> sx_field S ty)"
| "arg_simple S _ = False"

section \<open>Lemmas\<close>

lemma check_arg_ty_exact: "check_arg_ty t = [] \<longleftrightarrow> (\<forall>n \<in> ty_nodes t. node_forever n)"
  by (induction t rule: check_arg_ty.induct) (auto simp: visit_lifetime_def split: option.splits)

lemma check_arg_exact: "fst (check_arg a) = [] \<longleftrightarrow> arg_accepted a"
  by (cases a rule: arg_accepted.cases) (auto simp: check_arg_ty_exact)

lemma check_output_exact: "check_output r = [] \<longleftrightarrow> r \<in> {ReturnDefault, ReturnTuple 0, ReturnNever}"
  by (cases r) auto

lemma check_exact: "check_sig f @ concat (map (fst \<circ> check_arg) (f_inputs f)) = [] \<longleftrightarrow> fn_accepted f"
  by (auto simp: check_sig_def fn_accepted_def check_output_exact check_arg_exact list_all_iff)

text \<open>Accepted arguments are identifiers with a type.\<close>

abbreviation typed_arg :: "string list \<times> PatIdent \<times> syn_ty \<Rightarrow> FnArg" where
  "typed_arg t \<equiv> (case t of (attrs, p, ty) \<Rightarrow> Typed attrs (Pat_Ident p) ty)"

lemma accepted_typed:
  assumes "list_all arg_accepted args"
  obtains ts where "args = map typed_arg ts"
proof -
  have "\<exists>ts. args = map typed_arg ts"
    using assms
  proof (induction args)
    case (Cons a args)
    then obtain ts where "args = map typed_arg ts" by auto
    moreover obtain attrs p ty where "a = Typed attrs (Pat_Ident p) ty" using Cons.prems by (cases a rule: arg_accepted.cases) auto
    ultimately show ?case by (intro exI [of _ "(attrs, p, ty) # ts"]) simp
  qed simp
  then show ?thesis using that by blast
qed

definition stripped :: "string list \<times> PatIdent \<times> syn_ty \<Rightarrow> string list \<times> PatIdent \<times> syn_ty" where
  "stripped t = (case t of (attrs, p, ty) \<Rightarrow> (attrs, p\<lparr>pi_mut := False\<rparr>, ty))"

lemma checked_typed:
  "map (\<lambda>c. fst (snd c)) (map check_arg (map typed_arg ts)) = map typed_arg (map stripped ts)"
  "List.map_filter (\<lambda>c. snd (snd c)) (map check_arg (map typed_arg ts)) = map (\<lambda>t. fst (snd (stripped t))) ts"
  by (induction ts) (auto simp: stripped_def List.map_filter_simps split: prod.splits)

abbreviation names :: "(string list \<times> PatIdent \<times> syn_ty) list \<Rightarrow> string list" where
  "names ts \<equiv> map (\<lambda>t. pi_ident (fst (snd t))) ts"

lemma decls_typed:
  "decls enabled (map typed_arg ts) =
     map (\<lambda>t. (pi_ident (fst (snd t)), snd (snd t))) (filter (\<lambda>t. list_all enabled (fst t)) ts)"
  by (induction ts) (auto simp: decls_def List.map_filter_simps split: prod.splits)

lemma decls_stripped: "decls enabled (map (\<lambda>t. typed_arg (stripped t)) ts) = decls enabled (map typed_arg ts)"
  by (induction ts) (auto simp: decls_def stripped_def List.map_filter_simps split: prod.splits)

lemma arg_simple_typed:
  "arg_simple S (typed_arg t) \<longleftrightarrow>
     list_all (sx_enabled S) (fst t) \<and> plain (fst (snd (stripped t))) \<and> sx_send S (snd (snd t)) \<and> sx_field S (snd (snd t))"
  by (cases t) (simp add: stripped_def)

lemma stripped_ident [simp]: "pi_ident (fst (snd (stripped t))) = pi_ident (fst (snd t))"
  by (cases t) (simp add: stripped_def)

lemmas body_defs = body_typed_def struct_ok_def value_ok_def call_ok_def Let_def

lemma body_typed_iff:
  assumes "distinct (names ts)" and "b_struct b = map typed_arg (map stripped ts)" and "f_inputs inner = map typed_arg ts"
    and "b_inner_args b = map (\<lambda>t. fst (snd (stripped t))) ts" and "b_inner_calling b = map (\<lambda>t. fst (snd (stripped t))) ts"
  shows "body_typed S (map typed_arg (map stripped ts)) inner b \<longleftrightarrow>
     \<not> f_unsafety inner \<and> list_all (arg_simple S) (map typed_arg ts)"
proof
  let ?on = "filter (\<lambda>t. list_all (sx_enabled S) (fst t)) ts"
  assume b: "body_typed S (map typed_arg (map stripped ts)) inner b"
  then have eq: "set (names ts) = set (names ?on)"
    by (auto simp: body_defs assms comp_def decls_stripped decls_typed dom_map_of_conv_image_fst image_image)
  have on: "list_all (sx_enabled S) (fst t)" if t: "t \<in> set ts" for t
  proof -
    have "pi_ident (fst (snd t)) \<in> set (names ts)" using t by simp
    then have "pi_ident (fst (snd t)) \<in> set (names ?on)" unfolding eq .
    then obtain t' where t': "t' \<in> set ts" "list_all (sx_enabled S) (fst t')" "pi_ident (fst (snd t')) = pi_ident (fst (snd t))" by auto
    have "inj_on (\<lambda>t. pi_ident (fst (snd t))) (set ts)" using assms(1) by (simp add: distinct_map)
    then have "t' = t" by (rule inj_onD [OF _ t'(3,1) t])
    with t'(2) show ?thesis by simp
  qed
  then have "?on = ts" by (simp add: filter_id_conv)
  then have "decls (sx_enabled S) (b_struct b) = map (\<lambda>t. (pi_ident (fst (snd t)), snd (snd t))) ts"
    by (simp add: assms(2) comp_def decls_stripped decls_typed)
  then have "sx_send S (snd (snd t))" "sx_field S (snd (snd t))" if "t \<in> set ts" for t
    using b that by (auto simp: body_typed_def struct_ok_def list_all_iff)
  moreover have "plain (fst (snd (stripped t)))" if "t \<in> set ts" for t
    using b that by (auto simp: body_defs assms list_all_iff)
  moreover have "\<not> f_unsafety inner" using b by (simp add: body_defs)
  ultimately show "\<not> f_unsafety inner \<and> list_all (arg_simple S) (map typed_arg ts)"
    using on by (simp add: list_all_iff arg_simple_typed del: arg_simple.simps)
next
  assume s: "\<not> f_unsafety inner \<and> list_all (arg_simple S) (map typed_arg ts)"
  then have t: "list_all (sx_enabled S) (fst t)" "plain (fst (snd (stripped t)))" "sx_send S (snd (snd t))" "sx_field S (snd (snd t))"
    if "t \<in> set ts" for t
    using that by (auto simp: list_all_iff arg_simple_typed simp del: arg_simple.simps)
  then have on: "filter (\<lambda>t. list_all (sx_enabled S) (fst t)) ts = ts" by (simp add: filter_id_conv)
  have look: "map_of (map (\<lambda>t. (pi_ident (fst (snd t)), snd (snd t))) ts) (pi_ident (fst (snd t))) = Some (snd (snd t))" if "t \<in> set ts" for t
    using that assms(1) by (intro map_of_is_SomeI) (auto simp: comp_def)
  have ds: "decls (sx_enabled S) (map typed_arg ts) = map (\<lambda>t. (pi_ident (fst (snd t)), snd (snd t))) ts" by (simp add: decls_typed on)
  have "struct_ok S b" using t(3,4) by (auto simp: struct_ok_def assms(2) ds comp_def decls_stripped list_all_iff)
  moreover have "value_ok S (map typed_arg (map stripped ts)) b"
    using t(2) assms(1) by (auto simp: value_ok_def Let_def assms ds decls_stripped list_all_iff comp_def dom_map_of_conv_image_fst image_image)
  moreover have "call_ok S inner b"
    using t(2) look s by (auto simp: call_ok_def Let_def assms ds decls_stripped list_all_iff comp_def)
  ultimately show "body_typed S (map typed_arg (map stripped ts)) inner b" by (simp add: body_typed_def)
qed

lemma map_of_names: "x \<in> set (names ts) \<Longrightarrow> map_of (map (\<lambda>t. (pi_ident (fst (snd t)), g (pi_ident (fst (snd t))))) ts) x = Some (g x)"
  by (induction ts) auto

lemma passed_on_exact:
  assumes "distinct (names ts)" and "list_all (arg_simple S) (map typed_arg ts)" and "length vs = length ts"
    and "b_inner_args b = map (\<lambda>t. fst (snd (stripped t))) ts" and "b_inner_calling b = map (\<lambda>t. fst (snd (stripped t))) ts"
  shows "passed_on (sx_enabled S) (map typed_arg (map stripped ts)) b vs = map Some vs"
proof -
  have "list_all (sx_enabled S) (fst t)" if "t \<in> set ts" for t
    using that assms(2) by (auto simp: list_all_iff arg_simple_typed simp del: arg_simple.simps)
  then have on: "filter (\<lambda>t. list_all (sx_enabled S) (fst t)) ts = ts" by (simp add: filter_id_conv)
  let ?scope = "map_of (zip (names ts) vs)"
  have sc: "map ?scope (names ts) = map Some vs"
    using assms(3) map_of_zip_nth [of "names ts" vs] assms(1) by (intro nth_equalityI) simp_all
  have data: "map_of (map (\<lambda>t. (pi_ident (fst (snd t)), ?scope (pi_ident (fst (snd t))))) ts) x = Some (?scope x)" if "x \<in> set (names ts)" for x
    using that by (rule map_of_names)
  have "passed_on (sx_enabled S) (map typed_arg (map stripped ts)) b vs = map (\<lambda>x. case map_of (map (\<lambda>t. (pi_ident (fst (snd t)), ?scope (pi_ident (fst (snd t))))) ts) x of Some v \<Rightarrow> v | None \<Rightarrow> None) (names ts)"
    by (simp add: passed_on_def Let_def assms(4,5) decls_stripped decls_typed on comp_def)
  also have "\<dots> = map ?scope (names ts)" by (rule map_cong [OF refl]) (simp only: data option.case)
  finally show ?thesis using sc by simp
qed

section \<open>Properties\<close>


definition demo_fn :: "nat ItemFn" where
  "demo_fn = \<lparr>f_attrs = [], f_vis = Inherited, f_constness = False, f_asyncness = False, f_unsafety = False, f_generics = [], f_where = None, f_abi = None,
     f_variadic = False, f_ident = ''mytask'', f_inputs = [Typed [] (Pat_Ident \<lparr>pi_attrs = [], pi_by_ref = False, pi_mut = True,
     pi_ident = ''arg'', pi_subpat = False\<rparr>) (TyOther ''u32'' [])], f_output = ReturnDefault, f_block = 0\<rparr>"

definition demo_statics :: statics where
  "demo_statics = \<lparr>sx_enabled = (\<lambda>_. True), sx_send = (\<lambda>t. t \<noteq> TyOther ''Rc'' []), sx_field = (\<lambda>_. True)\<rparr>"


end
