(* ===== verification/Philosophers.thy ===== *)
theory Philosophers
  imports Sys_Sync
begin

text \<open>
  \<open>samples/philosophers/src/lib.rs\<close>, \<open>semsync.rs\<close>, \<open>dynsemsync.rs\<close> and \<open>sysmutex.rs\<close>: the dining philosophers
  over the semaphores and the mutexes of the kernel. The locale \<open>fork_sync\<close> is the contract of the trait
  \<open>ForkSync\<close>; the threads of the philosophers are proved against it once.
\<close>

unbundle bit_operations_syntax

section \<open>Forks\<close>

definition NUM_PHIL :: nat where "NUM_PHIL = 6"

text \<open>The two forks of a philosopher, in the order in which they are taken.\<close>

definition phil_forks :: "nat \<Rightarrow> nat \<times> nat" where
  "phil_forks n = (if n = NUM_PHIL - 1 then (0, n) else (n, n + 1))"

text \<open>The trait: calls of the thread \<open>t\<close> for the fork \<open>index\<close>, on the state of the syncer.\<close>

record 's ForkSync =
  fs_take :: "tid \<Rightarrow> nat \<Rightarrow> 's \<Rightarrow> 's outcome"
  fs_release :: "tid \<Rightarrow> nat \<Rightarrow> 's \<Rightarrow> 's outcome"

text \<open>
  What a syncer promises, in terms of the thread \<open>H i\<close> that has the fork \<open>i\<close>: \<open>take\<close> gets a free fork and waits for
  a fork that another thread has; the thread that has a fork can release it.
\<close>

locale fork_sync =
  fixes S :: "'s ForkSync" and R :: "'s \<Rightarrow> (nat \<rightharpoonup> tid) \<Rightarrow> bool"
  assumes take_free: "R s H \<Longrightarrow> i < NUM_PHIL \<Longrightarrow> H i = None \<Longrightarrow> \<exists>s'. fs_take S t i s = Ret s' \<and> R s' (H(i \<mapsto> t))"
    and take_busy: "R s H \<Longrightarrow> i < NUM_PHIL \<Longrightarrow> H i = Some u \<Longrightarrow> u \<noteq> t \<Longrightarrow> fs_take S t i s = Blocked"
    and release_own: "R s H \<Longrightarrow> i < NUM_PHIL \<Longrightarrow> H i = Some t \<Longrightarrow> \<exists>s'. fs_release S t i s = Ret s' \<and> R s' (H(i := None))"

section \<open>Semaphores\<close>

text \<open>One semaphore for each fork. \<open>addr i\<close> is the address of the semaphore \<open>i\<close>.\<close>

definition SEMS :: "Semaphore list outcome" where
  "SEMS = bind_outcome (Semaphore_new 1 1) (\<lambda>s. Ret (replicate NUM_PHIL s))"

definition SemSync_take :: "k_sem_api \<Rightarrow> (nat \<Rightarrow> ptr) \<Rightarrow> tid \<Rightarrow> nat \<Rightarrow> Semaphore list \<Rightarrow> Semaphore list outcome" where
  "SemSync_take K addr t index forks =
     (if length forks \<le> index then Panic ''index out of bounds''
      else bind_outcome (Semaphore_take K (addr index) (forks ! index) K_FOREVER) (\<lambda>(r, sem).
           bind_outcome (unwrap r) (\<lambda>_. Ret (forks[index := sem]))))"

definition SemSync_release :: "k_sem_api \<Rightarrow> (nat \<Rightarrow> ptr) \<Rightarrow> tid \<Rightarrow> nat \<Rightarrow> Semaphore list \<Rightarrow> Semaphore list outcome" where
  "SemSync_release K addr t index forks =
     (if length forks \<le> index then Panic ''index out of bounds''
      else bind_outcome (Semaphore_give K (addr index) (forks ! index)) (\<lambda>sem. Ret (forks[index := sem])))"

definition SemSync :: "k_sem_api \<Rightarrow> (nat \<Rightarrow> ptr) \<Rightarrow> Semaphore list ForkSync" where
  "SemSync K addr = \<lparr>fs_take = SemSync_take K addr, fs_release = SemSync_release K addr\<rparr>"

section \<open>Mutexes\<close>

definition SysMutexSync_new :: "'m k_mutex_api \<Rightarrow> 'm Sys_Mutex list" where
  "SysMutexSync_new K = map (\<lambda>_. Sys_Mutex_new K) [0..<NUM_PHIL]"

definition SysMutexSync_take ::
    "'m k_mutex_api \<Rightarrow> (nat \<Rightarrow> ptr) \<Rightarrow> tid \<Rightarrow> nat \<Rightarrow> 'm Sys_Mutex list \<Rightarrow> 'm Sys_Mutex list outcome" where
  "SysMutexSync_take K addr t index locks =
     (if length locks \<le> index then Panic ''index out of bounds''
      else bind_outcome (Sys_Mutex_lock K (addr index) t (locks ! index) K_FOREVER) (\<lambda>(r, m).
           bind_outcome (unwrap r) (\<lambda>_. Ret (locks[index := m]))))"

definition SysMutexSync_release ::
    "'m k_mutex_api \<Rightarrow> (nat \<Rightarrow> ptr) \<Rightarrow> tid \<Rightarrow> nat \<Rightarrow> 'm Sys_Mutex list \<Rightarrow> 'm Sys_Mutex list outcome" where
  "SysMutexSync_release K addr t index locks =
     (if length locks \<le> index then Panic ''index out of bounds''
      else bind_outcome (Sys_Mutex_unlock K (addr index) t (locks ! index)) (\<lambda>(r, m).
           bind_outcome (unwrap r) (\<lambda>_. Ret (locks[index := m]))))"

definition SysMutexSync :: "'m k_mutex_api \<Rightarrow> (nat \<Rightarrow> ptr) \<Rightarrow> 'm Sys_Mutex list ForkSync" where
  "SysMutexSync K addr = \<lparr>fs_take = SysMutexSync_take K addr, fs_release = SysMutexSync_release K addr\<rparr>"

section \<open>The philosophers\<close>

text \<open>Durations are counted in ticks; the conversions are those of the package \<open>fugit\<close>.\<close>

record dur_api =
  millis_at_least :: "u64 \<Rightarrow> u64"
  to_millis :: "u64 \<Rightarrow> u64"

definition get_random_delay_ms :: "i64 \<Rightarrow> usize \<Rightarrow> usize \<Rightarrow> usize" where
  "get_random_delay_ms uptime ident period =
     (let tick = (ucast (uptime AND 0xFFFFFFFF) :: usize);
          delay = (tick div 100 * (ident + 1)) AND 0x1F
      in (delay + 1) * period)"

definition get_random_delay :: "dur_api \<Rightarrow> i64 \<Rightarrow> usize \<Rightarrow> usize \<Rightarrow> u64" where
  "get_random_delay D uptime ident period = millis_at_least D (ucast (get_random_delay_ms uptime ident period))"

text \<open>The counters wrap around as in a release build.\<close>

record Stats =
  st_count :: "u64 list"
  st_eating :: "u64 list"
  st_thinking :: "u64 list"

definition Stats_new :: Stats where
  "Stats_new = \<lparr>st_count = replicate NUM_PHIL 0, st_eating = replicate NUM_PHIL 0, st_thinking = replicate NUM_PHIL 0\<rparr>"

definition add_at :: "nat \<Rightarrow> u64 \<Rightarrow> u64 list \<Rightarrow> u64 list outcome" where
  "add_at index v xs = (if index < length xs then Ret (xs[index := xs ! index + v]) else Panic ''index out of bounds'')"

definition record_eat :: "dur_api \<Rightarrow> nat \<Rightarrow> u64 \<Rightarrow> Stats \<Rightarrow> Stats outcome" where
  "record_eat D index time st = bind_outcome (add_at index (to_millis D time) (st_eating st)) (\<lambda>xs. Ret (st\<lparr>st_eating := xs\<rparr>))"

definition record_think :: "dur_api \<Rightarrow> nat \<Rightarrow> u64 \<Rightarrow> Stats \<Rightarrow> Stats outcome" where
  "record_think D index time st =
     bind_outcome (add_at index (to_millis D time) (st_thinking st)) (\<lambda>xs.
     bind_outcome (add_at index 1 (st_count st)) (\<lambda>ys. Ret (st\<lparr>st_thinking := xs, st_count := ys\<rparr>)))"

text \<open>
  Where a philosopher is in the loop of \<open>phil_thread\<close>: before each call that may wait or that other threads can see.
  \<open>EatRecord\<close> and \<open>ThinkRecord\<close> have the guard of the mutex of the statistics, which is a \<open>sync::Mutex\<close>.
\<close>

datatype ph_pc = Take0 | Take1 | Eat | EatLock u64 | EatRecord u64 | Rel1 | Rel0 | Think | ThinkLock u64 | ThinkRecord u64

record 's phil_sys =
  ps_sync :: 's
  ps_pc :: "nat \<Rightarrow> ph_pc"
  ps_guard :: "tid option"
  ps_stats :: Stats

definition ph_goto :: "nat \<Rightarrow> ph_pc \<Rightarrow> 's phil_sys \<Rightarrow> 's phil_sys" where
  "ph_goto n pc s = s\<lparr>ps_pc := (ps_pc s)(n := pc)\<rparr>"

definition phil_thread :: "'s ForkSync \<Rightarrow> dur_api \<Rightarrow> i64 \<Rightarrow> nat \<Rightarrow> 's phil_sys \<Rightarrow> 's phil_sys outcome" where
  "phil_thread S D uptime n s =
     (let forks = phil_forks n in case ps_pc s n of
        Take0 \<Rightarrow> bind_outcome (fs_take S n (fst forks) (ps_sync s)) (\<lambda>y. Ret (ph_goto n Take1 (s\<lparr>ps_sync := y\<rparr>)))
      | Take1 \<Rightarrow> bind_outcome (fs_take S n (snd forks) (ps_sync s)) (\<lambda>y. Ret (ph_goto n Eat (s\<lparr>ps_sync := y\<rparr>)))
      | Eat \<Rightarrow> Ret (ph_goto n (EatLock (get_random_delay D uptime (of_nat n) 25)) s)
      | EatLock d \<Rightarrow> if ps_guard s = None then Ret (ph_goto n (EatRecord d) (s\<lparr>ps_guard := Some n\<rparr>)) else Blocked
      | EatRecord d \<Rightarrow> bind_outcome (record_eat D n d (ps_stats s)) (\<lambda>st. Ret (ph_goto n Rel1 (s\<lparr>ps_stats := st, ps_guard := None\<rparr>)))
      | Rel1 \<Rightarrow> bind_outcome (fs_release S n (snd forks) (ps_sync s)) (\<lambda>y. Ret (ph_goto n Rel0 (s\<lparr>ps_sync := y\<rparr>)))
      | Rel0 \<Rightarrow> bind_outcome (fs_release S n (fst forks) (ps_sync s)) (\<lambda>y. Ret (ph_goto n Think (s\<lparr>ps_sync := y\<rparr>)))
      | Think \<Rightarrow> Ret (ph_goto n (ThinkLock (get_random_delay D uptime (of_nat n) 25)) s)
      | ThinkLock d \<Rightarrow> if ps_guard s = None then Ret (ph_goto n (ThinkRecord d) (s\<lparr>ps_guard := Some n\<rparr>)) else Blocked
      | ThinkRecord d \<Rightarrow> bind_outcome (record_think D n d (ps_stats s)) (\<lambda>st. Ret (ph_goto n Take0 (s\<lparr>ps_stats := st, ps_guard := None\<rparr>))))"

text \<open>The main thread, number \<open>NUM_PHIL\<close>, takes the guard of the statistics again and again, and prints them.\<close>

definition main_loop :: "'s phil_sys \<Rightarrow> 's phil_sys outcome" where
  "main_loop s = (case ps_guard s of
     None \<Rightarrow> Ret (s\<lparr>ps_guard := Some NUM_PHIL\<rparr>)
   | Some t \<Rightarrow> if t = NUM_PHIL then Ret (s\<lparr>ps_guard := None\<rparr>) else Blocked)"

inductive phil_step :: "'s ForkSync \<Rightarrow> dur_api \<Rightarrow> 's phil_sys \<Rightarrow> 's phil_sys \<Rightarrow> bool" for S D where
  phil_moves: "n < NUM_PHIL \<Longrightarrow> phil_thread S D uptime n s = Ret s' \<Longrightarrow> phil_step S D s s'"
| main_moves: "main_loop s = Ret s' \<Longrightarrow> phil_step S D s s'"

definition phil_start :: "'s \<Rightarrow> 's phil_sys" where
  "phil_start y = \<lparr>ps_sync = y, ps_pc = (\<lambda>_. Take0), ps_guard = None, ps_stats = Stats_new\<rparr>"

abbreviation phil_reach :: "'s ForkSync \<Rightarrow> dur_api \<Rightarrow> 's \<Rightarrow> 's phil_sys \<Rightarrow> bool" where
  "phil_reach S D y s \<equiv> (phil_step S D)\<^sup>*\<^sup>* (phil_start y) s"

text \<open>The forks that a philosopher has.\<close>

fun ph_holds :: "nat \<Rightarrow> ph_pc \<Rightarrow> nat set" where
  "ph_holds n Take1 = {fst (phil_forks n)}"
| "ph_holds n Eat = {fst (phil_forks n), snd (phil_forks n)}"
| "ph_holds n (EatLock d) = {fst (phil_forks n), snd (phil_forks n)}"
| "ph_holds n (EatRecord d) = {fst (phil_forks n), snd (phil_forks n)}"
| "ph_holds n Rel1 = {fst (phil_forks n), snd (phil_forks n)}"
| "ph_holds n Rel0 = {fst (phil_forks n)}"
| "ph_holds n _ = {}"

section \<open>The syncers keep the contract\<close>

definition SemSync_rel :: "(nat \<Rightarrow> ptr) \<Rightarrow> Semaphore list \<Rightarrow> (nat \<rightharpoonup> tid) \<Rightarrow> bool" where
  "SemSync_rel addr s H \<longleftrightarrow> length s = NUM_PHIL \<and> (\<forall>i<NUM_PHIL. Semaphore_ok (addr i) (s ! i) \<and>
     sem_cap (s ! i) = 1 \<and> sem_val (s ! i) = (if H i = None then 1 else 0))"

definition SysMutexSync_rel ::
    "('m \<Rightarrow> (tid \<times> nat) option) \<Rightarrow> (nat \<Rightarrow> ptr) \<Rightarrow> 'm Sys_Mutex list \<Rightarrow> (nat \<rightharpoonup> tid) \<Rightarrow> bool" where
  "SysMutexSync_rel owner addr s H \<longleftrightarrow> length s = NUM_PHIL \<and> (\<forall>i<NUM_PHIL. zo_placed (addr i) (s ! i) \<and>
     Sys_Mutex_owner owner (s ! i) = map_option (\<lambda>t. (t, 1)) (H i))"

context placed_mutex
begin

lemmas placed_lock_free = sysm.lock_free
lemmas placed_lock_waits = sysm.lock_waits
lemmas placed_unlock_last = sysm.unlock_last

end

lemma SemSync_fork_sync:
  assumes "zephyr_sem K" and "\<And>i. addr i \<noteq> 0"
  shows "fork_sync (SemSync K addr) (SemSync_rel addr)"
proof
  fix s H i u t
  assume r: "SemSync_rel addr s H" and i: "i < NUM_PHIL"
  have p: "placed_sem K (addr i)" using assms by (simp add: placed_sem_def placed_sem_axioms_def)
  have ok: "Semaphore_ok (addr i) (s ! i)" and cap: "sem_cap (s ! i) = 1" and val: "sem_val (s ! i) = (if H i = None then 1 else 0)"
    and len: "length s = NUM_PHIL" using r i by (auto simp: SemSync_rel_def)
  note defs = SemSync_def SemSync_take_def SemSync_release_def SemSync_rel_def
  show "\<exists>s'. fs_take (SemSync K addr) t i s = Ret s' \<and> SemSync_rel addr s' (H(i \<mapsto> t))" if "H i = None"
    using placed_sem.take_one [OF p ok, of K_FOREVER] r i len cap val that by (auto simp: defs nth_list_update)
  show "fs_take (SemSync K addr) t i s = Blocked" if "H i = Some u"
    using placed_sem.take_none [OF p ok] i len val that by (simp add: defs)
  show "\<exists>s'. fs_release (SemSync K addr) t i s = Ret s' \<and> SemSync_rel addr s' (H(i := None))" if "H i = Some t"
    using placed_sem.give_one [OF p ok] r i len cap val that by (auto simp: defs nth_list_update)
qed

lemma SysMutexSync_fork_sync:
  assumes "zephyr_mutex K owner" and "\<And>i. addr i \<noteq> 0"
  shows "fork_sync (SysMutexSync K addr) (SysMutexSync_rel owner addr)"
proof
  fix s :: "'a Sys_Mutex list" and H i u t
  assume r: "SysMutexSync_rel owner addr s H" and i: "i < NUM_PHIL"
  have p: "placed_mutex K owner (addr i)" using assms by (simp add: placed_mutex_def placed_mutex_axioms_def)
  have ok: "zo_placed (addr i) (s ! i)" and own: "Sys_Mutex_owner owner (s ! i) = map_option (\<lambda>t. (t, 1)) (H i)"
    and len: "length s = NUM_PHIL" using r i by (auto simp: SysMutexSync_rel_def)
  note defs = SysMutexSync_def SysMutexSync_take_def SysMutexSync_release_def SysMutexSync_rel_def
  show "\<exists>s'. fs_take (SysMutexSync K addr) t i s = Ret s' \<and> SysMutexSync_rel owner addr s' (H(i \<mapsto> t))" if "H i = None"
    using placed_mutex.placed_lock_free [OF p ok, of t K_FOREVER] r i len own that by (auto simp: defs nth_list_update)
  show "fs_take (SysMutexSync K addr) t i s = Blocked" if "H i = Some u" "u \<noteq> t"
    using placed_mutex.placed_lock_waits [OF p ok, of u 1 t] i len own that by (simp add: defs)
  show "\<exists>s'. fs_release (SysMutexSync K addr) t i s = Ret s' \<and> SysMutexSync_rel owner addr s' (H(i := None))" if "H i = Some t"
    using placed_mutex.placed_unlock_last [OF p ok, of t] r i len own that by (auto simp: defs nth_list_update)
qed

lemma SEMS_rel: "\<exists>s. SEMS = Ret s \<and> SemSync_rel addr s Map.empty"
  by (auto simp: SEMS_def SemSync_rel_def Semaphore_new_def ZephyrObject_new_raw_def Semaphore_ok_def zo_placed_def sem_cap_def sem_val_def)

lemma SysMutexSync_new_rel: "SysMutexSync_rel owner addr (SysMutexSync_new K) Map.empty"
  by (auto simp: SysMutexSync_rel_def SysMutexSync_new_def Sys_Mutex_new_def ZephyrObject_new_raw_def zo_placed_def Sys_Mutex_owner_def)

section \<open>The invariant\<close>

lemma phil_forks_less: "n < NUM_PHIL \<Longrightarrow> fst (phil_forks n) < snd (phil_forks n) \<and> snd (phil_forks n) < NUM_PHIL"
  by (auto simp: phil_forks_def NUM_PHIL_def)

fun ph_records :: "ph_pc \<Rightarrow> bool" where
  "ph_records (EatRecord d) = True"
| "ph_records (ThinkRecord d) = True"
| "ph_records _ = False"

definition held_by :: "(nat \<Rightarrow> ph_pc) \<Rightarrow> (nat \<rightharpoonup> tid) \<Rightarrow> bool" where
  "held_by pc H \<longleftrightarrow> (\<forall>i n. i < NUM_PHIL \<longrightarrow> (H i = Some n \<longleftrightarrow> n < NUM_PHIL \<and> i \<in> ph_holds n (pc n)))"

definition guard_inv :: "(nat \<Rightarrow> ph_pc) \<Rightarrow> tid option \<Rightarrow> bool" where
  "guard_inv pc g \<longleftrightarrow> (\<forall>n<NUM_PHIL. ph_records (pc n) \<longleftrightarrow> g = Some n) \<and> (\<forall>m. g = Some m \<longrightarrow> m \<le> NUM_PHIL)"

definition stats_ok :: "Stats \<Rightarrow> bool" where
  "stats_ok st \<longleftrightarrow> length (st_count st) = NUM_PHIL \<and> length (st_eating st) = NUM_PHIL \<and> length (st_thinking st) = NUM_PHIL"

definition phil_inv :: "('s \<Rightarrow> (nat \<rightharpoonup> tid) \<Rightarrow> bool) \<Rightarrow> 's phil_sys \<Rightarrow> bool" where
  "phil_inv R s \<longleftrightarrow> (\<exists>H. R (ps_sync s) H \<and> held_by (ps_pc s) H) \<and> guard_inv (ps_pc s) (ps_guard s) \<and> stats_ok (ps_stats s)"

lemma held_by_same: "held_by pc H \<Longrightarrow> ph_holds n pc' = ph_holds n (pc n) \<Longrightarrow> held_by (pc(n := pc')) H"
  by (auto simp: held_by_def)

lemma held_by_take:
  assumes "held_by pc H" and "n < NUM_PHIL" and "H f = None" and "ph_holds n pc' = insert f (ph_holds n (pc n))"
  shows "held_by (pc(n := pc')) (H(f \<mapsto> n))"
  using assms unfolding held_by_def by auto

lemma held_by_release:
  assumes "held_by pc H" and "n < NUM_PHIL" and "f < NUM_PHIL" and "f \<in> ph_holds n (pc n)" and "ph_holds n pc' = ph_holds n (pc n) - {f}"
  shows "held_by (pc(n := pc')) (H(f := None))"
proof -
  have own: "H i = Some m \<longleftrightarrow> m < NUM_PHIL \<and> i \<in> ph_holds m (pc m)" if "i < NUM_PHIL" for i m
    using assms(1) that by (simp add: held_by_def)
  have only: "m = n" if "m < NUM_PHIL" "f \<in> ph_holds m (pc m)" for m
    using own [OF assms(3), of m] own [OF assms(3), of n] assms(2,4) that by simp
  have "(H(f := None)) i = Some m \<longleftrightarrow> m < NUM_PHIL \<and> i \<in> ph_holds m ((pc(n := pc')) m)" if "i < NUM_PHIL" for i m
  proof (cases "m = n")
    case True
    then show ?thesis using assms(5) own [OF that, of n] by (simp add: assms(2))
  next
    case False
    then show ?thesis using own [OF that, of m] only [of m] by (cases "i = f") auto
  qed
  then show ?thesis unfolding held_by_def by blast
qed

lemma record_ok:
  assumes "stats_ok st" and "n < NUM_PHIL"
  shows "\<exists>st'. record_eat D n d st = Ret st' \<and> stats_ok st'" and "\<exists>st'. record_think D n d st = Ret st' \<and> stats_ok st'"
  using assms by (auto simp: record_eat_def record_think_def add_at_def stats_ok_def)

text \<open>A step of one philosopher: it waits for a fork or for the guard, or the invariant holds afterwards.\<close>

fun ph_wants :: "nat \<Rightarrow> ph_pc \<Rightarrow> nat option" where
  "ph_wants n Take0 = Some (fst (phil_forks n))"
| "ph_wants n Take1 = Some (snd (phil_forks n))"
| "ph_wants n _ = None"

fun ph_locks :: "ph_pc \<Rightarrow> bool" where
  "ph_locks (EatLock d) = True"
| "ph_locks (ThinkLock d) = True"
| "ph_locks _ = False"

fun ph_left :: "ph_pc \<Rightarrow> nat" where
  "ph_left Take0 = 0"
| "ph_left Take1 = 9"
| "ph_left Eat = 8"
| "ph_left (EatLock d) = 7"
| "ph_left (EatRecord d) = 6"
| "ph_left Rel1 = 5"
| "ph_left Rel0 = 4"
| "ph_left Think = 3"
| "ph_left (ThinkLock d) = 2"
| "ph_left (ThinkRecord d) = 1"

definition ph_next :: "ph_pc \<Rightarrow> u64 \<Rightarrow> ph_pc" where
  "ph_next pc d = (case pc of Take0 \<Rightarrow> Take1 | Take1 \<Rightarrow> Eat | Eat \<Rightarrow> EatLock d | EatLock d \<Rightarrow> EatRecord d | EatRecord d \<Rightarrow> Rel1
     | Rel1 \<Rightarrow> Rel0 | Rel0 \<Rightarrow> Think | Think \<Rightarrow> ThinkLock d | ThinkLock d \<Rightarrow> ThinkRecord d | ThinkRecord d \<Rightarrow> Take0)"

text \<open>The steps without a call of the syncer: the delays, and the statistics behind their mutex.\<close>

definition ph_calls :: "ph_pc \<Rightarrow> bool" where
  "ph_calls pc \<longleftrightarrow> pc \<in> {Take0, Take1, Rel1, Rel0}"

lemma phil_thread_own:
  assumes "guard_inv (ps_pc s) (ps_guard s)" and "stats_ok (ps_stats s)" and "n < NUM_PHIL" and "\<not> ph_calls (ps_pc s n)"
  shows "phil_thread S D u n s = Blocked \<and> ph_locks (ps_pc s n) \<and> ps_guard s \<noteq> None \<or>
    (\<exists>d g st. phil_thread S D u n s = Ret (ph_goto n (ph_next (ps_pc s n) d) (s\<lparr>ps_stats := st, ps_guard := g\<rparr>)) \<and>
      ph_holds n (ph_next (ps_pc s n) d) = ph_holds n (ps_pc s n) \<and> guard_inv ((ps_pc s)(n := ph_next (ps_pc s n) d)) g \<and>
      (g = Some NUM_PHIL \<longleftrightarrow> ps_guard s = Some NUM_PHIL) \<and> stats_ok st)"
proof (cases "ps_pc s n")
  case Eat
  with assms show ?thesis unfolding phil_thread_def
    by (intro disjI2 exI [of _ "get_random_delay D u (of_nat n) 25"] exI [of _ "ps_guard s"] exI [of _ "ps_stats s"])
      (auto simp: ph_next_def guard_inv_def)
next
  case (EatLock d)
  show ?thesis
  proof (cases "ps_guard s")
    case None
    with assms EatLock show ?thesis unfolding phil_thread_def
      by (intro disjI2 exI [of _ d] exI [of _ "Some n"] exI [of _ "ps_stats s"]) (auto simp: ph_next_def guard_inv_def)
  qed (simp add: phil_thread_def EatLock)
next
  case (EatRecord d)
  with assms have "ps_guard s = Some n" by (auto simp: guard_inv_def dest: spec [of _ n])
  moreover obtain st where "record_eat D n d (ps_stats s) = Ret st" "stats_ok st" using record_ok(1) [OF assms(2,3)] by blast
  ultimately show ?thesis using assms EatRecord unfolding phil_thread_def
    by (intro disjI2 exI [of _ d] exI [of _ None] exI [of _ st]) (auto simp: ph_next_def guard_inv_def)
next
  case Think
  with assms show ?thesis unfolding phil_thread_def
    by (intro disjI2 exI [of _ "get_random_delay D u (of_nat n) 25"] exI [of _ "ps_guard s"] exI [of _ "ps_stats s"])
      (auto simp: ph_next_def guard_inv_def)
next
  case (ThinkLock d)
  show ?thesis
  proof (cases "ps_guard s")
    case None
    with assms ThinkLock show ?thesis unfolding phil_thread_def
      by (intro disjI2 exI [of _ d] exI [of _ "Some n"] exI [of _ "ps_stats s"]) (auto simp: ph_next_def guard_inv_def)
  qed (simp add: phil_thread_def ThinkLock)
next
  case (ThinkRecord d)
  with assms have "ps_guard s = Some n" by (auto simp: guard_inv_def dest: spec [of _ n])
  moreover obtain st where "record_think D n d (ps_stats s) = Ret st" "stats_ok st" using record_ok(2) [OF assms(2,3)] by blast
  ultimately show ?thesis using assms ThinkRecord unfolding phil_thread_def
    by (intro disjI2 exI [of _ d] exI [of _ None] exI [of _ st]) (auto simp: ph_next_def guard_inv_def)
qed (use assms(4) in \<open>auto simp: ph_calls_def\<close>)

context fork_sync
begin

lemma take_step:
  assumes "phil_inv R s" and "n < NUM_PHIL" and "f < NUM_PHIL" and "f \<notin> ph_holds n (ps_pc s n)"
    and "ph_holds n pc' = insert f (ph_holds n (ps_pc s n))" and "\<not> ph_records (ps_pc s n)" and "\<not> ph_records pc'"
  shows "(\<exists>m<NUM_PHIL. m \<noteq> n \<and> f \<in> ph_holds m (ps_pc s m) \<and> fs_take S n f (ps_sync s) = Blocked) \<or>
    (\<exists>y. fs_take S n f (ps_sync s) = Ret y \<and> phil_inv R (ph_goto n pc' (s\<lparr>ps_sync := y\<rparr>)))"
proof -
  obtain H where H: "R (ps_sync s) H" "held_by (ps_pc s) H" using assms(1) by (auto simp: phil_inv_def)
  show ?thesis
  proof (cases "H f")
    case None
    from take_free [OF H(1) assms(3) None, of n] obtain y where "fs_take S n f (ps_sync s) = Ret y" "R y (H(f \<mapsto> n))" by blast
    moreover have "held_by ((ps_pc s)(n := pc')) (H(f \<mapsto> n))" by (rule held_by_take [OF H(2) assms(2) None assms(5)])
    ultimately show ?thesis using assms(1,6,7) by (auto simp: phil_inv_def ph_goto_def guard_inv_def)
  next
    case (Some m)
    then have "m < NUM_PHIL" "f \<in> ph_holds m (ps_pc s m)" using H(2) assms(3) by (auto simp: held_by_def)
    with take_busy [OF H(1) assms(3) Some, of n] assms(4) show ?thesis by metis
  qed
qed

lemma release_step:
  assumes "phil_inv R s" and "n < NUM_PHIL" and "f < NUM_PHIL" and "f \<in> ph_holds n (ps_pc s n)"
    and "ph_holds n pc' = ph_holds n (ps_pc s n) - {f}" and "\<not> ph_records (ps_pc s n)" and "\<not> ph_records pc'"
  shows "\<exists>y. fs_release S n f (ps_sync s) = Ret y \<and> phil_inv R (ph_goto n pc' (s\<lparr>ps_sync := y\<rparr>))"
proof -
  obtain H where H: "R (ps_sync s) H" "held_by (ps_pc s) H" using assms(1) by (auto simp: phil_inv_def)
  then have "H f = Some n" using assms by (auto simp: held_by_def)
  from release_own [OF H(1) assms(3) this] obtain y where "fs_release S n f (ps_sync s) = Ret y" "R y (H(f := None))" by blast
  with held_by_release [OF H(2) assms(2-5)] assms(1,6,7) show ?thesis by (auto simp: phil_inv_def ph_goto_def guard_inv_def)
qed

lemma own_step:
  assumes i: "phil_inv R s" and n: "n < NUM_PHIL" and c: "\<not> ph_calls (ps_pc s n)"
  shows "phil_thread S D u n s = Blocked \<and> ph_locks (ps_pc s n) \<and> ps_guard s \<noteq> None \<or>
    (\<exists>s' d. phil_thread S D u n s = Ret s' \<and> phil_inv R s' \<and> ps_pc s' = (ps_pc s)(n := ph_next (ps_pc s n) d) \<and>
      (ps_guard s' = Some NUM_PHIL \<longleftrightarrow> ps_guard s = Some NUM_PHIL))"
proof -
  have "guard_inv (ps_pc s) (ps_guard s)" "stats_ok (ps_stats s)" using i by (auto simp: phil_inv_def)
  from phil_thread_own [OF this n c, of S D u] show ?thesis
  proof
    assume "\<exists>d g st. phil_thread S D u n s = Ret (ph_goto n (ph_next (ps_pc s n) d) (s\<lparr>ps_stats := st, ps_guard := g\<rparr>)) \<and>
      ph_holds n (ph_next (ps_pc s n) d) = ph_holds n (ps_pc s n) \<and> guard_inv ((ps_pc s)(n := ph_next (ps_pc s n) d)) g \<and>
      (g = Some NUM_PHIL \<longleftrightarrow> ps_guard s = Some NUM_PHIL) \<and> stats_ok st"
    then obtain d g st where t: "phil_thread S D u n s = Ret (ph_goto n (ph_next (ps_pc s n) d) (s\<lparr>ps_stats := st, ps_guard := g\<rparr>))"
      "ph_holds n (ph_next (ps_pc s n) d) = ph_holds n (ps_pc s n)" "guard_inv ((ps_pc s)(n := ph_next (ps_pc s n) d)) g"
      "g = Some NUM_PHIL \<longleftrightarrow> ps_guard s = Some NUM_PHIL" "stats_ok st" by blast
    have "phil_inv R (ph_goto n (ph_next (ps_pc s n) d) (s\<lparr>ps_stats := st, ps_guard := g\<rparr>))"
      using i t held_by_same by (fastforce simp: phil_inv_def ph_goto_def)
    with t show ?thesis by (auto simp: ph_goto_def)
  qed simp
qed

lemma thread_step:
  assumes i: "phil_inv R s" and n: "n < NUM_PHIL"
  shows "(phil_thread S D u n s = Blocked \<and>
      ((\<exists>f m. ph_wants n (ps_pc s n) = Some f \<and> m < NUM_PHIL \<and> m \<noteq> n \<and> f \<in> ph_holds m (ps_pc s m)) \<or> ph_locks (ps_pc s n) \<and> ps_guard s \<noteq> None)) \<or>
    (\<exists>s' d. phil_thread S D u n s = Ret s' \<and> phil_inv R s' \<and> ps_pc s' = (ps_pc s)(n := ph_next (ps_pc s n) d) \<and>
      (ps_guard s' = Some NUM_PHIL \<longleftrightarrow> ps_guard s = Some NUM_PHIL))"
proof (cases "ps_pc s n")
  case Take0
  then show ?thesis
    using take_step [OF i n, of "fst (phil_forks n)" Take1] phil_forks_less [OF n]
    by (auto simp: phil_thread_def ph_next_def ph_goto_def)
next
  case Take1
  then show ?thesis
    using take_step [OF i n, of "snd (phil_forks n)" Eat] phil_forks_less [OF n]
    by (auto simp: phil_thread_def ph_next_def ph_goto_def insert_commute)
next
  case Rel1
  then show ?thesis
    using release_step [OF i n, of "snd (phil_forks n)" Rel0] phil_forks_less [OF n] insert_Diff_if
    by (auto simp: phil_thread_def ph_next_def ph_goto_def insert_Diff_if)
next
  case Rel0
  then show ?thesis
    using release_step [OF i n, of "fst (phil_forks n)" Think] phil_forks_less [OF n]
    by (auto simp: phil_thread_def ph_next_def ph_goto_def)
qed (use own_step [OF i n, of D u] in \<open>auto simp: ph_calls_def\<close>)

lemma main_step: "phil_inv R s \<Longrightarrow> main_loop s = Ret s' \<Longrightarrow> phil_inv R s'"
  by (auto simp: main_loop_def phil_inv_def guard_inv_def split: option.splits if_splits)

lemma reach_inv:
  assumes "(phil_step S D)\<^sup>*\<^sup>* s s'" and "phil_inv R s"
  shows "phil_inv R s'"
  using assms
proof (induction rule: rtranclp_induct)
  case (step s' s'')
  from step.hyps(2) step.IH [OF step.prems] show ?case
  proof cases
    case (phil_moves n u)
    with thread_step [OF step.IH [OF step.prems], of n D u] show ?thesis by auto
  qed (auto intro: main_step)
qed

lemma start_inv: "R y Map.empty \<Longrightarrow> phil_inv R (phil_start y)"
  by (auto simp: phil_inv_def phil_start_def guard_inv_def held_by_def stats_ok_def Stats_new_def intro!: exI [of _ Map.empty])

end

section \<open>Everybody can eat\<close>

text \<open>
  The argument that the syncers share. \<open>left\<close> bounds the work until everybody is back at the start of the loop: while
  there is some, somebody can do a part of it. A philosopher that is \<open>ahead\<close> on its way to its forks stays there until
  it eats, and with nothing left to do any philosopher can set out.
\<close>

locale dining_progress =
  fixes step :: "'x \<Rightarrow> 'x \<Rightarrow> bool" and inv :: "'x \<Rightarrow> bool" and left :: "'x \<Rightarrow> nat"
    and ahead :: "'x \<Rightarrow> nat \<Rightarrow> bool" and eats :: "'x \<Rightarrow> nat \<Rightarrow> bool"
  assumes inv_step: "step s s' \<Longrightarrow> inv s \<Longrightarrow> inv s'"
    and onwards: "inv s \<Longrightarrow> 0 < left s \<Longrightarrow> \<exists>s'. step s s' \<and> left s' < left s \<and> (\<forall>n<NUM_PHIL. ahead s n \<longrightarrow> ahead s' n \<or> eats s' n)"
    and ahead_left: "inv s \<Longrightarrow> n < NUM_PHIL \<Longrightarrow> ahead s n \<Longrightarrow> 0 < left s"
    and set_out: "inv s \<Longrightarrow> n < NUM_PHIL \<Longrightarrow> left s = 0 \<Longrightarrow> \<exists>s'. step s s' \<and> ahead s' n"
begin

lemma all_back: "inv s \<Longrightarrow> \<exists>s'. step\<^sup>*\<^sup>* s s' \<and> inv s' \<and> left s' = 0"
proof (induction "left s" arbitrary: s rule: less_induct)
  case less
  show ?case
  proof (cases "left s = 0")
    case False
    then obtain s' where s': "step s s'" "left s' < left s" using onwards [OF less.prems] by blast
    with less.hyps [OF s'(2) inv_step [OF s'(1) less.prems]] show ?thesis by (meson converse_rtranclp_into_rtranclp)
  qed (use less.prems in blast)
qed

lemma on_the_way: "inv s \<Longrightarrow> n < NUM_PHIL \<Longrightarrow> ahead s n \<Longrightarrow> \<exists>s'. step\<^sup>*\<^sup>* s s' \<and> eats s' n"
proof (induction "left s" arbitrary: s rule: less_induct)
  case less
  then obtain s' where s': "step s s'" "left s' < left s" "ahead s' n \<or> eats s' n"
    using onwards [OF less.prems(1) ahead_left [OF less.prems]] by blast
  show ?case
  proof (cases "ahead s' n")
    case True
    with less.hyps [OF s'(2) inv_step [OF s'(1) less.prems(1)] less.prems(2)] s'(1) show ?thesis
      by (meson converse_rtranclp_into_rtranclp)
  qed (use s' in blast)
qed

lemma everybody_eats:
  assumes "inv s" and "n < NUM_PHIL"
  shows "\<exists>s'. step\<^sup>*\<^sup>* s s' \<and> eats s' n"
proof -
  obtain s0 where s0: "step\<^sup>*\<^sup>* s s0" "inv s0" "left s0 = 0" using all_back [OF assms(1)] by blast
  then obtain s1 where s1: "step s0 s1" "ahead s1 n" using set_out [OF _ assms(2)] by blast
  with on_the_way [OF inv_step [OF s1(1) s0(2)] assms(2)] obtain s2 where "step\<^sup>*\<^sup>* s1 s2" "eats s2 n" by blast
  with s0(1) s1(1) show ?thesis by (meson converse_rtranclp_into_rtranclp rtranclp_trans)
qed

end

text \<open>The steps that are left until every philosopher is back at the start of the loop.\<close>

definition steps_left :: "'s phil_sys \<Rightarrow> nat" where
  "steps_left s = (\<Sum>n<NUM_PHIL. ph_left (ps_pc s n)) + (if ps_guard s = Some NUM_PHIL then 1 else 0)"

lemma steps_left_less:
  assumes "n < NUM_PHIL" and "ps_pc s' = (ps_pc s)(n := pc')" and "ph_left pc' < ph_left (ps_pc s n)"
    and "ps_guard s' = Some NUM_PHIL \<longleftrightarrow> ps_guard s = Some NUM_PHIL"
  shows "steps_left s' < steps_left s"
proof -
  have "(\<Sum>k<NUM_PHIL. ph_left (ps_pc s' k)) < (\<Sum>k<NUM_PHIL. ph_left (ps_pc s k))"
    using assms(1-3) by (intro sum_strict_mono_ex1) auto
  with assms(4) show ?thesis by (simp add: steps_left_def)
qed

lemma ph_left_0: "ph_left pc = 0 \<longleftrightarrow> pc = Take0"
  by (cases pc) auto

lemma ph_next_left: "pc \<noteq> Take0 \<Longrightarrow> ph_left (ph_next pc d) < ph_left pc"
  by (cases pc) (auto simp: ph_next_def)

lemma ph_wants_Take1: "ph_left pc \<noteq> 0 \<Longrightarrow> ph_wants n pc = Some f \<Longrightarrow> pc = Take1 \<and> f = snd (phil_forks n)"
  by (cases pc) auto

lemma ph_holds_not_Take0: "f \<in> ph_holds n pc \<Longrightarrow> pc \<noteq> Take0"
  by auto

context fork_sync
begin

lemma moves:
  assumes "phil_inv R s" and "n < NUM_PHIL" and "ps_pc s n \<noteq> Take0" and "\<not> ph_locks (ps_pc s n) \<or> ps_guard s = None"
    and "\<And>m. ps_pc s n = Take1 \<Longrightarrow> m < NUM_PHIL \<Longrightarrow> m \<noteq> n \<Longrightarrow> snd (phil_forks n) \<notin> ph_holds m (ps_pc s m)"
  shows "\<exists>s'. phil_step S D s s' \<and> steps_left s' < steps_left s \<and> (\<forall>n<NUM_PHIL. ps_pc s n = Take1 \<longrightarrow> ps_pc s' n = Take1 \<or> ps_pc s' n = Eat)"
proof -
  have "ph_wants n (ps_pc s n) = Some f \<Longrightarrow> ps_pc s n = Take1 \<and> f = snd (phil_forks n)" for f
    using assms(3) by (cases "ps_pc s n") auto
  then have "\<not> (\<exists>f m. ph_wants n (ps_pc s n) = Some f \<and> m < NUM_PHIL \<and> m \<noteq> n \<and> f \<in> ph_holds m (ps_pc s m))"
    using assms(5) by metis
  with thread_step [OF assms(1,2), of D 0] assms(4) obtain s' d where
    "phil_thread S D 0 n s = Ret s'" "ps_pc s' = (ps_pc s)(n := ph_next (ps_pc s n) d)"
    "ps_guard s' = Some NUM_PHIL \<longleftrightarrow> ps_guard s = Some NUM_PHIL" by metis
  moreover from this have "\<forall>m<NUM_PHIL. ps_pc s m = Take1 \<longrightarrow> ps_pc s' m = Take1 \<or> ps_pc s' m = Eat" by (simp add: ph_next_def)
  ultimately show ?thesis using phil_moves [OF assms(2)] steps_left_less [OF assms(2) _ ph_next_left [OF assms(3)]] by blast
qed

text \<open>
  Among the philosophers that wait for their second fork, the one whose second fork has the largest number gets it:
  whoever has it as the first fork would wait for a larger one.
\<close>

lemma somebody_moves:
  assumes "phil_inv R s" and "0 < steps_left s"
  shows "\<exists>s'. phil_step S D s s' \<and> steps_left s' < steps_left s \<and> (\<forall>n<NUM_PHIL. ps_pc s n = Take1 \<longrightarrow> ps_pc s' n = Take1 \<or> ps_pc s' n = Eat)"
proof (cases "ps_guard s")
  case (Some m)
  show ?thesis
  proof (cases "m = NUM_PHIL")
    case True
    with Some have "phil_step S D s (s\<lparr>ps_guard := None\<rparr>)" by (intro main_moves) (simp add: main_loop_def)
    moreover have "steps_left (s\<lparr>ps_guard := None\<rparr>) < steps_left s" using Some True by (simp add: steps_left_def)
    ultimately show ?thesis by (intro exI [of _ "s\<lparr>ps_guard := None\<rparr>"]) simp
  next
    case False
    then have m: "m < NUM_PHIL" "ph_records (ps_pc s m)"
      using assms(1) Some by (auto simp: phil_inv_def guard_inv_def le_less)
    then have "ps_pc s m \<noteq> Take0" "\<not> ph_locks (ps_pc s m)" "ps_pc s m \<noteq> Take1" by (cases "ps_pc s m"; simp)+
    then show ?thesis using moves [OF assms(1) m(1)] by blast
  qed
next
  case None
  define W where "W = {n. n < NUM_PHIL \<and> ps_pc s n = Take1}"
  have fin: "finite W" by (simp add: W_def)
  show ?thesis
  proof (cases "\<exists>n<NUM_PHIL. ps_pc s n \<noteq> Take0 \<and> ps_pc s n \<noteq> Take1")
    case True
    then show ?thesis using moves [OF assms(1)] None by blast
  next
    case False
    have "W \<noteq> {}"
    proof
      assume "W = {}"
      with False have "ps_pc s n = Take0" if "n < NUM_PHIL" for n using that by (auto simp: W_def)
      with assms(2) None show False by (simp add: steps_left_def)
    qed
    then obtain n where n: "n \<in> W" "\<And>m. m \<in> W \<Longrightarrow> snd (phil_forks m) \<le> snd (phil_forks n)"
      using fin Max_in [of "(\<lambda>n. snd (phil_forks n)) ` W"] Max_ge [of "(\<lambda>n. snd (phil_forks n)) ` W"] by fastforce
    have "snd (phil_forks n) \<notin> ph_holds m (ps_pc s m)" if "m < NUM_PHIL" for m
    proof
      assume h: "snd (phil_forks n) \<in> ph_holds m (ps_pc s m)"
      with False that have "ps_pc s m = Take1" by (auto dest: ph_holds_not_Take0)
      with h that phil_forks_less [OF that] n(2) [of m] show False by (simp add: W_def)
    qed
    with n(1) None show ?thesis using moves [OF assms(1), of n] by (auto simp: W_def)
  qed
qed

lemma takes_alone:
  assumes "phil_inv R s" and "n < NUM_PHIL" and "steps_left s = 0"
  shows "\<exists>s'. phil_step S D s s' \<and> ps_pc s' n = Take1"
proof -
  have home: "ps_pc s m = Take0" if "m < NUM_PHIL" for m
    using assms(3) that by (simp add: steps_left_def ph_left_0 split: if_splits)
  then have "\<not> ph_locks (ps_pc s n)" using assms(2) by simp
  with thread_step [OF assms(1,2), of D 0] home obtain s' d where
    "phil_thread S D 0 n s = Ret s'" "ps_pc s' = (ps_pc s)(n := ph_next (ps_pc s n) d)"
    using ph_holds_not_Take0 by blast
  with phil_moves [OF assms(2), of S D 0 s s'] home [OF assms(2)] show ?thesis by (intro exI [of _ s']) (simp add: ph_next_def)
qed

end

sublocale fork_sync \<subseteq> progress: dining_progress "phil_step S D" "phil_inv R" steps_left "\<lambda>s n. ps_pc s n = Take1" "\<lambda>s n. ps_pc s n = Eat" for D
proof unfold_locales
  fix s s' n
  show "phil_step S D s s' \<Longrightarrow> phil_inv R s \<Longrightarrow> phil_inv R s'" using reach_inv [of D s s'] by blast
  show "phil_inv R s \<Longrightarrow> 0 < steps_left s \<Longrightarrow> \<exists>s'. phil_step S D s s' \<and> steps_left s' < steps_left s \<and>
      (\<forall>n<NUM_PHIL. ps_pc s n = Take1 \<longrightarrow> ps_pc s' n = Take1 \<or> ps_pc s' n = Eat)" by (rule somebody_moves)
  show "phil_inv R s \<Longrightarrow> n < NUM_PHIL \<Longrightarrow> ps_pc s n = Take1 \<Longrightarrow> 0 < steps_left s"
    using member_le_sum [of n "{..<NUM_PHIL}" "\<lambda>n. ph_left (ps_pc s n)"] by (auto simp: steps_left_def)
  show "phil_inv R s \<Longrightarrow> n < NUM_PHIL \<Longrightarrow> steps_left s = 0 \<Longrightarrow> \<exists>s'. phil_step S D s s' \<and> ps_pc s' n = Take1" by (rule takes_alone)
qed

section \<open>Delays\<close>

lemma unat_word_mult_small: "unat a * unat b < 2 ^ 32 \<Longrightarrow> unat (a * b :: usize) = unat a * unat b"
  by (simp add: unat_word_ariths)

lemma get_random_delay_bounds:
  assumes "n < NUM_PHIL"
  shows "\<exists>k. 1 \<le> k \<and> k \<le> 32 \<and> unat (get_random_delay_ms uptime (of_nat n) 25) = 25 * k"
proof -
  let ?d = "(ucast (uptime AND 0xFFFFFFFF) div 100 * (of_nat n + 1)) AND 0x1F :: usize"
  have "?d = take_bit 5 (ucast (uptime AND 0xFFFFFFFF) div 100 * (of_nat n + 1))"
    by (simp add: take_bit_eq_mask mask_eq_exp_minus_1)
  then have "unat ?d < 32" using take_bit_nat_less_exp [of 5 "unat (ucast (uptime AND 0xFFFFFFFF) div 100 * (of_nat n + 1) :: usize)"]
    by (simp add: unsigned_take_bit_eq)
  then have "unat (?d + 1) = unat ?d + 1" "unat (?d + 1) * unat (25 :: usize) < 2 ^ 32"
    by (simp_all add: unat_word_ariths)
  then have "unat (get_random_delay_ms uptime (of_nat n) 25) = 25 * (unat ?d + 1)"
    unfolding get_random_delay_ms_def Let_def by (subst unat_word_mult_small) simp_all
  with \<open>unat ?d < 32\<close> show ?thesis by (intro exI [of _ "unat ?d + 1"]) simp
qed

section \<open>Properties\<close>

text \<open>
  What the sample promises of a reachable state: no philosopher panics, no fork is in two hands, so that neighbours
  never eat at the same time, and from there every philosopher can get to eat: there is no deadlock.
\<close>

definition dining :: "'s ForkSync \<Rightarrow> dur_api \<Rightarrow> 's phil_sys \<Rightarrow> bool" where
  "dining S D s \<longleftrightarrow>
     (\<forall>n<NUM_PHIL. \<forall>u. phil_thread S D u n s = Blocked \<or> (\<exists>s'. phil_thread S D u n s = Ret s')) \<and>
     (\<forall>n<NUM_PHIL. \<forall>m<NUM_PHIL. n \<noteq> m \<longrightarrow> ph_holds n (ps_pc s n) \<inter> ph_holds m (ps_pc s m) = {}) \<and>
     (\<forall>n<NUM_PHIL. \<exists>s'. (phil_step S D)\<^sup>*\<^sup>* s s' \<and> ps_pc s' n = Eat)"

lemma ph_holds_less: "n < NUM_PHIL \<Longrightarrow> f \<in> ph_holds n pc \<Longrightarrow> f < NUM_PHIL"
  using phil_forks_less [of n] by (cases pc) auto

context fork_sync
begin

lemma reach_dining:
  assumes "R y Map.empty" and "phil_reach S D y s"
  shows "dining S D s"
proof -
  have i: "phil_inv R s" using reach_inv [OF assms(2) start_inv [OF assms(1)]] .
  then obtain H where "held_by (ps_pc s) H" by (auto simp: phil_inv_def)
  then have "n = m" if "n < NUM_PHIL" "m < NUM_PHIL" "f \<in> ph_holds n (ps_pc s n)" "f \<in> ph_holds m (ps_pc s m)" for n m f
    using that ph_holds_less [OF that(1,3)] unfolding held_by_def by (metis option.inject)
  moreover have "phil_thread S D u n s = Blocked \<or> (\<exists>s'. phil_thread S D u n s = Ret s')" if "n < NUM_PHIL" for n u
    using thread_step [OF i that, of D u] by blast
  ultimately show ?thesis unfolding dining_def using progress.everybody_eats [OF i] by blast
qed

end

text \<open>
  C23. Dining philosophers over semaphores and over mutexes. In every reachable state, with six semaphores or six
  mutexes as the forks, no philosopher panics, no fork is in two hands, and every philosopher can still get to eat.
  Every delay is between 25 and 800 milliseconds, a multiple of 25.
\<close>

theorem philosophers_dine:
  assumes "zephyr_sem K" and "zephyr_mutex M owner" and "\<forall>i. addr i \<noteq> 0"
  shows "(\<exists>forks. SEMS = Ret forks \<and> (\<forall>s. phil_reach (SemSync K addr) D forks s \<longrightarrow> dining (SemSync K addr) D s)) \<and>
    (\<forall>s. phil_reach (SysMutexSync M addr) D (SysMutexSync_new M) s \<longrightarrow> dining (SysMutexSync M addr) D s) \<and>
    (\<forall>n<NUM_PHIL. \<forall>u. \<exists>k. 1 \<le> k \<and> k \<le> 32 \<and> unat (get_random_delay_ms u (of_nat n) 25) = 25 * k)"
proof -
  have a: "\<And>i. addr i \<noteq> 0" using assms(3) by blast
  note sem = SemSync_fork_sync [of K addr, OF assms(1) a] and mut = SysMutexSync_fork_sync [of M owner addr, OF assms(2) a]
  obtain forks where "SEMS = Ret forks" "SemSync_rel addr forks Map.empty" using SEMS_rel by blast
  with fork_sync.reach_dining [OF sem] fork_sync.reach_dining [OF mut SysMutexSync_new_rel] get_random_delay_bounds
  show ?thesis by blast
qed

text \<open>The reference kernel, for which the contract is met.\<close>

definition demo_dur :: dur_api where
  "demo_dur = \<lparr>millis_at_least = (\<lambda>ms. ms), to_millis = (\<lambda>t. t)\<rparr>"

definition demo_addr :: "nat \<Rightarrow> ptr" where
  "demo_addr i = [64, 72, 80, 88, 96, 104] ! (i mod NUM_PHIL)"

lemma demo_addr_not_null: "demo_addr i \<noteq> 0"
proof -
  have "i mod NUM_PHIL \<in> {0, 1, 2, 3, 4, 5}" using mod_less_divisor [of NUM_PHIL i] by (auto simp: NUM_PHIL_def)
  then show ?thesis by (auto simp: demo_addr_def)
qed

interpretation sem_forks: fork_sync "SemSync ref_sem_api demo_addr" "SemSync_rel demo_addr"
  by (rule SemSync_fork_sync [OF ref_sem.zephyr_sem_axioms demo_addr_not_null])

interpretation mutex_forks: fork_sync "SysMutexSync owner_mutex_api demo_addr" "SysMutexSync_rel (\<lambda>m. m) demo_addr"
  by (rule SysMutexSync_fork_sync [OF owner_mutex.zephyr_mutex_axioms demo_addr_not_null])

theorem philosophers_dine_witness:
  "\<exists>forks s. SEMS = Ret forks \<and> phil_reach (SemSync ref_sem_api demo_addr) demo_dur forks s \<and> ps_pc s 2 = Eat"
proof -
  have "\<forall>i. demo_addr i \<noteq> 0" using demo_addr_not_null by blast
  from philosophers_dine [OF ref_sem.zephyr_sem_axioms owner_mutex.zephyr_mutex_axioms this, of demo_dur]
  obtain forks where "SEMS = Ret forks" "dining (SemSync ref_sem_api demo_addr) demo_dur (phil_start forks)" by blast
  then show ?thesis unfolding dining_def by (auto simp: NUM_PHIL_def)
qed

end
