(* ===== verification/Philosophers_Channel.thy ===== *)
theory Philosophers_Channel
  imports Philosophers Channel
begin

text \<open>
  \<open>samples/philosophers/src/channel.rs\<close>: the forks are handed out by a server thread that the philosophers reach over
  channels. A call on a channel is the one of its specification, which the code of the channels refines; the memory
  for the messages of unbounded channels does not run out.
\<close>

section \<open>The server\<close>

text \<open>A reply sender is named by the philosopher it belongs to.\<close>

datatype Command = Acquire nat nat | Release nat

datatype ChannelFork = Free | InUse | InUseWait nat

text \<open>
  The channels, the number of handles of each reply sender, the philosophers that have sent a request and wait for the
  reply, the forks, and the command that the server works on.
\<close>

record chan_sync =
  cq_cmd :: "Command chan_spec"
  cq_reply :: "nat \<Rightarrow> unit chan_spec"
  cq_handles :: "nat \<Rightarrow> nat"
  cq_wait :: "nat \<Rightarrow> bool"
  cq_forks :: "ChannelFork list"
  cq_busy :: "Command option"

definition reply_send :: "nat \<Rightarrow> chan_sync \<Rightarrow> chan_sync outcome" where
  "reply_send p cs =
     bind_outcome (spec_send (cq_reply cs p) () K_FOREVER) (\<lambda>(r, c).
     bind_outcome (unwrap r) (\<lambda>_. Ret (cs\<lparr>cq_reply := (cq_reply cs)(p := c)\<rparr>)))"

text \<open>Dropping the last sender of a channel panics.\<close>

definition drop_reply :: "nat \<Rightarrow> chan_sync \<Rightarrow> chan_sync outcome" where
  "drop_reply p cs =
     (if cq_handles cs p \<le> 1 then Panic ''the last sender is dropped''
      else Ret (cs\<lparr>cq_handles := (cq_handles cs)(p := cq_handles cs p - 1)\<rparr>))"

fun ChannelFork_acquire :: "ChannelFork \<Rightarrow> nat \<Rightarrow> chan_sync \<Rightarrow> (ChannelFork \<times> chan_sync) outcome" where
  "ChannelFork_acquire Free reply cs =
     bind_outcome (reply_send reply cs) (\<lambda>cs. bind_outcome (drop_reply reply cs) (\<lambda>cs. Ret (InUse, cs)))"
| "ChannelFork_acquire InUse reply cs = Ret (InUseWait reply, cs)"
| "ChannelFork_acquire (InUseWait q) reply cs = Panic ''Mutliple waiters on fork''"

fun ChannelFork_release :: "ChannelFork \<Rightarrow> chan_sync \<Rightarrow> (ChannelFork \<times> chan_sync) outcome" where
  "ChannelFork_release Free cs = Panic ''Release of fork that is not in use''"
| "ChannelFork_release InUse cs = Ret (Free, cs)"
| "ChannelFork_release (InUseWait waiter) cs =
     bind_outcome (reply_send waiter cs) (\<lambda>cs. bind_outcome (drop_reply waiter cs) (\<lambda>cs. Ret (InUse, cs)))"

definition with_fork :: "nat \<Rightarrow> (ChannelFork \<Rightarrow> chan_sync \<Rightarrow> (ChannelFork \<times> chan_sync) outcome) \<Rightarrow> chan_sync \<Rightarrow> chan_sync outcome" where
  "with_fork f op cs =
     (if length (cq_forks cs) \<le> f then Panic ''index out of bounds''
      else bind_outcome (op (cq_forks cs ! f) cs) (\<lambda>(fork, cs). Ret (cs\<lparr>cq_forks := (cq_forks cs)[f := fork]\<rparr>)))"

text \<open>The loop of the server: the receipt of a command, and its execution.\<close>

definition channel_thread :: "chan_sync \<Rightarrow> chan_sync outcome" where
  "channel_thread cs = (case cq_busy cs of
     None \<Rightarrow> bind_outcome (spec_recv (cq_cmd cs) K_FOREVER) (\<lambda>(r, c).
              bind_outcome (unwrap r) (\<lambda>cmd. Ret (cs\<lparr>cq_cmd := c, cq_busy := Some cmd\<rparr>)))
   | Some (Acquire f reply) \<Rightarrow> with_fork f (\<lambda>fork. ChannelFork_acquire fork reply) (cs\<lparr>cq_busy := None\<rparr>)
   | Some (Release f) \<Rightarrow> with_fork f ChannelFork_release (cs\<lparr>cq_busy := None\<rparr>))"

section \<open>The philosophers\<close>

text \<open>\<open>take\<close> in two steps: the request, with a new handle of the reply sender, and the reply. The answer says whether the call is over.\<close>

definition ChannelSync_take :: "tid \<Rightarrow> nat \<Rightarrow> chan_sync \<Rightarrow> (bool \<times> chan_sync) outcome" where
  "ChannelSync_take n index cs =
     (if \<not> cq_wait cs n
      then bind_outcome (spec_send (cq_cmd cs) (Acquire index n) K_FOREVER) (\<lambda>(r, c).
           bind_outcome (unwrap r) (\<lambda>_. Ret (False, cs\<lparr>cq_cmd := c, cq_handles := (cq_handles cs)(n := cq_handles cs n + 1),
             cq_wait := (cq_wait cs)(n := True)\<rparr>)))
      else bind_outcome (spec_recv (cq_reply cs n) K_FOREVER) (\<lambda>(r, c).
           bind_outcome (unwrap r) (\<lambda>_. Ret (True, cs\<lparr>cq_reply := (cq_reply cs)(n := c), cq_wait := (cq_wait cs)(n := False)\<rparr>))))"

definition ChannelSync_release :: "tid \<Rightarrow> nat \<Rightarrow> chan_sync \<Rightarrow> chan_sync outcome" where
  "ChannelSync_release n index cs =
     bind_outcome (spec_send (cq_cmd cs) (Release index) K_FOREVER) (\<lambda>(r, c).
     bind_outcome (unwrap r) (\<lambda>_. Ret (cs\<lparr>cq_cmd := c\<rparr>)))"

definition get_channel_syncer :: "bool \<Rightarrow> chan_sync" where
  "get_channel_syncer use_bounded =
     (let cap = (if use_bounded then Some 1 else None)
      in \<lparr>cq_cmd = \<lparr>cs_cap = cap, cs_msgs = []\<rparr>, cq_reply = (\<lambda>_. \<lparr>cs_cap = cap, cs_msgs = []\<rparr>), cq_handles = (\<lambda>_. 1),
         cq_wait = (\<lambda>_. False), cq_forks = replicate NUM_PHIL Free, cq_busy = None\<rparr>)"

text \<open>\<open>phil_thread\<close> with the two steps of \<open>take\<close>; the rest of the loop is the one over any syncer.\<close>

definition take_call :: "nat \<Rightarrow> nat \<Rightarrow> ph_pc \<Rightarrow> chan_sync phil_sys \<Rightarrow> chan_sync phil_sys outcome" where
  "take_call n index pc s =
     bind_outcome (ChannelSync_take n index (ps_sync s)) (\<lambda>(over, y).
       Ret (if over then ph_goto n pc (s\<lparr>ps_sync := y\<rparr>) else s\<lparr>ps_sync := y\<rparr>))"

definition chan_fork_sync :: "chan_sync ForkSync" where
  "chan_fork_sync = \<lparr>fs_take = (\<lambda>_ _ _. Blocked), fs_release = ChannelSync_release\<rparr>"

definition phil_thread_chan :: "dur_api \<Rightarrow> i64 \<Rightarrow> nat \<Rightarrow> chan_sync phil_sys \<Rightarrow> chan_sync phil_sys outcome" where
  "phil_thread_chan D uptime n s = (case ps_pc s n of
     Take0 \<Rightarrow> take_call n (fst (phil_forks n)) Take1 s
   | Take1 \<Rightarrow> take_call n (snd (phil_forks n)) Eat s
   | _ \<Rightarrow> phil_thread chan_fork_sync D uptime n s)"

definition server_step :: "chan_sync phil_sys \<Rightarrow> chan_sync phil_sys outcome" where
  "server_step s = bind_outcome (channel_thread (ps_sync s)) (\<lambda>y. Ret (s\<lparr>ps_sync := y\<rparr>))"

inductive pc_step :: "dur_api \<Rightarrow> chan_sync phil_sys \<Rightarrow> chan_sync phil_sys \<Rightarrow> bool" for D where
  pc_phil: "n < NUM_PHIL \<Longrightarrow> phil_thread_chan D uptime n s = Ret s' \<Longrightarrow> pc_step D s s'"
| pc_server: "server_step s = Ret s' \<Longrightarrow> pc_step D s s'"
| pc_main: "main_loop s = Ret s' \<Longrightarrow> pc_step D s s'"

abbreviation pc_reach :: "bool \<Rightarrow> dur_api \<Rightarrow> chan_sync phil_sys \<Rightarrow> bool" where
  "pc_reach use_bounded D s \<equiv> (pc_step D)\<^sup>*\<^sup>* (phil_start (get_channel_syncer use_bounded)) s"

section \<open>The protocol\<close>

text \<open>
  The commands under way, and the fork that a philosopher has asked for and not yet got. \<open>G f\<close> is the philosopher to
  whom the server has given the fork \<open>f\<close> and whose release it has not seen yet.
\<close>

definition uses :: "nat \<Rightarrow> nat \<Rightarrow> bool" where
  "uses p f \<longleftrightarrow> p < NUM_PHIL \<and> (f = fst (phil_forks p) \<or> f = snd (phil_forks p))"

lemma uses_two: "uses a f \<Longrightarrow> uses b f \<Longrightarrow> uses c f \<Longrightarrow> a = b \<or> a = c \<or> b = c"
  by (auto simp: uses_def phil_forks_def NUM_PHIL_def split: if_splits)

lemma uses_less: "uses p f \<Longrightarrow> p < NUM_PHIL \<and> f < NUM_PHIL"
  using phil_forks_less [of p] by (auto simp: uses_def)

text \<open>Every request of \<open>p\<close> for the fork \<open>f\<close> comes after a release of \<open>f\<close>.\<close>

fun behind :: "Command list \<Rightarrow> nat \<Rightarrow> nat \<Rightarrow> bool" where
  "behind [] f p = True"
| "behind (c # cs) f p = (c = Release f \<or> c \<noteq> Acquire f p \<and> behind cs f p)"

lemma behind_snoc: "behind (cs @ [c]) f p \<longleftrightarrow> behind cs f p \<and> (c = Acquire f p \<longrightarrow> Release f \<in> set cs)"
  by (induction cs) auto

lemma behind_fresh: "Acquire f p \<notin> set cs \<Longrightarrow> behind cs f p"
  by (induction cs) auto

record proto =
  hold :: "nat \<Rightarrow> nat set"
  req :: "nat \<rightharpoonup> nat"
  rep :: "nat \<Rightarrow> nat"
  pend :: "Command list"
  forks :: "ChannelFork list"
  own :: "nat \<rightharpoonup> nat"

definition served :: "proto \<Rightarrow> nat \<Rightarrow> nat \<Rightarrow> bool" where
  "served v p f \<longleftrightarrow> f \<in> hold v p \<or> req v p = Some f \<and> rep v p \<noteq> 0"

definition proto_own :: "proto \<Rightarrow> bool" where
  "proto_own v \<longleftrightarrow> length (forks v) = NUM_PHIL \<and>
     (\<forall>f<NUM_PHIL. forks v ! f = Free \<longleftrightarrow> own v f = None) \<and>
     (\<forall>f p. own v f = Some p \<longrightarrow> uses p f) \<and>
     (\<forall>f. count_list (pend v) (Release f) = (case own v f of None \<Rightarrow> 0 | Some p \<Rightarrow> if served v p f then 0 else 1)) \<and>
     (\<forall>p f. served v p f \<longrightarrow> own v f = Some p)"

text \<open>A request is with the server, in a fork that is in use, or answered.\<close>

definition places :: "proto \<Rightarrow> nat \<Rightarrow> nat \<Rightarrow> nat" where
  "places v p f = count_list (pend v) (Acquire f p) + (if forks v ! f = InUseWait p then 1 else 0) + rep v p"

definition proto_req :: "proto \<Rightarrow> bool" where
  "proto_req v \<longleftrightarrow>
     (\<forall>p. rep v p \<noteq> 0 \<longrightarrow> req v p \<noteq> None) \<and>
     (\<forall>p f. req v p = Some f \<longrightarrow> uses p f \<and> f \<notin> hold v p \<and> places v p f = 1) \<and>
     (\<forall>p f. Acquire f p \<in> set (pend v) \<longrightarrow> req v p = Some f) \<and>
     (\<forall>p f. f < NUM_PHIL \<longrightarrow> forks v ! f = InUseWait p \<longrightarrow> req v p = Some f \<and> own v f \<noteq> Some p) \<and>
     (\<forall>p f. own v f = Some p \<longrightarrow> behind (pend v) f p)"

definition proto_ok :: "proto \<Rightarrow> bool" where
  "proto_ok v \<longleftrightarrow> proto_own v \<and> proto_req v"

lemmas proto_defs = proto_ok_def proto_own_def proto_req_def served_def

lemma count_list_pos: "x \<in> set xs \<Longrightarrow> 0 < count_list xs x"
  by (induction xs) auto

lemma proto_request:
  assumes "proto_ok v" and "req v p = None" and "uses p f" and "f \<notin> hold v p"
  shows "proto_ok (v\<lparr>req := (req v)(p \<mapsto> f), pend := pend v @ [Acquire f p]\<rparr>)"
proof -
  have o: "proto_own v" and r: "proto_req v" using assms(1) by (auto simp: proto_ok_def)
  have rep: "rep v p = 0" using r assms(2) by (auto simp: proto_req_def)
  have s: "served (v\<lparr>req := (req v)(p \<mapsto> f), pend := pend v @ [Acquire f p]\<rparr>) = served v"
    using rep assms(2) by (auto simp: served_def fun_eq_iff)
  have "proto_own (v\<lparr>req := (req v)(p \<mapsto> f), pend := pend v @ [Acquire f p]\<rparr>)"
    using o unfolding proto_own_def s by simp
  moreover have no: "Acquire g p \<notin> set (pend v)" "g < NUM_PHIL \<Longrightarrow> forks v ! g \<noteq> InUseWait p" for g
    using r assms(2) by (auto simp: proto_req_def)
  moreover have "Release f \<in> set (pend v)" if "own v f = Some p"
  proof -
    have "count_list (pend v) (Release f) = 1" using o that assms(2,4) by (simp add: proto_own_def served_def)
    then show ?thesis by (metis count_list_0_iff zero_neq_one)
  qed
  ultimately show ?thesis
    using r assms(3,4) rep uses_less [OF assms(3)]
    by (auto simp: proto_ok_def proto_req_def behind_snoc places_def)
qed

lemma proto_reply:
  assumes "proto_ok v" and "req v p = Some f" and "rep v p \<noteq> 0"
  shows "proto_ok (v\<lparr>req := (req v)(p := None), rep := (rep v)(p := 0), hold := (hold v)(p := insert f (hold v p))\<rparr>)"
proof -
  let ?v = "v\<lparr>req := (req v)(p := None), rep := (rep v)(p := 0), hold := (hold v)(p := insert f (hold v p))\<rparr>"
  have o: "proto_own v" and r: "proto_req v" using assms(1) by (auto simp: proto_ok_def)
  have s: "served ?v = served v" using assms(2,3) by (auto simp: served_def fun_eq_iff)
  have "proto_own ?v" using o unfolding proto_own_def s by simp
  moreover have "count_list (pend v) (Acquire f p) + (if forks v ! f = InUseWait p then 1 else 0) + rep v p = 1"
    using r assms(2) by (simp add: proto_req_def places_def)
  then have "Acquire f p \<notin> set (pend v)" "forks v ! f \<noteq> InUseWait p"
    using assms(3) by (auto dest: count_list_pos split: if_splits)
  ultimately show ?thesis using r assms(2,3) by (auto simp: proto_ok_def proto_req_def places_def)
qed

lemma proto_release:
  assumes "proto_ok v" and "req v p = None" and "f \<in> hold v p"
  shows "proto_ok (v\<lparr>hold := (hold v)(p := hold v p - {f}), pend := pend v @ [Release f]\<rparr>)"
proof -
  let ?v = "v\<lparr>hold := (hold v)(p := hold v p - {f}), pend := pend v @ [Release f]\<rparr>"
  have o: "proto_own v" and r: "proto_req v" using assms(1) by (auto simp: proto_ok_def)
  have p: "own v f = Some p" using o assms(3) by (auto simp: proto_own_def served_def)
  have s: "served ?v q g \<longleftrightarrow> served v q g \<and> \<not> (q = p \<and> g = f)" for q g
    using assms(2) by (auto simp: served_def)
  have "served v p f" using assms(3) by (simp add: served_def)
  then have "proto_own ?v" using o p unfolding proto_own_def s by (auto split: option.splits) (metis option.inject)+
  moreover have "proto_req ?v" using r assms(2) by (auto simp: proto_req_def behind_snoc places_def)
  ultimately show ?thesis by (simp add: proto_ok_def)
qed

text \<open>The server: the commands it meets never make it panic, and what each of them does.\<close>

lemma proto_acquire_head:
  assumes "proto_ok v" and "pend v = Acquire f p # cs"
  shows "req v p = Some f" and "uses p f" and "f \<notin> hold v p" and "rep v p = 0" and "forks v ! f \<noteq> InUseWait q" and "own v f \<noteq> Some p"
    and "Acquire f p \<notin> set cs"
proof -
  have o: "proto_own v" and r: "proto_req v" using assms(1) by (auto simp: proto_ok_def)
  show req: "req v p = Some f" using r assms(2) by (simp add: proto_req_def)
  with r have p: "uses p f" "f \<notin> hold v p"
    "count_list (pend v) (Acquire f p) + (if forks v ! f = InUseWait p then 1 else 0) + rep v p = 1" by (simp_all add: proto_req_def places_def)
  then show "uses p f" "f \<notin> hold v p" "rep v p = 0" "Acquire f p \<notin> set cs"
    using assms(2) count_list_pos [of "Acquire f p" cs] by (auto split: if_splits)
  show own: "own v f \<noteq> Some p" using r assms(2) by (auto simp: proto_req_def)
  show "forks v ! f \<noteq> InUseWait q"
  proof
    assume q: "forks v ! f = InUseWait q"
    with p(3) assms(2) have "q \<noteq> p" by auto
    have f: "f < NUM_PHIL" using uses_less [OF p(1)] by simp
    then have "req v q = Some f" "own v f \<noteq> Some q" using r q by (auto simp: proto_req_def)
    moreover from this r have "uses q f" by (simp add: proto_req_def)
    moreover obtain o' where "own v f = Some o'" "uses o' f" using o f q by (auto simp: proto_own_def)
    ultimately show False using uses_two [of p f q o'] p(1) own \<open>q \<noteq> p\<close> by auto
  qed
qed

lemma proto_release_head:
  assumes "proto_ok v" and "pend v = Release f # cs"
  obtains p where "own v f = Some p" and "uses p f" and "\<not> served v p f" and "forks v ! f \<noteq> Free" and "Release f \<notin> set cs"
proof -
  have o: "proto_own v" using assms(1) by (auto simp: proto_ok_def)
  then have c: "Suc (count_list cs (Release f)) = (case own v f of None \<Rightarrow> 0 | Some p \<Rightarrow> if served v p f then 0 else 1)"
    using assms(2) by (auto simp: proto_own_def dest: spec [of _ f])
  then obtain p where p: "own v f = Some p" "\<not> served v p f" "Release f \<notin> set cs"
    by (auto simp: count_list_0_iff split: option.splits if_splits)
  with o have "uses p f" by (simp add: proto_own_def)
  with p o uses_less [of p f] show ?thesis by (intro that) (auto simp: proto_own_def)
qed

lemma proto_reqI:
  assumes "\<And>p. rep v p \<noteq> 0 \<Longrightarrow> req v p \<noteq> None" and "\<And>p f. req v p = Some f \<Longrightarrow> uses p f \<and> f \<notin> hold v p \<and> places v p f = 1"
    and "\<And>p f. Acquire f p \<in> set (pend v) \<Longrightarrow> req v p = Some f"
    and "\<And>p f. f < NUM_PHIL \<Longrightarrow> forks v ! f = InUseWait p \<Longrightarrow> req v p = Some f \<and> own v f \<noteq> Some p"
    and "\<And>p f. own v f = Some p \<Longrightarrow> behind (pend v) f p"
  shows "proto_req v"
  using assms by (simp add: proto_req_def)

lemma proto_reqD:
  assumes "proto_req v"
  shows "rep v p \<noteq> 0 \<Longrightarrow> req v p \<noteq> None" and "req v p = Some f \<Longrightarrow> uses p f \<and> f \<notin> hold v p \<and> places v p f = 1"
    and "Acquire f p \<in> set (pend v) \<Longrightarrow> req v p = Some f"
    and "f < NUM_PHIL \<Longrightarrow> forks v ! f = InUseWait p \<Longrightarrow> req v p = Some f \<and> own v f \<noteq> Some p"
    and "own v f = Some p \<Longrightarrow> behind (pend v) f p"
  using assms by (simp_all add: proto_req_def)

lemma proto_wait:
  assumes "proto_ok v" and "pend v = Acquire f p # cs" and "forks v ! f = InUse"
  shows "proto_ok (v\<lparr>pend := cs, forks := (forks v)[f := InUseWait p]\<rparr>)"
proof -
  let ?v = "v\<lparr>pend := cs, forks := (forks v)[f := InUseWait p]\<rparr>"
  have o: "proto_own v" and r: "proto_req v" using assms(1) by (auto simp: proto_ok_def)
  note h = proto_acquire_head [OF assms(1,2)]
  have len: "f < length (forks v)" "length (forks v) = NUM_PHIL" using o uses_less [OF h(2)] by (auto simp: proto_own_def)
  have s: "served ?v = served v" by (auto simp: served_def fun_eq_iff)
  have "proto_own ?v" using o len assms(2,3) unfolding proto_own_def s by (auto simp: nth_list_update)
  moreover have pl: "places ?v q g = places v q g" if "req v q = Some g" for q g
  proof -
    have "g < NUM_PHIL" using proto_reqD(2) [OF r that] uses_less [of q g] by blast+
    with len assms(2,3) h that show ?thesis by (cases "g = f"; cases "q = p") (auto simp: places_def nth_list_update)
  qed
  have "proto_req ?v"
  proof (rule proto_reqI)
    fix q g
    show "rep ?v q \<noteq> 0 \<Longrightarrow> req ?v q \<noteq> None" using proto_reqD(1) [OF r] by simp
    show "req ?v q = Some g \<Longrightarrow> uses q g \<and> g \<notin> hold ?v q \<and> places ?v q g = 1" using proto_reqD(2) [OF r] pl by simp
    show "Acquire g q \<in> set (pend ?v) \<Longrightarrow> req ?v q = Some g" using proto_reqD(3) [OF r] assms(2) by simp
    show "g < NUM_PHIL \<Longrightarrow> forks ?v ! g = InUseWait q \<Longrightarrow> req ?v q = Some g \<and> own ?v g \<noteq> Some q"
      using proto_reqD(4) [OF r] len h by (cases "g = f") (simp_all add: nth_list_update)
    show "own ?v g = Some q \<Longrightarrow> behind (pend ?v) g q" using proto_reqD(5) [OF r, of g q] assms(2) by simp
  qed
  ultimately show ?thesis by (simp add: proto_ok_def)
qed

lemma proto_grant:
  assumes "proto_ok v" and "pend v = c # cs" and "req v p = Some f" and "rep v p = 0" and "Acquire f p \<notin> set cs"
    and "c = Acquire f p \<or> c = Release f" and "f < NUM_PHIL" and "Release f \<notin> set cs" and "\<And>q. \<not> served v q f"
    and "\<And>q. forks v ! f = InUseWait q \<Longrightarrow> q = p"
  shows "proto_ok (v\<lparr>pend := cs, forks := (forks v)[f := InUse], own := (own v)(f \<mapsto> p), rep := (rep v)(p := 1)\<rparr>)"
proof -
  let ?v = "v\<lparr>pend := cs, forks := (forks v)[f := InUse], own := (own v)(f \<mapsto> p), rep := (rep v)(p := 1)\<rparr>"
  have o: "proto_own v" and r: "proto_req v" using assms(1) by (auto simp: proto_ok_def)
  have len: "f < length (forks v)" "length (forks v) = NUM_PHIL" using o assms(7) by (auto simp: proto_own_def)
  have s: "served ?v q g \<longleftrightarrow> served v q g \<or> q = p \<and> g = f" for q g using assms(3,4) by (auto simp: served_def)
  have u: "uses p f" using r assms(3) by (simp add: proto_req_def)
  have rel: "count_list cs (Release g) = count_list (pend v) (Release g)" if "g \<noteq> f" for g using assms(2,6) that by auto
  have "proto_own ?v" using o len u assms(8,9) rel unfolding proto_own_def s
    by (auto simp: nth_list_update count_list_0_iff split: option.splits)
  moreover have pl: "places ?v q g = places v q g" if "req v q = Some g" for q g
  proof -
    have "g < NUM_PHIL" "places v q g = 1" using proto_reqD(2) [OF r that] uses_less [of q g] by blast+
    moreover have "q \<noteq> p \<Longrightarrow> forks v ! f \<noteq> InUseWait q" using assms(10) by blast
    ultimately show ?thesis using len assms(2-6) that
      by (cases "g = f"; cases "q = p") (auto simp: places_def nth_list_update count_list_0_iff)
  qed
  moreover have bh: "behind cs g q" if "((own v)(f \<mapsto> p)) g = Some q" for g q
    using that r assms(2,5,6) behind_fresh [of f p cs] by (cases "g = f") (auto simp: proto_req_def)
  moreover have "proto_req ?v"
  proof (rule proto_reqI)
    fix q g
    show "rep ?v q \<noteq> 0 \<Longrightarrow> req ?v q \<noteq> None" using proto_reqD(1) [OF r] assms(3) by (cases "q = p") simp_all
    show "req ?v q = Some g \<Longrightarrow> uses q g \<and> g \<notin> hold ?v q \<and> places ?v q g = 1" using proto_reqD(2) [OF r] pl by simp
    show "Acquire g q \<in> set (pend ?v) \<Longrightarrow> req ?v q = Some g" using proto_reqD(3) [OF r] assms(2) by simp
    show "g < NUM_PHIL \<Longrightarrow> forks ?v ! g = InUseWait q \<Longrightarrow> req ?v q = Some g \<and> own ?v g \<noteq> Some q"
      using proto_reqD(4) [OF r] len by (cases "g = f") (simp_all add: nth_list_update)
    show "own ?v g = Some q \<Longrightarrow> behind (pend ?v) g q" using bh by simp
  qed
  ultimately show ?thesis by (simp add: proto_ok_def)
qed

lemma proto_free:
  assumes "proto_ok v" and "pend v = Release f # cs" and "forks v ! f = InUse"
  shows "proto_ok (v\<lparr>pend := cs, forks := (forks v)[f := Free], own := (own v)(f := None)\<rparr>)"
proof -
  let ?v = "v\<lparr>pend := cs, forks := (forks v)[f := Free], own := (own v)(f := None)\<rparr>"
  have o: "proto_own v" and r: "proto_req v" using assms(1) by (auto simp: proto_ok_def)
  obtain p where p: "own v f = Some p" "uses p f" "\<not> served v p f" "Release f \<notin> set cs"
    using proto_release_head [OF assms(1,2)] by metis
  then have len: "f < length (forks v)" "length (forks v) = NUM_PHIL" using o uses_less [OF p(2)] by (auto simp: proto_own_def)
  have s: "served ?v = served v" by (auto simp: served_def fun_eq_iff)
  have unserved: "\<not> served v q f" for q using o p by (auto simp: proto_own_def)
  have rel: "count_list cs (Release g) = count_list (pend v) (Release g)" if "g \<noteq> f" for g using assms(2) that by auto
  have "proto_own ?v" using o len p(4) unserved rel unfolding proto_own_def s
    by (auto simp: nth_list_update count_list_0_iff split: option.splits)
  moreover have pl: "places ?v q g = places v q g" if "req v q = Some g" for q g
  proof -
    have "g < NUM_PHIL" using proto_reqD(2) [OF r that] uses_less [of q g] by blast
    with len assms(2,3) show ?thesis by (cases "g = f") (auto simp: places_def nth_list_update)
  qed
  have "proto_req ?v"
  proof (rule proto_reqI)
    fix q g
    show "rep ?v q \<noteq> 0 \<Longrightarrow> req ?v q \<noteq> None" using proto_reqD(1) [OF r] by simp
    show "req ?v q = Some g \<Longrightarrow> uses q g \<and> g \<notin> hold ?v q \<and> places ?v q g = 1" using proto_reqD(2) [OF r] pl by simp
    show "Acquire g q \<in> set (pend ?v) \<Longrightarrow> req ?v q = Some g" using proto_reqD(3) [OF r] assms(2) by simp
    show "g < NUM_PHIL \<Longrightarrow> forks ?v ! g = InUseWait q \<Longrightarrow> req ?v q = Some g \<and> own ?v g \<noteq> Some q"
      using proto_reqD(4) [OF r] len by (cases "g = f") (simp_all add: nth_list_update)
    show "own ?v g = Some q \<Longrightarrow> behind (pend ?v) g q"
      using proto_reqD(5) [OF r, of g q] assms(2) by (cases "g = f") simp_all
  qed
  ultimately show ?thesis by (simp add: proto_ok_def)
qed

lemma proto_grant_free:
  assumes "proto_ok v" and "pend v = Acquire f p # cs" and "forks v ! f = Free"
  shows "proto_ok (v\<lparr>pend := cs, forks := (forks v)[f := InUse], own := (own v)(f \<mapsto> p), rep := (rep v)(p := 1)\<rparr>)"
proof -
  note h = proto_acquire_head [OF assms(1,2)]
  have o: "proto_own v" using assms(1) by (auto simp: proto_ok_def)
  have f: "f < NUM_PHIL" using uses_less [OF h(2)] by simp
  then have "own v f = None" using o assms(3) by (auto simp: proto_own_def)
  then have "count_list (pend v) (Release f) = 0" and ns: "\<And>q. \<not> served v q f" using o by (auto simp: proto_own_def)
  then have "Release f \<notin> set cs" using assms(2) by (auto simp: count_list_0_iff)
  then show ?thesis by (rule proto_grant [OF assms(1,2) h(1,4,7) disjI1 [OF refl] f _ ns]) (simp add: assms(3))
qed

lemma proto_grant_waiter:
  assumes "proto_ok v" and "pend v = Release f # cs" and "forks v ! f = InUseWait q"
  shows "req v q = Some f \<and> rep v q = 0 \<and>
    proto_ok (v\<lparr>pend := cs, forks := (forks v)[f := InUse], own := (own v)(f \<mapsto> q), rep := (rep v)(q := 1)\<rparr>)"
proof -
  have o: "proto_own v" and r: "proto_req v" using assms(1) by (auto simp: proto_ok_def)
  obtain p where p: "own v f = Some p" "uses p f" "\<not> served v p f" "Release f \<notin> set cs"
    using proto_release_head [OF assms(1,2)] by metis
  have f: "f < NUM_PHIL" using uses_less [OF p(2)] by simp
  then have q: "req v q = Some f" using proto_reqD(4) [OF r _ assms(3)] by simp
  then have "places v q f = 1" using proto_reqD(2) [OF r] by blast
  then have c: "rep v q = 0" "Acquire f q \<notin> set cs" using assms(2,3) by (auto simp: places_def count_list_0_iff)
  have ns: "\<not> served v q' f" for q' using o p by (auto simp: proto_own_def)
  have "q' = q" if "forks v ! f = InUseWait q'" for q' using that assms(3) by simp
  from proto_grant [OF assms(1,2) q c disjI2 [OF refl] f p(4) ns this] q c(1) show ?thesis by blast
qed

section \<open>The invariant\<close>

definition view :: "chan_sync phil_sys \<Rightarrow> (nat \<rightharpoonup> nat) \<Rightarrow> proto" where
  "view s G = (let y = ps_sync s in
     \<lparr>hold = (\<lambda>p. if p < NUM_PHIL then ph_holds p (ps_pc s p) else {}),
      req = (\<lambda>p. if p < NUM_PHIL \<and> cq_wait y p then ph_wants p (ps_pc s p) else None),
      rep = (\<lambda>p. length (cs_msgs (cq_reply y p))),
      pend = (case cq_busy y of None \<Rightarrow> [] | Some c \<Rightarrow> [c]) @ cs_msgs (cq_cmd y),
      forks = cq_forks y, own = G\<rparr>)"

definition caps_ok :: "chan_sync \<Rightarrow> bool" where
  "caps_ok y \<longleftrightarrow> cs_cap (cq_cmd y) \<noteq> Some 0 \<and> (\<forall>p. cs_cap (cq_reply y p) \<noteq> Some 0)"

definition asked :: "chan_sync \<Rightarrow> nat \<Rightarrow> bool" where
  "asked y p \<longleftrightarrow> cq_wait y p \<and> cs_msgs (cq_reply y p) = []"

definition chan_inv :: "chan_sync phil_sys \<Rightarrow> bool" where
  "chan_inv s \<longleftrightarrow> (\<exists>G. proto_ok (view s G)) \<and> caps_ok (ps_sync s) \<and>
     (\<forall>p<NUM_PHIL. cq_handles (ps_sync s) p = (if asked (ps_sync s) p then 2 else 1)) \<and>
     (\<forall>p<NUM_PHIL. cq_wait (ps_sync s) p \<longrightarrow> ph_wants p (ps_pc s p) \<noteq> None) \<and>
     guard_inv (ps_pc s) (ps_guard s) \<and> stats_ok (ps_stats s)"

lemma view_simps [simp]:
  "hold (view s G) p = (if p < NUM_PHIL then ph_holds p (ps_pc s p) else {})"
  "req (view s G) p = (if p < NUM_PHIL \<and> cq_wait (ps_sync s) p then ph_wants p (ps_pc s p) else None)"
  "rep (view s G) p = length (cs_msgs (cq_reply (ps_sync s) p))"
  "pend (view s G) = (case cq_busy (ps_sync s) of None \<Rightarrow> [] | Some c \<Rightarrow> [c]) @ cs_msgs (cq_cmd (ps_sync s))"
  "forks (view s G) = cq_forks (ps_sync s)" "own (view s G) = G"
  by (simp_all add: view_def Let_def)

lemma view_eqI:
  fixes v :: proto
  assumes "\<And>p. hold v p = hold w p" and "\<And>p. req v p = req w p" and "\<And>p. rep v p = rep w p" and "pend v = pend w"
    and "forks v = forks w" and "own v = own w"
  shows "v = w"
  using assms by (cases v; cases w) (auto simp: fun_eq_iff)

lemma reply_send_ok:
  assumes "cs_cap (cq_reply y p) \<noteq> Some 0" and "cs_msgs (cq_reply y p) = []"
  shows "reply_send p y = Ret (y\<lparr>cq_reply := (cq_reply y)(p := (cq_reply y p)\<lparr>cs_msgs := [()]\<rparr>)\<rparr>)"
  using assms by (auto simp: reply_send_def spec_send_def spec_full_def split: option.splits)

definition srv_work :: "chan_sync \<Rightarrow> nat" where
  "srv_work y = 2 * length (cs_msgs (cq_cmd y)) + (if cq_busy y = None then 0 else 1)"

definition granted :: "nat \<Rightarrow> nat \<Rightarrow> chan_sync \<Rightarrow> chan_sync" where
  "granted p f y = y\<lparr>cq_busy := None, cq_reply := (cq_reply y)(p := (cq_reply y p)\<lparr>cs_msgs := [()]\<rparr>),
     cq_handles := (cq_handles y)(p := cq_handles y p - 1), cq_forks := (cq_forks y)[f := InUse]\<rparr>"

lemma chan_invD:
  assumes "chan_inv s"
  obtains G where "proto_ok (view s G)" and "caps_ok (ps_sync s)"
    and "\<And>p. p < NUM_PHIL \<Longrightarrow> cq_handles (ps_sync s) p = (if asked (ps_sync s) p then 2 else 1)"
    and "\<And>p. p < NUM_PHIL \<Longrightarrow> cq_wait (ps_sync s) p \<Longrightarrow> ph_wants p (ps_pc s p) \<noteq> None"
    and "guard_inv (ps_pc s) (ps_guard s)" and "stats_ok (ps_stats s)"
  using assms by (auto simp: chan_inv_def)

text \<open>A fork is given to \<open>p\<close>: the reply is sent and the handle of the reply sender is dropped.\<close>

lemma grant_ok:
  assumes "chan_inv s" and "proto_ok (view s G)" and "cq_busy (ps_sync s) = Some c"
    and req: "req (view s G) p = Some f" and rep: "rep (view s G) p = 0"
    and "proto_ok ((view s G)\<lparr>pend := cs_msgs (cq_cmd (ps_sync s)), forks := (forks (view s G))[f := InUse], own := G(f \<mapsto> p),
      rep := (rep (view s G))(p := 1)\<rparr>)"
  shows "bind_outcome (reply_send p ((ps_sync s)\<lparr>cq_busy := None\<rparr>)) (\<lambda>y. bind_outcome (drop_reply p y) (\<lambda>y. Ret (y\<lparr>cq_forks := (cq_forks y)[f := InUse]\<rparr>)))
      = Ret (granted p f (ps_sync s)) \<and> chan_inv (s\<lparr>ps_sync := granted p f (ps_sync s)\<rparr>)"
proof -
  let ?y = "ps_sync s" and ?s = "s\<lparr>ps_sync := granted p f (ps_sync s)\<rparr>"
  have p: "p < NUM_PHIL" "cq_wait ?y p" "cs_msgs (cq_reply ?y p) = []" using req rep by (auto split: if_splits)
  then have two: "cq_handles ?y p = 2" using assms(1) by (simp add: chan_inv_def asked_def)
  have cap: "cs_cap (cq_reply ?y p) \<noteq> Some 0" using assms(1) by (simp add: chan_inv_def caps_ok_def)
  have "view ?s (G(f \<mapsto> p)) = (view s G)\<lparr>pend := cs_msgs (cq_cmd ?y), forks := (forks (view s G))[f := InUse], own := G(f \<mapsto> p),
      rep := (rep (view s G))(p := 1)\<rparr>"
    by (rule view_eqI) (simp_all add: granted_def)
  with assms(6) have "proto_ok (view ?s (G(f \<mapsto> p)))" by metis
  moreover have "caps_ok (granted p f ?y)" using assms(1) by (auto simp: chan_inv_def caps_ok_def granted_def)
  moreover have "cq_handles (granted p f ?y) q = (if asked (granted p f ?y) q then 2 else 1)" if "q < NUM_PHIL" for q
    using assms(1) that two by (cases "q = p") (auto simp: chan_inv_def asked_def granted_def)
  ultimately have "chan_inv ?s" using assms(1) unfolding chan_inv_def by (auto simp: granted_def)
  moreover have "reply_send p (?y\<lparr>cq_busy := None\<rparr>) =
      Ret (?y\<lparr>cq_busy := None, cq_reply := (cq_reply ?y)(p := (cq_reply ?y p)\<lparr>cs_msgs := [()]\<rparr>)\<rparr>)"
    using reply_send_ok [of "?y\<lparr>cq_busy := None\<rparr>" p] cap p(3) by simp
  ultimately show ?thesis using two by (simp add: drop_reply_def granted_def)
qed

lemma acquire_ok:
  assumes i: "chan_inv s" and b: "cq_busy (ps_sync s) = Some (Acquire f p)"
  shows "\<exists>y. channel_thread (ps_sync s) = Ret y \<and> chan_inv (s\<lparr>ps_sync := y\<rparr>) \<and> cq_wait y = cq_wait (ps_sync s) \<and> srv_work y < srv_work (ps_sync s)"
proof -
  let ?y = "ps_sync s"
  obtain G where G: "proto_ok (view s G)" using i by (auto simp: chan_inv_def)
  have pend: "pend (view s G) = Acquire f p # cs_msgs (cq_cmd ?y)" by (simp add: b)
  note h = proto_acquire_head [OF G pend]
  have f: "f < length (cq_forks ?y)" using G uses_less [OF h(2)] by (simp add: proto_ok_def proto_own_def)
  have ct: "channel_thread ?y = bind_outcome (ChannelFork_acquire (cq_forks ?y ! f) p (?y\<lparr>cq_busy := None\<rparr>))
      (\<lambda>(fork, y). Ret (y\<lparr>cq_forks := (cq_forks y)[f := fork]\<rparr>))"
    using f by (simp add: channel_thread_def b with_fork_def)
  show ?thesis
  proof (cases "cq_forks ?y ! f")
    case Free
    then have "proto_ok ((view s G)\<lparr>pend := cs_msgs (cq_cmd ?y), forks := (forks (view s G))[f := InUse], own := G(f \<mapsto> p),
      rep := (rep (view s G))(p := 1)\<rparr>)"
      using proto_grant_free [OF G pend] by simp
    from grant_ok [OF i G b h(1,4) this] Free ct show ?thesis
      by (intro exI [of _ "granted p f ?y"]) (simp add: bind_outcome_assoc granted_def srv_work_def b)
  next
    case InUse
    let ?y' = "?y\<lparr>cq_busy := None, cq_forks := (cq_forks ?y)[f := InUseWait p]\<rparr>"
    have "proto_ok ((view s G)\<lparr>pend := cs_msgs (cq_cmd ?y), forks := (forks (view s G))[f := InUseWait p]\<rparr>)"
      using proto_wait [OF G pend] InUse by simp
    moreover have "view (s\<lparr>ps_sync := ?y'\<rparr>) G = (view s G)\<lparr>pend := cs_msgs (cq_cmd ?y), forks := (forks (view s G))[f := InUseWait p]\<rparr>"
      by (rule view_eqI) simp_all
    ultimately have "proto_ok (view (s\<lparr>ps_sync := ?y'\<rparr>) G)" by metis
    with i have "chan_inv (s\<lparr>ps_sync := ?y'\<rparr>)" by (auto simp: chan_inv_def caps_ok_def asked_def)
    with InUse ct show ?thesis by (intro exI [of _ ?y']) (simp add: srv_work_def b)
  next
    case (InUseWait q)
    with h(5) [of q] show ?thesis by simp
  qed
qed

lemma release_ok:
  assumes i: "chan_inv s" and b: "cq_busy (ps_sync s) = Some (Release f)"
  shows "\<exists>y. channel_thread (ps_sync s) = Ret y \<and> chan_inv (s\<lparr>ps_sync := y\<rparr>) \<and> cq_wait y = cq_wait (ps_sync s) \<and> srv_work y < srv_work (ps_sync s)"
proof -
  let ?y = "ps_sync s"
  obtain G where G: "proto_ok (view s G)" using i by (auto simp: chan_inv_def)
  have pend: "pend (view s G) = Release f # cs_msgs (cq_cmd ?y)" by (simp add: b)
  obtain p where p: "uses p f" "cq_forks ?y ! f \<noteq> Free" using proto_release_head [OF G pend] by (metis view_simps(5))
  have f: "f < length (cq_forks ?y)" using G uses_less [OF p(1)] by (simp add: proto_ok_def proto_own_def)
  have ct: "channel_thread ?y = bind_outcome (ChannelFork_release (cq_forks ?y ! f) (?y\<lparr>cq_busy := None\<rparr>))
      (\<lambda>(fork, y). Ret (y\<lparr>cq_forks := (cq_forks y)[f := fork]\<rparr>))"
    using f by (simp add: channel_thread_def b with_fork_def)
  show ?thesis
  proof (cases "cq_forks ?y ! f")
    case (InUseWait q)
    then have "req (view s G) q = Some f" "rep (view s G) q = 0"
      "proto_ok ((view s G)\<lparr>pend := cs_msgs (cq_cmd ?y), forks := (forks (view s G))[f := InUse], own := G(f \<mapsto> q),
        rep := (rep (view s G))(q := 1)\<rparr>)"
      using proto_grant_waiter [OF G pend, of q] by simp_all
    from grant_ok [OF i G b this] InUseWait ct show ?thesis
      by (intro exI [of _ "granted q f ?y"]) (simp add: bind_outcome_assoc granted_def srv_work_def b)
  next
    case InUse
    let ?y' = "?y\<lparr>cq_busy := None, cq_forks := (cq_forks ?y)[f := Free]\<rparr>"
    have "proto_ok ((view s G)\<lparr>pend := cs_msgs (cq_cmd ?y), forks := (forks (view s G))[f := Free], own := G(f := None)\<rparr>)"
      using proto_free [OF G pend] InUse by simp
    moreover have "view (s\<lparr>ps_sync := ?y'\<rparr>) (G(f := None)) =
        (view s G)\<lparr>pend := cs_msgs (cq_cmd ?y), forks := (forks (view s G))[f := Free], own := G(f := None)\<rparr>"
      by (rule view_eqI) simp_all
    ultimately have "proto_ok (view (s\<lparr>ps_sync := ?y'\<rparr>) (G(f := None)))" by metis
    with i have "chan_inv (s\<lparr>ps_sync := ?y'\<rparr>)" by (auto simp: chan_inv_def caps_ok_def asked_def)
    with InUse ct show ?thesis by (intro exI [of _ ?y']) (simp add: srv_work_def b)
  next
    case Free
    with p(2) show ?thesis by simp
  qed
qed

lemma receive_ok:
  assumes i: "chan_inv s" and b: "cq_busy (ps_sync s) = None" and m: "cs_msgs (cq_cmd (ps_sync s)) = c # cs"
  shows "\<exists>y. channel_thread (ps_sync s) = Ret y \<and> chan_inv (s\<lparr>ps_sync := y\<rparr>) \<and> cq_wait y = cq_wait (ps_sync s) \<and> srv_work y < srv_work (ps_sync s)"
proof -
  let ?y = "ps_sync s"
  let ?y' = "?y\<lparr>cq_cmd := (cq_cmd ?y)\<lparr>cs_msgs := cs\<rparr>, cq_busy := Some c\<rparr>"
  have "view (s\<lparr>ps_sync := ?y'\<rparr>) G = view s G" for G by (rule view_eqI) (simp_all add: b m)
  then have "chan_inv (s\<lparr>ps_sync := ?y'\<rparr>)" using i by (auto simp: chan_inv_def caps_ok_def asked_def)
  then show ?thesis
    by (intro exI [of _ ?y']) (simp add: channel_thread_def spec_recv_def b m srv_work_def)
qed

lemma server_ok:
  assumes "chan_inv s"
  shows "channel_thread (ps_sync s) = Blocked \<and> srv_work (ps_sync s) = 0 \<or>
    (\<exists>y. channel_thread (ps_sync s) = Ret y \<and> chan_inv (s\<lparr>ps_sync := y\<rparr>) \<and> cq_wait y = cq_wait (ps_sync s) \<and> srv_work y < srv_work (ps_sync s))"
proof (cases "cq_busy (ps_sync s)")
  case None
  show ?thesis
  proof (cases "cs_msgs (cq_cmd (ps_sync s))")
    case Nil
    with None show ?thesis by (simp add: channel_thread_def spec_recv_def srv_work_def)
  qed (use None receive_ok [OF assms] in blast)
next
  case (Some c)
  then show ?thesis using acquire_ok [OF assms] release_ok [OF assms] by (cases c) blast+
qed

section \<open>The steps of a philosopher\<close>

text \<open>What a step of \<open>n\<close> does to the positions and to the work that is left to the server.\<close>

definition moved :: "nat \<Rightarrow> chan_sync phil_sys \<Rightarrow> chan_sync phil_sys \<Rightarrow> bool" where
  "moved n s s' \<longleftrightarrow> srv_work (ps_sync s') \<le> srv_work (ps_sync s) + 2 \<and> (ps_guard s' = Some NUM_PHIL \<longleftrightarrow> ps_guard s = Some NUM_PHIL) \<and>
     (if ph_wants n (ps_pc s n) \<noteq> None \<and> \<not> cq_wait (ps_sync s) n
      then ps_pc s' = ps_pc s \<and> cq_wait (ps_sync s') = (cq_wait (ps_sync s))(n := True)
      else (\<exists>d. ps_pc s' = (ps_pc s)(n := ph_next (ps_pc s n) d)) \<and> cq_wait (ps_sync s') = (cq_wait (ps_sync s))(n := False))"

lemma spec_send_forever: "\<not> spec_full c \<Longrightarrow> spec_send c m t = Ret (Ok (), c\<lparr>cs_msgs := cs_msgs c @ [m]\<rparr>)"
  by (simp add: spec_send_def)

lemma request_ok:
  assumes i: "chan_inv s" and n: "n < NUM_PHIL" and f: "ph_wants n (ps_pc s n) = Some f" and w: "\<not> cq_wait (ps_sync s) n"
    and full: "\<not> spec_full (cq_cmd (ps_sync s))"
  shows "\<exists>s'. take_call n f pc' s = Ret s' \<and> chan_inv s' \<and> moved n s s'"
proof -
  let ?y = "ps_sync s"
  let ?y' = "?y\<lparr>cq_cmd := (cq_cmd ?y)\<lparr>cs_msgs := cs_msgs (cq_cmd ?y) @ [Acquire f n]\<rparr>,
    cq_handles := (cq_handles ?y)(n := cq_handles ?y n + 1), cq_wait := (cq_wait ?y)(n := True)\<rparr>"
  obtain G where G: "proto_ok (view s G)" and h: "cq_handles ?y n = 1"
    using i n w by (auto simp: chan_inv_def asked_def)
  have "uses n f" "f \<notin> ph_holds n (ps_pc s n)"
    using f n phil_forks_less [OF n] by (cases "ps_pc s n"; auto simp: uses_def)+
  with proto_request [OF G, of n f] w n
  have "proto_ok ((view s G)\<lparr>req := (req (view s G))(n \<mapsto> f), pend := pend (view s G) @ [Acquire f n]\<rparr>)" by simp
  moreover have "view (s\<lparr>ps_sync := ?y'\<rparr>) G = (view s G)\<lparr>req := (req (view s G))(n \<mapsto> f), pend := pend (view s G) @ [Acquire f n]\<rparr>"
    using n f by (intro view_eqI) simp_all
  ultimately have "proto_ok (view (s\<lparr>ps_sync := ?y'\<rparr>) G)" by metis
  moreover have "cs_msgs (cq_reply ?y n) = []"
    using G w proto_reqD(1) [of "view s G" n] by (auto simp: proto_ok_def)
  ultimately have "chan_inv (s\<lparr>ps_sync := ?y'\<rparr>)" using i h f by (auto simp: chan_inv_def caps_ok_def asked_def)
  moreover have "take_call n f pc' s = Ret (s\<lparr>ps_sync := ?y'\<rparr>)"
    using w full by (simp add: take_call_def ChannelSync_take_def spec_send_forever)
  moreover have "moved n s (s\<lparr>ps_sync := ?y'\<rparr>)" using w f by (simp add: moved_def srv_work_def)
  ultimately show ?thesis by blast
qed

lemma reply_ok:
  assumes i: "chan_inv s" and n: "n < NUM_PHIL" and f: "ph_wants n (ps_pc s n) = Some f" and w: "cq_wait (ps_sync s) n"
    and m: "cs_msgs (cq_reply (ps_sync s) n) \<noteq> []" and pc': "pc' = ph_next (ps_pc s n) 0"
  shows "\<exists>s'. take_call n f pc' s = Ret s' \<and> chan_inv s' \<and> moved n s s'"
proof -
  let ?y = "ps_sync s"
  let ?y' = "?y\<lparr>cq_reply := (cq_reply ?y)(n := (cq_reply ?y n)\<lparr>cs_msgs := []\<rparr>), cq_wait := (cq_wait ?y)(n := False)\<rparr>"
  let ?s = "ph_goto n pc' (s\<lparr>ps_sync := ?y'\<rparr>)"
  obtain G where G: "proto_ok (view s G)" using i by (auto simp: chan_inv_def)
  have req: "req (view s G) n = Some f" using n w f by simp
  have "places (view s G) n f = 1" using G proto_reqD(2) [OF _ req] by (auto simp: proto_ok_def)
  with m have one: "length (cs_msgs (cq_reply ?y n)) = 1"
    by (cases "cs_msgs (cq_reply ?y n)") (auto simp: places_def split: if_splits)
  then obtain x where x: "cs_msgs (cq_reply ?y n) = [x]" by (cases "cs_msgs (cq_reply ?y n)") auto
  have pcs: "ph_holds n pc' = insert f (ph_holds n (ps_pc s n))" "\<not> ph_records pc'" "\<not> ph_records (ps_pc s n)"
    using f by (cases "ps_pc s n"; auto simp: pc' ph_next_def)+
  have "proto_ok ((view s G)\<lparr>req := (req (view s G))(n := None), rep := (rep (view s G))(n := 0),
      hold := (hold (view s G))(n := insert f (hold (view s G) n))\<rparr>)"
    using proto_reply [OF G req] one by simp
  moreover have "view ?s G = (view s G)\<lparr>req := (req (view s G))(n := None), rep := (rep (view s G))(n := 0),
      hold := (hold (view s G))(n := insert f (hold (view s G) n))\<rparr>"
    using n pcs by (intro view_eqI) (simp_all add: ph_goto_def)
  ultimately have "proto_ok (view ?s G)" by metis
  with i pcs n m have "chan_inv ?s" by (auto simp: chan_inv_def caps_ok_def asked_def ph_goto_def guard_inv_def)
  moreover have "take_call n f pc' s = Ret ?s"
    using w x by (simp add: take_call_def ChannelSync_take_def spec_recv_def)
  moreover have "moved n s ?s" using w f by (auto simp: moved_def srv_work_def ph_goto_def pc')
  ultimately show ?thesis by blast
qed

lemma give_back_ok:
  assumes i: "chan_inv s" and n: "n < NUM_PHIL" and f: "f \<in> ph_holds n (ps_pc s n)" and w: "ph_wants n (ps_pc s n) = None"
    and full: "\<not> spec_full (cq_cmd (ps_sync s))" and pc': "pc' = ph_next (ps_pc s n) 0"
    and pcs: "ph_holds n pc' = ph_holds n (ps_pc s n) - {f}" "\<not> ph_records pc'" "\<not> ph_records (ps_pc s n)" "ph_wants n pc' = None"
  shows "\<exists>y. ChannelSync_release n f (ps_sync s) = Ret y \<and> chan_inv (ph_goto n pc' (s\<lparr>ps_sync := y\<rparr>)) \<and> moved n s (ph_goto n pc' (s\<lparr>ps_sync := y\<rparr>))"
proof -
  let ?y = "ps_sync s"
  let ?y' = "?y\<lparr>cq_cmd := (cq_cmd ?y)\<lparr>cs_msgs := cs_msgs (cq_cmd ?y) @ [Release f]\<rparr>\<rparr>"
  let ?s = "ph_goto n pc' (s\<lparr>ps_sync := ?y'\<rparr>)"
  obtain G where G: "proto_ok (view s G)" using i by (auto simp: chan_inv_def)
  have nw: "\<not> cq_wait ?y n" using i n w by (auto simp: chan_inv_def)
  with proto_release [OF G, of n f] f n
  have "proto_ok ((view s G)\<lparr>hold := (hold (view s G))(n := hold (view s G) n - {f}), pend := pend (view s G) @ [Release f]\<rparr>)" by simp
  moreover have "view ?s G = (view s G)\<lparr>hold := (hold (view s G))(n := hold (view s G) n - {f}), pend := pend (view s G) @ [Release f]\<rparr>"
    using n pcs nw by (intro view_eqI) (simp_all add: ph_goto_def)
  ultimately have "proto_ok (view ?s G)" by metis
  with i pcs n nw have "chan_inv ?s" by (auto simp: chan_inv_def caps_ok_def asked_def ph_goto_def guard_inv_def)
  moreover have "ChannelSync_release n f ?y = Ret ?y'" using full by (simp add: ChannelSync_release_def spec_send_forever)
  moreover have "moved n s ?s" using w nw by (auto simp: moved_def srv_work_def ph_goto_def pc' fun_upd_idem)
  ultimately show ?thesis by blast
qed

lemma silent_ok:
  assumes i: "chan_inv s" and n: "n < NUM_PHIL" and w: "ph_wants n (ps_pc s n) = None" and pc': "pc' = ph_next (ps_pc s n) d"
    and holds: "ph_holds n pc' = ph_holds n (ps_pc s n)" and g: "guard_inv ((ps_pc s)(n := pc')) g"
      "g = Some NUM_PHIL \<longleftrightarrow> ps_guard s = Some NUM_PHIL" and st: "stats_ok st"
  shows "chan_inv (ph_goto n pc' (s\<lparr>ps_stats := st, ps_guard := g\<rparr>)) \<and> moved n s (ph_goto n pc' (s\<lparr>ps_stats := st, ps_guard := g\<rparr>))"
proof -
  let ?s = "ph_goto n pc' (s\<lparr>ps_stats := st, ps_guard := g\<rparr>)"
  have nw: "\<not> cq_wait (ps_sync s) n" using i n w by (auto simp: chan_inv_def)
  have "view ?s G = view s G" for G using n holds nw by (intro view_eqI) (simp_all add: ph_goto_def)
  with i nw g st have "chan_inv ?s" by (auto simp: chan_inv_def ph_goto_def)
  moreover have "moved n s ?s" using w nw g(2) by (auto simp: moved_def ph_goto_def pc' fun_upd_idem)
  ultimately show ?thesis by blast
qed

lemma thread_chan_ok:
  assumes i: "chan_inv s" and n: "n < NUM_PHIL"
  shows "(phil_thread_chan D u n s = Blocked \<and>
      (spec_full (cq_cmd (ps_sync s)) \<or> asked (ps_sync s) n \<or> ph_locks (ps_pc s n) \<and> ps_guard s \<noteq> None)) \<or>
    (\<exists>s'. phil_thread_chan D u n s = Ret s' \<and> chan_inv s' \<and> moved n s s')"
proof -
  have g: "guard_inv (ps_pc s) (ps_guard s)" and st: "stats_ok (ps_stats s)" using i by (auto simp: chan_inv_def)
  have take: "(take_call n f pc' s = Blocked \<and> (spec_full (cq_cmd (ps_sync s)) \<or> asked (ps_sync s) n)) \<or>
      (\<exists>s'. take_call n f pc' s = Ret s' \<and> chan_inv s' \<and> moved n s s')"
    if "ph_wants n (ps_pc s n) = Some f" and "pc' = ph_next (ps_pc s n) 0" for f pc'
  proof (cases "cq_wait (ps_sync s) n")
    case True
    then show ?thesis using reply_ok [OF i n that(1) True _ that(2)]
      by (cases "cs_msgs (cq_reply (ps_sync s) n)") (simp_all add: take_call_def ChannelSync_take_def spec_recv_def asked_def)
  next
    case False
    then show ?thesis using request_ok [OF i n that(1) False]
      by (cases "spec_full (cq_cmd (ps_sync s))") (simp_all add: take_call_def ChannelSync_take_def spec_send_def)
  qed
  have give: "(ChannelSync_release n f (ps_sync s) = Blocked \<and> spec_full (cq_cmd (ps_sync s))) \<or>
      (\<exists>y. ChannelSync_release n f (ps_sync s) = Ret y \<and> chan_inv (ph_goto n pc' (s\<lparr>ps_sync := y\<rparr>)) \<and> moved n s (ph_goto n pc' (s\<lparr>ps_sync := y\<rparr>)))"
    if "f \<in> ph_holds n (ps_pc s n)" "ph_wants n (ps_pc s n) = None" "pc' = ph_next (ps_pc s n) 0"
      "ph_holds n pc' = ph_holds n (ps_pc s n) - {f}" "\<not> ph_records pc'" "\<not> ph_records (ps_pc s n)" "ph_wants n pc' = None" for f pc'
    using give_back_ok [OF i n that(1,2) _ that(3-7)]
    by (cases "spec_full (cq_cmd (ps_sync s))") (simp_all add: ChannelSync_release_def spec_send_def)
  have own: "phil_thread chan_fork_sync D u n s = Blocked \<and> ph_locks (ps_pc s n) \<and> ps_guard s \<noteq> None \<or>
      (\<exists>s'. phil_thread chan_fork_sync D u n s = Ret s' \<and> chan_inv s' \<and> moved n s s')" if c: "\<not> ph_calls (ps_pc s n)"
  proof -
    have "ph_wants n (ps_pc s n) = None" using c by (cases "ps_pc s n") (auto simp: ph_calls_def)
    then show ?thesis using phil_thread_own [OF g st n c, of chan_fork_sync D u] silent_ok [OF i n _ refl] by blast
  qed
  note defs = phil_thread_chan_def phil_thread_def chan_fork_sync_def
  show ?thesis
  proof (cases "ps_pc s n")
    case Take0
    then show ?thesis using take [of "fst (phil_forks n)" Take1] by (auto simp: phil_thread_chan_def ph_next_def)
  next
    case Take1
    then show ?thesis using take [of "snd (phil_forks n)" Eat] by (auto simp: phil_thread_chan_def ph_next_def)
  next
    case Rel1
    have "{fst (phil_forks n)} = {fst (phil_forks n), snd (phil_forks n)} - {snd (phil_forks n)}"
      using phil_forks_less [OF n] by auto
    then show ?thesis using give [of "snd (phil_forks n)" Rel0] Rel1 by (auto simp: defs ph_next_def)
  next
    case Rel0
    then show ?thesis using give [of "fst (phil_forks n)" Think] by (auto simp: defs ph_next_def)
  qed (use own in \<open>auto simp: ph_calls_def phil_thread_chan_def\<close>)
qed

section \<open>Everybody can eat\<close>

lemma view_guard [simp]: "view (s\<lparr>ps_guard := g\<rparr>) G = view s G"
  by (rule view_eqI) simp_all

lemma main_ok: "chan_inv s \<Longrightarrow> main_loop s = Ret s' \<Longrightarrow> chan_inv s'"
  by (auto simp: main_loop_def chan_inv_def guard_inv_def split: option.splits if_splits)

lemma step_ok:
  assumes "pc_step D s s'" and "chan_inv s"
  shows "chan_inv s'"
  using assms
proof cases
  case (pc_phil n u)
  with thread_chan_ok [OF assms(2), of n D u] show ?thesis by auto
next
  case pc_server
  with server_ok [OF assms(2)] show ?thesis by (auto simp: server_step_def)
qed (use assms(2) main_ok in blast)

lemma chan_reach_inv: "(pc_step D)\<^sup>*\<^sup>* s s' \<Longrightarrow> chan_inv s \<Longrightarrow> chan_inv s'"
  by (induction rule: rtranclp_induct) (auto intro: step_ok)

text \<open>The work that is left until all philosophers are back at the start of the loop and have asked for nothing.\<close>

definition c_left :: "chan_sync phil_sys \<Rightarrow> nat \<Rightarrow> nat" where
  "c_left s n = (case ps_pc s n of
     Take0 \<Rightarrow> if cq_wait (ps_sync s) n then 12 else 0
   | Take1 \<Rightarrow> if cq_wait (ps_sync s) n then 10 else 11
   | pc \<Rightarrow> ph_left pc)"

lemma c_left_cong: "ps_pc s' = ps_pc s \<Longrightarrow> cq_wait (ps_sync s') = cq_wait (ps_sync s) \<Longrightarrow> c_left s' = c_left s"
  by (auto simp: c_left_def fun_eq_iff)

definition work_left :: "chan_sync phil_sys \<Rightarrow> nat" where
  "work_left s = 4 * (\<Sum>n<NUM_PHIL. c_left s n) + srv_work (ps_sync s) + (if ps_guard s = Some NUM_PHIL then 1 else 0)"

text \<open>A philosopher that has asked for its forks does not go back before it has eaten.\<close>

definition onwards :: "chan_sync phil_sys \<Rightarrow> chan_sync phil_sys \<Rightarrow> bool" where
  "onwards s s' \<longleftrightarrow> work_left s' < work_left s \<and> (\<forall>n<NUM_PHIL. 8 < c_left s n \<longrightarrow> 8 < c_left s' n \<or> ps_pc s' n = Eat)"

lemma moved_onwards:
  assumes "moved n s s'" and "n < NUM_PHIL" and "0 < c_left s n" and "ph_wants n (ps_pc s n) = None \<Longrightarrow> \<not> cq_wait (ps_sync s) n"
  shows "onwards s s'"
proof -
  have same: "c_left s' m = c_left s m" if "m \<noteq> n" for m
    using assms(1) that by (auto simp: c_left_def moved_def split: if_splits ph_pc.splits)
  have less: "c_left s' n < c_left s n"
    using assms by (cases "ps_pc s n") (auto simp: c_left_def moved_def ph_next_def split: if_splits)
  have "(\<Sum>k<NUM_PHIL. c_left s' k) < (\<Sum>k<NUM_PHIL. c_left s k)"
  proof (intro sum_strict_mono_ex1 ballI)
    show "c_left s' k \<le> c_left s k" for k using same [of k] less by (cases "k = n") simp_all
  qed (use less assms(2) in auto)
  then have "work_left s' < work_left s" using assms(1) by (auto simp: work_left_def moved_def)
  moreover have "8 < c_left s n \<longrightarrow> 8 < c_left s' n \<or> ps_pc s' n = Eat"
    using assms by (cases "ps_pc s n") (auto simp: c_left_def moved_def ph_next_def split: if_splits)
  ultimately show ?thesis unfolding onwards_def using same by metis
qed

lemma phil_onwards:
  assumes "chan_inv s" and "n < NUM_PHIL" and "0 < c_left s n" and "\<not> spec_full (cq_cmd (ps_sync s))"
    and "\<not> asked (ps_sync s) n" and "\<not> ph_locks (ps_pc s n) \<or> ps_guard s = None"
  shows "\<exists>s'. pc_step D s s' \<and> onwards s s'"
proof -
  obtain s' where s': "phil_thread_chan D 0 n s = Ret s'" "moved n s s'"
    using thread_chan_ok [OF assms(1,2), of D 0] assms(4-6) by metis
  have "ph_wants n (ps_pc s n) = None \<Longrightarrow> \<not> cq_wait (ps_sync s) n" using assms(1,2) by (auto simp: chan_inv_def)
  with s' moved_onwards [OF s'(2) assms(2,3)] pc_phil [OF assms(2)] show ?thesis by blast
qed

text \<open>
  With no command under way, a philosopher that waits is in the fork it has asked for, and whoever has this fork
  as the first one waits for a larger one.
\<close>

lemma waits_behind:
  assumes i: "chan_inv s" and idle: "srv_work (ps_sync s) = 0" and n: "n < NUM_PHIL" and a: "asked (ps_sync s) n"
    and f: "ph_wants n (ps_pc s n) = Some f"
  obtains p where "p < NUM_PHIL" "0 < c_left s p" "asked (ps_sync s) p \<Longrightarrow> ph_wants p (ps_pc s p) = Some (snd (phil_forks p)) \<and> f < snd (phil_forks p)"
proof -
  obtain G where G: "proto_ok (view s G)" using i by (auto simp: chan_inv_def)
  then have o: "proto_own (view s G)" and r: "proto_req (view s G)" by (auto simp: proto_ok_def)
  have pend: "pend (view s G) = []" using idle by (auto simp: srv_work_def split: if_splits)
  have req: "req (view s G) n = Some f" and rep: "rep (view s G) n = 0" using n a f by (auto simp: asked_def)
  have "uses n f" "places (view s G) n f = 1" using proto_reqD(2) [OF r req] by auto
  then have fl: "f < NUM_PHIL" and w: "forks (view s G) ! f = InUseWait n"
    using uses_less [of n f] pend rep by (auto simp: places_def simp del: view_simps split: if_splits)
  then obtain p where p: "own (view s G) f = Some p" using o by (auto simp: proto_own_def simp del: view_simps)
  then have u: "uses p f" using o by (simp add: proto_own_def)
  have "count_list (pend (view s G)) (Release f) = (if served (view s G) p f then 0 else 1)"
    using o p by (simp add: proto_own_def del: view_simps)
  then have s: "served (view s G) p f" using pend by (simp split: if_splits del: view_simps)
  have pl: "p < NUM_PHIL" using uses_less [OF u] by simp
  from s consider (holds) "f \<in> ph_holds p (ps_pc s p)" | (got) "cq_wait (ps_sync s) p" "cs_msgs (cq_reply (ps_sync s) p) \<noteq> []"
    "ph_wants p (ps_pc s p) = Some f" using pl by (auto simp: served_def split: if_splits)
  then show ?thesis
  proof cases
    case holds
    then have "0 < c_left s p" by (cases "ps_pc s p") (auto simp: c_left_def)
    moreover have "ph_wants p (ps_pc s p) = Some (snd (phil_forks p)) \<and> f < snd (phil_forks p)" if "asked (ps_sync s) p"
    proof -
      have "ph_wants p (ps_pc s p) \<noteq> None" using i pl that by (auto simp: chan_inv_def asked_def)
      with holds phil_forks_less [OF pl] show ?thesis by (cases "ps_pc s p") auto
    qed
    ultimately show ?thesis using that [OF pl] by blast
  next
    case got
    then have "0 < c_left s p" "\<not> asked (ps_sync s) p" by (cases "ps_pc s p"; auto simp: c_left_def asked_def)+
    then show ?thesis using that [OF pl] by blast
  qed
qed

lemma not_full: "chan_inv s \<Longrightarrow> srv_work (ps_sync s) = 0 \<Longrightarrow> \<not> spec_full (cq_cmd (ps_sync s))"
  by (auto simp: chan_inv_def caps_ok_def spec_full_def srv_work_def split: option.splits if_splits)

lemma someone_onwards:
  assumes i: "chan_inv s" and w: "0 < work_left s"
  shows "\<exists>s'. pc_step D s s' \<and> onwards s s'"
proof (cases "srv_work (ps_sync s) = 0")
  case False
  then obtain y where "channel_thread (ps_sync s) = Ret y" "cq_wait y = cq_wait (ps_sync s)" "srv_work y < srv_work (ps_sync s)"
    using server_ok [OF i] by auto
  moreover from this have "c_left (s\<lparr>ps_sync := y\<rparr>) = c_left s" by (intro c_left_cong) simp_all
  ultimately have "pc_step D s (s\<lparr>ps_sync := y\<rparr>)" "onwards s (s\<lparr>ps_sync := y\<rparr>)"
    by (auto intro!: pc_server simp: server_step_def onwards_def work_left_def)
  then show ?thesis by blast
next
  case idle: True
  note nf = not_full [OF i idle]
  show ?thesis
  proof (cases "ps_guard s")
    case (Some m)
    show ?thesis
    proof (cases "m = NUM_PHIL")
      case True
      moreover have "c_left (s\<lparr>ps_guard := None\<rparr>) = c_left s" by (intro c_left_cong) simp_all
      ultimately have "pc_step D s (s\<lparr>ps_guard := None\<rparr>)" "onwards s (s\<lparr>ps_guard := None\<rparr>)"
        using Some by (auto intro!: pc_main simp: main_loop_def onwards_def work_left_def)
      then show ?thesis by blast
    next
      case False
      then have m: "m < NUM_PHIL" "ph_records (ps_pc s m)"
        using i Some by (auto simp: chan_inv_def guard_inv_def le_less)
      then have "ph_wants m (ps_pc s m) = None" "0 < c_left s m" "\<not> ph_locks (ps_pc s m)"
        by (cases "ps_pc s m"; simp add: c_left_def)+
      moreover from this have "\<not> asked (ps_sync s) m" using i m(1) by (auto simp: chan_inv_def asked_def)
      ultimately show ?thesis using phil_onwards [OF i m(1) _ nf] by blast
    qed
  next
    case None
    show ?thesis
    proof (cases "\<exists>n<NUM_PHIL. 0 < c_left s n \<and> \<not> asked (ps_sync s) n")
      case True
      then show ?thesis using phil_onwards [OF i _ _ nf] None by blast
    next
      case False
      define W where "W = {n. n < NUM_PHIL \<and> 0 < c_left s n}"
      have "0 < sum (c_left s) {..<NUM_PHIL}" using w idle None unfolding work_left_def by (simp del: sum_eq_0_iff)
      then obtain m where "m < NUM_PHIL" "c_left s m \<noteq> 0" by (metis lessThan_iff less_irrefl sum.neutral)
      then have "finite W" "W \<noteq> {}" by (auto simp: W_def)
      then obtain n where n: "n \<in> W" "\<And>m. m \<in> W \<Longrightarrow> the (ph_wants m (ps_pc s m)) \<le> the (ph_wants n (ps_pc s n))"
        using Max_in [of "(\<lambda>n. the (ph_wants n (ps_pc s n))) ` W"] Max_ge [of "(\<lambda>n. the (ph_wants n (ps_pc s n))) ` W"] by fastforce
      have a: "n < NUM_PHIL" "asked (ps_sync s) n" using n(1) False by (auto simp: W_def)
      then obtain f where f: "ph_wants n (ps_pc s n) = Some f" using i by (auto simp: chan_inv_def asked_def)
      from waits_behind [OF i idle a f] obtain p where
        "p < NUM_PHIL" "0 < c_left s p" "asked (ps_sync s) p \<Longrightarrow> ph_wants p (ps_pc s p) = Some (snd (phil_forks p)) \<and> f < snd (phil_forks p)"
        by metis
      with False n(2) [of p] f show ?thesis by (auto simp: W_def)
    qed
  qed
qed

lemma chan_set_out:
  assumes i: "chan_inv s" and n: "n < NUM_PHIL" and left: "work_left s = 0"
  shows "\<exists>s'. pc_step D s s' \<and> 8 < c_left s' n"
proof -
  have "srv_work (ps_sync s) = 0" "c_left s n = 0" using left n by (auto simp: work_left_def)
  then have t: "ps_pc s n = Take0" "\<not> cq_wait (ps_sync s) n"
    by (cases "ps_pc s n"; auto simp: c_left_def split: if_splits)+
  then have "\<not> asked (ps_sync s) n" by (simp add: asked_def)
  with thread_chan_ok [OF i n, of D 0] not_full [OF i] \<open>srv_work (ps_sync s) = 0\<close> t
  obtain s' where s': "phil_thread_chan D 0 n s = Ret s'" "moved n s s'" by auto
  then have "8 < c_left s' n" using t by (auto simp: moved_def c_left_def)
  with pc_phil [OF n s'(1)] show ?thesis by blast
qed

interpretation chan_progress: dining_progress "pc_step D" chan_inv work_left "\<lambda>s n. 8 < c_left s n" "\<lambda>s n. ps_pc s n = Eat" for D
proof unfold_locales
  fix s s' n
  show "pc_step D s s' \<Longrightarrow> chan_inv s \<Longrightarrow> chan_inv s'" by (rule step_ok)
  show "chan_inv s \<Longrightarrow> 0 < work_left s \<Longrightarrow> \<exists>s'. pc_step D s s' \<and> work_left s' < work_left s \<and>
      (\<forall>n<NUM_PHIL. 8 < c_left s n \<longrightarrow> 8 < c_left s' n \<or> ps_pc s' n = Eat)"
    using someone_onwards by (simp add: onwards_def)
  show "chan_inv s \<Longrightarrow> n < NUM_PHIL \<Longrightarrow> 8 < c_left s n \<Longrightarrow> 0 < work_left s"
    using member_le_sum [of n "{..<NUM_PHIL}" "c_left s"] by (auto simp: work_left_def)
  show "chan_inv s \<Longrightarrow> n < NUM_PHIL \<Longrightarrow> work_left s = 0 \<Longrightarrow> \<exists>s'. pc_step D s s' \<and> 8 < c_left s' n" by (rule chan_set_out)
qed

section \<open>Properties\<close>

lemma chan_start_inv: "chan_inv (phil_start (get_channel_syncer b))"
proof -
  let ?s = "phil_start (get_channel_syncer b)"
  have "proto_ok (view ?s Map.empty)"
    by (auto simp: proto_ok_def proto_own_def served_def phil_start_def get_channel_syncer_def Let_def intro!: proto_reqI)
  then show ?thesis
    by (auto simp: chan_inv_def caps_ok_def asked_def guard_inv_def stats_ok_def Stats_new_def phil_start_def get_channel_syncer_def Let_def)
qed

text \<open>
  C18. Dining philosophers over channels, unbounded or with one slot. In every reachable state the server never panics
  and never stays in the middle of a command, no philosopher panics, no fork is in two hands, and every philosopher
  can still get to eat: no thread waits for ever on the channels.
\<close>

theorem philosophers_channel_dine:
  assumes "pc_reach use_bounded D s"
  shows "(server_step s = Blocked \<and> cq_busy (ps_sync s) = None \<or> (\<exists>s'. server_step s = Ret s')) \<and>
    (\<forall>n<NUM_PHIL. \<forall>u. phil_thread_chan D u n s = Blocked \<or> (\<exists>s'. phil_thread_chan D u n s = Ret s')) \<and>
    (\<forall>n<NUM_PHIL. \<forall>m<NUM_PHIL. n \<noteq> m \<longrightarrow> ph_holds n (ps_pc s n) \<inter> ph_holds m (ps_pc s m) = {}) \<and>
    (\<forall>n<NUM_PHIL. \<exists>s'. (pc_step D)\<^sup>*\<^sup>* s s' \<and> ps_pc s' n = Eat)"
proof (intro conjI allI impI)
  have i: "chan_inv s" using chan_reach_inv [OF assms chan_start_inv] .
  then obtain G where "proto_ok (view s G)" by (auto simp: chan_inv_def)
  then have own: "G f = Some p" if "p < NUM_PHIL" "f \<in> ph_holds p (ps_pc s p)" for p f
    using that by (auto simp: proto_ok_def proto_own_def served_def)
  show "server_step s = Blocked \<and> cq_busy (ps_sync s) = None \<or> (\<exists>s'. server_step s = Ret s')"
    using server_ok [OF i] by (auto simp: server_step_def srv_work_def split: if_splits)
  fix n assume n: "n < NUM_PHIL"
  show "phil_thread_chan D u n s = Blocked \<or> (\<exists>s'. phil_thread_chan D u n s = Ret s')" for u
    using thread_chan_ok [OF i n, of D u] by blast
  show "\<exists>s'. (pc_step D)\<^sup>*\<^sup>* s s' \<and> ps_pc s' n = Eat" by (rule chan_progress.everybody_eats [OF i n])
  show "ph_holds n (ps_pc s n) \<inter> ph_holds m (ps_pc s m) = {}" if "m < NUM_PHIL" "n \<noteq> m" for m
    using own [OF n] own [OF that(1)] that(2) by fastforce
qed

theorem philosophers_channel_dine_witness:
  "\<exists>s. pc_reach True demo_dur s \<and> ps_pc s 5 = Eat"
  using philosophers_channel_dine [of demo_dur True "phil_start (get_channel_syncer True)"] by (auto simp: NUM_PHIL_def)

end
