(* ===== verification/Philosophers_Cond.thy ===== *)
theory Philosophers_Cond
  imports Philosophers
begin

text \<open>
  \<open>samples/philosophers/src/condsync.rs\<close>: the forks are flags behind one \<open>sync::Mutex\<close>, with one \<open>sync::Condvar\<close>. A call is
  modelled step by step: the lock, the test of the loop with the guard, and the wait.
\<close>

section \<open>\<open>CondSync\<close>\<close>

text \<open>
  Where a philosopher is in a call: outside, with the guard of the mutex, asleep on the condition variable, or woken and
  about to lock the mutex again.
\<close>

datatype cond_pc = COut | CGuard | CSleep | CWoken

record cond_sync =
  cd_flags :: "bool list"
  cd_owner :: "tid option"
  cd_call :: "nat \<Rightarrow> cond_pc"

definition CondSync_new :: cond_sync where
  "CondSync_new = \<lparr>cd_flags = replicate NUM_PHIL False, cd_owner = None, cd_call = (\<lambda>_. COut)\<rparr>"

text \<open>\<open>lock()\<close>, also the one at the end of a wait; the drop of the guard; the start of a wait; and \<open>notify_all\<close>.\<close>

definition cd_lock :: "tid \<Rightarrow> cond_sync \<Rightarrow> cond_sync outcome" where
  "cd_lock n y = (if cd_owner y = None then Ret (y\<lparr>cd_owner := Some n, cd_call := (cd_call y)(n := CGuard)\<rparr>) else Blocked)"

definition cd_unlock :: "tid \<Rightarrow> cond_pc \<Rightarrow> cond_sync \<Rightarrow> cond_sync" where
  "cd_unlock n c y = y\<lparr>cd_owner := None, cd_call := (cd_call y)(n := c)\<rparr>"

definition cd_notify_all :: "cond_sync \<Rightarrow> cond_sync" where
  "cd_notify_all y = y\<lparr>cd_call := (\<lambda>m. if cd_call y m = CSleep then CWoken else cd_call y m)\<rparr>"

text \<open>The next step of a call; the answer says whether the call is over.\<close>

definition CondSync_take :: "tid \<Rightarrow> nat \<Rightarrow> cond_sync \<Rightarrow> (bool \<times> cond_sync) outcome" where
  "CondSync_take n index y = (case cd_call y n of
     COut \<Rightarrow> bind_outcome (cd_lock n y) (\<lambda>y. Ret (False, y))
   | CGuard \<Rightarrow>
       if length (cd_flags y) \<le> index then Panic ''index out of bounds''
       else if cd_flags y ! index then Ret (False, cd_unlock n CSleep y)
       else Ret (True, cd_unlock n COut (y\<lparr>cd_flags := (cd_flags y)[index := True]\<rparr>))
   | CSleep \<Rightarrow> Blocked
   | CWoken \<Rightarrow> bind_outcome (cd_lock n y) (\<lambda>y. Ret (False, y)))"

definition CondSync_release :: "tid \<Rightarrow> nat \<Rightarrow> cond_sync \<Rightarrow> (bool \<times> cond_sync) outcome" where
  "CondSync_release n index y = (case cd_call y n of
     CGuard \<Rightarrow>
       if length (cd_flags y) \<le> index then Panic ''index out of bounds''
       else Ret (True, cd_unlock n COut (cd_notify_all (y\<lparr>cd_flags := (cd_flags y)[index := False]\<rparr>)))
   | _ \<Rightarrow> bind_outcome (cd_lock n y) (\<lambda>y. Ret (False, y)))"

section \<open>The philosophers\<close>

definition cond_call :: "(bool \<times> cond_sync) outcome \<Rightarrow> nat \<Rightarrow> ph_pc \<Rightarrow> cond_sync phil_sys \<Rightarrow> cond_sync phil_sys outcome" where
  "cond_call r n pc s = bind_outcome r (\<lambda>(over, y). Ret (if over then ph_goto n pc (s\<lparr>ps_sync := y\<rparr>) else s\<lparr>ps_sync := y\<rparr>))"

text \<open>\<open>phil_thread\<close> with the steps of its calls; the steps without a call are those over any syncer.\<close>

definition phil_thread_cond :: "dur_api \<Rightarrow> i64 \<Rightarrow> nat \<Rightarrow> cond_sync phil_sys \<Rightarrow> cond_sync phil_sys outcome" where
  "phil_thread_cond D uptime n s = (case ps_pc s n of
     Take0 \<Rightarrow> cond_call (CondSync_take n (fst (phil_forks n)) (ps_sync s)) n Take1 s
   | Take1 \<Rightarrow> cond_call (CondSync_take n (snd (phil_forks n)) (ps_sync s)) n Eat s
   | Rel1 \<Rightarrow> cond_call (CondSync_release n (snd (phil_forks n)) (ps_sync s)) n Rel0 s
   | Rel0 \<Rightarrow> cond_call (CondSync_release n (fst (phil_forks n)) (ps_sync s)) n Think s
   | _ \<Rightarrow> phil_thread \<lparr>fs_take = (\<lambda>_ _ _. Blocked), fs_release = (\<lambda>_ _ _. Blocked)\<rparr> D uptime n s)"

inductive pd_step :: "dur_api \<Rightarrow> cond_sync phil_sys \<Rightarrow> cond_sync phil_sys \<Rightarrow> bool" for D where
  pd_phil: "n < NUM_PHIL \<Longrightarrow> phil_thread_cond D uptime n s = Ret s' \<Longrightarrow> pd_step D s s'"
| pd_main: "main_loop s = Ret s' \<Longrightarrow> pd_step D s s'"

text \<open>A wait may also end without a notification.\<close>

inductive pd_reach :: "dur_api \<Rightarrow> cond_sync phil_sys \<Rightarrow> bool" for D where
  pd_start: "pd_reach D (phil_start CondSync_new)"
| pd_next: "pd_reach D s \<Longrightarrow> pd_step D s s' \<Longrightarrow> pd_reach D s'"
| pd_spurious: "pd_reach D s \<Longrightarrow> cd_call (ps_sync s) n = CSleep \<Longrightarrow>
    pd_reach D (s\<lparr>ps_sync := (ps_sync s)\<lparr>cd_call := (cd_call (ps_sync s))(n := CWoken)\<rparr>\<rparr>)"

section \<open>The invariant\<close>

text \<open>
  The flags say which forks are in a hand, the owner of the mutex is in the middle of a call, and a philosopher that
  sleeps waits for a fork that is in a hand: no notification gets lost.
\<close>

definition cond_inv :: "cond_sync phil_sys \<Rightarrow> bool" where
  "cond_inv s \<longleftrightarrow> (let y = ps_sync s in
     length (cd_flags y) = NUM_PHIL \<and>
     (\<exists>H. held_by (ps_pc s) H \<and> (\<forall>f<NUM_PHIL. cd_flags y ! f \<longleftrightarrow> H f \<noteq> None)) \<and>
     (\<forall>n. cd_owner y = Some n \<longleftrightarrow> n < NUM_PHIL \<and> cd_call y n = CGuard) \<and>
     (\<forall>n<NUM_PHIL. cd_call y n \<noteq> COut \<longrightarrow> ph_calls (ps_pc s n)) \<and>
     (\<forall>n<NUM_PHIL. cd_call y n = CWoken \<longrightarrow> ph_wants n (ps_pc s n) \<noteq> None) \<and>
     (\<forall>n<NUM_PHIL. cd_call y n = CSleep \<longrightarrow> (\<exists>f. ph_wants n (ps_pc s n) = Some f \<and> cd_flags y ! f)) \<and>
     guard_inv (ps_pc s) (ps_guard s) \<and> stats_ok (ps_stats s))"

text \<open>What a step of \<open>n\<close> does to the calls and positions: it stays in its call, or ends it, or moves on without a call.\<close>

definition sub_left :: "cond_pc \<Rightarrow> nat" where
  "sub_left c = (case c of CSleep \<Rightarrow> 0 | CGuard \<Rightarrow> 1 | CWoken \<Rightarrow> 2 | COut \<Rightarrow> 2)"

definition cmoved :: "nat \<Rightarrow> cond_sync phil_sys \<Rightarrow> cond_sync phil_sys \<Rightarrow> bool" where
  "cmoved n s s' \<longleftrightarrow> (ps_guard s' = Some NUM_PHIL \<longleftrightarrow> ps_guard s = Some NUM_PHIL) \<and>
     (ps_pc s' = ps_pc s \<and> ph_calls (ps_pc s n) \<and> cd_call (ps_sync s') n \<noteq> COut \<and>
        (\<forall>m. m \<noteq> n \<longrightarrow> cd_call (ps_sync s') m = cd_call (ps_sync s) m) \<and> sub_left (cd_call (ps_sync s') n) < sub_left (cd_call (ps_sync s) n) \<or>
      (\<exists>d. ps_pc s' = (ps_pc s)(n := ph_next (ps_pc s n) d)) \<and> cd_call (ps_sync s') n = COut \<and>
        (ph_calls (ps_pc s n) \<longrightarrow> cd_call (ps_sync s) n = CGuard) \<and>
        (\<forall>m. m \<noteq> n \<longrightarrow> (cd_call (ps_sync s') m = COut \<longleftrightarrow> cd_call (ps_sync s) m = COut)))"

lemma cond_invD:
  assumes "cond_inv s"
  shows "length (cd_flags (ps_sync s)) = NUM_PHIL" "\<exists>H. held_by (ps_pc s) H \<and> (\<forall>f<NUM_PHIL. cd_flags (ps_sync s) ! f \<longleftrightarrow> H f \<noteq> None)"
    "cd_owner (ps_sync s) = Some n \<longleftrightarrow> n < NUM_PHIL \<and> cd_call (ps_sync s) n = CGuard"
    "n < NUM_PHIL \<Longrightarrow> cd_call (ps_sync s) n \<noteq> COut \<Longrightarrow> ph_calls (ps_pc s n)"
    "n < NUM_PHIL \<Longrightarrow> cd_call (ps_sync s) n = CWoken \<Longrightarrow> ph_wants n (ps_pc s n) \<noteq> None"
    "n < NUM_PHIL \<Longrightarrow> cd_call (ps_sync s) n = CSleep \<Longrightarrow> \<exists>f. ph_wants n (ps_pc s n) = Some f \<and> cd_flags (ps_sync s) ! f"
    "guard_inv (ps_pc s) (ps_guard s)" "stats_ok (ps_stats s)"
  using assms by (simp_all add: cond_inv_def Let_def)

lemma cd_lock_ok:
  assumes i: "cond_inv s" and n: "n < NUM_PHIL" and c: "cd_call (ps_sync s) n = COut \<or> cd_call (ps_sync s) n = CWoken"
    and pc: "ph_calls (ps_pc s n)"
  shows "cd_lock n (ps_sync s) = Blocked \<and> cd_owner (ps_sync s) \<noteq> None \<or>
    (\<exists>y. cd_lock n (ps_sync s) = Ret y \<and> cond_inv (s\<lparr>ps_sync := y\<rparr>) \<and> cmoved n s (s\<lparr>ps_sync := y\<rparr>))"
proof (cases "cd_owner (ps_sync s)")
  case None
  let ?y = "(ps_sync s)\<lparr>cd_owner := Some n, cd_call := (cd_call (ps_sync s))(n := CGuard)\<rparr>"
  have "cond_inv (s\<lparr>ps_sync := ?y\<rparr>)"
    using cond_invD(1,2,7,8) [OF i] cond_invD(3-6) [OF i] None n pc unfolding cond_inv_def Let_def by auto
  moreover have "cmoved n s (s\<lparr>ps_sync := ?y\<rparr>)" using c pc by (auto simp: cmoved_def sub_left_def)
  ultimately show ?thesis using None by (simp add: cd_lock_def)
qed (simp add: cd_lock_def)

lemma cd_owner_other: "cond_inv s \<Longrightarrow> n < NUM_PHIL \<Longrightarrow> cd_call (ps_sync s) n = CGuard \<Longrightarrow> m < NUM_PHIL \<Longrightarrow> cd_call (ps_sync s) m = CGuard \<Longrightarrow> m = n"
  using cond_invD(3) [of s n] cond_invD(3) [of s m] by auto

lemma take_get_ok:
  assumes i: "cond_inv s" and n: "n < NUM_PHIL" and f: "ph_wants n (ps_pc s n) = Some f" and c: "cd_call (ps_sync s) n = CGuard"
    and free: "\<not> cd_flags (ps_sync s) ! f" and pc': "pc' = ph_next (ps_pc s n) 0"
  defines "s' \<equiv> ph_goto n pc' (s\<lparr>ps_sync := cd_unlock n COut ((ps_sync s)\<lparr>cd_flags := (cd_flags (ps_sync s))[f := True]\<rparr>)\<rparr>)"
  shows "cond_inv s' \<and> cmoved n s s'"
proof -
  let ?y = "ps_sync s"
  have fl: "f < NUM_PHIL" using f phil_forks_less [OF n] by (cases "ps_pc s n") auto
  have pcs: "ph_holds n pc' = insert f (ph_holds n (ps_pc s n))" "\<not> ph_records pc'" "\<not> ph_records (ps_pc s n)" "ph_calls (ps_pc s n)"
    using f by (cases "ps_pc s n"; auto simp: pc' ph_next_def ph_calls_def)+
  obtain H where H: "held_by (ps_pc s) H" "\<forall>g<NUM_PHIL. cd_flags ?y ! g \<longleftrightarrow> H g \<noteq> None" using cond_invD(2) [OF i] by blast
  then have "H f = None" using free fl by auto
  from held_by_take [OF H(1) n this pcs(1)] H(2) cond_invD(1) [OF i] fl
  have "\<exists>H. held_by (ps_pc s') H \<and> (\<forall>g<NUM_PHIL. cd_flags (ps_sync s') ! g \<longleftrightarrow> H g \<noteq> None)"
    by (intro exI [of _ "H(f \<mapsto> n)"]) (auto simp: s'_def ph_goto_def cd_unlock_def nth_list_update)
  moreover have "guard_inv (ps_pc s') (ps_guard s')" using cond_invD(7) [OF i] pcs by (auto simp: s'_def ph_goto_def guard_inv_def)
  moreover have own: "cd_owner (ps_sync s') = Some m \<longleftrightarrow> m < NUM_PHIL \<and> cd_call (ps_sync s') m = CGuard" for m
    using cd_owner_other [OF i n c, of m] by (auto simp: s'_def ph_goto_def cd_unlock_def)
  moreover have "\<exists>g. ph_wants m (ps_pc s' m) = Some g \<and> cd_flags (ps_sync s') ! g" if "m < NUM_PHIL" "cd_call (ps_sync s') m = CSleep" for m
    using cond_invD(6) [OF i that(1)] that(2) cond_invD(1) [OF i] fl
    by (cases "m = n") (auto simp: s'_def ph_goto_def cd_unlock_def nth_list_update)
  ultimately have "cond_inv s'" using cond_invD(1,8) [OF i] cond_invD(4,5) [OF i] unfolding cond_inv_def Let_def
    by (auto simp: s'_def ph_goto_def cd_unlock_def)
  moreover have "cmoved n s s'" using c by (auto simp: cmoved_def s'_def ph_goto_def cd_unlock_def pc')
  ultimately show ?thesis by blast
qed

lemma take_sleep_ok:
  assumes i: "cond_inv s" and n: "n < NUM_PHIL" and f: "ph_wants n (ps_pc s n) = Some f" and c: "cd_call (ps_sync s) n = CGuard"
    and busy: "cd_flags (ps_sync s) ! f"
  shows "cond_inv (s\<lparr>ps_sync := cd_unlock n CSleep (ps_sync s)\<rparr>) \<and> cmoved n s (s\<lparr>ps_sync := cd_unlock n CSleep (ps_sync s)\<rparr>)"
proof -
  let ?s = "s\<lparr>ps_sync := cd_unlock n CSleep (ps_sync s)\<rparr>"
  have pc: "ph_calls (ps_pc s n)" using f by (cases "ps_pc s n") (auto simp: ph_calls_def)
  have "cd_owner (ps_sync ?s) = Some m \<longleftrightarrow> m < NUM_PHIL \<and> cd_call (ps_sync ?s) m = CGuard" for m
    using cd_owner_other [OF i n c, of m] by (auto simp: cd_unlock_def)
  then have "cond_inv ?s"
    using cond_invD(1,2,7,8) [OF i] cond_invD(4-6) [OF i] f busy pc unfolding cond_inv_def Let_def by (auto simp: cd_unlock_def)
  moreover have "cmoved n s ?s" using c pc by (auto simp: cd_unlock_def cmoved_def sub_left_def)
  ultimately show ?thesis by blast
qed

lemma give_ok:
  assumes i: "cond_inv s" and n: "n < NUM_PHIL" and f: "f \<in> ph_holds n (ps_pc s n)" and c: "cd_call (ps_sync s) n = CGuard"
    and pc': "pc' = ph_next (ps_pc s n) 0"
    and pcs: "ph_holds n pc' = ph_holds n (ps_pc s n) - {f}" "\<not> ph_records pc'" "\<not> ph_records (ps_pc s n)" "ph_calls (ps_pc s n)"
  defines "s' \<equiv> ph_goto n pc' (s\<lparr>ps_sync := cd_unlock n COut (cd_notify_all ((ps_sync s)\<lparr>cd_flags := (cd_flags (ps_sync s))[f := False]\<rparr>))\<rparr>)"
  shows "cond_inv s' \<and> cmoved n s s'"
proof -
  let ?y = "ps_sync s"
  have fl: "f < NUM_PHIL" by (rule ph_holds_less [OF n f])
  obtain H where H: "held_by (ps_pc s) H" "\<forall>g<NUM_PHIL. cd_flags ?y ! g \<longleftrightarrow> H g \<noteq> None" using cond_invD(2) [OF i] by blast
  from held_by_release [OF H(1) n fl f pcs(1)] H(2) cond_invD(1) [OF i] fl
  have "\<exists>H. held_by (ps_pc s') H \<and> (\<forall>g<NUM_PHIL. cd_flags (ps_sync s') ! g \<longleftrightarrow> H g \<noteq> None)"
    by (intro exI [of _ "H(f := None)"]) (auto simp: s'_def ph_goto_def cd_unlock_def cd_notify_all_def nth_list_update)
  moreover have "guard_inv (ps_pc s') (ps_guard s')" using cond_invD(7) [OF i] pcs by (auto simp: s'_def ph_goto_def guard_inv_def)
  moreover have own: "cd_owner (ps_sync s') = Some m \<longleftrightarrow> m < NUM_PHIL \<and> cd_call (ps_sync s') m = CGuard" for m
    using cd_owner_other [OF i n c, of m] by (auto simp: s'_def ph_goto_def cd_unlock_def cd_notify_all_def)
  moreover have "ph_wants m (ps_pc s' m) \<noteq> None" if "m < NUM_PHIL" "cd_call (ps_sync s') m = CWoken" for m
    using cond_invD(5,6) [OF i that(1)] that(2)
    by (cases "m = n") (auto simp: s'_def ph_goto_def cd_unlock_def cd_notify_all_def split: if_splits)
  ultimately have "cond_inv s'" using cond_invD(1,8) [OF i] cond_invD(4) [OF i] unfolding cond_inv_def Let_def
    by (auto simp: s'_def ph_goto_def cd_unlock_def cd_notify_all_def)
  moreover have "cmoved n s s'" using c by (auto simp: cmoved_def s'_def ph_goto_def cd_unlock_def cd_notify_all_def pc')
  ultimately show ?thesis by blast
qed

lemma no_call_ok:
  assumes i: "cond_inv s" and n: "n < NUM_PHIL" and pc: "\<not> ph_calls (ps_pc s n)" and pc': "pc' = ph_next (ps_pc s n) d"
    and holds: "ph_holds n pc' = ph_holds n (ps_pc s n)" and g: "guard_inv ((ps_pc s)(n := pc')) g"
      "g = Some NUM_PHIL \<longleftrightarrow> ps_guard s = Some NUM_PHIL" and st: "stats_ok st"
  shows "cond_inv (ph_goto n pc' (s\<lparr>ps_stats := st, ps_guard := g\<rparr>)) \<and> cmoved n s (ph_goto n pc' (s\<lparr>ps_stats := st, ps_guard := g\<rparr>))"
proof -
  let ?s = "ph_goto n pc' (s\<lparr>ps_stats := st, ps_guard := g\<rparr>)"
  have out: "cd_call (ps_sync s) n = COut" using cond_invD(4) [OF i n] pc by blast
  obtain H where "held_by (ps_pc s) H" "\<forall>g<NUM_PHIL. cd_flags (ps_sync s) ! g \<longleftrightarrow> H g \<noteq> None" using cond_invD(2) [OF i] by blast
  with held_by_same [of "ps_pc s" H n pc'] holds have "\<exists>H. held_by (ps_pc ?s) H \<and> (\<forall>g<NUM_PHIL. cd_flags (ps_sync ?s) ! g \<longleftrightarrow> H g \<noteq> None)"
    by (auto simp: ph_goto_def)
  then have "cond_inv ?s" using cond_invD(1) [OF i] cond_invD(3-6) [OF i] g(1) st out unfolding cond_inv_def Let_def
    by (auto simp: ph_goto_def)
  moreover have "cmoved n s ?s" using out g(2) pc by (auto simp: cmoved_def ph_goto_def pc')
  ultimately show ?thesis by blast
qed

lemma thread_cond_ok:
  assumes i: "cond_inv s" and n: "n < NUM_PHIL"
  shows "(phil_thread_cond D u n s = Blocked \<and>
      (cd_call (ps_sync s) n = CSleep \<or> ph_calls (ps_pc s n) \<and> cd_call (ps_sync s) n \<noteq> CGuard \<and> cd_owner (ps_sync s) \<noteq> None \<or>
       ph_locks (ps_pc s n) \<and> ps_guard s \<noteq> None)) \<or>
    (\<exists>s'. phil_thread_cond D u n s = Ret s' \<and> cond_inv s' \<and> cmoved n s s')"
proof -
  let ?y = "ps_sync s"
  have g: "guard_inv (ps_pc s) (ps_guard s)" and st: "stats_ok (ps_stats s)" using cond_invD(7,8) [OF i] by auto
  have len: "length (cd_flags ?y) = NUM_PHIL" using cond_invD(1) [OF i] .
  have locks: "cond_call (bind_outcome (cd_lock n ?y) (\<lambda>y. Ret (False, y))) n pc' s = Blocked \<and> cd_owner ?y \<noteq> None \<or>
      (\<exists>s'. cond_call (bind_outcome (cd_lock n ?y) (\<lambda>y. Ret (False, y))) n pc' s = Ret s' \<and> cond_inv s' \<and> cmoved n s s')"
    if "ph_calls (ps_pc s n)" "cd_call ?y n = COut \<or> cd_call ?y n = CWoken" for pc'
    using cd_lock_ok [OF i n that(2,1)] by (auto simp: cond_call_def)
  have take: "cond_call (CondSync_take n f ?y) n pc' s = Blocked \<and> (cd_call ?y n = CSleep \<or> cd_call ?y n \<noteq> CGuard \<and> cd_owner ?y \<noteq> None) \<or>
      (\<exists>s'. cond_call (CondSync_take n f ?y) n pc' s = Ret s' \<and> cond_inv s' \<and> cmoved n s s')"
    if f: "ph_wants n (ps_pc s n) = Some f" and pc': "pc' = ph_next (ps_pc s n) 0" for f pc'
  proof -
    have "f < NUM_PHIL" using f phil_forks_less [OF n] by (cases "ps_pc s n") auto
    moreover have "ph_calls (ps_pc s n)" using f by (cases "ps_pc s n") (auto simp: ph_calls_def)
    ultimately show ?thesis
      using locks [of pc'] take_sleep_ok [OF i n f] take_get_ok [OF i n f _ _ pc'] len
      by (cases "cd_call ?y n") (auto simp: CondSync_take_def cond_call_def)
  qed
  have give: "cond_call (CondSync_release n f ?y) n pc' s = Blocked \<and> cd_call ?y n \<noteq> CGuard \<and> cd_owner ?y \<noteq> None \<or>
      (\<exists>s'. cond_call (CondSync_release n f ?y) n pc' s = Ret s' \<and> cond_inv s' \<and> cmoved n s s')"
    if f: "f \<in> ph_holds n (ps_pc s n)" and pc': "pc' = ph_next (ps_pc s n) 0" and w: "ph_wants n (ps_pc s n) = None"
      and pcs: "ph_holds n pc' = ph_holds n (ps_pc s n) - {f}" "\<not> ph_records pc'" "\<not> ph_records (ps_pc s n)" "ph_calls (ps_pc s n)" for f pc'
  proof -
    have "cd_call ?y n \<noteq> CSleep" "cd_call ?y n \<noteq> CWoken" using cond_invD(5,6) [OF i n] w by auto
    then show ?thesis
      using locks [of pc'] give_ok [OF i n f _ pc' pcs] len ph_holds_less [OF n f] pcs(4)
      by (cases "cd_call ?y n") (auto simp: CondSync_release_def cond_call_def)
  qed
  have own: "phil_thread S D u n s = Blocked \<and> ph_locks (ps_pc s n) \<and> ps_guard s \<noteq> None \<or>
      (\<exists>s'. phil_thread S D u n s = Ret s' \<and> cond_inv s' \<and> cmoved n s s')" if c: "\<not> ph_calls (ps_pc s n)" for S
    using phil_thread_own [OF g st n c, of S D u] no_call_ok [OF i n c refl] by blast
  show ?thesis
  proof (cases "ps_pc s n")
    case Take0
    then show ?thesis using take [of "fst (phil_forks n)" Take1] by (auto simp: phil_thread_cond_def ph_next_def ph_calls_def)
  next
    case Take1
    then show ?thesis using take [of "snd (phil_forks n)" Eat] by (auto simp: phil_thread_cond_def ph_next_def ph_calls_def)
  next
    case Rel1
    have "{fst (phil_forks n)} = {fst (phil_forks n), snd (phil_forks n)} - {snd (phil_forks n)}"
      using phil_forks_less [OF n] by auto
    then show ?thesis using give [of "snd (phil_forks n)" Rel0] Rel1 by (auto simp: phil_thread_cond_def ph_next_def ph_calls_def)
  next
    case Rel0
    then show ?thesis using give [of "fst (phil_forks n)" Think] by (auto simp: phil_thread_cond_def ph_next_def ph_calls_def)
  qed (use own in \<open>auto simp: ph_calls_def phil_thread_cond_def\<close>)
qed

section \<open>Everybody can eat\<close>

lemma cond_main_ok: "cond_inv s \<Longrightarrow> main_loop s = Ret s' \<Longrightarrow> cond_inv s'"
  by (auto simp: main_loop_def cond_inv_def Let_def guard_inv_def split: option.splits if_splits)

lemma cond_step_ok:
  assumes "pd_step D s s'" and "cond_inv s"
  shows "cond_inv s'"
  using assms(1)
proof cases
  case (pd_phil n u)
  with thread_cond_ok [OF assms(2), of n D u] show ?thesis by auto
qed (use assms(2) cond_main_ok in blast)

lemma cond_start_inv: "cond_inv (phil_start CondSync_new)"
  by (auto simp: cond_inv_def Let_def phil_start_def CondSync_new_def held_by_def guard_inv_def stats_ok_def Stats_new_def intro!: exI [of _ Map.empty])

lemma cond_reach_inv: "pd_reach D s \<Longrightarrow> cond_inv s"
proof (induction rule: pd_reach.induct)
  case (pd_spurious s n)
  then show ?case unfolding cond_inv_def Let_def by auto
qed (auto intro: cond_start_inv cond_step_ok)

definition at_rest :: "cond_sync phil_sys \<Rightarrow> nat \<Rightarrow> bool" where
  "at_rest s n \<longleftrightarrow> ps_pc s n = Take0 \<and> cd_call (ps_sync s) n = COut"

definition cd_stage :: "cond_sync phil_sys \<Rightarrow> nat \<Rightarrow> nat" where
  "cd_stage s n = (if at_rest s n then 0 else if ps_pc s n = Take0 then 10 else ph_left (ps_pc s n))"

definition cd_sub :: "cond_sync phil_sys \<Rightarrow> nat \<Rightarrow> nat" where
  "cd_sub s n = (if at_rest s n then 0 else sub_left (cd_call (ps_sync s) n))"

definition cd_left :: "cond_sync phil_sys \<Rightarrow> nat" where
  "cd_left s = 20 * (\<Sum>n<NUM_PHIL. cd_stage s n) + (\<Sum>n<NUM_PHIL. cd_sub s n) + (if ps_guard s = Some NUM_PHIL then 1 else 0)"

definition cd_onwards :: "cond_sync phil_sys \<Rightarrow> cond_sync phil_sys \<Rightarrow> bool" where
  "cd_onwards s s' \<longleftrightarrow> cd_left s' < cd_left s \<and> (\<forall>n<NUM_PHIL. 8 < cd_stage s n \<longrightarrow> 8 < cd_stage s' n \<or> ps_pc s' n = Eat)"

lemma cd_stage_pos: "\<not> at_rest s n \<Longrightarrow> 0 < cd_stage s n"
  by (cases "ps_pc s n") (auto simp: cd_stage_def)

lemma sum_less_one:
  fixes f g :: "nat \<Rightarrow> nat"
  assumes "n < k" and "f n < g n" and "\<And>m. m \<noteq> n \<Longrightarrow> f m = g m"
  shows "(\<Sum>m<k. f m) < (\<Sum>m<k. g m)"
proof (intro sum_strict_mono_ex1 ballI)
  show "f m \<le> g m" for m using assms(2,3) by (cases "m = n") simp_all
qed (use assms in auto)

lemma cd_sub_sum: "(\<Sum>n<NUM_PHIL. cd_sub s n) \<le> 12"
proof -
  have "(\<Sum>n<NUM_PHIL. cd_sub s n) \<le> (\<Sum>n<NUM_PHIL. 2)"
    by (intro sum_mono) (auto simp: cd_sub_def sub_left_def split: cond_pc.splits)
  then show ?thesis by (simp add: NUM_PHIL_def)
qed

lemma cmoved_onwards:
  assumes m: "cmoved n s s'" and n: "n < NUM_PHIL" and r: "\<not> at_rest s n"
  shows "cd_onwards s s'"
proof -
  have g: "ps_guard s' = Some NUM_PHIL \<longleftrightarrow> ps_guard s = Some NUM_PHIL" using m by (auto simp: cmoved_def)
  consider (stay) "ps_pc s' = ps_pc s" "cd_call (ps_sync s') n \<noteq> COut" "\<forall>m. m \<noteq> n \<longrightarrow> cd_call (ps_sync s') m = cd_call (ps_sync s) m"
      "sub_left (cd_call (ps_sync s') n) < sub_left (cd_call (ps_sync s) n)"
    | (go) d where "ps_pc s' = (ps_pc s)(n := ph_next (ps_pc s n) d)" "cd_call (ps_sync s') n = COut"
      "\<forall>m. m \<noteq> n \<longrightarrow> (cd_call (ps_sync s') m = COut \<longleftrightarrow> cd_call (ps_sync s) m = COut)"
    using m by (auto simp: cmoved_def)
  then show ?thesis
  proof cases
    case stay
    have rest: "at_rest s' k = at_rest s k" for k
      using stay r by (cases "k = n") (auto simp: at_rest_def)
    have "cd_stage s' = cd_stage s" using rest stay(1) by (auto simp: cd_stage_def fun_eq_iff)
    moreover have "(\<Sum>k<NUM_PHIL. cd_sub s' k) < (\<Sum>k<NUM_PHIL. cd_sub s k)"
      by (rule sum_less_one [OF n]) (use stay r rest in \<open>auto simp: cd_sub_def\<close>)
    ultimately show ?thesis using g by (simp add: cd_onwards_def cd_left_def)
  next
    case go
    have less: "cd_stage s' n < cd_stage s n" "8 < cd_stage s n \<longrightarrow> 8 < cd_stage s' n \<or> ps_pc s' n = Eat"
      using go(1,2) r by (cases "ps_pc s n"; auto simp: cd_stage_def at_rest_def ph_next_def)+
    have same: "cd_stage s' k = cd_stage s k" if "k \<noteq> n" for k using go that by (simp add: cd_stage_def at_rest_def)
    have "(\<Sum>k<NUM_PHIL. cd_stage s' k) < (\<Sum>k<NUM_PHIL. cd_stage s k)" by (rule sum_less_one [OF n, where f = "cd_stage s'"]) (use less(1) same in auto)
    then have "cd_left s' < cd_left s" using cd_sub_sum [of s'] g by (simp add: cd_left_def)
    with less(2) same show ?thesis unfolding cd_onwards_def by metis
  qed
qed

lemma cond_onwards:
  assumes "cond_inv s" and "n < NUM_PHIL" and "\<not> at_rest s n" and "cd_call (ps_sync s) n \<noteq> CSleep"
    and "cd_call (ps_sync s) n = CGuard \<or> cd_owner (ps_sync s) = None" and "\<not> ph_locks (ps_pc s n) \<or> ps_guard s = None"
  shows "\<exists>s'. pd_step D s s' \<and> cd_onwards s s'"
proof -
  obtain s' where "phil_thread_cond D 0 n s = Ret s'" "cmoved n s s'"
    using thread_cond_ok [OF assms(1,2), of D 0] assms(4-6) by metis
  with cmoved_onwards [OF _ assms(2,3)] pd_phil [OF assms(2)] show ?thesis by blast
qed

text \<open>A fork that somebody waits for is in a hand, and whoever has it as the first one waits for a larger one.\<close>

lemma sleeps_behind:
  assumes i: "cond_inv s" and n: "n < NUM_PHIL" and c: "cd_call (ps_sync s) n = CSleep" and f: "ph_wants n (ps_pc s n) = Some f"
  obtains p where "p < NUM_PHIL" "\<not> at_rest s p" "cd_call (ps_sync s) p = CSleep \<Longrightarrow> f < the (ph_wants p (ps_pc s p))"
proof -
  have fl: "f < NUM_PHIL" using f phil_forks_less [OF n] by (cases "ps_pc s n") auto
  have "cd_flags (ps_sync s) ! f" using cond_invD(6) [OF i n c] f by auto
  then obtain p where p: "p < NUM_PHIL" "f \<in> ph_holds p (ps_pc s p)" using cond_invD(2) [OF i] fl by (auto simp: held_by_def)
  moreover from p(2) have "\<not> at_rest s p" by (auto simp: at_rest_def)
  moreover have "f < the (ph_wants p (ps_pc s p))" if "cd_call (ps_sync s) p = CSleep"
    using cond_invD(6) [OF i p(1) that] p phil_forks_less [OF p(1)] by (cases "ps_pc s p") auto
  ultimately show ?thesis using that by blast
qed

lemma cond_someone_onwards:
  assumes i: "cond_inv s" and w: "0 < cd_left s"
  shows "\<exists>s'. pd_step D s s' \<and> cd_onwards s s'"
proof (cases "cd_owner (ps_sync s)")
  case (Some m)
  then have m: "m < NUM_PHIL" "cd_call (ps_sync s) m = CGuard" using cond_invD(3) [OF i, of m] by auto
  then have "ph_calls (ps_pc s m)" using cond_invD(4) [OF i] by auto
  then show ?thesis using cond_onwards [OF i m(1)] m(2) by (auto simp: at_rest_def ph_calls_def)
next
  case free: None
  show ?thesis
  proof (cases "ps_guard s")
    case (Some m)
    show ?thesis
    proof (cases "m = NUM_PHIL")
      case True
      moreover have "cd_stage (s\<lparr>ps_guard := None\<rparr>) = cd_stage s" "cd_sub (s\<lparr>ps_guard := None\<rparr>) = cd_sub s"
        by (auto simp: cd_stage_def cd_sub_def at_rest_def fun_eq_iff)
      ultimately have "pd_step D s (s\<lparr>ps_guard := None\<rparr>)" "cd_onwards s (s\<lparr>ps_guard := None\<rparr>)"
        using Some by (auto intro!: pd_main simp: main_loop_def cd_onwards_def cd_left_def)
      then show ?thesis by blast
    next
      case False
      then have m: "m < NUM_PHIL" "ph_records (ps_pc s m)"
        using cond_invD(7) [OF i] Some by (auto simp: guard_inv_def le_less)
      then have pc: "\<not> ph_calls (ps_pc s m)" "\<not> at_rest s m" "\<not> ph_locks (ps_pc s m)"
        by (cases "ps_pc s m"; simp add: ph_calls_def at_rest_def)+
      then have "cd_call (ps_sync s) m = COut" using cond_invD(4) [OF i m(1)] by blast
      then show ?thesis using cond_onwards [OF i m(1) pc(2)] free pc(3) by simp
    qed
  next
    case None
    define W where "W = {n. n < NUM_PHIL \<and> \<not> at_rest s n}"
    show ?thesis
    proof (cases "\<forall>n \<in> W. cd_call (ps_sync s) n = CSleep")
      case False
      then show ?thesis using cond_onwards [OF i] free None by (auto simp: W_def)
    next
      case True
      have "W \<noteq> {}"
      proof
        assume "W = {}"
        then have "cd_stage s n = 0 \<and> cd_sub s n = 0" if "n < NUM_PHIL" for n using that by (auto simp: W_def cd_stage_def cd_sub_def)
        with w None show False by (simp add: cd_left_def)
      qed
      moreover have "finite W" by (simp add: W_def)
      ultimately obtain n where n: "n \<in> W" "\<And>m. m \<in> W \<Longrightarrow> the (ph_wants m (ps_pc s m)) \<le> the (ph_wants n (ps_pc s n))"
        using Max_in [of "(\<lambda>n. the (ph_wants n (ps_pc s n))) ` W"] Max_ge [of "(\<lambda>n. the (ph_wants n (ps_pc s n))) ` W"] by fastforce
      then have c: "n < NUM_PHIL" "cd_call (ps_sync s) n = CSleep" using True by (auto simp: W_def)
      then obtain f where f: "ph_wants n (ps_pc s n) = Some f" using cond_invD(6) [OF i] by blast
      from sleeps_behind [OF i c f] obtain p where
        "p < NUM_PHIL" "\<not> at_rest s p" "cd_call (ps_sync s) p = CSleep \<Longrightarrow> f < the (ph_wants p (ps_pc s p))" by metis
      with True n(2) [of p] f show ?thesis by (auto simp: W_def)
    qed
  qed
qed

lemma cond_set_out:
  assumes i: "cond_inv s" and n: "n < NUM_PHIL" and left: "cd_left s = 0"
  shows "\<exists>s'. pd_step D s s' \<and> 8 < cd_stage s' n"
proof -
  have rest: "at_rest s m" if "m < NUM_PHIL" for m
    using left that cd_stage_pos [of s m] by (cases "at_rest s m") (auto simp: cd_left_def)
  then have "cd_call (ps_sync s) m \<noteq> CGuard" if "m < NUM_PHIL" for m using that by (auto simp: at_rest_def)
  then have "cd_owner (ps_sync s) = None" using cond_invD(3) [OF i] by (meson option.exhaust)
  with thread_cond_ok [OF i n, of D 0] rest [OF n]
  obtain s' where s': "phil_thread_cond D 0 n s = Ret s'" "cmoved n s s'" by (auto simp: at_rest_def)
  then have "8 < cd_stage s' n" using rest [OF n] by (auto simp: cmoved_def cd_stage_def at_rest_def ph_calls_def)
  with pd_phil [OF n s'(1)] show ?thesis by blast
qed

interpretation cond_progress: dining_progress "pd_step D" cond_inv cd_left "\<lambda>s n. 8 < cd_stage s n" "\<lambda>s n. ps_pc s n = Eat" for D
proof unfold_locales
  fix s s' n
  show "pd_step D s s' \<Longrightarrow> cond_inv s \<Longrightarrow> cond_inv s'" by (rule cond_step_ok)
  show "cond_inv s \<Longrightarrow> 0 < cd_left s \<Longrightarrow> \<exists>s'. pd_step D s s' \<and> cd_left s' < cd_left s \<and>
      (\<forall>n<NUM_PHIL. 8 < cd_stage s n \<longrightarrow> 8 < cd_stage s' n \<or> ps_pc s' n = Eat)"
    using cond_someone_onwards by (simp add: cd_onwards_def)
  show "cond_inv s \<Longrightarrow> n < NUM_PHIL \<Longrightarrow> 8 < cd_stage s n \<Longrightarrow> 0 < cd_left s"
    using member_le_sum [of n "{..<NUM_PHIL}" "cd_stage s"] by (auto simp: cd_left_def)
  show "cond_inv s \<Longrightarrow> n < NUM_PHIL \<Longrightarrow> cd_left s = 0 \<Longrightarrow> \<exists>s'. pd_step D s s' \<and> 8 < cd_stage s' n" by (rule cond_set_out)
qed

section \<open>Properties\<close>

text \<open>
  C22. Dining philosophers over a mutex and a condition variable. In every state that is reachable, with waits that may end
  without a notification, no philosopher panics, no fork is in two hands, whoever sleeps waits for a fork that is in a
  hand, and every philosopher can still get to eat without any wait ending by itself: no notification is lost.
\<close>

theorem philosophers_cond_dine:
  assumes "pd_reach D s"
  shows "(\<forall>n<NUM_PHIL. \<forall>u. phil_thread_cond D u n s = Blocked \<or> (\<exists>s'. phil_thread_cond D u n s = Ret s')) \<and>
    (\<forall>n<NUM_PHIL. \<forall>m<NUM_PHIL. n \<noteq> m \<longrightarrow> ph_holds n (ps_pc s n) \<inter> ph_holds m (ps_pc s m) = {}) \<and>
    (\<forall>n<NUM_PHIL. cd_call (ps_sync s) n = CSleep \<longrightarrow>
       (\<exists>f m. ph_wants n (ps_pc s n) = Some f \<and> m < NUM_PHIL \<and> m \<noteq> n \<and> f \<in> ph_holds m (ps_pc s m))) \<and>
    (\<forall>n<NUM_PHIL. \<exists>s'. (pd_step D)\<^sup>*\<^sup>* s s' \<and> ps_pc s' n = Eat)"
proof (intro conjI allI impI)
  have i: "cond_inv s" by (rule cond_reach_inv [OF assms])
  then obtain H where H: "held_by (ps_pc s) H" "\<forall>f<NUM_PHIL. cd_flags (ps_sync s) ! f \<longleftrightarrow> H f \<noteq> None" using cond_invD(2) by blast
  then have own: "H f = Some p" if "p < NUM_PHIL" "f \<in> ph_holds p (ps_pc s p)" for p f
    using that ph_holds_less [OF that] by (auto simp: held_by_def)
  fix n assume n: "n < NUM_PHIL"
  show "phil_thread_cond D u n s = Blocked \<or> (\<exists>s'. phil_thread_cond D u n s = Ret s')" for u
    using thread_cond_ok [OF i n, of D u] by blast
  show "\<exists>s'. (pd_step D)\<^sup>*\<^sup>* s s' \<and> ps_pc s' n = Eat" by (rule cond_progress.everybody_eats [OF i n])
  show "ph_holds n (ps_pc s n) \<inter> ph_holds m (ps_pc s m) = {}" if "m < NUM_PHIL" "n \<noteq> m" for m
    using own [OF n] own [OF that(1)] that(2) by fastforce
  show "\<exists>f m. ph_wants n (ps_pc s n) = Some f \<and> m < NUM_PHIL \<and> m \<noteq> n \<and> f \<in> ph_holds m (ps_pc s m)" if c: "cd_call (ps_sync s) n = CSleep"
  proof -
    obtain f where f: "ph_wants n (ps_pc s n) = Some f" "cd_flags (ps_sync s) ! f" using cond_invD(6) [OF i n c] by blast
    have fl: "f < NUM_PHIL" "f \<notin> ph_holds n (ps_pc s n)" using f(1) phil_forks_less [OF n] by (cases "ps_pc s n"; auto)+
    then obtain m where "m < NUM_PHIL" "f \<in> ph_holds m (ps_pc s m)" using H f(2) by (auto simp: held_by_def)
    with f(1) fl(2) show ?thesis by metis
  qed
qed

theorem philosophers_cond_dine_witness:
  "pd_reach demo_dur (phil_start CondSync_new) \<and> (\<exists>s. (pd_step demo_dur)\<^sup>*\<^sup>* (phil_start CondSync_new) s \<and> ps_pc s 3 = Eat)"
  using philosophers_cond_dine [OF pd_start, of demo_dur] pd_start [of demo_dur] by (auto simp: NUM_PHIL_def)

end
