(* ===== verification/Token_Net.thy ===== *)
theory Token_Net
  imports Zephyr_Prelude "HOL-Library.Sublist"
begin

text \<open>
  What the benchmark programs under \<open>samples/\<close> have in common: threads that run fixed loops of operations on
  counters, where a token is given to a counter or taken from it. A thread is the list of the operations that it
  has left. The lemmas show, for each pattern of loops that the samples use, that no counter overflows, that no
  operation that must not wait finds its counter empty, and that the threads never wait for each other for ever.
\<close>

section \<open>Operations\<close>

text \<open>
  \<open>OpTry\<close> is a \<open>take\<close> that does not wait and whose failure panics, \<open>OpTick\<close> the increment of the thread's total.
\<close>

datatype 'r net_op = OpGive 'r | OpTake 'r | OpTry 'r | OpTick | OpYield

text \<open>The loop \<open>for _ in 0..count\<close>.\<close>

definition for_count :: "nat \<Rightarrow> 'a list \<Rightarrow> 'a list" where
  "for_count n p = concat (replicate n p)"

definition gives :: "'r \<Rightarrow> 'r net_op list \<Rightarrow> nat" where
  "gives x ops = count_list ops (OpGive x)"

definition takes :: "'r \<Rightarrow> 'r net_op list \<Rightarrow> nat" where
  "takes x ops = count_list ops (OpTake x) + count_list ops (OpTry x)"

definition op_ticks :: "'r net_op list \<Rightarrow> nat" where
  "op_ticks ops = count_list ops OpTick"

section \<open>Tokens\<close>

text \<open>
  Among the threads below \<open>N\<close>, the tokens of every counter and those still to be given are the ones still to be
  taken.
\<close>

definition balanced :: "nat \<Rightarrow> (nat \<Rightarrow> 'r net_op list) \<Rightarrow> ('r \<Rightarrow> nat) \<Rightarrow> bool" where
  "balanced N left val \<longleftrightarrow> (\<forall>x. val x + (\<Sum>t<N. gives x (left t)) = (\<Sum>t<N. takes x (left t)))"

definition remains :: "nat \<Rightarrow> (nat \<Rightarrow> 'r net_op list) \<Rightarrow> (nat \<Rightarrow> 'r net_op list) \<Rightarrow> bool" where
  "remains N B left \<longleftrightarrow> (\<forall>t<N. suffix (left t) (B t))"

definition waits :: "('r \<Rightarrow> nat) \<Rightarrow> 'r net_op list \<Rightarrow> bool" where
  "waits val ops \<longleftrightarrow> ops = [] \<or> (\<exists>x ops'. ops = OpTake x # ops' \<and> val x = 0)"

text \<open>The bodies \<open>B\<close> of the threads never get stuck with counters that hold up to \<open>cap\<close> tokens.\<close>

definition net_live :: "nat \<Rightarrow> (nat \<Rightarrow> 'r net_op list) \<Rightarrow> ('r \<Rightarrow> nat) \<Rightarrow> bool" where
  "net_live N B cap \<longleftrightarrow> balanced N B (\<lambda>_. 0) \<and>
     (\<forall>left val. remains N B left \<longrightarrow> balanced N left val \<longrightarrow>
       (\<forall>t<N. \<forall>x ops. left t = OpGive x # ops \<longrightarrow> val x < cap x) \<and>
       (\<forall>t<N. \<forall>x ops. left t = OpTry x # ops \<longrightarrow> 0 < val x) \<and>
       ((\<forall>t<N. waits val (left t)) \<longrightarrow> (\<forall>t<N. left t = [])))"

lemma count_simps [simp]:
  "gives x [] = 0" "takes x [] = 0" "op_ticks [] = 0"
  "gives x (OpGive y # ops) = of_bool (x = y) + gives x ops"
  "gives x (OpTake y # ops) = gives x ops" "gives x (OpTry y # ops) = gives x ops"
  "gives x (OpTick # ops) = gives x ops" "gives x (OpYield # ops) = gives x ops"
  "takes x (OpGive y # ops) = takes x ops"
  "takes x (OpTake y # ops) = of_bool (x = y) + takes x ops" "takes x (OpTry y # ops) = of_bool (x = y) + takes x ops"
  "takes x (OpTick # ops) = takes x ops" "takes x (OpYield # ops) = takes x ops"
  "op_ticks (OpGive y # ops) = op_ticks ops" "op_ticks (OpTake y # ops) = op_ticks ops"
  "op_ticks (OpTry y # ops) = op_ticks ops" "op_ticks (OpYield # ops) = op_ticks ops"
  "op_ticks (OpTick # ops) = Suc (op_ticks ops)"
  by (auto simp: gives_def takes_def op_ticks_def)

lemma count_append [simp]:
  "gives x (a @ b) = gives x a + gives x b" "takes x (a @ b) = takes x a + takes x b"
  "op_ticks (a @ b) = op_ticks a + op_ticks b"
  by (simp_all add: gives_def takes_def op_ticks_def)

lemma for_count_simps [simp]: "for_count 0 p = []" "for_count (Suc n) p = p @ for_count n p" "for_count n [] = []"
  by (simp_all add: for_count_def)

lemma count_for_count [simp]:
  "gives x (for_count n p) = n * gives x p" "takes x (for_count n p) = n * takes x p"
  "op_ticks (for_count n p) = n * op_ticks p" "length (for_count n p) = n * length p"
  by (induction n) simp_all

lemma count_suffix:
  assumes "suffix a b" shows "gives x a \<le> gives x b" "takes x a \<le> takes x b" "op_ticks a \<le> op_ticks b"
  using assms by (auto simp: suffix_def)

text \<open>What is left of a loop: the end of an iteration and some whole ones.\<close>

lemma suffix_for_count:
  "suffix r (for_count n p) \<Longrightarrow> \<exists>q k. r = q @ for_count k p \<and> suffix q p"
proof (induction n)
  case (Suc n)
  then consider "suffix r (for_count n p)" | q where "r = q @ for_count n p" "suffix q p"
    by (auto simp: suffix_append)
  then show ?case using Suc.IH by cases blast+
qed (auto intro: exI [of _ "0::nat"])

text \<open>Operations that touch no counter.\<close>

definition quiet :: "'r net_op list \<Rightarrow> bool" where
  "quiet e \<longleftrightarrow> set e \<subseteq> {OpTick, OpYield}"

lemma quiet_simps [simp]: "quiet []" "quiet (OpTick # e) = quiet e" "quiet (OpYield # e) = quiet e"
  "\<not> quiet (OpGive x # e)" "\<not> quiet (OpTake x # e)" "\<not> quiet (OpTry x # e)"
  by (auto simp: quiet_def)

lemma quiet_count: "quiet e \<Longrightarrow> gives x e = 0 \<and> takes x e = 0"
  by (auto simp: quiet_def gives_def takes_def count_list_0_iff)

lemma quiet_suffix: "suffix q e \<Longrightarrow> quiet e \<Longrightarrow> quiet q"
  using set_mono_suffix by (fastforce simp: quiet_def)

lemma quiet_cases: "quiet q \<Longrightarrow> q = [] \<or> (\<exists>r. q = OpTick # r \<or> q = OpYield # r)"
  by (cases q) (auto simp: quiet_def)

lemma sum_only:
  assumes "u < (N::nat)" and "\<And>t. t < N \<Longrightarrow> t \<noteq> u \<Longrightarrow> g t = (0::nat)"
  shows "(\<Sum>t<N. g t) = g u"
proof -
  have "(\<Sum>t<N. g t) = (\<Sum>t\<in>{u}. g t)" using assms by (intro sum.mono_neutral_right) auto
  then show ?thesis by simp
qed

lemma remainsD: "remains N B left \<Longrightarrow> t < N \<Longrightarrow> suffix (left t) (B t)"
  by (simp add: remains_def)

lemma none_left:
  assumes "remains N B left" and "t < N"
  shows "gives x (B t) = 0 \<Longrightarrow> gives x (left t) = 0" and "takes x (B t) = 0 \<Longrightarrow> takes x (left t) = 0"
  using count_suffix(1,2) [OF remainsD [OF assms], of x] by simp_all

lemma left_Nil: "remains N B left \<Longrightarrow> t < N \<Longrightarrow> B t = [] \<Longrightarrow> left t = []"
  using remainsD by fastforce

lemma balancedD: "balanced N left val \<Longrightarrow> val x + (\<Sum>t<N. gives x (left t)) = (\<Sum>t<N. takes x (left t))"
  by (simp add: balanced_def)

text \<open>An operation keeps the balance.\<close>

definition net_val :: "'r net_op \<Rightarrow> ('r \<Rightarrow> nat) \<Rightarrow> ('r \<Rightarrow> nat)" where
  "net_val op val = (case op of OpGive x \<Rightarrow> val(x := val x + 1) | OpTake x \<Rightarrow> val(x := val x - 1)
     | OpTry x \<Rightarrow> val(x := val x - 1) | _ \<Rightarrow> val)"

definition net_ready :: "'r net_op \<Rightarrow> ('r \<Rightarrow> nat) \<Rightarrow> bool" where
  "net_ready op val = (case op of OpTake x \<Rightarrow> 0 < val x | OpTry x \<Rightarrow> 0 < val x | _ \<Rightarrow> True)"

lemma sum_upd:
  fixes N :: nat
  assumes "t < N" shows "(\<Sum>u<N. g ((f(t := y)) u)) + g (f t) = (\<Sum>u<N. g (f u)) + (g y :: nat)"
proof -
  have "(\<Sum>u\<in>{..<N} - {t}. g ((f(t := y)) u)) = (\<Sum>u\<in>{..<N} - {t}. g (f u))" by (intro sum.cong) auto
  with assms show ?thesis by (simp add: sum.remove [of "{..<N}" t])
qed

lemma balanced_step:
  assumes "balanced N left val" and "t < N" and "left t = op # ops" and "net_ready op val"
  shows "balanced N (left(t := ops)) (net_val op val)"
  unfolding balanced_def
proof
  fix x
  show "net_val op val x + (\<Sum>u<N. gives x ((left(t := ops)) u)) = (\<Sum>u<N. takes x ((left(t := ops)) u))"
    using sum_upd [OF assms(2), of "gives x" left ops] sum_upd [OF assms(2), of "takes x" left ops]
      balancedD [OF assms(1), of x] assms(3,4)
    by (cases op) (auto simp: net_val_def net_ready_def)
qed

lemma remains_step:
  assumes "remains N B left" and "left t = op # ops" shows "remains N B (left(t := ops))"
proof -
  have "suffix ops (B t)" if "t < N" using assms that suffix_ConsD [of op ops "B t"] by (auto simp: remains_def)
  with assms(1) show ?thesis by (simp add: remains_def)
qed

section \<open>Threads that use a counter of their own\<close>

definition own_loop :: "'r \<Rightarrow> 'r net_op list \<Rightarrow> bool" where
  "own_loop x ops \<longleftrightarrow> ops = [] \<or> (\<exists>n a q. ops = for_count n (OpGive x # a # q) \<and> (a = OpTake x \<or> a = OpTry x) \<and> quiet q)"

lemma own_loopI [intro]: "own_loop x []" "a = OpTake x \<or> a = OpTry x \<Longrightarrow> quiet q \<Longrightarrow> own_loop x (for_count n (OpGive x # a # q))"
  unfolding own_loop_def by blast+

lemma net_self:
  assumes loops: "\<And>t. t < N \<Longrightarrow> own_loop (f t) (B t)"
    and inj: "inj_on f {..<N}" and cap: "\<And>x. 0 < cap x"
  shows "net_live N B cap"
proof -
  note own = loops [unfolded own_loop_def]
  have other: "gives (f t) (B u) = 0 \<and> takes (f t) (B u) = 0" if "t < N" "u < N" "u \<noteq> t" for t u
    using own [OF that(2)] inj that by (auto simp: inj_on_def quiet_count)
  have bal: "val (f t) + gives (f t) (left t) = takes (f t) (left t)"
    if "remains N B left" "balanced N left val" "t < N" for left val t
    using balancedD [OF that(2), of "f t"] none_left [OF that(1)] other [OF that(3)]
      sum_only [OF that(3), of "\<lambda>u. gives (f t) (left u)"] sum_only [OF that(3), of "\<lambda>u. takes (f t) (left u)"] by simp
  have shape: "left t = [] \<or> (\<exists>a r. left t = OpGive (f t) # a # r \<and> takes (f t) (left t) = gives (f t) (left t)) \<or>
      (\<exists>a r. left t = a # r \<and> (a = OpTake (f t) \<or> a = OpTry (f t)) \<and> takes (f t) (left t) = gives (f t) (left t) + 1) \<or>
      (\<exists>a r. left t = a # r \<and> (a = OpTick \<or> a = OpYield))"
    if r: "remains N B left" and t: "t < N" for left t
  proof (cases "B t = []")
    case False
    with own [OF t] obtain n a q where B: "B t = for_count n (OpGive (f t) # a # q)"
      and a: "a = OpTake (f t) \<or> a = OpTry (f t)" and q: "quiet q" by blast
    obtain p k where p: "left t = p @ for_count k (OpGive (f t) # a # q)" "suffix p (OpGive (f t) # a # q)"
      using suffix_for_count [of "left t" n "OpGive (f t) # a # q"] remainsD [OF r t] B by auto
    then consider "p = OpGive (f t) # a # q" | "p = a # q" | "quiet p" using quiet_suffix [OF _ q] by (auto simp: suffix_Cons)
    then show ?thesis using p(1) a q quiet_cases [of p] by cases (cases k; auto simp: quiet_count)+
  qed (use left_Nil [OF r t] in auto)
  have start: "balanced N B (\<lambda>_. 0)" unfolding balanced_def
  proof
    fix x
    have "gives x (B u) = takes x (B u)" if "u < N" for u using own [OF that] by (auto simp: quiet_count)
    then show "0 + (\<Sum>t<N. gives x (B t)) = (\<Sum>t<N. takes x (B t))" by simp
  qed
  show ?thesis unfolding net_live_def
  proof (intro conjI allI impI start)
    fix left val assume r: "remains N B left" and b: "balanced N left val"
    { fix t x ops assume t: "t < N" and l: "left t = OpGive x # ops"
      then show "val x < cap x" using shape [OF r t] bal [OF r b t] cap [of x] by auto }
    { fix t x ops assume t: "t < N" and l: "left t = OpTry x # ops"
      then show "0 < val x" using shape [OF r t] bal [OF r b t] by auto }
    { fix t assume "\<forall>t<N. waits val (left t)" and t: "t < N"
      then show "left t = []" using shape [OF r t] bal [OF r b t] by (fastforce simp: waits_def) }
  qed
qed

section \<open>One thread that gives to the others\<close>

lemma gives_map [simp]: "gives x (map (\<lambda>i. OpGive (f i)) is) = count_list (map f is) x" "takes x (map (\<lambda>i. OpGive (f i)) is) = 0"
  "op_ticks (map (\<lambda>i. OpGive (f i)) is) = 0"
  by (induction "is") auto

lemma count_list_upt:
  assumes "inj_on f {..<W}" and "t < W" shows "count_list (map f [0..<W]) (f t) = 1"
proof -
  have "distinct (map f [0..<W])" using assms(1) by (simp add: distinct_map atLeast0LessThan)
  moreover have "f t \<in> set (map f [0..<W])" using assms(2) by simp
  moreover have "distinct xs \<Longrightarrow> y \<in> set xs \<Longrightarrow> count_list xs y = 1" for xs and y :: 'a by (induction xs) auto
  ultimately show ?thesis by blast
qed

lemma only_gives:
  assumes "suffix r (for_count n (map (\<lambda>i. OpGive (f i)) is))" shows "r = [] \<or> (\<exists>i ops. i \<in> set is \<and> r = OpGive (f i) # ops)"
proof -
  have "set r \<subseteq> (\<lambda>i. OpGive (f i)) ` set is" using set_mono_suffix [OF assms] by (auto simp: for_count_def split: if_splits)
  then show ?thesis by (cases r) auto
qed

lemma net_wait:
  assumes worker: "\<And>t. t < W \<Longrightarrow> B t = for_count n (OpTake (f t) # e)" and e: "quiet e"
    and giver: "W \<le> g" "g < N" "B g = for_count n (map (\<lambda>i. OpGive (f i)) [0..<W])"
    and idle: "\<And>t. W \<le> t \<Longrightarrow> t < N \<Longrightarrow> t \<noteq> g \<Longrightarrow> B t = []"
    and inj: "inj_on f {..<W}" and cap: "\<And>x. n \<le> cap x"
  shows "net_live N B cap"
proof -
  have W: "t < N" if "t < W" for t using that giver by linarith
  have gives_B: "gives x (B u) = 0" if "u < N" "u \<noteq> g" for x u
    using worker [of u] idle [of u] that quiet_count [OF e] by (cases "u < W") auto
  have takes_B: "takes (f t) (B u) = 0" if "u < N" "u \<noteq> t" "t < W" for t u
    using worker [of u] idle [of u] that giver(3) inj by (cases "u < W"; cases "u = g") (auto simp: inj_on_def quiet_count [OF e])
  have bal: "val (f t) + gives (f t) (left g) = takes (f t) (left t)"
    if r: "remains N B left" and b: "balanced N left val" and t: "t < W" for left val t
    using balancedD [OF b, of "f t"] none_left [OF r] gives_B takes_B [OF _ _ t] W [OF t]
      sum_only [OF giver(2), of "\<lambda>u. gives (f t) (left u)"] sum_only [OF W [OF t], of "\<lambda>u. takes (f t) (left u)"] by simp
  have start: "balanced N B (\<lambda>_. 0)" unfolding balanced_def
  proof
    fix x
    have "(\<Sum>t<N. gives x (B t)) = gives x (B g)" using sum_only [OF giver(2), of "\<lambda>u. gives x (B u)"] gives_B by simp
    moreover have "(\<Sum>t<N. takes x (B t)) = (if x \<in> f ` {..<W} then n else 0)"
    proof (cases "x \<in> f ` {..<W}")
      case True
      then obtain t where t: "x = f t" "t < W" by auto
      then show ?thesis using sum_only [OF W [OF t(2)], of "\<lambda>u. takes x (B u)"] takes_B worker quiet_count [OF e] by auto
    next
      case False
      then have "takes x (B u) = 0" if "u < N" for u
        using worker [of u] idle [of u] that giver(3) quiet_count [OF e] by (cases "u < W"; cases "u = g") auto
      with False show ?thesis by simp
    qed
    moreover have "gives x (B g) = (if x \<in> f ` {..<W} then n else 0)"
      using giver(3) count_list_upt [OF inj] by (auto simp: count_list_0_iff)
    ultimately show "0 + (\<Sum>t<N. gives x (B t)) = (\<Sum>t<N. takes x (B t))" by simp
  qed
  have wshape: "left t = [] \<or> (\<exists>ops. left t = OpTake (f t) # ops) \<or> (\<exists>ops. left t = OpTick # ops \<or> left t = OpYield # ops)"
    if "remains N B left" and t: "t < W" for left t
  proof -
    have "suffix (left t) (for_count n (OpTake (f t) # e))" using remainsD [OF that(1) W [OF t]] worker [OF t] by simp
    then obtain q k where "left t = q @ for_count k (OpTake (f t) # e)" "suffix q (OpTake (f t) # e)"
      using suffix_for_count by blast
    moreover from this have "q = OpTake (f t) # e \<or> quiet q" using quiet_suffix [OF _ e] by (auto simp: suffix_Cons)
    ultimately show ?thesis using quiet_cases [of q] by (cases k) auto
  qed
  have gshape: "left g = [] \<or> (\<exists>i ops. i < W \<and> left g = OpGive (f i) # ops)" if "remains N B left" for left
    using only_gives [of "left g" n f "[0..<W]"] remainsD [OF that giver(2)] giver(3) by auto
  show ?thesis unfolding net_live_def
  proof (intro conjI allI impI start)
    fix left val assume r: "remains N B left" and b: "balanced N left val"
    have other: "left t = []" if "t < N" "W \<le> t" "t \<noteq> g" for t using left_Nil [OF r that(1)] idle that by blast
    { fix t x ops assume t: "t < N" and l: "left t = OpGive x # ops"
      then have tg: "t = g" using wshape [OF r, of t] other [of t] by (cases "t < W") auto
      then obtain i where i: "i < W" "x = f i" using gshape [OF r] l by auto
      have "takes (f i) (left i) \<le> n" using count_suffix(2) [OF remainsD [OF r W [OF i(1)]], of "f i"] worker [OF i(1)] quiet_count [OF e] by simp
      then show "val x < cap x" using bal [OF r b i(1)] l tg i(2) cap [of x] by auto }
    { fix t x ops assume t: "t < N" and l: "left t = OpTry x # ops"
      then show "0 < val x" using wshape [OF r, of t] gshape [OF r] other [of t] by (cases "t < W"; cases "t = g") auto }
    { fix t assume w: "\<forall>t<N. waits val (left t)" and t: "t < N"
      then have g: "left g = []" using gshape [OF r] giver(2) by (auto simp: waits_def)
      show "left t = []"
      proof (cases "t < W")
        case True
        then show ?thesis using wshape [OF r True] bal [OF r b True] g w t by (fastforce simp: waits_def)
      qed (use other [OF t] g in \<open>cases "t = g"; simp\<close>) }
  qed
qed

section \<open>One thread that plays ping-pong with the others\<close>

text \<open>
  The thread \<open>i\<close> waits for a token of \<open>f i\<close> and answers with one of \<open>b i\<close>. Threads with the same counter for the
  answer form a class; the counters \<open>f i\<close> of a class are used by that class only.
\<close>

definition pp_class :: "(nat \<Rightarrow> 'r) \<Rightarrow> (nat \<Rightarrow> 'r) \<Rightarrow> nat \<Rightarrow> 'r \<Rightarrow> 'r set" where
  "pp_class f b W y = f ` {t. t < W \<and> b t = y}"

definition pp_apart :: "(nat \<Rightarrow> 'r) \<Rightarrow> (nat \<Rightarrow> 'r) \<Rightarrow> nat \<Rightarrow> bool" where
  "pp_apart f b W \<longleftrightarrow> (\<forall>i<W. \<forall>j<W. f i \<noteq> b j) \<and> (\<forall>i<W. \<forall>j<W. f i = f j \<longrightarrow> b i = b j)"

definition pp_blocks :: "(nat \<Rightarrow> 'r) \<Rightarrow> (nat \<Rightarrow> 'r) \<Rightarrow> nat list \<Rightarrow> 'r net_op list" where
  "pp_blocks f b js = concat (map (\<lambda>i. [OpGive (f i), OpTake (b i)]) js)"

lemma pp_blocks_simps [simp]: "pp_blocks f b [] = []" "pp_blocks f b (j # js) = OpGive (f j) # OpTake (b j) # pp_blocks f b js"
  by (simp_all add: pp_blocks_def)

lemma for_count_pp_blocks: "for_count n (pp_blocks f b js) = pp_blocks f b (for_count n js)"
  by (induction n) (simp_all add: pp_blocks_def)

lemma suffix_pp_blocks:
  "suffix r (pp_blocks f b js) \<Longrightarrow> \<exists>ks. set ks \<subseteq> set js \<and> (r = pp_blocks f b ks \<or> (\<exists>i\<in>set js. r = OpTake (b i) # pp_blocks f b ks))"
proof (induction js)
  case (Cons j js)
  then consider "r = pp_blocks f b (j # js)" | "r = OpTake (b j) # pp_blocks f b js" | "suffix r (pp_blocks f b js)"
    by (auto simp: suffix_Cons)
  then show ?case
  proof cases
    case 1
    then show ?thesis by (intro exI [of _ "j # js"]) simp
  next
    case 2
    then show ?thesis by (intro exI [of _ js]) auto
  next
    case 3
    with Cons.IH show ?thesis by (meson list.set_intros(2) set_subset_Cons subset_trans)
  qed
qed simp

lemma sum_of_bool_eq: "finite A \<Longrightarrow> (\<Sum>x\<in>A. of_bool (x = y)) = (of_bool (y \<in> A) :: nat)"
  by (induction rule: finite_induct) auto

lemma pp_class_finite [simp]: "finite (pp_class f b W y)"
  by (simp add: pp_class_def)

lemma pp_apartD: "pp_apart f b W \<Longrightarrow> i < W \<Longrightarrow> j < W \<Longrightarrow> f i \<noteq> b j"
  unfolding pp_apart_def by iprover

lemma pp_class_mem: "pp_apart f b W \<Longrightarrow> i < W \<Longrightarrow> f i \<in> pp_class f b W y \<longleftrightarrow> b i = y"
proof
  assume a: "pp_apart f b W" "i < W" "f i \<in> pp_class f b W y"
  then obtain t where "f i = f t" "t < W" "b t = y" by (auto simp: pp_class_def)
  moreover have "\<forall>j<W. f i = f j \<longrightarrow> b i = b j" using a(1,2) unfolding pp_apart_def by iprover
  ultimately show "b i = y" by metis
qed (auto simp: pp_class_def)

lemma pp_class_not_b: "pp_apart f b W \<Longrightarrow> i < W \<Longrightarrow> b i \<notin> pp_class f b W y"
  using pp_apartD [of f b W] by (force simp: pp_class_def)

lemma pp_blocks_count:
  assumes "pp_apart f b W" and "set js \<subseteq> {..<W}"
  shows "(\<Sum>x\<in>pp_class f b W y. gives x (pp_blocks f b js)) = takes y (pp_blocks f b js)"
    and "(\<Sum>x\<in>pp_class f b W y. takes x (pp_blocks f b js)) = 0"
    and "i < W \<Longrightarrow> gives (b i) (pp_blocks f b js) = 0"
  using assms(2)
proof (induction js)
  case (Cons j js)
  { case 1
    with Cons show ?case using pp_class_mem [OF assms(1), of j y] by (auto simp: sum.distrib sum_of_bool_eq)
  next
    case 2
    with Cons show ?case using pp_class_not_b [OF assms(1), of j y] by (auto simp: sum.distrib sum_of_bool_eq)
  next
    case 3
    with Cons show ?case using pp_apartD [OF assms(1), of j i] by auto }
qed auto

lemma pp_worker:
  assumes "pp_apart f b W" and "t < W" and "suffix r (for_count n (OpTake (f t) # OpGive (b t) # e))"
    and e: "quiet e"
  shows "r = [] \<or> (\<exists>ops. r = OpTake (f t) # ops \<or> r = OpGive (b t) # ops \<or> r = OpTick # ops \<or> r = OpYield # ops)" (is ?shape)
    and "b t = y \<Longrightarrow> (\<Sum>x\<in>pp_class f b W y. takes x r) + of_bool (\<exists>ops. r = OpGive (b t) # ops) = gives y r"
    and "b t \<noteq> y \<Longrightarrow> (\<Sum>x\<in>pp_class f b W y. takes x r) = 0 \<and> gives y r = 0"
    and "(\<Sum>x\<in>pp_class f b W y. gives x r) = 0" and "i < W \<Longrightarrow> takes (b i) r = 0"
    and "x \<noteq> b t \<Longrightarrow> gives x r = 0"
proof -
  let ?p = "(OpTake (f t) # OpGive (b t) # e)"
  obtain q k where r: "r = q @ for_count k ?p" "suffix q ?p" using suffix_for_count [OF assms(3)] by blast
  then have q: "quiet q \<or> q = OpGive (b t) # e \<or> q = ?p" using quiet_suffix [OF _ e] by (auto simp: suffix_Cons)
  note none = quiet_count [OF e] quiet_count [of q]
  show ?shape using r(1) q quiet_cases [of q] by (cases k) auto
  have F: "f t \<in> pp_class f b W y \<longleftrightarrow> b t = y" "b t \<notin> pp_class f b W y"
    using pp_class_mem [OF assms(1,2)] pp_class_not_b [OF assms(1,2)] by auto
  note sums = sum.distrib sum_of_bool_eq sum_distrib_left [symmetric]
  have s1: "(\<Sum>x\<in>pp_class f b W y. takes x r) = (\<Sum>x\<in>pp_class f b W y. takes x q) + k * of_bool (b t = y)"
    using r(1) F none(1) by (simp add: sums)
  have s2: "(\<Sum>x\<in>pp_class f b W y. takes x q) = of_bool (b t = y \<and> q = ?p)"
    using q F none by (auto simp: sums)
  have h: "(\<exists>ops. r = OpGive (b t) # ops) \<longleftrightarrow> q = OpGive (b t) # e" using r(1) q quiet_cases [of q] by (cases k) auto
  show "b t = y \<Longrightarrow> (\<Sum>x\<in>pp_class f b W y. takes x r) + of_bool (\<exists>ops. r = OpGive (b t) # ops) = gives y r"
    unfolding s1 s2 h using r(1) q none by auto
  show "b t \<noteq> y \<Longrightarrow> (\<Sum>x\<in>pp_class f b W y. takes x r) = 0 \<and> gives y r = 0"
    unfolding s1 s2 using r(1) q none by auto
  show "x \<noteq> b t \<Longrightarrow> gives x r = 0" for x using r(1) q none by auto
  then show "(\<Sum>x\<in>pp_class f b W y. gives x r) = 0" using F(2) by (intro sum.neutral) metis
  show "i < W \<Longrightarrow> takes (b i) r = 0" using r(1) q none pp_apartD [OF assms(1,2), of i] by auto
qed

definition pp_state :: "'r net_op list \<Rightarrow> nat \<Rightarrow> nat \<Rightarrow> nat \<Rightarrow> nat \<Rightarrow> (nat \<Rightarrow> 'r) \<Rightarrow> (nat \<Rightarrow> 'r) \<Rightarrow> (nat \<Rightarrow> 'r net_op list) \<Rightarrow> ('r \<Rightarrow> nat) \<Rightarrow> bool" where
  "pp_state e n W N g f b left val \<longleftrightarrow> pp_apart f b W \<and> W \<le> g \<and> g < N \<and> balanced N left val \<and> quiet e \<and>
     (\<forall>t<W. suffix (left t) (for_count n (OpTake (f t) # OpGive (b t) # e))) \<and>
     suffix (left g) (for_count n (pp_blocks f b [0..<W])) \<and> (\<forall>t. W \<le> t \<and> t < N \<and> t \<noteq> g \<longrightarrow> left t = [])"

lemma pp_stateD:
  assumes "pp_state e n W N g f b left val"
  shows "pp_apart f b W" "W \<le> g" "g < N" "balanced N left val"
    and "t < W \<Longrightarrow> suffix (left t) (for_count n (OpTake (f t) # OpGive (b t) # e))"
    and "suffix (left g) (for_count n (pp_blocks f b [0..<W]))"
    and "W \<le> t \<Longrightarrow> t < N \<Longrightarrow> t \<noteq> g \<Longrightarrow> left t = []" and "quiet e"
  using assms by (simp_all add: pp_state_def)

lemma set_for_count: "set (for_count n js) \<subseteq> set js"
  by (auto simp: for_count_def split: if_splits)

lemma pp_giver:
  assumes "pp_state e n W N g f b left val"
  obtains d js where "set js \<subseteq> {..<W}" "left g = d @ pp_blocks f b js" "d = [] \<or> (\<exists>j<W. d = [OpTake (b j)])"
proof -
  have "suffix (left g) (pp_blocks f b (for_count n [0..<W]))" using pp_stateD(6) [OF assms] by (simp add: for_count_pp_blocks)
  then obtain js where js: "set js \<subseteq> set (for_count n [0..<W])"
    "left g = pp_blocks f b js \<or> (\<exists>i\<in>set (for_count n [0..<W]). left g = OpTake (b i) # pp_blocks f b js)"
    using suffix_pp_blocks by blast
  moreover have "set (for_count n [0..<W]) \<subseteq> {..<W}" using set_for_count [of n "[0..<W]"] by auto
  ultimately consider "set js \<subseteq> {..<W}" "left g = pp_blocks f b js"
    | i where "set js \<subseteq> {..<W}" "i < W" "left g = OpTake (b i) # pp_blocks f b js" by blast
  then show thesis
  proof cases
    case 1
    then show thesis using that [of js "[]"] by simp
  next
    case (2 i)
    then show thesis using that [of js "[OpTake (b i)]"] by auto
  qed
qed

text \<open>
  In each class there is one token on the way exactly while the other thread waits for the answer: in a counter of the
  class, in the counter of the answer, or with a worker that is about to answer.
\<close>

lemma pp_token:
  assumes p: "pp_state e n W N g f b left val" and i: "i < W"
  shows "(\<Sum>x\<in>pp_class f b W (b i). val x) + val (b i) +
    (\<Sum>t<N. of_bool (t < W \<and> b t = b i \<and> (\<exists>ops. left t = OpGive (b i) # ops))) = of_bool (\<exists>ops. left g = OpTake (b i) # ops)"
proof -
  let ?F = "pp_class f b W (b i)" and ?m = "\<lambda>t. of_bool (t < W \<and> b t = b i \<and> (\<exists>ops. left t = OpGive (b i) # ops)) :: nat"
  note apart = pp_stateD(1) [OF p] and g = pp_stateD(2,3) [OF p] and bal = balancedD [OF pp_stateD(4) [OF p]]
    and e = pp_stateD(8) [OF p] and w = pp_stateD(5) [OF p] and idle = pp_stateD(7) [OF p]
  obtain d js where giver: "set js \<subseteq> {..<W}" "left g = d @ pp_blocks f b js" "d = [] \<or> (\<exists>j<W. d = [OpTake (b j)])"
    using pp_giver [OF p] .
  note blocks = pp_blocks_count [OF apart giver(1)]
  have G: "(\<Sum>x\<in>?F. gives x (left t)) = 0" if "t < N" "t \<noteq> g" for t
    using pp_worker(4) [OF apart _ w e, of t] idle [of t] that by (cases "t < W") auto
  have T: "(\<Sum>x\<in>?F. takes x (left t)) + ?m t = gives (b i) (left t)" if "t < N" for t
  proof (cases "t < W")
    case True
    show ?thesis using pp_worker(2,3) [OF apart True w [OF True] e, of "b i"] True by (cases "b t = b i") auto
  next
    case False
    show ?thesis using False idle [of t] that giver(2,3) blocks(2,3) i pp_class_not_b [OF apart]
      by (cases "t = g") (auto simp: sum.distrib sum_of_bool_eq)
  qed
  have A: "takes (b i) (left t) = 0" if "t < N" "t \<noteq> g" for t
    using pp_worker(5) [OF apart _ w e i, of t] idle [of t] that by (cases "t < W") auto
  have "(\<Sum>x\<in>?F. val x) + (\<Sum>t<N. \<Sum>x\<in>?F. gives x (left t)) = (\<Sum>t<N. \<Sum>x\<in>?F. takes x (left t))"
    unfolding sum.swap [of _ ?F] sum.distrib [symmetric] using bal by simp
  moreover have "(\<Sum>t<N. \<Sum>x\<in>?F. gives x (left t)) = (\<Sum>x\<in>?F. gives x (left g))" using sum_only [OF g(2)] G by simp
  moreover have "(\<Sum>t<N. \<Sum>x\<in>?F. takes x (left t)) + (\<Sum>t<N. ?m t) = (\<Sum>t<N. gives (b i) (left t))"
    unfolding sum.distrib [symmetric] using T by (intro sum.cong) auto
  moreover have "val (b i) + (\<Sum>t<N. gives (b i) (left t)) = takes (b i) (left g)"
    using bal [of "b i"] sum_only [OF g(2), of "\<lambda>t. takes (b i) (left t)"] A by simp
  moreover have "takes (b i) (left g) = (\<Sum>x\<in>?F. gives x (left g)) + of_bool (\<exists>ops. left g = OpTake (b i) # ops)"
    using giver(2,3) blocks(1) by (cases js) (auto simp: sum.distrib)
  ultimately show ?thesis by linarith
qed

lemma pp_shape:
  assumes p: "pp_state e n W N g f b left val" and "t < N" and "left t = op # ops"
  obtains "t < W" "op = OpTake (f t) \<or> op = OpTick \<or> op = OpYield" | "t < W" "op = OpGive (b t)"
  | i where "t = g" "i < W" "op = OpGive (f i) \<or> op = OpTake (b i)"
proof (cases "t < W")
  case True
  with that pp_worker(1) [OF pp_stateD(1) [OF p] True pp_stateD(5) [OF p] pp_stateD(8) [OF p]] assms(3) show ?thesis by fastforce
next
  case False
  with pp_stateD(7) [OF p, of t] assms(2,3) have "t = g" by fastforce
  then obtain js d where gs: "set js \<subseteq> {..<W}" "op # ops = d @ pp_blocks f b js" "d = [] \<or> (\<exists>j<W. d = [OpTake (b j)])"
    using pp_giver [OF p] assms(3) by metis
  then show ?thesis using that(3) [OF \<open>t = g\<close>] by (cases js) auto
qed

lemma pp_give:
  assumes p: "pp_state e n W N g f b left val" and "t < N" and "left t = OpGive x # ops"
  shows "val x = 0"
  using p assms(2,3)
proof (cases rule: pp_shape)
  case 2
  then have x: "x = b t" by simp
  let ?m = "\<lambda>u. of_bool (u < W \<and> b u = b t \<and> (\<exists>ops. left u = OpGive (b t) # ops)) :: nat"
  have "?m t \<le> (\<Sum>u<N. ?m u)" using assms(2) by (intro member_le_sum) auto
  moreover have "?m t = 1" using assms(3) x 2(1) by simp
  moreover have "of_bool (\<exists>ops. left g = OpTake (b t) # ops) \<le> (1 :: nat)" by simp
  ultimately show ?thesis unfolding x using pp_token [OF p 2(1)] by linarith
next
  case (3 i)
  then have "val x \<le> (\<Sum>x\<in>pp_class f b W (b i). val x)" by (intro member_le_sum) (auto simp: pp_class_def)
  with pp_token [OF p 3(2)] assms(3) 3(1) show ?thesis by simp
qed auto

text \<open>When every thread waits, no token is left for the workers: they and the other thread have finished.\<close>

lemma pp_no_token:
  assumes p: "pp_state e n W N g f b left val" and ws: "\<forall>t<N. waits val (left t)" and i: "i < W"
  shows "val (f i) = 0"
proof (rule ccontr)
  note apart = pp_stateD(1) [OF p] and e = pp_stateD(8) [OF p] and w = pp_stateD(5) [OF p]
  assume v: "val (f i) \<noteq> 0"
  then have "(\<Sum>u<N. takes (f i) (left u)) \<noteq> 0" using balancedD [OF pp_stateD(4) [OF p], of "f i"] by linarith
  then obtain u where u: "u < N" "takes (f i) (left u) \<noteq> 0" by (auto elim: sum.not_neutral_contains_not_neutral)
  obtain d js where gs: "set js \<subseteq> {..<W}" "left g = d @ pp_blocks f b js" "d = [] \<or> (\<exists>j<W. d = [OpTake (b j)])"
    using pp_giver [OF p] .
  have "pp_class f b W (f i) = {}" using pp_apartD [OF apart i] by (force simp: pp_class_def)
  then have "takes (f i) (left g) = 0"
    using gs pp_apartD [OF apart i] pp_blocks_count(1) [OF apart gs(1), of "f i"] by auto
  with u pp_stateD(7) [OF p, of u] have "u < W" by (cases "u = g"; cases "u < W") auto
  moreover have "f u = f i" using count_suffix(2) [OF w [OF \<open>u < W\<close>], of "f i"] u(2) quiet_count [OF e] by (cases "f u = f i") auto
  ultimately show False using ws u v pp_worker(1) [OF apart \<open>u < W\<close> w e] by (fastforce simp: waits_def)
qed

lemma pp_finished:
  assumes p: "pp_state e n W N g f b left val" and ws: "\<forall>t<N. waits val (left t)" and t: "t < N"
  shows "left t = []"
proof -
  note apart = pp_stateD(1) [OF p] and g = pp_stateD(2,3) [OF p] and bal = balancedD [OF pp_stateD(4) [OF p]]
    and e = pp_stateD(8) [OF p] and w = pp_stateD(5) [OF p] and idle = pp_stateD(7) [OF p] and none = pp_no_token [OF p ws]
  have gl: "left g = []"
  proof (rule ccontr)
    assume "left g \<noteq> []"
    with ws g obtain x ops where x: "left g = OpTake x # ops" "val x = 0" by (auto simp: waits_def)
    from p g(2) x(1) obtain i where i: "i < W" "x = b i" by (cases rule: pp_shape) (use g in auto)
    have "(\<Sum>x\<in>pp_class f b W (b i). val x) = 0" using none by (auto simp: pp_class_def)
    moreover have "(\<Sum>u<N. of_bool (u < W \<and> b u = b i \<and> (\<exists>ops. left u = OpGive (b i) # ops))) = (0 :: nat)"
      using ws by (fastforce simp: waits_def)
    ultimately show False using pp_token [OF p i(1)] i x by simp
  qed
  show ?thesis
  proof (cases "t < W")
    case True
    have "gives (f t) (left u) = 0" if "u < N" for u
      using that gl idle [of u] pp_worker(6) [OF apart _ w e, of u "f t"] pp_apartD [OF apart True, of u]
      by (cases "u < W"; cases "u = g") auto
    then have "takes (f t) (left t) = 0" using bal [of "f t"] none [OF True] t by simp
    then show ?thesis using ws t pp_worker(1) [OF apart True w [OF True] e] by (auto simp: waits_def)
  qed (use idle [of t] gl t in \<open>cases "t = g"; simp\<close>)
qed

lemma count_pp_upt:
  "gives x (pp_blocks f b [0..<W]) = (\<Sum>t<W. of_bool (x = f t))"
  "takes x (pp_blocks f b [0..<W]) = (\<Sum>t<W. of_bool (x = b t))"
  "op_ticks (pp_blocks f b js) = 0"
proof -
  have *: "gives x (pp_blocks f b js) = (\<Sum>t\<leftarrow>js. of_bool (x = f t))" "takes x (pp_blocks f b js) = (\<Sum>t\<leftarrow>js. of_bool (x = b t))"
    "op_ticks (pp_blocks f b js) = 0" for js by (induction js) auto
  show "op_ticks (pp_blocks f b js) = 0" by (rule *)
  show "gives x (pp_blocks f b [0..<W]) = (\<Sum>t<W. of_bool (x = f t))"
    "takes x (pp_blocks f b [0..<W]) = (\<Sum>t<W. of_bool (x = b t))"
    by (simp_all add: * sum_list_distinct_conv_sum_set atLeast0LessThan)
qed

lemma pp_balanced:
  assumes worker: "\<And>t. t < W \<Longrightarrow> B t = for_count n (OpTake (f t) # OpGive (b t) # e)" and e: "quiet e"
    and giver: "W \<le> g" "g < N" "B g = for_count n (pp_blocks f b [0..<W])"
    and idle: "\<And>t. W \<le> t \<Longrightarrow> t < N \<Longrightarrow> t \<noteq> g \<Longrightarrow> B t = []"
  shows "balanced N B (\<lambda>_. 0)"
  unfolding balanced_def
proof
  fix x
  have split: "(\<Sum>t<N. h (B t)) = (\<Sum>t<W. h (B t)) + h (B g)" if "h [] = (0::nat)" for h
  proof -
    have "(\<Sum>t<N. h (B t)) = (\<Sum>t\<in>{..<W} \<union> {g}. h (B t))"
      using giver(1,2) idle that by (intro sum.mono_neutral_right) (auto simp: not_less)
    also have "\<dots> = (\<Sum>t<W. h (B t)) + h (B g)" using giver(1) by (subst sum.union_disjoint) auto
    finally show ?thesis .
  qed
  have "(\<Sum>t<W. gives x (B t)) = n * (\<Sum>t<W. of_bool (x = b t))" "(\<Sum>t<W. takes x (B t)) = n * (\<Sum>t<W. of_bool (x = f t))"
    using worker quiet_count [OF e] by (simp_all add: sum_distrib_left)
  then show "0 + (\<Sum>t<N. gives x (B t)) = (\<Sum>t<N. takes x (B t))"
    using split [of "gives x"] split [of "takes x"] giver(3) by (simp add: count_pp_upt)
qed

lemma net_ping_pong:
  assumes worker: "\<And>t. t < W \<Longrightarrow> B t = for_count n (OpTake (f t) # OpGive (b t) # e)" and e: "quiet e"
    and giver: "W \<le> g" "g < N" "B g = for_count n (pp_blocks f b [0..<W])"
    and idle: "\<And>t. W \<le> t \<Longrightarrow> t < N \<Longrightarrow> t \<noteq> g \<Longrightarrow> B t = []"
    and apart: "pp_apart f b W" and cap: "\<And>x. 0 < cap x"
  shows "net_live N B cap"
  unfolding net_live_def
proof (intro conjI allI impI pp_balanced [OF worker e giver idle])
  fix left val assume r: "remains N B left" and bal: "balanced N left val"
  have p: "pp_state e n W N g f b left val" unfolding pp_state_def
    using apart giver bal e worker remainsD [OF r] left_Nil [OF r] idle by (metis less_le_trans less_trans)
  { fix t x ops assume t: "t < N" and l: "left t = OpGive x # ops"
    then show "val x < cap x" using pp_give [OF p t l] cap [of x] by simp }
  { fix t x ops assume t: "t < N" and l: "left t = OpTry x # ops"
    from p t l show "0 < val x" by (cases rule: pp_shape) auto }
  { fix t assume ws: "\<forall>t<N. waits val (left t)" and t: "t < N"
    then show "left t = []" by (rule pp_finished [OF p]) }
qed

end
