(* ===== verification/Crew.thy ===== *)
theory Crew
  imports Token_Net
begin

text \<open>
  The frame that the benchmark programs share: a main thread hands a command to each task, every task runs the loop of
  its command on the counters and reports its total, and the main thread collects the reports. The operations that
  the programs plug in are the record \<open>crew_api\<close>, and the laws they have to keep are the locale \<open>crew_laws\<close>: inside it, a
  run neither panics nor gets stuck, every execution ends, and the collected totals are the right ones.
\<close>

section \<open>State\<close>

datatype 'r phase = Off | Running "'r net_op list" nat | Ended

datatype 'c main_pc = Launch "nat list" | Collect 'c | Finished 'c

text \<open>
  \<open>ca_take\<close> is told which tasks are at a \<open>take\<close> of the counter. \<open>ca_call\<close> hands a command to a task and is told whether
  the task is still busy; \<open>ca_next\<close> is how the task gets it. \<open>ca_leaves\<close> says whether the end of the task can be seen
  after its report. \<open>ca_collect\<close> also answers whether the report was the last one.
\<close>

record ('s, 'r, 'x, 'i, 'm, 'ch, 'c) crew_api =
  ca_tasks :: nat
  ca_give :: "'r \<Rightarrow> 's \<Rightarrow> 's outcome"
  ca_take :: "nat \<Rightarrow> nat list \<Rightarrow> 'r \<Rightarrow> 's \<Rightarrow> 's outcome"
  ca_try :: "'r \<Rightarrow> 's \<Rightarrow> 's outcome"
  ca_call :: "nat \<Rightarrow> bool \<Rightarrow> 'x \<Rightarrow> 'i \<Rightarrow> 'i outcome"
  ca_next :: "'i \<Rightarrow> ('x \<times> 'i) outcome"
  ca_body :: "nat \<Rightarrow> 'x \<Rightarrow> ('r net_op list \<times> nat) outcome"
  ca_leaves :: "nat \<Rightarrow> bool"
  ca_report :: "nat \<Rightarrow> nat \<Rightarrow> 'm"
  ca_send :: "'m \<Rightarrow> 'ch \<Rightarrow> 'ch outcome"
  ca_recv :: "'ch \<Rightarrow> ('m \<times> 'ch) outcome"
  ca_fresh :: 'c
  ca_collect :: "'m \<Rightarrow> 'c \<Rightarrow> ('c \<times> bool) outcome"

record ('s, 'r, 'i, 'ch, 'c) crew =
  cr_res :: 's
  cr_task :: "nat \<Rightarrow> 'r phase"
  cr_inbox :: "nat \<Rightarrow> 'i"
  cr_box :: 'ch
  cr_main :: "'c main_pc"

section \<open>Steps\<close>

fun at_take :: "'r \<Rightarrow> 'r phase \<Rightarrow> bool" where
  "at_take x (Running (OpTake y # ops) n) = (y = x)"
| "at_take x _ = False"

definition takers :: "nat \<Rightarrow> 'r \<Rightarrow> (nat \<Rightarrow> 'r phase) \<Rightarrow> nat list" where
  "takers N x task = filter (\<lambda>u. at_take x (task u)) [0..<N]"

fun exec_op :: "('s, 'r, 'x, 'i, 'm, 'ch, 'c) crew_api \<Rightarrow> nat \<Rightarrow> (nat \<Rightarrow> 'r phase) \<Rightarrow> 'r net_op \<Rightarrow> 's \<Rightarrow> nat \<Rightarrow> ('s \<times> nat) outcome" where
  "exec_op A t task (OpGive x) s n = bind_outcome (ca_give A x s) (\<lambda>s. Ret (s, n))"
| "exec_op A t task (OpTake x) s n = bind_outcome (ca_take A t (takers (ca_tasks A) x task) x s) (\<lambda>s. Ret (s, n))"
| "exec_op A t task (OpTry x) s n = bind_outcome (ca_try A x s) (\<lambda>s. Ret (s, n))"
| "exec_op A t task OpTick s n = Ret (s, n + 1)"
| "exec_op A t task OpYield s n = Ret (s, n)"

definition task_step :: "('s, 'r, 'x, 'i, 'm, 'ch, 'c) crew_api \<Rightarrow> nat \<Rightarrow> ('s, 'r, 'i, 'ch, 'c) crew \<Rightarrow> ('s, 'r, 'i, 'ch, 'c) crew outcome" where
  "task_step A t s = (case cr_task s t of
     Off \<Rightarrow> bind_outcome (ca_next A (cr_inbox s t)) (\<lambda>(x, i). bind_outcome (ca_body A t x) (\<lambda>(ops, n).
       Ret (s\<lparr>cr_inbox := (cr_inbox s)(t := i), cr_task := (cr_task s)(t := Running ops n)\<rparr>)))
   | Running (op # ops) n \<Rightarrow> bind_outcome (exec_op A t (cr_task s) op (cr_res s) n) (\<lambda>(r, n).
       Ret (s\<lparr>cr_res := r, cr_task := (cr_task s)(t := Running ops n)\<rparr>))
   | Running [] n \<Rightarrow> bind_outcome (ca_send A (ca_report A t n) (cr_box s)) (\<lambda>ch.
       Ret (s\<lparr>cr_box := ch, cr_task := (cr_task s)(t := if ca_leaves A t then Ended else Off)\<rparr>))
   | Ended \<Rightarrow> Ret (s\<lparr>cr_task := (cr_task s)(t := Off)\<rparr>))"

definition main_step :: "('s, 'r, 'x, 'i, 'm, 'ch, 'c) crew_api \<Rightarrow> 'x \<Rightarrow> ('s, 'r, 'i, 'ch, 'c) crew \<Rightarrow> ('s, 'r, 'i, 'ch, 'c) crew outcome" where
  "main_step A x s = (case cr_main s of
     Launch [] \<Rightarrow> Ret (s\<lparr>cr_main := Collect (ca_fresh A)\<rparr>)
   | Launch (t # ts) \<Rightarrow> bind_outcome (ca_call A t (cr_task s t \<noteq> Off) x (cr_inbox s t)) (\<lambda>i.
       Ret (s\<lparr>cr_inbox := (cr_inbox s)(t := i), cr_main := Launch ts\<rparr>))
   | Collect c \<Rightarrow> bind_outcome (ca_recv A (cr_box s)) (\<lambda>(m, ch). bind_outcome (ca_collect A m c) (\<lambda>(c, done).
       Ret (s\<lparr>cr_box := ch, cr_main := if done then Finished c else Collect c\<rparr>)))
   | Finished c \<Rightarrow> Blocked)"

inductive crew_step :: "('s, 'r, 'x, 'i, 'm, 'ch, 'c) crew_api \<Rightarrow> 'x \<Rightarrow> ('s, 'r, 'i, 'ch, 'c) crew \<Rightarrow> ('s, 'r, 'i, 'ch, 'c) crew \<Rightarrow> bool"
  for A x where
  task_moves: "t < ca_tasks A \<Longrightarrow> task_step A t s = Ret s' \<Longrightarrow> crew_step A x s s'"
| main_moves: "main_step A x s = Ret s' \<Longrightarrow> crew_step A x s s'"

text \<open>Nobody panics or misbehaves in this state, and every execution from a state ends as \<open>Q\<close> says.\<close>

definition fine :: "'a outcome \<Rightarrow> bool" where
  "fine r \<longleftrightarrow> r = Blocked \<or> (\<exists>a. r = Ret a)"

definition crew_fine :: "('s, 'r, 'x, 'i, 'm, 'ch, 'c) crew_api \<Rightarrow> 'x \<Rightarrow> ('s, 'r, 'i, 'ch, 'c) crew \<Rightarrow> bool" where
  "crew_fine A x s \<longleftrightarrow> (\<forall>t<ca_tasks A. fine (task_step A t s)) \<and> fine (main_step A x s)"

definition always_ends :: "('a \<Rightarrow> 'a \<Rightarrow> bool) \<Rightarrow> 'a \<Rightarrow> ('a \<Rightarrow> bool) \<Rightarrow> bool" where
  "always_ends step s Q \<longleftrightarrow> (\<nexists>f. f 0 = s \<and> (\<forall>i. step (f i) (f (Suc i)))) \<and>
     (\<forall>s'. step\<^sup>*\<^sup>* s s' \<longrightarrow> (\<nexists>s''. step s' s'') \<longrightarrow> Q s')"

lemma always_endsI:
  assumes inv: "I s" and step: "\<And>a b. I a \<Longrightarrow> step a b \<Longrightarrow> I b \<and> m b < (m a :: nat)"
    and last: "\<And>a. I a \<Longrightarrow> \<nexists>b. step a b \<Longrightarrow> Q a"
  shows "always_ends step s Q"
proof -
  have reach: "I b" if "step\<^sup>*\<^sup>* s b" for b using that by induction (use inv step in auto)
  have False if f: "f 0 = s" "\<forall>i. step (f i) (f (Suc i))" for f
  proof -
    have "I (f i) \<and> m (f i) + i \<le> m s" for i
    proof (induction i)
      case (Suc i)
      then have "I (f (Suc i)) \<and> m (f (Suc i)) < m (f i)" using step [of "f i" "f (Suc i)"] f(2) by blast
      with Suc show ?case by linarith
    qed (use f(1) inv in simp)
    from this [of "Suc (m s)"] show False by simp
  qed
  with reach last show ?thesis unfolding always_ends_def by metis
qed

lemma always_ends_rank:
  assumes inv: "I s r" and step: "\<And>a b r. I a r \<Longrightarrow> step a b \<Longrightarrow> \<exists>r'<r. I b (r' :: nat)"
    and last: "\<And>a r. I a r \<Longrightarrow> \<nexists>b. step a b \<Longrightarrow> Q a"
  shows "always_ends step s Q"
proof (rule always_endsI [where I = "\<lambda>a. \<exists>r. I a r" and m = "\<lambda>a. LEAST r. I a r"])
  fix a b assume "\<exists>r. I a r" and st: "step a b"
  then have "I a (LEAST r. I a r)" by (metis LeastI)
  then obtain r' where "r' < (LEAST r. I a r)" "I b r'" using step st by blast
  then show "(\<exists>r. I b r) \<and> (LEAST r. I b r) < (LEAST r. I a r)" using Least_le [of "I b" r'] by fastforce
qed (use inv last in blast)+

section \<open>The laws\<close>

fun op_res :: "'r net_op \<Rightarrow> 'r set" where
  "op_res (OpGive x) = {x}" | "op_res (OpTake x) = {x}" | "op_res (OpTry x) = {x}" | "op_res _ = {}"

text \<open>
  The task \<open>t\<close> has the body \<open>B t\<close> and reports \<open>goal t\<close>. The views are the tokens \<open>val\<close> of the counters, the command in
  an inbox, the reports in the box, and the reports that have been collected.
\<close>

locale crew_laws =
  fixes A :: "('s, 'r, 'x, 'i, 'm, 'ch, 'c) crew_api" and x :: 'x
    and B :: "nat \<Rightarrow> 'r net_op list" and goal :: "nat \<Rightarrow> nat"
    and ok :: "'s \<Rightarrow> bool" and val :: "'s \<Rightarrow> 'r \<Rightarrow> nat" and cap :: "'r \<Rightarrow> nat" and res :: "'r set"
    and oki :: "'i \<Rightarrow> bool" and inb :: "'i \<Rightarrow> 'x list" and okb :: "'ch \<Rightarrow> bool" and queued :: "'ch \<Rightarrow> 'm list"
    and okc :: "'c \<Rightarrow> bool" and seen :: "'c \<Rightarrow> nat \<rightharpoonup> nat"
  assumes tasks: "0 < ca_tasks A"
    and body: "t < ca_tasks A \<Longrightarrow> \<exists>n. ca_body A t x = Ret (B t, n) \<and> n + op_ticks (B t) = goal t"
    and names: "t < ca_tasks A \<Longrightarrow> op \<in> set (B t) \<Longrightarrow> op_res op \<subseteq> res"
    and live: "net_live (ca_tasks A) B cap"
    and give: "ok s \<Longrightarrow> y \<in> res \<Longrightarrow> val s y < cap y \<Longrightarrow> \<exists>s'. ca_give A y s = Ret s' \<and> ok s' \<and> val s' = (val s)(y := val s y + 1)"
    and take_fine: "ok s \<Longrightarrow> y \<in> res \<Longrightarrow> t \<in> set ts \<Longrightarrow> distinct ts \<Longrightarrow> set ts \<subseteq> {..<ca_tasks A} \<Longrightarrow>
      ca_take A t ts y s = Blocked \<or> 0 < val s y \<and> (\<exists>s'. ca_take A t ts y s = Ret s' \<and> ok s' \<and> val s' = (val s)(y := val s y - 1))"
    and take_some: "ok s \<Longrightarrow> y \<in> res \<Longrightarrow> 0 < val s y \<Longrightarrow> ts \<noteq> [] \<Longrightarrow> distinct ts \<Longrightarrow> set ts \<subseteq> {..<ca_tasks A} \<Longrightarrow>
      \<exists>t\<in>set ts. ca_take A t ts y s \<noteq> Blocked"
    and take_now: "t < ca_tasks A \<Longrightarrow> OpTry y \<in> set (B t) \<Longrightarrow> ok s \<Longrightarrow> y \<in> res \<Longrightarrow> 0 < val s y \<Longrightarrow> \<exists>s'. ca_try A y s = Ret s' \<and> ok s' \<and> val s' = (val s)(y := val s y - 1)"
    and call: "t < ca_tasks A \<Longrightarrow> oki i \<Longrightarrow> inb i = [] \<Longrightarrow> \<exists>i'. ca_call A t False x i = Ret i' \<and> oki i' \<and> inb i' = [x]"
    and get_some: "oki i \<Longrightarrow> inb i = [x] \<Longrightarrow> \<exists>i'. ca_next A i = Ret (x, i') \<and> oki i' \<and> inb i' = []"
    and get_none: "oki i \<Longrightarrow> inb i = [] \<Longrightarrow> ca_next A i = Blocked"
    and send: "okb ch \<Longrightarrow> ca_send A m ch = Blocked \<and> queued ch \<noteq> [] \<or> (\<exists>ch'. ca_send A m ch = Ret ch' \<and> okb ch' \<and> queued ch' = queued ch @ [m])"
    and recv_some: "okb ch \<Longrightarrow> queued ch = m # ms \<Longrightarrow> \<exists>ch'. ca_recv A ch = Ret (m, ch') \<and> okb ch' \<and> queued ch' = ms"
    and recv_none: "okb ch \<Longrightarrow> queued ch = [] \<Longrightarrow> ca_recv A ch = Blocked"
    and fresh: "okc (ca_fresh A)" "seen (ca_fresh A) = Map.empty"
    and collect: "okc c \<Longrightarrow> t < ca_tasks A \<Longrightarrow> seen c t = None \<Longrightarrow> dom (seen c) \<subseteq> {..<ca_tasks A} \<Longrightarrow>
      \<exists>c'. ca_collect A (ca_report A t (goal t)) c = Ret (c', insert t (dom (seen c)) = {..<ca_tasks A}) \<and> okc c' \<and> seen c' = (seen c)(t \<mapsto> goal t)"

section \<open>The invariant\<close>

definition to_launch :: "'c main_pc \<Rightarrow> nat list" where
  "to_launch m = (case m of Launch ts \<Rightarrow> ts | _ \<Rightarrow> [])"

definition main_seen :: "('c \<Rightarrow> nat \<rightharpoonup> nat) \<Rightarrow> 'c main_pc \<Rightarrow> nat \<rightharpoonup> nat" where
  "main_seen seen m = (case m of Launch ts \<Rightarrow> Map.empty | Collect c \<Rightarrow> seen c | Finished c \<Rightarrow> seen c)"

text \<open>The operations that a task has left, those of a body that it has not started yet included.\<close>

definition ops_left :: "(nat \<Rightarrow> 'r net_op list) \<Rightarrow> ('i \<Rightarrow> 'x list) \<Rightarrow> ('s, 'r, 'i, 'ch, 'c) crew \<Rightarrow> nat \<Rightarrow> 'r net_op list" where
  "ops_left B inb s t = (case cr_task s t of Running ops n \<Rightarrow> ops
     | _ \<Rightarrow> if t \<in> set (to_launch (cr_main s)) \<or> inb (cr_inbox s t) \<noteq> [] then B t else [])"

definition reported :: "('i \<Rightarrow> 'x list) \<Rightarrow> ('s, 'r, 'i, 'ch, 'c) crew \<Rightarrow> nat \<Rightarrow> bool" where
  "reported inb s t \<longleftrightarrow> t \<notin> set (to_launch (cr_main s)) \<and> inb (cr_inbox s t) = [] \<and> (cr_task s t = Off \<or> cr_task s t = Ended)"

text \<open>What holds of one task: it waits to be called, it is called, or it runs and its total is right so far.\<close>

definition task_ok :: "(nat \<Rightarrow> nat) \<Rightarrow> 'x \<Rightarrow> ('i \<Rightarrow> 'x list) \<Rightarrow> ('s, 'r, 'i, 'ch, 'c) crew \<Rightarrow> nat \<Rightarrow> bool" where
  "task_ok goal x inb s t \<longleftrightarrow>
     (t \<in> set (to_launch (cr_main s)) \<longrightarrow> cr_task s t = Off \<and> inb (cr_inbox s t) = []) \<and>
     (inb (cr_inbox s t) = [] \<or> inb (cr_inbox s t) = [x] \<and> cr_task s t = Off) \<and>
     (\<forall>ops n. cr_task s t = Running ops n \<longrightarrow> n + op_ticks ops = goal t)"

definition main_ok :: "nat \<Rightarrow> ('c \<Rightarrow> bool) \<Rightarrow> ('c \<Rightarrow> nat \<rightharpoonup> nat) \<Rightarrow> 'c main_pc \<Rightarrow> bool" where
  "main_ok N okc seen m \<longleftrightarrow> (case m of Launch ts \<Rightarrow> distinct ts \<and> set ts \<subseteq> {..<N}
     | Collect c \<Rightarrow> okc c \<and> dom (seen c) \<subset> {..<N} | Finished c \<Rightarrow> okc c \<and> dom (seen c) = {..<N})"

definition tallied :: "nat \<Rightarrow> (nat \<Rightarrow> nat) \<Rightarrow> (nat \<Rightarrow> nat \<Rightarrow> 'm) \<Rightarrow> (nat \<rightharpoonup> nat) \<Rightarrow> (nat \<Rightarrow> bool) \<Rightarrow> 'm list \<Rightarrow> bool" where
  "tallied N goal report got rep msgs \<longleftrightarrow> (\<forall>t n. got t = Some n \<longrightarrow> n = goal t) \<and>
     (\<exists>ts. msgs = map (\<lambda>t. report t (goal t)) ts \<and> distinct ts \<and> set ts \<inter> dom got = {} \<and> set ts \<union> dom got = {t. t < N \<and> rep t})"

context crew_laws
begin

abbreviation "left \<equiv> ops_left B inb"

definition "crew_inv s \<longleftrightarrow> ok (cr_res s) \<and> okb (cr_box s) \<and> (\<forall>t<ca_tasks A. oki (cr_inbox s t) \<and> task_ok goal x inb s t) \<and>
  main_ok (ca_tasks A) okc seen (cr_main s) \<and>
  remains (ca_tasks A) B (left s) \<and> balanced (ca_tasks A) (left s) (val (cr_res s)) \<and>
  tallied (ca_tasks A) goal (ca_report A) (main_seen seen (cr_main s)) (reported inb s) (queued (cr_box s))"

lemma invD:
  assumes "crew_inv s"
  shows "ok (cr_res s)" "okb (cr_box s)" "main_ok (ca_tasks A) okc seen (cr_main s)"
    and "remains (ca_tasks A) B (left s)" "balanced (ca_tasks A) (left s) (val (cr_res s))"
    and "tallied (ca_tasks A) goal (ca_report A) (main_seen seen (cr_main s)) (reported inb s) (queued (cr_box s))"
    and "t < ca_tasks A \<Longrightarrow> oki (cr_inbox s t)" "t < ca_tasks A \<Longrightarrow> task_ok goal x inb s t"
  using assms by (simp_all add: crew_inv_def)

lemma exec_ok:
  assumes inv: "crew_inv s" and t: "t < ca_tasks A" and run: "cr_task s t = Running (op # ops) n"
  shows "(\<exists>y. op = OpTake y) \<and> exec_op A t (cr_task s) op (cr_res s) n = Blocked \<or>
    (\<exists>r n'. exec_op A t (cr_task s) op (cr_res s) n = Ret (r, n') \<and> ok r \<and> net_ready op (val (cr_res s)) \<and>
      val r = net_val op (val (cr_res s)) \<and> n' + op_ticks ops = goal t)"
proof -
  have l: "left s t = op # ops" by (simp add: ops_left_def run)
  then have ob: "op \<in> set (B t)" using remainsD [OF invD(4) [OF inv] t] set_mono_suffix by fastforce
  then have res: "op_res op \<subseteq> res" by (rule names [OF t])
  have g: "n + op_ticks (op # ops) = goal t" using invD(8) [OF inv t] run by (simp add: task_ok_def)
  note room = live [unfolded net_live_def, THEN conjunct2, rule_format, OF invD(4,5) [OF inv]]
  show ?thesis
  proof (cases op)
    case (OpGive y)
    then have "val (cr_res s) y < cap y" using room t l by blast
    with give [OF invD(1) [OF inv], of y] res g OpGive show ?thesis by (auto simp: net_ready_def net_val_def)
  next
    case (OpTry y)
    then have "0 < val (cr_res s) y" using room t l by blast
    with take_now [OF t _ invD(1) [OF inv], of y] ob res g OpTry show ?thesis by (auto simp: net_ready_def net_val_def)
  next
    case (OpTake y)
    have "t \<in> set (takers (ca_tasks A) y (cr_task s))" "set (takers (ca_tasks A) y (cr_task s)) \<subseteq> {..<ca_tasks A}"
      "distinct (takers (ca_tasks A) y (cr_task s))" using t run OpTake by (auto simp: takers_def)
    moreover have "y \<in> res" using res OpTake by simp
    ultimately show ?thesis using take_fine [OF invD(1) [OF inv], of y t "takers (ca_tasks A) y (cr_task s)"] g OpTake
      by (auto simp: net_ready_def net_val_def)
  qed (use g invD(1) [OF inv] in \<open>auto simp: net_ready_def net_val_def\<close>)
qed

text \<open>A step of a task changes what that task has left, and nothing of the others.\<close>

lemma inv_task:
  assumes inv: "crew_inv s" and t: "t < ca_tasks A"
    and upd: "cr_main s' = cr_main s" "cr_task s' = (cr_task s)(t := p)" "cr_inbox s' = (cr_inbox s)(t := i)"
    and new: "ok (cr_res s')" "okb (cr_box s')" "oki i" "task_ok goal x inb s' t"
    and net: "remains (ca_tasks A) B ((left s)(t := left s' t))" "balanced (ca_tasks A) ((left s)(t := left s' t)) (val (cr_res s'))"
    and tally: "tallied (ca_tasks A) goal (ca_report A) (main_seen seen (cr_main s)) ((reported inb s)(t := reported inb s' t)) (queued (cr_box s'))"
  shows "crew_inv s'"
proof -
  have l: "left s' = (left s)(t := left s' t)" by (auto simp: fun_eq_iff ops_left_def upd)
  have r: "reported inb s' = (reported inb s)(t := reported inb s' t)" by (auto simp: fun_eq_iff reported_def upd)
  have o: "oki (cr_inbox s' u) \<and> task_ok goal x inb s' u" if "u < ca_tasks A" for u
    using invD(7,8) [OF inv that] new(3,4) by (cases "u = t") (simp_all add: upd task_ok_def)
  show ?thesis unfolding crew_inv_def
    using new(1,2) o invD(3) [OF inv] net tally by (simp add: l [symmetric] r [symmetric] upd(1))
qed

lemma start_ok:
  assumes inv: "crew_inv s" and t: "t < ca_tasks A" and off: "cr_task s t = Off"
  shows "inb (cr_inbox s t) = [] \<and> task_step A t s = Blocked \<or>
    (\<exists>i n. inb (cr_inbox s t) = [x] \<and> inb i = [] \<and> task_step A t s =
      Ret (s\<lparr>cr_inbox := (cr_inbox s)(t := i), cr_task := (cr_task s)(t := Running (B t) n)\<rparr>) \<and>
      crew_inv (s\<lparr>cr_inbox := (cr_inbox s)(t := i), cr_task := (cr_task s)(t := Running (B t) n)\<rparr>))"
proof (cases "inb (cr_inbox s t) = []")
  case True
  with get_none [OF invD(7) [OF inv t]] off show ?thesis by (simp add: task_step_def)
next
  case False
  with invD(8) [OF inv t] have q: "inb (cr_inbox s t) = [x]" "t \<notin> set (to_launch (cr_main s))" by (auto simp: task_ok_def)
  obtain i where i: "ca_next A (cr_inbox s t) = Ret (x, i)" "oki i" "inb i = []" using get_some [OF invD(7) [OF inv t] q(1)] by blast
  obtain n where n: "ca_body A t x = Ret (B t, n)" "n + op_ticks (B t) = goal t" using body [OF t] by blast
  let ?s = "s\<lparr>cr_inbox := (cr_inbox s)(t := i), cr_task := (cr_task s)(t := Running (B t) n)\<rparr>"
  have same: "left ?s t = left s t" "reported inb ?s t = reported inb s t" using q off by (simp_all add: ops_left_def reported_def)
  have "crew_inv ?s"
    by (rule inv_task [OF inv t]) (use invD [OF inv] i n q same in \<open>auto simp: task_ok_def\<close>)
  with i n q off show ?thesis by (auto simp: task_step_def)
qed

lemma work_ok:
  assumes inv: "crew_inv s" and t: "t < ca_tasks A" and run: "cr_task s t = Running (op # ops) n"
  shows "(\<exists>y. op = OpTake y) \<and> task_step A t s = Blocked \<or>
    (\<exists>r n'. task_step A t s = Ret (s\<lparr>cr_res := r, cr_task := (cr_task s)(t := Running ops n')\<rparr>) \<and>
      crew_inv (s\<lparr>cr_res := r, cr_task := (cr_task s)(t := Running ops n')\<rparr>))"
proof (cases "exec_op A t (cr_task s) op (cr_res s) n = Blocked")
  case True
  with exec_ok [OF inv t run] run show ?thesis by (auto simp: task_step_def)
next
  case False
  with exec_ok [OF inv t run] obtain r n' where e: "exec_op A t (cr_task s) op (cr_res s) n = Ret (r, n')" "ok r"
    "net_ready op (val (cr_res s))" "val r = net_val op (val (cr_res s))" "n' + op_ticks ops = goal t" by auto
  let ?s = "s\<lparr>cr_res := r, cr_task := (cr_task s)(t := Running ops n')\<rparr>"
  have l: "left s t = op # ops" "left ?s t = ops" by (simp_all add: ops_left_def run)
  have tok: "t \<notin> set (to_launch (cr_main s))" "inb (cr_inbox s t) = []" using invD(8) [OF inv t] run by (auto simp: task_ok_def)
  have same: "reported inb ?s t = reported inb s t" using run by (simp add: reported_def)
  have "crew_inv ?s"
    using balanced_step [OF invD(5) [OF inv] t l(1) e(3)] remains_step [OF invD(4) [OF inv] l(1)]
    by (intro inv_task [OF inv t, where i = "cr_inbox s t"])
      (use invD [OF inv] t e tok l same in \<open>auto simp: task_ok_def\<close>)
  with e(1) run show ?thesis by (auto simp: task_step_def)
qed

lemma tallied_report:
  assumes "tallied N goal report got rep msgs" and "t < N" and "\<not> rep t"
  shows "tallied N goal report got (rep(t := True)) (msgs @ [report t (goal t)])"
proof -
  obtain ts where ts: "msgs = map (\<lambda>t. report t (goal t)) ts" "distinct ts" "set ts \<inter> dom got = {}"
    "set ts \<union> dom got = {t. t < N \<and> rep t}" using assms(1) by (auto simp: tallied_def)
  then have "t \<notin> set ts" "t \<notin> dom got" using assms(3) by blast+
  with ts assms show ?thesis unfolding tallied_def by (intro conjI exI [of _ "ts @ [t]"]) auto
qed

lemma report_ok:
  assumes inv: "crew_inv s" and t: "t < ca_tasks A" and run: "cr_task s t = Running [] n"
  shows "queued (cr_box s) \<noteq> [] \<and> task_step A t s = Blocked \<or>
    (\<exists>ch. queued ch = queued (cr_box s) @ [ca_report A t (goal t)] \<and>
      task_step A t s = Ret (s\<lparr>cr_box := ch, cr_task := (cr_task s)(t := if ca_leaves A t then Ended else Off)\<rparr>) \<and>
      crew_inv (s\<lparr>cr_box := ch, cr_task := (cr_task s)(t := if ca_leaves A t then Ended else Off)\<rparr>))"
proof -
  have tok: "t \<notin> set (to_launch (cr_main s))" "inb (cr_inbox s t) = []" "n = goal t"
    using invD(8) [OF inv t] run by (auto simp: task_ok_def)
  consider "ca_send A (ca_report A t (goal t)) (cr_box s) = Blocked" "queued (cr_box s) \<noteq> []"
    | ch where "ca_send A (ca_report A t (goal t)) (cr_box s) = Ret ch" "okb ch" "queued ch = queued (cr_box s) @ [ca_report A t (goal t)]"
    using send [OF invD(2) [OF inv]] by blast
  then show ?thesis
  proof cases
    case 1
    then show ?thesis using run tok by (simp add: task_step_def)
  next
    case (2 ch)
    let ?s = "s\<lparr>cr_box := ch, cr_task := (cr_task s)(t := if ca_leaves A t then Ended else Off)\<rparr>"
    have same: "left s t = []" "left ?s t = []" "\<not> reported inb s t" "reported inb ?s t"
      using run tok by (simp_all add: ops_left_def reported_def)
    have l: "(left s)(t := []) = left s" using same(1) by auto
    have "crew_inv ?s"
      using tallied_report [OF invD(6) [OF inv] t same(3)] 2(3)
      by (intro inv_task [OF inv t, where i = "cr_inbox s t"])
        (use invD [OF inv] t 2 tok same l in \<open>auto simp: task_ok_def\<close>)
    with 2 run tok show ?thesis by (auto simp: task_step_def)
  qed
qed

lemma leave_ok:
  assumes inv: "crew_inv s" and t: "t < ca_tasks A" and e: "cr_task s t = Ended"
  shows "task_step A t s = Ret (s\<lparr>cr_task := (cr_task s)(t := Off)\<rparr>)" "crew_inv (s\<lparr>cr_task := (cr_task s)(t := Off)\<rparr>)"
proof -
  have tok: "t \<notin> set (to_launch (cr_main s))" "inb (cr_inbox s t) = []" using invD(8) [OF inv t] e by (auto simp: task_ok_def)
  let ?s = "s\<lparr>cr_task := (cr_task s)(t := Off)\<rparr>"
  have same: "left ?s t = left s t" "reported inb ?s t = reported inb s t" using tok e by (simp_all add: ops_left_def reported_def)
  show "crew_inv ?s"
    by (rule inv_task [OF inv t, where i = "cr_inbox s t"]) (use invD [OF inv] t tok same in \<open>auto simp: task_ok_def\<close>)
  show "task_step A t s = Ret ?s" using e by (simp add: task_step_def)
qed

lemma launch_ok:
  assumes inv: "crew_inv s" and m: "cr_main s = Launch (t # ts)"
  shows "\<exists>i. t < ca_tasks A \<and> cr_task s t = Off \<and> inb i = [x] \<and> t \<notin> set ts \<and> main_step A x s = Ret (s\<lparr>cr_inbox := (cr_inbox s)(t := i), cr_main := Launch ts\<rparr>) \<and>
    crew_inv (s\<lparr>cr_inbox := (cr_inbox s)(t := i), cr_main := Launch ts\<rparr>)"
proof -
  have t: "t < ca_tasks A" "t \<notin> set ts" "distinct ts" "set ts \<subseteq> {..<ca_tasks A}"
    using invD(3) [OF inv] m by (auto simp: main_ok_def)
  have off: "cr_task s t = Off" "inb (cr_inbox s t) = []" using invD(8) [OF inv t(1)] m by (auto simp: task_ok_def to_launch_def)
  obtain i where i: "ca_call A t False x (cr_inbox s t) = Ret i" "oki i" "inb i = [x]"
    using call [OF t(1) invD(7) [OF inv t(1)] off(2)] by blast
  let ?s = "s\<lparr>cr_inbox := (cr_inbox s)(t := i), cr_main := Launch ts\<rparr>"
  have l: "left ?s = left s" using off i m by (auto simp: fun_eq_iff ops_left_def to_launch_def)
  have r: "reported inb ?s = reported inb s" using off i m t by (auto simp: fun_eq_iff reported_def to_launch_def)
  have o: "oki (cr_inbox ?s u) \<and> task_ok goal x inb ?s u" if "u < ca_tasks A" for u
    using invD(7,8) [OF inv that] i off t m by (cases "u = t") (auto simp: task_ok_def to_launch_def)
  have "crew_inv ?s" unfolding crew_inv_def l r
    using invD [OF inv] o t m by (simp add: main_ok_def main_seen_def)
  with i off t m show ?thesis by (auto simp: main_step_def)
qed

lemma launched_ok:
  assumes inv: "crew_inv s" and m: "cr_main s = Launch []"
  shows "main_step A x s = Ret (s\<lparr>cr_main := Collect (ca_fresh A)\<rparr>)" "crew_inv (s\<lparr>cr_main := Collect (ca_fresh A)\<rparr>)"
proof -
  let ?s = "s\<lparr>cr_main := Collect (ca_fresh A)\<rparr>"
  have l: "left ?s = left s" using m by (auto simp: fun_eq_iff ops_left_def to_launch_def)
  have r: "reported inb ?s = reported inb s" using m by (auto simp: fun_eq_iff reported_def to_launch_def)
  have o: "task_ok goal x inb ?s u" if "u < ca_tasks A" for u using invD(8) [OF inv that] m by (simp add: task_ok_def to_launch_def)
  have "{} \<subset> {..<ca_tasks A}" using tasks by auto
  with o show "crew_inv ?s" unfolding crew_inv_def l r using invD [OF inv] m fresh by (simp add: main_ok_def main_seen_def)
  show "main_step A x s = Ret ?s" using m by (simp add: main_step_def)
qed

lemma tallied_collect:
  assumes "tallied N goal report got rep (m # ms)"
  shows "\<exists>t. t < N \<and> got t = None \<and> m = report t (goal t) \<and> tallied N goal report (got(t \<mapsto> goal t)) rep ms"
proof -
  have "\<exists>ts. m # ms = map (\<lambda>t. report t (goal t)) ts \<and> distinct ts \<and> set ts \<inter> dom got = {} \<and> set ts \<union> dom got = {t. t < N \<and> rep t}"
    using assms unfolding tallied_def by (rule conjunct2)
  then obtain ts where ts: "m # ms = map (\<lambda>t. report t (goal t)) ts" "distinct ts" "set ts \<inter> dom got = {}"
    "set ts \<union> dom got = {t. t < N \<and> rep t}" by iprover
  then obtain t us where us: "ts = t # us" "m = report t (goal t)" "ms = map (\<lambda>t. report t (goal t)) us" by (cases ts) auto
  have "set us \<inter> dom (got(t \<mapsto> goal t)) = {}" "set us \<union> dom (got(t \<mapsto> goal t)) = {t. t < N \<and> rep t}" "distinct us"
    using ts us(1) by auto
  then have "tallied N goal report (got(t \<mapsto> goal t)) rep ms" unfolding tallied_def using assms us(3)
    by (intro conjI exI [of _ us]) (auto simp: tallied_def split: if_splits)
  moreover have "t < N" "got t = None" using ts us(1) by auto
  ultimately show ?thesis using us(2) by blast
qed

lemma collect_ok:
  assumes inv: "crew_inv s" and m: "cr_main s = Collect c"
  shows "queued (cr_box s) = [] \<and> main_step A x s = Blocked \<or>
    (\<exists>ch m'. length (queued (cr_box s)) = Suc (length (queued ch)) \<and> (\<exists>c. m' = Finished c \<or> m' = Collect c) \<and>
      main_step A x s = Ret (s\<lparr>cr_box := ch, cr_main := m'\<rparr>) \<and> crew_inv (s\<lparr>cr_box := ch, cr_main := m'\<rparr>))"
proof (cases "queued (cr_box s)")
  case Nil
  with recv_none [OF invD(2) [OF inv]] m show ?thesis by (simp add: main_step_def)
next
  case (Cons msg ms)
  obtain ch where ch: "ca_recv A (cr_box s) = Ret (msg, ch)" "okb ch" "queued ch = ms" using recv_some [OF invD(2) [OF inv] Cons] by blast
  have got: "main_seen seen (cr_main s) = seen c" and mo: "okc c" "dom (seen c) \<subseteq> {..<ca_tasks A}"
    using m invD(3) [OF inv] by (auto simp: main_seen_def main_ok_def)
  then obtain t where t: "t < ca_tasks A" "seen c t = None" "msg = ca_report A t (goal t)"
    "tallied (ca_tasks A) goal (ca_report A) ((seen c)(t \<mapsto> goal t)) (reported inb s) ms"
    using tallied_collect [of "ca_tasks A" "ca_report A" "seen c" "reported inb s" msg ms] invD(6) [OF inv] Cons by auto
  obtain c' where c': "ca_collect A msg c = Ret (c', insert t (dom (seen c)) = {..<ca_tasks A})" "okc c'" "seen c' = (seen c)(t \<mapsto> goal t)"
    using collect [OF mo(1) t(1,2) mo(2)] t(3) by blast
  let ?m = "if insert t (dom (seen c)) = {..<ca_tasks A} then Finished c' else Collect c'"
  let ?s = "s\<lparr>cr_box := ch, cr_main := ?m\<rparr>"
  have l: "left ?s = left s" using m by (auto simp: fun_eq_iff ops_left_def to_launch_def)
  have r: "reported inb ?s = reported inb s" using m by (auto simp: fun_eq_iff reported_def to_launch_def)
  have o: "task_ok goal x inb ?s u" if "u < ca_tasks A" for u using invD(8) [OF inv that] m by (simp add: task_ok_def to_launch_def)
  have k: "main_ok (ca_tasks A) okc seen ?m" "main_seen seen ?m = (seen c)(t \<mapsto> goal t)"
    using c' mo t(1) by (auto simp: main_ok_def main_seen_def)
  have "crew_inv ?s" unfolding crew_inv_def l r using invD [OF inv] o ch t(4) k by simp
  with ch c' m Cons show ?thesis by (intro disjI2 exI [of _ ch] exI [of _ ?m]) (auto simp: main_step_def)
qed

section \<open>Every step counts\<close>

definition "task_left s t = (case cr_task s t of Running ops n \<Rightarrow> length ops + 3 | Ended \<Rightarrow> 1
   | Off \<Rightarrow> if t \<in> set (to_launch (cr_main s)) then length (B t) + 5 else if inb (cr_inbox s t) \<noteq> [] then length (B t) + 4 else 0)"

definition "crew_left s = (case cr_main s of Launch ts \<Rightarrow> 2 | Collect c \<Rightarrow> 1 | Finished c \<Rightarrow> 0) + length (queued (cr_box s)) +
  (\<Sum>t<ca_tasks A. task_left s t)"

lemma task_left_less:
  assumes "t < ca_tasks A" and "\<And>u. u \<noteq> t \<Longrightarrow> task_left s' u = task_left s u" and "task_left s' t + k < task_left s t"
  shows "(\<Sum>u<ca_tasks A. task_left s' u) + k < (\<Sum>u<ca_tasks A. task_left s u)"
proof -
  have "(\<Sum>u\<in>{..<ca_tasks A} - {t}. task_left s' u) = (\<Sum>u\<in>{..<ca_tasks A} - {t}. task_left s u)"
    using assms(2) by (intro sum.cong) auto
  then show ?thesis using assms(1,3) by (simp add: sum.remove [of "{..<ca_tasks A}" t])
qed

lemma task_step_ok:
  assumes inv: "crew_inv s" and t: "t < ca_tasks A"
  shows "task_step A t s = Blocked \<or> (\<exists>s'. task_step A t s = Ret s' \<and> crew_inv s' \<and> crew_left s' < crew_left s)"
proof -
  note tok = invD(8) [OF inv t, unfolded task_ok_def]
  have less: "crew_left s' < crew_left s" if "cr_main s' = cr_main s" "length (queued (cr_box s')) \<le> length (queued (cr_box s)) + k"
    "\<And>u. u \<noteq> t \<Longrightarrow> cr_task s' u = cr_task s u \<and> cr_inbox s' u = cr_inbox s u" "task_left s' t + k < task_left s t" for s' k
  proof -
    have "task_left s' u = task_left s u" if "u \<noteq> t" for u using that \<open>cr_main s' = cr_main s\<close>
        \<open>\<And>u. u \<noteq> t \<Longrightarrow> cr_task s' u = cr_task s u \<and> cr_inbox s' u = cr_inbox s u\<close> by (simp add: task_left_def)
    from task_left_less [OF t this that(4)] that(1,2) show ?thesis by (simp add: crew_left_def)
  qed
  show ?thesis
  proof (cases "cr_task s t")
    case Off
    with start_ok [OF inv t Off] tok show ?thesis by (auto intro!: less [of _ 0] simp: task_left_def)
  next
    case (Running ops n)
    show ?thesis
    proof (cases ops)
      case Nil
      then show ?thesis using report_ok [OF inv t] Running tok by (auto intro!: less [of _ 1] simp: task_left_def)
    next
      case (Cons op ops')
      then show ?thesis using work_ok [OF inv t] Running by (auto intro!: less [of _ 0] simp: task_left_def)
    qed
  next
    case Ended
    with leave_ok [OF inv t] tok show ?thesis by (auto intro!: less [of _ 0] simp: task_left_def)
  qed
qed

lemma main_step_ok:
  assumes inv: "crew_inv s"
  shows "main_step A x s = Blocked \<or> (\<exists>s'. main_step A x s = Ret s' \<and> crew_inv s' \<and> crew_left s' < crew_left s)"
proof (cases "cr_main s")
  case (Launch ts)
  show ?thesis
  proof (cases ts)
    case Nil
    have "task_left (s\<lparr>cr_main := Collect (ca_fresh A)\<rparr>) = task_left s" using Launch Nil by (auto simp: fun_eq_iff task_left_def to_launch_def)
    then show ?thesis using launched_ok [OF inv] Launch Nil by (simp add: crew_left_def)
  next
    case (Cons t ts')
    then obtain i where i: "t < ca_tasks A" "cr_task s t = Off" "inb i = [x]" "t \<notin> set ts'"
      "main_step A x s = Ret (s\<lparr>cr_inbox := (cr_inbox s)(t := i), cr_main := Launch ts'\<rparr>)"
      "crew_inv (s\<lparr>cr_inbox := (cr_inbox s)(t := i), cr_main := Launch ts'\<rparr>)"
      using launch_ok [OF inv] Launch by blast
    let ?s = "s\<lparr>cr_inbox := (cr_inbox s)(t := i), cr_main := Launch ts'\<rparr>"
    have "(\<Sum>u<ca_tasks A. task_left ?s u) + 0 < (\<Sum>u<ca_tasks A. task_left s u)"
      using i Launch Cons by (intro task_left_less [OF i(1)]) (auto simp: task_left_def to_launch_def)
    then have "crew_left ?s < crew_left s" using Launch Cons by (simp add: crew_left_def)
    with i(5,6) show ?thesis by blast
  qed
next
  case (Collect c)
  { fix ch and m' :: "'c main_pc" assume "length (queued (cr_box s)) = Suc (length (queued ch))" "\<exists>c. m' = Finished c \<or> m' = Collect c"
    moreover from this(2) have "task_left (s\<lparr>cr_box := ch, cr_main := m'\<rparr>) = task_left s"
      using Collect by (auto simp: fun_eq_iff task_left_def to_launch_def)
    ultimately have "crew_left (s\<lparr>cr_box := ch, cr_main := m'\<rparr>) < crew_left s" using Collect by (auto simp: crew_left_def) }
  with collect_ok [OF inv Collect] show ?thesis by blast
qed (simp add: main_step_def)

lemma crew_step_ok: "crew_inv s \<Longrightarrow> crew_step A x s s' \<Longrightarrow> crew_inv s' \<and> crew_left s' < crew_left s"
proof (erule crew_step.cases)
  fix t u u' assume "crew_inv s" "t < ca_tasks A" "task_step A t u = Ret u'" "s = u" "s' = u'"
  then show ?thesis using task_step_ok [of s t] by auto
next
  fix u u' assume "crew_inv s" "main_step A x u = Ret u'" "s = u" "s' = u'"
  then show ?thesis using main_step_ok [of s] by auto
qed

lemma inv_fine: "crew_inv s \<Longrightarrow> crew_fine A x s"
  using task_step_ok main_step_ok unfolding crew_fine_def fine_def by blast

section \<open>No deadlock\<close>

text \<open>Somebody can make a step other than the end of a task that has reported.\<close>

definition "moves s \<longleftrightarrow> (\<exists>t<ca_tasks A. cr_task s t \<noteq> Ended \<and> task_step A t s \<noteq> Blocked) \<or> main_step A x s \<noteq> Blocked"

lemma take_moves:
  assumes inv: "crew_inv s" and t: "t < ca_tasks A" and run: "cr_task s t = Running (OpTake y # ops) n" and v: "0 < val (cr_res s) y"
  shows "moves s"
proof -
  let ?ts = "takers (ca_tasks A) y (cr_task s)"
  have "OpTake y \<in> set (B t)" using remainsD [OF invD(4) [OF inv] t] set_mono_suffix run by (fastforce simp: ops_left_def)
  then have y: "y \<in> res" using names [OF t, of "OpTake y"] by simp
  have ts: "?ts \<noteq> []" "distinct ?ts" "set ?ts \<subseteq> {..<ca_tasks A}"
    using t run by (auto simp: takers_def filter_empty_conv intro!: bexI [of _ t])
  obtain u where u: "u \<in> set ?ts" "ca_take A u ?ts y (cr_res s) \<noteq> Blocked" using take_some [OF invD(1) [OF inv] y v ts] by blast
  then have uN: "u < ca_tasks A" "at_take y (cr_task s u)" by (auto simp: takers_def)
  then obtain ops' n' where "cr_task s u = Running (OpTake y # ops') n'" by (elim at_take.elims) auto
  then have "cr_task s u \<noteq> Ended" "task_step A u s \<noteq> Blocked" using u(2) by (auto simp: task_step_def outcome_simps)
  with uN(1) show ?thesis unfolding moves_def by blast
qed

lemma task_waits:
  assumes inv: "crew_inv s" and t: "t < ca_tasks A" and stuck: "\<not> moves s" and m: "to_launch (cr_main s) = []"
  shows "waits (val (cr_res s)) (left s t)"
    and "queued (cr_box s) = [] \<Longrightarrow> left s t = [] \<Longrightarrow> (cr_task s t = Off \<or> cr_task s t = Ended) \<and> inb (cr_inbox s t) = []"
proof -
  have b: "task_step A t s = Blocked" if "cr_task s t \<noteq> Ended" using stuck t that unfolding moves_def by blast
  have off: "inb (cr_inbox s t) = []" if "cr_task s t = Off" using start_ok [OF inv t that] b that by auto
  have ended: "inb (cr_inbox s t) = []" if "cr_task s t = Ended" using invD(8) [OF inv t] that by (auto simp: task_ok_def)
  have run: "\<exists>y. op = OpTake y \<and> val (cr_res s) y = 0" if "cr_task s t = Running (op # ops) n" for op ops n
    using work_ok [OF inv t that] b take_moves [OF inv t] that stuck by (cases op) auto
  show "waits (val (cr_res s)) (left s t)"
  proof (cases "cr_task s t")
    case (Running ops n)
    then show ?thesis using run by (cases ops) (auto simp: waits_def ops_left_def)
  qed (use off ended m in \<open>auto simp: waits_def ops_left_def\<close>)
  show "(cr_task s t = Off \<or> cr_task s t = Ended) \<and> inb (cr_inbox s t) = []" if "queued (cr_box s) = []" "left s t = []"
  proof (cases "cr_task s t")
    case (Running ops n)
    then show ?thesis using that report_ok [OF inv t] b by (auto simp: ops_left_def)
  qed (use off ended in auto)
qed

definition "crew_over s \<longleftrightarrow> (\<exists>c. cr_main s = Finished c \<and> okc c \<and> (\<forall>t<ca_tasks A. seen c t = Some (goal t))) \<and>
  ok (cr_res s) \<and> val (cr_res s) = (\<lambda>_. 0) \<and> okb (cr_box s) \<and> queued (cr_box s) = [] \<and>
  (\<forall>t<ca_tasks A. (cr_task s t = Off \<or> cr_task s t = Ended) \<and> oki (cr_inbox s t) \<and> inb (cr_inbox s t) = [])"

lemma stuck_over:
  assumes inv: "crew_inv s" and stuck: "\<not> moves s"
  shows "crew_over s"
proof -
  have mb: "main_step A x s = Blocked" using stuck unfolding moves_def by blast
  obtain c where c: "cr_main s = Finished c \<or> cr_main s = Collect c \<and> queued (cr_box s) = []"
  proof (cases "cr_main s")
    case (Launch ts)
    then show ?thesis using launch_ok [OF inv] launched_ok [OF inv] mb by (cases ts) fastforce+
  qed (use collect_ok [OF inv] mb that in fastforce)+
  then have m: "to_launch (cr_main s) = []" and got: "main_seen seen (cr_main s) = seen c" by (auto simp: to_launch_def main_seen_def)
  note wait = task_waits [OF inv _ stuck m]
  have none: "left s t = []" if "t < ca_tasks A" for t
    using live [unfolded net_live_def, THEN conjunct2, rule_format, OF invD(4,5) [OF inv]] wait(1) that by blast
  obtain ts where ts: "queued (cr_box s) = map (\<lambda>t. ca_report A t (goal t)) ts" "set ts \<inter> dom (seen c) = {}"
    "set ts \<union> dom (seen c) = {t. t < ca_tasks A \<and> reported inb s t}" "\<forall>t n. seen c t = Some n \<longrightarrow> n = goal t"
    using invD(6) [OF inv] unfolding tallied_def got by blast
  have all: "dom (seen c) = {..<ca_tasks A}"
  proof (cases "cr_main s = Finished c")
    case False
    then have "queued (cr_box s) = []" using c by simp
    with ts(1,3) wait(2) none m show ?thesis by (auto simp: reported_def)
  qed (use invD(3) [OF inv] in \<open>simp add: main_ok_def\<close>)
  then have fin: "cr_main s = Finished c" "okc c" using c invD(3) [OF inv] by (auto simp: main_ok_def)
  have "set ts \<subseteq> {..<ca_tasks A}" using ts(3) by auto
  then have "set ts = {}" using ts(2) unfolding all by (simp add: inf.absorb1)
  then have q: "queued (cr_box s) = []" using ts(1) by simp
  have "val (cr_res s) y = 0" for y using balancedD [OF invD(5) [OF inv], of y] none by simp
  moreover have "seen c t = Some (goal t)" if "t < ca_tasks A" for t using all ts(4) that by (metis domD lessThan_iff)
  ultimately show ?thesis unfolding crew_over_def using fin invD(1,2,7) [OF inv] q wait(2) none by auto
qed

definition "crew_done s \<longleftrightarrow> crew_over s \<and> (\<forall>t<ca_tasks A. cr_task s t = Off)"

lemma stuck_done:
  assumes inv: "crew_inv s" and stuck: "\<nexists>s'. crew_step A x s s'"
  shows "crew_done s"
proof -
  have blocked: "task_step A t s = Blocked" if "t < ca_tasks A" for t using task_step_ok [OF inv that] task_moves [OF that] stuck by blast
  moreover have "main_step A x s = Blocked" using main_step_ok [OF inv] main_moves [of A x s] stuck by blast
  ultimately have "crew_over s" using stuck_over [OF inv] unfolding moves_def by blast
  moreover have "cr_task s t \<noteq> Ended" if "t < ca_tasks A" for t using leave_ok(1) [OF inv that] blocked [OF that] by auto
  ultimately show ?thesis unfolding crew_done_def crew_over_def by blast
qed

definition "crew_ready ts s \<longleftrightarrow> cr_main s = Launch ts \<and> distinct ts \<and> set ts = {..<ca_tasks A} \<and>
  ok (cr_res s) \<and> val (cr_res s) = (\<lambda>_. 0) \<and> okb (cr_box s) \<and> queued (cr_box s) = [] \<and>
  (\<forall>t<ca_tasks A. cr_task s t = Off \<and> oki (cr_inbox s t) \<and> inb (cr_inbox s t) = [])"

lemma ready_inv:
  assumes "crew_ready ts s" shows "crew_inv s"
proof -
  have l: "left s t = B t" if "t < ca_tasks A" for t
    using assms that by (auto simp: ops_left_def crew_ready_def to_launch_def)
  then have "(\<Sum>t<ca_tasks A. h (left s t)) = (\<Sum>t<ca_tasks A. h (B t))" for h :: "'r net_op list \<Rightarrow> nat" by simp
  moreover have "balanced (ca_tasks A) B (\<lambda>_. 0)" using live by (simp add: net_live_def)
  ultimately have "balanced (ca_tasks A) (left s) (val (cr_res s))" using assms by (simp add: balanced_def crew_ready_def)
  moreover have "remains (ca_tasks A) B (left s)" using l by (simp add: remains_def)
  moreover have "tallied (ca_tasks A) goal (ca_report A) (main_seen seen (cr_main s)) (reported inb s) (queued (cr_box s))"
    using assms by (auto simp: tallied_def crew_ready_def main_seen_def reported_def to_launch_def)
  ultimately show ?thesis using assms unfolding crew_inv_def
    by (simp add: crew_ready_def task_ok_def main_ok_def to_launch_def)
qed

text \<open>The result: nobody panics, and every execution ends with the right totals and everything as at the start.\<close>

lemma crew_completes:
  assumes "crew_ready ts s"
  shows "always_ends (crew_step A x) s crew_done" and "(crew_step A x)\<^sup>*\<^sup>* s s' \<Longrightarrow> crew_fine A x s'"
proof -
  show "always_ends (crew_step A x) s crew_done"
    by (rule always_endsI [where I = crew_inv and m = crew_left]) (use ready_inv [OF assms] crew_step_ok stuck_done in auto)
  have "crew_inv s'" if "(crew_step A x)\<^sup>*\<^sup>* s s'" for s' using that by induction (use ready_inv [OF assms] crew_step_ok in auto)
  then show "(crew_step A x)\<^sup>*\<^sup>* s s' \<Longrightarrow> crew_fine A x s'" by (blast intro: inv_fine)
qed

text \<open>A task whose end can be seen may still be on its way out when the main thread has finished.\<close>

definition "inside h s \<longleftrightarrow> \<not> (reported inb s h \<and> cr_task s h = Off)"

lemma inside_task:
  assumes "ca_leaves A h" and "inside h s" and "cr_task s t \<noteq> Ended" and "task_step A t s = Ret s'"
  shows "inside h s'"
proof (cases "t = h")
  case True
  then have "cr_task s' h \<noteq> Off" using assms by (auto simp: task_step_def outcome_simps split: phase.splits list.splits)
  then show ?thesis by (simp add: inside_def)
next
  case False
  then have "cr_task s' h = cr_task s h" "cr_inbox s' h = cr_inbox s h" "cr_main s' = cr_main s"
    using assms(4) by (auto simp: task_step_def outcome_simps split: phase.splits list.splits)
  with assms(2) show ?thesis by (simp add: inside_def reported_def)
qed

lemma inside_main:
  assumes inv: "crew_inv s" and i: "inside h s" and st: "main_step A x s = Ret s'"
  shows "inside h s'"
proof (cases "cr_main s")
  case (Launch ts)
  show ?thesis
  proof (cases ts)
    case Nil
    then show ?thesis using launched_ok(1) [OF inv] Launch i st by (auto simp: inside_def reported_def to_launch_def)
  next
    case (Cons t ts')
    with launch_ok [OF inv, of t ts'] Launch st obtain j where "s' = s\<lparr>cr_inbox := (cr_inbox s)(t := j), cr_main := Launch ts'\<rparr>" "inb j = [x]" by auto
    with i Launch Cons show ?thesis by (auto simp: inside_def reported_def to_launch_def)
  qed
next
  case (Collect c)
  with collect_ok [OF inv Collect] st obtain ch m' c' where "s' = s\<lparr>cr_box := ch, cr_main := m'\<rparr>" "m' = Finished c' \<or> m' = Collect c'" by auto
  with i Collect show ?thesis by (auto simp: inside_def reported_def to_launch_def)
qed (use st in \<open>simp add: main_step_def\<close>)

lemma late_leaver:
  assumes h: "h < ca_tasks A" "ca_leaves A h"
  shows "crew_inv s \<Longrightarrow> inside h s \<Longrightarrow> \<exists>s'. (crew_step A x)\<^sup>*\<^sup>* s s' \<and> crew_over s' \<and> cr_task s' h = Ended"
proof (induction "crew_left s" arbitrary: s rule: less_induct)
  case less
  show ?case
  proof (cases "moves s")
    case True
    then obtain s1 where s1: "crew_step A x s s1" "inside h s1"
      unfolding moves_def using task_step_ok [OF less.prems(1)] main_step_ok [OF less.prems(1)]
        inside_task [OF h(2) less.prems(2)] inside_main [OF less.prems] task_moves main_moves by metis
    with crew_step_ok [OF less.prems(1) s1(1)] less.hyps [of s1] show ?thesis by (meson converse_rtranclp_into_rtranclp)
  next
    case False
    then have o: "crew_over s" by (rule stuck_over [OF less.prems(1)])
    moreover have "cr_task s h = Ended" using o less.prems(2) h(1) by (auto simp: crew_over_def inside_def reported_def to_launch_def)
    ultimately show ?thesis by blast
  qed
qed

lemma ready_inside: "crew_ready ts s \<Longrightarrow> h < ca_tasks A \<Longrightarrow> inside h s"
  by (auto simp: crew_ready_def inside_def reported_def to_launch_def)

text \<open>Once the main thread has finished, it has the right totals, even while tasks are still on their way out.\<close>

lemma finished_totals:
  assumes "crew_ready ts s" and "(crew_step A x)\<^sup>*\<^sup>* s s'" and "cr_main s' = Finished c"
  shows "okc c" and "t < ca_tasks A \<Longrightarrow> seen c t = Some (goal t)"
proof -
  have inv: "crew_inv s'" using assms(2) by induction (use ready_inv [OF assms(1)] crew_step_ok in auto)
  from invD(3,6) [OF this] assms(3) show "okc c" "t < ca_tasks A \<Longrightarrow> seen c t = Some (goal t)"
    by (auto simp: main_ok_def tallied_def main_seen_def)
qed

end

end
