(* ===== verification/Bench.thy ===== *)
theory Bench
  imports Crew Channel Sys_Sync
begin

text \<open>
  \<open>samples/bench/src/lib.rs\<close>: the benchmark of the semaphores with threads. Six workers, a low and a high priority
  thread run the loops of a command on two arrays of semaphores; the main thread hands out the command over channels
  and collects the results. The threads are interleaved in every order, whatever their priorities are.
\<close>

section \<open>Commands\<close>

definition NUM_THREADS :: nat where "NUM_THREADS = 6"
definition TOTAL_ITERS :: nat where "TOTAL_ITERS = 1000"

text \<open>The counts are of type \<open>usize\<close>.\<close>

datatype Bench_Command = Empty | SimpleSem nat | SimpleSemYield nat | SemWait nat | SemWaitSame nat | SemHigh nat
  | SemPingPong nat | SemOnePingPong nat

definition is_same_priority :: "Bench_Command \<Rightarrow> bool" where
  "is_same_priority self = (case self of SemWaitSame _ \<Rightarrow> True | SemOnePingPong _ \<Rightarrow> True | _ \<Rightarrow> False)"

datatype TestResult = Worker nat nat | Low | High

text \<open>The semaphores of the two arrays.\<close>

datatype bench_sem = Sem nat | Back nat

record bench_sems =
  bs_sems :: "Semaphore list"
  bs_back :: "Semaphore list"

section \<open>The threads\<close>

definition simple_sem :: "bench_sem \<Rightarrow> nat \<Rightarrow> bench_sem net_op list" where
  "simple_sem sem count = for_count count [OpGive sem, OpTry sem, OpTick]"

definition simple_sem_yield :: "bench_sem \<Rightarrow> nat \<Rightarrow> bench_sem net_op list" where
  "simple_sem_yield sem count = for_count count [OpGive sem, OpTry sem, OpTick, OpYield]"

definition sem_take :: "bench_sem \<Rightarrow> nat \<Rightarrow> bench_sem net_op list" where
  "sem_take sem count = for_count count [OpTake sem, OpTick]"

definition ping_pong_worker :: "bench_sem \<Rightarrow> bench_sem \<Rightarrow> nat \<Rightarrow> bench_sem net_op list" where
  "ping_pong_worker sem back_sem count = for_count count [OpTake sem, OpGive back_sem, OpTick]"

definition ping_pong_replier :: "nat \<Rightarrow> bench_sem net_op list" where
  "ping_pong_replier count = for_count count (concat (map (\<lambda>i. [OpGive (Sem i), OpTake (Back i)]) [0..<NUM_THREADS]))"

definition one_ping_pong_replier :: "nat \<Rightarrow> bench_sem net_op list" where
  "one_ping_pong_replier count = for_count count (for_count NUM_THREADS [OpGive (Sem 0), OpTake (Back 0)])"

definition give_all :: "nat \<Rightarrow> bench_sem net_op list" where
  "give_all count = for_count count (map (\<lambda>i. OpGive (Sem i)) [0..<NUM_THREADS])"

definition worker :: "nat \<Rightarrow> Bench_Command \<Rightarrow> bench_sem net_op list" where
  "worker ident cmd = (case cmd of
     Empty \<Rightarrow> []
   | SimpleSem count \<Rightarrow> simple_sem (Sem ident) count
   | SimpleSemYield count \<Rightarrow> simple_sem_yield (Sem ident) count
   | SemWait count \<Rightarrow> sem_take (Sem ident) count
   | SemHigh count \<Rightarrow> sem_take (Sem ident) count
   | SemPingPong count \<Rightarrow> ping_pong_worker (Sem ident) (Back ident) count
   | SemOnePingPong count \<Rightarrow> ping_pong_worker (Sem 0) (Back 0) count
   | SemWaitSame count \<Rightarrow> sem_take (Sem ident) count)"

definition low_runner :: "Bench_Command \<Rightarrow> bench_sem net_op list" where
  "low_runner cmd = (case cmd of
     Empty \<Rightarrow> []
   | SimpleSem _ \<Rightarrow> []
   | SimpleSemYield _ \<Rightarrow> []
   | SemWait count \<Rightarrow> give_all count
   | SemWaitSame count \<Rightarrow> give_all count
   | SemHigh _ \<Rightarrow> []
   | SemPingPong count \<Rightarrow> ping_pong_replier count
   | SemOnePingPong count \<Rightarrow> one_ping_pong_replier count)"

definition high_runner :: "Bench_Command \<Rightarrow> bench_sem net_op list" where
  "high_runner cmd = (case cmd of SemHigh count \<Rightarrow> give_all count | _ \<Rightarrow> [])"

text \<open>The threads have the numbers of the workers, then \<open>low\<close>, then \<open>high\<close>.\<close>

definition low_task :: nat where "low_task = NUM_THREADS"
definition high_task :: nat where "high_task = NUM_THREADS + 1"

definition tests_body :: "nat \<Rightarrow> Bench_Command \<Rightarrow> bench_sem net_op list" where
  "tests_body t cmd = (if t < NUM_THREADS then worker t cmd else if t = low_task then low_runner cmd else high_runner cmd)"

definition tests_report :: "nat \<Rightarrow> nat \<Rightarrow> TestResult" where
  "tests_report t count = (if t < NUM_THREADS then Worker t count else if t = low_task then Low else High)"

section \<open>The semaphores\<close>

definition get_sem :: "bench_sem \<Rightarrow> bench_sems \<Rightarrow> Semaphore outcome" where
  "get_sem x s = (case x of
     Sem i \<Rightarrow> if i < length (bs_sems s) then Ret (bs_sems s ! i) else Panic ''index out of bounds''
   | Back i \<Rightarrow> if i < length (bs_back s) then Ret (bs_back s ! i) else Panic ''index out of bounds'')"

definition put_sem :: "bench_sem \<Rightarrow> Semaphore \<Rightarrow> bench_sems \<Rightarrow> bench_sems" where
  "put_sem x m s = (case x of Sem i \<Rightarrow> s\<lparr>bs_sems := (bs_sems s)[i := m]\<rparr> | Back i \<Rightarrow> s\<lparr>bs_back := (bs_back s)[i := m]\<rparr>)"

definition bench_give :: "k_sem_api \<Rightarrow> (bench_sem \<Rightarrow> ptr) \<Rightarrow> bench_sem \<Rightarrow> bench_sems \<Rightarrow> bench_sems outcome" where
  "bench_give K addr x s = bind_outcome (get_sem x s) (\<lambda>m. bind_outcome (Semaphore_give K (addr x) m) (\<lambda>m. Ret (put_sem x m s)))"

definition bench_take :: "k_sem_api \<Rightarrow> (bench_sem \<Rightarrow> ptr) \<Rightarrow> k_timeout_t \<Rightarrow> bench_sem \<Rightarrow> bench_sems \<Rightarrow> bench_sems outcome" where
  "bench_take K addr timeout x s = bind_outcome (get_sem x s) (\<lambda>m. bind_outcome (Semaphore_take K (addr x) m timeout) (\<lambda>(r, m).
     bind_outcome (unwrap r) (\<lambda>_. Ret (put_sem x m s))))"

text \<open>At the start of \<open>run\<close>: a semaphore with a count is reset, and the count is printed as a warning.\<close>

definition reset_sem :: "k_sem_api \<Rightarrow> (bench_sem \<Rightarrow> ptr) \<Rightarrow> bench_sem \<Rightarrow> bench_sems \<Rightarrow> (bench_sems \<times> usize list) outcome" where
  "reset_sem K addr x s = bind_outcome (get_sem x s) (\<lambda>m. bind_outcome (Semaphore_count_get K (addr x) m) (\<lambda>(n, m).
     if 0 < n then bind_outcome (Semaphore_reset K (addr x) m) (\<lambda>m. Ret (put_sem x m s, [n])) else Ret (put_sem x m s, [])))"

fun reset_sems :: "k_sem_api \<Rightarrow> (bench_sem \<Rightarrow> ptr) \<Rightarrow> bench_sem list \<Rightarrow> bench_sems \<Rightarrow> (bench_sems \<times> usize list) outcome" where
  "reset_sems K addr [] s = Ret (s, [])"
| "reset_sems K addr (x # xs) s = bind_outcome (reset_sem K addr x s) (\<lambda>(s, w).
     bind_outcome (reset_sems K addr xs s) (\<lambda>(s, w'). Ret (s, w @ w')))"

section \<open>Results\<close>

record collecting =
  co_results :: "nat option list"
  co_low :: bool
  co_high :: bool
  co_count :: int

definition collecting_new :: collecting where
  "collecting_new = \<lparr>co_results = replicate NUM_THREADS None, co_low = False, co_high = False, co_count = int (2 + NUM_THREADS)\<rparr>"

text \<open>One round of the loop that receives the results, with the answer whether the loop is left.\<close>

definition run_collect :: "TestResult \<Rightarrow> collecting \<Rightarrow> (collecting \<times> bool) outcome" where
  "run_collect cmd c = (let c' = c\<lparr>co_count := co_count c - 1\<rparr>; stop = co_count c' \<le> 0 in case cmd of
     Worker ident count \<Rightarrow>
       if ident < length (co_results c)
       then if co_results c ! ident \<noteq> None then Panic ''Multiple result from worker''
            else Ret (c'\<lparr>co_results := (co_results c)[ident := Some count]\<rparr>, stop)
       else Panic ''index out of bounds''
   | Low \<Rightarrow> if co_low c then Panic ''Multiple results from 'low' worker'' else Ret (c'\<lparr>co_low := True\<rparr>, stop)
   | High \<Rightarrow> if co_high c then Panic ''Multiple results from 'high' worker'' else Ret (c'\<lparr>co_high := True\<rparr>, stop))"

text \<open>The end of \<open>run\<close>: the sum of the results, which must fit \<open>usize\<close>.\<close>

definition sum_results :: "nat option list \<Rightarrow> nat outcome" where
  "sum_results rs = (let sum = sum_list (map (\<lambda>r. case r of None \<Rightarrow> 0 | Some n \<Rightarrow> n) rs)
     in if sum < 2 ^ 32 then Ret sum else Panic ''attempt to add with overflow'')"

definition run_total :: "collecting \<Rightarrow> nat outcome" where
  "run_total c = (if co_count c \<noteq> 0 then Panic ''Receiver channel is closed'' else sum_results (co_results c))"

section \<open>The benchmark\<close>

text \<open>Commands go over channels of one place, results over an unbounded channel.\<close>

definition cmd_send :: "'x \<Rightarrow> 'x chan_spec \<Rightarrow> 'x chan_spec outcome" where
  "cmd_send m c = bind_outcome (spec_send c m K_FOREVER) (\<lambda>(r, c). bind_outcome (unwrap r) (\<lambda>_. Ret c))"

definition cmd_recv :: "'x chan_spec \<Rightarrow> ('x \<times> 'x chan_spec) outcome" where
  "cmd_recv c = bind_outcome (spec_recv c K_FOREVER) (\<lambda>(r, c). bind_outcome (unwrap r) (\<lambda>m. Ret (m, c)))"

type_synonym bench = "(bench_sems, bench_sem, Bench_Command chan_spec, TestResult chan_spec, collecting) crew"

definition tests_api :: "k_sem_api \<Rightarrow> (bench_sem \<Rightarrow> ptr) \<Rightarrow>
    (bench_sems, bench_sem, Bench_Command, Bench_Command chan_spec, TestResult, TestResult chan_spec, collecting) crew_api" where
  "tests_api K addr = \<lparr>ca_tasks = NUM_THREADS + 2, ca_give = bench_give K addr, ca_take = (\<lambda>t ts. bench_take K addr K_FOREVER),
     ca_try = bench_take K addr K_NO_WAIT, ca_call = (\<lambda>t busy. cmd_send), ca_next = cmd_recv,
     ca_body = (\<lambda>t cmd. Ret (tests_body t cmd, 0)), ca_leaves = (\<lambda>t. False), ca_report = tests_report,
     ca_send = cmd_send, ca_recv = cmd_recv, ca_fresh = collecting_new, ca_collect = run_collect\<rparr>"

text \<open>The order of the calls matters to the benchmark: the thread with the highest priority comes first.\<close>

definition run_order :: "nat list" where
  "run_order = [high_task] @ [0..<NUM_THREADS] @ [low_task]"

definition run_start :: "k_sem_api \<Rightarrow> (bench_sem \<Rightarrow> ptr) \<Rightarrow> bench \<Rightarrow> (bench \<times> usize list) outcome" where
  "run_start K addr s = bind_outcome (reset_sems K addr (map Sem [0..<NUM_THREADS] @ map Back [0..<NUM_THREADS]) (cr_res s)) (\<lambda>(r, w).
     Ret (s\<lparr>cr_res := r, cr_main := Launch run_order\<rparr>, w))"

definition ThreadTests_new :: "bench outcome" where
  "ThreadTests_new = bind_outcome (Semaphore_new 0 (- 1)) (\<lambda>m.
     Ret \<lparr>cr_res = \<lparr>bs_sems = replicate NUM_THREADS m, bs_back = replicate NUM_THREADS m\<rparr>, cr_task = (\<lambda>_. Off),
          cr_inbox = (\<lambda>_. \<lparr>cs_cap = Some 1, cs_msgs = []\<rparr>), cr_box = \<lparr>cs_cap = None, cs_msgs = []\<rparr>, cr_main = Finished collecting_new\<rparr>)"

section \<open>The semaphores keep their counts\<close>

definition bench_names :: "bench_sem set" where
  "bench_names = Sem ` {..<NUM_THREADS} \<union> Back ` {..<NUM_THREADS}"

definition sem_of :: "bench_sem \<Rightarrow> bench_sems \<Rightarrow> Semaphore" where
  "sem_of x s = (case x of Sem i \<Rightarrow> bs_sems s ! i | Back i \<Rightarrow> bs_back s ! i)"

definition bench_ok :: "(bench_sem \<Rightarrow> ptr) \<Rightarrow> bench_sems \<Rightarrow> bool" where
  "bench_ok addr s \<longleftrightarrow> length (bs_sems s) = NUM_THREADS \<and> length (bs_back s) = NUM_THREADS \<and>
     (\<forall>x\<in>bench_names. Semaphore_ok (addr x) (sem_of x s) \<and> sem_cap (sem_of x s) = 2 ^ 32 - 1)"

definition bench_val :: "bench_sems \<Rightarrow> bench_sem \<Rightarrow> nat" where
  "bench_val s x = (if x \<in> bench_names then sem_val (sem_of x s) else 0)"

lemma get_sem_of: "bench_ok addr s \<Longrightarrow> x \<in> bench_names \<Longrightarrow> get_sem x s = Ret (sem_of x s)"
  by (auto simp: bench_ok_def bench_names_def get_sem_def sem_of_def)

lemma put_sem_ok:
  assumes "bench_ok addr s" and "x \<in> bench_names" and "Semaphore_ok (addr x) m" and "sem_cap m = 2 ^ 32 - 1"
  shows "bench_ok addr (put_sem x m s)" and "bench_val (put_sem x m s) = (bench_val s)(x := sem_val m)"
proof -
  have len: "length (bs_sems s) = NUM_THREADS" "length (bs_back s) = NUM_THREADS" using assms(1) by (simp_all add: bench_ok_def)
  have of: "sem_of y (put_sem x m s) = (if y = x then m else sem_of y s)" if "y \<in> bench_names" for y
    using assms(2) that len by (cases x; cases y) (auto simp: sem_of_def put_sem_def bench_names_def nth_list_update)
  have "length (bs_sems (put_sem x m s)) = NUM_THREADS" "length (bs_back (put_sem x m s)) = NUM_THREADS"
    using len by (cases x; simp add: put_sem_def)+
  with of assms show "bench_ok addr (put_sem x m s)" by (simp add: bench_ok_def)
  show "bench_val (put_sem x m s) = (bench_val s)(x := sem_val m)" using of assms(2) by (auto simp: fun_eq_iff bench_val_def)
qed

locale bench_kernel = zephyr_sem K for K :: k_sem_api +
  fixes addr :: "bench_sem \<Rightarrow> ptr"
  assumes not_null: "addr x \<noteq> 0"
begin

lemma at: "placed_sem K (addr x)"
  using zephyr_sem_axioms not_null by (simp add: placed_sem_def placed_sem_axioms_def)

lemma okD: "bench_ok addr s \<Longrightarrow> x \<in> bench_names \<Longrightarrow> Semaphore_ok (addr x) (sem_of x s) \<and> sem_cap (sem_of x s) = 2 ^ 32 - 1 \<and> sem_val (sem_of x s) = bench_val s x"
  by (simp add: bench_ok_def bench_val_def)

lemma bench_give_ok:
  assumes s: "bench_ok addr s" and x: "x \<in> bench_names" and v: "bench_val s x < 2 ^ 32 - 1"
  shows "\<exists>s'. bench_give K addr x s = Ret s' \<and> bench_ok addr s' \<and> bench_val s' = (bench_val s)(x := bench_val s x + 1)"
proof -
  obtain m where m: "Semaphore_give K (addr x) (sem_of x s) = Ret m" "Semaphore_ok (addr x) m" "sem_val m = bench_val s x + 1" "sem_cap m = 2 ^ 32 - 1"
    using placed_sem.give_one [OF at, of x "sem_of x s"] okD [OF s x] v by auto
  with put_sem_ok [OF s x m(2,4)] get_sem_of [OF s x] show ?thesis by (auto simp: bench_give_def)
qed

lemma bench_take_ok:
  assumes s: "bench_ok addr s" and x: "x \<in> bench_names" and v: "0 < bench_val s x"
  shows "\<exists>s'. bench_take K addr to x s = Ret s' \<and> bench_ok addr s' \<and> bench_val s' = (bench_val s)(x := bench_val s x - 1)"
proof -
  obtain m where m: "Semaphore_take K (addr x) (sem_of x s) to = Ret (Ok (), m)" "Semaphore_ok (addr x) m" "sem_val m = bench_val s x - 1" "sem_cap m = 2 ^ 32 - 1"
    using placed_sem.take_one [OF at, of x "sem_of x s" to] okD [OF s x] v by auto
  with put_sem_ok [OF s x m(2,4)] get_sem_of [OF s x] show ?thesis by (auto simp: bench_take_def)
qed

lemma bench_take_waits:
  "bench_ok addr s \<Longrightarrow> x \<in> bench_names \<Longrightarrow> bench_val s x = 0 \<Longrightarrow> bench_take K addr K_FOREVER x s = Blocked"
  using placed_sem.take_none [OF at, of x "sem_of x s"] okD [of s x] get_sem_of [of addr s x] by (auto simp: bench_take_def)

lemma reset_sem_ok:
  assumes s: "bench_ok addr s" and x: "x \<in> bench_names"
  shows "\<exists>s' w. reset_sem K addr x s = Ret (s', w) \<and> bench_ok addr s' \<and> bench_val s' = (bench_val s)(x := 0) \<and> (bench_val s x = 0 \<longrightarrow> w = [])"
proof -
  obtain n m where m: "Semaphore_count_get K (addr x) (sem_of x s) = Ret (n, m)" "unat n = bench_val s x" "Semaphore_ok (addr x) m"
    "sem_val m = bench_val s x" "sem_cap m = 2 ^ 32 - 1"
    using placed_sem.count_get_val [OF at, of x "sem_of x s"] okD [OF s x] by auto
  obtain m' where m': "Semaphore_reset K (addr x) m = Ret m'" "Semaphore_ok (addr x) m'" "sem_val m' = 0" "sem_cap m' = 2 ^ 32 - 1"
    using placed_sem.reset_zero [OF at m(3)] m(5) by auto
  note defs = reset_sem_def get_sem_of [OF s x] m(1) m'(1)
  show ?thesis
  proof (cases "n = 0")
    case True
    then have "bench_val s x = 0" using m(2) by simp
    with True put_sem_ok [OF s x m(3,5)] m(4) show ?thesis by (auto simp: defs)
  next
    case False
    then have "0 < n" "unat n \<noteq> 0" by (simp_all add: word_greater_zero_iff unat_eq_zero)
    then have "0 < n" "bench_val s x \<noteq> 0" using m(2) by simp_all
    with put_sem_ok [OF s x m'(2,4)] m'(3) show ?thesis by (auto simp: defs)
  qed
qed

lemma reset_sems_ok:
  "bench_ok addr s \<Longrightarrow> set xs \<subseteq> bench_names \<Longrightarrow>
   \<exists>s' w. reset_sems K addr xs s = Ret (s', w) \<and> bench_ok addr s' \<and> bench_val s' = (\<lambda>x. if x \<in> set xs then 0 else bench_val s x) \<and>
     (bench_val s = (\<lambda>_. 0) \<longrightarrow> w = [])"
proof (induction xs arbitrary: s)
  case (Cons x xs)
  then obtain s1 w1 where s1: "reset_sem K addr x s = Ret (s1, w1)" "bench_ok addr s1" "bench_val s1 = (bench_val s)(x := 0)" "bench_val s x = 0 \<longrightarrow> w1 = []"
    using reset_sem_ok [of s x] by auto
  obtain s2 w2 where s2: "reset_sems K addr xs s1 = Ret (s2, w2)" "bench_ok addr s2" "bench_val s2 = (\<lambda>x. if x \<in> set xs then 0 else bench_val s1 x)"
    "bench_val s1 = (\<lambda>_. 0) \<longrightarrow> w2 = []" using Cons.IH [OF s1(2)] Cons.prems(2) by auto
  have "bench_val s = (\<lambda>_. 0) \<longrightarrow> bench_val s1 = (\<lambda>_. 0)" using s1(3) by (auto simp: fun_eq_iff)
  moreover have "bench_val s2 = (\<lambda>y. if y \<in> set (x # xs) then 0 else bench_val s y)" using s1(3) s2(3) by (auto simp: fun_eq_iff)
  ultimately show ?case using s1 s2 by (auto simp: fun_eq_iff)
qed simp

end

section \<open>The loops of the commands\<close>

definition cmd_count :: "Bench_Command \<Rightarrow> nat" where
  "cmd_count cmd = (case cmd of Empty \<Rightarrow> 0 | SimpleSem n \<Rightarrow> n | SimpleSemYield n \<Rightarrow> n | SemWait n \<Rightarrow> n | SemWaitSame n \<Rightarrow> n
     | SemHigh n \<Rightarrow> n | SemPingPong n \<Rightarrow> n | SemOnePingPong n \<Rightarrow> n)"

lemma pp_blocks_const: "pp_blocks (\<lambda>_. a) (\<lambda>_. b) js = for_count (length js) [OpGive a, OpTake b]"
  by (induction js) simp_all

lemmas body_defs = tests_body_def worker_def low_runner_def high_runner_def simple_sem_def simple_sem_yield_def sem_take_def
  ping_pong_worker_def ping_pong_replier_def one_ping_pong_replier_def give_all_def low_task_def

lemma inj_Sem: "inj_on Sem A" by (simp add: inj_on_def)

lemma tests_wait:
  assumes "\<And>t. t < NUM_THREADS \<Longrightarrow> tests_body t cmd = for_count n [OpTake (Sem t), OpTick]"
    and "NUM_THREADS \<le> g" "g < NUM_THREADS + 2" "tests_body g cmd = give_all n"
    and "\<And>t. NUM_THREADS \<le> t \<Longrightarrow> t < NUM_THREADS + 2 \<Longrightarrow> t \<noteq> g \<Longrightarrow> tests_body t cmd = []" and "n < 2 ^ 32"
  shows "net_live (NUM_THREADS + 2) (\<lambda>t. tests_body t cmd) (\<lambda>_. 2 ^ 32 - 1)"
  using assms by (intro net_wait [where f = Sem and n = n and g = g and e = "[OpTick]"]) (auto simp: give_all_def inj_Sem)

lemma tests_live:
  assumes "cmd_count cmd < 2 ^ 32"
  shows "net_live (NUM_THREADS + 2) (\<lambda>t. tests_body t cmd) (\<lambda>_. 2 ^ 32 - 1)"
proof (cases cmd)
  case Empty
  then show ?thesis by (intro net_self [where f = Sem]) (auto simp: body_defs inj_Sem intro!: own_loopI)
next
  case (SimpleSem n)
  then show ?thesis by (intro net_self [where f = Sem]) (auto simp: body_defs inj_Sem intro!: own_loopI)
next
  case (SimpleSemYield n)
  then show ?thesis by (intro net_self [where f = Sem]) (auto simp: body_defs inj_Sem intro!: own_loopI)
next
  case (SemWait n)
  with assms show ?thesis by (intro tests_wait [where n = n and g = low_task]) (auto simp: body_defs cmd_count_def)
next
  case (SemWaitSame n)
  with assms show ?thesis by (intro tests_wait [where n = n and g = low_task]) (auto simp: body_defs cmd_count_def)
next
  case (SemHigh n)
  with assms show ?thesis by (intro tests_wait [where n = n and g = high_task]) (auto simp: body_defs cmd_count_def high_task_def)
next
  case (SemPingPong n)
  then show ?thesis by (intro net_ping_pong [where f = Sem and b = Back and n = n and g = low_task and e = "[OpTick]"])
      (auto simp: body_defs pp_blocks_def pp_apart_def)
next
  case (SemOnePingPong n)
  then show ?thesis by (intro net_ping_pong [where f = "\<lambda>_. Sem 0" and b = "\<lambda>_. Back 0" and n = n and g = low_task and e = "[OpTick]"])
      (auto simp: body_defs pp_blocks_const pp_apart_def)
qed

lemma set_for_count_iff: "op \<in> set (for_count n p) \<Longrightarrow> op \<in> set p"
  using set_for_count by fastforce

lemma tests_names:
  assumes "t < NUM_THREADS + 2" and "op \<in> set (tests_body t cmd)" shows "op_res op \<subseteq> bench_names"
proof -
  have "0 < NUM_THREADS" by (simp add: NUM_THREADS_def)
  with assms(2) show ?thesis
    by (cases cmd) (auto simp: body_defs bench_names_def dest!: set_for_count_iff split: if_splits)
qed

lemma tests_ticks:
  assumes "t < NUM_THREADS + 2" shows "op_ticks (tests_body t cmd) = (if t < NUM_THREADS then cmd_count cmd else 0)"
proof -
  have "op_ticks (concat (map (\<lambda>i. [OpGive (Sem i), OpTake (Back i)]) js)) = 0" for js by (induction js) auto
  then show ?thesis by (cases cmd) (auto simp: body_defs cmd_count_def)
qed

section \<open>The collector\<close>

definition results_seen :: "collecting \<Rightarrow> nat \<rightharpoonup> nat" where
  "results_seen c t = (if t < NUM_THREADS then co_results c ! t
     else if t = low_task \<and> co_low c \<or> t = high_task \<and> co_high c then Some 0 else None)"

definition collecting_ok :: "collecting \<Rightarrow> bool" where
  "collecting_ok c \<longleftrightarrow> length (co_results c) = NUM_THREADS \<and> co_count c = int (NUM_THREADS + 2) - int (card (dom (results_seen c)))"

lemma results_seen_dom: "dom (results_seen c) \<subseteq> {..<NUM_THREADS + 2}"
  by (auto simp: results_seen_def low_task_def high_task_def split: if_splits)

lemma seen_Worker: "t < NUM_THREADS \<Longrightarrow> length (co_results c) = NUM_THREADS \<Longrightarrow>
    results_seen (c\<lparr>co_count := n, co_results := (co_results c)[t := Some k]\<rparr>) = (results_seen c)(t \<mapsto> k)"
  by (auto simp: fun_eq_iff results_seen_def nth_list_update)

lemma seen_helper: "results_seen (c\<lparr>co_count := n, co_low := True\<rparr>) = (results_seen c)(low_task \<mapsto> 0)"
  "results_seen (c\<lparr>co_count := n, co_high := True\<rparr>) = (results_seen c)(high_task \<mapsto> 0)"
  by (auto simp: fun_eq_iff results_seen_def low_task_def high_task_def)

lemma collecting_new_ok: "collecting_ok collecting_new" "results_seen collecting_new = Map.empty"
proof -
  show "results_seen collecting_new = Map.empty" by (auto simp: fun_eq_iff results_seen_def collecting_new_def)
  then show "collecting_ok collecting_new" by (simp add: collecting_ok_def collecting_new_def)
qed

lemma run_collect_ok:
  assumes ok: "collecting_ok c" and t: "t < NUM_THREADS + 2" and none: "results_seen c t = None" and n: "NUM_THREADS \<le> t \<longrightarrow> n = 0"
  shows "\<exists>c'. run_collect (tests_report t n) c = Ret (c', insert t (dom (results_seen c)) = {..<NUM_THREADS + 2}) \<and>
    collecting_ok c' \<and> results_seen c' = (results_seen c)(t \<mapsto> n)"
proof -
  let ?D = "dom (results_seen c)"
  have fin: "finite ?D" using results_seen_dom finite_subset by blast
  have card: "card (insert t ?D) = card ?D + 1" using none fin by (simp add: domIff)
  have "insert t ?D = {..<NUM_THREADS + 2} \<longleftrightarrow> NUM_THREADS + 2 \<le> card ?D + 1"
    using card_seteq [of "{..<NUM_THREADS + 2}" "insert t ?D"] results_seen_dom t card by auto
  then have stop: "co_count c - 1 \<le> 0 \<longleftrightarrow> insert t ?D = {..<NUM_THREADS + 2}" using ok by (auto simp: collecting_ok_def)
  have okI: "collecting_ok c'" if "co_count c' = co_count c - 1" "length (co_results c') = NUM_THREADS" "results_seen c' = (results_seen c)(t \<mapsto> n)" for c'
    using that ok card by (simp add: collecting_ok_def)
  have len: "length (co_results c) = NUM_THREADS" using ok by (simp add: collecting_ok_def)
  consider "t < NUM_THREADS" | "t = low_task" | "t = high_task" using t unfolding low_task_def high_task_def by linarith
  then show ?thesis
  proof cases
    case 1
    then have "co_results c ! t = None" using none by (simp add: results_seen_def)
    then have r: "run_collect (tests_report t n) c = Ret (c\<lparr>co_count := co_count c - 1, co_results := (co_results c)[t := Some n]\<rparr>, co_count c - 1 \<le> 0)"
      using 1 len by (simp add: run_collect_def tests_report_def Let_def)
    show ?thesis unfolding r stop using seen_Worker [OF 1 len] len by (auto intro!: okI)
  next
    case 2
    then have "\<not> co_low c" using none by (auto simp: results_seen_def low_task_def)
    then have r: "run_collect (tests_report t n) c = Ret (c\<lparr>co_count := co_count c - 1, co_low := True\<rparr>, co_count c - 1 \<le> 0)"
      using 2 by (simp add: run_collect_def tests_report_def Let_def low_task_def)
    have "n = 0" using n 2 by (simp add: low_task_def)
    then show ?thesis unfolding r stop using seen_helper(1) 2 len by (auto intro!: okI)
  next
    case 3
    then have "\<not> co_high c" using none by (auto simp: results_seen_def low_task_def high_task_def)
    then have r: "run_collect (tests_report t n) c = Ret (c\<lparr>co_count := co_count c - 1, co_high := True\<rparr>, co_count c - 1 \<le> 0)"
      using 3 by (simp add: run_collect_def tests_report_def Let_def low_task_def high_task_def)
    have "n = 0" using n 3 by (simp add: high_task_def)
    then show ?thesis unfolding r stop using seen_helper(2) 3 len by (auto intro!: okI)
  qed
qed

lemma results_total:
  assumes ok: "collecting_ok c" and all: "\<And>t. t < NUM_THREADS + 2 \<Longrightarrow> results_seen c t = Some (if t < NUM_THREADS then k else 0)"
    and fits: "NUM_THREADS * k < 2 ^ 32"
  shows "co_count c = 0" and "sum_results (co_results c) = Ret (NUM_THREADS * k)"
proof -
  have "dom (results_seen c) = {..<NUM_THREADS + 2}" using all results_seen_dom [of c] by auto
  with ok show "co_count c = 0" by (simp add: collecting_ok_def)
  have "co_results c ! t = Some k" if "t < NUM_THREADS" for t using all [of t] that by (simp add: results_seen_def)
  then have "co_results c = replicate NUM_THREADS (Some k)" using ok by (intro nth_equalityI) (auto simp: collecting_ok_def)
  with fits show "sum_results (co_results c) = Ret (NUM_THREADS * k)" by (simp add: sum_results_def sum_list_replicate Let_def)
qed

section \<open>The benchmark keeps the laws of a crew\<close>

lemma cmd_send_room: "\<not> spec_full c \<Longrightarrow> cmd_send m c = Ret (c\<lparr>cs_msgs := cs_msgs c @ [m]\<rparr>)"
  by (simp add: cmd_send_def spec_send_def)

lemma cmd_recv_simps: "cs_msgs c = [] \<Longrightarrow> cmd_recv c = Blocked" "cs_msgs c = m # ms \<Longrightarrow> cmd_recv c = Ret (m, c\<lparr>cs_msgs := ms\<rparr>)"
  by (simp_all add: cmd_recv_def spec_recv_def)

abbreviation tests_goal :: "Bench_Command \<Rightarrow> nat \<Rightarrow> nat" where
  "tests_goal cmd \<equiv> \<lambda>t. if t < NUM_THREADS then cmd_count cmd else 0"

context bench_kernel
begin

lemma tests_laws:
  assumes "NUM_THREADS * cmd_count cmd < 2 ^ 32"
  shows "crew_laws (tests_api K addr) cmd (\<lambda>t. tests_body t cmd) (tests_goal cmd) (bench_ok addr) bench_val (\<lambda>_. 2 ^ 32 - 1) bench_names
    (\<lambda>c. cs_cap c = Some 1) cs_msgs (\<lambda>c. cs_cap c = None) cs_msgs collecting_ok results_seen"
proof unfold_locales
  have N: "ca_tasks (tests_api K addr) = NUM_THREADS + 2" by (simp add: tests_api_def)
  show "0 < ca_tasks (tests_api K addr)" by (simp add: N)
  show "net_live (ca_tasks (tests_api K addr)) (\<lambda>t. tests_body t cmd) (\<lambda>_. 2 ^ 32 - 1)"
    unfolding N using assms by (intro tests_live) (simp add: NUM_THREADS_def)
  show "collecting_ok (ca_fresh (tests_api K addr))" "results_seen (ca_fresh (tests_api K addr)) = Map.empty"
    using collecting_new_ok by (simp_all add: tests_api_def)
  fix t op s y ts
  show "\<exists>n. ca_body (tests_api K addr) t cmd = Ret (tests_body t cmd, n) \<and> n + op_ticks (tests_body t cmd) = tests_goal cmd t"
    if "t < ca_tasks (tests_api K addr)" using that tests_ticks [of t cmd] by (simp add: tests_api_def)
  show "op_res op \<subseteq> bench_names" if "t < ca_tasks (tests_api K addr)" "op \<in> set (tests_body t cmd)"
    using that tests_names unfolding N by blast
  assume s: "bench_ok addr s" and y: "y \<in> bench_names"
  show "\<exists>s'. ca_give (tests_api K addr) y s = Ret s' \<and> bench_ok addr s' \<and> bench_val s' = (bench_val s)(y := bench_val s y + 1)"
    if "bench_val s y < 2 ^ 32 - 1" using bench_give_ok [OF s y that] by (simp add: tests_api_def)
  show "ca_take (tests_api K addr) t ts y s = Blocked \<or>
      0 < bench_val s y \<and> (\<exists>s'. ca_take (tests_api K addr) t ts y s = Ret s' \<and> bench_ok addr s' \<and> bench_val s' = (bench_val s)(y := bench_val s y - 1))"
    using bench_take_ok [OF s y] bench_take_waits [OF s y] by (cases "bench_val s y = 0") (auto simp: tests_api_def)
  show "\<exists>t\<in>set ts. ca_take (tests_api K addr) t ts y s \<noteq> Blocked" if "0 < bench_val s y" "ts \<noteq> []"
    using bench_take_ok [OF s y that(1), of K_FOREVER] that(2) by (cases ts) (auto simp: tests_api_def)
  show "\<exists>s'. ca_try (tests_api K addr) y s = Ret s' \<and> bench_ok addr s' \<and> bench_val s' = (bench_val s)(y := bench_val s y - 1)"
    if "0 < bench_val s y" using bench_take_ok [OF s y that] by (simp add: tests_api_def)
next
  fix t and i i' :: "Bench_Command chan_spec" and ch :: "TestResult chan_spec" and m ms c
  show "\<exists>i'. ca_call (tests_api K addr) t False cmd i = Ret i' \<and> cs_cap i' = Some 1 \<and> cs_msgs i' = [cmd]"
    if "cs_cap i = Some 1" "cs_msgs i = []" using that cmd_send_room [of i cmd] by (simp add: tests_api_def spec_full_def)
  show "\<exists>i'. ca_next (tests_api K addr) i = Ret (cmd, i') \<and> cs_cap i' = Some 1 \<and> cs_msgs i' = []"
    if "cs_cap i = Some 1" "cs_msgs i = [cmd]" using that cmd_recv_simps(2) [of i] by (simp add: tests_api_def)
  show "ca_next (tests_api K addr) i = Blocked" if "cs_msgs i = []" using that cmd_recv_simps(1) [of i] by (simp add: tests_api_def)
  show "ca_send (tests_api K addr) m ch = Blocked \<and> cs_msgs ch \<noteq> [] \<or>
      (\<exists>ch'. ca_send (tests_api K addr) m ch = Ret ch' \<and> cs_cap ch' = None \<and> cs_msgs ch' = cs_msgs ch @ [m])"
    if "cs_cap ch = None" using that cmd_send_room [of ch m] by (simp add: tests_api_def spec_full_def)
  show "\<exists>ch'. ca_recv (tests_api K addr) ch = Ret (m, ch') \<and> cs_cap ch' = None \<and> cs_msgs ch' = ms"
    if "cs_cap ch = None" "cs_msgs ch = m # ms" using that cmd_recv_simps(2) [of ch] by (simp add: tests_api_def)
  show "ca_recv (tests_api K addr) ch = Blocked" if "cs_msgs ch = []" using that cmd_recv_simps(1) [of ch] by (simp add: tests_api_def)
  show "\<exists>c'. ca_collect (tests_api K addr) (ca_report (tests_api K addr) t (tests_goal cmd t)) c =
        Ret (c', insert t (dom (results_seen c)) = {..<ca_tasks (tests_api K addr)}) \<and>
      collecting_ok c' \<and> results_seen c' = (results_seen c)(t \<mapsto> tests_goal cmd t)"
    if "collecting_ok c" "t < ca_tasks (tests_api K addr)" "results_seen c t = None"
    using run_collect_ok [of c t "tests_goal cmd t"] that by (simp add: tests_api_def)
qed

end

section \<open>Properties\<close>

text \<open>No test is running.\<close>

definition bench_idle :: "(bench_sem \<Rightarrow> ptr) \<Rightarrow> bench \<Rightarrow> bool" where
  "bench_idle addr s \<longleftrightarrow> bench_ok addr (cr_res s) \<and> cr_box s = \<lparr>cs_cap = None, cs_msgs = []\<rparr> \<and>
     (\<forall>t<NUM_THREADS + 2. cr_task s t = Off \<and> cr_inbox s t = \<lparr>cs_cap = Some 1, cs_msgs = []\<rparr>)"

lemma all_names: "set (map Sem [0..<NUM_THREADS] @ map Back [0..<NUM_THREADS]) = bench_names"
  by (auto simp: bench_names_def)

context bench_kernel
begin

lemma run_start_ok:
  assumes "bench_idle addr s"
  shows "\<exists>r w. run_start K addr s = Ret (s\<lparr>cr_res := r, cr_main := Launch run_order\<rparr>, w) \<and> bench_ok addr r \<and> bench_val r = (\<lambda>_. 0) \<and>
    (bench_val (cr_res s) = (\<lambda>_. 0) \<longrightarrow> w = [])"
proof -
  obtain r w where r: "reset_sems K addr (map Sem [0..<NUM_THREADS] @ map Back [0..<NUM_THREADS]) (cr_res s) = Ret (r, w)"
    "bench_ok addr r" "bench_val r = (\<lambda>x. if x \<in> bench_names then 0 else bench_val (cr_res s) x)" "bench_val (cr_res s) = (\<lambda>_. 0) \<longrightarrow> w = []"
    using reset_sems_ok [of "cr_res s" "map Sem [0..<NUM_THREADS] @ map Back [0..<NUM_THREADS]"] assms
    unfolding all_names bench_idle_def by blast
  have "bench_val r = (\<lambda>_. 0)" using r(3) by (auto simp: fun_eq_iff bench_val_def)
  with r(1,2,4) show ?thesis by (intro exI [of _ r] exI [of _ w]) (simp add: run_start_def)
qed

lemma run_completes:
  assumes idle: "bench_idle addr s" and fits: "NUM_THREADS * cmd_count cmd < 2 ^ 32"
  shows "\<exists>s0 w. run_start K addr s = Ret (s0, w) \<and>
    (\<forall>s'. (crew_step (tests_api K addr) cmd)\<^sup>*\<^sup>* s0 s' \<longrightarrow> crew_fine (tests_api K addr) cmd s' \<and>
       (\<forall>c. cr_main s' = Finished c \<longrightarrow> run_total c = Ret (NUM_THREADS * cmd_count cmd))) \<and>
    always_ends (crew_step (tests_api K addr) cmd) s0 (\<lambda>s'. bench_idle addr s' \<and> (\<exists>c. cr_main s' = Finished c) \<and>
       (\<exists>s1. run_start K addr s' = Ret (s1, [])))"
proof -
  let ?A = "tests_api K addr"
  note laws = tests_laws [OF fits]
  have N: "ca_tasks ?A = NUM_THREADS + 2" by (simp add: tests_api_def)
  obtain r w where r: "run_start K addr s = Ret (s\<lparr>cr_res := r, cr_main := Launch run_order\<rparr>, w)" "bench_ok addr r" "bench_val r = (\<lambda>_. 0)"
    using run_start_ok [OF idle] by blast
  let ?s0 = "s\<lparr>cr_res := r, cr_main := Launch run_order\<rparr>"
  have "distinct run_order" "set run_order = {..<NUM_THREADS + 2}" by (auto simp: run_order_def low_task_def high_task_def)
  then have ready: "crew_laws.crew_ready ?A (bench_ok addr) bench_val (\<lambda>c. cs_cap c = Some 1) cs_msgs (\<lambda>c. cs_cap c = None) cs_msgs run_order ?s0"
    using r idle unfolding crew_laws.crew_ready_def [OF laws] N by (simp add: bench_idle_def)
  have tot: "run_total c = Ret (NUM_THREADS * cmd_count cmd)" if "(crew_step ?A cmd)\<^sup>*\<^sup>* ?s0 s'" "cr_main s' = Finished c" for s' c
    using crew_laws.finished_totals [OF laws ready that] results_total [of c "cmd_count cmd"] fits N by (simp add: run_total_def)
  have home: "bench_idle addr s' \<and> (\<exists>c. cr_main s' = Finished c) \<and> (\<exists>s1. run_start K addr s' = Ret (s1, []))"
    if "crew_laws.crew_done ?A (tests_goal cmd) (bench_ok addr) bench_val (\<lambda>c. cs_cap c = Some 1) cs_msgs (\<lambda>c. cs_cap c = None) cs_msgs collecting_ok results_seen s'" for s'
  proof -
    have "bench_idle addr s'" "bench_val (cr_res s') = (\<lambda>_. 0)" "\<exists>c. cr_main s' = Finished c"
      using that unfolding crew_laws.crew_done_def [OF laws] crew_laws.crew_over_def [OF laws] N by (auto simp: bench_idle_def intro!: chan_spec.equality)
    with run_start_ok [of s'] show ?thesis by auto
  qed
  have "always_ends (crew_step ?A cmd) ?s0 (\<lambda>s'. bench_idle addr s' \<and> (\<exists>c. cr_main s' = Finished c) \<and> (\<exists>s1. run_start K addr s' = Ret (s1, [])))"
    using crew_laws.crew_completes(1) [OF laws ready] home unfolding always_ends_def by blast
  with r(1) tot crew_laws.crew_completes(2) [OF laws ready] show ?thesis by blast
qed

end

text \<open>
  C19. A test of the thread benchmark, for every command whose total fits \<open>usize\<close>, from any idle state and with the threads
  in every order: no thread and not the main thread panics, every execution ends, and then the main thread has the exact total, six times the
  count. The threads are idle again, and the next run finds every semaphore at zero, so that it prints no warning.
\<close>

theorem bench_run_completes:
  assumes "zephyr_sem K" and "\<forall>x. addr x \<noteq> 0" and "bench_idle addr s" and "NUM_THREADS * cmd_count cmd < 2 ^ 32"
  shows "\<exists>s0 w. run_start K addr s = Ret (s0, w) \<and>
    (\<forall>s'. (crew_step (tests_api K addr) cmd)\<^sup>*\<^sup>* s0 s' \<longrightarrow> crew_fine (tests_api K addr) cmd s' \<and>
       (\<forall>c. cr_main s' = Finished c \<longrightarrow> run_total c = Ret (NUM_THREADS * cmd_count cmd))) \<and>
    always_ends (crew_step (tests_api K addr) cmd) s0 (\<lambda>s'. bench_idle addr s' \<and> (\<exists>c. cr_main s' = Finished c) \<and>
       (\<exists>s1. run_start K addr s' = Ret (s1, [])))"
proof -
  have "bench_kernel K addr" using assms(1,2) by (simp add: bench_kernel_def bench_kernel_axioms_def)
  from bench_kernel.run_completes [OF this assms(3,4)] show ?thesis .
qed

text \<open>The semaphores of the program, at addresses of their own, and the reference kernel.\<close>

definition bench_addr :: "bench_sem \<Rightarrow> ptr" where
  "bench_addr x = (case x of Sem i \<Rightarrow> [64, 72, 80, 88, 96, 104] ! (i mod NUM_THREADS) | Back i \<Rightarrow> [112, 120, 128, 136, 144, 152] ! (i mod NUM_THREADS))"

lemma bench_addr_not_null: "bench_addr x \<noteq> 0"
proof -
  have "xs ! (i mod NUM_THREADS) \<noteq> 0" if "length xs = NUM_THREADS" "0 \<notin> set xs" for xs :: "ptr list" and i
  proof -
    have "i mod NUM_THREADS < length xs" using that(1) by (simp add: NUM_THREADS_def)
    then show ?thesis using nth_mem [of "i mod NUM_THREADS" xs] that(2) by metis
  qed
  then show ?thesis by (cases x) (simp_all add: bench_addr_def NUM_THREADS_def)
qed

interpretation ref_bench: bench_kernel ref_sem_api bench_addr
  by unfold_locales (rule bench_addr_not_null)

interpretation ref_crew: crew_laws "tests_api ref_sem_api bench_addr" "SemPingPong TOTAL_ITERS" "\<lambda>t. tests_body t (SemPingPong TOTAL_ITERS)"
  "tests_goal (SemPingPong TOTAL_ITERS)" "bench_ok bench_addr" bench_val "\<lambda>_. 2 ^ 32 - 1" bench_names
  "\<lambda>c. cs_cap c = Some 1" cs_msgs "\<lambda>c. cs_cap c = None" cs_msgs collecting_ok results_seen
  by (rule ref_bench.tests_laws) (simp add: cmd_count_def TOTAL_ITERS_def NUM_THREADS_def)

lemma ThreadTests_new_idle: "\<exists>s. ThreadTests_new = Ret s \<and> bench_idle addr s"
proof -
  let ?m = "\<lparr>zo_state = 0, zo_object = \<lparr>sem_count = 0, sem_limit = - 1\<rparr>\<rparr> :: Semaphore"
  have new: "Semaphore_new 0 (- 1) = Ret ?m" by (simp add: Semaphore_new_def ZephyrObject_new_raw_def)
  have "Semaphore_ok a ?m" "sem_cap ?m = 2 ^ 32 - 1" for a
    by (simp_all add: Semaphore_ok_def zo_placed_def sem_cap_def unsigned_minus_1_eq_mask mask_eq_exp_minus_1 word_greater_zero_iff)
  then have "bench_ok addr \<lparr>bs_sems = replicate NUM_THREADS ?m, bs_back = replicate NUM_THREADS ?m\<rparr>"
    by (auto simp: bench_ok_def bench_names_def sem_of_def)
  then show ?thesis by (simp add: ThreadTests_new_def new bench_idle_def)
qed

theorem bench_run_completes_witness:
  "\<exists>s s0 w. ThreadTests_new = Ret s \<and> run_start ref_sem_api bench_addr s = Ret (s0, w) \<and>
     always_ends (crew_step (tests_api ref_sem_api bench_addr) (SemPingPong TOTAL_ITERS)) s0 (\<lambda>s'. \<exists>c. cr_main s' = Finished c)"
proof -
  obtain s where s: "ThreadTests_new = Ret s" "bench_idle bench_addr s" using ThreadTests_new_idle by blast
  have "\<forall>x. bench_addr x \<noteq> 0" "NUM_THREADS * cmd_count (SemPingPong TOTAL_ITERS) < 2 ^ 32"
    using bench_addr_not_null by (simp_all add: cmd_count_def TOTAL_ITERS_def NUM_THREADS_def)
  from bench_run_completes [OF ref_sem.zephyr_sem_axioms this(1) s(2) this(2)] s(1) show ?thesis
    unfolding always_ends_def by blast
qed

end
