(* ===== verification/Bench_Simple.thy ===== *)
theory Bench_Simple
  imports Work Bench
begin

text \<open>
  \<open>Simple\<close> of \<open>samples/bench/src/lib.rs\<close>: a main work item and its children submit each other to one work queue. The
  queue's thread takes the items and calls their handlers, while the caller waits for the semaphore \<open>done\<close>. The
  reference counts of the items are those of the work component.
\<close>

section \<open>State\<close>

datatype simple_item = SMain | SChild nat

datatype wq_pc = WqFree | WqMain | WqMainEnd | WqChild nat | WqChildEnd nat

datatype simple_caller = CSubmit | CWait | CDrop | CDone

text \<open>
  The fields of \<open>SimpleMain\<close> are kept beside its item: the children in the deque, by their numbers, what is left to
  do, and \<open>done\<close>. The calls of the children's actions are counted.
\<close>

record 'w simple_sys =
  si_main :: "'w Work"
  si_children :: "'w Work list"
  si_works :: "nat list"
  si_count :: nat
  si_done :: Semaphore
  si_acts :: "nat list"
  si_pc :: wq_pc
  si_caller :: simple_caller

section \<open>Actions\<close>

text \<open>\<open>Work::submit_to_queue(item.clone(), queue).unwrap()\<close>\<close>

definition submit_clone :: "'w k_work_api \<Rightarrow> Fixed \<Rightarrow> 'w Work \<Rightarrow> 'w Work outcome" where
  "submit_clone W queue item = bind_outcome (Arc_clone item) (\<lambda>item. bind_outcome (Work_submit_to_queue W item queue) (\<lambda>(r, item).
     bind_outcome (unwrap r) (\<lambda>_. Ret item)))"

text \<open>The drop of an \<open>Arc\<close> of the main item; the last one drops the children of the deque with it.\<close>

fun drop_children :: "nat list \<Rightarrow> 'w Work list \<Rightarrow> 'w Work list outcome" where
  "drop_children [] cs = Ret cs"
| "drop_children (i # is) cs = bind_outcome (Arc_drop (cs ! i)) (\<lambda>c. drop_children is (cs[i := c]))"

definition drop_main :: "'w simple_sys \<Rightarrow> 'w simple_sys outcome" where
  "drop_main s = bind_outcome (Arc_drop (si_main s)) (\<lambda>m.
     if wk_strong m = None
     then bind_outcome (drop_children (si_works s) (si_children s)) (\<lambda>cs. Ret (s\<lparr>si_main := m, si_children := cs, si_works := []\<rparr>))
     else Ret (s\<lparr>si_main := m\<rparr>))"

definition SimpleMain_act :: "'w k_work_api \<Rightarrow> Fixed \<Rightarrow> k_sem_api \<Rightarrow> ptr \<Rightarrow> 'w simple_sys \<Rightarrow> 'w simple_sys outcome" where
  "SimpleMain_act W queue K addr s =
     (if si_count s = 0 then bind_outcome (Semaphore_give K addr (si_done s)) (\<lambda>d. Ret (s\<lparr>si_done := d\<rparr>))
      else case si_works s of
        [] \<Rightarrow> Panic ''called `Option::unwrap()` on a `None` value''
      | wk # works \<Rightarrow>
          bind_outcome (Arc_clone (si_children s ! wk)) (\<lambda>c.
          bind_outcome (submit_clone W queue c) (\<lambda>c.
          bind_outcome (Arc_drop c) (\<lambda>c.
          Ret (s\<lparr>si_works := works @ [wk], si_count := si_count s - 1, si_children := (si_children s)[wk := c]\<rparr>)))))"

text \<open>The child has a weak reference to the main item and upgrades it.\<close>

definition SimpleWorker_act :: "'w k_work_api \<Rightarrow> Fixed \<Rightarrow> 'w simple_sys \<Rightarrow> 'w simple_sys outcome" where
  "SimpleWorker_act W queue s =
     (if wk_strong (si_main s) = None then Panic ''called `Option::unwrap()` on a `None` value''
      else bind_outcome (Arc_clone (si_main s)) (\<lambda>main. bind_outcome (submit_clone W queue main) (\<lambda>main.
        bind_outcome (Arc_drop main) (\<lambda>main. Ret (s\<lparr>si_main := main\<rparr>)))))"

section \<open>The threads\<close>

definition wq_take :: "'w k_work_api \<Rightarrow> simple_item \<Rightarrow> 'w simple_sys \<Rightarrow> 'w simple_sys outcome" where
  "wq_take W x s = (if si_pc s \<noteq> WqFree then Blocked else case x of
     SMain \<Rightarrow> (case k_work_take W (wk_work (si_main s)) of
        None \<Rightarrow> Blocked
      | Some w \<Rightarrow> bind_outcome (handler_begin 0 0 0 (si_main s)) (\<lambda>_. Ret (s\<lparr>si_main := (si_main s)\<lparr>wk_work := w\<rparr>, si_pc := WqMain\<rparr>)))
   | SChild i \<Rightarrow> if length (si_children s) \<le> i then Blocked else (case k_work_take W (wk_work (si_children s ! i)) of
        None \<Rightarrow> Blocked
      | Some w \<Rightarrow> bind_outcome (handler_begin 0 0 0 (si_children s ! i)) (\<lambda>_.
          Ret (s\<lparr>si_children := (si_children s)[i := (si_children s ! i)\<lparr>wk_work := w\<rparr>], si_pc := WqChild i\<rparr>))))"

text \<open>
  The rest of the handler. That it may free the last reference to its item is as in the code; what the kernel reads
  of the item after the handler returns is the kernel's own concern and not in the model.
\<close>

definition wq_run :: "'w k_work_api \<Rightarrow> Fixed \<Rightarrow> k_sem_api \<Rightarrow> ptr \<Rightarrow> 'w simple_sys \<Rightarrow> 'w simple_sys outcome" where
  "wq_run W queue K addr s = (case si_pc s of
     WqFree \<Rightarrow> Blocked
   | WqMain \<Rightarrow> bind_outcome (SimpleMain_act W queue K addr s) (\<lambda>s. Ret (s\<lparr>si_pc := WqMainEnd\<rparr>))
   | WqMainEnd \<Rightarrow> bind_outcome (drop_main s) (\<lambda>s. Ret (s\<lparr>si_pc := WqFree\<rparr>))
   | WqChild i \<Rightarrow> bind_outcome (SimpleWorker_act W queue s) (\<lambda>s.
       Ret (s\<lparr>si_acts := (si_acts s)[i := si_acts s ! i + 1], si_pc := WqChildEnd i\<rparr>))
   | WqChildEnd i \<Rightarrow> bind_outcome (handler_end (si_children s ! i)) (\<lambda>c. Ret (s\<lparr>si_children := (si_children s)[i := c], si_pc := WqFree\<rparr>)))"

definition caller_run :: "'w k_work_api \<Rightarrow> Fixed \<Rightarrow> k_sem_api \<Rightarrow> ptr \<Rightarrow> 'w simple_sys \<Rightarrow> 'w simple_sys outcome" where
  "caller_run W queue K addr s = (case si_caller s of
     CSubmit \<Rightarrow> bind_outcome (submit_clone W queue (si_main s)) (\<lambda>m. Ret (s\<lparr>si_main := m, si_caller := CWait\<rparr>))
   | CWait \<Rightarrow> bind_outcome (Semaphore_take K addr (si_done s) K_FOREVER) (\<lambda>(r, d). bind_outcome (unwrap r) (\<lambda>_.
       Ret (s\<lparr>si_done := d, si_caller := CDrop\<rparr>)))
   | CDrop \<Rightarrow> bind_outcome (drop_main s) (\<lambda>s. Ret (s\<lparr>si_caller := CDone\<rparr>))
   | CDone \<Rightarrow> Blocked)"

inductive simple_step :: "'w k_work_api \<Rightarrow> Fixed \<Rightarrow> k_sem_api \<Rightarrow> ptr \<Rightarrow> 'w simple_sys \<Rightarrow> 'w simple_sys \<Rightarrow> bool" for W queue K addr where
  takes_item: "wq_take W x s = Ret s' \<Longrightarrow> simple_step W queue K addr s s'"
| runs_item: "wq_run W queue K addr s = Ret s' \<Longrightarrow> simple_step W queue K addr s s'"
| caller_goes: "caller_run W queue K addr s = Ret s' \<Longrightarrow> simple_step W queue K addr s s'"

text \<open>No thread panics or touches freed memory.\<close>

definition simple_fine :: "'w k_work_api \<Rightarrow> Fixed \<Rightarrow> k_sem_api \<Rightarrow> ptr \<Rightarrow> 'w simple_sys \<Rightarrow> bool" where
  "simple_fine W queue K addr s \<longleftrightarrow> (\<forall>x. fine (wq_take W x s)) \<and> fine (wq_run W queue K addr s) \<and> fine (caller_run W queue K addr s)"

text \<open>The start of \<open>Simple::run\<close>: the main item, and the children in the deque.\<close>

definition simple_start :: "'w k_work_api \<Rightarrow> nat \<Rightarrow> nat \<Rightarrow> 'w simple_sys outcome" where
  "simple_start W workers iterations =
     (if 2 ^ 32 \<le> workers * iterations then Panic ''attempt to multiply with overflow''
      else bind_outcome (Semaphore_new 0 1) (\<lambda>d.
        Ret \<lparr>si_main = Work_new W, si_children = map (\<lambda>n. Work_new W) [0..<workers], si_works = [0..<workers],
          si_count = workers * iterations, si_done = d, si_acts = replicate workers 0, si_pc = WqFree, si_caller = CSubmit\<rparr>))"

text \<open>The sizes of the runs in \<open>rust_main\<close>.\<close>

partial_function (option) simple_sizes :: "nat \<Rightarrow> nat list option" where
  "simple_sizes num = (if num < 250 then Option.bind (simple_sizes (num * 13 div 10)) (\<lambda>ns. Some (num # ns)) else Some [])"

lemma simple_sizes_main: "simple_sizes 6 = Some [6, 7, 9, 11, 14, 18, 23, 29, 37, 48, 62, 80, 104, 135, 175, 227]"
  by (simp add: simple_sizes.simps)

section \<open>Turns\<close>

text \<open>How often the worker \<open>i\<close> of \<open>w\<close> has its turn in the first \<open>n\<close> rounds of the deque.\<close>

fun turns :: "nat \<Rightarrow> nat \<Rightarrow> nat \<Rightarrow> nat" where
  "turns w 0 i = 0"
| "turns w (Suc n) i = turns w n i + of_bool (n mod w = i)"

lemma turns_round: "i < w \<Longrightarrow> turns w (w * k) i = k"
proof (induction k)
  case (Suc k)
  have "m \<le> w \<Longrightarrow> turns w (w * k + m) i = k + of_bool (i < m)" for m
  proof (induction m)
    case 0
    with Suc show ?case by simp
  next
    case (Suc m)
    then show ?case by (auto simp: less_Suc_eq)
  qed
  from this [of w] Suc.prems show ?case by (simp add: add.commute)
qed simp

lemma deque_turn:
  assumes "0 < w" shows "rotate n [0..<w] = n mod w # tl (rotate n [0..<w])" "tl (rotate n [0..<w]) @ [n mod w] = rotate (Suc n) [0..<w]"
proof -
  have ne: "rotate n [0..<w] \<noteq> []" using assms by simp
  moreover have "hd (rotate n [0..<w]) = n mod w" using assms by (simp add: hd_rotate_conv_nth)
  ultimately show *: "rotate n [0..<w] = n mod w # tl (rotate n [0..<w])" by (metis list.collapse)
  show "tl (rotate n [0..<w]) @ [n mod w] = rotate (Suc n) [0..<w]" using * by (metis rotate1.simps(2) rotate_Suc)
qed

section \<open>Reference counts\<close>

text \<open>The references to an item that has the strong count of \<open>n\<close>.\<close>

definition strong :: "nat \<Rightarrow> nat option" where
  "strong n = (if n = 0 then None else Some n)"

lemma strong_simps [simp]: "strong 0 = None" "strong (Suc n) = Some (Suc n)" "strong n = None \<longleftrightarrow> n = 0"
  by (simp_all add: strong_def)

lemma Arc_clone_strong: "wk_strong item = strong (Suc n) \<Longrightarrow> Arc_clone item = Ret (item\<lparr>wk_strong := strong (Suc (Suc n))\<rparr>)"
  by (simp add: Arc_clone_def)

lemma Arc_drop_strong: "wk_strong item = strong (Suc n) \<Longrightarrow> Arc_drop item = Ret (item\<lparr>wk_strong := strong n\<rparr>)"
  by (auto simp: Arc_drop_def strong_def)

lemma drop_children_ok:
  assumes "distinct is" and "\<And>i. i \<in> set is \<Longrightarrow> i < length cs \<and> wk_strong (cs ! i) = strong (Suc (f i))"
  shows "\<exists>cs'. drop_children is cs = Ret cs' \<and> length cs' = length cs \<and>
    (\<forall>j<length cs. cs' ! j = (if j \<in> set is then (cs ! j)\<lparr>wk_strong := strong (f j)\<rparr> else cs ! j))"
  using assms
proof (induction "is" arbitrary: cs)
  case (Cons i "is")
  let ?c = "(cs ! i)\<lparr>wk_strong := strong (f i)\<rparr>"
  have d: "Arc_drop (cs ! i) = Ret ?c" by (rule Arc_drop_strong) (use Cons.prems(2) [of i] in simp)
  have "j < length (cs[i := ?c]) \<and> wk_strong (cs[i := ?c] ! j) = strong (Suc (f j))" if "j \<in> set is" for j
  proof -
    have "i \<noteq> j" using Cons.prems(1) that by auto
    with Cons.prems(2) [of j] that show ?thesis by simp
  qed
  then obtain cs' where "drop_children is (cs[i := ?c]) = Ret cs'" "length cs' = length cs"
    "\<forall>j<length cs. cs' ! j = (if j \<in> set is then (cs[i := ?c] ! j)\<lparr>wk_strong := strong (f j)\<rparr> else cs[i := ?c] ! j)"
    using Cons.IH [of "cs[i := ?c]"] Cons.prems(1) by auto
  moreover have "cs[i := ?c] ! j = cs ! j" if "j \<in> set is" for j using that Cons.prems(1) by (metis distinct.simps(2) nth_list_update_neq)
  ultimately show ?case using d Cons.prems(1) by (auto simp: nth_list_update)
qed simp

section \<open>The stages of a run\<close>

text \<open>
  A started queue accepts an item that is not on it, and its thread can take an item that is. The semaphore \<open>done\<close> is at
  \<open>addr\<close>.
\<close>

locale simple_env = zephyr_work W pending + placed_sem K addr
  for W :: "'w k_work_api" and pending and K addr +
  assumes accepts: "\<not> pending w \<Longrightarrow> fst (k_work_submit_to_queue W q w) \<in> {1, 2}"
    and takes_some: "pending w \<Longrightarrow> \<exists>w'. k_work_take W w = Some w'"

datatype stage = Start | MainQueued | MainRuns | ChildGiven | ChildQueued | ChildRuns | ChildEnds | Over simple_caller bool

text \<open>Where the threads are, whether the main item is queued, which child is, the count of \<open>done\<close>, and whether a child has still to act.\<close>

fun stage_view :: "stage \<Rightarrow> nat \<Rightarrow> simple_caller \<times> wq_pc \<times> bool \<times> nat option \<times> nat \<times> nat" where
  "stage_view Start i = (CSubmit, WqFree, False, None, 0, 0)"
| "stage_view MainQueued i = (CWait, WqFree, True, None, 0, 0)"
| "stage_view MainRuns i = (CWait, WqMain, False, None, 0, 0)"
| "stage_view ChildGiven i = (CWait, WqMainEnd, False, Some i, 0, 1)"
| "stage_view ChildQueued i = (CWait, WqFree, False, Some i, 0, 1)"
| "stage_view ChildRuns i = (CWait, WqChild i, False, None, 0, 1)"
| "stage_view ChildEnds i = (CWait, WqChildEnd i, True, None, 0, 0)"
| "stage_view (Over c e) i = (c, if e then WqMainEnd else WqFree, False, None, if c = CWait then 1 else 0, 0)"

definition main_refs :: "simple_caller \<Rightarrow> wq_pc \<Rightarrow> bool \<Rightarrow> nat" where
  "main_refs c pc mp = of_bool (c \<noteq> CDone) + of_bool mp + of_bool (pc = WqMain \<or> pc = WqMainEnd)"

definition child_refs :: "simple_caller \<Rightarrow> wq_pc \<Rightarrow> bool \<Rightarrow> nat option \<Rightarrow> nat \<Rightarrow> nat" where
  "child_refs c pc mp cp j = of_bool (main_refs c pc mp \<noteq> 0) + of_bool (cp = Some j) + of_bool (pc = WqChild j \<or> pc = WqChildEnd j)"

definition stage_fits :: "stage \<Rightarrow> nat \<Rightarrow> nat \<Rightarrow> nat \<Rightarrow> bool" where
  "stage_fits st w n count \<longleftrightarrow> (case st of Start \<Rightarrow> n = 0 | MainQueued \<Rightarrow> True | MainRuns \<Rightarrow> True
     | Over c e \<Rightarrow> count = 0 \<and> c \<noteq> CSubmit | _ \<Rightarrow> 0 < n \<and> 0 < w)"

definition simple_at :: "('w \<Rightarrow> bool) \<Rightarrow> ptr \<Rightarrow> nat \<Rightarrow> nat \<Rightarrow> stage \<Rightarrow> nat \<Rightarrow> 'w simple_sys \<Rightarrow> bool" where
  "simple_at pending addr w k st n s \<longleftrightarrow> (case stage_view st ((n - 1) mod w) of (c, pc, mp, cp, v, lag) \<Rightarrow>
     si_caller s = c \<and> si_pc s = pc \<and> si_count s + n = w * k \<and> stage_fits st w n (si_count s) \<and>
     wk_strong (si_main s) = strong (main_refs c pc mp) \<and> pending (wk_work (si_main s)) = mp \<and>
     length (si_children s) = w \<and>
     (\<forall>j<w. wk_strong (si_children s ! j) = strong (child_refs c pc mp cp j) \<and> pending (wk_work (si_children s ! j)) = (cp = Some j)) \<and>
     (main_refs c pc mp \<noteq> 0 \<longrightarrow> si_works s = rotate n [0..<w]) \<and> si_acts s = map (turns w (n - lag)) [0..<w] \<and>
     Semaphore_ok addr (si_done s) \<and> sem_cap (si_done s) = 1 \<and> sem_val (si_done s) = v)"

fun stage_left :: "stage \<Rightarrow> nat" where
  "stage_left Start = 6" | "stage_left MainQueued = 5" | "stage_left MainRuns = 4" | "stage_left ChildGiven = 9"
| "stage_left ChildQueued = 8" | "stage_left ChildRuns = 7" | "stage_left ChildEnds = 6"
| "stage_left (Over c e) = of_bool e + (case c of CDone \<Rightarrow> 0 | CDrop \<Rightarrow> 1 | _ \<Rightarrow> 2)"

lemmas at_defs = simple_at_def stage_fits_def main_refs_def child_refs_def

context simple_env
begin

abbreviation "sat \<equiv> simple_at pending addr"

lemma submit_clone_ok:
  assumes "wk_strong item = strong (Suc n)" and "\<not> pending (wk_work item)"
  shows "\<exists>w. submit_clone W queue item = Ret (item\<lparr>wk_strong := strong (Suc (Suc n)), wk_work := w\<rparr>) \<and> pending w"
proof -
  obtain r w where r: "k_work_submit_to_queue W (Fixed_get queue) (wk_work item) = (r, w)" by fastforce
  then have "r = 1 \<or> r = 2" "pending w" using accepts [OF assms(2), of "Fixed_get queue"] submit_queue_codes [OF r] by (auto split: if_splits)
  moreover from this(1) have "\<exists>q. SubmitResult_to_result r = Ret (Ok q)" by (auto simp: SubmitResult_to_result_def to_result_def)
  ultimately show ?thesis using r assms(1) by (auto simp: submit_clone_def Arc_clone_strong Work_submit_to_queue_def)
qed

lemma not_taken: "\<not> pending w \<Longrightarrow> k_work_take W w = None"
  using take_pending by (cases "k_work_take W w") auto

lemma taken: "pending w \<Longrightarrow> \<exists>w'. k_work_take W w = Some w' \<and> \<not> pending w'"
  using takes_some take_pending by blast

lemma start_step:
  assumes "sat w k Start n s"
  shows "\<exists>s'. caller_run W queue K addr s = Ret s' \<and> sat w k MainQueued n s'"
proof -
  have "wk_strong (si_main s) = strong (Suc 0)" "\<not> pending (wk_work (si_main s))" using assms by (simp_all add: at_defs)
  then obtain m where "submit_clone W queue (si_main s) = Ret ((si_main s)\<lparr>wk_strong := strong (Suc (Suc 0)), wk_work := m\<rparr>)" "pending m"
    using submit_clone_ok by blast
  then show ?thesis using assms by (simp add: at_defs caller_run_def)
qed

lemma take_main_step:
  assumes "sat w k MainQueued n s"
  shows "\<exists>s'. wq_take W SMain s = Ret s' \<and> sat w k MainRuns n s'"
proof -
  obtain m where "k_work_take W (wk_work (si_main s)) = Some m" "\<not> pending m" using taken [of "wk_work (si_main s)"] assms by (auto simp: at_defs)
  then show ?thesis using assms by (simp add: at_defs wq_take_def handler_begin_def Work_from_raw_def)
qed

lemma main_last_step:
  assumes at: "sat w k MainRuns n s" and z: "si_count s = 0"
  shows "\<exists>s'. wq_run W queue K addr s = Ret s' \<and> sat w k (Over CWait True) n s'"
proof -
  obtain d where "Semaphore_give K addr (si_done s) = Ret d" "Semaphore_ok addr d" "sem_val d = 1" "sem_cap d = 1"
    using give_one [of "si_done s"] at by (auto simp: at_defs)
  then show ?thesis using at z by (simp add: at_defs wq_run_def SimpleMain_act_def)
qed

lemma main_child_step:
  assumes at: "sat w k MainRuns n s" and c: "si_count s \<noteq> 0"
  shows "\<exists>s'. wq_run W queue K addr s = Ret s' \<and> sat w k ChildGiven (Suc n) s' \<and> si_count s' = si_count s - 1"
proof -
  have w: "0 < w" using at c by (cases w) (auto simp: at_defs)
  have works: "si_works s = n mod w # tl (rotate n [0..<w])" using at deque_turn(1) [OF w, of n] by (simp add: at_defs)
  let ?c = "si_children s ! (n mod w)"
  have i: "n mod w < w" using w by simp
  then have "wk_strong ?c = strong (Suc 0)" "\<not> pending (wk_work ?c)" using at by (simp_all add: at_defs)
  moreover obtain m where m: "submit_clone W queue (?c\<lparr>wk_strong := Some (Suc (Suc 0))\<rparr>) = Ret (?c\<lparr>wk_strong := Some (Suc (Suc (Suc 0))), wk_work := m\<rparr>)" "pending m"
    using submit_clone_ok [of "?c\<lparr>wk_strong := Some (Suc (Suc 0))\<rparr>" "Suc 0" queue] calculation by auto
  ultimately have "SimpleMain_act W queue K addr s = Ret (s\<lparr>si_works := tl (rotate n [0..<w]) @ [n mod w], si_count := si_count s - 1,
      si_children := (si_children s)[n mod w := ?c\<lparr>wk_work := m, wk_strong := Some (Suc (Suc 0))\<rparr>]\<rparr>)"
    using c works by (simp add: SimpleMain_act_def Arc_clone_def Arc_drop_def)
  then show ?thesis using at m(2) c w i deque_turn(2) [OF w, of n]
    by (auto simp: at_defs wq_run_def nth_list_update)
qed

lemma drop_main_kept:
  "wk_strong (si_main s) = strong (Suc (Suc n)) \<Longrightarrow> drop_main s = Ret (s\<lparr>si_main := (si_main s)\<lparr>wk_strong := strong (Suc n)\<rparr>\<rparr>)"
  by (simp add: drop_main_def Arc_drop_strong)

lemma drop_main_last:
  assumes "wk_strong (si_main s) = strong (Suc 0)" and "distinct (si_works s)" and "set (si_works s) = {..<length (si_children s)}"
    and "\<And>j. j < length (si_children s) \<Longrightarrow> wk_strong (si_children s ! j) = strong (Suc 0)"
  shows "\<exists>cs. drop_main s = Ret (s\<lparr>si_main := (si_main s)\<lparr>wk_strong := None\<rparr>, si_children := cs, si_works := []\<rparr>) \<and>
    length cs = length (si_children s) \<and> (\<forall>j<length cs. cs ! j = (si_children s ! j)\<lparr>wk_strong := None\<rparr>)"
proof -
  obtain cs where "drop_children (si_works s) (si_children s) = Ret cs" "length cs = length (si_children s)"
    "\<forall>j<length (si_children s). cs ! j = (if j \<in> set (si_works s) then (si_children s ! j)\<lparr>wk_strong := strong 0\<rparr> else si_children s ! j)"
    using drop_children_ok [OF assms(2), of "si_children s" "\<lambda>_. 0"] assms(3,4) by auto
  with assms(1,3) show ?thesis by (intro exI [of _ cs]) (simp add: drop_main_def Arc_drop_strong)
qed

lemma main_given_step:
  assumes at: "sat w k ChildGiven n s"
  shows "\<exists>s'. wq_run W queue K addr s = Ret s' \<and> sat w k ChildQueued n s'"
proof -
  have "wk_strong (si_main s) = strong (Suc (Suc 0))" using at by (simp add: at_defs)
  then show ?thesis using at by (simp add: at_defs wq_run_def drop_main_kept)
qed

lemma take_child_step:
  assumes at: "sat w k ChildQueued n s"
  shows "\<exists>s'. wq_take W (SChild ((n - 1) mod w)) s = Ret s' \<and> sat w k ChildRuns n s'"
proof -
  have i: "(n - 1) mod w < w" using at by (simp add: at_defs)
  then obtain m where "k_work_take W (wk_work (si_children s ! ((n - 1) mod w))) = Some m" "\<not> pending m"
    using taken [of "wk_work (si_children s ! ((n - 1) mod w))"] at by (auto simp: at_defs)
  then show ?thesis using at i by (auto simp: at_defs wq_take_def handler_begin_def Work_from_raw_def nth_list_update)
qed

lemma turns_upd: "0 < w \<Longrightarrow> 0 < n \<Longrightarrow> (map (turns w (n - 1)) [0..<w])[(n - 1) mod w := map (turns w (n - 1)) [0..<w] ! ((n - 1) mod w) + 1] = map (turns w n) [0..<w]"
  by (cases n) (auto intro!: nth_equalityI simp: nth_list_update)

lemma child_step:
  assumes at: "sat w k ChildRuns n s"
  shows "\<exists>s'. wq_run W queue K addr s = Ret s' \<and> sat w k ChildEnds n s'"
proof -
  have m: "wk_strong (si_main s) = strong (Suc 0)" "\<not> pending (wk_work (si_main s))" using at by (simp_all add: at_defs)
  then obtain x where x: "submit_clone W queue ((si_main s)\<lparr>wk_strong := Some (Suc (Suc 0))\<rparr>) = Ret ((si_main s)\<lparr>wk_strong := Some (Suc (Suc (Suc 0))), wk_work := x\<rparr>)" "pending x"
    using submit_clone_ok [of "(si_main s)\<lparr>wk_strong := Some (Suc (Suc 0))\<rparr>" "Suc 0" queue] by auto
  have n: "0 < w" "0 < n" using at by (simp_all add: at_defs)
  have "SimpleWorker_act W queue s = Ret (s\<lparr>si_main := (si_main s)\<lparr>wk_work := x, wk_strong := Some (Suc (Suc 0))\<rparr>\<rparr>)"
    using m x(1) by (simp add: SimpleWorker_act_def Arc_clone_def Arc_drop_def)
  then show ?thesis using at x(2) turns_upd [OF n] by (simp add: at_defs wq_run_def)
qed

lemma child_end_step:
  assumes at: "sat w k ChildEnds n s"
  shows "\<exists>s'. wq_run W queue K addr s = Ret s' \<and> sat w k MainQueued n s'"
proof -
  have i: "(n - 1) mod w < w" using at by (simp add: at_defs)
  then have "wk_strong (si_children s ! ((n - 1) mod w)) = strong (Suc (Suc 0))" using at by (simp add: at_defs)
  then have "handler_end (si_children s ! ((n - 1) mod w)) = Ret ((si_children s ! ((n - 1) mod w))\<lparr>wk_strong := strong (Suc 0)\<rparr>)"
    by (simp add: handler_end_def Arc_drop_strong)
  then show ?thesis using at i by (auto simp: at_defs wq_run_def nth_list_update)
qed

lemma caller_take_step:
  assumes at: "sat w k (Over CWait e) n s"
  shows "\<exists>s'. caller_run W queue K addr s = Ret s' \<and> sat w k (Over CDrop e) n s'"
proof -
  obtain d where "Semaphore_take K addr (si_done s) K_FOREVER = Ret (Ok (), d)" "Semaphore_ok addr d" "sem_val d = 0" "sem_cap d = 1"
    using take_one [of "si_done s" K_FOREVER] at by (auto simp: at_defs)
  then show ?thesis using at by (simp add: at_defs caller_run_def)
qed

lemma over_main_end_step:
  assumes at: "sat w k (Over c True) n s"
  shows "\<exists>s'. wq_run W queue K addr s = Ret s' \<and> sat w k (Over c False) n s'"
proof (cases "c = CDone")
  case False
  then have "wk_strong (si_main s) = strong (Suc (Suc 0))" using at by (simp add: at_defs)
  then show ?thesis using at False by (simp add: at_defs wq_run_def drop_main_kept)
next
  case True
  then obtain cs where "drop_main s = Ret (s\<lparr>si_main := (si_main s)\<lparr>wk_strong := None\<rparr>, si_children := cs, si_works := []\<rparr>)"
    "length cs = length (si_children s)" "\<forall>j<length cs. cs ! j = (si_children s ! j)\<lparr>wk_strong := None\<rparr>"
    using drop_main_last [of s] at by (auto simp: at_defs atLeast0LessThan)
  then show ?thesis using at True by (simp add: at_defs wq_run_def)
qed

lemma caller_drop_step:
  assumes at: "sat w k (Over CDrop e) n s"
  shows "\<exists>s'. caller_run W queue K addr s = Ret s' \<and> sat w k (Over CDone e) n s'"
proof (cases e)
  case True
  then have "wk_strong (si_main s) = strong (Suc (Suc 0))" using at by (simp add: at_defs)
  then show ?thesis using at True by (simp add: at_defs caller_run_def drop_main_kept)
next
  case False
  then obtain cs where "drop_main s = Ret (s\<lparr>si_main := (si_main s)\<lparr>wk_strong := None\<rparr>, si_children := cs, si_works := []\<rparr>)"
    "length cs = length (si_children s)" "\<forall>j<length cs. cs ! j = (si_children s ! j)\<lparr>wk_strong := None\<rparr>"
    using drop_main_last [of s] at by (auto simp: at_defs atLeast0LessThan)
  then show ?thesis using at False by (simp add: at_defs caller_run_def)
qed

text \<open>Every call waits or leads to a later stage.\<close>

definition "onwards w k m r \<longleftrightarrow> r = Blocked \<or> (\<exists>s st n. r = Ret s \<and> sat w k st n s \<and> 10 * si_count s + stage_left st < (m :: nat))"

lemma onwardsI: "\<exists>s'. r = Ret s' \<and> sat w k st n s' \<Longrightarrow> (\<And>s'. r = Ret s' \<Longrightarrow> sat w k st n s' \<Longrightarrow> 10 * si_count s' + stage_left st < m) \<Longrightarrow> onwards w k m r"
  by (auto simp: onwards_def)

lemma at_count: "sat w k st n s \<Longrightarrow> si_count s = w * k - n"
  by (auto simp: simple_at_def split: prod.splits)

lemma take_onwards:
  assumes at: "sat w k st n s"
  shows "onwards w k (10 * si_count s + stage_left st) (wq_take W x s)"
proof -
  have "wq_take W x s = Blocked" if "\<not> (st = MainQueued \<and> x = SMain)" "\<not> (st = ChildQueued \<and> x = SChild ((n - 1) mod w))"
  proof (cases "si_pc s = WqFree")
    case free: True
    show ?thesis
    proof (cases x)
      case SMain
      have "\<not> pending (wk_work (si_main s))" using at that(1) free SMain by (cases st) (simp_all add: at_defs)
      then show ?thesis using SMain by (simp add: wq_take_def not_taken)
    next
      case (SChild i)
      have "\<not> pending (wk_work (si_children s ! i))" if "i < w"
        using at \<open>\<not> (st = ChildQueued \<and> x = SChild ((n - 1) mod w))\<close> free SChild that by (cases st) (auto simp: at_defs)
      moreover have "length (si_children s) = w" using at by (auto simp: simple_at_def split: prod.splits)
      ultimately show ?thesis using SChild by (simp add: wq_take_def not_taken)
    qed
  qed (simp add: wq_take_def)
  then consider "st = MainQueued" "x = SMain" | "st = ChildQueued" "x = SChild ((n - 1) mod w)" | "wq_take W x s = Blocked" by blast
  then show ?thesis
  proof cases
    case 1
    then show ?thesis using at take_main_step [of w k n s] at_count by (intro onwardsI [where st = MainRuns and n = n]) auto
  next
    case 2
    then show ?thesis using at take_child_step [of w k n s] at_count by (intro onwardsI [where st = ChildRuns and n = n]) auto
  qed (simp add: onwards_def)
qed

lemma run_onwards:
  assumes at: "sat w k st n s"
  shows "onwards w k (10 * si_count s + stage_left st) (wq_run W queue K addr s)"
proof (cases st)
  case MainRuns
  show ?thesis
  proof (cases "si_count s = 0")
    case True
    then show ?thesis using main_last_step [of w k n s queue] at MainRuns at_count by (intro onwardsI [where st = "Over CWait True" and n = n]) auto
  next
    case False
    then show ?thesis using main_child_step [of w k n s queue] at MainRuns by (intro onwardsI [where st = ChildGiven and n = "Suc n"]) auto
  qed
next
  case ChildGiven
  then show ?thesis using main_given_step [of w k n s queue] at at_count by (intro onwardsI [where st = ChildQueued and n = n]) auto
next
  case ChildRuns
  then show ?thesis using child_step [of w k n s queue] at at_count by (intro onwardsI [where st = ChildEnds and n = n]) auto
next
  case ChildEnds
  then show ?thesis using child_end_step [of w k n s queue] at at_count by (intro onwardsI [where st = MainQueued and n = n]) auto
next
  case (Over c e)
  show ?thesis
  proof (cases e)
    case True
    then show ?thesis using over_main_end_step [of w k c n s queue] at Over at_count by (intro onwardsI [where st = "Over c False" and n = n]) auto
  qed (use at Over in \<open>simp add: at_defs wq_run_def onwards_def\<close>)
qed (use at in \<open>simp_all add: at_defs wq_run_def onwards_def\<close>)

lemma caller_onwards:
  assumes at: "sat w k st n s"
  shows "onwards w k (10 * si_count s + stage_left st) (caller_run W queue K addr s)"
proof -
  have wait: "caller_run W queue K addr s = Blocked" if "si_caller s = CWait" "sem_val (si_done s) = 0"
    using take_none [of "si_done s"] at that by (auto simp: simple_at_def caller_run_def split: prod.splits)
  show ?thesis
  proof (cases st)
    case Start
    then show ?thesis using start_step [of w k n s queue] at at_count by (intro onwardsI [where st = MainQueued and n = n]) auto
  next
    case (Over c e)
    show ?thesis
    proof (cases c)
      case CWait
      then show ?thesis using caller_take_step [of w k e n s queue] at Over at_count by (intro onwardsI [where st = "Over CDrop e" and n = n]) auto
    next
      case CDrop
      then show ?thesis using caller_drop_step [of w k e n s queue] at Over at_count by (intro onwardsI [where st = "Over CDone e" and n = n]) auto
    qed (use at Over in \<open>simp_all add: at_defs caller_run_def onwards_def\<close>)
  qed (use at wait in \<open>simp_all add: at_defs onwards_def\<close>)
qed

lemma stuck_over:
  assumes at: "sat w k st n s" and stuck: "\<nexists>s'. simple_step W queue K addr s s'"
  shows "st = Over CDone False"
proof -
  have "wq_take W x s \<noteq> Ret s'" "wq_run W queue K addr s \<noteq> Ret s'" "caller_run W queue K addr s \<noteq> Ret s'" for x s'
    using stuck takes_item [of W x s s' queue K addr] runs_item [of W queue K addr s s'] caller_goes [of W queue K addr s s'] by blast+
  note no = this
  show ?thesis
  proof (cases st)
    case Start
    then show ?thesis using start_step [of w k n s queue] at no by blast
  next
    case MainQueued
    then show ?thesis using take_main_step [of w k n s] at no by blast
  next
    case MainRuns
    then show ?thesis using main_last_step [of w k n s queue] main_child_step [of w k n s queue] at no by blast
  next
    case ChildGiven
    then show ?thesis using main_given_step [of w k n s queue] at no by blast
  next
    case ChildQueued
    then show ?thesis using take_child_step [of w k n s] at no by blast
  next
    case ChildRuns
    then show ?thesis using child_step [of w k n s queue] at no by blast
  next
    case ChildEnds
    then show ?thesis using child_end_step [of w k n s queue] at no by blast
  next
    case (Over c e)
    have "st \<noteq> Over c True" using over_main_end_step [of w k c n s queue] at no by blast
    moreover have "st \<noteq> Over CWait e" "st \<noteq> Over CDrop e"
      using caller_take_step [of w k e n s queue] caller_drop_step [of w k e n s queue] at no by blast+
    moreover have "c \<noteq> CSubmit" using at Over by (simp add: at_defs)
    ultimately show ?thesis using Over by (cases c) auto
  qed
qed

lemma step_onwards:
  assumes "sat w k st n s" and "simple_step W queue K addr s s'"
  shows "\<exists>st' n'. sat w k st' n' s' \<and> 10 * si_count s' + stage_left st' < 10 * si_count s + stage_left st"
  using assms(2)
proof cases
  case (takes_item x)
  then show ?thesis using take_onwards [OF assms(1), of x] by (auto simp: onwards_def)
next
  case runs_item
  then show ?thesis using run_onwards [OF assms(1), of queue] by (auto simp: onwards_def)
next
  case caller_goes
  then show ?thesis using caller_onwards [OF assms(1), of queue] by (auto simp: onwards_def)
qed

lemma at_fine: "sat w k st n s \<Longrightarrow> simple_fine W queue K addr s"
  using take_onwards run_onwards caller_onwards unfolding simple_fine_def onwards_def fine_def by blast

lemma over_result:
  assumes "sat w k (Over CDone False) n s"
  shows "si_caller s = CDone \<and> si_acts s = replicate w k \<and> wk_strong (si_main s) = None \<and> length (si_children s) = w \<and>
    (\<forall>c\<in>set (si_children s). wk_strong c = None)"
proof -
  have "n = w * k" using assms by (simp add: at_defs)
  then have "si_acts s = replicate w k" using assms turns_round [of _ w k] by (auto simp: at_defs intro!: nth_equalityI)
  then show ?thesis using assms by (auto simp: at_defs in_set_conv_nth)
qed

lemma start_at:
  assumes "w * k < 2 ^ 32"
  shows "\<exists>s. simple_start W w k = Ret s \<and> sat w k Start 0 s"
proof -
  let ?d = "\<lparr>zo_state = 0, zo_object = \<lparr>sem_count = 0, sem_limit = 1\<rparr>\<rparr> :: Semaphore"
  have "Semaphore_new 0 1 = Ret ?d" by (simp add: Semaphore_new_def ZephyrObject_new_raw_def)
  moreover have "Semaphore_ok addr ?d" "sem_cap ?d = 1" "sem_val ?d = 0" by (simp_all add: Semaphore_ok_def zo_placed_def sem_cap_def sem_val_def)
  ultimately show ?thesis using assms by (auto simp: simple_start_def at_defs Work_new_def init_idle intro!: nth_equalityI)
qed

lemma simple_completes:
  assumes "w * k < 2 ^ 32"
  shows "\<exists>s. simple_start W w k = Ret s \<and> (\<forall>s'. (simple_step W queue K addr)\<^sup>*\<^sup>* s s' \<longrightarrow> simple_fine W queue K addr s') \<and>
    always_ends (simple_step W queue K addr) s (\<lambda>s'. si_caller s' = CDone \<and> si_acts s' = replicate w k \<and> wk_strong (si_main s') = None \<and>
      length (si_children s') = w \<and> (\<forall>c\<in>set (si_children s'). wk_strong c = None))"
proof -
  obtain s where s: "simple_start W w k = Ret s" "sat w k Start 0 s" using start_at [OF assms] by blast
  define I where "I s m \<longleftrightarrow> (\<exists>st n. sat w k st n s \<and> 10 * si_count s + stage_left st = m)" for s m
  have "\<exists>st n. sat w k st n s'" if "(simple_step W queue K addr)\<^sup>*\<^sup>* s s'" for s'
    using that by induction (use s(2) step_onwards in blast)+
  moreover have "always_ends (simple_step W queue K addr) s (\<lambda>s'. si_caller s' = CDone \<and> si_acts s' = replicate w k \<and> wk_strong (si_main s') = None \<and>
      length (si_children s') = w \<and> (\<forall>c\<in>set (si_children s'). wk_strong c = None))"
  proof (rule always_ends_rank [where I = I])
    show "I s (10 * si_count s + 6)" using s(2) unfolding I_def by force
    show "\<exists>r'<r. I b r'" if "I a r" "simple_step W queue K addr a b" for a b r using that step_onwards unfolding I_def by blast
    show "si_caller a = CDone \<and> si_acts a = replicate w k \<and> wk_strong (si_main a) = None \<and>
      length (si_children a) = w \<and> (\<forall>c\<in>set (si_children a). wk_strong c = None)" if "I a r" "\<nexists>b. simple_step W queue K addr a b" for a r
      using that stuck_over over_result unfolding I_def by blast
  qed
  ultimately show ?thesis using s(1) at_fine by blast
qed

end

section \<open>Properties\<close>

text \<open>
  C21. The benchmark of the work queue, for every number of workers and of iterations whose product fits \<open>usize\<close>: with the
  threads of the queue and of the caller in every order, nobody panics and no freed item is touched; every execution ends with the
  caller returned, every worker called exactly \<open>iterations\<close> times, and the main item and all the workers freed. The loop over the sizes in
  \<open>rust_main\<close> ends, and every product in it fits; a product that does not fit panics at the start.
\<close>

theorem simple_run_completes:
  assumes "simple_env W pending K addr"
  shows "(if w * k < 2 ^ 32
    then \<exists>s. simple_start W w k = Ret s \<and> (\<forall>s'. (simple_step W queue K addr)\<^sup>*\<^sup>* s s' \<longrightarrow> simple_fine W queue K addr s') \<and>
      always_ends (simple_step W queue K addr) s (\<lambda>s'. si_caller s' = CDone \<and> si_acts s' = replicate w k \<and> wk_strong (si_main s') = None \<and>
        length (si_children s') = w \<and> (\<forall>c\<in>set (si_children s'). wk_strong c = None))
    else simple_start W w k = Panic ''attempt to multiply with overflow'') \<and>
    (\<exists>ns. simple_sizes 6 = Some ns \<and> (\<forall>num\<in>set ns. num * (TOTAL_ITERS div num) < 2 ^ 32))"
proof -
  have "num * (TOTAL_ITERS div num) < 2 ^ 32" for num by (rule le_less_trans [OF times_div_less_eq_dividend]) (simp add: TOTAL_ITERS_def)
  moreover have "\<not> w * k < 2 ^ 32 \<Longrightarrow> simple_start W w k = Panic ''attempt to multiply with overflow''" by (simp add: simple_start_def)
  ultimately show ?thesis using simple_sizes_main simple_env.simple_completes [OF assms, of w k queue] by auto
qed

text \<open>The reference kernel: a queued item is a flag.\<close>

interpretation ref_simple: simple_env flag_work_api "\<lambda>w. w" ref_sem_api 32
  by unfold_locales (auto simp: flag_work_api_def)

theorem simple_run_completes_witness:
  "\<exists>s. simple_start flag_work_api 6 166 = Ret s \<and>
     always_ends (simple_step flag_work_api (Static 64) ref_sem_api 32) s (\<lambda>s'. si_caller s' = CDone \<and> si_acts s' = replicate 6 166)"
proof -
  have "(6::nat) * 166 < 2 ^ 32" by simp
  with simple_run_completes [OF ref_simple.simple_env_axioms, of 6 166 "Static 64"] show ?thesis unfolding always_ends_def by auto
qed

end
