(* ===== verification/Embassy_Sync.thy ===== *)
theory Embassy_Sync
  imports Zephyr_Prelude
begin

text \<open>
  What the samples use of the packages \<open>embassy_sync\<close> and \<open>embassy_executor\<close>: the fair semaphore, the bounded channel, and
  the spawning of a task. The packages are parameters; the locales state their documented behaviour, at the point
  where an operation completes. \<open>Blocked\<close> is a future that is still pending.
\<close>

section \<open>The fair semaphore\<close>

datatype WaitQueueFull = WaitQueueFull

text \<open>\<open>fq_acquire\<close> is told which tasks are waiting for the semaphore, the one that calls included.\<close>

record 'q fair_sem_api =
  fq_new :: "nat \<Rightarrow> 'q"
  fq_set :: "nat \<Rightarrow> 'q \<Rightarrow> 'q"
  fq_release :: "nat \<Rightarrow> 'q \<Rightarrow> 'q"
  fq_acquire :: "nat \<Rightarrow> nat list \<Rightarrow> nat \<Rightarrow> 'q \<Rightarrow> ((unit, WaitQueueFull) result \<times> 'q) outcome"

text \<open>
  With at most \<open>limit\<close> tasks waiting, an \<open>acquire\<close> either completes or goes on waiting; when there are enough permits,
  it completes for one of the tasks that wait.
\<close>

locale fair_semaphore =
  fixes S :: "'q fair_sem_api" and permits :: "'q \<Rightarrow> nat" and limit :: nat
  assumes new_permits: "permits (fq_new S n) = n"
    and set_permits: "permits (fq_set S n q) = n"
    and release_permits: "permits q + n < 2 ^ 32 \<Longrightarrow> permits (fq_release S n q) = permits q + n"
    and acquire_cases: "t \<in> set ts \<Longrightarrow> distinct ts \<Longrightarrow> length ts \<le> limit \<Longrightarrow> fq_acquire S t ts n q = Blocked \<or>
      n \<le> permits q \<and> (\<exists>q'. fq_acquire S t ts n q = Ret (Ok (), q') \<and> permits q' = permits q - n)"
    and acquire_some: "ts \<noteq> [] \<Longrightarrow> distinct ts \<Longrightarrow> length ts \<le> limit \<Longrightarrow> n \<le> permits q \<Longrightarrow> \<exists>t\<in>set ts. fq_acquire S t ts n q \<noteq> Blocked"

section \<open>The channel\<close>

record ('ch, 'm) emb_channel_api =
  ec_new :: 'ch
  ec_send :: "'m \<Rightarrow> 'ch \<Rightarrow> 'ch outcome"
  ec_receive :: "'ch \<Rightarrow> ('m \<times> 'ch) outcome"

locale emb_channel =
  fixes C :: "('ch, 'm) emb_channel_api" and queued :: "'ch \<Rightarrow> 'm list" and places :: nat
  assumes new_empty: "queued (ec_new C) = []"
    and send_room: "length (queued ch) < places \<Longrightarrow> \<exists>ch'. ec_send C m ch = Ret ch' \<and> queued ch' = queued ch @ [m]"
    and send_full: "places \<le> length (queued ch) \<Longrightarrow> ec_send C m ch = Blocked"
    and receive_some: "queued ch = m # ms \<Longrightarrow> \<exists>ch'. ec_receive C ch = Ret (m, ch') \<and> queued ch' = ms"
    and receive_none: "queued ch = [] \<Longrightarrow> ec_receive C ch = Blocked"

section \<open>Spawning\<close>

datatype SpawnError = Busy

text \<open>
  The place of a task: calling the task function claims the place, or fails while the task is there, whether it has
  started, as the flag says, or not. The arguments stay in the place until the executor polls the task first.
\<close>

record ('i, 'x) task_place_api =
  tp_new :: 'i
  tp_spawn :: "bool \<Rightarrow> 'x \<Rightarrow> 'i \<Rightarrow> (unit, SpawnError) result \<times> 'i"
  tp_start :: "'i \<Rightarrow> ('x \<times> 'i) outcome"

locale task_place =
  fixes P :: "('i, 'x) task_place_api" and spawned :: "'i \<Rightarrow> 'x list"
  assumes new_free: "spawned (tp_new P) = []"
    and spawn_free: "spawned i = [] \<Longrightarrow> \<exists>i'. tp_spawn P False x i = (Ok (), i') \<and> spawned i' = [x]"
    and spawn_busy: "b \<or> spawned i \<noteq> [] \<Longrightarrow> fst (tp_spawn P b x i) = Err Busy"
    and start_some: "spawned i = [x] \<Longrightarrow> \<exists>i'. tp_start P i = Ret (x, i') \<and> spawned i' = []"
    and start_none: "spawned i = [] \<Longrightarrow> tp_start P i = Blocked"

text \<open>\<open>spawner.spawn(task(...).unwrap())\<close>: the samples panic when the place is busy.\<close>

definition spawn_task :: "('i, 'x) task_place_api \<Rightarrow> bool \<Rightarrow> 'x \<Rightarrow> 'i \<Rightarrow> 'i outcome" where
  "spawn_task P busy command i = (let (r, i') = tp_spawn P busy command i in bind_outcome (unwrap r) (\<lambda>_. Ret i'))"

section \<open>Reference instances\<close>

text \<open>The permits go to the task that waits longest, the channel is a list, the place holds one set of arguments.\<close>

definition ref_fair_sem :: "nat fair_sem_api" where
  "ref_fair_sem = \<lparr>fq_new = (\<lambda>n. n), fq_set = (\<lambda>n q. n), fq_release = (\<lambda>n q. q + n),
     fq_acquire = (\<lambda>t ts n q. if n \<le> q \<and> t = hd ts then Ret (Ok (), q - n) else Blocked)\<rparr>"

definition ref_emb_channel :: "nat \<Rightarrow> ('m list, 'm) emb_channel_api" where
  "ref_emb_channel places = \<lparr>ec_new = [], ec_send = (\<lambda>m ch. if length ch < places then Ret (ch @ [m]) else Blocked),
     ec_receive = (\<lambda>ch. case ch of [] \<Rightarrow> Blocked | m # ms \<Rightarrow> Ret (m, ms))\<rparr>"

definition ref_task_place :: "('x list, 'x) task_place_api" where
  "ref_task_place = \<lparr>tp_new = [], tp_spawn = (\<lambda>b x i. if b \<or> i \<noteq> [] then (Err Busy, i) else (Ok (), [x])),
     tp_start = (\<lambda>i. case i of [] \<Rightarrow> Blocked | x # xs \<Rightarrow> Ret (x, xs))\<rparr>"

interpretation ref_fair: fair_semaphore ref_fair_sem "\<lambda>q. q" limit
  by unfold_locales (auto simp: ref_fair_sem_def intro!: bexI [of _ "hd ts" for ts])

interpretation ref_chan: emb_channel "ref_emb_channel places" "\<lambda>ch. ch" places
  by unfold_locales (auto simp: ref_emb_channel_def)

interpretation ref_place: task_place ref_task_place "\<lambda>i. i"
  by unfold_locales (auto simp: ref_task_place_def)

end
