(* ===== verification/Bench_Async.thy ===== *)
theory Bench_Async
  imports Bench Embassy_Sync
begin

text \<open>
  \<open>samples/bench/src/executor.rs\<close>: the same benchmark with async tasks on three executors. The workers and the main
  task share an executor; the tasks of low and of high priority are on executors of their own, so that the main task
  can run between their report and their end.
\<close>

section \<open>The tasks\<close>

datatype async_sem = ASem nat | ABack

record 'q async_sems =
  am_sems :: "'q list"
  am_back :: 'q

text \<open>A task function gives the operations of the task and the number it returns, or panics.\<close>

definition async_simple_sem :: "nat \<Rightarrow> nat \<Rightarrow> async_sem net_op list \<times> nat" where
  "async_simple_sem ident count = (for_count count [OpGive (ASem ident), OpTake (ASem ident)], count)"

definition async_simple_sem_yield :: "nat \<Rightarrow> nat \<Rightarrow> async_sem net_op list \<times> nat" where
  "async_simple_sem_yield ident count = (for_count count [OpGive (ASem ident), OpTake (ASem ident), OpYield], count)"

definition sem_wait_taker :: "nat \<Rightarrow> nat \<Rightarrow> async_sem net_op list \<times> nat" where
  "sem_wait_taker ident count = (for_count count [OpTake (ASem ident)], count)"

definition sem_wait_giver :: "nat \<Rightarrow> async_sem net_op list" where
  "sem_wait_giver count = for_count count (map (\<lambda>i. OpGive (ASem i)) [0..<NUM_THREADS])"

definition sem_ping_pong_taker :: "nat \<Rightarrow> async_sem net_op list \<times> nat" where
  "sem_ping_pong_taker count = (for_count count [OpTake (ASem 0), OpGive ABack], count)"

definition sem_ping_pong_giver :: "nat \<Rightarrow> async_sem net_op list" where
  "sem_ping_pong_giver count = for_count count (for_count NUM_THREADS [OpGive (ASem 0), OpTake ABack])"

definition low_worker :: "Bench_Command \<Rightarrow> async_sem net_op list outcome" where
  "low_worker command = (case command of
     Empty \<Rightarrow> Ret []
   | SimpleSem _ \<Rightarrow> Ret []
   | SimpleSemYield _ \<Rightarrow> Ret []
   | SemWait count \<Rightarrow> Ret (sem_wait_giver count)
   | SemWaitSame count \<Rightarrow> Ret (sem_wait_giver count)
   | SemPingPong count \<Rightarrow> Ret (sem_ping_pong_giver count)
   | SemOnePingPong count \<Rightarrow> Ret (sem_ping_pong_giver count)
   | SemHigh _ \<Rightarrow> Panic ''Not implemented'')"

definition high_worker :: "Bench_Command \<Rightarrow> async_sem net_op list outcome" where
  "high_worker command = (case command of SemHigh _ \<Rightarrow> Panic ''Not implemented'' | _ \<Rightarrow> Ret [])"

definition async_worker :: "nat \<Rightarrow> Bench_Command \<Rightarrow> (async_sem net_op list \<times> nat) outcome" where
  "async_worker ident command = (case command of
     Empty \<Rightarrow> Ret ([], 1)
   | SimpleSem count \<Rightarrow> Ret (async_simple_sem ident count)
   | SimpleSemYield count \<Rightarrow> Ret (async_simple_sem_yield ident count)
   | SemWait count \<Rightarrow> Ret (sem_wait_taker ident count)
   | SemWaitSame count \<Rightarrow> Ret (sem_wait_taker ident count)
   | SemPingPong count \<Rightarrow> Ret (sem_ping_pong_taker count)
   | SemOnePingPong count \<Rightarrow> Ret (sem_ping_pong_taker count)
   | SemHigh _ \<Rightarrow> Panic ''Not implemented'')"

definition async_body :: "nat \<Rightarrow> Bench_Command \<Rightarrow> (async_sem net_op list \<times> nat) outcome" where
  "async_body t command = (if t < NUM_THREADS then async_worker t command
     else bind_outcome (if t = low_task then low_worker command else high_worker command) (\<lambda>ops. Ret (ops, 0)))"

section \<open>The semaphores\<close>

definition async_get :: "async_sem \<Rightarrow> 'q async_sems \<Rightarrow> 'q outcome" where
  "async_get x s = (case x of ASem i \<Rightarrow> if i < length (am_sems s) then Ret (am_sems s ! i) else Panic ''index out of bounds'' | ABack \<Rightarrow> Ret (am_back s))"

definition async_put :: "async_sem \<Rightarrow> 'q \<Rightarrow> 'q async_sems \<Rightarrow> 'q async_sems" where
  "async_put x q s = (case x of ASem i \<Rightarrow> s\<lparr>am_sems := (am_sems s)[i := q]\<rparr> | ABack \<Rightarrow> s\<lparr>am_back := q\<rparr>)"

definition async_release :: "'q fair_sem_api \<Rightarrow> async_sem \<Rightarrow> 'q async_sems \<Rightarrow> 'q async_sems outcome" where
  "async_release S x s = bind_outcome (async_get x s) (\<lambda>q. Ret (async_put x (fq_release S 1 q) s))"

text \<open>\<open>acquire(1).await.unwrap()\<close>; the releaser is disarmed, so that the permit is kept.\<close>

definition async_acquire :: "'q fair_sem_api \<Rightarrow> nat \<Rightarrow> nat list \<Rightarrow> async_sem \<Rightarrow> 'q async_sems \<Rightarrow> 'q async_sems outcome" where
  "async_acquire S t ts x s = bind_outcome (async_get x s) (\<lambda>q. bind_outcome (fq_acquire S t ts 1 q) (\<lambda>(r, q).
     bind_outcome (unwrap r) (\<lambda>_. Ret (async_put x q s))))"

section \<open>The main task\<close>

definition main_run_collect :: "TestResult \<Rightarrow> collecting \<Rightarrow> (collecting \<times> bool) outcome" where
  "main_run_collect msg c = bind_outcome (case msg of
     Worker ident count \<Rightarrow>
       if ident < length (co_results c)
       then if co_results c ! ident \<noteq> None then Panic ''Multiple results from worker''
            else Ret (c\<lparr>co_results := (co_results c)[ident := Some count]\<rparr>)
       else Panic ''index out of bounds''
   | Low \<Rightarrow> if co_low c then Panic ''Multiple results from 'low' worker'' else Ret (c\<lparr>co_low := True\<rparr>)
   | High \<Rightarrow> if co_high c then Panic ''Multiple results from 'high' worker'' else Ret (c\<lparr>co_high := True\<rparr>))
     (\<lambda>c. let c = c\<lparr>co_count := co_count c - 1\<rparr> in Ret (c, co_count c \<le> 0))"

definition main_run_total :: "collecting \<Rightarrow> nat outcome" where
  "main_run_total c = sum_results (co_results c)"

text \<open>The tasks on an executor other than the one of the main task: their end is not the same step as their report.
  For the commands that put the low task beside the main task this only adds executions.\<close>

definition other_executor :: "nat \<Rightarrow> bool" where
  "other_executor t = (NUM_THREADS \<le> t)"

definition async_api :: "'q fair_sem_api \<Rightarrow> ('ch, TestResult) emb_channel_api \<Rightarrow> ('i, Bench_Command) task_place_api \<Rightarrow>
    ('q async_sems, async_sem, Bench_Command, 'i, TestResult, 'ch, collecting) crew_api" where
  "async_api S C P = \<lparr>ca_tasks = NUM_THREADS + 2, ca_give = async_release S, ca_take = async_acquire S,
     ca_try = (\<lambda>x s. Panic ''not used''), ca_call = (\<lambda>t. spawn_task P), ca_next = tp_start P,
     ca_body = async_body, ca_leaves = other_executor, ca_report = tests_report,
     ca_send = ec_send C, ca_recv = ec_receive C, ca_fresh = collecting_new, ca_collect = main_run_collect\<rparr>"

definition main_run_order :: "nat list" where
  "main_run_order = [high_task, low_task] @ [0..<NUM_THREADS]"

type_synonym ('q, 'i, 'ch) async = "('q async_sems, async_sem, 'i, 'ch, collecting) crew"

text \<open>The start of a test in \<open>main_run\<close>: the semaphores are set to zero.\<close>

definition main_run_start :: "'q fair_sem_api \<Rightarrow> ('q, 'i, 'ch) async \<Rightarrow> ('q, 'i, 'ch) async" where
  "main_run_start S s = s\<lparr>cr_res := \<lparr>am_sems = map (fq_set S 0) (am_sems (cr_res s)), am_back = fq_set S 0 (am_back (cr_res s))\<rparr>,
     cr_main := Launch main_run_order\<rparr>"

definition AsyncTests_new :: "'q fair_sem_api \<Rightarrow> ('ch, TestResult) emb_channel_api \<Rightarrow> ('i, Bench_Command) task_place_api \<Rightarrow> ('q, 'i, 'ch) async" where
  "AsyncTests_new S C P = \<lparr>cr_res = \<lparr>am_sems = replicate NUM_THREADS (fq_new S 0), am_back = fq_new S 0\<rparr>, cr_task = (\<lambda>_. Off),
     cr_inbox = (\<lambda>_. tp_new P), cr_box = ec_new C, cr_main = Finished collecting_new\<rparr>"

section \<open>The loops of the commands\<close>

definition async_count :: "Bench_Command \<Rightarrow> nat" where
  "async_count command = (case command of Empty \<Rightarrow> 1 | _ \<Rightarrow> cmd_count command)"

definition async_ops :: "Bench_Command \<Rightarrow> nat \<Rightarrow> async_sem net_op list" where
  "async_ops command t = (case async_body t command of Ret (ops, n) \<Rightarrow> ops | _ \<Rightarrow> [])"

abbreviation async_goal :: "Bench_Command \<Rightarrow> nat \<Rightarrow> nat" where
  "async_goal command \<equiv> \<lambda>t. if t < NUM_THREADS then async_count command else 0"

lemmas async_defs = async_ops_def async_body_def async_worker_def low_worker_def high_worker_def async_simple_sem_def
  async_simple_sem_yield_def sem_wait_taker_def sem_wait_giver_def sem_ping_pong_taker_def sem_ping_pong_giver_def

lemma inj_ASem: "inj_on ASem A" by (simp add: inj_on_def)

lemma low_not_worker [simp]: "\<not> low_task < NUM_THREADS" "NUM_THREADS \<le> low_task" "low_task < Suc (Suc NUM_THREADS)"
  by (simp_all add: low_task_def)

lemma async_wait:
  assumes "command = SemWait n \<or> command = SemWaitSame n" and "n < 2 ^ 32"
  shows "net_live (NUM_THREADS + 2) (async_ops command) (\<lambda>_. 2 ^ 32 - 1)"
  using assms by (intro net_wait [where f = ASem and n = n and g = low_task and e = "[]" and W = NUM_THREADS])
    (auto simp: async_defs inj_ASem)

lemma async_ping_pong:
  assumes "command = SemPingPong n \<or> command = SemOnePingPong n"
  shows "net_live (NUM_THREADS + 2) (async_ops command) (\<lambda>_. 2 ^ 32 - 1)"
  using assms by (intro net_ping_pong [where f = "\<lambda>_. ASem 0" and b = "\<lambda>_. ABack" and n = n and g = low_task and e = "[]" and W = NUM_THREADS])
    (auto simp: async_defs pp_blocks_const pp_apart_def)

lemma async_live:
  assumes "async_count command < 2 ^ 32"
  shows "net_live (NUM_THREADS + 2) (async_ops command) (\<lambda>_. 2 ^ 32 - 1)"
proof (cases command)
  case (SemWait n)
  with assms show ?thesis by (intro async_wait) (auto simp: async_count_def cmd_count_def)
next
  case (SemWaitSame n)
  with assms show ?thesis by (intro async_wait) (auto simp: async_count_def cmd_count_def)
next
  case (SemPingPong n)
  then show ?thesis by (intro async_ping_pong) auto
next
  case (SemOnePingPong n)
  then show ?thesis by (intro async_ping_pong) auto
qed (auto intro!: net_self [where f = ASem] own_loopI simp: async_defs inj_ASem)

definition async_names :: "async_sem set" where
  "async_names = insert ABack (ASem ` {..<NUM_THREADS})"

lemma async_ops_ok:
  assumes "t < NUM_THREADS + 2" and "\<forall>n. command \<noteq> SemHigh n"
  shows "\<exists>n. async_body t command = Ret (async_ops command t, n) \<and> n + op_ticks (async_ops command t) = async_goal command t"
    and "op \<in> set (async_ops command t) \<Longrightarrow> op_res op \<subseteq> async_names" and "OpTry y \<notin> set (async_ops command t)"
proof -
  have ticks: "op_ticks (map (\<lambda>i. OpGive (ASem i)) js) = 0" for js by simp
  have pos: "0 < NUM_THREADS" by (simp add: NUM_THREADS_def)
  show "\<exists>n. async_body t command = Ret (async_ops command t, n) \<and> n + op_ticks (async_ops command t) = async_goal command t"
    using assms by (cases command) (auto simp: async_defs async_count_def cmd_count_def)
  show "op \<in> set (async_ops command t) \<Longrightarrow> op_res op \<subseteq> async_names"
    using assms pos by (cases command) (auto simp: async_defs async_names_def dest!: set_for_count_iff split: if_splits)
  show "OpTry y \<notin> set (async_ops command t)"
    using assms by (cases command) (auto simp: async_defs dest!: set_for_count_iff split: if_splits)
qed

section \<open>The semaphores keep their counts\<close>

definition asem_of :: "async_sem \<Rightarrow> 'q async_sems \<Rightarrow> 'q" where
  "asem_of x s = (case x of ASem i \<Rightarrow> am_sems s ! i | ABack \<Rightarrow> am_back s)"

definition async_ok :: "'q async_sems \<Rightarrow> bool" where
  "async_ok s \<longleftrightarrow> length (am_sems s) = NUM_THREADS"

definition async_val :: "('q \<Rightarrow> nat) \<Rightarrow> 'q async_sems \<Rightarrow> async_sem \<Rightarrow> nat" where
  "async_val permits s x = (if x \<in> async_names then permits (asem_of x s) else 0)"

lemma async_get_of: "async_ok s \<Longrightarrow> x \<in> async_names \<Longrightarrow> async_get x s = Ret (asem_of x s)"
  by (auto simp: async_ok_def async_names_def async_get_def asem_of_def)

lemma async_put_ok:
  assumes "async_ok s" and "x \<in> async_names"
  shows "async_ok (async_put x q s)" and "async_val permits (async_put x q s) = (async_val permits s)(x := permits q)"
proof -
  show "async_ok (async_put x q s)" using assms by (cases x) (simp_all add: async_ok_def async_put_def)
  have "asem_of y (async_put x q s) = (if y = x then q else asem_of y s)" if "y \<in> async_names" for y
    using assms that by (cases x; cases y) (auto simp: asem_of_def async_put_def async_ok_def async_names_def nth_list_update)
  with assms(2) show "async_val permits (async_put x q s) = (async_val permits s)(x := permits q)" by (auto simp: fun_eq_iff async_val_def)
qed

text \<open>The two collectors differ in the text of a panic only.\<close>

lemma main_run_collect_Ret: "main_run_collect m c = Ret r \<longleftrightarrow> run_collect m c = Ret r"
  by (cases m) (auto simp: main_run_collect_def run_collect_def Let_def)

section \<open>The benchmark keeps the laws of a crew\<close>

locale async_env = fair_semaphore S permits "NUM_THREADS + 2" + emb_channel C queued 1 + task_place P spawned
  for S :: "'q fair_sem_api" and permits and C :: "('ch, TestResult) emb_channel_api" and queued
    and P :: "('i, Bench_Command) task_place_api" and spawned
begin

lemma async_release_ok:
  assumes "async_ok s" and "x \<in> async_names" and "async_val permits s x < 2 ^ 32 - 1"
  shows "\<exists>s'. async_release S x s = Ret s' \<and> async_ok s' \<and> async_val permits s' = (async_val permits s)(x := async_val permits s x + 1)"
  using assms async_put_ok [OF assms(1,2)] release_permits [of "asem_of x s" 1] async_get_of [OF assms(1,2)]
  by (auto simp: async_release_def async_val_def)

lemma async_acquire_cases:
  assumes s: "async_ok s" and x: "x \<in> async_names" and t: "t \<in> set ts" "distinct ts" "set ts \<subseteq> {..<NUM_THREADS + 2}"
  shows "async_acquire S t ts x s = Blocked \<or> 0 < async_val permits s x \<and>
    (\<exists>s'. async_acquire S t ts x s = Ret s' \<and> async_ok s' \<and> async_val permits s' = (async_val permits s)(x := async_val permits s x - 1))"
proof -
  have "length ts \<le> NUM_THREADS + 2" using card_mono [OF _ t(3)] distinct_card [OF t(2)] by simp
  from acquire_cases [OF t(1,2) this, of 1 "asem_of x s"] async_put_ok [OF s x] async_get_of [OF s x] x show ?thesis
    by (fastforce simp: async_acquire_def async_val_def)
qed

lemma async_acquire_some:
  assumes s: "async_ok s" and x: "x \<in> async_names" and v: "0 < async_val permits s x" and t: "ts \<noteq> []" "distinct ts" "set ts \<subseteq> {..<NUM_THREADS + 2}"
  shows "\<exists>t\<in>set ts. async_acquire S t ts x s \<noteq> Blocked"
proof -
  have l: "length ts \<le> NUM_THREADS + 2" using card_mono [OF _ t(3)] distinct_card [OF t(2)] by simp
  obtain u where u: "u \<in> set ts" "fq_acquire S u ts 1 (asem_of x s) \<noteq> Blocked"
    using acquire_some [OF t(1,2) l, of 1 "asem_of x s"] v x by (auto simp: async_val_def)
  with acquire_cases [OF u(1) t(2) l, of 1 "asem_of x s"] async_get_of [OF s x] show ?thesis
    by (intro bexI [of _ u]) (auto simp: async_acquire_def)
qed

lemma async_laws:
  assumes fits: "NUM_THREADS * async_count command < 2 ^ 32" and known: "\<forall>n. command \<noteq> SemHigh n"
  shows "crew_laws (async_api S C P) command (async_ops command) (async_goal command) async_ok (async_val permits) (\<lambda>_. 2 ^ 32 - 1) async_names
    (\<lambda>_. True) spawned (\<lambda>_. True) queued collecting_ok results_seen"
proof unfold_locales
  have N: "ca_tasks (async_api S C P) = NUM_THREADS + 2" by (simp add: async_api_def)
  show "0 < ca_tasks (async_api S C P)" by (simp add: N)
  show "net_live (ca_tasks (async_api S C P)) (async_ops command) (\<lambda>_. 2 ^ 32 - 1)"
    unfolding N using fits by (intro async_live) (simp add: NUM_THREADS_def)
  show "collecting_ok (ca_fresh (async_api S C P))" "results_seen (ca_fresh (async_api S C P)) = Map.empty"
    using collecting_new_ok by (simp_all add: async_api_def)
  fix t op s y ts
  show "\<exists>n. ca_body (async_api S C P) t command = Ret (async_ops command t, n) \<and> n + op_ticks (async_ops command t) = async_goal command t"
    if "t < ca_tasks (async_api S C P)" using that async_ops_ok(1) [OF _ known, of t] by (simp add: async_api_def)
  show "op_res op \<subseteq> async_names" if "t < ca_tasks (async_api S C P)" "op \<in> set (async_ops command t)"
    using that async_ops_ok(2) [OF _ known] unfolding N by blast
  show "\<exists>s'. ca_try (async_api S C P) y s = Ret s' \<and> async_ok s' \<and> async_val permits s' = (async_val permits s)(y := async_val permits s y - 1)"
    if "t < ca_tasks (async_api S C P)" "OpTry y \<in> set (async_ops command t)" using that async_ops_ok(3) [OF _ known] unfolding N by blast
  assume s: "async_ok s" and y: "y \<in> async_names"
  show "\<exists>s'. ca_give (async_api S C P) y s = Ret s' \<and> async_ok s' \<and> async_val permits s' = (async_val permits s)(y := async_val permits s y + 1)"
    if "async_val permits s y < 2 ^ 32 - 1" using async_release_ok [OF s y that] by (simp add: async_api_def)
  show "ca_take (async_api S C P) t ts y s = Blocked \<or> 0 < async_val permits s y \<and>
      (\<exists>s'. ca_take (async_api S C P) t ts y s = Ret s' \<and> async_ok s' \<and> async_val permits s' = (async_val permits s)(y := async_val permits s y - 1))"
    if "t \<in> set ts" "distinct ts" "set ts \<subseteq> {..<ca_tasks (async_api S C P)}"
    using async_acquire_cases [OF s y that(1,2)] that(3) by (simp add: async_api_def)
  show "\<exists>t\<in>set ts. ca_take (async_api S C P) t ts y s \<noteq> Blocked"
    if "0 < async_val permits s y" "ts \<noteq> []" "distinct ts" "set ts \<subseteq> {..<ca_tasks (async_api S C P)}"
    using async_acquire_some [OF s y that(1,2,3)] that(4) by (simp add: async_api_def)
next
  fix t i ch m ms c
  show "\<exists>i'. ca_call (async_api S C P) t False command i = Ret i' \<and> True \<and> spawned i' = [command]" if "spawned i = []"
    using spawn_free [OF that, of command] by (auto simp: async_api_def spawn_task_def)
  show "\<exists>i'. ca_next (async_api S C P) i = Ret (command, i') \<and> True \<and> spawned i' = []" if "spawned i = [command]"
    using start_some [OF that] by (simp add: async_api_def)
  show "ca_next (async_api S C P) i = Blocked" if "spawned i = []" using start_none [OF that] by (simp add: async_api_def)
  show "ca_send (async_api S C P) m ch = Blocked \<and> queued ch \<noteq> [] \<or>
      (\<exists>ch'. ca_send (async_api S C P) m ch = Ret ch' \<and> True \<and> queued ch' = queued ch @ [m])"
    using send_room [of ch m] send_full [of ch m] by (cases "queued ch") (auto simp: async_api_def)
  show "\<exists>ch'. ca_recv (async_api S C P) ch = Ret (m, ch') \<and> True \<and> queued ch' = ms" if "queued ch = m # ms"
    using receive_some [OF that] by (simp add: async_api_def)
  show "ca_recv (async_api S C P) ch = Blocked" if "queued ch = []" using receive_none [OF that] by (simp add: async_api_def)
  show "\<exists>c'. ca_collect (async_api S C P) (ca_report (async_api S C P) t (async_goal command t)) c =
        Ret (c', insert t (dom (results_seen c)) = {..<ca_tasks (async_api S C P)}) \<and>
      collecting_ok c' \<and> results_seen c' = (results_seen c)(t \<mapsto> async_goal command t)"
    if "collecting_ok c" "t < ca_tasks (async_api S C P)" "results_seen c t = None"
    using run_collect_ok [of c t "async_goal command t"] that by (simp add: async_api_def main_run_collect_Ret)
qed

end

section \<open>Properties\<close>

definition async_idle :: "('ch \<Rightarrow> TestResult list) \<Rightarrow> ('i \<Rightarrow> Bench_Command list) \<Rightarrow> ('q, 'i, 'ch) async \<Rightarrow> bool" where
  "async_idle queued spawned s \<longleftrightarrow> async_ok (cr_res s) \<and> queued (cr_box s) = [] \<and>
     (\<forall>t<NUM_THREADS + 2. cr_task s t = Off \<and> spawned (cr_inbox s t) = [])"

context async_env
begin

lemma async_ready:
  assumes "NUM_THREADS * async_count command < 2 ^ 32" and "\<forall>n. command \<noteq> SemHigh n" and "async_idle queued spawned s"
  shows "crew_laws.crew_ready (async_api S C P) async_ok (async_val permits) (\<lambda>_. True) spawned (\<lambda>_. True) queued main_run_order (main_run_start S s)"
proof -
  have "distinct main_run_order" "set main_run_order = {..<NUM_THREADS + 2}" by (auto simp: main_run_order_def low_task_def high_task_def)
  moreover have "async_val permits (cr_res (main_run_start S s)) = (\<lambda>_. 0)"
    using assms(3) by (auto simp: fun_eq_iff async_val_def main_run_start_def asem_of_def async_names_def async_idle_def async_ok_def set_permits)
  moreover have "ca_tasks (async_api S C P) = NUM_THREADS + 2" by (simp add: async_api_def)
  ultimately show ?thesis using assms(3) unfolding crew_laws.crew_ready_def [OF async_laws [OF assms(1,2)]]
    by (simp add: async_idle_def main_run_start_def async_ok_def)
qed

lemma async_completes:
  assumes fits: "NUM_THREADS * async_count command < 2 ^ 32" and known: "\<forall>n. command \<noteq> SemHigh n" and idle: "async_idle queued spawned s"
  shows "(crew_step (async_api S C P) command)\<^sup>*\<^sup>* (main_run_start S s) s' \<Longrightarrow> crew_fine (async_api S C P) command s'"
    and "(crew_step (async_api S C P) command)\<^sup>*\<^sup>* (main_run_start S s) s' \<Longrightarrow> cr_main s' = Finished c \<Longrightarrow>
      main_run_total c = Ret (NUM_THREADS * async_count command)"
    and "always_ends (crew_step (async_api S C P) command) (main_run_start S s) (\<lambda>s'. async_idle queued spawned s' \<and> (\<exists>c. cr_main s' = Finished c))"
    and "\<exists>s'. (crew_step (async_api S C P) command)\<^sup>*\<^sup>* (main_run_start S s) s' \<and> (\<exists>c. cr_main s' = Finished c) \<and> cr_task s' high_task = Ended"
proof -
  note laws = async_laws [OF fits known] and ready = async_ready [OF fits known idle]
  have N: "ca_tasks (async_api S C P) = NUM_THREADS + 2" by (simp add: async_api_def)
  show "(crew_step (async_api S C P) command)\<^sup>*\<^sup>* (main_run_start S s) s' \<Longrightarrow> crew_fine (async_api S C P) command s'"
    by (rule crew_laws.crew_completes(2) [OF laws ready])
  show "(crew_step (async_api S C P) command)\<^sup>*\<^sup>* (main_run_start S s) s' \<Longrightarrow> cr_main s' = Finished c \<Longrightarrow>
      main_run_total c = Ret (NUM_THREADS * async_count command)"
    using crew_laws.finished_totals [OF laws ready] results_total(2) [of c "async_count command"] fits N by (simp add: main_run_total_def)
  have "crew_laws.crew_done (async_api S C P) (async_goal command) async_ok (async_val permits) (\<lambda>_. True) spawned (\<lambda>_. True) queued collecting_ok results_seen s' \<Longrightarrow>
      async_idle queued spawned s' \<and> (\<exists>c. cr_main s' = Finished c)" for s'
    unfolding crew_laws.crew_done_def [OF laws] crew_laws.crew_over_def [OF laws] N by (auto simp: async_idle_def)
  then show "always_ends (crew_step (async_api S C P) command) (main_run_start S s) (\<lambda>s'. async_idle queued spawned s' \<and> (\<exists>c. cr_main s' = Finished c))"
    using crew_laws.crew_completes(1) [OF laws ready] unfolding always_ends_def by blast
  have h: "high_task < ca_tasks (async_api S C P)" "ca_leaves (async_api S C P) high_task" by (simp_all add: async_api_def high_task_def other_executor_def)
  show "\<exists>s'. (crew_step (async_api S C P) command)\<^sup>*\<^sup>* (main_run_start S s) s' \<and> (\<exists>c. cr_main s' = Finished c) \<and> cr_task s' high_task = Ended"
    using crew_laws.late_leaver [OF laws h crew_laws.ready_inv [OF laws ready] crew_laws.ready_inside [OF laws ready h(1)]]
    unfolding crew_laws.crew_over_def [OF laws] by blast
qed

lemma busy_place_panics: "cr_task s high_task = Ended \<Longrightarrow> main_step (async_api S C P) command (main_run_start S s) = Panic ''called `Result::unwrap()` on an `Err` value''"
  using spawn_busy [of True "cr_inbox s high_task" command]
  by (auto simp: main_step_def main_run_start_def main_run_order_def async_api_def spawn_task_def split: prod.splits)

end

text \<open>
  C20. A test of the async benchmark, for every command that it implements and whose total fits \<open>usize\<close>, once the tasks of
  earlier tests have ended: no task panics, the wait queue of no semaphore overflows, every execution ends, and the main
  task has the exact total. The workers, the low and the high task panic on the command \<open>SemHigh\<close>, which the thread benchmark has.
\<close>

theorem async_run_completes:
  assumes "fair_semaphore S permits (NUM_THREADS + 2)" and "emb_channel C queued 1" and "task_place P spawned"
    and "async_idle queued spawned s" and "NUM_THREADS * async_count command < 2 ^ 32" and "\<forall>n. command \<noteq> SemHigh n"
  shows "(\<forall>s'. (crew_step (async_api S C P) command)\<^sup>*\<^sup>* (main_run_start S s) s' \<longrightarrow> crew_fine (async_api S C P) command s' \<and>
       (\<forall>c. cr_main s' = Finished c \<longrightarrow> main_run_total c = Ret (NUM_THREADS * async_count command))) \<and>
    always_ends (crew_step (async_api S C P) command) (main_run_start S s) (\<lambda>s'. async_idle queued spawned s' \<and> (\<exists>c. cr_main s' = Finished c)) \<and>
    (\<forall>t n. async_body t (SemHigh n) = Panic ''Not implemented'')"
proof -
  have env: "async_env S permits C queued P spawned" using assms(1-3) by (simp add: async_env_def)
  have "\<forall>t n. async_body t (SemHigh n) = Panic ''Not implemented''" by (simp add: async_body_def async_worker_def low_worker_def high_worker_def)
  with async_env.async_completes(1,2,3) [OF env assms(5,6,4)] show ?thesis by blast
qed

text \<open>
  C27. The main task takes the last report for the end of a test, but the high task still occupies its place until its
  executor has seen it end. Every test has an execution in which the main task has all the reports and the high task has
  not ended; the next command then panics at the first spawn, because the place is busy.
\<close>

theorem async_respawn_panics:
  assumes "fair_semaphore S permits (NUM_THREADS + 2)" and "emb_channel C queued 1" and "task_place P spawned"
    and "async_idle queued spawned s" and "NUM_THREADS * async_count command < 2 ^ 32" and "\<forall>n. command \<noteq> SemHigh n"
  shows "\<exists>s'. (crew_step (async_api S C P) command)\<^sup>*\<^sup>* (main_run_start S s) s' \<and> (\<exists>c. cr_main s' = Finished c) \<and>
    (\<forall>command'. main_step (async_api S C P) command' (main_run_start S s') = Panic ''called `Result::unwrap()` on an `Err` value'')"
proof -
  have env: "async_env S permits C queued P spawned" using assms(1-3) by (simp add: async_env_def)
  from async_env.async_completes(4) [OF env assms(5,6,4)] async_env.busy_place_panics [OF env] show ?thesis by blast
qed

section \<open>Witnesses\<close>

interpretation ref_async: async_env ref_fair_sem "\<lambda>q. q" "ref_emb_channel 1" "\<lambda>ch. ch" ref_task_place "\<lambda>i. i"
  by unfold_locales

interpretation ref_async_crew: crew_laws "async_api ref_fair_sem (ref_emb_channel 1) ref_task_place" "SemOnePingPong TOTAL_ITERS"
  "async_ops (SemOnePingPong TOTAL_ITERS)" "async_goal (SemOnePingPong TOTAL_ITERS)" async_ok "async_val (\<lambda>q. q)" "\<lambda>_. 2 ^ 32 - 1" async_names
  "\<lambda>_. True" "\<lambda>i. i" "\<lambda>_. True" "\<lambda>ch. ch" collecting_ok results_seen
  by (rule ref_async.async_laws) (simp_all add: async_count_def cmd_count_def TOTAL_ITERS_def NUM_THREADS_def)

abbreviation ref_async_new :: "(nat, Bench_Command list, TestResult list) async" where
  "ref_async_new \<equiv> AsyncTests_new ref_fair_sem (ref_emb_channel 1) ref_task_place"

lemma ref_async_new_idle: "async_idle (\<lambda>ch. ch) (\<lambda>i. i) ref_async_new"
  by (simp add: async_idle_def AsyncTests_new_def async_ok_def ref_emb_channel_def ref_task_place_def)

theorem async_run_completes_witness:
  "always_ends (crew_step (async_api ref_fair_sem (ref_emb_channel 1) ref_task_place) (SemOnePingPong TOTAL_ITERS))
     (main_run_start ref_fair_sem ref_async_new) (\<lambda>s'. \<exists>c. cr_main s' = Finished c)"
proof -
  have "NUM_THREADS * async_count (SemOnePingPong TOTAL_ITERS) < 2 ^ 32" "\<forall>n. SemOnePingPong TOTAL_ITERS \<noteq> SemHigh n"
    by (simp_all add: async_count_def cmd_count_def TOTAL_ITERS_def NUM_THREADS_def)
  from async_run_completes [OF ref_fair.fair_semaphore_axioms ref_chan.emb_channel_axioms ref_place.task_place_axioms ref_async_new_idle this]
  show ?thesis unfolding always_ends_def by blast
qed

theorem async_respawn_panics_witness:
  "\<exists>s'. (crew_step (async_api ref_fair_sem (ref_emb_channel 1) ref_task_place) (SimpleSem TOTAL_ITERS))\<^sup>*\<^sup>* (main_run_start ref_fair_sem ref_async_new) s' \<and>
     main_step (async_api ref_fair_sem (ref_emb_channel 1) ref_task_place) (SimpleSem TOTAL_ITERS) (main_run_start ref_fair_sem s') =
       Panic ''called `Result::unwrap()` on an `Err` value''"
proof -
  have "NUM_THREADS * async_count (SimpleSem TOTAL_ITERS) < 2 ^ 32" "\<forall>n. SimpleSem TOTAL_ITERS \<noteq> SemHigh n"
    by (simp_all add: async_count_def cmd_count_def TOTAL_ITERS_def NUM_THREADS_def)
  from async_respawn_panics [OF ref_fair.fair_semaphore_axioms ref_chan.emb_channel_axioms ref_place.task_place_axioms ref_async_new_idle this]
  show ?thesis by blast
qed

end
