(* ===== verification/Embassy_Sample.thy ===== *)
theory Embassy_Sample
  imports Crew Embassy_Sync
begin

text \<open>
  \<open>samples/embassy/src/lib.rs\<close>: async tasks that play ping-pong over channels of one place. The workers are on the
  executor of the main task, the low task on an executor of its own. The number of workers is a parameter of the test.
\<close>

section \<open>Commands and tasks\<close>

definition EMB_THREADS :: nat where "EMB_THREADS = 6"

datatype Emb_Command = EmbEmpty | PingPong nat

definition get_count :: "Emb_Command \<Rightarrow> nat" where
  "get_count self = (case self of EmbEmpty \<Rightarrow> 0 | PingPong count \<Rightarrow> count)"

datatype Answer = AnsWorker nat nat | AnsLow

text \<open>The channels that act as semaphores.\<close>

datatype emb_chan = Forward nat | BackCh

record 'ch emb_chans =
  eb_forward :: "'ch list"
  eb_back :: 'ch

definition emb_worker :: "nat \<Rightarrow> Emb_Command \<Rightarrow> emb_chan net_op list" where
  "emb_worker ident command = (case command of EmbEmpty \<Rightarrow> [] | PingPong count \<Rightarrow> for_count count [OpTake (Forward ident), OpGive BackCh, OpTick])"

definition emb_low_task :: "nat \<Rightarrow> Emb_Command \<Rightarrow> emb_chan net_op list" where
  "emb_low_task n command = (case command of EmbEmpty \<Rightarrow> []
     | PingPong count \<Rightarrow> for_count count (concat (map (\<lambda>forw. [OpGive (Forward forw), OpTake BackCh]) [0..<n])))"

definition emb_body :: "nat \<Rightarrow> nat \<Rightarrow> Emb_Command \<Rightarrow> emb_chan net_op list" where
  "emb_body n t command = (if t < n then emb_worker t command else emb_low_task n command)"

definition emb_report :: "nat \<Rightarrow> nat \<Rightarrow> nat \<Rightarrow> Answer" where
  "emb_report n t count = (if t < n then AnsWorker t count else AnsLow)"

section \<open>The channels\<close>

definition emb_get :: "emb_chan \<Rightarrow> 'ch emb_chans \<Rightarrow> 'ch outcome" where
  "emb_get x s = (case x of Forward i \<Rightarrow> if i < length (eb_forward s) then Ret (eb_forward s ! i) else Panic ''index out of bounds'' | BackCh \<Rightarrow> Ret (eb_back s))"

definition emb_put :: "emb_chan \<Rightarrow> 'ch \<Rightarrow> 'ch emb_chans \<Rightarrow> 'ch emb_chans" where
  "emb_put x c s = (case x of Forward i \<Rightarrow> s\<lparr>eb_forward := (eb_forward s)[i := c]\<rparr> | BackCh \<Rightarrow> s\<lparr>eb_back := c\<rparr>)"

definition emb_send :: "('ch, unit) emb_channel_api \<Rightarrow> emb_chan \<Rightarrow> 'ch emb_chans \<Rightarrow> 'ch emb_chans outcome" where
  "emb_send C x s = bind_outcome (emb_get x s) (\<lambda>c. bind_outcome (ec_send C () c) (\<lambda>c. Ret (emb_put x c s)))"

definition emb_receive :: "('ch, unit) emb_channel_api \<Rightarrow> emb_chan \<Rightarrow> 'ch emb_chans \<Rightarrow> 'ch emb_chans outcome" where
  "emb_receive C x s = bind_outcome (emb_get x s) (\<lambda>c. bind_outcome (ec_receive C c) (\<lambda>(_, c). Ret (emb_put x c s)))"

section \<open>The run of a test\<close>

record answers =
  an_answers :: "nat option list"
  an_low :: bool
  an_count :: int

definition answers_new :: "nat \<Rightarrow> answers" where
  "answers_new n = \<lparr>an_answers = replicate n None, an_low = False, an_count = int (1 + n)\<rparr>"

definition emb_collect :: "Answer \<Rightarrow> answers \<Rightarrow> (answers \<times> bool) outcome" where
  "emb_collect msg c = (let c' = c\<lparr>an_count := an_count c - 1\<rparr>; stop = an_count c' \<le> 0 in case msg of
     AnsWorker ident count \<Rightarrow>
       if ident < length (an_answers c)
       then if an_answers c ! ident \<noteq> None then Panic ''Multiple results from worker''
            else Ret (c'\<lparr>an_answers := (an_answers c)[ident := Some count]\<rparr>, stop)
       else Panic ''index out of bounds''
   | AnsLow \<Rightarrow> if an_low c then Panic ''Multiple result from 'low' worker'' else Ret (c'\<lparr>an_low := True\<rparr>, stop))"

text \<open>The end of \<open>run\<close>, and the number of operations for the timer at its start.\<close>

definition emb_finish :: "answers \<Rightarrow> unit outcome" where
  "emb_finish c = (if an_count c \<noteq> 0 then Panic ''Invalid number of replies'' else Ret ())"

definition emb_timer_count :: "nat \<Rightarrow> Emb_Command \<Rightarrow> nat outcome" where
  "emb_timer_count n command = (if n * get_count command < 2 ^ 32 then Ret (n * get_count command) else Panic ''attempt to multiply with overflow'')"

type_synonym ('ch, 'i, 'ca) emb = "('ch emb_chans, emb_chan, 'i, 'ca, answers) crew"

definition emb_api :: "nat \<Rightarrow> ('ch, unit) emb_channel_api \<Rightarrow> ('ca, Answer) emb_channel_api \<Rightarrow> ('i, Emb_Command) task_place_api \<Rightarrow>
    ('ch emb_chans, emb_chan, Emb_Command, 'i, Answer, 'ca, answers) crew_api" where
  "emb_api n C D P = \<lparr>ca_tasks = n + 1, ca_give = emb_send C, ca_take = (\<lambda>t ts. emb_receive C), ca_try = (\<lambda>x s. Panic ''not used''),
     ca_call = (\<lambda>t. spawn_task P), ca_next = tp_start P, ca_body = (\<lambda>t command. Ret (emb_body n t command, 0)),
     ca_leaves = (\<lambda>t. t = n), ca_report = emb_report n, ca_send = ec_send D, ca_recv = ec_receive D,
     ca_fresh = answers_new n, ca_collect = emb_collect\<rparr>"

text \<open>The workers are spawned first, then the low task.\<close>

definition emb_run :: "nat \<Rightarrow> Emb_Command \<Rightarrow> ('ch, 'i, 'ca) emb \<Rightarrow> (('ch, 'i, 'ca) emb \<times> nat) outcome" where
  "emb_run n command s = bind_outcome (emb_timer_count n command) (\<lambda>ops. Ret (s\<lparr>cr_main := Launch [0..<n + 1]\<rparr>, ops))"

text \<open>\<open>ThreadTests::new\<close>: a vector of at most \<open>EMB_THREADS\<close> channels.\<close>

definition emb_new :: "('ch, unit) emb_channel_api \<Rightarrow> ('ca, Answer) emb_channel_api \<Rightarrow> ('i, Emb_Command) task_place_api \<Rightarrow> nat \<Rightarrow> ('ch, 'i, 'ca) emb outcome" where
  "emb_new C D P count = (if EMB_THREADS < count then Panic ''called `Option::unwrap()` on a `None` value''
     else Ret \<lparr>cr_res = \<lparr>eb_forward = replicate count (ec_new C), eb_back = ec_new C\<rparr>, cr_task = (\<lambda>_. Off), cr_inbox = (\<lambda>_. tp_new P),
       cr_box = ec_new D, cr_main = Finished (answers_new count)\<rparr>)"

section \<open>The laws of a crew\<close>

definition emb_names :: "nat \<Rightarrow> emb_chan set" where
  "emb_names n = insert BackCh (Forward ` {..<n})"

definition ech_of :: "emb_chan \<Rightarrow> 'ch emb_chans \<Rightarrow> 'ch" where
  "ech_of x s = (case x of Forward i \<Rightarrow> eb_forward s ! i | BackCh \<Rightarrow> eb_back s)"

definition emb_ok :: "nat \<Rightarrow> 'ch emb_chans \<Rightarrow> bool" where
  "emb_ok n s \<longleftrightarrow> length (eb_forward s) = n"

definition emb_val :: "nat \<Rightarrow> ('ch \<Rightarrow> unit list) \<Rightarrow> 'ch emb_chans \<Rightarrow> emb_chan \<Rightarrow> nat" where
  "emb_val n queued s x = (if x \<in> emb_names n then length (queued (ech_of x s)) else 0)"

lemma emb_get_of: "emb_ok n s \<Longrightarrow> x \<in> emb_names n \<Longrightarrow> emb_get x s = Ret (ech_of x s)"
  by (auto simp: emb_ok_def emb_names_def emb_get_def ech_of_def)

lemma emb_put_ok:
  assumes "emb_ok n s" and "x \<in> emb_names n"
  shows "emb_ok n (emb_put x c s)" and "emb_val n queued (emb_put x c s) = (emb_val n queued s)(x := length (queued c))"
proof -
  show "emb_ok n (emb_put x c s)" using assms by (cases x) (simp_all add: emb_ok_def emb_put_def)
  have "ech_of y (emb_put x c s) = (if y = x then c else ech_of y s)" if "y \<in> emb_names n" for y
    using assms that by (cases x; cases y) (auto simp: ech_of_def emb_put_def emb_ok_def emb_names_def nth_list_update)
  with assms(2) show "emb_val n queued (emb_put x c s) = (emb_val n queued s)(x := length (queued c))" by (auto simp: fun_eq_iff emb_val_def)
qed

abbreviation emb_goal :: "nat \<Rightarrow> Emb_Command \<Rightarrow> nat \<Rightarrow> nat" where
  "emb_goal n command \<equiv> \<lambda>t. if t < n then get_count command else 0"

lemma emb_ticks: "op_ticks (emb_body n t command) = emb_goal n command t"
proof -
  have "op_ticks (concat (map (\<lambda>i. [OpGive (Forward i), OpTake BackCh]) js)) = 0" for js by (induction js) auto
  then show ?thesis by (cases command) (auto simp: emb_body_def emb_worker_def emb_low_task_def get_count_def)
qed

lemma emb_live: "net_live (n + 1) (\<lambda>t. emb_body n t command) (\<lambda>_. 1)"
proof (cases command)
  case EmbEmpty
  then show ?thesis by (intro net_self [where f = Forward]) (auto simp: emb_body_def emb_worker_def emb_low_task_def inj_on_def intro: own_loopI)
next
  case (PingPong k)
  then show ?thesis by (intro net_ping_pong [where f = Forward and b = "\<lambda>_. BackCh" and n = k and g = n and e = "[OpTick]" and W = n])
      (auto simp: emb_body_def emb_worker_def emb_low_task_def pp_blocks_def pp_apart_def)
qed

lemma emb_ops_names: "t < n + 1 \<Longrightarrow> op \<in> set (emb_body n t command) \<Longrightarrow> op_res op \<subseteq> emb_names n \<and> (\<forall>y. op \<noteq> OpTry y)"
  by (cases command) (auto simp: emb_body_def emb_worker_def emb_low_task_def emb_names_def for_count_def split: if_splits)

definition answers_seen :: "nat \<Rightarrow> answers \<Rightarrow> nat \<rightharpoonup> nat" where
  "answers_seen n c t = (if t < n then an_answers c ! t else if t = n \<and> an_low c then Some 0 else None)"

definition answers_ok :: "nat \<Rightarrow> answers \<Rightarrow> bool" where
  "answers_ok n c \<longleftrightarrow> length (an_answers c) = n \<and> an_count c = int (n + 1) - int (card (dom (answers_seen n c)))"

lemma answers_seen_dom: "dom (answers_seen n c) \<subseteq> {..<n + 1}"
  by (auto simp: answers_seen_def split: if_splits)

lemma answers_new_ok: "answers_ok n (answers_new n)" "answers_seen n (answers_new n) = Map.empty"
proof -
  show "answers_seen n (answers_new n) = Map.empty" by (auto simp: fun_eq_iff answers_seen_def answers_new_def)
  then show "answers_ok n (answers_new n)" by (simp add: answers_ok_def answers_new_def)
qed

lemma emb_collect_ok:
  assumes ok: "answers_ok n c" and t: "t < n + 1" and none: "answers_seen n c t = None" and k: "n \<le> t \<longrightarrow> k = 0"
  shows "\<exists>c'. emb_collect (emb_report n t k) c = Ret (c', insert t (dom (answers_seen n c)) = {..<n + 1}) \<and>
    answers_ok n c' \<and> answers_seen n c' = (answers_seen n c)(t \<mapsto> k)"
proof -
  let ?D = "dom (answers_seen n c)"
  have fin: "finite ?D" using answers_seen_dom finite_subset by blast
  have card: "card (insert t ?D) = card ?D + 1" using none fin by (simp add: domIff)
  have "insert t ?D = {..<n + 1} \<longleftrightarrow> n + 1 \<le> card ?D + 1"
    using card_seteq [of "{..<n + 1}" "insert t ?D"] answers_seen_dom t card by auto
  then have stop: "an_count c - 1 \<le> 0 \<longleftrightarrow> insert t ?D = {..<n + 1}" using ok by (auto simp: answers_ok_def)
  have okI: "answers_ok n c'" if "an_count c' = an_count c - 1" "length (an_answers c') = n" "answers_seen n c' = (answers_seen n c)(t \<mapsto> k)" for c'
    using that ok card by (simp add: answers_ok_def)
  have len: "length (an_answers c) = n" using ok by (simp add: answers_ok_def)
  show ?thesis
  proof (cases "t < n")
    case True
    then have "an_answers c ! t = None" using none by (simp add: answers_seen_def)
    then have r: "emb_collect (emb_report n t k) c = Ret (c\<lparr>an_count := an_count c - 1, an_answers := (an_answers c)[t := Some k]\<rparr>, an_count c - 1 \<le> 0)"
      using True len by (simp add: emb_collect_def emb_report_def Let_def)
    have "answers_seen n (c\<lparr>an_count := m, an_answers := (an_answers c)[t := Some k]\<rparr>) = (answers_seen n c)(t \<mapsto> k)" for m
      using True len by (auto simp: fun_eq_iff answers_seen_def nth_list_update)
    then show ?thesis unfolding r stop by (simp add: okI len)
  next
    case False
    then have tn: "t = n" "k = 0" using t k by auto
    then have "\<not> an_low c" using none by (auto simp: answers_seen_def)
    then have r: "emb_collect (emb_report n t k) c = Ret (c\<lparr>an_count := an_count c - 1, an_low := True\<rparr>, an_count c - 1 \<le> 0)"
      using tn by (simp add: emb_collect_def emb_report_def Let_def)
    have "answers_seen n (c\<lparr>an_count := m, an_low := True\<rparr>) = (answers_seen n c)(n \<mapsto> 0)" for m by (auto simp: fun_eq_iff answers_seen_def)
    then show ?thesis unfolding r stop by (simp add: okI len tn)
  qed
qed

locale emb_env = signals: emb_channel C queued 1 + reports: emb_channel D pending 1 + task_place P spawned
  for C :: "('ch, unit) emb_channel_api" and queued and D :: "('ca, Answer) emb_channel_api" and pending
    and P :: "('i, Emb_Command) task_place_api" and spawned
begin

lemma emb_send_ok:
  assumes "emb_ok n s" and "x \<in> emb_names n" and "emb_val n queued s x < 1"
  shows "\<exists>s'. emb_send C x s = Ret s' \<and> emb_ok n s' \<and> emb_val n queued s' = (emb_val n queued s)(x := emb_val n queued s x + 1)"
  using assms emb_put_ok [OF assms(1,2)] signals.send_room [of "ech_of x s" "()"] emb_get_of [OF assms(1,2)]
  by (auto simp: emb_send_def emb_val_def)

lemma emb_receive_ok:
  assumes s: "emb_ok n s" and x: "x \<in> emb_names n"
  shows "if emb_val n queued s x = 0 then emb_receive C x s = Blocked
    else \<exists>s'. emb_receive C x s = Ret s' \<and> emb_ok n s' \<and> emb_val n queued s' = (emb_val n queued s)(x := emb_val n queued s x - 1)"
proof (cases "queued (ech_of x s)")
  case Nil
  then show ?thesis using signals.receive_none [OF Nil] emb_get_of [OF s x] x by (simp add: emb_receive_def emb_val_def)
next
  case (Cons u us)
  with signals.receive_some [OF Cons] emb_get_of [OF s x] emb_put_ok [OF s x] x show ?thesis
    by (auto simp: emb_receive_def emb_val_def)
qed

lemma emb_laws:
  "crew_laws (emb_api n C D P) command (\<lambda>t. emb_body n t command) (emb_goal n command) (emb_ok n) (emb_val n queued) (\<lambda>_. 1) (emb_names n)
    (\<lambda>_. True) spawned (\<lambda>_. True) pending (answers_ok n) (answers_seen n)"
proof unfold_locales
  have N: "ca_tasks (emb_api n C D P) = n + 1" by (simp add: emb_api_def)
  show "0 < ca_tasks (emb_api n C D P)" by (simp add: N)
  show "net_live (ca_tasks (emb_api n C D P)) (\<lambda>t. emb_body n t command) (\<lambda>_. 1)" unfolding N by (rule emb_live)
  show "answers_ok n (ca_fresh (emb_api n C D P))" "answers_seen n (ca_fresh (emb_api n C D P)) = Map.empty"
    using answers_new_ok by (simp_all add: emb_api_def)
  fix t op s y ts
  show "\<exists>k. ca_body (emb_api n C D P) t command = Ret (emb_body n t command, k) \<and> k + op_ticks (emb_body n t command) = emb_goal n command t"
    using emb_ticks by (simp add: emb_api_def)
  show "op_res op \<subseteq> emb_names n" if "t < ca_tasks (emb_api n C D P)" "op \<in> set (emb_body n t command)"
    using that emb_ops_names unfolding N by blast
  show "\<exists>s'. ca_try (emb_api n C D P) y s = Ret s' \<and> emb_ok n s' \<and> emb_val n queued s' = (emb_val n queued s)(y := emb_val n queued s y - 1)"
    if "t < ca_tasks (emb_api n C D P)" "OpTry y \<in> set (emb_body n t command)" using that emb_ops_names unfolding N by blast
  assume s: "emb_ok n s" and y: "y \<in> emb_names n"
  show "\<exists>s'. ca_give (emb_api n C D P) y s = Ret s' \<and> emb_ok n s' \<and> emb_val n queued s' = (emb_val n queued s)(y := emb_val n queued s y + 1)"
    if "emb_val n queued s y < 1" using emb_send_ok [OF s y that] by (simp add: emb_api_def)
  show "ca_take (emb_api n C D P) t ts y s = Blocked \<or> 0 < emb_val n queued s y \<and>
      (\<exists>s'. ca_take (emb_api n C D P) t ts y s = Ret s' \<and> emb_ok n s' \<and> emb_val n queued s' = (emb_val n queued s)(y := emb_val n queued s y - 1))"
    using emb_receive_ok [OF s y] by (auto simp: emb_api_def split: if_splits)
  show "\<exists>t\<in>set ts. ca_take (emb_api n C D P) t ts y s \<noteq> Blocked" if "0 < emb_val n queued s y" "ts \<noteq> []"
    using emb_receive_ok [OF s y] that by (cases ts) (auto simp: emb_api_def)
next
  fix t i ch m ms c
  show "\<exists>i'. ca_call (emb_api n C D P) t False command i = Ret i' \<and> True \<and> spawned i' = [command]" if "spawned i = []"
    using spawn_free [OF that, of command] by (auto simp: emb_api_def spawn_task_def)
  show "\<exists>i'. ca_next (emb_api n C D P) i = Ret (command, i') \<and> True \<and> spawned i' = []" if "spawned i = [command]"
    using start_some [OF that] by (simp add: emb_api_def)
  show "ca_next (emb_api n C D P) i = Blocked" if "spawned i = []" using start_none [OF that] by (simp add: emb_api_def)
  show "ca_send (emb_api n C D P) m ch = Blocked \<and> pending ch \<noteq> [] \<or>
      (\<exists>ch'. ca_send (emb_api n C D P) m ch = Ret ch' \<and> True \<and> pending ch' = pending ch @ [m])"
    using reports.send_room [of ch m] reports.send_full [of ch m] by (cases "pending ch") (auto simp: emb_api_def)
  show "\<exists>ch'. ca_recv (emb_api n C D P) ch = Ret (m, ch') \<and> True \<and> pending ch' = ms" if "pending ch = m # ms"
    using reports.receive_some [OF that] by (simp add: emb_api_def)
  show "ca_recv (emb_api n C D P) ch = Blocked" if "pending ch = []" using reports.receive_none [OF that] by (simp add: emb_api_def)
  show "\<exists>c'. ca_collect (emb_api n C D P) (ca_report (emb_api n C D P) t (emb_goal n command t)) c =
        Ret (c', insert t (dom (answers_seen n c)) = {..<ca_tasks (emb_api n C D P)}) \<and>
      answers_ok n c' \<and> answers_seen n c' = (answers_seen n c)(t \<mapsto> emb_goal n command t)"
    if "answers_ok n c" "t < ca_tasks (emb_api n C D P)" "answers_seen n c t = None"
    using emb_collect_ok [of n c t "emb_goal n command t"] that by (simp add: emb_api_def)
qed

end

section \<open>Properties\<close>

definition emb_idle :: "nat \<Rightarrow> ('ch \<Rightarrow> unit list) \<Rightarrow> ('ca \<Rightarrow> Answer list) \<Rightarrow> ('i \<Rightarrow> Emb_Command list) \<Rightarrow> ('ch, 'i, 'ca) emb \<Rightarrow> bool" where
  "emb_idle n queued pending spawned s \<longleftrightarrow> emb_ok n (cr_res s) \<and> emb_val n queued (cr_res s) = (\<lambda>_. 0) \<and> pending (cr_box s) = [] \<and>
     (\<forall>t<n + 1. cr_task s t = Off \<and> spawned (cr_inbox s t) = [])"

lemma emb_finished:
  assumes "answers_ok n c" and "\<And>t. t < n + 1 \<Longrightarrow> answers_seen n c t = Some (emb_goal n command t)"
  shows "emb_finish c = Ret ()" and "an_answers c = replicate n (Some (get_count command))"
proof -
  have "dom (answers_seen n c) = {..<n + 1}" using assms(2) answers_seen_dom [of n c] by auto
  with assms(1) show "emb_finish c = Ret ()" by (simp add: answers_ok_def emb_finish_def)
  have "an_answers c ! t = Some (get_count command)" if "t < n" for t using assms(2) [of t] that by (simp add: answers_seen_def)
  with assms(1) show "an_answers c = replicate n (Some (get_count command))" by (intro nth_equalityI) (auto simp: answers_ok_def)
qed

context emb_env
begin

lemma emb_completes:
  assumes idle: "emb_idle n queued pending spawned s" and s0: "s0 = s\<lparr>cr_main := Launch [0..<n + 1]\<rparr>"
  shows "(crew_step (emb_api n C D P) command)\<^sup>*\<^sup>* s0 s' \<Longrightarrow> crew_fine (emb_api n C D P) command s'"
    and "(crew_step (emb_api n C D P) command)\<^sup>*\<^sup>* s0 s' \<Longrightarrow> cr_main s' = Finished c \<Longrightarrow>
      emb_finish c = Ret () \<and> an_answers c = replicate n (Some (get_count command))"
    and "always_ends (crew_step (emb_api n C D P) command) s0 (\<lambda>s'. emb_idle n queued pending spawned s' \<and> (\<exists>c. cr_main s' = Finished c))"
proof -
  note laws = emb_laws [of n command]
  have N: "ca_tasks (emb_api n C D P) = n + 1" by (simp add: emb_api_def)
  have ready: "crew_laws.crew_ready (emb_api n C D P) (emb_ok n) (emb_val n queued) (\<lambda>_. True) spawned (\<lambda>_. True) pending [0..<n + 1] s0"
    using idle unfolding s0 crew_laws.crew_ready_def [OF laws] N by (auto simp: emb_idle_def)
  show "(crew_step (emb_api n C D P) command)\<^sup>*\<^sup>* s0 s' \<Longrightarrow> crew_fine (emb_api n C D P) command s'"
    by (rule crew_laws.crew_completes(2) [OF laws ready])
  show "(crew_step (emb_api n C D P) command)\<^sup>*\<^sup>* s0 s' \<Longrightarrow> cr_main s' = Finished c \<Longrightarrow>
      emb_finish c = Ret () \<and> an_answers c = replicate n (Some (get_count command))"
    using crew_laws.finished_totals [OF laws ready] emb_finished [of n c command] N by simp
  have "crew_laws.crew_done (emb_api n C D P) (emb_goal n command) (emb_ok n) (emb_val n queued) (\<lambda>_. True) spawned (\<lambda>_. True) pending (answers_ok n) (answers_seen n) s' \<Longrightarrow>
      emb_idle n queued pending spawned s' \<and> (\<exists>c. cr_main s' = Finished c)" for s'
    unfolding crew_laws.crew_done_def [OF laws] crew_laws.crew_over_def [OF laws] N by (auto simp: emb_idle_def)
  then show "always_ends (crew_step (emb_api n C D P) command) s0 (\<lambda>s'. emb_idle n queued pending spawned s' \<and> (\<exists>c. cr_main s' = Finished c))"
    using crew_laws.crew_completes(1) [OF laws ready] unfolding always_ends_def by blast
qed

end


interpretation ref_emb: emb_env "ref_emb_channel 1" "\<lambda>ch. ch" "ref_emb_channel 1" "\<lambda>ch. ch" ref_task_place "\<lambda>i. i"
  by unfold_locales

interpretation ref_emb_crew: crew_laws "emb_api EMB_THREADS (ref_emb_channel 1) (ref_emb_channel 1) ref_task_place" "PingPong 10000"
  "\<lambda>t. emb_body EMB_THREADS t (PingPong 10000)" "emb_goal EMB_THREADS (PingPong 10000)" "emb_ok EMB_THREADS" "emb_val EMB_THREADS (\<lambda>ch. ch)" "\<lambda>_. 1"
  "emb_names EMB_THREADS" "\<lambda>_. True" "\<lambda>i. i" "\<lambda>_. True" "\<lambda>ch. ch" "answers_ok EMB_THREADS" "answers_seen EMB_THREADS"
  by (rule ref_emb.emb_laws)

lemma emb_new_idle:
  "\<exists>s. emb_new (ref_emb_channel 1) (ref_emb_channel 1) ref_task_place EMB_THREADS = Ret s \<and> emb_idle EMB_THREADS (\<lambda>ch. ch) (\<lambda>ch. ch) (\<lambda>i. i) s"
  by (auto simp: emb_new_def emb_idle_def emb_ok_def emb_val_def emb_names_def ech_of_def fun_eq_iff ref_emb_channel_def ref_task_place_def)


end
