(* ===== verification/Async_Phil.thy ===== *)
theory Async_Phil
  imports Philosophers Crew Embassy_Sync
begin

text \<open>
  \<open>samples/async-philosophers/src/async_sem.rs\<close> and \<open>lib.rs\<close>: six philosophers as async tasks of one executor, with fair
  semaphores as the forks. Each of them eats a fixed number of times; the task \<open>phil\<close> spawns them and waits for all
  of them on a semaphore. The tasks are interleaved at their \<open>await\<close>s.
\<close>

unbundle bit_operations_syntax

section \<open>Delays and statistics\<close>

definition EAT_COUNT :: nat where "EAT_COUNT = 10"

text \<open>The conversions of the \<open>Duration\<close> of \<open>embassy_time\<close>; the rate of its ticks is a setting.\<close>

record emb_dur_api =
  from_millis :: "u64 \<Rightarrow> u64"
  as_millis :: "u64 \<Rightarrow> u64"

text \<open>A number of milliseconds is rounded up to ticks, of which there is at least one in a second, and back down.\<close>

locale emb_duration =
  fixes D :: emb_dur_api
  assumes millis_up: "unat ms \<le> 2 ^ 32 \<Longrightarrow> unat ms \<le> unat (as_millis D (from_millis D ms)) \<and> unat (as_millis D (from_millis D ms)) \<le> unat ms + 1000"

definition async_delay_ms :: "i64 \<Rightarrow> u64 \<Rightarrow> u64 \<Rightarrow> u64" where
  "async_delay_ms uptime ident period =
     (let tick = uptime AND 0xFFFFFFFF; delay = (tick div 100 * (ident + 1)) AND 0x1F in (delay + 1) * period)"

definition async_random_delay :: "emb_dur_api \<Rightarrow> i64 \<Rightarrow> nat \<Rightarrow> u64 \<Rightarrow> u64" where
  "async_random_delay D uptime ident period = from_millis D (async_delay_ms uptime (of_nat ident) period)"

definition async_record_eat :: "emb_dur_api \<Rightarrow> nat \<Rightarrow> u64 \<Rightarrow> Stats \<Rightarrow> Stats outcome" where
  "async_record_eat D index time st = bind_outcome (add_at index (as_millis D time) (st_eating st)) (\<lambda>xs. Ret (st\<lparr>st_eating := xs\<rparr>))"

definition async_record_think :: "emb_dur_api \<Rightarrow> nat \<Rightarrow> u64 \<Rightarrow> Stats \<Rightarrow> Stats outcome" where
  "async_record_think D index time st =
     bind_outcome (add_at index (as_millis D time) (st_thinking st)) (\<lambda>xs.
     bind_outcome (add_at index 1 (st_count st)) (\<lambda>ys. Ret (st\<lparr>st_thinking := xs, st_count := ys\<rparr>)))"

section \<open>The tasks\<close>

text \<open>
  Where a philosopher is: not started, at one of its awaits in the round \<open>i\<close>, with the delay it sleeps, or ended. The
  mutex of the statistics is locked and released between two awaits, so that it is free whenever a task asks for it.
\<close>

datatype aph_pc = AOff | ATake0 nat | ATake1 nat | AEat nat u64 | AThink nat u64 | AEnd

datatype aph_main = AMSpawn | AMWait | AMDone

record ('q, 'i) aph_sys =
  ap_forks :: "'q list"
  ap_done :: 'q
  ap_pc :: "nat \<Rightarrow> aph_pc"
  ap_place :: "nat \<Rightarrow> 'i"
  ap_stats :: Stats
  ap_main :: aph_main

definition aph_goto :: "nat \<Rightarrow> aph_pc \<Rightarrow> ('q, 'i) aph_sys \<Rightarrow> ('q, 'i) aph_sys" where
  "aph_goto n pc s = s\<lparr>ap_pc := (ap_pc s)(n := pc)\<rparr>"

text \<open>The fork that a philosopher waits for, and the philosophers that wait for a fork.\<close>

fun aph_wants :: "nat \<Rightarrow> aph_pc \<Rightarrow> nat option" where
  "aph_wants n (ATake0 i) = Some (fst (phil_forks n))"
| "aph_wants n (ATake1 i) = Some (snd (phil_forks n))"
| "aph_wants n _ = None"

definition fork_waiters :: "nat \<Rightarrow> (nat \<Rightarrow> aph_pc) \<Rightarrow> nat list" where
  "fork_waiters f pc = filter (\<lambda>n. aph_wants n (pc n) = Some f) [0..<NUM_PHIL]"

text \<open>\<open>acquire(1).await.unwrap().disarm()\<close> and \<open>release(1)\<close>\<close>

definition fork_acquire :: "'q fair_sem_api \<Rightarrow> nat \<Rightarrow> nat \<Rightarrow> ('q, 'i) aph_sys \<Rightarrow> ('q, 'i) aph_sys outcome" where
  "fork_acquire S n f s = (if length (ap_forks s) \<le> f then Panic ''index out of bounds''
     else bind_outcome (fq_acquire S n (fork_waiters f (ap_pc s)) 1 (ap_forks s ! f)) (\<lambda>(r, q).
       bind_outcome (unwrap r) (\<lambda>_. Ret (s\<lparr>ap_forks := (ap_forks s)[f := q]\<rparr>))))"

definition fork_release :: "'q fair_sem_api \<Rightarrow> nat \<Rightarrow> ('q, 'i) aph_sys \<Rightarrow> ('q, 'i) aph_sys outcome" where
  "fork_release S f s = (if length (ap_forks s) \<le> f then Panic ''index out of bounds''
     else Ret (s\<lparr>ap_forks := (ap_forks s)[f := fq_release S 1 (ap_forks s ! f)]\<rparr>))"

definition one_phil :: "'q fair_sem_api \<Rightarrow> emb_dur_api \<Rightarrow> ('i, nat) task_place_api \<Rightarrow> i64 \<Rightarrow> nat \<Rightarrow> ('q, 'i) aph_sys \<Rightarrow> ('q, 'i) aph_sys outcome" where
  "one_phil S D P uptime n s = (let forks = phil_forks n; delay = async_random_delay D uptime n 25 in case ap_pc s n of
     AOff \<Rightarrow> bind_outcome (tp_start P (ap_place s n)) (\<lambda>(_, p). Ret (aph_goto n (ATake0 0) (s\<lparr>ap_place := (ap_place s)(n := p)\<rparr>)))
   | ATake0 i \<Rightarrow> bind_outcome (fork_acquire S n (fst forks) s) (\<lambda>s. Ret (aph_goto n (ATake1 i) s))
   | ATake1 i \<Rightarrow> bind_outcome (fork_acquire S n (snd forks) s) (\<lambda>s. Ret (aph_goto n (AEat i delay) s))
   | AEat i d \<Rightarrow> bind_outcome (async_record_eat D n d (ap_stats s)) (\<lambda>st.
       bind_outcome (fork_release S (snd forks) (s\<lparr>ap_stats := st\<rparr>)) (\<lambda>s.
       bind_outcome (fork_release S (fst forks) s) (\<lambda>s. Ret (aph_goto n (AThink i delay) s))))
   | AThink i d \<Rightarrow> bind_outcome (async_record_think D n d (ap_stats s)) (\<lambda>st. let s = s\<lparr>ap_stats := st\<rparr> in
       if i + 1 < EAT_COUNT then Ret (aph_goto n (ATake0 (i + 1)) s)
       else Ret (aph_goto n AEnd (s\<lparr>ap_done := fq_release S 1 (ap_done s)\<rparr>)))
   | AEnd \<Rightarrow> Blocked)"

fun spawn_phils :: "('i, nat) task_place_api \<Rightarrow> nat list \<Rightarrow> (nat \<Rightarrow> 'i) \<Rightarrow> (nat \<Rightarrow> 'i) outcome" where
  "spawn_phils P [] place = Ret place"
| "spawn_phils P (i # is) place = bind_outcome (spawn_task P False i (place i)) (\<lambda>p. spawn_phils P is (place(i := p)))"

text \<open>
  The task \<open>phil\<close>. It does not keep the permits of \<open>DONE_SEM\<close>: what \<open>acquire\<close> returns is dropped, and gives them back.
\<close>

definition phil_task :: "'q fair_sem_api \<Rightarrow> ('i, nat) task_place_api \<Rightarrow> ('q, 'i) aph_sys \<Rightarrow> ('q, 'i) aph_sys outcome" where
  "phil_task S P s = (case ap_main s of
     AMSpawn \<Rightarrow> bind_outcome (spawn_phils P [0..<NUM_PHIL] (ap_place s)) (\<lambda>place. Ret (s\<lparr>ap_place := place, ap_main := AMWait\<rparr>))
   | AMWait \<Rightarrow> bind_outcome (fq_acquire S NUM_PHIL [NUM_PHIL] NUM_PHIL (ap_done s)) (\<lambda>(r, q).
       bind_outcome (unwrap r) (\<lambda>_. Ret (s\<lparr>ap_done := fq_release S NUM_PHIL q, ap_main := AMDone\<rparr>)))
   | AMDone \<Rightarrow> Blocked)"

inductive aphil_step :: "'q fair_sem_api \<Rightarrow> emb_dur_api \<Rightarrow> ('i, nat) task_place_api \<Rightarrow> ('q, 'i) aph_sys \<Rightarrow> ('q, 'i) aph_sys \<Rightarrow> bool"
  for S D P where
  one_moves: "n < NUM_PHIL \<Longrightarrow> one_phil S D P uptime n s = Ret s' \<Longrightarrow> aphil_step S D P s s'"
| task_moves: "phil_task S P s = Ret s' \<Longrightarrow> aphil_step S D P s s'"

definition aphil_fine :: "'q fair_sem_api \<Rightarrow> emb_dur_api \<Rightarrow> ('i, nat) task_place_api \<Rightarrow> ('q, 'i) aph_sys \<Rightarrow> bool" where
  "aphil_fine S D P s \<longleftrightarrow> (\<forall>n<NUM_PHIL. \<forall>uptime. fine (one_phil S D P uptime n s)) \<and> fine (phil_task S P s)"

definition aphil_start :: "'q fair_sem_api \<Rightarrow> ('i, nat) task_place_api \<Rightarrow> ('q, 'i) aph_sys" where
  "aphil_start S P = \<lparr>ap_forks = replicate NUM_PHIL (fq_new S 1), ap_done = fq_new S 0, ap_pc = (\<lambda>_. AOff), ap_place = (\<lambda>_. tp_new P),
     ap_stats = Stats_new, ap_main = AMSpawn\<rparr>"

section \<open>Bounds of the delays\<close>

lemma async_delay_bounds: "25 \<le> unat (async_delay_ms uptime ident 25) \<and> unat (async_delay_ms uptime ident 25) \<le> 800"
proof -
  let ?d = "((uptime AND 0xFFFFFFFF) div 100 * (ident + 1)) AND 0x1F :: u64"
  have "?d = take_bit 5 ((uptime AND 0xFFFFFFFF) div 100 * (ident + 1))" by (simp add: take_bit_eq_mask mask_eq_exp_minus_1)
  then have d: "unat ?d < 32" using take_bit_nat_less_exp [of 5 "unat ((uptime AND 0xFFFFFFFF) div 100 * (ident + 1) :: u64)"]
    by (simp add: unsigned_take_bit_eq)
  then have "unat (?d + 1) = unat ?d + 1" by (simp add: unat_word_ariths)
  with d have "unat ((?d + 1) * 25) = (unat ?d + 1) * 25" by (simp add: unat_word_ariths)
  with d show ?thesis unfolding async_delay_ms_def Let_def by simp
qed

text \<open>A sum of \<open>k\<close> delays in milliseconds.\<close>

definition delays :: "nat \<Rightarrow> u64 \<Rightarrow> bool" where
  "delays k v \<longleftrightarrow> 25 * k \<le> unat v \<and> unat v \<le> 1800 * k"

lemma delays_add:
  assumes "delays k v" and "k \<le> EAT_COUNT" and "delays 1 d"
  shows "delays (Suc k) (v + d)"
proof -
  have "unat v + unat d < 2 ^ 64" using assms by (simp add: delays_def EAT_COUNT_def)
  then have "unat (v + d) = unat v + unat d" by (simp add: unat_word_ariths)
  with assms show ?thesis by (simp add: delays_def)
qed

context emb_duration
begin

lemma delay_bounds: "delays 1 (as_millis D (async_random_delay D uptime n 25))"
  using async_delay_bounds [of uptime "of_nat n"] millis_up [of "async_delay_ms uptime (of_nat n) 25"]
  by (simp add: delays_def async_random_delay_def)

end

section \<open>Rounds\<close>

text \<open>How often a philosopher has thought and has eaten, and how many steps it has left.\<close>

fun aph_laps :: "aph_pc \<Rightarrow> nat" where
  "aph_laps AOff = 0" | "aph_laps (ATake0 i) = i" | "aph_laps (ATake1 i) = i" | "aph_laps (AEat i d) = i" | "aph_laps (AThink i d) = i"
| "aph_laps AEnd = EAT_COUNT"

fun aph_eaten :: "aph_pc \<Rightarrow> nat" where
  "aph_eaten (AThink i d) = Suc i" | "aph_eaten pc = aph_laps pc"

fun aph_left :: "aph_pc \<Rightarrow> nat" where
  "aph_left AOff = 4 * EAT_COUNT + 1"
| "aph_left (ATake0 i) = 4 * (EAT_COUNT - i)"
| "aph_left (ATake1 i) = 4 * (EAT_COUNT - i) - 1"
| "aph_left (AEat i d) = 4 * (EAT_COUNT - i) - 2"
| "aph_left (AThink i d) = 4 * (EAT_COUNT - i) - 3"
| "aph_left AEnd = 0"

definition aph_valid :: "emb_dur_api \<Rightarrow> aph_pc \<Rightarrow> bool" where
  "aph_valid D pc \<longleftrightarrow> (pc \<noteq> AEnd \<longrightarrow> aph_laps pc < EAT_COUNT) \<and> (\<forall>i d. pc = AEat i d \<or> pc = AThink i d \<longrightarrow> delays 1 (as_millis D d))"

definition aph_tally :: "aph_pc \<Rightarrow> nat \<Rightarrow> Stats \<Rightarrow> bool" where
  "aph_tally pc n st \<longleftrightarrow> st_count st ! n = of_nat (aph_laps pc) \<and> delays (aph_eaten pc) (st_eating st ! n) \<and> delays (aph_laps pc) (st_thinking st ! n)"

lemma async_record_eat_ok:
  assumes "stats_ok st" and "n < NUM_PHIL" and "aph_valid D (AEat i d)" and "\<forall>m<NUM_PHIL. aph_tally (pc m) m st" and "pc n = AEat i d"
  shows "\<exists>st'. async_record_eat D n d st = Ret st' \<and> stats_ok st' \<and> (\<forall>m<NUM_PHIL. aph_tally ((pc(n := AThink i d')) m) m st')"
proof -
  have "delays (Suc i) (st_eating st ! n + as_millis D d)"
    using assms(2-5) by (intro delays_add) (force simp: aph_valid_def aph_tally_def)+
  with assms show ?thesis by (force simp: async_record_eat_def add_at_def stats_ok_def aph_tally_def nth_list_update)
qed

lemma async_record_think_ok:
  assumes "stats_ok st" and "n < NUM_PHIL" and "aph_valid D (AThink i d)" and "\<forall>m<NUM_PHIL. aph_tally (pc m) m st" and "pc n = AThink i d"
    and "aph_laps pc' = Suc i" and "aph_eaten pc' = Suc i"
  shows "\<exists>st'. async_record_think D n d st = Ret st' \<and> stats_ok st' \<and> (\<forall>m<NUM_PHIL. aph_tally ((pc(n := pc')) m) m st')"
proof -
  have own: "delays (Suc i) (st_thinking st ! n + as_millis D d)"
    using assms(2-5) by (intro delays_add) (force simp: aph_valid_def aph_tally_def)+
  have tally: "aph_tally (AThink i d) n st" using assms(2,4,5) by force
  let ?st = "st\<lparr>st_thinking := (st_thinking st)[n := st_thinking st ! n + as_millis D d], st_count := (st_count st)[n := st_count st ! n + 1]\<rparr>"
  have "async_record_think D n d st = Ret ?st" "aph_tally pc' n ?st" using own tally assms(1,2,6,7) by (simp_all add: async_record_think_def add_at_def stats_ok_def aph_tally_def add.commute)
  moreover have "aph_tally (pc m) m ?st" if "m < NUM_PHIL" "m \<noteq> n" for m using assms(4) that by (simp add: aph_tally_def)
  ultimately show ?thesis using assms(1) by (intro exI [of _ ?st]) (simp add: stats_ok_def)
qed

section \<open>Forks\<close>

fun aph_holds :: "nat \<Rightarrow> aph_pc \<Rightarrow> nat set" where
  "aph_holds n (ATake1 i) = {fst (phil_forks n)}"
| "aph_holds n (AEat i d) = {fst (phil_forks n), snd (phil_forks n)}"
| "aph_holds n _ = {}"

text \<open>A fork has a permit exactly while nobody holds it, and nobody shares one.\<close>

definition forks_inv :: "('q \<Rightarrow> nat) \<Rightarrow> (nat \<Rightarrow> nat set) \<Rightarrow> 'q list \<Rightarrow> bool" where
  "forks_inv permits h forks \<longleftrightarrow> length forks = NUM_PHIL \<and>
     (\<forall>f<NUM_PHIL. permits (forks ! f) = (if \<exists>n<NUM_PHIL. f \<in> h n then 0 else 1)) \<and>
     (\<forall>n<NUM_PHIL. \<forall>m<NUM_PHIL. n \<noteq> m \<longrightarrow> h n \<inter> h m = {})"

lemma forks_inv_take:
  assumes "forks_inv permits h forks" and "n < NUM_PHIL" and "f < NUM_PHIL" and "0 < permits (forks ! f)" and "permits q = permits (forks ! f) - 1"
  shows "forks_inv permits (h(n := insert f (h n))) (forks[f := q])"
proof -
  have free: "\<forall>m<NUM_PHIL. f \<notin> h m" using assms(1,3,4) by (auto simp: forks_inv_def split: if_splits)
  then have "permits q = 0" using assms(1,3,5) by (auto simp: forks_inv_def)
  with assms(1-3) free show ?thesis by (auto simp: forks_inv_def nth_list_update)
qed

lemma forks_inv_release:
  assumes "forks_inv permits h forks" and "n < NUM_PHIL" and "f < NUM_PHIL" and "f \<in> h n" and "permits q = permits (forks ! f) + 1"
  shows "forks_inv permits (h(n := h n - {f})) (forks[f := q])"
proof -
  have "permits (forks ! f) = 0" using assms(1-4) by (auto simp: forks_inv_def)
  then have q: "permits q = 1" using assms(5) by simp
  have only: "f \<notin> h m" if "m < NUM_PHIL" "m \<noteq> n" for m using assms(1,2,4) that by (auto simp: forks_inv_def)
  have "(\<exists>m<NUM_PHIL. g \<in> (h(n := h n - {f})) m) \<longleftrightarrow> g \<noteq> f \<and> (\<exists>m<NUM_PHIL. g \<in> h m)" for g
  proof -
    have "g \<in> (h(n := h n - {f})) m \<longleftrightarrow> g \<noteq> f \<and> g \<in> h m" if "m < NUM_PHIL" for m using only that by (cases "m = n") auto
    then show ?thesis by blast
  qed
  moreover have "(h(n := h n - {f})) m \<inter> (h(n := h n - {f})) k = {}" if "m < NUM_PHIL" "k < NUM_PHIL" "m \<noteq> k" for m k
  proof -
    have "h m \<inter> h k = {}" using assms(1) that unfolding forks_inv_def by blast
    then show ?thesis by auto
  qed
  moreover have "permits (forks[f := q] ! g) = (if g \<noteq> f \<and> (\<exists>m<NUM_PHIL. g \<in> h m) then 0 else 1)" if "g < NUM_PHIL" for g
    using assms(1,3) q that by (auto simp: forks_inv_def nth_list_update)
  ultimately show ?thesis using assms(1) unfolding forks_inv_def by (simp del: fun_upd_apply)
qed

section \<open>The invariant\<close>

definition aph_inv :: "emb_dur_api \<Rightarrow> ('q \<Rightarrow> nat) \<Rightarrow> ('i \<Rightarrow> nat list) \<Rightarrow> ('q, 'i) aph_sys \<Rightarrow> bool" where
  "aph_inv D permits spawned s \<longleftrightarrow> forks_inv permits (\<lambda>n. aph_holds n (ap_pc s n)) (ap_forks s) \<and>
     permits (ap_done s) = card {n. n < NUM_PHIL \<and> ap_pc s n = AEnd} \<and> (ap_main s = AMDone \<longrightarrow> (\<forall>n<NUM_PHIL. ap_pc s n = AEnd)) \<and>
     (ap_main s = AMSpawn \<longrightarrow> (\<forall>n<NUM_PHIL. ap_pc s n = AOff)) \<and>
     (\<forall>n<NUM_PHIL. spawned (ap_place s n) = (if ap_pc s n = AOff \<and> ap_main s \<noteq> AMSpawn then [n] else [])) \<and>
     stats_ok (ap_stats s) \<and> (\<forall>n<NUM_PHIL. aph_tally (ap_pc s n) n (ap_stats s)) \<and> (\<forall>n<NUM_PHIL. aph_valid D (ap_pc s n))"

definition aph_rank :: "('q, 'i) aph_sys \<Rightarrow> nat" where
  "aph_rank s = (\<Sum>n<NUM_PHIL. aph_left (ap_pc s n)) + (case ap_main s of AMSpawn \<Rightarrow> 2 | AMWait \<Rightarrow> 1 | AMDone \<Rightarrow> 0)"

lemma aph_rank_less:
  assumes "n < NUM_PHIL" and "ap_pc s' = (ap_pc s)(n := pc')" and "aph_left pc' < aph_left (ap_pc s n)" and "ap_main s' = ap_main s"
  shows "aph_rank s' < aph_rank s"
proof -
  have "(\<Sum>k<NUM_PHIL. aph_left (ap_pc s' k)) < (\<Sum>k<NUM_PHIL. aph_left (ap_pc s k))"
    using assms(1-3) by (intro sum_strict_mono_ex1) auto
  with assms(4) show ?thesis by (simp add: aph_rank_def)
qed

lemma holds_upd: "(\<lambda>m. aph_holds m ((pc(n := v)) m)) = (\<lambda>m. aph_holds m (pc m))(n := aph_holds n v)"
  by (simp add: fun_eq_iff)

text \<open>The invariant after a step of a philosopher that neither starts nor ends.\<close>

lemma aph_inv_move:
  assumes "aph_inv D permits spawned s" and "n < NUM_PHIL" and "ap_pc s n \<noteq> AOff" "ap_pc s n \<noteq> AEnd" "v \<noteq> AOff" "v \<noteq> AEnd"
    and "ap_pc s' = (ap_pc s)(n := v)" "ap_done s' = ap_done s" "ap_main s' = ap_main s" "ap_place s' = ap_place s"
    and "forks_inv permits ((\<lambda>m. aph_holds m (ap_pc s m))(n := aph_holds n v)) (ap_forks s')"
    and "stats_ok (ap_stats s')" and "\<forall>m<NUM_PHIL. aph_tally (((ap_pc s)(n := v)) m) m (ap_stats s')" and "aph_valid D v"
  shows "aph_inv D permits spawned s'"
proof -
  have "{m. m < NUM_PHIL \<and> ap_pc s' m = AEnd} = {m. m < NUM_PHIL \<and> ap_pc s m = AEnd}" using assms(2,4,6,7) by auto
  moreover have "forks_inv permits (\<lambda>m. aph_holds m (ap_pc s' m)) (ap_forks s')" using assms(7,11) by (simp only: holds_upd)
  moreover note s = assms(1) [unfolded aph_inv_def]
  have main: "ap_main s \<noteq> AMDone" "ap_main s \<noteq> AMSpawn" using s assms(2-4) by auto
  moreover have "spawned (ap_place s' m) = (if ap_pc s' m = AOff \<and> ap_main s' \<noteq> AMSpawn then [m] else [])" if "m < NUM_PHIL" for m
    using s assms(3,5,7,9,10) that main by simp
  moreover have "aph_valid D (ap_pc s' m)" if "m < NUM_PHIL" for m using s assms(7,14) that by simp
  ultimately show ?thesis using s assms(7-9,12,13) unfolding aph_inv_def by (simp del: fun_upd_apply)
qed

lemma spawn_phils_ok:
  assumes "task_place P spawned" and "distinct is" and "\<forall>i\<in>set is. spawned (place i) = []"
  shows "\<exists>place'. spawn_phils P is place = Ret place' \<and> (\<forall>j. spawned (place' j) = (if j \<in> set is then [j] else spawned (place j)))"
  using assms(2,3)
proof (induction "is" arbitrary: place)
  case (Cons i "is")
  obtain p where p: "tp_spawn P False i (place i) = (Ok (), p)" "spawned p = [i]"
    using task_place.spawn_free [OF assms(1), of "place i" i] Cons.prems(2) by auto
  obtain place' where "spawn_phils P is (place(i := p)) = Ret place'" "\<forall>j. spawned (place' j) = (if j \<in> set is then [j] else spawned ((place(i := p)) j))"
  proof -
    have "\<forall>j\<in>set is. spawned ((place(i := p)) j) = []" "distinct is" using Cons.prems by auto
    from Cons.IH [OF this(2,1)] show ?thesis using that by blast
  qed
  with p Cons.prems(1) show ?case by (intro exI [of _ place']) (auto simp: spawn_task_def)
qed simp

locale aphil_env = fair_semaphore S permits NUM_PHIL + task_place P spawned + emb_duration D
  for S :: "'q fair_sem_api" and permits and P :: "('i, nat) task_place_api" and spawned and D
begin

abbreviation "phinv \<equiv> aph_inv D permits spawned"

lemma forks_length: "phinv s \<Longrightarrow> length (ap_forks s) = NUM_PHIL"
  by (simp add: aph_inv_def forks_inv_def)

lemma fork_acquire_ok:
  assumes s: "phinv s" and n: "n < NUM_PHIL" and f: "aph_wants n (ap_pc s n) = Some f" "f < NUM_PHIL"
  shows "fork_acquire S n f s = Blocked \<and> fq_acquire S n (fork_waiters f (ap_pc s)) 1 (ap_forks s ! f) = Blocked \<or>
    (\<exists>q. fork_acquire S n f s = Ret (s\<lparr>ap_forks := (ap_forks s)[f := q]\<rparr>) \<and>
       forks_inv permits ((\<lambda>m. aph_holds m (ap_pc s m))(n := insert f (aph_holds n (ap_pc s n)))) ((ap_forks s)[f := q]))"
proof -
  let ?ts = "fork_waiters f (ap_pc s)"
  have "n \<in> set ?ts" "distinct ?ts" using n f by (simp_all add: fork_waiters_def)
  moreover have "length ?ts \<le> NUM_PHIL" unfolding fork_waiters_def using length_filter_le [of _ "[0..<NUM_PHIL]"] by simp
  ultimately consider "fq_acquire S n ?ts 1 (ap_forks s ! f) = Blocked"
    | q where "1 \<le> permits (ap_forks s ! f)" "fq_acquire S n ?ts 1 (ap_forks s ! f) = Ret (Ok (), q)" "permits q = permits (ap_forks s ! f) - 1"
    using acquire_cases [of n ?ts 1 "ap_forks s ! f"] by blast
  then show ?thesis
  proof cases
    case 1
    then show ?thesis using forks_length [OF s] f(2) by (simp add: fork_acquire_def)
  next
    case (2 q)
    moreover have "forks_inv permits (\<lambda>m. aph_holds m (ap_pc s m)) (ap_forks s)" using s by (simp add: aph_inv_def)
    ultimately show ?thesis using forks_inv_take [OF _ n f(2), of permits "\<lambda>m. aph_holds m (ap_pc s m)" "ap_forks s" q] forks_length [OF s] f(2)
      by (intro disjI2 exI [of _ q]) (simp add: fork_acquire_def)
  qed
qed

text \<open>A step of a philosopher: it waits, or the invariant holds afterwards with less left to do.\<close>

definition "onwards s r \<longleftrightarrow> (\<exists>s'. r = Ret s' \<and> phinv s' \<and> aph_rank s' < aph_rank s)"

lemma start_ok:
  assumes s: "phinv s" and n: "n < NUM_PHIL" and pc: "ap_pc s n = AOff" and m: "ap_main s \<noteq> AMSpawn"
  shows "onwards s (one_phil S D P u n s)"
proof -
  have "spawned (ap_place s n) = [n]" using s n pc m by (simp add: aph_inv_def)
  then obtain p where p: "tp_start P (ap_place s n) = Ret (n, p)" "spawned p = []" using start_some by blast
  let ?s = "aph_goto n (ATake0 0) (s\<lparr>ap_place := (ap_place s)(n := p)\<rparr>)"
  have one: "one_phil S D P u n s = Ret ?s" using p pc by (simp add: one_phil_def Let_def)
  have "{m. m < NUM_PHIL \<and> ap_pc ?s m = AEnd} = {m. m < NUM_PHIL \<and> ap_pc s m = AEnd}" using pc by (auto simp: aph_goto_def)
  moreover have "(\<lambda>m. aph_holds m (ap_pc ?s m)) = (\<lambda>m. aph_holds m (ap_pc s m))" using pc by (simp add: fun_eq_iff aph_goto_def)
  moreover have "aph_tally (ATake0 0) n (ap_stats s)" "aph_valid D (ATake0 0)" using s n pc by (force simp: aph_inv_def aph_tally_def aph_valid_def EAT_COUNT_def)+
  moreover have "ap_main s \<noteq> AMDone" using s n pc by (auto simp: aph_inv_def)
  ultimately have "phinv ?s" using s p(2) m n pc unfolding aph_inv_def by (simp add: aph_goto_def)
  moreover have "aph_rank ?s < aph_rank s" using n pc by (intro aph_rank_less [where n = n]) (auto simp: aph_goto_def)
  ultimately show ?thesis using one by (auto simp: onwards_def)
qed

lemma take0_ok:
  assumes s: "phinv s" and n: "n < NUM_PHIL" and pc: "ap_pc s n = ATake0 i" and free: "fork_acquire S n (fst (phil_forks n)) s \<noteq> Blocked"
  shows "onwards s (one_phil S D P u n s)"
proof -
  let ?f = "fst (phil_forks n)"
  obtain q where q: "fork_acquire S n ?f s = Ret (s\<lparr>ap_forks := (ap_forks s)[?f := q]\<rparr>)"
    "forks_inv permits ((\<lambda>m. aph_holds m (ap_pc s m))(n := aph_holds n (ATake1 i))) ((ap_forks s)[?f := q])"
    using fork_acquire_ok [OF s n, of ?f] phil_forks_less [OF n] pc free by auto
  let ?s = "aph_goto n (ATake1 i) (s\<lparr>ap_forks := (ap_forks s)[?f := q]\<rparr>)"
  have one: "one_phil S D P u n s = Ret ?s" using q pc by (simp add: one_phil_def Let_def)
  have own: "aph_valid D (ATake0 i)" "aph_tally (ATake0 i) n (ap_stats s)" using s n pc by (metis aph_inv_def)+
  have "phinv ?s"
    by (rule aph_inv_move [OF s n, where v = "ATake1 i"])
      (use s q(2) pc own in \<open>auto simp: aph_goto_def aph_inv_def aph_valid_def aph_tally_def\<close>)
  moreover have "aph_rank ?s < aph_rank s" using n pc own(1) by (intro aph_rank_less [where n = n]) (auto simp: aph_goto_def aph_valid_def)
  ultimately show ?thesis using one by (auto simp: onwards_def)
qed

lemma take1_ok:
  assumes s: "phinv s" and n: "n < NUM_PHIL" and pc: "ap_pc s n = ATake1 i" and free: "fork_acquire S n (snd (phil_forks n)) s \<noteq> Blocked"
  shows "onwards s (one_phil S D P u n s)"
proof -
  let ?f = "snd (phil_forks n)" and ?v = "AEat i (async_random_delay D u n 25)"
  obtain q where q: "fork_acquire S n ?f s = Ret (s\<lparr>ap_forks := (ap_forks s)[?f := q]\<rparr>)"
    "forks_inv permits ((\<lambda>m. aph_holds m (ap_pc s m))(n := aph_holds n ?v)) ((ap_forks s)[?f := q])"
    using fork_acquire_ok [OF s n, of ?f] phil_forks_less [OF n] pc free by (auto simp: insert_commute)
  let ?s = "aph_goto n ?v (s\<lparr>ap_forks := (ap_forks s)[?f := q]\<rparr>)"
  have one: "one_phil S D P u n s = Ret ?s" using q pc by (simp add: one_phil_def Let_def)
  have own: "aph_valid D (ATake1 i)" "aph_tally (ATake1 i) n (ap_stats s)" using s n pc by (metis aph_inv_def)+
  have "phinv ?s"
    by (rule aph_inv_move [OF s n, where v = ?v])
      (use s q(2) pc own delay_bounds in \<open>auto simp: aph_goto_def aph_inv_def aph_valid_def aph_tally_def\<close>)
  moreover have "aph_rank ?s < aph_rank s" using n pc own(1) by (intro aph_rank_less [where n = n]) (auto simp: aph_goto_def aph_valid_def)
  ultimately show ?thesis using one by (auto simp: onwards_def)
qed

lemma eat_ok:
  assumes s: "phinv s" and n: "n < NUM_PHIL" and pc: "ap_pc s n = AEat i d"
  shows "onwards s (one_phil S D P u n s)"
proof -
  let ?f0 = "fst (phil_forks n)" and ?f1 = "snd (phil_forks n)" and ?v = "AThink i (async_random_delay D u n 25)" and ?h = "\<lambda>m. aph_holds m (ap_pc s m)"
  have own: "aph_valid D (AEat i d)" using s n pc by (metis aph_inv_def)
  have ok: "stats_ok (ap_stats s)" "\<forall>m<NUM_PHIL. aph_tally (ap_pc s m) m (ap_stats s)" using s by (simp_all add: aph_inv_def)
  obtain st where st: "async_record_eat D n d (ap_stats s) = Ret st" "stats_ok st" "\<forall>m<NUM_PHIL. aph_tally (((ap_pc s)(n := ?v)) m) m st"
    using async_record_eat_ok [OF ok(1) n own ok(2) pc, of "async_random_delay D u n 25"] by blast
  have f: "?f0 < NUM_PHIL" "?f1 < NUM_PHIL" "?f0 \<noteq> ?f1" using phil_forks_less [OF n] by auto
  have inv0: "forks_inv permits ?h (ap_forks s)" using s by (simp add: aph_inv_def)
  then have le: "permits (ap_forks s ! g) \<le> 1" if "g < NUM_PHIL" for g using that by (simp add: forks_inv_def)
  define fs where "fs = (ap_forks s)[?f1 := fq_release S 1 (ap_forks s ! ?f1)]"
  have inv1: "forks_inv permits (?h(n := {?f0})) fs"
    using forks_inv_release [OF inv0 n f(2), of "fq_release S 1 (ap_forks s ! ?f1)"] release_permits [of "ap_forks s ! ?f1" 1] le [OF f(2)] pc f(3)
    by (simp add: fs_def insert_Diff_if)
  then have "permits (fs ! ?f0) \<le> 1" using f(1) by (simp add: forks_inv_def)
  then have inv2: "forks_inv permits (?h(n := {})) (fs[?f0 := fq_release S 1 (fs ! ?f0)])"
    using forks_inv_release [OF inv1 n f(1), of "fq_release S 1 (fs ! ?f0)"] release_permits [of "fs ! ?f0" 1] by simp
  let ?s = "aph_goto n ?v (s\<lparr>ap_stats := st, ap_forks := fs[?f0 := fq_release S 1 (fs ! ?f0)]\<rparr>)"
  have one: "one_phil S D P u n s = Ret ?s" using st pc f forks_length [OF s] by (simp add: one_phil_def Let_def fork_release_def fs_def)
  have "phinv ?s"
    by (rule aph_inv_move [OF s n, where v = ?v])
      (use s inv2 pc own st delay_bounds in \<open>auto simp: aph_goto_def aph_valid_def\<close>)
  moreover have "aph_rank ?s < aph_rank s" using n pc own(1) by (intro aph_rank_less [where n = n]) (auto simp: aph_goto_def aph_valid_def)
  ultimately show ?thesis using one by (auto simp: onwards_def)
qed

lemma think_ok:
  assumes s: "phinv s" and n: "n < NUM_PHIL" and pc: "ap_pc s n = AThink i d"
  shows "onwards s (one_phil S D P u n s)"
proof -
  let ?v = "if i + 1 < EAT_COUNT then ATake0 (i + 1) else AEnd"
  have own: "aph_valid D (AThink i d)" using s n pc by (metis aph_inv_def)
  then have i: "i < EAT_COUNT" by (simp add: aph_valid_def)
  then have v: "aph_laps ?v = Suc i" "aph_eaten ?v = Suc i" by auto
  have ok: "stats_ok (ap_stats s)" "\<forall>m<NUM_PHIL. aph_tally (ap_pc s m) m (ap_stats s)" using s by (simp_all add: aph_inv_def)
  obtain st where st: "async_record_think D n d (ap_stats s) = Ret st" "stats_ok st" "\<forall>m<NUM_PHIL. aph_tally (((ap_pc s)(n := ?v)) m) m st"
    using async_record_think_ok [OF ok(1) n own ok(2) pc v] by blast
  have "(\<lambda>m. aph_holds m (ap_pc s m))(n := {}) = (\<lambda>m. aph_holds m (ap_pc s m))" using pc by (simp add: fun_eq_iff)
  then have fork: "forks_inv permits ((\<lambda>m. aph_holds m (ap_pc s m))(n := {})) (ap_forks s)" using s by (simp add: aph_inv_def)
  show ?thesis
  proof (cases "i + 1 < EAT_COUNT")
    case True
    let ?s = "aph_goto n (ATake0 (i + 1)) (s\<lparr>ap_stats := st\<rparr>)"
    have one: "one_phil S D P u n s = Ret ?s" using st pc True by (simp add: one_phil_def Let_def)
    have "phinv ?s"
      by (rule aph_inv_move [OF s n, where v = "ATake0 (i + 1)"])
        (use s fork pc own st True in \<open>auto simp: aph_goto_def aph_valid_def\<close>)
    moreover have "aph_rank ?s < aph_rank s" using n pc True by (intro aph_rank_less [where n = n]) (auto simp: aph_goto_def)
    ultimately show ?thesis using one by (auto simp: onwards_def)
  next
    case False
    let ?s = "aph_goto n AEnd (s\<lparr>ap_stats := st, ap_done := fq_release S 1 (ap_done s)\<rparr>)" and ?E = "{m. m < NUM_PHIL \<and> ap_pc s m = AEnd}"
    have one: "one_phil S D P u n s = Ret ?s" using st pc False by (simp add: one_phil_def Let_def)
    have E: "{m. m < NUM_PHIL \<and> ap_pc ?s m = AEnd} = insert n ?E" using n by (auto simp: aph_goto_def)
    have "card ?E \<le> card {..<NUM_PHIL}" by (intro card_mono) auto
    then have "permits (fq_release S 1 (ap_done s)) = card (insert n ?E)"
      using release_permits [of "ap_done s" 1] s pc by (simp add: aph_inv_def NUM_PHIL_def)
    with E have dn: "permits (ap_done ?s) = card {m. m < NUM_PHIL \<and> ap_pc ?s m = AEnd}" by (simp add: aph_goto_def)
    have fk: "forks_inv permits (\<lambda>m. aph_holds m (ap_pc ?s m)) (ap_forks ?s)" using fork holds_upd [of "ap_pc s" n AEnd] by (simp add: aph_goto_def)
    have "\<forall>m<NUM_PHIL. spawned (ap_place s m) = (if ap_pc s m = AOff \<and> ap_main s \<noteq> AMSpawn then [m] else [])" using s unfolding aph_inv_def by blast
    then have "spawned (ap_place ?s m) = (if ap_pc ?s m = AOff \<and> ap_main ?s \<noteq> AMSpawn then [m] else [])" if "m < NUM_PHIL" for m
      using that pc by (simp add: aph_goto_def)
    moreover have "aph_valid D AEnd" by (simp add: aph_valid_def)
    then have "aph_valid D (ap_pc ?s m)" if "m < NUM_PHIL" for m using s that by (simp add: aph_inv_def aph_goto_def)
    moreover have "ap_main s \<noteq> AMSpawn" using s n pc by (auto simp: aph_inv_def)
    moreover have "aph_tally (ap_pc ?s m) m st" if "m < NUM_PHIL" for m using st(3) False that by (simp add: aph_goto_def)
    moreover have "ap_main s = AMDone \<longrightarrow> (\<forall>m<NUM_PHIL. ap_pc ?s m = AEnd)" using s by (simp add: aph_inv_def aph_goto_def)
    ultimately have "phinv ?s" unfolding aph_inv_def using dn fk st(2) by (simp add: aph_goto_def)
    moreover have "aph_rank ?s < aph_rank s" using n pc i by (intro aph_rank_less [where n = n]) (auto simp: aph_goto_def)
    ultimately show ?thesis using one by (auto simp: onwards_def)
  qed
qed

text \<open>When a philosopher waits.\<close>

lemma one_phil_ok:
  assumes s: "phinv s" and n: "n < NUM_PHIL"
  shows "onwards s (one_phil S D P u n s) \<or> one_phil S D P u n s = Blocked \<and> (ap_pc s n = AEnd \<or> ap_pc s n = AOff \<and> ap_main s = AMSpawn \<or>
    (\<exists>f. aph_wants n (ap_pc s n) = Some f \<and> fq_acquire S n (fork_waiters f (ap_pc s)) 1 (ap_forks s ! f) = Blocked))"
proof (cases "ap_pc s n")
  case AOff
  show ?thesis
  proof (cases "ap_main s = AMSpawn")
    case True
    then have "spawned (ap_place s n) = []" using s n by (simp add: aph_inv_def)
    then show ?thesis using AOff True start_none by (simp add: one_phil_def Let_def)
  qed (use start_ok [OF s n AOff] in blast)
next
  case (ATake0 i)
  then show ?thesis using take0_ok [OF s n ATake0] fork_acquire_ok [OF s n, of "fst (phil_forks n)"] phil_forks_less [OF n]
    by (cases "fork_acquire S n (fst (phil_forks n)) s = Blocked") (auto simp: one_phil_def Let_def)
next
  case (ATake1 i)
  then show ?thesis using take1_ok [OF s n ATake1] fork_acquire_ok [OF s n, of "snd (phil_forks n)"] phil_forks_less [OF n]
    by (cases "fork_acquire S n (snd (phil_forks n)) s = Blocked") (auto simp: one_phil_def Let_def)
next
  case (AEat i d)
  then show ?thesis using eat_ok [OF s n] by blast
next
  case (AThink i d)
  then show ?thesis using think_ok [OF s n] by blast
qed (simp add: one_phil_def Let_def)

lemma phil_task_ok:
  assumes s: "phinv s"
  shows "onwards s (phil_task S P s) \<or> phil_task S P s = Blocked \<and> (ap_main s = AMDone \<or> ap_main s = AMWait \<and> (\<exists>n<NUM_PHIL. ap_pc s n \<noteq> AEnd))"
proof (cases "ap_main s")
  case AMSpawn
  then have "\<forall>i\<in>set [0..<NUM_PHIL]. spawned (ap_place s i) = []" using s by (simp add: aph_inv_def)
  then obtain place where p: "spawn_phils P [0..<NUM_PHIL] (ap_place s) = Ret place" "\<forall>j. spawned (place j) = (if j < NUM_PHIL then [j] else spawned (ap_place s j))"
    using spawn_phils_ok [OF task_place_axioms distinct_upt, of 0 NUM_PHIL "ap_place s"] by auto
  let ?s = "s\<lparr>ap_place := place, ap_main := AMWait\<rparr>"
  have "phil_task S P s = Ret ?s" using p AMSpawn by (simp add: phil_task_def)
  moreover have "phinv ?s" using s p(2) AMSpawn unfolding aph_inv_def by auto
  moreover have "aph_rank ?s < aph_rank s" using AMSpawn by (simp add: aph_rank_def)
  ultimately show ?thesis by (auto simp: onwards_def)
next
  case AMWait
  let ?E = "{n. n < NUM_PHIL \<and> ap_pc s n = AEnd}"
  have E: "permits (ap_done s) = card ?E" using s by (simp add: aph_inv_def)
  have all: "NUM_PHIL \<le> card ?E \<longleftrightarrow> (\<forall>n<NUM_PHIL. ap_pc s n = AEnd)"
  proof
    assume "NUM_PHIL \<le> card ?E"
    then have "?E = {..<NUM_PHIL}" by (intro card_seteq) auto
    then show "\<forall>n<NUM_PHIL. ap_pc s n = AEnd" by blast
  next
    assume "\<forall>n<NUM_PHIL. ap_pc s n = AEnd"
    then have "?E = {..<NUM_PHIL}" by auto
    then show "NUM_PHIL \<le> card ?E" by simp
  qed
  have one: "(1 :: nat) \<le> NUM_PHIL" by (simp add: NUM_PHIL_def)
  have "fq_acquire S NUM_PHIL [NUM_PHIL] NUM_PHIL (ap_done s) = Blocked \<or>
      NUM_PHIL \<le> card ?E \<and> (\<exists>q. fq_acquire S NUM_PHIL [NUM_PHIL] NUM_PHIL (ap_done s) = Ret (Ok (), q) \<and> permits q = card ?E - NUM_PHIL)"
    using acquire_cases [of NUM_PHIL "[NUM_PHIL]" NUM_PHIL "ap_done s"] one E by simp
  moreover have "NUM_PHIL \<le> card ?E \<Longrightarrow> fq_acquire S NUM_PHIL [NUM_PHIL] NUM_PHIL (ap_done s) \<noteq> Blocked"
    using acquire_some [of "[NUM_PHIL]" NUM_PHIL "ap_done s"] one E by simp
  ultimately consider "fq_acquire S NUM_PHIL [NUM_PHIL] NUM_PHIL (ap_done s) = Blocked" "\<exists>n<NUM_PHIL. ap_pc s n \<noteq> AEnd"
    | q where "NUM_PHIL \<le> card ?E" "fq_acquire S NUM_PHIL [NUM_PHIL] NUM_PHIL (ap_done s) = Ret (Ok (), q)" "permits q = card ?E - NUM_PHIL"
    using all by blast
  then show ?thesis
  proof cases
    case 1
    then show ?thesis using AMWait by (simp add: phil_task_def)
  next
    case (2 q)
    let ?s = "s\<lparr>ap_done := fq_release S NUM_PHIL q, ap_main := AMDone\<rparr>"
    have "card ?E \<le> card {..<NUM_PHIL}" by (intro card_mono) auto
    then have "permits (fq_release S NUM_PHIL q) = card ?E" using release_permits [of q NUM_PHIL] 2(1,3) by (simp add: NUM_PHIL_def)
    then have "phinv ?s" using s all 2(1) AMWait by (simp add: aph_inv_def)
    moreover have "phil_task S P s = Ret ?s" using 2(2) AMWait by (simp add: phil_task_def)
    moreover have "aph_rank ?s < aph_rank s" using AMWait by (simp add: aph_rank_def)
    ultimately show ?thesis by (auto simp: onwards_def)
  qed
qed (simp add: phil_task_def)

text \<open>Why they do not wait for each other for ever: who waits for a fork waits for somebody who waits for a higher one.\<close>

lemma higher_fork:
  assumes s: "phinv s" and waits: "\<And>m. m < NUM_PHIL \<Longrightarrow> one_phil S D P 0 m s = Blocked" and main: "ap_main s \<noteq> AMSpawn"
    and n: "n < NUM_PHIL" and f: "aph_wants n (ap_pc s n) = Some f"
  shows "\<exists>m<NUM_PHIL. \<exists>g>f. aph_wants m (ap_pc s m) = Some g"
proof -
  let ?ts = "fork_waiters f (ap_pc s)"
  have fl: "f < NUM_PHIL" using f phil_forks_less [OF n] by (cases "ap_pc s n") auto
  have "fq_acquire S m ?ts 1 (ap_forks s ! f) = Blocked" if "m \<in> set ?ts" for m
  proof -
    have m: "m < NUM_PHIL" "aph_wants m (ap_pc s m) = Some f" using that by (auto simp: fork_waiters_def)
    then show ?thesis using one_phil_ok [OF s m(1), of 0] waits [OF m(1)] by (auto simp: onwards_def)
  qed
  moreover have "?ts \<noteq> []" "distinct ?ts" using n f by (auto simp: fork_waiters_def filter_empty_conv)
  moreover have "length ?ts \<le> NUM_PHIL" unfolding fork_waiters_def using length_filter_le [of _ "[0..<NUM_PHIL]"] by simp
  ultimately have "\<not> 1 \<le> permits (ap_forks s ! f)" using acquire_some [of ?ts 1 "ap_forks s ! f"] by blast
  then obtain m where m: "m < NUM_PHIL" "f \<in> aph_holds m (ap_pc s m)" using s fl by (auto simp: aph_inv_def forks_inv_def split: if_splits)
  have "aph_wants m (ap_pc s m) = Some (snd (phil_forks m)) \<and> f = fst (phil_forks m)"
    using one_phil_ok [OF s m(1), of 0] waits [OF m(1)] m(2) main by (cases "ap_pc s m") (auto simp: onwards_def)
  then show ?thesis using m(1) phil_forks_less [OF m(1)] by auto
qed

lemma stuck_done:
  assumes s: "phinv s" and stuck: "\<nexists>s'. aphil_step S D P s s'"
  shows "ap_main s = AMDone"
proof -
  have waits: "one_phil S D P u m s = Blocked" if "m < NUM_PHIL" for m u
    using one_phil_ok [OF s that, of u] stuck one_moves [OF that, of S D P u s] by (auto simp: onwards_def)
  have task: "phil_task S P s = Blocked" "ap_main s = AMDone \<or> ap_main s = AMWait \<and> (\<exists>n<NUM_PHIL. ap_pc s n \<noteq> AEnd)"
    using phil_task_ok [OF s] stuck task_moves [of S P s] by (auto simp: onwards_def)
  have False if main: "ap_main s = AMWait" and n: "n < NUM_PHIL" "ap_pc s n \<noteq> AEnd" for n
  proof -
    let ?F = "{f. f < NUM_PHIL \<and> (\<exists>m<NUM_PHIL. aph_wants m (ap_pc s m) = Some f)}"
    have less: "f < NUM_PHIL" if "m < NUM_PHIL" "aph_wants m (ap_pc s m) = Some f" for m f
      using that phil_forks_less [of m] by (cases "ap_pc s m") auto
    obtain f where "aph_wants n (ap_pc s n) = Some f" using one_phil_ok [OF s n(1), of 0] waits [OF n(1)] main n(2) by (auto simp: onwards_def)
    then have "?F \<noteq> {}" "finite ?F" using n(1) less by auto
    then have "Max ?F \<in> ?F" and max: "\<And>g. g \<in> ?F \<Longrightarrow> g \<le> Max ?F" using Max_in [of ?F] Max_ge [of ?F] by blast+
    then obtain m where m: "m < NUM_PHIL" "aph_wants m (ap_pc s m) = Some (Max ?F)" by blast
    obtain k g where kg: "k < NUM_PHIL" "g > Max ?F" "aph_wants k (ap_pc s k) = Some g"
      using higher_fork [OF s waits _ m] main by auto
    then have "g \<in> ?F" using less by blast
    then have "g \<le> Max ?F" by (rule max)
    with kg(2) show False by simp
  qed
  with task show ?thesis by blast
qed

lemma step_onwards: "aphil_step S D P s s' \<Longrightarrow> phinv s \<Longrightarrow> phinv s' \<and> aph_rank s' < aph_rank s"
proof (induction rule: aphil_step.induct)
  case (one_moves n uptime s s')
  then show ?case using one_phil_ok [of s n uptime] by (auto simp: onwards_def)
next
  case (task_moves s s')
  then show ?case using phil_task_ok [of s] by (auto simp: onwards_def)
qed

lemma inv_fine: "phinv s \<Longrightarrow> aphil_fine S D P s"
  using one_phil_ok phil_task_ok unfolding aphil_fine_def fine_def onwards_def by blast

lemma inv_start: "phinv (aphil_start S P)"
  by (auto simp: aphil_start_def aph_inv_def forks_inv_def new_permits new_free stats_ok_def Stats_new_def aph_tally_def aph_valid_def delays_def EAT_COUNT_def)

lemma done_result:
  assumes "phinv s" and "ap_main s = AMDone"
  shows "st_count (ap_stats s) = replicate NUM_PHIL (of_nat EAT_COUNT)" and "n < NUM_PHIL \<Longrightarrow> delays EAT_COUNT (st_eating (ap_stats s) ! n)"
    and "n < NUM_PHIL \<Longrightarrow> delays EAT_COUNT (st_thinking (ap_stats s) ! n)"
proof -
  have *: "aph_tally AEnd m (ap_stats s)" if "m < NUM_PHIL" for m using assms that by (metis aph_inv_def)
  have "length (st_count (ap_stats s)) = NUM_PHIL" using assms by (simp add: aph_inv_def stats_ok_def)
  then show "st_count (ap_stats s) = replicate NUM_PHIL (of_nat EAT_COUNT)" using * by (auto simp: aph_tally_def intro!: nth_equalityI)
  show "n < NUM_PHIL \<Longrightarrow> delays EAT_COUNT (st_eating (ap_stats s) ! n)" "n < NUM_PHIL \<Longrightarrow> delays EAT_COUNT (st_thinking (ap_stats s) ! n)"
    using * [of n] by (simp_all add: aph_tally_def)
qed

end

section \<open>Properties\<close>


text \<open>A clock of one tick per millisecond.\<close>

definition ref_dur :: emb_dur_api where
  "ref_dur = \<lparr>from_millis = (\<lambda>ms. ms), as_millis = (\<lambda>d. d)\<rparr>"

interpretation ref_duration: emb_duration ref_dur
  by unfold_locales (simp add: ref_dur_def)

interpretation ref_aphil: aphil_env ref_fair_sem "\<lambda>q. q" ref_task_place "\<lambda>i. i" ref_dur
  by unfold_locales


end
