(* ===== verification/Button_Sample.thy ===== *)
theory Button_Sample
  imports Gpio Embassy_Sync Crew
begin

text \<open>
  \<open>samples/button/src/lib.rs\<close>: a task that waits for the button, a task with a ticker, and a task that drives the LED from
  the events that the other two send over a channel. The button is read with the waiting futures of the GPIO component,
  whose interrupt handler runs at any moment.
\<close>

section \<open>The tasks\<close>

datatype IoEvent = ButtonPress | ButtonRelease | LEDTimer

datatype blinker_state = Blinking | ButtonHeld

definition led_toggle :: "'d gpio_api \<Rightarrow> GpioPin option \<Rightarrow> 'd \<Rightarrow> 'd" where
  "led_toggle G led d = (case led of Some led \<Rightarrow> GpioPin_toggle_pin G d led | None \<Rightarrow> d)"

definition led_set :: "'d gpio_api \<Rightarrow> GpioPin option \<Rightarrow> bool \<Rightarrow> 'd \<Rightarrow> 'd" where
  "led_set G led v d = (case led of Some led \<Rightarrow> GpioPin_set G d led v | None \<Rightarrow> d)"

text \<open>One round of the loop of \<open>led_blinker\<close>.\<close>

definition led_blinker :: "'d gpio_api \<Rightarrow> GpioPin option \<Rightarrow> IoEvent \<Rightarrow> blinker_state \<Rightarrow> 'd \<Rightarrow> blinker_state \<times> 'd" where
  "led_blinker G led evt state d = (case state of
     Blinking \<Rightarrow> (case evt of
        LEDTimer \<Rightarrow> (Blinking, led_toggle G led d)
      | ButtonPress \<Rightarrow> (ButtonHeld, led_set G led True d)
      | ButtonRelease \<Rightarrow> (Blinking, d))
   | ButtonHeld \<Rightarrow> (case evt of
        LEDTimer \<Rightarrow> (ButtonHeld, d)
      | ButtonPress \<Rightarrow> (ButtonHeld, d)
      | ButtonRelease \<Rightarrow> (Blinking, led_set G led False d)))"

datatype listener_pc = WaitLow | SendPress | WaitHigh | SendRelease

datatype timer_pc = TickerNext | SendTimer

text \<open>The program: a task that is not spawned has no place in its loop.\<close>

record ('ch, 'd) button_sys =
  bu_chan :: 'ch
  bu_port :: "'d gpio_port"
  bu_led :: "GpioPin option"
  bu_state :: blinker_state
  bu_listener :: "(GpioPin \<times> listener_pc) option"
  bu_timer :: "timer_pc option"

definition blinker_run :: "'d gpio_api \<Rightarrow> ('ch, IoEvent) emb_channel_api \<Rightarrow> ('ch, 'd) button_sys \<Rightarrow> ('ch, 'd) button_sys outcome" where
  "blinker_run G C s = bind_outcome (ec_receive C (bu_chan s)) (\<lambda>(evt, ch).
     let (state, d) = led_blinker G (bu_led s) evt (bu_state s) (gd_dev (bu_port s))
     in Ret (s\<lparr>bu_chan := ch, bu_state := state, bu_port := (bu_port s)\<lparr>gd_dev := d\<rparr>\<rparr>))"

text \<open>\<open>wait_for_low().await\<close> and \<open>wait_for_high().await\<close>: a poll of the future, which is ready or not; the task is the only one with a waker.\<close>

definition await_level :: "'d gpio_api \<Rightarrow> bool \<Rightarrow> u8 \<Rightarrow> listener_pc \<Rightarrow> listener_pc \<Rightarrow> GpioPin \<Rightarrow> ('ch, 'd) button_sys \<Rightarrow> ('ch, 'd) button_sys outcome" where
  "await_level G dbg level pc pc' button s = bind_outcome (GpioWait_poll G dbg button level 0 (bu_port s)) (\<lambda>(ready, port).
     Ret (s\<lparr>bu_port := port, bu_listener := Some (button, if ready then pc' else pc)\<rparr>))"

definition button_listener :: "'d gpio_api \<Rightarrow> ('ch, IoEvent) emb_channel_api \<Rightarrow> bool \<Rightarrow> ('ch, 'd) button_sys \<Rightarrow> ('ch, 'd) button_sys outcome" where
  "button_listener G C dbg s = (case bu_listener s of
     None \<Rightarrow> Blocked
   | Some (button, pc) \<Rightarrow> (case pc of
        WaitLow \<Rightarrow> await_level G dbg 0 WaitLow SendPress button s
      | SendPress \<Rightarrow> bind_outcome (ec_send C ButtonPress (bu_chan s)) (\<lambda>ch. Ret (s\<lparr>bu_chan := ch, bu_listener := Some (button, WaitHigh)\<rparr>))
      | WaitHigh \<Rightarrow> await_level G dbg 1 WaitHigh SendRelease button s
      | SendRelease \<Rightarrow> bind_outcome (ec_send C ButtonRelease (bu_chan s)) (\<lambda>ch. Ret (s\<lparr>bu_chan := ch, bu_listener := Some (button, WaitLow)\<rparr>))))"

text \<open>The ticker is ready at any moment.\<close>

definition led_timer :: "('ch, IoEvent) emb_channel_api \<Rightarrow> ('ch, 'd) button_sys \<Rightarrow> ('ch, 'd) button_sys outcome" where
  "led_timer C s = (case bu_timer s of
     None \<Rightarrow> Blocked
   | Some TickerNext \<Rightarrow> Ret (s\<lparr>bu_timer := Some SendTimer\<rparr>)
   | Some SendTimer \<Rightarrow> bind_outcome (ec_send C LEDTimer (bu_chan s)) (\<lambda>ch. Ret (s\<lparr>bu_chan := ch, bu_timer := Some TickerNext\<rparr>)))"

text \<open>The interrupt of the controller of the button, for pins in its mask.\<close>

definition button_irq :: "'d gpio_api \<Rightarrow> ptr \<Rightarrow> u32 \<Rightarrow> ('ch, 'd) button_sys \<Rightarrow> ('ch, 'd) button_sys outcome" where
  "button_irq G port raised s = bind_outcome (callback_handler G port (raised AND gp_mask (gd_static (bu_port s))) (bu_port s)) (\<lambda>p. Ret (s\<lparr>bu_port := p\<rparr>))"

inductive button_step :: "'d gpio_api \<Rightarrow> ('ch, IoEvent) emb_channel_api \<Rightarrow> bool \<Rightarrow> ptr \<Rightarrow> ('ch, 'd) button_sys \<Rightarrow> ('ch, 'd) button_sys \<Rightarrow> bool"
  for G C dbg port where
  blinker_moves: "blinker_run G C s = Ret s' \<Longrightarrow> button_step G C dbg port s s'"
| listener_moves: "button_listener G C dbg s = Ret s' \<Longrightarrow> button_step G C dbg port s s'"
| timer_moves: "led_timer C s = Ret s' \<Longrightarrow> button_step G C dbg port s s'"
| irq_moves: "button_irq G port raised s = Ret s' \<Longrightarrow> button_step G C dbg port s s'"

section \<open>Starting\<close>

text \<open>
  \<open>configure_button\<close> and \<open>configure_led\<close>, for a devicetree that has the alias or not; with the alias, \<open>get_instance\<close> gives the pin or
  \<open>None\<close>. The flags are constants of the C headers.
\<close>

definition configure_pin_as :: "'d gpio_api \<Rightarrow> u32 \<Rightarrow> string \<Rightarrow> string \<Rightarrow> GpioPin option option \<Rightarrow> 'd \<Rightarrow> ((GpioPin, string) result \<times> 'd) outcome" where
  "configure_pin_as G flags not_ready missing alias d = (case alias of
     None \<Rightarrow> Ret (Err missing, d)
   | Some inst \<Rightarrow> bind_outcome (expect ''called `Option::unwrap()` on a `None` value'' inst) (\<lambda>pin.
       if \<not> GpioPin_is_ready G d pin then Ret (Err not_ready, d)
       else Ret (Ok pin, GpioPin_configure G d pin flags)))"

definition configure_button :: "'d gpio_api \<Rightarrow> u32 \<Rightarrow> GpioPin option option \<Rightarrow> 'd \<Rightarrow> ((GpioPin, string) result \<times> 'd) outcome" where
  "configure_button G gpio_input = configure_pin_as G gpio_input ''Button is not ready'' ''sw0 not configured''"

definition configure_led :: "'d gpio_api \<Rightarrow> u32 \<Rightarrow> GpioPin option option \<Rightarrow> 'd \<Rightarrow> ((GpioPin, string) result \<times> 'd) outcome" where
  "configure_led G gpio_output_active = configure_pin_as G gpio_output_active ''LED is not ready'' ''led0 not configured''"

definition button_main :: "'d gpio_api \<Rightarrow> ('ch, IoEvent) emb_channel_api \<Rightarrow> u32 \<Rightarrow> u32 \<Rightarrow> (unit, 'e) result \<Rightarrow>
    GpioPin option option \<Rightarrow> GpioPin option option \<Rightarrow> 'd \<Rightarrow> ('ch, 'd) button_sys outcome" where
  "button_main G C gpio_input gpio_output_active logger sw0 led0 d =
     bind_outcome (unwrap logger) (\<lambda>_.
     bind_outcome (configure_button G gpio_input sw0 d) (\<lambda>(sw0, d).
     bind_outcome (configure_led G gpio_output_active led0 d) (\<lambda>(led0, d).
       Ret \<lparr>bu_chan = ec_new C, bu_port = \<lparr>gd_dev = d, gd_static = GpioStatic_new, gd_woken = {}\<rparr>,
            bu_led = (case led0 of Ok led \<Rightarrow> Some led | Err e \<Rightarrow> None), bu_state = Blinking,
            bu_listener = (case sw0 of Ok button \<Rightarrow> Some (button, WaitLow) | Err e \<Rightarrow> None),
            bu_timer = (case led0 of Ok led \<Rightarrow> Some TickerNext | Err e \<Rightarrow> None)\<rparr>)))"

lemma configure_pin_ok: "alias \<noteq> Some None \<Longrightarrow> \<exists>r d'. configure_pin_as G flags m m' alias d = Ret (r, d') \<and> (\<forall>pin. r = Ok pin \<longrightarrow> alias = Some (Some pin))"
  by (cases "alias"; cases "the alias") (simp_all add: configure_pin_as_def)

lemma configure_pin_taken: "configure_pin_as G flags m m' (Some None) d = Panic ''called `Option::unwrap()` on a `None` value''"
  by (simp add: configure_pin_as_def)

lemma button_main_starts:
  "(\<exists>s. button_main G C i out logger sw0 led0 d = Ret s) \<longleftrightarrow> is_ok logger \<and> sw0 \<noteq> Some None \<and> led0 \<noteq> Some None"
proof (cases "is_ok logger \<and> sw0 \<noteq> Some None \<and> led0 \<noteq> Some None")
  case True
  then obtain r d1 where 1: "configure_button G i sw0 d = Ret (r, d1)" unfolding configure_button_def by (meson configure_pin_ok)
  moreover obtain r' d2 where "configure_led G out led0 d1 = Ret (r', d2)" unfolding configure_led_def using True by (meson configure_pin_ok)
  ultimately show ?thesis using True by (cases logger) (simp_all add: button_main_def)
next
  case False
  then show ?thesis
    by (cases logger) (auto simp: button_main_def configure_button_def configure_led_def configure_pin_taken outcome_simps)
qed

section \<open>What the blinker sees\<close>

text \<open>
  The state after the events of a list, if none of them is ignored except for the ticks while the button is held; and the state that the
  listener has announced.
\<close>

fun after_events :: "blinker_state \<Rightarrow> IoEvent list \<Rightarrow> blinker_state option" where
  "after_events st [] = Some st"
| "after_events st (LEDTimer # es) = after_events st es"
| "after_events Blinking (ButtonPress # es) = after_events ButtonHeld es"
| "after_events ButtonHeld (ButtonRelease # es) = after_events Blinking es"
| "after_events _ _ = None"

fun announced :: "(GpioPin \<times> listener_pc) option \<Rightarrow> blinker_state" where
  "announced None = Blinking"
| "announced (Some (b, WaitLow)) = Blinking"
| "announced (Some (b, SendPress)) = Blinking"
| "announced (Some (b, WaitHigh)) = ButtonHeld"
| "announced (Some (b, SendRelease)) = ButtonHeld"

lemma after_events_append: "after_events st (xs @ ys) = Option.bind (after_events st xs) (\<lambda>st. after_events st ys)"
  by (induction st xs rule: after_events.induct) auto

lemma after_events_press: "after_events st xs = Some Blinking \<Longrightarrow> after_events st (xs @ [ButtonPress]) = Some ButtonHeld"
  and after_events_release: "after_events st xs = Some ButtonHeld \<Longrightarrow> after_events st (xs @ [ButtonRelease]) = Some Blinking"
  and after_events_timer: "after_events st xs = Some st' \<Longrightarrow> after_events st (xs @ [LEDTimer]) = Some st'"
  by (simp_all add: after_events_append)

lemma callback_handler_lit:
  assumes keep: "\<And>d port pin m. lit (snd (gpio_pin_interrupt_configure G d port pin m)) p \<longleftrightarrow> lit d p"
    and "callback_handler G port pins g = Ret g'"
  shows "lit (gd_dev g') p \<longleftrightarrow> lit (gd_dev g) p"
  using assms
proof (induction G port pins g rule: callback_handler.induct)
  case (1 G port pins g)
  show ?case
  proof (cases "pins > 0")
    case True
    then obtain g1 where g1: "handler_pin G port (trailing_zeros pins) g = Ret g1"
      "callback_handler G port (pins AND NOT (pin_bit (trailing_zeros pins))) g1 = Ret g'"
      using 1(3) by (auto simp: callback_handler.simps [of G port pins g] Let_def outcome_simps)
    have "lit (gd_dev g1) p \<longleftrightarrow> lit (gd_dev g) p" using g1(1) 1(2) by (auto simp: handler_pin_def Let_def split: if_splits)
    then show ?thesis using 1(1) [OF True refl refl 1(2) g1(2)] by simp
  qed (use 1(3) in \<open>simp add: callback_handler.simps [of G port pins g]\<close>)
qed

section \<open>The invariant\<close>

definition button_inv :: "('ch \<Rightarrow> IoEvent list) \<Rightarrow> ('d \<Rightarrow> gpio_dt_spec \<Rightarrow> bool) \<Rightarrow> ('ch, 'd) button_sys \<Rightarrow> bool" where
  "button_inv queued lit s \<longleftrightarrow> length (gp_wakers (gd_static (bu_port s))) = 32 \<and>
     after_events (bu_state s) (queued (bu_chan s)) = Some (announced (bu_listener s)) \<and>
     (\<forall>b pc. bu_listener s = Some (b, pc) \<longrightarrow> unat (dt_pin (gpn_pin b)) < 32) \<and>
     (\<forall>p. bu_state s = ButtonHeld \<longrightarrow> bu_led s = Some p \<longrightarrow> lit (gd_dev (bu_port s)) (gpn_pin p)) \<and>
     (bu_led s = None \<longrightarrow> bu_timer s = None \<and> LEDTimer \<notin> set (queued (bu_chan s)))"

definition button_fine :: "'d gpio_api \<Rightarrow> ('ch, IoEvent) emb_channel_api \<Rightarrow> bool \<Rightarrow> ptr \<Rightarrow> ('ch, 'd) button_sys \<Rightarrow> bool" where
  "button_fine G C dbg port s \<longleftrightarrow> fine (blinker_run G C s) \<and> fine (button_listener G C dbg s) \<and> fine (led_timer C s) \<and> (\<forall>raised. fine (button_irq G port raised s))"

text \<open>
  A working LED: it is lit as it was set, a toggle changes it, and the interrupts of the controllers leave it alone.
\<close>

locale gpio_led = zephyr_gpio G enabled for G :: "'d gpio_api" and enabled +
  fixes lit :: "'d \<Rightarrow> gpio_dt_spec \<Rightarrow> bool"
  assumes set_lit: "lit (snd (gpio_pin_set_dt G d p v)) p \<longleftrightarrow> v \<noteq> 0"
    and toggle_lit: "lit (snd (gpio_pin_toggle_dt G d p)) p \<longleftrightarrow> \<not> lit d p"
    and interrupt_lit: "lit (snd (gpio_pin_interrupt_configure G d port pin m)) p \<longleftrightarrow> lit d p"
    and callback_lit: "lit (snd (gpio_add_callback G d port)) p \<longleftrightarrow> lit d p"
begin

text \<open>A poll of the button and the handler of its interrupt keep the LED, and do not panic.\<close>

definition "kept g g' \<longleftrightarrow> length (gp_wakers (gd_static g')) = 32 \<and> (\<forall>p. lit (gd_dev g') p = lit (gd_dev g) p)"

lemma poll_kept:
  assumes "unat (dt_pin (gpn_pin button)) < 32" and "length (gp_wakers (gd_static g)) = 32" and "level = 0 \<or> level = 1"
  shows "\<exists>r g'. GpioWait_poll G dbg button level w g = Ret (r, g') \<and> kept g g'"
proof -
  define g1 where "g1 = (if fast_install_needed (gd_static g) then GpioStatic_install G (dt_port (gpn_pin button)) g else g)"
  have g1: "kept g g1" using assms(2) by (simp add: g1_def kept_def GpioStatic_install_def fast_install_needed_def callback_lit)
  obtain mode where "wait_mode level = Ret mode" using assms(3) by (auto simp: wait_mode_def)
  with g1 assms(1) show ?thesis unfolding GpioWait_poll_def Let_def g1_def [symmetric]
    by (auto simp: has_fired_def shl_pin_def register_waker_def register_mask_def kept_def interrupt_lit Let_def)
qed

lemma handler_kept: "length (gp_wakers (gd_static g)) = 32 \<Longrightarrow> \<exists>g'. callback_handler G port pins g = Ret g' \<and> kept g g'"
  using callback_handler_handled [of g port pins] callback_handler_lit [of lit G _ port pins g, OF interrupt_lit]
  by (auto simp: kept_def handled_def)

end

locale button_env = gpio_led G enabled lit + emb_channel C queued 8
  for G :: "'d gpio_api" and enabled lit and C :: "('ch, IoEvent) emb_channel_api" and queued
begin

abbreviation "binv \<equiv> button_inv queued lit"

lemma blinker_waits: "queued (bu_chan s) = [] \<Longrightarrow> blinker_run G C s = Blocked"
  using receive_none by (simp add: blinker_run_def)

text \<open>Every event that the blinker receives is one that it acts on, or a tick.\<close>

lemma blinker_acts:
  assumes s: "binv s" and q: "queued (bu_chan s) = evt # es"
  shows "evt = ButtonPress \<longrightarrow> bu_state s = Blinking" and "evt = ButtonRelease \<longrightarrow> bu_state s = ButtonHeld"
    and "\<exists>s'. blinker_run G C s = Ret s' \<and> binv s' \<and> queued (bu_chan s') = es \<and> bu_listener s' = bu_listener s \<and> bu_led s' = bu_led s"
proof -
  have ev: "after_events (bu_state s) (evt # es) = Some (announced (bu_listener s))" using s q by (simp add: button_inv_def)
  then show "evt = ButtonPress \<longrightarrow> bu_state s = Blinking" "evt = ButtonRelease \<longrightarrow> bu_state s = ButtonHeld"
    by (cases evt; cases "bu_state s"; simp)+
  obtain ch where ch: "ec_receive C (bu_chan s) = Ret (evt, ch)" "queued ch = es" using receive_some [OF q] by blast
  obtain st d where b: "led_blinker G (bu_led s) evt (bu_state s) (gd_dev (bu_port s)) = (st, d)" by fastforce
  let ?s = "s\<lparr>bu_chan := ch, bu_state := st, bu_port := (bu_port s)\<lparr>gd_dev := d\<rparr>\<rparr>"
  have "after_events st es = Some (announced (bu_listener s))" using ev b by (cases evt; cases "bu_state s") (auto simp: led_blinker_def)
  moreover have "lit d (gpn_pin p)" if "st = ButtonHeld" "bu_led s = Some p" for p
    using b s that by (cases evt; cases "bu_state s") (auto simp: led_blinker_def led_set_def GpioPin_set_def set_lit button_inv_def)
  ultimately have "binv ?s" using s q ch(2) by (auto simp: button_inv_def)
  with ch b show "\<exists>s'. blinker_run G C s = Ret s' \<and> binv s' \<and> queued (bu_chan s') = es \<and> bu_listener s' = bu_listener s \<and> bu_led s' = bu_led s"
    by (intro exI [of _ ?s]) (simp add: blinker_run_def)
qed

lemma send_ok: "ec_send C m ch = Blocked \<or> (\<exists>ch'. ec_send C m ch = Ret ch' \<and> queued ch' = queued ch @ [m])"
  using send_room [of ch m] send_full [of ch m] by fastforce

text \<open>A call waits, or keeps the invariant and the LED it works with.\<close>

definition "keeps s r \<longleftrightarrow> r = Blocked \<or> (\<exists>s'. r = Ret s' \<and> binv s' \<and> bu_led s' = bu_led s)"

lemma await_keeps:
  assumes s: "binv s" and l: "bu_listener s = Some (b, pc)" and lv: "level = 0 \<or> level = 1" and "announced (Some (b, pc')) = announced (Some (b, pc))"
  shows "keeps s (await_level G dbg level pc pc' b s)"
proof -
  have "unat (dt_pin (gpn_pin b)) < 32" "length (gp_wakers (gd_static (bu_port s))) = 32" using s l by (auto simp: button_inv_def)
  then obtain r g where "GpioWait_poll G dbg b level 0 (bu_port s) = Ret (r, g)" "kept (bu_port s) g" using poll_kept lv by blast
  then show ?thesis using s l assms(4) by (auto simp: await_level_def keeps_def button_inv_def kept_def)
qed

lemma listener_keeps: "binv s \<Longrightarrow> keeps s (button_listener G C dbg s)"
proof (cases "bu_listener s")
  case (Some bp)
  assume s: "binv s"
  obtain b pc where l: "bu_listener s = Some (b, pc)" using Some by (cases bp) auto
  have "keeps s (bind_outcome (ec_send C m (bu_chan s)) (\<lambda>ch. Ret (s\<lparr>bu_chan := ch, bu_listener := Some (b, pc')\<rparr>)))"
    if "m \<noteq> LEDTimer" "\<And>q. after_events (bu_state s) q = Some (announced (Some (b, pc))) \<Longrightarrow> after_events (bu_state s) (q @ [m]) = Some (announced (Some (b, pc')))" for m pc'
    using send_ok [of m "bu_chan s"] s l that by (auto simp: keeps_def button_inv_def)
  note send = this
  show ?thesis
  proof (cases pc)
    case WaitLow
    then show ?thesis using await_keeps [OF s l, of 0 SendPress] l by (simp add: button_listener_def)
  next
    case SendPress
    then show ?thesis using send [of ButtonPress WaitHigh] l by (simp add: button_listener_def after_events_press)
  next
    case WaitHigh
    then show ?thesis using await_keeps [OF s l, of 1 SendRelease] l by (simp add: button_listener_def)
  next
    case SendRelease
    then show ?thesis using send [of ButtonRelease WaitLow] l by (simp add: button_listener_def after_events_release)
  qed
qed (simp add: button_listener_def keeps_def)

lemma timer_keeps: "binv s \<Longrightarrow> keeps s (led_timer C s)"
  using send_ok [of LEDTimer "bu_chan s"] by (auto simp: led_timer_def keeps_def button_inv_def after_events_timer split: option.splits timer_pc.splits)

lemma irq_keeps: "binv s \<Longrightarrow> keeps s (button_irq G port raised s)"
  using handler_kept [of "bu_port s" port "raised AND gp_mask (gd_static (bu_port s))"] by (auto simp: button_irq_def keeps_def button_inv_def kept_def)

lemma blinker_keeps: "binv s \<Longrightarrow> keeps s (blinker_run G C s)"
  using blinker_waits [of s] blinker_acts(3) [of s] by (cases "queued (bu_chan s)") (auto simp: keeps_def)

lemma step_keeps: "button_step G C dbg port s s' \<Longrightarrow> binv s \<Longrightarrow> binv s' \<and> bu_led s' = bu_led s"
proof (induction rule: button_step.induct)
  case (blinker_moves s s')
  then show ?case using blinker_keeps [of s] by (auto simp: keeps_def)
next
  case (listener_moves s s')
  then show ?case using listener_keeps [of s dbg] by (auto simp: keeps_def)
next
  case (timer_moves s s')
  then show ?case using timer_keeps [of s] by (auto simp: keeps_def)
next
  case (irq_moves raised s s')
  then show ?case using irq_keeps [of s port raised] by (auto simp: keeps_def)
qed

lemma inv_fine: "binv s \<Longrightarrow> button_fine G C dbg port s"
  using blinker_keeps listener_keeps timer_keeps irq_keeps unfolding button_fine_def fine_def keeps_def by blast

text \<open>The blinker can work off the channel, and is then in the state that the listener has announced.\<close>

lemma drains:
  "binv s \<Longrightarrow> \<exists>s'. (\<lambda>a b. blinker_run G C a = Ret b)\<^sup>*\<^sup>* s s' \<and> queued (bu_chan s') = [] \<and> bu_state s' = announced (bu_listener s)"
proof (induction "queued (bu_chan s)" arbitrary: s)
  case Nil
  then show ?case by (intro exI [of _ s]) (simp add: button_inv_def)
next
  case (Cons evt es)
  obtain s1 where s1: "blinker_run G C s = Ret s1" "binv s1" "queued (bu_chan s1) = es" "bu_listener s1 = bu_listener s"
    using blinker_acts(3) [OF Cons.prems Cons.hyps(2) [symmetric]] by blast
  then obtain s' where "(\<lambda>a b. blinker_run G C a = Ret b)\<^sup>*\<^sup>* s1 s'" "queued (bu_chan s') = []" "bu_state s' = announced (bu_listener s)"
    using Cons.hyps(1) [of s1] by auto
  with s1(1) show ?case by (meson converse_rtranclp_into_rtranclp)
qed

lemma main_inv:
  assumes pins: "\<forall>b. sw0 = Some (Some b) \<longrightarrow> unat (dt_pin (gpn_pin b)) < 32" and main: "button_main G C i out logger sw0 led0 d = Ret s"
  shows "binv s"
proof -
  have "sw0 \<noteq> Some None" using main button_main_starts [of G C i out logger sw0 led0 d] by auto
  then obtain r d1 where 1: "configure_button G i sw0 d = Ret (r, d1)" "\<forall>b. r = Ok b \<longrightarrow> unat (dt_pin (gpn_pin b)) < 32"
    unfolding configure_button_def using pins configure_pin_ok [of sw0 G i] by metis
  with main show ?thesis using new_empty
    by (auto simp: button_main_def button_inv_def GpioStatic_new_def outcome_simps split: result.splits)
qed

end

section \<open>Properties\<close>

text \<open>
  C26. The program starts unless the logger is installed twice or a pin was handed out before; without a button or an LED it
  goes on with the tasks that make sense. Then, whatever the button, the clock and the scheduler do: no task and no interrupt
  panics; the blinker sees presses and releases in turn, so that it ignores none of them; the LED is lit while the blinker
  is in its held state; and it can always work off the channel, to be in the state of the button that the listener saw last.
\<close>

theorem button_follows:
  assumes "gpio_led G enabled lit" and "emb_channel C queued 8" and "\<forall>b. sw0 = Some (Some b) \<longrightarrow> unat (dt_pin (gpn_pin b)) < 32"
  shows "((\<exists>s. button_main G C i out logger sw0 led0 d = Ret s) \<longleftrightarrow> is_ok logger \<and> sw0 \<noteq> Some None \<and> led0 \<noteq> Some None) \<and>
    (\<forall>s0 s. button_main G C i out logger sw0 led0 d = Ret s0 \<longrightarrow> (button_step G C dbg port)\<^sup>*\<^sup>* s0 s \<longrightarrow>
      button_fine G C dbg port s \<and> bu_led s = bu_led s0 \<and>
      (\<forall>es. queued (bu_chan s) = ButtonPress # es \<longrightarrow> bu_state s = Blinking) \<and>
      (\<forall>es. queued (bu_chan s) = ButtonRelease # es \<longrightarrow> bu_state s = ButtonHeld) \<and>
      (\<forall>p. bu_state s = ButtonHeld \<longrightarrow> bu_led s0 = Some p \<longrightarrow> lit (gd_dev (bu_port s)) (gpn_pin p)) \<and>
      (\<exists>s'. (\<lambda>a b. blinker_run G C a = Ret b)\<^sup>*\<^sup>* s s' \<and> queued (bu_chan s') = [] \<and> bu_state s' = announced (bu_listener s)))"
proof -
  have env: "button_env G enabled lit C queued" using assms(1,2) by (simp add: button_env_def)
  have "button_inv queued lit s \<and> bu_led s = bu_led s0"
    if "button_main G C i out logger sw0 led0 d = Ret s0" "(button_step G C dbg port)\<^sup>*\<^sup>* s0 s" for s0 s
    using that(2)
  proof induction
    case base
    show ?case using button_env.main_inv [OF env assms(3) that(1)] by blast
  next
    case (step s s')
    then show ?case using button_env.step_keeps [OF env step(2)] by metis
  qed
  note inv = this
  show ?thesis
  proof (intro conjI allI impI)
    fix s0 s assume run: "button_main G C i out logger sw0 led0 d = Ret s0" "(button_step G C dbg port)\<^sup>*\<^sup>* s0 s"
    note i = inv [OF run]
    show "button_fine G C dbg port s" "bu_led s = bu_led s0" using i button_env.inv_fine [OF env] by blast+
    show "bu_state s = Blinking" if "queued (bu_chan s) = ButtonPress # es" for es using button_env.blinker_acts(1) [OF env _ that] i by blast
    show "bu_state s = ButtonHeld" if "queued (bu_chan s) = ButtonRelease # es" for es using button_env.blinker_acts(2) [OF env _ that] i by blast
    show "lit (gd_dev (bu_port s)) (gpn_pin p)" if "bu_state s = ButtonHeld" "bu_led s0 = Some p" for p using i that by (simp add: button_inv_def)
    show "\<exists>s'. (\<lambda>a b. blinker_run G C a = Ret b)\<^sup>*\<^sup>* s s' \<and> queued (bu_chan s') = [] \<and> bu_state s' = announced (bu_listener s)"
      using button_env.drains [OF env] i by blast
  qed (use button_main_starts [of G C i out logger sw0 led0 d] in blast)+
qed

text \<open>A driver that keeps the enabled interrupts and the pins that are lit.\<close>

definition led_gpio_api :: "((ptr \<Rightarrow> nat \<Rightarrow> bool) \<times> (gpio_dt_spec \<Rightarrow> bool)) gpio_api" where
  "led_gpio_api = \<lparr>device_is_ready = (\<lambda>d port. True), gpio_add_callback = (\<lambda>d port. (0, d)),
     gpio_pin_interrupt_configure = (\<lambda>(e, l) port pin m. (0, (e(port := (e port)(unat pin := m \<noteq> INT_DISABLE_ONLY)), l))),
     gpio_pin_configure = (\<lambda>d port pin flags. (0, d)), gpio_pin_toggle_dt = (\<lambda>(e, l) p. (0, (e, l(p := \<not> l p)))),
     gpio_pin_set_dt = (\<lambda>(e, l) p v. (0, (e, l(p := v \<noteq> 0)))), gpio_pin_get_dt = (\<lambda>d p. 0)\<rparr>"

interpretation ref_led: gpio_led led_gpio_api fst snd
  by unfold_locales (auto simp: led_gpio_api_def split: prod.splits)

interpretation ref_button: button_env led_gpio_api fst snd "ref_emb_channel 8" "\<lambda>ch. ch"
  by unfold_locales

definition demo_pin :: "u8 \<Rightarrow> GpioPin" where
  "demo_pin n = \<lparr>gpn_pin = \<lparr>dt_port = 64, dt_pin = n, dt_dt_flags = 0\<rparr>\<rparr>"

theorem button_follows_witness:
  "\<exists>s0. button_main led_gpio_api (ref_emb_channel 8) 1 2 (Ok () :: (unit, unit) result) (Some (Some (demo_pin 3))) (Some (Some (demo_pin 4)))
      (\<lambda>_ _. False, \<lambda>_. False) = Ret s0 \<and>
    (\<forall>s. (button_step led_gpio_api (ref_emb_channel 8) True 64)\<^sup>*\<^sup>* s0 s \<longrightarrow> bu_state s = ButtonHeld \<longrightarrow> snd (gd_dev (bu_port s)) (gpn_pin (demo_pin 4)))"
proof -
  let ?main = "button_main led_gpio_api (ref_emb_channel 8) 1 2 (Ok () :: (unit, unit) result) (Some (Some (demo_pin 3))) (Some (Some (demo_pin 4)))
      (\<lambda>_ _. False, \<lambda>_. False)"
  have pins: "\<forall>b. Some (Some (demo_pin 3)) = Some (Some b) \<longrightarrow> unat (dt_pin (gpn_pin b)) < 32" by (auto simp: demo_pin_def)
  note follows = button_follows [OF ref_led.gpio_led_axioms ref_chan.emb_channel_axioms pins]
  have "\<exists>s0. ?main = Ret s0" unfolding button_main_starts by simp
  then obtain s0 where s0: "?main = Ret s0" by blast
  have "bu_led s0 = Some (demo_pin 4)" using s0
    by (auto simp: button_main_def configure_button_def configure_led_def configure_pin_as_def GpioPin_is_ready_def Gpio_is_ready_def led_gpio_api_def outcome_simps)
  with s0 follows [of 1 2 "Ok () :: (unit, unit) result" "Some (Some (demo_pin 4))" "(\<lambda>_ _. False, \<lambda>_. False)" True 64] show ?thesis by blast
qed

end
