(* ===== verification/Spec2Isabelle.thy ===== *)
theory Spec2Isabelle
  imports Channel_Concurrent Mutex Blocking Timer Threads Work Build Embassy_Time Embassy_Executor Devices Logging Kconfig Allocator Task_Macro Philosophers_Channel Philosophers_Cond Bench_Simple Bench_Async Embassy_Sample Async_Phil Button_Sample
begin

text \<open>
  A verification library for the Rust support of the Zephyr RTOS.

  \<^bold>\<open>The program.\<close> The repository has two halves. The run-time half, the crate \<open>zephyr\<close> (\<open>src/zephyr/src\<close>), wraps
  the kernel's C objects as Rust values: errors and timeouts, kernel objects that initialise themselves on
  first use, queues, mutexes, condition variables, semaphores, channels, timers, threads, work queues, a pool
  of threads that runs blocking closures for asynchronous tasks, and device wrappers. The build-time half, the
  crate \<open>zephyr-build\<close> (\<open>src/zephyr-build/src\<close>), reads the devicetree of the board and generates the Rust
  modules from which an application obtains its devices; the generated code calls the constructors of the
  run-time half. The crate \<open>zephyr-macros\<close> expands a function into a pool of threads that run it. The samples use
  all of it; the dining philosophers (\<open>src/samples/philosophers\<close>), the benchmark (\<open>src/samples/bench\<close>), and the
  samples over Embassy (\<open>src/samples/embassy\<close>, \<open>src/samples/async-philosophers\<close>, \<open>src/samples/button\<close>) are modelled as clients of the library.

  \<^bold>\<open>How the model is built.\<close> Structures are records, enumerations are datatypes, machine integers are words of
  their width (\<open>usize\<close> and pointers have 32 bits, as on the supported targets; \<open>Zephyr_Prelude\<close>). A call gives an
  \<open>outcome\<close>: a value, a panic, or staying blocked in the kernel; Rust's \<open>Result\<close> is \<open>result\<close>. Overflow follows the
  build profile where the code has arithmetic that can overflow: with checks it panics, without them it wraps.
  Code that runs in several threads or in an interrupt handler is cut at its atomic operations and kernel calls
  into an \<open>inductive\<close> step relation; the properties hold in all states that any interleaving reaches. Memory that
  the code shares through raw pointers is an explicit heap, so that use after free and double free are states of
  the model and their absence is a theorem.

  The kernel, the drivers, the C heap, and the packages \<open>regex\<close>, \<open>pest\<close>, \<open>log\<close>, \<open>syn\<close> and those of Embassy are not part of the repository. Their functions
  are parameters (records of functions such as \<open>k_queue_api\<close>), and what the code relies on is a locale
  (\<open>zephyr_queue\<close>, \<open>zephyr_mutex\<close>, \<open>zephyr_sem\<close>, \<open>zephyr_spinlock\<close>, \<open>zephyr_timer\<close>, \<open>zephyr_threads\<close>, \<open>zephyr_work\<close>,
  \<open>zephyr_signal\<close>, \<open>zephyr_gpio\<close>, \<open>zephyr_i2c\<close>, \<open>c_heap\<close>, \<open>log_crate\<close>, \<open>time_queue\<close>, \<open>ktimer\<close>, \<open>raw_executor\<close>, \<open>fair_semaphore\<close>,
  \<open>emb_channel\<close>, \<open>task_place\<close>, \<open>emb_duration\<close>, \<open>gpio_led\<close>), each with a reference instance that shows that its laws can hold.
  The contracts between the components of the repository are locales too, interpreted on the model:
  \<open>fifo\<close> (a queue for the channels), \<open>mutex\<close> and \<open>semaphore\<close> (the wrappers for their clients), \<open>mpmc\<close> (a channel for
  its users), \<open>one_shot\<close> (an operation that succeeds once: device constructors, static kernel objects, starting
  the workers), \<open>assoc_store\<close> (maps by key: the thread-local store and the maps of the build tools),
  \<open>event_counter\<close> (timers that are read), \<open>time_driver\<close> and \<open>executor\<close> (Embassy over the kernel's timer and semaphore),
  \<open>fork_sync\<close> (the forks of the philosophers, over semaphores and over mutexes) and \<open>dining_progress\<close> (why every
  philosopher can get to eat, for each way to synchronise them), and \<open>crew_laws\<close> (a main thread that gives a command to
  its tasks and collects their totals, for the benchmarks; \<open>bench_kernel\<close>, \<open>async_env\<close>, \<open>emb_env\<close> and \<open>simple_env\<close> collect what each
  of them gets from outside, \<open>aphil_env\<close> and \<open>button_env\<close> do so for two more samples).

  \<^bold>\<open>Theories, sources and results.\<close>

  \<^item> \<open>Error_Time\<close>: \<open>error.rs\<close>, \<open>time.rs\<close>, \<open>sys.rs\<close>. Results of C calls become errors exactly when negative;
    durations and instants become relative and absolute timeouts, with the ranges where this fails.
  \<^item> \<open>Once\<close>, \<open>Kernel_Object\<close>: \<open>device.rs\<close>, \<open>object.rs\<close>. An object is initialised once however many threads race
    for it, and use after a move panics; a static object has one owner.
  \<^item> \<open>Sys_Queue\<close>, \<open>Sys_Sync\<close>: \<open>sys/queue.rs\<close>, \<open>sys/sync/mutex.rs\<close>, \<open>sys/sync/semaphore.rs\<close>. The wrappers keep the
    behaviour of the kernel objects: first in first out, recursive ownership, and exactly the answers of a bounded counter.
  \<^item> \<open>Counter\<close>, \<open>Channel\<close>, \<open>Channel_Concurrent\<close>: \<open>sync/channel/counter.rs\<close>, \<open>sync/channel.rs\<close>. The reference counter
    frees its memory once, whatever the order of drops; both flavors of channel refine a list of messages; in
    the bounded flavor with concurrent threads every slot of the message memory is in one place, so that no
    message is lost, repeated or read while it is written.
  \<^item> \<open>Mutex\<close>: \<open>sync/mutex.rs\<close>, \<open>sync/spinmutex.rs\<close>. At most one guard exists, also across waits on a condition
    variable; the outcomes of \<open>lock\<close> and \<open>try_lock\<close>.
  \<^item> \<open>Blocking\<close>: \<open>blocking.rs\<close>. Under every interleaving of polls, cancellations and workers the pool touches only
    live futures, runs a closure at most once, loses no slot and no wake-up.
  \<^item> \<open>Assoc_Store\<close>, \<open>Simple_Tls\<close>: \<open>simpletls.rs\<close>, with the binary search of the standard library (which ends on
    every vector). The store is a map.
  \<^item> \<open>Timer\<close>: \<open>timer.rs\<close>. The expiry interrupt reaches only live callbacks; simple timers count their expiries.
  \<^item> \<open>Threads\<close>: \<open>thread.rs\<close>, \<open>sys/thread.rs\<close>, the \<open>startup\<close> function of \<open>zephyr-macros\<close>. A thread of a pool finds the
    arguments it was given, once; the pool is never reused; spawned closures run once.
  \<^item> \<open>Work\<close>: \<open>work.rs\<close>. The reference count of a work item covers its queue entries and handlers, and counts the
    references that submissions leak; the current queue is found from its thread.
  \<^item> \<open>Gpio\<close>, \<open>I2c\<close>, \<open>Devices\<close>: \<open>device/gpio.rs\<close>, \<open>device/i2c\<close>, \<open>device/led.rs\<close>, \<open>device/led_strip.rs\<close>,
    \<open>device/flash.rs\<close>. Waits for a pin lose no event on one executor, and can lose one on two; transfers give the
    driver the right messages; a target is on at most one bus; every device is handed out once.
  \<^item> \<open>Printk\<close>: \<open>printk.rs\<close>. The output is complete, in order, and never splits a character of UTF-8, which is defined by the
    encoding of scalar values.
  \<^item> \<open>Logging\<close>: \<open>logging.rs\<close>, \<open>logging/\<close>. The logger of the configuration is installed once; its messages are exact.
  \<^item> \<open>Allocator\<close>: \<open>alloc_impl.rs\<close>. Blocks have the alignment and size of their layout and do not overlap; nothing leaks.
  \<^item> \<open>Embassy_Time\<close>, \<open>Embassy_Executor\<close>: \<open>embassy/time_driver.rs\<close>, \<open>embassy/executor.rs\<close>. The armed kernel timer covers
    the earliest pending time, the loops of the driver end, and every task that is enqueued gets run.
  \<^item> \<open>Task_Macro\<close>: \<open>zephyr-macros/src/task.rs\<close>. The checks accept exactly the functions they should; when the generated
    code meets the rules for its structure, its value and its call, and that it passes the arguments on.
  \<^item> \<open>Philosophers\<close>, \<open>Philosophers_Channel\<close>, \<open>Philosophers_Cond\<close>: the sample over semaphores and mutexes, over a fork
    server behind channels, and over a condition variable. No fork is in two hands, nobody panics, and everybody can
    always get to eat.
  \<^item> \<open>Token_Net\<close>, \<open>Crew\<close>: what the benchmarks share. The loops of the tasks are lists of operations on counters; a net of such loops
    is live if, however it is scheduled, somebody can go on until all are at their ends. A crew over a live net neither panics
    nor gets stuck, every execution of it ends, and the totals are exact.
  \<^item> \<open>Bench\<close>, \<open>Bench_Simple\<close>: \<open>samples/bench/src/lib.rs\<close>. Every command of the thread benchmark ends with the exact total and leaves the
    semaphores at zero; the work items that submit each other are each called as often as asked, and all freed.
  \<^item> \<open>Embassy_Sync\<close>, \<open>Bench_Async\<close>, \<open>Embassy_Sample\<close>: what the samples use of Embassy, \<open>samples/bench/src/executor.rs\<close> and
    \<open>samples/embassy/src/lib.rs\<close>. A test that starts idle ends with the exact total; the async benchmark does not wait for its tasks to
    leave their places, and then panics in the next test.
  \<^item> \<open>Async_Phil\<close>: \<open>samples/async-philosophers\<close>. Every execution ends, with every philosopher having eaten as often as it should.
  \<^item> \<open>Button_Sample\<close>: \<open>samples/button\<close>. Over the model of the GPIO component with its interrupt: no press and no release is lost or ignored,
    and the LED is lit while the button is held.
  \<^item> \<open>Dt_Ordmap\<close>, \<open>Devicetree\<close>, \<open>Dt_Parse\<close>, \<open>Dt_Output\<close>, \<open>Dt_Augment\<close>: \<open>zephyr-build/src/devicetree.rs\<close> and
    \<open>devicetree/\<close>. The ordinals are those of the generated header; every parse tree of the grammar becomes the tree
    of its names with its labels; phandles are resolved; numbers are read exactly; each announced \<open>cfg\<close> path is
    the path of a generated module; instances are generated for enabled devices.
  \<^item> \<open>Dt_Build\<close>, \<open>Build\<close>, \<open>Kconfig\<close>: \<open>zephyr-build/src/lib.rs\<close>. From the header and the parse tree to the linked tree; the
    generated code has the modules that are announced, and refers to no others, unless an augmentation asks for an
    ancestor above the root; the settings of the configuration file come back when the generated text is read.

  \<^bold>\<open>Bounds and termination.\<close> Loops over data are structural recursion, or have a termination proof (the binary
  search, the loop over pending pins). The loop of the time driver depends on the clock and is a
  \<open>partial_function (option)\<close>, proved to return, and so is the loop over the sizes of the benchmark. No definition uses fuel. The counts of the handles of a channel are words of their width (the strong count of a
  work item is a natural number: \<open>Arc\<close> aborts long before it wraps, and the model leaves that out); the
  properties that need them not to overflow say so as a hypothesis on the number of handles. That every philosopher
  can get to eat is shown with a measure of the work that is left, and so is the end of every execution of the benchmarks. Their
  counters are bounded by their totals, which must fit 32 bits.

  \<^bold>\<open>Not modelled.\<close> Running \<open>rustfmt\<close> on the generated code, and the parsers of the packages \<open>pest\<close>, \<open>syn\<close> and \<open>darling\<close>,
  whose results the model takes; the panic handler, which prints and halts; the generated bindings of \<open>zephyr-sys\<close>;
  the timing of the benchmarks, which is in floating point, and how their executors are started; the other samples and the tests, which
  drive the library and print what they do. The memory model is
  sequential consistency: the orderings of atomic operations are not distinguished.
\<close>

end
